(* ===== verification/Prelude.thy ===== *)
theory Prelude
  imports Main "HOL-Library.Word" "HOL-Library.Code_Target_Nat"
begin

text \<open>
  Shared vocabulary of the development: the machine integers of the C sources,
  big-endian and little-endian byte strings, the allocator that the C code calls,
  and the two interfaces (prefix codecs and keyed tables) that several components
  implement.
\<close>

unbundle bit_operations_syntax

type_synonym u8 = "8 word"
type_synonym u16 = "16 word"
type_synonym u32 = "32 word"
type_synonym u64 = "64 word"

text \<open>
  \<open>size_t\<close> values are natural numbers below \<open>2 ^ 64\<close> (the code is built for 64-bit
  targets); wherever the C code relies on wrap-around the reduction is written out with
  \<open>size_wrap\<close>.
\<close>

abbreviation SIZE_MOD :: nat where
  "SIZE_MOD \<equiv> 18446744073709551616"

definition size_wrap :: "nat \<Rightarrow> nat" where
  "size_wrap n = n mod SIZE_MOD"

abbreviation INT_MAX :: nat where
  "INT_MAX \<equiv> 2147483647"

named_theorems word_arith_simps

section \<open>Words as numbers\<close>

lemma size_wrap_small [simp]: "n < SIZE_MOD \<Longrightarrow> size_wrap n = n"
  by (simp add: size_wrap_def)

lemma size_wrap_less [simp]: "size_wrap n < SIZE_MOD"
  by (simp add: size_wrap_def)

lemma size_wrap_overflow_iff:
  assumes "a < SIZE_MOD" "b < SIZE_MOD"
  shows "size_wrap (a + b) < a \<longleftrightarrow> SIZE_MOD \<le> a + b"
  using assms unfolding size_wrap_def
  by (cases "a + b < SIZE_MOD") (auto simp: mod_if)

lemma unat_u8_less [simp]: "unat (b :: u8) < 256"
  using unsigned_less [of b] by simp

lemma of_nat_unat_word: "of_nat (unat w) = (w :: 'a::len word)"
  by (simp add: word_unat_eq_iff unat_of_nat)

lemma sint_of_nat_u64:
  assumes "n < 2 ^ 64"
  shows "sint (of_nat n :: u64) = int n - (if n < 2 ^ 63 then 0 else 2 ^ 64)"
proof -
  have u: "uint (of_nat n :: u64) = int n"
    using assms by (simp add: unsigned_of_nat take_bit_nat_eq_self)
  have "sint (of_nat n :: u64) = signed_take_bit 63 (int n)"
    by (simp add: sint_uint u)
  also have "\<dots> = int n - (if n < 2 ^ 63 then 0 else 2 ^ 64)"
  proof (cases "n < 2 ^ 63")
    case True
    then show ?thesis by (simp add: signed_take_bit_int_eq_self)
  next
    case False
    have "take_bit 64 (int n + 2 ^ 63) = (int n - 2 ^ 63 + 2 ^ 64) mod 2 ^ 64"
      by (simp add: take_bit_eq_mod add.commute)
    also have "\<dots> = int n - 2 ^ 63"
      using False assms by (simp only: mod_add_self2) (simp add: mod_pos_pos_trivial)
    finally show ?thesis
      using False signed_take_bit_eq_take_bit_shift [of 63 "int n"] by simp
  qed
  finally show ?thesis .
qed

lemma sint_u64:
  "sint (v :: u64) = (if unat v < 2 ^ 63 then int (unat v) else int (unat v) - 2 ^ 64)"
proof -
  have "unat v < 2 ^ 64" using unsigned_less [where ?'a = nat, of v] by simp
  from sint_of_nat_u64 [OF this] show ?thesis by (simp add: of_nat_unat_word)
qed

text \<open>Shifting in \<open>k\<close> zero bits and or-ing a value below \<open>2 ^ k\<close> is an addition.\<close>

lemma push_bit_or_eq_add:
  fixes x y :: "'a::len word"
  assumes "unat y < 2 ^ k"
  shows "push_bit k x OR y = push_bit k x + y"
proof -
  have y: "take_bit k y = y"
    using assms by (simp add: word_unat_eq_iff unsigned_take_bit_eq take_bit_nat_eq_self)
  have "push_bit k x AND take_bit k y = 0"
    by (rule bit_word_eqI) (auto simp: bit_simps)
  then have "push_bit k x AND y = 0"
    by (simp only: y)
  then show ?thesis
    by (simp add: disjunctive_add_eq_or)
qed

lemma unat_push_bit_or:
  fixes x y :: "'a::len word"
  assumes y: "unat y < 2 ^ k" and fits: "unat x * 2 ^ k + unat y < 2 ^ LENGTH('a)"
  shows "unat (push_bit k x OR y) = unat x * 2 ^ k + unat y"
proof -
  have "unat (push_bit k x) = take_bit LENGTH('a) (push_bit k (unat x))"
    by (rule unsigned_push_bit_eq)
  moreover have "push_bit k (unat x) = unat x * 2 ^ k"
    by (rule push_bit_eq_mult)
  ultimately have x: "unat (push_bit k x) = unat x * 2 ^ k"
    using fits by (simp only: take_bit_nat_eq_self_iff)
  show ?thesis
    using fits x by (subst push_bit_or_eq_add [OF y], subst unat_add_lem [THEN iffD1]) simp_all
qed

lemma unat_ucast_u8 [simp]:
  "LENGTH('a::len) \<ge> 8 \<Longrightarrow> unat (ucast (b :: u8) :: 'a word) = unat b"
proof -
  assume "LENGTH('a) \<ge> 8"
  then have "(256::nat) \<le> 2 ^ LENGTH('a)"
    using power_increasing [of 8 "LENGTH('a)" "2::nat"] by simp
  then have "unat b < 2 ^ LENGTH('a)"
    using unat_u8_less [of b] by linarith
  then show ?thesis
    by (simp add: unsigned_ucast_eq take_bit_nat_eq_self)
qed

lemma unat_and_mask:
  "unat (x AND mask n :: 'a::len word) = unat x mod 2 ^ n"
  by (simp only: take_bit_eq_mask [symmetric] unsigned_take_bit_eq take_bit_eq_mod [where 'a = nat])

lemma unat_drop_bit: "unat (drop_bit n x :: 'a::len word) = unat x div 2 ^ n"
  by (simp only: unat_drop_bit_eq drop_bit_eq_div [where 'a = nat])

section \<open>Byte strings as numbers\<close>

text \<open>\<open>be_val bs\<close> reads a byte string most significant byte first.\<close>

definition be_val :: "u8 list \<Rightarrow> nat" where
  "be_val bs = foldl (\<lambda>n b. n * 256 + unat b) 0 bs"

text \<open>\<open>be_bytes n v\<close> is the \<open>n\<close>-byte big-endian encoding of \<open>v\<close> modulo \<open>256 ^ n\<close>.\<close>

fun be_bytes :: "nat \<Rightarrow> nat \<Rightarrow> u8 list" where
  "be_bytes 0 v = []"
| "be_bytes (Suc n) v = be_bytes n (v div 256) @ [of_nat v]"

lemma be_val_Nil [simp]: "be_val [] = 0"
  by (simp add: be_val_def)

lemma be_val_snoc [simp]: "be_val (bs @ [b]) = be_val bs * 256 + unat b"
  by (simp add: be_val_def)

lemma be_val_single [simp]: "be_val [b] = unat b"
  by (simp add: be_val_def)

lemma be_val_append: "be_val (as @ bs) = be_val as * 256 ^ length bs + be_val bs"
proof (induction bs rule: rev_induct)
  case Nil
  then show ?case by simp
next
  case (snoc b bs)
  have "be_val (as @ bs @ [b]) = be_val (as @ bs) * 256 + unat b"
    by (metis append_assoc be_val_snoc)
  with snoc show ?case by (simp add: algebra_simps)
qed

lemma be_val_Cons: "be_val (b # bs) = unat b * 256 ^ length bs + be_val bs"
  using be_val_append [of "[b]" bs] by simp

lemma be_val_less: "be_val bs < 256 ^ length bs"
proof (induction bs rule: rev_induct)
  case Nil
  then show ?case by simp
next
  case (snoc b bs)
  have "be_val bs * 256 + 256 \<le> 256 * 256 ^ length bs"
    using snoc by simp
  then have "be_val bs * 256 + unat b < 256 * 256 ^ length bs"
    using unat_u8_less [of b] by linarith
  then show ?case
    by simp
qed

lemma length_be_bytes [simp]: "length (be_bytes n v) = n"
  by (induction n arbitrary: v) auto

lemma unat_of_nat_u8: "unat (of_nat v :: u8) = v mod 256"
  by (simp add: unat_of_nat)

lemma be_val_be_bytes: "be_val (be_bytes n v) = v mod 256 ^ n"
proof (induction n arbitrary: v)
  case 0
  then show ?case by simp
next
  case (Suc n)
  have "(v div 256) mod 256 ^ n * 256 + v mod 256 = v mod 256 ^ Suc n"
    using mod_mult2_eq [of v 256 "256 ^ n"] by (simp add: mult.commute add.commute)
  with Suc show ?case by (simp add: unat_of_nat_u8)
qed

lemma be_bytes_be_val: "be_bytes (length bs) (be_val bs) = bs"
proof (induction bs rule: rev_induct)
  case Nil
  then show ?case by simp
next
  case (snoc b bs)
  have "(be_val bs * 256 + unat b) div 256 = be_val bs"
    using unat_u8_less [of b] by simp
  moreover have "(of_nat (be_val bs * 256 + unat b) :: u8) = b"
    by (simp only: word_unat_eq_iff unat_of_nat_u8) simp
  ultimately have "be_bytes (Suc (length bs)) (be_val bs * 256 + unat b) = be_bytes (length bs) (be_val bs) @ [b]"
    by (simp only: be_bytes.simps)
  with snoc show ?case
    by (simp only: length_append_singleton be_val_snoc)
qed

lemma be_val_inject:
  assumes "length as = length bs" "be_val as = be_val bs"
  shows "as = bs"
  by (metis assms be_bytes_be_val)

text \<open>\<open>le_bytes n v\<close> is the \<open>n\<close>-byte little-endian encoding of \<open>v\<close> modulo \<open>256 ^ n\<close>.\<close>

definition le_bytes :: "nat \<Rightarrow> nat \<Rightarrow> u8 list" where
  "le_bytes n v = rev (be_bytes n v)"

definition le_val :: "u8 list \<Rightarrow> nat" where
  "le_val bs = be_val (rev bs)"

lemma length_le_bytes [simp]: "length (le_bytes n v) = n"
  by (simp add: le_bytes_def)

lemma le_val_less: "le_val bs < 256 ^ length bs"
  using be_val_less [of "rev bs"] by (simp add: le_val_def)

lemma le_val_le_bytes: "le_val (le_bytes n v) = v mod 256 ^ n"
  by (simp add: le_val_def le_bytes_def be_val_be_bytes)

lemma le_bytes_Suc: "le_bytes (Suc n) v = of_nat v # le_bytes n (v div 256)"
  by (simp add: le_bytes_def)

lemma le_bytes_le_val: "le_bytes (length bs) (le_val bs) = bs"
  using be_bytes_be_val [of "rev bs"] by (simp add: le_bytes_def le_val_def)

section \<open>Bytes below and above 0x80\<close>

lemma u8_div_128: "unat (b :: u8) div 128 = (if unat b < 128 then 0 else 1)"
proof (cases "unat b < 128")
  case False
  then have "unat b div 128 = 1"
    using unat_u8_less [of b] by (intro div_nat_eqI) simp_all
  with False show ?thesis by simp
qed simp

lemma u8_mod_128: "unat (b :: u8) mod 128 = (if unat b < 128 then unat b else unat b - 128)"
proof (cases "unat b < 128")
  case False
  then show ?thesis
    using u8_div_128 [of b] div_mult_mod_eq [of "unat b" 128] by simp
qed simp

lemma u8_and_0x80: "(b :: u8) AND 0x80 = 0 \<longleftrightarrow> unat b < 128"
proof -
  have "b AND 0x80 = 0 \<longleftrightarrow> \<not> bit b 7"
    using and_exp_eq_0_iff_not_bit [of b 7] by simp
  also have "bit b 7 \<longleftrightarrow> bit (unat b) 7"
    by (simp add: bit_unsigned_iff)
  also have "bit (unat b) 7 \<longleftrightarrow> odd (unat b div 128)"
    by (simp only: bit_iff_odd) simp
  also have "\<dots> \<longleftrightarrow> 128 \<le> unat b"
    using u8_div_128 [of b] by auto
  finally show ?thesis by (simp add: not_le)
qed

lemma unat_u8_and_0x7f: "unat ((b :: u8) AND 0x7f) = unat b mod 128"
  using unat_and_mask [of b 7] by (simp add: mask_eq_exp_minus_1)

lemma unat_and_0x1f: "unat ((x :: 'a::len word) AND 0x1f) = unat x mod 32"
  using unat_and_mask [of x 5] by (simp add: mask_eq_exp_minus_1)

text \<open>The leading bits of a byte say in which range it lies.\<close>

lemma and_not_mask_eq_iff:
  "(c AND NOT (mask n) = (t :: u8) AND NOT (mask n)) \<longleftrightarrow> unat c div 2 ^ n = unat t div 2 ^ n"
proof -
  have p: "x AND NOT (mask n) = push_bit n (drop_bit n x)" for x :: u8
    by (rule bit_word_eqI) (auto simp: bit_simps)
  have d: "drop_bit n (push_bit n (drop_bit n x)) = drop_bit n x" for x :: u8
    by (rule bit_word_eqI) (auto simp: bit_simps dest: bit_imp_le_length)
  have "(c AND NOT (mask n) = t AND NOT (mask n)) \<longleftrightarrow> drop_bit n c = drop_bit n t"
    unfolding p by (metis d)
  also have "\<dots> \<longleftrightarrow> unat c div 2 ^ n = unat t div 2 ^ n"
    by (simp add: word_unat_eq_iff unat_drop_bit)
  finally show ?thesis .
qed

lemma unat_of_nat_u8_less: "n < 256 \<Longrightarrow> unat (of_nat n :: u8) = n"
  by (simp add: unat_of_nat_u8)

section \<open>Calls that can fail\<close>

text \<open>
  Most C functions of the development return one or zero, write their results through
  pointers and update the object they work on even when they fail. The model returns the
  result (\<open>None\<close> for zero) with the updated object; \<open>on_success\<close> is the early return.
\<close>

definition on_success ::
  "'a option \<times> 's \<Rightarrow> ('a \<Rightarrow> 's \<Rightarrow> 'b option \<times> 's) \<Rightarrow> 'b option \<times> 's" where
  "on_success r f = (case r of (None, s) \<Rightarrow> (None, s) | (Some a, s) \<Rightarrow> f a s)"

lemma on_success_simps [simp]:
  "on_success (None, s) f = (None, s)"
  "on_success (Some a, s) f = f a s"
  by (simp_all add: on_success_def)

lemma on_success_Some_iff:
  "on_success r f = (Some b, s') \<longleftrightarrow> (\<exists>a s. r = (Some a, s) \<and> f a s = (Some b, s'))"
  by (cases r) (auto simp: on_success_def split: option.splits)

lemma on_success_cong [fundef_cong]:
  "\<lbrakk>r = r'; \<And>a s. r' = (Some a, s) \<Longrightarrow> f a s = g a s\<rbrakk> \<Longrightarrow> on_success r f = on_success r' g"
  by (auto simp: on_success_def split: prod.splits option.splits)

lemma on_success_SomeE:
  assumes "on_success r f = (Some b, s')"
  obtains a s where "r = (Some a, s)" "f a s = (Some b, s')"
  using assms by (auto simp: on_success_Some_iff)

section \<open>The allocator\<close>

text \<open>
  \<open>malloc\<close> and \<open>realloc\<close> belong to the C library. The model takes them as an argument: which
  request sizes are granted, and the byte an uninitialised cell holds.
\<close>

record heap =
  grants :: "nat \<Rightarrow> bool"
  junk :: "nat \<Rightarrow> u8"

text \<open>\<open>OPENSSL_realloc\<close> keeps the old bytes and leaves the new ones uninitialised.\<close>

definition fresh_bytes :: "heap \<Rightarrow> nat \<Rightarrow> nat \<Rightarrow> u8 list" where
  "fresh_bytes h from to = map (junk h) [from..<to]"

lemma length_fresh_bytes [simp]: "length (fresh_bytes h m n) = n - m"
  by (simp add: fresh_bytes_def)

text \<open>\<open>malloc\<close> does not grant more than \<open>PTRDIFF_MAX\<close> bytes.\<close>

definition heap_ok :: "heap \<Rightarrow> bool" where
  "heap_ok h \<longleftrightarrow> (\<forall>n. grants h n \<longrightarrow> n < 2 ^ 63)"

text \<open>A heap for concrete runs, with room for requests below 4096 bytes.\<close>

definition all_grants :: heap where
  "all_grants = \<lparr>grants = (\<lambda>n. n < 4096), junk = (\<lambda>_. 0xcd)\<rparr>"

lemma heap_ok_all_grants: "heap_ok all_grants"
  by (simp add: heap_ok_def all_grants_def)

section \<open>Copying into memory\<close>

text \<open>\<open>memcpy\<close> of \<open>bs\<close> to the offset \<open>dst\<close> of the block \<open>p\<close>.\<close>

definition mem_put :: "u8 list \<Rightarrow> nat \<Rightarrow> u8 list \<Rightarrow> u8 list" where
  "mem_put p dst bs = take dst p @ bs @ drop (dst + length bs) p"

lemma length_mem_put: "off + length bs \<le> length p \<Longrightarrow> length (mem_put p off bs) = length p"
  by (simp add: mem_put_def)

lemma take_mem_put:
  assumes "take n p = as @ zs @ cs" "length zs = length bs" "n \<le> length p"
  shows "take n (mem_put p (length as) bs) = as @ bs @ cs"
proof -
  have n: "n = length as + length bs + length cs"
    using arg_cong [OF assms(1), of length] assms(2,3) by simp
  have "take (length as) p = as"
    using arg_cong [OF assms(1), of "take (length as)"] n by (simp add: min_def split: if_splits)
  moreover have "take (length cs) (drop (length as + length bs) p) = cs"
    using arg_cong [OF assms(1), of "drop (length as + length bs)"] n assms(2) by (simp add: drop_take)
  ultimately show ?thesis
    using n by (simp add: mem_put_def)
qed

section \<open>Interface: prefix codecs\<close>

text \<open>
  An encoder and a decoder that hands back the bytes it did not consume. Its law is the
  round trip in front of any continuation; from it follow injectivity, prefix-freeness and
  the round trip for sequences. The wire formats of nanopb, DER and UTF-8 are instances.
\<close>

locale prefix_codec =
  fixes enc :: "'a \<Rightarrow> u8 list"
    and dec :: "u8 list \<Rightarrow> ('a \<times> u8 list) option"
    and ok :: "'a \<Rightarrow> bool"
  assumes dec_enc: "ok x \<Longrightarrow> dec (enc x @ rest) = Some (x, rest)"
begin

lemma enc_append_inject:
  assumes "ok x" "ok y" "enc x @ r = enc y @ s"
  shows "x = y \<and> r = s"
  by (metis assms dec_enc option.inject prod.inject)

lemma enc_inject: "ok x \<Longrightarrow> ok y \<Longrightarrow> enc x = enc y \<Longrightarrow> x = y"
  using enc_append_inject [of x y "[]" "[]"] by simp

lemma enc_prefix_free: "ok x \<Longrightarrow> ok y \<Longrightarrow> enc x = enc y @ s \<Longrightarrow> s = []"
  using enc_append_inject [of x y "[]" s] by simp

fun dec_many :: "nat \<Rightarrow> u8 list \<Rightarrow> ('a list \<times> u8 list) option" where
  "dec_many 0 bs = Some ([], bs)"
| "dec_many (Suc n) bs =
     (case dec bs of
        None \<Rightarrow> None
      | Some (x, r) \<Rightarrow>
          (case dec_many n r of None \<Rightarrow> None | Some (xs, r') \<Rightarrow> Some (x # xs, r')))"

lemma dec_many_enc:
  "\<forall>x\<in>set xs. ok x \<Longrightarrow> dec_many (length xs) (concat (map enc xs) @ rest) = Some (xs, rest)"
proof (induction xs)
  case Nil
  then show ?case by simp
next
  case (Cons x xs)
  then have "dec (enc x @ (concat (map enc xs) @ rest)) = Some (x, concat (map enc xs) @ rest)"
    by (intro dec_enc) simp
  with Cons show ?case by simp
qed

lemma concat_enc_inject:
  assumes "\<forall>x\<in>set xs. ok x" "\<forall>y\<in>set ys. ok y" "length xs = length ys"
    and "concat (map enc xs) = concat (map enc ys)"
  shows "xs = ys"
  by (metis assms dec_many_enc option.inject prod.inject)

end

section \<open>Interface: keyed tables\<close>

text \<open>
  What a table promises its clients, through the finite map it stands for. Every operation runs in
  an environment of its own (what memory the allocator grants). Replacing an item never fails; a
  new one is refused exactly when the environment has no \<open>room\<close> for it, and then the map stays as
  it is. Insertion and removal return the item they displace.
\<close>

datatype 'v table_op = Insert_Item 'v | Remove_Item 'v | Find_Item 'v

text \<open>A client's sequence of operations with their environments, and what each returned.\<close>

fun run_ops ::
  "('h \<Rightarrow> 'v \<Rightarrow> 't \<Rightarrow> bool \<times> 'v option \<times> 't) \<Rightarrow> ('h \<Rightarrow> 'v \<Rightarrow> 't \<Rightarrow> 'v option \<times> 't) \<Rightarrow> ('v \<Rightarrow> 't \<Rightarrow> 'v option) \<Rightarrow>
     ('h \<times> 'v table_op) list \<Rightarrow> 't \<Rightarrow> (bool \<times> 'v option) list \<times> 't" where
  "run_ops ins rem fnd [] t = ([], t)"
| "run_ops ins rem fnd ((h, Insert_Item v) # ops) t =
     (case ins h v t of (ok, old, t') \<Rightarrow> apfst (Cons (ok, old)) (run_ops ins rem fnd ops t'))"
| "run_ops ins rem fnd ((h, Remove_Item v) # ops) t =
     (case rem h v t of (old, t') \<Rightarrow> apfst (Cons (True, old)) (run_ops ins rem fnd ops t'))"
| "run_ops ins rem fnd ((h, Find_Item v) # ops) t = apfst (Cons (True, fnd v t)) (run_ops ins rem fnd ops t)"

text \<open>The same sequence on a map.\<close>

fun map_ops ::
  "('h \<Rightarrow> bool) \<Rightarrow> ('v \<Rightarrow> 'k) \<Rightarrow> ('h \<times> 'v table_op) list \<Rightarrow> ('k \<Rightarrow> 'v option) \<Rightarrow>
     (bool \<times> 'v option) list \<times> ('k \<Rightarrow> 'v option)" where
  "map_ops room key [] m = ([], m)"
| "map_ops room key ((h, Insert_Item v) # ops) m =
     (if m (key v) \<noteq> None \<or> room h then apfst (Cons (True, m (key v))) (map_ops room key ops (m(key v \<mapsto> v)))
      else apfst (Cons (False, None)) (map_ops room key ops m))"
| "map_ops room key ((h, Remove_Item v) # ops) m =
     apfst (Cons (True, m (key v))) (map_ops room key ops (m(key v := None)))"
| "map_ops room key ((h, Find_Item v) # ops) m = apfst (Cons (True, m (key v))) (map_ops room key ops m)"

locale keyed_table =
  fixes lookup :: "'t \<Rightarrow> 'k \<Rightarrow> 'v option"
    and insert_item :: "'h \<Rightarrow> 'v \<Rightarrow> 't \<Rightarrow> bool \<times> 'v option \<times> 't"
    and remove_item :: "'h \<Rightarrow> 'v \<Rightarrow> 't \<Rightarrow> 'v option \<times> 't"
    and find_item :: "'v \<Rightarrow> 't \<Rightarrow> 'v option"
    and key_of :: "'v \<Rightarrow> 'k"
    and inv :: "'t \<Rightarrow> bool"
    and room :: "'h \<Rightarrow> bool"
  assumes inv_insert: "\<lbrakk>inv t; insert_item h v t = (ok, old, t')\<rbrakk> \<Longrightarrow> inv t'"
    and inv_remove: "\<lbrakk>inv t; remove_item h v t = (old, t')\<rbrakk> \<Longrightarrow> inv t'"
    and insert_refused: "\<lbrakk>inv t; insert_item h v t = (ok, old, t')\<rbrakk> \<Longrightarrow> ok = (lookup t (key_of v) \<noteq> None \<or> room h)"
    and lookup_insert: "\<lbrakk>inv t; insert_item h v t = (ok, old, t')\<rbrakk> \<Longrightarrow>
      lookup t' = (if ok then (lookup t)(key_of v \<mapsto> v) else lookup t) \<and>
      old = (if ok then lookup t (key_of v) else None)"
    and lookup_remove: "\<lbrakk>inv t; remove_item h v t = (old, t')\<rbrakk> \<Longrightarrow>
      lookup t' = (lookup t)(key_of v := None) \<and> old = lookup t (key_of v)"
    and find_lookup: "inv t \<Longrightarrow> find_item v t = lookup t (key_of v)"
begin

abbreviation run :: "('h \<times> 'v table_op) list \<Rightarrow> 't \<Rightarrow> (bool \<times> 'v option) list \<times> 't" where
  "run \<equiv> run_ops insert_item remove_item find_item"

lemma run_ops_refines:
  assumes "inv t" "run ops t = (rs, t')"
  shows "inv t' \<and> map_ops room key_of ops (lookup t) = (rs, lookup t')"
  using assms
proof (induction ops arbitrary: t rs)
  case (Cons step ops)
  obtain h oper where step: "step = (h, oper)" by (metis prod.exhaust)
  show ?case
  proof (cases oper)
    case (Insert_Item v)
    obtain ok old t1 where ins: "insert_item h v t = (ok, old, t1)" by (metis prod_cases3)
    obtain rs1 where run: "run ops t1 = (rs1, t')" "rs = (ok, old) # rs1"
      using Cons.prems(2) ins Insert_Item step by (cases "run ops t1") auto
    have "inv t' \<and> map_ops room key_of ops (lookup t1) = (rs1, lookup t')"
      by (rule Cons.IH [OF inv_insert [OF Cons.prems(1) ins] run(1)])
    then show ?thesis
      using lookup_insert [OF Cons.prems(1) ins] insert_refused [OF Cons.prems(1) ins] run(2) Insert_Item step
      by (cases ok) simp_all
  next
    case (Remove_Item v)
    obtain old t1 where rem: "remove_item h v t = (old, t1)" by (metis prod.exhaust)
    obtain rs1 where run: "run ops t1 = (rs1, t')" "rs = (True, old) # rs1"
      using Cons.prems(2) rem Remove_Item step by (cases "run ops t1") auto
    have "inv t' \<and> map_ops room key_of ops (lookup t1) = (rs1, lookup t')"
      by (rule Cons.IH [OF inv_remove [OF Cons.prems(1) rem] run(1)])
    then show ?thesis
      using lookup_remove [OF Cons.prems(1) rem] run(2) Remove_Item step by simp
  next
    case (Find_Item v)
    obtain rs1 where run: "run ops t = (rs1, t')" "rs = (True, find_item v t) # rs1"
      using Cons.prems(2) Find_Item step by (cases "run ops t") auto
    have "inv t' \<and> map_ops room key_of ops (lookup t) = (rs1, lookup t')"
      by (rule Cons.IH [OF Cons.prems(1) run(1)])
    then show ?thesis
      using find_lookup [OF Cons.prems(1)] run(2) Find_Item step by simp
  qed
qed simp

end

end
