(* ===== verification/Crypto_Mem.thy ===== *)
theory Crypto_Mem
  imports Prelude
begin

text \<open>
  The allocation and C-string helpers of \<open>crypto/mem.c\<close> and the byte-order helpers of
  \<open>crypto/internal.h\<close> (BoringSSL-GRPC). A block of memory is the list of its bytes, a C string
  the bytes up to and including its terminator; reading past the end of a list is \<open>None\<close>.
\<close>

section \<open>Allocation\<close>

definition OPENSSL_MALLOC_PREFIX :: nat where
  "OPENSSL_MALLOC_PREFIX = 8"

text \<open>
  The block \<open>malloc\<close> returns has \<open>sz + 8\<close> bytes modulo \<open>2 ^ 64\<close>: the code does not check the
  addition. The result is what lies behind the returned pointer.
\<close>

definition OPENSSL_malloc :: "heap \<Rightarrow> nat \<Rightarrow> u8 list option" where
  "OPENSSL_malloc h sz =
     (let total = size_wrap (sz + OPENSSL_MALLOC_PREFIX)
      in if grants h total then Some (fresh_bytes h 0 (total - OPENSSL_MALLOC_PREFIX)) else None)"

definition OPENSSL_cleanse :: "u8 list \<Rightarrow> nat \<Rightarrow> u8 list" where
  "OPENSSL_cleanse p len = replicate len 0 @ drop len p"

text \<open>
  What the freed block (with its prefix, which holds the sz) contains when it is handed
  back to the C library; \<open>None\<close> is the null pointer.
\<close>

definition OPENSSL_free :: "(nat \<times> u8 list) option \<Rightarrow> u8 list option" where
  "OPENSSL_free p =
     (case p of
        None \<Rightarrow> None
      | Some (sz, block) \<Rightarrow>
          Some (OPENSSL_cleanse (le_bytes OPENSSL_MALLOC_PREFIX sz @ block)
                  (sz + OPENSSL_MALLOC_PREFIX)))"

definition OPENSSL_realloc :: "heap \<Rightarrow> (nat \<times> u8 list) option \<Rightarrow> nat \<Rightarrow> u8 list option" where
  "OPENSSL_realloc h orig new_size =
     (case orig of
        None \<Rightarrow> OPENSSL_malloc h new_size
      | Some (old_size, old) \<Rightarrow>
          (case OPENSSL_malloc h new_size of
             None \<Rightarrow> None
           | Some ret \<Rightarrow>
               (let to_copy = (if old_size < new_size then old_size else new_size)
                in Some (take to_copy old @ drop to_copy ret))))"

definition OPENSSL_memdup :: "heap \<Rightarrow> u8 list \<Rightarrow> nat \<Rightarrow> u8 list option" where
  "OPENSSL_memdup h p sz =
     (if sz = 0 then None
      else case OPENSSL_malloc h sz of
             None \<Rightarrow> None
           | Some ret \<Rightarrow> Some (take sz p @ drop sz ret))"

lemma OPENSSL_malloc_length:
  assumes "sz + 8 < SIZE_MOD" "OPENSSL_malloc h sz = Some b"
  shows "length b = sz"
  using assms by (auto simp: OPENSSL_malloc_def OPENSSL_MALLOC_PREFIX_def Let_def split: if_splits)

lemma OPENSSL_malloc_Some_iff:
  "sz + 8 < SIZE_MOD \<Longrightarrow> (\<exists>b. OPENSSL_malloc h sz = Some b) \<longleftrightarrow> grants h (sz + 8)"
  by (auto simp: OPENSSL_malloc_def OPENSSL_MALLOC_PREFIX_def Let_def)

lemma OPENSSL_memdup_eq:
  assumes "0 < sz" "sz + 8 < SIZE_MOD"
  shows "OPENSSL_memdup h p sz = (if grants h (sz + 8) then Some (take sz p) else None)"
  using assms OPENSSL_malloc_length [of sz h]
  by (auto simp: OPENSSL_memdup_def OPENSSL_malloc_def OPENSSL_MALLOC_PREFIX_def Let_def)

lemma OPENSSL_realloc_grow:
  assumes "length old = old_size" "old_size \<le> new_size" "new_size + 8 < SIZE_MOD"
  shows "OPENSSL_realloc h (Some (old_size, old)) new_size =
           (if grants h (new_size + 8) then Some (old @ fresh_bytes h old_size new_size) else None)"
proof -
  have "drop old_size (fresh_bytes h 0 new_size) = fresh_bytes h old_size new_size"
    by (simp add: fresh_bytes_def drop_map)
  then show ?thesis
    using assms
    by (auto simp: OPENSSL_realloc_def OPENSSL_malloc_def OPENSSL_MALLOC_PREFIX_def Let_def)
qed

text \<open>Requests within eight bytes of \<open>2 ^ 64\<close> are granted with an empty block.\<close>

lemma OPENSSL_malloc_wrapped:
  assumes "SIZE_MOD \<le> sz + 8" "sz < SIZE_MOD" "grants h (sz + 8 - SIZE_MOD)"
  shows "OPENSSL_malloc h sz = Some []"
proof -
  have "size_wrap (sz + 8) = sz + 8 - SIZE_MOD"
    using assms(1,2) unfolding size_wrap_def
    by (subst le_mod_geq) simp_all
  moreover have "sz + 8 - SIZE_MOD - 8 = 0"
    using assms(2) by simp
  ultimately show ?thesis
    using assms(3) by (simp add: OPENSSL_malloc_def OPENSSL_MALLOC_PREFIX_def fresh_bytes_def Let_def)
qed

section \<open>Comparison and hashing\<close>

text \<open>
  \<open>memcmp\<close> compares bytes as unsigned; the C standard fixes only the sign of its result, here the
  difference of the first two bytes that differ.
\<close>

fun memcmp :: "u8 list \<Rightarrow> u8 list \<Rightarrow> nat \<Rightarrow> int" where
  "memcmp a b 0 = 0"
| "memcmp (x # a) (y # b) (Suc n) = (if x = y then memcmp a b n else uint x - uint y)"
| "memcmp a b (Suc n) = 0"

lemma memcmp_code [code]:
  "memcmp a b n =
     (if n = 0 then 0
      else case (a, b) of
        (x # a', y # b') \<Rightarrow> if x = y then memcmp a' b' (n - 1) else uint x - uint y
      | _ \<Rightarrow> 0)"
  by (cases a; cases b; cases n) simp_all

definition OPENSSL_memcmp :: "u8 list \<Rightarrow> u8 list \<Rightarrow> nat \<Rightarrow> int" where
  "OPENSSL_memcmp s1 s2 n = (if n = 0 then 0 else memcmp s1 s2 n)"

definition CRYPTO_memcmp :: "u8 list \<Rightarrow> u8 list \<Rightarrow> nat \<Rightarrow> u8" where
  "CRYPTO_memcmp a b len = foldl (\<lambda>x i. x OR (a ! i XOR b ! i)) 0 [0..<len]"

definition OPENSSL_hash32 :: "u8 list \<Rightarrow> nat \<Rightarrow> u32" where
  "OPENSSL_hash32 p len = foldl (\<lambda>h b. (h XOR ucast b) * 16777619) 2166136261 (take len p)"

lemma memcmp_fold_zero_iff:
  "foldl (\<lambda>x i. x OR (a ! i XOR b ! i)) (0 :: u8) is = 0 \<longleftrightarrow> (\<forall>i\<in>set is. a ! i = b ! i)"
proof (induction "is" rule: rev_induct)
  case Nil
  then show ?case by simp
next
  case (snoc i "is")
  have "x OR (a ! i XOR b ! i) = 0 \<longleftrightarrow> x = 0 \<and> a ! i = b ! i" for x :: u8
    by (simp add: or_eq_0_iff) (metis xor.right_neutral xor_self_eq xor.left_commute)
  with snoc show ?case by auto
qed

lemma CRYPTO_memcmp_zero_iff:
  assumes "len \<le> length a" "len \<le> length b"
  shows "CRYPTO_memcmp a b len = 0 \<longleftrightarrow> take len a = take len b"
  using assms by (auto simp: CRYPTO_memcmp_def memcmp_fold_zero_iff list_eq_iff_nth_eq)

section \<open>C strings\<close>

fun OPENSSL_strnlen :: "u8 list \<Rightarrow> nat \<Rightarrow> nat" where
  "OPENSSL_strnlen s 0 = 0"
| "OPENSSL_strnlen [] (Suc n) = 0"
| "OPENSSL_strnlen (c # s) (Suc n) = (if c = 0 then 0 else Suc (OPENSSL_strnlen s n))"

fun c_strlen :: "u8 list \<Rightarrow> nat option" where
  "c_strlen [] = None"
| "c_strlen (c # s) = (if c = 0 then Some 0 else map_option Suc (c_strlen s))"

definition OPENSSL_strdup :: "heap \<Rightarrow> u8 list option \<Rightarrow> u8 list option" where
  "OPENSSL_strdup h s =
     (case s of
        None \<Rightarrow> None
      | Some str \<Rightarrow>
          (case c_strlen str of
             None \<Rightarrow> None
           | Some n \<Rightarrow>
               (case OPENSSL_malloc h (n + 1) of
                  None \<Rightarrow> None
                | Some ret \<Rightarrow> Some (take (n + 1) str @ drop (n + 1) ret))))"

definition OPENSSL_strndup :: "heap \<Rightarrow> u8 list option \<Rightarrow> nat \<Rightarrow> u8 list option" where
  "OPENSSL_strndup h s sz =
     (case s of
        None \<Rightarrow> None
      | Some str \<Rightarrow>
          (let n = OPENSSL_strnlen str sz; alloc_size = size_wrap (n + 1)
           in if alloc_size < n then None
              else case OPENSSL_malloc h alloc_size of
                     None \<Rightarrow> None
                   | Some ret \<Rightarrow> Some ((take n str @ drop n ret)[n := 0])))"

text \<open>\<open>char\<close> is signed on the targets of the build, so a byte promotes to \<open>sint\<close>.\<close>

definition OPENSSL_tolower :: "int \<Rightarrow> int" where
  "OPENSSL_tolower c = (if 65 \<le> c \<and> c \<le> 90 then c + (97 - 65) else c)"

fun OPENSSL_strcasecmp :: "u8 list \<Rightarrow> u8 list \<Rightarrow> int option" where
  "OPENSSL_strcasecmp (a # as) (b # bs) =
     (let aa = OPENSSL_tolower (sint a); bb = OPENSSL_tolower (sint b)
      in if aa < bb then Some (-1)
         else if aa > bb then Some 1
         else if aa = 0 then Some 0
         else OPENSSL_strcasecmp as bs)"
| "OPENSSL_strcasecmp _ _ = None"

fun OPENSSL_strncasecmp :: "u8 list \<Rightarrow> u8 list \<Rightarrow> nat \<Rightarrow> int option" where
  "OPENSSL_strncasecmp as bs 0 = Some 0"
| "OPENSSL_strncasecmp (a # as) (b # bs) (Suc n) =
     (let aa = OPENSSL_tolower (sint a); bb = OPENSSL_tolower (sint b)
      in if aa < bb then Some (-1)
         else if aa > bb then Some 1
         else if aa = 0 then Some 0
         else OPENSSL_strncasecmp as bs n)"
| "OPENSSL_strncasecmp _ _ (Suc n) = None"

text \<open>
  \<open>OPENSSL_strlcpy\<close> returns the destination and the length it tried to create; the first
  argument is the destination buffer, whose first \<open>dst_size\<close> bytes may be written.
\<close>

fun strlcpy_loop :: "u8 list \<Rightarrow> u8 list \<Rightarrow> nat \<Rightarrow> nat \<Rightarrow> (u8 list \<times> nat) option" where
  "strlcpy_loop dst [] dst_size l = None"
| "strlcpy_loop dst (c # src) dst_size l =
     (if 1 < dst_size \<and> c \<noteq> 0 then
        (case dst of
           [] \<Rightarrow> None
         | _ # dst' \<Rightarrow> map_option (\<lambda>(d, r). (c # d, r)) (strlcpy_loop dst' src (dst_size - 1) (l + 1)))
      else
        (case c_strlen (c # src) of
           None \<Rightarrow> None
         | Some n \<Rightarrow>
             (if dst_size = 0 then Some (dst, l + n)
              else case dst of [] \<Rightarrow> None | _ # dst' \<Rightarrow> Some (0 # dst', l + n))))"

definition OPENSSL_strlcpy :: "u8 list \<Rightarrow> u8 list \<Rightarrow> nat \<Rightarrow> (u8 list \<times> nat) option" where
  "OPENSSL_strlcpy dst src dst_size = strlcpy_loop dst src dst_size 0"

fun OPENSSL_strlcat :: "u8 list \<Rightarrow> u8 list \<Rightarrow> nat \<Rightarrow> (u8 list \<times> nat) option" where
  "OPENSSL_strlcat dst src 0 = OPENSSL_strlcpy dst src 0"
| "OPENSSL_strlcat [] src (Suc n) = None"
| "OPENSSL_strlcat (d # dst) src (Suc n) =
     (if d \<noteq> 0 then map_option (\<lambda>(r, l). (d # r, Suc l)) (OPENSSL_strlcat dst src n)
      else OPENSSL_strlcpy (d # dst) src (Suc n))"

lemma OPENSSL_strnlen_le: "OPENSSL_strnlen s n \<le> n"
  by (induction s n rule: OPENSSL_strnlen.induct) auto

lemma OPENSSL_strnlen_le_length: "OPENSSL_strnlen s n \<le> length s"
  by (induction s n rule: OPENSSL_strnlen.induct) auto

lemma OPENSSL_strnlen_no_zero: "0 \<notin> set (take (OPENSSL_strnlen s n) s)"
  by (induction s n rule: OPENSSL_strnlen.induct) auto

lemma c_strlen_append_zero: "0 \<notin> set s \<Longrightarrow> c_strlen (s @ 0 # t) = Some (length s)"
  by (induction s) auto

lemma OPENSSL_strndup_eq:
  assumes "sz + 9 < SIZE_MOD" "grants h (OPENSSL_strnlen s sz + 9)"
  shows "OPENSSL_strndup h (Some s) sz = Some (take (OPENSSL_strnlen s sz) s @ [0])"
proof -
  let ?n = "OPENSSL_strnlen s sz"
  have "?n \<le> sz" and le: "?n \<le> length s"
    by (rule OPENSSL_strnlen_le OPENSSL_strnlen_le_length)+
  then have n: "?n + 1 + 8 < SIZE_MOD" "?n + 1 < SIZE_MOD" and "\<not> ?n + 1 < ?n"
    using assms(1) by simp_all
  obtain ret where ret: "OPENSSL_malloc h (?n + 1) = Some ret" "length ret = ?n + 1"
    using OPENSSL_malloc_Some_iff [OF n(1), of h] OPENSSL_malloc_length [OF n(1), of h] assms(2)
    by (auto simp: add.commute)
  have "drop ?n ret = [ret ! ?n]"
    using ret(2) by (metis Cons_nth_drop_Suc add.right_neutral add_Suc_right drop_all le_refl
        lessI One_nat_def)
  then have "(take ?n s @ drop ?n ret)[?n := 0] = take ?n s @ [0]"
    using le by (simp add: list_update_append)
  with ret n show ?thesis
    by (simp add: OPENSSL_strndup_def Let_def)
qed

text \<open>\<open>strlcpy\<close> on a terminated source and a buffer of \<open>dst_size\<close> bytes always terminates its output.\<close>

lemma strlcpy_loop_eq:
  assumes "0 \<notin> set s" "0 < dst_size" "dst_size \<le> length dst"
  shows "strlcpy_loop dst (s @ 0 # t) dst_size l =
           (let k = min (length s) (dst_size - 1)
            in Some (take k s @ 0 # drop (Suc k) dst, l + length s))"
  using assms
proof (induction s arbitrary: dst dst_size l)
  case Nil
  then show ?case by (cases dst) (auto simp: Let_def)
next
  case (Cons c s)
  obtain d dst' where dst: "dst = d # dst'"
    using Cons.prems by (cases dst) auto
  have len: "c_strlen (s @ 0 # t) = Some (length s)"
    using Cons.prems(1) by (intro c_strlen_append_zero) simp
  show ?case
  proof (cases "1 < dst_size")
    case True
    then have "strlcpy_loop dst' (s @ 0 # t) (dst_size - 1) (l + 1) =
        (let k = min (length s) (dst_size - 1 - 1)
         in Some (take k s @ 0 # drop (Suc k) dst', l + 1 + length s))"
      using Cons.prems dst by (intro Cons.IH) auto
    moreover have "min (Suc (length s)) (dst_size - Suc 0) = Suc (min (length s) (dst_size - 1 - 1))"
      using True by simp
    ultimately show ?thesis
      using True Cons.prems(1) dst by (simp add: Let_def)
  next
    case False
    with Cons.prems have "dst_size = 1" by simp
    with Cons.prems(1) len dst show ?thesis by (auto simp: Let_def)
  qed
qed

lemma OPENSSL_strlcpy_eq:
  assumes "0 \<notin> set s" "0 < dst_size" "dst_size \<le> length dst"
  shows "OPENSSL_strlcpy dst (s @ 0 # t) dst_size =
           (let k = min (length s) (dst_size - 1)
            in Some (take k s @ 0 # drop (Suc k) dst, length s))"
  using strlcpy_loop_eq [OF assms] by (simp add: OPENSSL_strlcpy_def)

lemma OPENSSL_tolower_idem: "OPENSSL_tolower (OPENSSL_tolower c) = OPENSSL_tolower c"
  by (simp add: OPENSSL_tolower_def)

lemma OPENSSL_strcasecmp_zero_iff:
  assumes "0 \<notin> set s" "0 \<notin> set t"
  shows "OPENSSL_strcasecmp (s @ [0]) (t @ [0]) = Some 0 \<longleftrightarrow>
           map (OPENSSL_tolower \<circ> sint) s = map (OPENSSL_tolower \<circ> sint) t"
  using assms
proof (induction s arbitrary: t)
  case Nil
  then show ?case
    by (cases t) (auto simp: Let_def OPENSSL_tolower_def signed_eq_0_iff)
next
  case (Cons a s)
  have "OPENSSL_tolower (sint c) \<noteq> 0" if "c \<noteq> 0" for c :: u8
    using that by (auto simp: OPENSSL_tolower_def signed_eq_0_iff)
  with Cons show ?case
    by (cases t) (auto simp: Let_def OPENSSL_tolower_def signed_eq_0_iff)
qed

section \<open>Byte order\<close>

text \<open>The compiler builtins reverse the bytes of their argument.\<close>

definition CRYPTO_bswap2 :: "u16 \<Rightarrow> u16" where
  "CRYPTO_bswap2 x = of_nat (le_val (be_bytes 2 (unat x)))"

definition CRYPTO_bswap4 :: "u32 \<Rightarrow> u32" where
  "CRYPTO_bswap4 x = of_nat (le_val (be_bytes 4 (unat x)))"

definition CRYPTO_bswap8 :: "u64 \<Rightarrow> u64" where
  "CRYPTO_bswap8 x = of_nat (le_val (be_bytes 8 (unat x)))"

lemma be_bytes_le_val: "be_bytes n (le_val (be_bytes n v)) = rev (be_bytes n v)"
  using be_bytes_be_val [of "rev (be_bytes n v)"] by (simp add: le_val_def)

lemma le_val_rev: "le_val (rev bs) = be_val bs"
  by (simp add: le_val_def)

lemma be_bytes_mod: "be_bytes n (v mod 256 ^ n) = be_bytes n v"
  using be_bytes_be_val [of "be_bytes n v"] by (simp add: be_val_be_bytes)

lemma unat_bswap:
  "unat (CRYPTO_bswap2 x2) = le_val (be_bytes 2 (unat x2))"
  "unat (CRYPTO_bswap4 x4) = le_val (be_bytes 4 (unat x4))"
  "unat (CRYPTO_bswap8 x8) = le_val (be_bytes 8 (unat x8))"
  using le_val_less [of "be_bytes 2 (unat x2)"] le_val_less [of "be_bytes 4 (unat x4)"]
    le_val_less [of "be_bytes 8 (unat x8)"]
  by (simp_all add: CRYPTO_bswap2_def CRYPTO_bswap4_def CRYPTO_bswap8_def unat_of_nat)

lemma bswap_involution:
  "CRYPTO_bswap2 (CRYPTO_bswap2 x2) = x2"
  "CRYPTO_bswap4 (CRYPTO_bswap4 x4) = x4"
  "CRYPTO_bswap8 (CRYPTO_bswap8 x8) = x8"
  using unsigned_less [of x2, where ?'a = nat] unsigned_less [of x4, where ?'a = nat]
    unsigned_less [of x8, where ?'a = nat]
  by (simp_all add: word_unat_eq_iff unat_bswap be_bytes_le_val le_val_rev be_val_be_bytes
      del: be_bytes.simps)

end
