(* ===== verification/CBS_Parser.thy ===== *)
theory CBS_Parser
  imports Crypto_Mem
begin

text \<open>
  The byte-string parser of BoringSSL-GRPC, \<open>crypto/bytestring/cbs.c\<close>: the cursor \<open>CBS\<close>,
  fixed-width and length-prefixed reads, and the DER/BER element parser with its typed
  readers. A \<open>CBS\<close> is a pointer and a length; \<open>cbs_data\<close> is the memory from the pointer to
  the end of the object it points into, and \<open>cbs_len\<close> the length.
\<close>

section \<open>The cursor\<close>

record CBS =
  cbs_data :: "u8 list"
  cbs_len :: nat

definition CBS_init :: "u8 list \<Rightarrow> nat \<Rightarrow> CBS" where
  "CBS_init p n = \<lparr>cbs_data = p, cbs_len = n\<rparr>"

definition cbs_get :: "CBS \<Rightarrow> nat \<Rightarrow> u8 list option \<times> CBS" where
  "cbs_get c n =
     (if cbs_len c < n then (None, c)
      else (Some (cbs_data c), c\<lparr>cbs_data := drop n (cbs_data c), cbs_len := cbs_len c - n\<rparr>))"

definition CBS_skip :: "CBS \<Rightarrow> nat \<Rightarrow> unit option \<times> CBS" where
  "CBS_skip c n = on_success (cbs_get c n) (\<lambda>_ c'. (Some (), c'))"

definition CBS_data :: "CBS \<Rightarrow> u8 list" where
  "CBS_data c = cbs_data c"

definition CBS_len :: "CBS \<Rightarrow> nat" where
  "CBS_len c = cbs_len c"

text \<open>The result is the block now held by \<open>*out_ptr\<close> (\<open>None\<close> for null) and \<open>*out_len\<close>.\<close>

definition CBS_stow :: "heap \<Rightarrow> CBS \<Rightarrow> bool \<times> u8 list option \<times> nat" where
  "CBS_stow h c =
     (if cbs_len c = 0 then (True, None, 0)
      else case OPENSSL_memdup h (cbs_data c) (cbs_len c) of
             None \<Rightarrow> (False, None, 0)
           | Some p \<Rightarrow> (True, Some p, cbs_len c))"

definition CBS_strdup :: "heap \<Rightarrow> CBS \<Rightarrow> u8 list option" where
  "CBS_strdup h c = OPENSSL_strndup h (Some (cbs_data c)) (cbs_len c)"

definition CBS_contains_zero_byte :: "CBS \<Rightarrow> bool" where
  "CBS_contains_zero_byte c = (0 \<in> set (take (cbs_len c) (cbs_data c)))"

definition CBS_mem_equal :: "CBS \<Rightarrow> u8 list \<Rightarrow> nat \<Rightarrow> bool" where
  "CBS_mem_equal c p n =
     (if n \<noteq> cbs_len c then False else CRYPTO_memcmp (cbs_data c) p n = 0)"

section \<open>Integers and length prefixes\<close>

definition cbs_get_u :: "CBS \<Rightarrow> nat \<Rightarrow> u64 option \<times> CBS" where
  "cbs_get_u c n =
     on_success (cbs_get c n)
       (\<lambda>p c'. (Some (foldl (\<lambda>r b. push_bit 8 r OR ucast b) 0 (take n p)), c'))"

definition CBS_get_u8 :: "CBS \<Rightarrow> u8 option \<times> CBS" where
  "CBS_get_u8 c = on_success (cbs_get c 1) (\<lambda>v c'. (Some (v ! 0), c'))"

definition CBS_get_u16 :: "CBS \<Rightarrow> u16 option \<times> CBS" where
  "CBS_get_u16 c = on_success (cbs_get_u c 2) (\<lambda>v c'. (Some (ucast v), c'))"

definition CBS_get_u16le :: "CBS \<Rightarrow> u16 option \<times> CBS" where
  "CBS_get_u16le c = on_success (CBS_get_u16 c) (\<lambda>v c'. (Some (CRYPTO_bswap2 v), c'))"

definition CBS_get_u24 :: "CBS \<Rightarrow> u32 option \<times> CBS" where
  "CBS_get_u24 c = on_success (cbs_get_u c 3) (\<lambda>v c'. (Some (ucast v), c'))"

definition CBS_get_u32 :: "CBS \<Rightarrow> u32 option \<times> CBS" where
  "CBS_get_u32 c = on_success (cbs_get_u c 4) (\<lambda>v c'. (Some (ucast v), c'))"

definition CBS_get_u32le :: "CBS \<Rightarrow> u32 option \<times> CBS" where
  "CBS_get_u32le c = on_success (CBS_get_u32 c) (\<lambda>v c'. (Some (CRYPTO_bswap4 v), c'))"

definition CBS_get_u64 :: "CBS \<Rightarrow> u64 option \<times> CBS" where
  "CBS_get_u64 c = cbs_get_u c 8"

definition CBS_get_u64le :: "CBS \<Rightarrow> u64 option \<times> CBS" where
  "CBS_get_u64le c = on_success (cbs_get_u c 8) (\<lambda>v c'. (Some (CRYPTO_bswap8 v), c'))"

definition CBS_get_last_u8 :: "CBS \<Rightarrow> u8 option \<times> CBS" where
  "CBS_get_last_u8 c =
     (if cbs_len c = 0 then (None, c)
      else (Some (cbs_data c ! (cbs_len c - 1)), c\<lparr>cbs_len := cbs_len c - 1\<rparr>))"

definition CBS_get_bytes :: "CBS \<Rightarrow> nat \<Rightarrow> CBS option \<times> CBS" where
  "CBS_get_bytes c n = on_success (cbs_get c n) (\<lambda>v c'. (Some (CBS_init v n), c'))"

definition CBS_copy_bytes :: "CBS \<Rightarrow> nat \<Rightarrow> u8 list option \<times> CBS" where
  "CBS_copy_bytes c n = on_success (cbs_get c n) (\<lambda>v c'. (Some (take n v), c'))"

definition cbs_get_length_prefixed :: "CBS \<Rightarrow> nat \<Rightarrow> CBS option \<times> CBS" where
  "cbs_get_length_prefixed c len_len =
     on_success (cbs_get_u c len_len) (\<lambda>n c'. CBS_get_bytes c' (unat n))"

definition CBS_get_u8_length_prefixed :: "CBS \<Rightarrow> CBS option \<times> CBS" where
  "CBS_get_u8_length_prefixed c = cbs_get_length_prefixed c 1"

definition CBS_get_u16_length_prefixed :: "CBS \<Rightarrow> CBS option \<times> CBS" where
  "CBS_get_u16_length_prefixed c = cbs_get_length_prefixed c 2"

definition CBS_get_u24_length_prefixed :: "CBS \<Rightarrow> CBS option \<times> CBS" where
  "CBS_get_u24_length_prefixed c = cbs_get_length_prefixed c 3"

section \<open>Tags and elements\<close>

definition CBS_ASN1_TAG_SHIFT :: nat where
  "CBS_ASN1_TAG_SHIFT = 24"

definition CBS_ASN1_CONSTRUCTED :: u32 where
  "CBS_ASN1_CONSTRUCTED = push_bit CBS_ASN1_TAG_SHIFT 0x20"

definition CBS_ASN1_TAG_NUMBER_MASK :: u32 where
  "CBS_ASN1_TAG_NUMBER_MASK = push_bit (5 + CBS_ASN1_TAG_SHIFT) 1 - 1"

abbreviation CBS_ASN1_BOOLEAN :: u32 where "CBS_ASN1_BOOLEAN \<equiv> 1"
abbreviation CBS_ASN1_INTEGER :: u32 where "CBS_ASN1_INTEGER \<equiv> 2"
abbreviation CBS_ASN1_OCTETSTRING :: u32 where "CBS_ASN1_OCTETSTRING \<equiv> 4"

lemma cbs_get_u8_len: "CBS_get_u8 c = (Some b, c') \<Longrightarrow> cbs_len c' < cbs_len c"
  by (auto simp: CBS_get_u8_def cbs_get_def split: if_splits)

function parse_base128_loop :: "CBS \<Rightarrow> u64 \<Rightarrow> u64 option \<times> CBS" where
  "parse_base128_loop c v =
     (case CBS_get_u8 c of
        (None, c') \<Rightarrow> (None, c')
      | (Some b, c') \<Rightarrow>
          (if drop_bit (64 - 7) v \<noteq> 0 then (None, c')
           else if v = 0 \<and> b = 0x80 then (None, c')
           else let v' = push_bit 7 v OR ucast (b AND 0x7f)
                in if b AND 0x80 \<noteq> 0 then parse_base128_loop c' v' else (Some v', c')))"
  by pat_completeness auto
termination
  by (relation "measure (\<lambda>(c, v). cbs_len c)") (auto dest: sym [THEN cbs_get_u8_len])

declare parse_base128_loop.simps [simp del]

definition parse_base128_integer :: "CBS \<Rightarrow> u64 option \<times> CBS" where
  "parse_base128_integer c = parse_base128_loop c 0"

definition parse_asn1_tag :: "CBS \<Rightarrow> u32 option \<times> CBS" where
  "parse_asn1_tag c =
     on_success (CBS_get_u8 c) (\<lambda>tag_byte c'.
       let tag = push_bit CBS_ASN1_TAG_SHIFT (ucast tag_byte AND 0xe0) :: u32;
           tag_number = ucast tag_byte AND 0x1f :: u32
       in if tag_number = 0x1f then
            on_success (parse_base128_integer c') (\<lambda>v c''.
              if v > ucast CBS_ASN1_TAG_NUMBER_MASK \<or> v < 0x1f then (None, c'')
              else (Some (tag OR ucast v), c''))
          else (Some (tag OR tag_number), c'))"

text \<open>
  The element, its tag and its header length. The null checks on the output pointers only
  decide which of the three the caller sees.
\<close>

definition cbs_get_any_asn1_element ::
  "CBS \<Rightarrow> bool \<Rightarrow> (CBS \<times> u32 \<times> nat) option \<times> CBS" where
  "cbs_get_any_asn1_element c ber_ok =
     (case parse_asn1_tag c of
        (None, _) \<Rightarrow> (None, c)
      | (Some tag, header) \<Rightarrow>
          (case CBS_get_u8 header of
             (None, _) \<Rightarrow> (None, c)
           | (Some length_byte, header) \<Rightarrow>
               (let header_len = CBS_len c - CBS_len header
                in if length_byte AND 0x80 = 0 then
                     on_success (CBS_get_bytes c (unat length_byte + header_len))
                       (\<lambda>out c'. (Some (out, tag, header_len), c'))
                   else
                     (let num_bytes = unat (length_byte AND 0x7f)
                      in if ber_ok \<and> tag AND CBS_ASN1_CONSTRUCTED \<noteq> 0 \<and> num_bytes = 0 then
                           on_success (CBS_get_bytes c header_len)
                             (\<lambda>out c'. (Some (out, tag, header_len), c'))
                         else if num_bytes = 0 \<or> num_bytes > 4 then (None, c)
                         else
                           (case cbs_get_u header num_bytes of
                              (None, _) \<Rightarrow> (None, c)
                            | (Some len64, _) \<Rightarrow>
                                (if len64 < 128 then (None, c)
                                 else if drop_bit ((num_bytes - 1) * 8) len64 = 0 then (None, c)
                                 else if size_wrap (unat len64 + header_len + num_bytes) < unat len64
                                   then (None, c)
                                 else
                                   on_success
                                     (CBS_get_bytes c
                                        (size_wrap (unat len64 + header_len + num_bytes)))
                                     (\<lambda>out c'. (Some (out, tag, header_len + num_bytes), c'))))))))"

definition CBS_get_any_asn1_element :: "CBS \<Rightarrow> (CBS \<times> u32 \<times> nat) option \<times> CBS" where
  "CBS_get_any_asn1_element c = cbs_get_any_asn1_element c False"

definition CBS_get_any_ber_asn1_element :: "CBS \<Rightarrow> (CBS \<times> u32 \<times> nat) option \<times> CBS" where
  "CBS_get_any_ber_asn1_element c = cbs_get_any_asn1_element c True"

definition CBS_get_any_asn1 :: "CBS \<Rightarrow> (CBS \<times> u32) option \<times> CBS" where
  "CBS_get_any_asn1 c =
     on_success (CBS_get_any_asn1_element c) (\<lambda>(out, tag, header_len) c'.
       case CBS_skip out header_len of
         (None, _) \<Rightarrow> (None, c')
       | (Some _, out') \<Rightarrow> (Some (out', tag), c'))"

definition cbs_get_asn1 :: "CBS \<Rightarrow> u32 \<Rightarrow> bool \<Rightarrow> CBS option \<times> CBS" where
  "cbs_get_asn1 c tag_value skip_header =
     on_success (CBS_get_any_asn1_element c) (\<lambda>(out, tag, header_len) c'.
       if tag \<noteq> tag_value then (None, c')
       else if skip_header then
         (case CBS_skip out header_len of
            (None, _) \<Rightarrow> (None, c')
          | (Some _, out') \<Rightarrow> (Some out', c'))
       else (Some out, c'))"

definition CBS_get_asn1 :: "CBS \<Rightarrow> u32 \<Rightarrow> CBS option \<times> CBS" where
  "CBS_get_asn1 c tag_value = cbs_get_asn1 c tag_value True"

definition CBS_get_asn1_element :: "CBS \<Rightarrow> u32 \<Rightarrow> CBS option \<times> CBS" where
  "CBS_get_asn1_element c tag_value = cbs_get_asn1 c tag_value False"

definition CBS_peek_asn1_tag :: "CBS \<Rightarrow> u32 \<Rightarrow> bool" where
  "CBS_peek_asn1_tag c tag_value =
     (if CBS_len c < 1 then False
      else case fst (parse_asn1_tag c) of
             None \<Rightarrow> False
           | Some actual_tag \<Rightarrow> tag_value = actual_tag)"

section \<open>Typed readers\<close>

fun asn1_uint64_loop :: "u8 list \<Rightarrow> u64 \<Rightarrow> u64 option" where
  "asn1_uint64_loop [] r = Some r"
| "asn1_uint64_loop (b # bs) r =
     (if drop_bit 56 r \<noteq> 0 then None else asn1_uint64_loop bs (push_bit 8 r OR ucast b))"

definition CBS_get_asn1_uint64 :: "CBS \<Rightarrow> u64 option \<times> CBS" where
  "CBS_get_asn1_uint64 c =
     on_success (CBS_get_asn1 c CBS_ASN1_INTEGER) (\<lambda>bytes c'.
       let p = CBS_data bytes; n = CBS_len bytes
       in if n = 0 then (None, c')
          else if p ! 0 AND 0x80 \<noteq> 0 then (None, c')
          else if p ! 0 = 0 \<and> n > 1 \<and> p ! 1 AND 0x80 = 0 then (None, c')
          else (asn1_uint64_loop (take n p) 0, c'))"

text \<open>The eight bytes of the union, least significant first, read as a signed value.\<close>

definition CBS_get_asn1_int64 :: "CBS \<Rightarrow> int option \<times> CBS" where
  "CBS_get_asn1_int64 c =
     on_success (CBS_get_asn1 c CBS_ASN1_INTEGER) (\<lambda>bytes c'.
       let p = CBS_data bytes; n = CBS_len bytes
       in if n = 0 \<or> n > 8 then (None, c')
          else if n > 1 \<and> p ! 0 = 0 \<and> p ! 1 AND 0x80 = 0 then (None, c')
          else if n > 1 \<and> p ! 0 = 0xff \<and> p ! 1 AND 0x80 \<noteq> 0 then (None, c')
          else
            let ext = (if p ! 0 AND 0x80 \<noteq> 0 then 0xff else 0);
                u = rev (take n p) @ replicate (8 - n) ext
            in (Some (sint (of_nat (le_val u) :: u64)), c'))"

definition CBS_get_asn1_bool :: "CBS \<Rightarrow> int option \<times> CBS" where
  "CBS_get_asn1_bool c =
     on_success (CBS_get_asn1 c CBS_ASN1_BOOLEAN) (\<lambda>bytes c'.
       if CBS_len bytes \<noteq> 1 then (None, c')
       else let b = CBS_data bytes ! 0
            in if b \<noteq> 0 \<and> b \<noteq> 0xff then (None, c')
               else (Some (if b = 0 then 0 else 1), c'))"

text \<open>\<open>Some None\<close> is success with \<open>*out_present = 0\<close>.\<close>

definition CBS_get_optional_asn1 :: "CBS \<Rightarrow> u32 \<Rightarrow> CBS option option \<times> CBS" where
  "CBS_get_optional_asn1 c tag =
     (if CBS_peek_asn1_tag c tag
      then on_success (CBS_get_asn1 c tag) (\<lambda>out c'. (Some (Some out), c'))
      else (Some None, c))"

definition CBS_get_optional_asn1_octet_string :: "CBS \<Rightarrow> u32 \<Rightarrow> (CBS \<times> bool) option \<times> CBS" where
  "CBS_get_optional_asn1_octet_string c tag =
     on_success (CBS_get_optional_asn1 c tag) (\<lambda>child c'.
       case child of
         None \<Rightarrow> (Some (CBS_init [] 0, False), c')
       | Some child \<Rightarrow>
           (case CBS_get_asn1 child CBS_ASN1_OCTETSTRING of
              (None, _) \<Rightarrow> (None, c')
            | (Some out, child) \<Rightarrow>
                (if CBS_len child \<noteq> 0 then (None, c') else (Some (out, True), c'))))"

definition CBS_get_optional_asn1_uint64 :: "CBS \<Rightarrow> u32 \<Rightarrow> u64 \<Rightarrow> u64 option \<times> CBS" where
  "CBS_get_optional_asn1_uint64 c tag default_value =
     on_success (CBS_get_optional_asn1 c tag) (\<lambda>child c'.
       case child of
         None \<Rightarrow> (Some default_value, c')
       | Some child \<Rightarrow>
           (case CBS_get_asn1_uint64 child of
              (None, _) \<Rightarrow> (None, c')
            | (Some out, child) \<Rightarrow>
                (if CBS_len child \<noteq> 0 then (None, c') else (Some out, c'))))"

definition CBS_get_optional_asn1_bool :: "CBS \<Rightarrow> u32 \<Rightarrow> int \<Rightarrow> int option \<times> CBS" where
  "CBS_get_optional_asn1_bool c tag default_value =
     on_success (CBS_get_optional_asn1 c tag) (\<lambda>child c'.
       case child of
         None \<Rightarrow> (Some default_value, c')
       | Some child \<Rightarrow>
           (case CBS_get_asn1 child CBS_ASN1_BOOLEAN of
              (None, _) \<Rightarrow> (None, c')
            | (Some child2, child) \<Rightarrow>
                (if CBS_len child2 \<noteq> 1 \<or> CBS_len child \<noteq> 0 then (None, c')
                 else let boolean = CBS_data child2 ! 0
                      in if boolean = 0 then (Some 0, c')
                         else if boolean = 0xff then (Some 1, c')
                         else (None, c'))))"

definition CBS_is_valid_asn1_bitstring :: "CBS \<Rightarrow> bool" where
  "CBS_is_valid_asn1_bitstring c =
     (case CBS_get_u8 c of
        (None, _) \<Rightarrow> False
      | (Some num_unused_bits, in') \<Rightarrow>
          (if num_unused_bits > 7 then False
           else if num_unused_bits = 0 then True
           else case CBS_get_last_u8 in' of
                  (None, _) \<Rightarrow> False
                | (Some last_byte, _) \<Rightarrow> last_byte AND (push_bit (unat num_unused_bits) 1 - 1) = 0))"

definition CBS_asn1_bitstring_has_bit :: "CBS \<Rightarrow> u32 \<Rightarrow> bool" where
  "CBS_asn1_bitstring_has_bit c n =
     (if \<not> CBS_is_valid_asn1_bitstring c then False
      else let byte_num = unat (drop_bit 3 n + 1); bit_num = 7 - unat (n AND 7)
           in byte_num < CBS_len c \<and> CBS_data c ! byte_num AND push_bit bit_num 1 \<noteq> 0)"

section \<open>The cursor as a window\<close>

text \<open>
  The bytes a cursor may still read, the well-formedness of a cursor (its length stays inside
  the object), and the cursor \<open>n\<close> bytes further on. Every reader moves its cursor by
  \<open>cbs_adv\<close> only, so the memory-safety of the parser is \<open>cbs_ok\<close> of every cursor it makes.
\<close>

definition cbs_bytes :: "CBS \<Rightarrow> u8 list" where
  "cbs_bytes c = take (cbs_len c) (cbs_data c)"

definition cbs_ok :: "CBS \<Rightarrow> bool" where
  "cbs_ok c \<longleftrightarrow> cbs_len c \<le> length (cbs_data c)"

definition cbs_adv :: "nat \<Rightarrow> CBS \<Rightarrow> CBS" where
  "cbs_adv n c = c\<lparr>cbs_data := drop n (cbs_data c), cbs_len := cbs_len c - n\<rparr>"

lemma cbs_adv_simps [simp]:
  "cbs_len (cbs_adv n c) = cbs_len c - n"
  "cbs_data (cbs_adv n c) = drop n (cbs_data c)"
  "cbs_bytes (cbs_adv n c) = drop n (cbs_bytes c)"
  "cbs_adv 0 c = c"
  "cbs_adv m (cbs_adv n c) = cbs_adv (n + m) c"
  by (simp_all add: cbs_adv_def cbs_bytes_def drop_take add.commute)

lemma cbs_ok_adv [simp]: "cbs_ok c \<Longrightarrow> cbs_ok (cbs_adv n c)"
  by (simp add: cbs_ok_def)

lemma length_cbs_bytes [simp]: "cbs_ok c \<Longrightarrow> length (cbs_bytes c) = cbs_len c"
  by (simp add: cbs_ok_def cbs_bytes_def)

lemma cbs_ok_init [simp]: "cbs_ok (CBS_init p n) \<longleftrightarrow> n \<le> length p"
  by (simp add: cbs_ok_def CBS_init_def)

lemma cbs_bytes_init [simp]: "cbs_bytes (CBS_init p n) = take n p"
  by (simp add: cbs_bytes_def CBS_init_def)

lemma cbs_init_sel [simp]: "cbs_len (CBS_init p n) = n" "cbs_data (CBS_init p n) = p"
  by (simp_all add: CBS_init_def)

lemma take_cbs_data: "n \<le> cbs_len c \<Longrightarrow> take n (cbs_data c) = take n (cbs_bytes c)"
  by (simp add: cbs_bytes_def)

lemma nth_cbs_data: "i < cbs_len c \<Longrightarrow> cbs_data c ! i = cbs_bytes c ! i"
  by (simp add: cbs_bytes_def)

lemma cbs_get_eq:
  "cbs_get c n = (if cbs_len c < n then (None, c) else (Some (cbs_data c), cbs_adv n c))"
  by (simp add: cbs_get_def cbs_adv_def)

lemma CBS_skip_eq:
  "CBS_skip c n = (if cbs_len c < n then (None, c) else (Some (), cbs_adv n c))"
  by (simp add: CBS_skip_def cbs_get_eq)

lemma CBS_get_u8_eq:
  "CBS_get_u8 c = (if cbs_len c = 0 then (None, c) else (Some (cbs_data c ! 0), cbs_adv 1 c))"
  by (simp add: CBS_get_u8_def cbs_get_eq)

lemma CBS_get_bytes_eq:
  "CBS_get_bytes c n =
     (if cbs_len c < n then (None, c) else (Some (CBS_init (cbs_data c) n), cbs_adv n c))"
  by (simp add: CBS_get_bytes_def cbs_get_eq)

lemma CBS_copy_bytes_eq:
  "CBS_copy_bytes c n =
     (if cbs_len c < n then (None, c) else (Some (take n (cbs_bytes c)), cbs_adv n c))"
  by (simp add: CBS_copy_bytes_def cbs_get_eq take_cbs_data)

lemma fold_bytes_u64:
  assumes "length bs \<le> 8"
  shows "unat (foldl (\<lambda>r b. push_bit 8 r OR ucast b) (0 :: u64) bs) = be_val bs"
  using assms
proof (induction bs rule: rev_induct)
  case Nil
  then show ?case by simp
next
  case (snoc b bs)
  let ?r = "foldl (\<lambda>r b. push_bit 8 r OR ucast b) (0 :: u64) bs"
  have r: "unat ?r = be_val bs"
    using snoc by simp
  have "be_val (bs @ [b]) < 256 ^ length (bs @ [b])"
    by (rule be_val_less)
  also have "\<dots> \<le> (256 :: nat) ^ 8"
    using snoc.prems by (intro power_increasing) auto
  finally have "be_val bs * 256 + unat b < 2 ^ LENGTH(64)"
    by simp
  then have "unat (push_bit 8 ?r OR ucast b) = unat ?r * 2 ^ 8 + unat (ucast b :: u64)"
    using r by (intro unat_push_bit_or) simp_all
  with r show ?case by simp
qed

lemma be_val_take_less: "n \<le> k \<Longrightarrow> be_val (take n bs) < 256 ^ k"
proof -
  assume "n \<le> k"
  then have "(256 :: nat) ^ length (take n bs) \<le> 256 ^ k"
    by (intro power_increasing) auto
  then show ?thesis
    using be_val_less [of "take n bs"] by linarith
qed

lemma cbs_get_u_eq:
  assumes "n \<le> 8"
  shows "cbs_get_u c n =
     (if cbs_len c < n then (None, c)
      else (Some (of_nat (be_val (take n (cbs_bytes c)))), cbs_adv n c))"
proof (cases "cbs_len c < n")
  case True
  then show ?thesis by (simp add: cbs_get_u_def cbs_get_eq)
next
  case False
  let ?w = "foldl (\<lambda>r b. push_bit 8 r OR ucast b) (0 :: u64) (take n (cbs_bytes c))"
  have "unat ?w = be_val (take n (cbs_bytes c))"
    using assms by (intro fold_bytes_u64) simp
  then have "?w = of_nat (be_val (take n (cbs_bytes c)))"
    using be_val_take_less [OF assms, of "cbs_bytes c"] by (simp add: word_unat_eq_iff unat_of_nat)
  with False show ?thesis
    by (simp add: cbs_get_u_def cbs_get_eq take_cbs_data)
qed

lemma unat_be_val_u64: "n \<le> 8 \<Longrightarrow> unat (of_nat (be_val (take n bs)) :: u64) = be_val (take n bs)"
  using be_val_take_less [of n 8 bs] by (simp add: unat_of_nat)

lemma ucast_be_val:
  "n \<le> 8 \<Longrightarrow> ucast (of_nat (be_val (take n bs)) :: u64) = of_nat (be_val (take n bs))"
  using be_val_take_less [of n 8 bs] by (simp add: unsigned_of_nat take_bit_nat_eq_self)

text \<open>The readers of integers, as functions of the bytes in the window.\<close>

lemma CBS_get_ints_eq:
  "CBS_get_u16 c = (if cbs_len c < 2 then (None, c)
     else (Some (of_nat (be_val (take 2 (cbs_bytes c)))), cbs_adv 2 c))"
  "CBS_get_u24 c = (if cbs_len c < 3 then (None, c)
     else (Some (of_nat (be_val (take 3 (cbs_bytes c)))), cbs_adv 3 c))"
  "CBS_get_u32 c = (if cbs_len c < 4 then (None, c)
     else (Some (of_nat (be_val (take 4 (cbs_bytes c)))), cbs_adv 4 c))"
  "CBS_get_u64 c = (if cbs_len c < 8 then (None, c)
     else (Some (of_nat (be_val (take 8 (cbs_bytes c)))), cbs_adv 8 c))"
  by (simp_all add: CBS_get_u16_def CBS_get_u24_def CBS_get_u32_def CBS_get_u64_def cbs_get_u_eq
      ucast_be_val)

lemma cbs_get_length_prefixed_eq:
  assumes "len_len \<le> 3"
  shows "cbs_get_length_prefixed c len_len =
     (if cbs_len c < len_len then (None, c)
      else let n = be_val (take len_len (cbs_bytes c)); c' = cbs_adv len_len c
           in if cbs_len c' < n then (None, c')
              else (Some (CBS_init (cbs_data c') n), cbs_adv (len_len + n) c))"
  using assms
  by (simp add: cbs_get_length_prefixed_def cbs_get_u_eq CBS_get_bytes_eq unat_be_val_u64 Let_def)

end
