(* ===== verification/DER_Spec.thy ===== *)
theory DER_Spec
  imports CBS_Parser
begin

text \<open>
  The canonical (DER) encoding of an element's header, stated from ITU-T X.690, and the proof
  that the element parser of \<open>cbs.c\<close> accepts exactly these encodings: it reads every canonical
  element back, and whatever it accepts is the canonical encoding of what it returns.
\<close>

section \<open>Base-128 integers\<close>

text \<open>The octets before the last one carry the continuation bit.\<close>

fun b128_more :: "nat \<Rightarrow> u8 list" where
  "b128_more n = (if n = 0 then [] else b128_more (n div 128) @ [of_nat (128 + n mod 128)])"

declare b128_more.simps [simp del]

definition b128 :: "nat \<Rightarrow> u8 list" where
  "b128 n = b128_more (n div 128) @ [of_nat (n mod 128)]"

definition b128_val :: "u8 list \<Rightarrow> nat" where
  "b128_val bs = foldl (\<lambda>n b. n * 128 + unat b mod 128) 0 bs"

lemma b128_more_0 [simp]: "b128_more 0 = []"
  by (simp add: b128_more.simps)

lemma b128_val_Nil [simp]: "b128_val [] = 0"
  by (simp add: b128_val_def)

lemma b128_val_snoc [simp]: "b128_val (bs @ [b]) = b128_val bs * 128 + unat b mod 128"
  by (simp add: b128_val_def)

lemma b128_more_val:
  assumes "\<forall>b\<in>set bs. 128 \<le> unat b" "bs \<noteq> [] \<Longrightarrow> hd bs \<noteq> 0x80"
  shows "b128_more (b128_val bs) = bs \<and> (bs \<noteq> [] \<longrightarrow> 0 < b128_val bs)"
  using assms
proof (induction bs rule: rev_induct)
  case Nil
  then show ?case by simp
next
  case (snoc b bs)
  have b: "128 \<le> unat b" "unat b < 256" "unat b div 128 = 1"
    using snoc.prems(1) unat_u8_less [of b] by (simp, simp, simp add: u8_div_128)
  have ih: "b128_more (b128_val bs) = bs" "bs \<noteq> [] \<Longrightarrow> 0 < b128_val bs"
    using snoc by (auto simp: hd_append split: if_splits)
  have "0 < b128_val bs * 128 + unat b mod 128"
  proof (cases "bs = []")
    case True
    then have "b \<noteq> 0x80" using snoc.prems(2) by simp
    then have "unat b \<noteq> 128" by (simp add: word_unat_eq_iff)
    with b show ?thesis by (simp add: mod_if) arith
  next
    case False
    with ih(2) show ?thesis by simp
  qed
  moreover have "(b128_val bs * 128 + unat b mod 128) div 128 = b128_val bs"
    by simp
  moreover have "(of_nat (128 + (b128_val bs * 128 + unat b mod 128) mod 128) :: u8) = b"
  proof -
    have "(128 + (b128_val bs * 128 + unat b mod 128) mod 128) mod 256 = unat b"
      using b(1,2) u8_mod_128 [of b] by (simp only: mod_mult_self3 mod_mod_trivial) simp
    then show ?thesis
      by (simp only: word_unat_eq_iff unat_of_nat_u8)
  qed
  ultimately show ?case
    using ih(1) by (subst b128_more.simps) simp
qed

lemma b128_val_more: "b128_val (b128_more n) = n"
proof (induction n rule: b128_more.induct)
  case (1 n)
  show ?case
  proof (cases "n = 0")
    case False
    have "unat (of_nat (128 + n mod 128) :: u8) mod 128 = n mod 128"
      by (simp only: unat_of_nat_u8) simp
    with False "1" show ?thesis by (subst b128_more.simps) (simp del: of_nat_add)
  qed simp
qed

lemma length_b128_more: "n < 128 ^ k \<Longrightarrow> length (b128_more n) \<le> k"
proof (induction k arbitrary: n)
  case 0
  then show ?case by simp
next
  case (Suc k)
  have "n div 128 < 128 ^ k"
    using Suc.prems by (simp add: less_mult_imp_div_less mult.commute)
  with Suc.IH show ?case
    by (cases "n = 0") (simp_all add: b128_more.simps [of n])
qed

lemma b128_bytes_ge: "b \<in> set (b128_more n) \<Longrightarrow> 128 \<le> unat b"
proof (induction n rule: b128_more.induct)
  case (1 n)
  have "unat (of_nat (128 + n mod 128) :: u8) = 128 + n mod 128"
    by (rule unat_of_nat_u8_less) simp
  with "1" show ?case
    by (cases "n = 0") (auto simp: b128_more.simps [of n] simp del: of_nat_add)
qed

section \<open>The base-128 reader\<close>

lemma cbs_get_u8_bytes:
  assumes "cbs_ok c" "cbs_bytes c = b # r"
  shows "CBS_get_u8 c = (Some b, cbs_adv 1 c)"
proof -
  have "cbs_len c = Suc (length r)"
    using assms length_cbs_bytes [of c] by simp
  then show ?thesis
    using assms(2) nth_cbs_data [of 0 c] by (simp add: CBS_get_u8_eq)
qed

lemma cbs_get_u8_SomeD:
  assumes "cbs_ok c" "CBS_get_u8 c = (Some b, c')"
  shows "cbs_bytes c = b # cbs_bytes c' \<and> c' = cbs_adv 1 c"
proof -
  have l: "cbs_len c \<noteq> 0" and c': "c' = cbs_adv 1 c" and b: "b = cbs_data c ! 0"
    using assms(2) by (auto simp: CBS_get_u8_eq split: if_splits)
  then have "cbs_bytes c \<noteq> []"
    using assms(1) length_cbs_bytes [of c] by force
  with l b c' show ?thesis
    using nth_cbs_data [of 0 c] by (cases "cbs_bytes c") auto
qed

lemma shift7_value:
  fixes v :: u64 and b :: u8
  assumes "drop_bit 57 v = 0"
  shows "unat (push_bit 7 v OR ucast (b AND 0x7f)) = unat v * 128 + unat b mod 128"
proof -
  have "unat v div 2 ^ 57 = 0"
    using assms unat_drop_bit [of 57 v] by simp
  then have v: "unat v < 2 ^ 57" by simp
  have b: "unat (ucast (b AND 0x7f) :: u64) = unat b mod 128"
    by (simp add: unat_u8_and_0x7f)
  show ?thesis
    using v b unat_push_bit_or [of "ucast (b AND 0x7f) :: u64" 7 v] by simp
qed

lemma drop57_zero: "n < 2 ^ 57 \<Longrightarrow> drop_bit 57 (of_nat n :: u64) = 0"
  by (simp add: word_unat_eq_iff unat_drop_bit unat_of_nat)

lemma parse_base128_loop_step:
  assumes "cbs_ok c" "cbs_bytes c = b # r" "m < 2 ^ 57" "m \<noteq> 0 \<or> b \<noteq> 0x80"
  shows "parse_base128_loop c (of_nat m) =
    (if 128 \<le> unat b then parse_base128_loop (cbs_adv 1 c) (of_nat (m * 128 + unat b mod 128))
     else (Some (of_nat (m * 128 + unat b mod 128)), cbs_adv 1 c))"
proof -
  have m: "unat (of_nat m :: u64) = m"
    using assms(3) by (simp add: unat_of_nat)
  have "unat (push_bit 7 (of_nat m) OR ucast (b AND 0x7f) :: u64) = m * 128 + unat b mod 128"
    using shift7_value [OF drop57_zero [OF assms(3)], of b] m by simp
  moreover have "m * 128 + unat b mod 128 < 2 ^ 64"
    using assms(3) mod_less_divisor [of 128 "unat b"] by simp
  ultimately have v: "(push_bit 7 (of_nat m) OR ucast (b AND 0x7f) :: u64) =
      of_nat (m * 128 + unat b mod 128)"
    by (simp only: word_unat_eq_iff unat_of_nat) simp
  have z: "(of_nat m :: u64) = 0 \<longleftrightarrow> m = 0"
    using m by (simp add: word_unat_eq_iff)
  show ?thesis
    using cbs_get_u8_bytes [OF assms(1,2)] drop57_zero [OF assms(3)] assms(4) v z
    by (subst parse_base128_loop.simps)
      (auto simp: u8_and_0x80 Let_def not_less simp del: of_nat_add of_nat_mult)
qed

lemma parse_base128_loop_more:
  assumes "cbs_ok c" "cbs_bytes c = b128_more m @ r" "m < 2 ^ 64"
  shows "parse_base128_loop c 0 = parse_base128_loop (cbs_adv (length (b128_more m)) c) (of_nat m)"
  using assms
proof (induction m arbitrary: r rule: b128_more.induct)
  case (1 m)
  show ?case
  proof (cases "m = 0")
    case False
    let ?b = "of_nat (128 + m mod 128) :: u8" and ?n = "length (b128_more (m div 128))"
    have b: "unat ?b = 128 + m mod 128"
      by (rule unat_of_nat_u8_less) simp
    have more: "b128_more m = b128_more (m div 128) @ [?b]"
      using False by (subst b128_more.simps) simp
    have ih: "parse_base128_loop c 0 = parse_base128_loop (cbs_adv ?n c) (of_nat (m div 128))"
      using False "1.prems" more by (intro "1.IH" [of "?b # r"]) auto
    have "m div 128 \<noteq> 0 \<or> ?b \<noteq> 0x80"
    proof (cases "m div 128 = 0")
      case True
      with False have "m mod 128 \<noteq> 0" by (metis mod_less not_less_iff_gr_or_eq div_eq_0_iff zero_neq_numeral)
      with b have "unat ?b \<noteq> unat (0x80 :: u8)" by simp
      then show ?thesis by metis
    qed simp
    then have "parse_base128_loop (cbs_adv ?n c) (of_nat (m div 128)) =
        parse_base128_loop (cbs_adv 1 (cbs_adv ?n c)) (of_nat (m div 128 * 128 + unat ?b mod 128))"
      using "1.prems" more b
      by (subst parse_base128_loop_step [where b = ?b and r = r]) (auto simp: less_mult_imp_div_less)
    also have "m div 128 * 128 + unat ?b mod 128 = m"
      using b by simp
    finally show ?thesis
      using ih more by simp
  qed simp
qed

lemma parse_base128_complete:
  assumes "cbs_ok c" "cbs_bytes c = b128 m @ r" "m < 2 ^ 64"
  shows "parse_base128_integer c = (Some (of_nat m), cbs_adv (length (b128 m)) c)"
proof -
  let ?n = "length (b128_more (m div 128))" and ?b = "of_nat (m mod 128) :: u8"
  have b: "unat ?b = m mod 128"
    by (rule unat_of_nat_u8_less) (simp add: less_imp_le order_less_trans [of _ 128])
  then have nb: "\<not> 128 \<le> unat ?b" "?b \<noteq> 0x80"
    by (auto simp: word_unat_eq_iff not_le)
  have "parse_base128_loop c 0 = parse_base128_loop (cbs_adv ?n c) (of_nat (m div 128))"
    using assms by (intro parse_base128_loop_more [where r = "?b # r"]) (auto simp: b128_def)
  also have "\<dots> = (Some (of_nat (m div 128 * 128 + unat ?b mod 128)), cbs_adv 1 (cbs_adv ?n c))"
    using assms nb
    by (subst parse_base128_loop_step [where b = ?b and r = r])
      (auto simp: b128_def less_mult_imp_div_less)
  also have "m div 128 * 128 + unat ?b mod 128 = m"
    using b by simp
  finally show ?thesis
    by (simp add: parse_base128_integer_def b128_def)
qed

lemma parse_base128_loop_unfold:
  assumes "parse_base128_loop c v = (Some w, c')" "CBS_get_u8 c = (Some b, c1)"
  shows "(if drop_bit 57 v \<noteq> 0 then (None, c1) else if v = 0 \<and> b = 0x80 then (None, c1)
      else if b AND 0x80 \<noteq> 0 then parse_base128_loop c1 (push_bit 7 v OR ucast (b AND 0x7f))
      else (Some (push_bit 7 v OR ucast (b AND 0x7f)), c1)) = (Some w, c')"
  apply (insert assms(1))
  apply (subst (asm) parse_base128_loop.simps)
  apply (simp only: assms(2) prod.case option.case Let_def)
  apply simp
  done

lemma parse_base128_loop_sound:
  assumes "parse_base128_loop c v = (Some w, c')" "cbs_ok c"
  shows "\<exists>bs l. cbs_bytes c = bs @ l # cbs_bytes c' \<and> c' = cbs_adv (Suc (length bs)) c \<and>
     (\<forall>b\<in>set bs. 128 \<le> unat b) \<and> unat l < 128 \<and>
     unat w = foldl (\<lambda>n b. n * 128 + unat b mod 128) (unat v) (bs @ [l]) \<and>
     (v = 0 \<longrightarrow> bs \<noteq> [] \<longrightarrow> hd bs \<noteq> 0x80)"
  using assms
proof (induction c v rule: parse_base128_loop.induct)
  case (1 c v)
  obtain b c1 where get: "CBS_get_u8 c = (Some b, c1)"
    using "1.prems"(1) by (subst (asm) parse_base128_loop.simps) (auto split: prod.splits option.splits)
  let ?v = "push_bit 7 v OR ucast (b AND 0x7f) :: u64"
  have c1: "cbs_bytes c = b # cbs_bytes c1" "c1 = cbs_adv 1 c"
    using cbs_get_u8_SomeD [OF "1.prems"(2) get] by blast+
  have eq: "(if drop_bit 57 v \<noteq> 0 then (None, c1) else if v = 0 \<and> b = 0x80 then (None, c1)
      else if b AND 0x80 \<noteq> 0 then parse_base128_loop c1 ?v else (Some ?v, c1)) = (Some w, c')"
    using "1.prems"(1) get by (rule parse_base128_loop_unfold)
  then have guards: "drop_bit 57 v = 0" "\<not> (v = 0 \<and> b = 0x80)"
    by (auto split: if_splits)
  with eq have rest: "(if b AND 0x80 \<noteq> 0 then parse_base128_loop c1 ?v else (Some ?v, c1)) = (Some w, c')"
    by (simp only: if_False simp_thms)
  have v: "unat ?v = unat v * 128 + unat b mod 128"
    using guards(1) by (rule shift7_value)
  show ?case
  proof (cases "b AND 0x80 = 0")
    case True
    then have "w = ?v" "c' = c1" "unat b < 128"
      using rest by (auto simp: u8_and_0x80)
    then show ?thesis
      using c1 v by (intro exI [of _ "[]"] exI [of _ b]) simp
  next
    case False
    then have rec: "parse_base128_loop c1 ?v = (Some w, c')" and b: "128 \<le> unat b"
      using rest by (auto simp: u8_and_0x80)
    have "\<exists>bs l. cbs_bytes c1 = bs @ l # cbs_bytes c' \<and> c' = cbs_adv (Suc (length bs)) c1 \<and>
       (\<forall>b\<in>set bs. 128 \<le> unat b) \<and> unat l < 128 \<and>
       unat w = foldl (\<lambda>n b. n * 128 + unat b mod 128) (unat ?v) (bs @ [l]) \<and>
       (?v = 0 \<longrightarrow> bs \<noteq> [] \<longrightarrow> hd bs \<noteq> 0x80)"
      using False get guards rec c1(2) "1.prems"(2) by (intro "1.IH") auto
    then obtain bs l where bs: "cbs_bytes c1 = bs @ l # cbs_bytes c'" "c' = cbs_adv (Suc (length bs)) c1"
      "\<forall>b\<in>set bs. 128 \<le> unat b" "unat l < 128"
      "unat w = foldl (\<lambda>n b. n * 128 + unat b mod 128) (unat ?v) (bs @ [l])"
      by blast
    have "cbs_bytes c = (b # bs) @ l # cbs_bytes c'"
      using c1(1) bs(1) by (simp only: append_Cons)
    moreover have "c' = cbs_adv (Suc (length (b # bs))) c"
      by (simp only: bs(2) c1(2) cbs_adv_simps) simp
    moreover have "unat w = foldl (\<lambda>n b. n * 128 + unat b mod 128) (unat v) ((b # bs) @ [l])"
      by (simp only: bs(5) v append_Cons foldl.simps)
    moreover have "\<forall>b\<in>set (b # bs). 128 \<le> unat b"
      using bs(3) b by simp
    ultimately show ?thesis
      using bs(4) guards(2) by (intro exI [of _ "b # bs"] exI [of _ l]) simp
  qed
qed

lemma parse_base128_sound:
  assumes "parse_base128_integer c = (Some w, c')" "cbs_ok c"
  shows "cbs_bytes c = b128 (unat w) @ cbs_bytes c' \<and> c' = cbs_adv (length (b128 (unat w))) c"
proof -
  obtain bs l where bs: "cbs_bytes c = bs @ l # cbs_bytes c'" "c' = cbs_adv (Suc (length bs)) c"
    "\<forall>b\<in>set bs. 128 \<le> unat b" "unat l < 128"
    "unat w = foldl (\<lambda>n b. n * 128 + unat b mod 128) 0 (bs @ [l])"
    "bs \<noteq> [] \<longrightarrow> hd bs \<noteq> 0x80"
    using parse_base128_loop_sound [OF assms(1) [unfolded parse_base128_integer_def] assms(2)]
    unfolding unsigned_0 by blast
  have w: "unat w = b128_val bs * 128 + unat l"
    by (simp only: bs(5) b128_val_def foldl_append foldl.simps mod_less [OF bs(4)])
  have "b128_more (b128_val bs) = bs"
    using b128_more_val [of bs] bs(3,6) by blast
  moreover have "unat w div 128 = b128_val bs" "unat w mod 128 = unat l"
    using w bs(4) by simp_all
  ultimately have "b128 (unat w) = bs @ [l]"
    by (simp only: b128_def) simp
  with bs(1,2) show ?thesis by simp
qed

lemma lead_bits: "(ucast (b :: u8) AND 0xe0 :: u32) = push_bit 5 (drop_bit 5 (ucast b))"
proof -
  have "(0xe0 :: u32) = push_bit 5 (mask 3)"
    by (simp add: mask_eq_exp_minus_1)
  moreover have "ucast b AND push_bit 5 (mask 3) = (push_bit 5 (drop_bit 5 (ucast b)) :: u32)"
    by (rule bit_word_eqI) (auto simp: bit_simps dest: bit_imp_le_length)
  ultimately show ?thesis by (simp only:)
qed

lemma unat_tag_lead:
  "unat (push_bit 24 (ucast (b :: u8) AND 0xe0) :: u32) = unat b div 32 * 2 ^ 29"
proof -
  have "unat (drop_bit 5 (ucast b) :: u32) = unat b div 32"
    by (simp add: unat_drop_bit)
  moreover have "unat b div 32 < 8"
    using unat_u8_less [of b] by (simp add: less_mult_imp_div_less)
  moreover have "unat (push_bit 29 (drop_bit 5 (ucast b)) :: u32) = (unat (drop_bit 5 (ucast b) :: u32) * 2 ^ 29) mod 2 ^ 32"
    by (simp only: unsigned_push_bit_eq push_bit_eq_mult [where 'a = nat] take_bit_eq_mod [where 'a = nat]) simp
  ultimately show ?thesis
    by (simp add: lead_bits push_bit_push_bit)
qed

text \<open>The identifier octets of X.690, 8.1.2: three leading bits, and the number in five bits or in base 128.\<close>

definition der_tag :: "u32 \<Rightarrow> u8 list" where
  "der_tag t =
     (let cls = unat t div 2 ^ 29; num = unat t mod 2 ^ 29
      in if num < 31 then [of_nat (cls * 32 + num)] else of_nat (cls * 32 + 31) # b128 num)"

lemma parse_tag_word:
  fixes n :: u32
  assumes "unat n < 2 ^ 29"
  shows "unat (push_bit 24 (ucast (b :: u8) AND 0xe0) OR n) = unat b div 32 * 2 ^ 29 + unat n"
proof -
  let ?h = "unat b div 32"
  have h: "?h < 8"
    using unat_u8_less [of b] by (simp add: less_mult_imp_div_less)
  have "unat (of_nat ?h :: u32) = ?h"
    using h by (simp add: unat_of_nat)
  moreover have "push_bit 24 (ucast b AND 0xe0) = push_bit 29 (of_nat ?h :: u32)"
  proof -
    have "unat (drop_bit 5 (ucast b) :: u32) = ?h"
      by (simp add: unat_drop_bit)
    then have "drop_bit 5 (ucast b) = (of_nat ?h :: u32)"
      by (metis of_nat_unat_word)
    then show ?thesis by (simp add: lead_bits push_bit_push_bit)
  qed
  ultimately show ?thesis
    using assms h unat_push_bit_or [of n 29 "of_nat ?h"] by simp
qed

lemma unat_ucast_and_0x1f: "unat (ucast (b :: u8) AND 0x1f :: u32) = unat b mod 32"
  by (simp add: unat_and_0x1f)

lemma unat_ucast_of_nat_u32: "n < 2 ^ 32 \<Longrightarrow> unat (ucast (of_nat n :: u64) :: u32) = n"
  by (simp add: unsigned_ucast_eq unat_of_nat take_bit_nat_eq_self)

lemma unat_u32_tag: "unat (t :: u32) div 2 ^ 29 < 8"
  using unsigned_less [where ?'a = nat, of t] by (simp add: less_mult_imp_div_less)

lemma unat_tag_number_mask: "unat CBS_ASN1_TAG_NUMBER_MASK = 2 ^ 29 - 1"
  by (simp add: CBS_ASN1_TAG_NUMBER_MASK_def CBS_ASN1_TAG_SHIFT_def)

lemma parse_asn1_tag_complete:
  assumes "cbs_ok c" "cbs_bytes c = der_tag t @ r"
  shows "parse_asn1_tag c = (Some t, cbs_adv (length (der_tag t)) c)"
proof -
  let ?h = "unat t div 2 ^ 29" and ?n = "unat t mod 2 ^ 29"
  let ?b = "of_nat (?h * 32 + min ?n 31) :: u8"
  have t: "unat t = ?h * 2 ^ 29 + ?n"
    by (simp only: div_mult_mod_eq)
  have "?h * 32 + min ?n 31 < 256"
    using unat_u32_tag [of t] by linarith
  then have b: "unat ?b = ?h * 32 + min ?n 31"
    by (rule unat_of_nat_u8_less)
  then have b': "unat ?b div 32 = ?h" "unat ?b mod 32 = min ?n 31"
    unfolding b by (simp_all add: min_def)
  have m: "unat (ucast ?b AND 0x1f :: u32) = min ?n 31"
    by (simp only: unat_ucast_and_0x1f b')
  have word: "push_bit 24 (ucast ?b AND 0xe0) OR n = t" if "unat n = ?n" for n :: u32
    using parse_tag_word [of n ?b] that t b'(1) by (simp only: word_unat_eq_iff) simp
  show ?thesis
  proof (cases "?n < 31")
    case True
    then have tag: "der_tag t = [?b]" 
      by (simp add: der_tag_def Let_def del: of_nat_add of_nat_mult)
    have get: "CBS_get_u8 c = (Some ?b, cbs_adv 1 c)"
      using assms tag by (intro cbs_get_u8_bytes) simp_all
    have "(ucast ?b AND 0x1f :: u32) \<noteq> 0x1f"
      using m True by (simp add: word_unat_eq_iff del: of_nat_add of_nat_mult)
    moreover have "push_bit 24 (ucast ?b AND 0xe0) OR (ucast ?b AND 0x1f) = t"
      by (rule word) (use m True in simp)
    ultimately show ?thesis
      by (simp only: parse_asn1_tag_def get on_success_simps Let_def CBS_ASN1_TAG_SHIFT_def tag if_False) simp
  next
    case False
    then have tag: "der_tag t = ?b # b128 ?n" 
      by (simp add: der_tag_def Let_def del: of_nat_add of_nat_mult)
    have get: "CBS_get_u8 c = (Some ?b, cbs_adv 1 c)"
      using assms tag by (intro cbs_get_u8_bytes) simp_all
    have n: "?n < 2 ^ 29" by simp
    have get2: "parse_base128_integer (cbs_adv 1 c) = (Some (of_nat ?n), cbs_adv (length (b128 ?n)) (cbs_adv 1 c))"
      using assms tag n by (intro parse_base128_complete [where r = r]) simp_all
    have eq: "(ucast ?b AND 0x1f :: u32) = 0x1f"
      using m False by (simp add: word_unat_eq_iff del: of_nat_add of_nat_mult)
    have u: "unat (of_nat ?n :: u64) = ?n"
      using n by (simp add: unat_of_nat)
    have g: "\<not> (of_nat ?n > (ucast CBS_ASN1_TAG_NUMBER_MASK :: u64) \<or> of_nat ?n < (0x1f :: u64))"
    proof -
      have "unat (ucast CBS_ASN1_TAG_NUMBER_MASK :: u64) = 2 ^ 29 - 1"
        by (simp add: CBS_ASN1_TAG_NUMBER_MASK_def CBS_ASN1_TAG_SHIFT_def)
      with u n False show ?thesis
        by (simp only: word_less_nat_alt) simp
    qed
    have "unat (ucast (of_nat ?n :: u64) :: u32) = ?n"
      by (rule unat_ucast_of_nat_u32) (use n in simp)
    then have "push_bit 24 (ucast ?b AND 0xe0) OR ucast (of_nat ?n :: u64) = t"
      by (rule word)
    with eq g show ?thesis
      by (simp only: parse_asn1_tag_def get on_success_simps Let_def CBS_ASN1_TAG_SHIFT_def tag if_True get2 if_False) simp
  qed
qed

lemma parse_asn1_tag_sound:
  assumes "parse_asn1_tag c = (Some t, c')" "cbs_ok c"
  shows "cbs_bytes c = der_tag t @ cbs_bytes c' \<and> c' = cbs_adv (length (der_tag t)) c"
proof -
  obtain b c1 where get: "CBS_get_u8 c = (Some b, c1)"
    using assms(1) by (auto simp: parse_asn1_tag_def elim: on_success_SomeE)
  have c1: "cbs_bytes c = b # cbs_bytes c1" "c1 = cbs_adv 1 c"
    using cbs_get_u8_SomeD [OF assms(2) get] by blast+
  have ok1: "cbs_ok c1" using assms(2) c1(2) by simp
  have m: "unat (ucast b AND 0x1f :: u32) = unat b mod 32"
    by (simp add: unat_and_0x1f)
  have bb: "unat b = unat b div 32 * 32 + unat b mod 32"
    by simp
  show ?thesis
  proof (cases "(ucast b AND 0x1f :: u32) = 0x1f")
    case False
    then have t: "t = push_bit 24 (ucast b AND 0xe0) OR (ucast b AND 0x1f)" "c' = c1"
      using assms(1) by (simp_all add: parse_asn1_tag_def get CBS_ASN1_TAG_SHIFT_def Let_def)
    have ne: "unat b mod 32 \<noteq> 31"
      using False m by (simp add: word_unat_eq_iff)
    have "unat (ucast b AND 0x1f :: u32) < 2 ^ 29"
      using m mod_less_divisor [of 32 "unat b"] by simp
    then have v: "unat t = unat b div 32 * 2 ^ 29 + unat b mod 32"
      by (simp only: t(1) parse_tag_word m)
    have l: "unat b mod 32 < 31"
      using ne mod_less_divisor [of 32 "unat b"] by simp
    have "unat t div 2 ^ 29 = unat b div 32" "unat t mod 2 ^ 29 = unat b mod 32"
      using v l by simp_all
    then have "der_tag t = [b]"
      using l by (simp only: der_tag_def Let_def bb [symmetric] of_nat_unat_word if_True)
    then show ?thesis
      using c1 t(2) by simp
  next
    case True
    have eq: "on_success (parse_base128_integer c1) (\<lambda>v c''.
              if v > ucast CBS_ASN1_TAG_NUMBER_MASK \<or> v < 0x1f then (None, c'')
              else (Some (push_bit 24 (ucast b AND 0xe0) OR ucast v), c'')) = (Some t, c')"
      using assms(1) True
      by (simp only: parse_asn1_tag_def get CBS_ASN1_TAG_SHIFT_def Let_def on_success_simps simp_thms if_True)
    then obtain v where v: "parse_base128_integer c1 = (Some v, c')"
      "\<not> (v > ucast CBS_ASN1_TAG_NUMBER_MASK \<or> v < 0x1f)" "t = push_bit 24 (ucast b AND 0xe0) OR ucast v"
      by (auto simp: on_success_Some_iff split: if_splits)
    have "unat (ucast CBS_ASN1_TAG_NUMBER_MASK :: u64) = 2 ^ 29 - 1"
      by (simp add: CBS_ASN1_TAG_NUMBER_MASK_def CBS_ASN1_TAG_SHIFT_def)
    with v(2) have n: "unat v < 2 ^ 29" "31 \<le> unat v"
      by (simp_all add: word_less_nat_alt)
    have u: "unat (ucast v :: u32) = unat v"
      using n by (simp add: unsigned_ucast_eq take_bit_nat_eq_self)
    have tv: "unat t = unat b div 32 * 2 ^ 29 + unat v"
      using n(1) by (simp only: v(3) parse_tag_word u)
    have parts: "unat t div 2 ^ 29 = unat b div 32" "unat t mod 2 ^ 29 = unat v"
      using tv n(1) by simp_all
    have "unat b mod 32 = 31"
      using True m by (simp add: word_unat_eq_iff)
    then have "unat b = unat b div 32 * 32 + 31"
      using bb by simp
    then have "(of_nat (unat b div 32 * 32 + 31) :: u8) = b"
      by (metis of_nat_unat_word)
    then have tag: "der_tag t = b # b128 (unat v)"
      using n(2) by (simp only: der_tag_def parts Let_def) simp
    note rest = parse_base128_sound [OF v(1) ok1]
    have "cbs_bytes c = der_tag t @ cbs_bytes c'"
      by (simp only: c1(1) rest [THEN conjunct1] tag append_Cons)
    moreover have "c' = cbs_adv (length (der_tag t)) c"
      by (simp only: rest [THEN conjunct2] c1(2) cbs_adv_simps tag list.size plus_1_eq_Suc add_0 add_Suc_right add_0_right)
    ultimately show ?thesis ..
  qed
qed

section \<open>Lengths\<close>

text \<open>The length octets of X.690, 8.1.3 in the only form DER allows (10.1).\<close>

fun byte_len :: "nat \<Rightarrow> nat" where
  "byte_len n = (if n = 0 then 0 else Suc (byte_len (n div 256)))"

declare byte_len.simps [simp del]

definition der_length :: "nat \<Rightarrow> u8 list" where
  "der_length n =
     (if n < 128 then [of_nat n] else of_nat (128 + byte_len n) # be_bytes (byte_len n) n)"

definition der_header :: "u32 \<Rightarrow> nat \<Rightarrow> u8 list" where
  "der_header t n = der_tag t @ der_length n"

definition der_element :: "u32 \<Rightarrow> u8 list \<Rightarrow> u8 list" where
  "der_element t body = der_header t (length body) @ body"

lemma byte_len_le_iff: "byte_len n \<le> k \<longleftrightarrow> n < 256 ^ k"
proof (induction k arbitrary: n)
  case 0
  then show ?case by (simp add: byte_len.simps [of n])
next
  case (Suc k)
  have "n < 256 ^ Suc k \<longleftrightarrow> n div 256 < 256 ^ k"
    by (simp add: div_less_iff_less_mult mult.commute)
  with Suc show ?case by (simp add: byte_len.simps [of n])
qed

lemma byte_len_eqI:
  assumes "256 ^ k \<le> n" "n < 256 ^ Suc k"
  shows "byte_len n = Suc k"
proof -
  have "\<not> byte_len n \<le> k" "byte_len n \<le> Suc k"
    using assms by (auto simp only: byte_len_le_iff not_less)
  then show ?thesis by simp
qed

lemma byte_len_bounds:
  assumes "n \<noteq> 0"
  shows "256 ^ (byte_len n - 1) \<le> n" "n < 256 ^ byte_len n" "0 < byte_len n"
proof -
  show p: "0 < byte_len n"
    using assms by (simp add: byte_len.simps [of n])
  show "n < 256 ^ byte_len n"
    by (simp only: byte_len_le_iff [symmetric])
  have "\<not> byte_len n \<le> byte_len n - 1"
    using p by simp
  then show "256 ^ (byte_len n - 1) \<le> n"
    by (simp only: byte_len_le_iff not_less)
qed

section \<open>Elements\<close>

lemma length_b128_tag: "length (der_tag t) \<le> 6"
proof -
  have "unat t mod 2 ^ 29 div 128 < 128 ^ 4"
    by (simp add: less_mult_imp_div_less)
  then have "length (b128_more (unat t mod 2 ^ 29 div 128)) \<le> 4"
    by (rule length_b128_more)
  then show ?thesis
    by (simp add: der_tag_def b128_def Let_def del: of_nat_add of_nat_mult)
qed

lemma top_byte_zero:
  assumes "n < 256 ^ k" "0 < k" "k \<le> 4"
  shows "drop_bit ((k - 1) * 8) (of_nat n :: u64) = 0 \<longleftrightarrow> n < 256 ^ (k - 1)"
proof -
  have "(256 :: nat) ^ k \<le> 256 ^ 4"
    using assms(3) by (intro power_increasing) auto
  then have n: "unat (of_nat n :: u64) = n"
    using assms(1) by (simp add: unat_of_nat)
  have "(2 :: nat) ^ ((k - 1) * 8) = 256 ^ (k - 1)"
    using power_mult [of "2 :: nat" 8 "k - 1"] by (simp add: mult.commute)
  then show ?thesis
    by (simp only: word_unat_eq_iff unat_drop_bit n) (simp add: div_eq_0_iff)
qed

lemma u64_less_iff: "(of_nat n :: u64) < of_nat m \<longleftrightarrow> n < m" if "n < 2 ^ 64" "m < 2 ^ 64" for n m
  using that by (simp add: word_less_nat_alt unat_of_nat)

lemma cbs_get_any_asn1_element_complete:
  assumes ok: "cbs_ok c" and bytes: "cbs_bytes c = der_element t body @ r"
    and small: "length body < 2 ^ 32"
  shows "cbs_get_any_asn1_element c ber =
    (Some (CBS_init (cbs_data c) (length (der_element t body)), t, length (der_header t (length body))),
     cbs_adv (length (der_element t body)) c)"
proof -
  let ?n = "length body" and ?L = "length (der_tag t)"
  let ?c2 = "cbs_adv (?L + 1) c"
  have len: "cbs_len c = length (der_element t body) + length r"
    using ok bytes length_cbs_bytes [of c] by simp
  have tag: "parse_asn1_tag c = (Some t, cbs_adv ?L c)"
    using bytes by (intro parse_asn1_tag_complete [OF ok]) (simp add: der_element_def der_header_def)
  have bytes1: "cbs_bytes (cbs_adv ?L c) = der_length ?n @ body @ r"
    by (simp add: bytes der_element_def der_header_def)
  show ?thesis
  proof (cases "?n < 128")
    case True
    let ?b = "of_nat ?n :: u8"
    have b: "unat ?b = ?n" "?b AND 0x80 = 0"
      using True by (simp_all add: unat_of_nat_u8 u8_and_0x80)
    have get: "CBS_get_u8 (cbs_adv ?L c) = (Some ?b, ?c2)"
      using cbs_get_u8_bytes [of "cbs_adv ?L c" ?b "body @ r"] ok bytes1 True by (simp add: der_length_def)
    have dl: "length (der_length ?n) = 1"
      using True by (simp add: der_length_def)
    have hl: "CBS_len c - CBS_len ?c2 = ?L + 1"
      using len dl by (simp add: CBS_len_def der_element_def der_header_def)
    show ?thesis
      unfolding cbs_get_any_asn1_element_def tag prod.case option.case get Let_def hl
      using b len dl by (simp add: CBS_get_bytes_eq der_element_def der_header_def add.commute)
  next
    case False
    let ?k = "byte_len ?n"
    let ?b = "of_nat (128 + ?k) :: u8"
    have k: "?k \<le> 4" "0 < ?k" "256 ^ (?k - 1) \<le> ?n" "?n < 256 ^ ?k"
    proof -
      have "?n \<noteq> 0" using False by linarith
      note bounds = byte_len_bounds [OF this]
      show "?k \<le> 4" using small by (simp add: byte_len_le_iff)
      show "0 < ?k" "256 ^ (?k - 1) \<le> ?n" "?n < 256 ^ ?k"
        by (rule bounds)+
    qed
    have b: "unat ?b = 128 + ?k"
      using k(1) by (intro unat_of_nat_u8_less) simp
    have dl: "der_length ?n = ?b # be_bytes ?k ?n"
      using False by (simp add: der_length_def)
    have get: "CBS_get_u8 (cbs_adv ?L c) = (Some ?b, ?c2)"
      using cbs_get_u8_bytes [of "cbs_adv ?L c" ?b] ok bytes1 dl by simp
    have nb: "unat (?b AND 0x7f) = ?k"
      unfolding unat_u8_and_0x7f b using k(1) by simp
    have hi: "?b AND 0x80 \<noteq> 0"
      unfolding u8_and_0x80 b by simp
    have bytes2: "cbs_bytes ?c2 = be_bytes ?k ?n @ body @ r"
    proof -
      have "cbs_bytes ?c2 = drop 1 (cbs_bytes (cbs_adv ?L c))" by simp
      then show ?thesis unfolding bytes1 dl by simp
    qed
    have len2: "cbs_len ?c2 = ?k + ?n + length r"
      using len dl by (simp add: der_element_def der_header_def)
    have "be_val (take ?k (cbs_bytes ?c2)) = ?n"
      unfolding bytes2 using k(4) by (simp add: be_val_be_bytes)
    then have u: "cbs_get_u ?c2 ?k = (Some (of_nat ?n), cbs_adv ?k ?c2)"
      using k(1) len2 by (simp add: cbs_get_u_eq)
    have n: "unat (of_nat ?n :: u64) = ?n"
      using small by (simp add: unat_of_nat)
    have g1: "\<not> (of_nat ?n :: u64) < 128"
      using False n by (simp add: word_less_nat_alt)
    have g2: "drop_bit ((?k - 1) * 8) (of_nat ?n :: u64) \<noteq> 0"
      using top_byte_zero [OF k(4,2,1)] k(3) by (simp only: not_less simp_thms)
    have hl: "CBS_len c - CBS_len ?c2 = ?L + 1"
      using len dl by (simp add: CBS_len_def der_element_def der_header_def)
    have fit: "size_wrap (?n + (?L + 1) + ?k) = ?n + (?L + 1) + ?k"
      using small length_b128_tag [of t] k(1) by (intro size_wrap_small) simp
    have g0: "\<not> (?k = 0 \<or> ?k > 4)" "\<not> (ber \<and> t AND CBS_ASN1_CONSTRUCTED \<noteq> 0 \<and> ?k = 0)"
      using k(1,2) by auto
    have g3: "\<not> ?n + (?L + 1) + ?k < ?n"
      by simp
    show ?thesis
      unfolding cbs_get_any_asn1_element_def tag prod.case option.case get Let_def hl nb u n fit
        if_not_P [OF g0(1)] if_not_P [OF g0(2)] if_not_P [OF hi] if_not_P [OF g1] if_not_P [OF g2] if_not_P [OF g3]
      using len dl by (simp add: CBS_get_bytes_eq der_element_def der_header_def add.commute add.left_commute)
  qed
qed

lemma cbs_get_any_asn1_element_sound:
  assumes res: "cbs_get_any_asn1_element c False = (Some (out, t, hl), c')" and ok: "cbs_ok c"
  shows "\<exists>body. length body < 2 ^ 32 \<and> cbs_bytes c = der_element t body @ cbs_bytes c' \<and>
    c' = cbs_adv (length (der_element t body)) c \<and>
    out = CBS_init (cbs_data c) (length (der_element t body)) \<and> hl = length (der_header t (length body))"
proof -
  obtain h1 where tag: "parse_asn1_tag c = (Some t, h1)"
    using res by (auto simp: cbs_get_any_asn1_element_def Let_def on_success_Some_iff
      split: prod.splits option.splits if_splits)
  let ?L = "length (der_tag t)"
  have h1: "cbs_bytes c = der_tag t @ cbs_bytes h1" "h1 = cbs_adv ?L c"
    using parse_asn1_tag_sound [OF tag ok] by blast+
  have ok1: "cbs_ok h1" using ok h1(2) by simp
  obtain b h2 where get: "CBS_get_u8 h1 = (Some b, h2)"
    using res tag by (auto simp: cbs_get_any_asn1_element_def split: prod.splits option.splits)
  have h2: "cbs_bytes h1 = b # cbs_bytes h2" "h2 = cbs_adv 1 h1"
    using cbs_get_u8_SomeD [OF ok1 get] by blast+
  have len: "cbs_len c = ?L + 1 + length (cbs_bytes h2)"
    using h1(1) h2(1) ok length_cbs_bytes [of c] by simp
  have adv: "h2 = cbs_adv (?L + 1) c"
    by (simp only: h2(2) h1(2) cbs_adv_simps)
  have len2: "cbs_len h2 = length (cbs_bytes h2)"
    using ok adv by simp
  have hl: "CBS_len c - CBS_len h2 = ?L + 1"
    using len by (simp add: CBS_len_def adv)
  have bytes: "cbs_bytes c = der_tag t @ b # cbs_bytes h2"
    by (simp only: h1(1) h2(1))
  have drop2: "cbs_bytes h2 = drop (?L + 1) (cbs_bytes c)"
    by (simp add: adv)
  show ?thesis
  proof (cases "b AND 0x80 = 0")
    case True
    let ?n = "unat b"
    have n: "?n < 128" using True by (simp add: u8_and_0x80)
    have "on_success (CBS_get_bytes c (?n + (?L + 1))) (\<lambda>out c'. (Some (out, t, ?L + 1), c'))
        = (Some (out, t, hl), c')"
      using res unfolding cbs_get_any_asn1_element_def tag prod.case option.case get Let_def hl if_P [OF True] .
    then have o: "?n + (?L + 1) \<le> cbs_len c" "out = CBS_init (cbs_data c) (?n + (?L + 1))"
      "hl = ?L + 1" "c' = cbs_adv (?n + (?L + 1)) c"
      by (auto simp: CBS_get_bytes_eq split: if_splits)
    let ?body = "take ?n (cbs_bytes h2)"
    have lb: "length ?body = ?n"
      using o(1) len by simp
    have dl: "der_length ?n = [b]"
      using n by (simp add: der_length_def)
    have "cbs_bytes c = der_tag t @ [b] @ ?body @ drop ?n (cbs_bytes h2)"
      by (simp add: bytes)
    moreover have "cbs_bytes c' = drop ?n (cbs_bytes h2)"
      unfolding o(4) drop2 by (simp add: add.commute)
    ultimately have "cbs_bytes c = der_element t ?body @ cbs_bytes c'"
      by (simp only: der_element_def der_header_def lb dl append.assoc)
    moreover have "length (der_element t ?body) = ?n + (?L + 1)" "length (der_header t (length ?body)) = ?L + 1"
      by (simp_all only: der_element_def der_header_def lb dl length_append) simp_all
    ultimately show ?thesis
      using n o(2-4) lb by (intro exI [of _ ?body]) simp
  next
    case False
    let ?k = "unat (b AND 0x7f)"
    have b: "128 \<le> unat b" "unat b = 128 + ?k"
      using False u8_mod_128 [of b] by (auto simp: u8_and_0x80 unat_u8_and_0x7f)
    have r1: "?k \<noteq> 0" "?k \<le> 4"
      using res unfolding cbs_get_any_asn1_element_def tag prod.case option.case get Let_def hl
        if_not_P [OF False] by (auto split: if_splits)
    then have ng: "\<not> (False \<and> t AND CBS_ASN1_CONSTRUCTED \<noteq> 0 \<and> ?k = 0)" "\<not> (?k = 0 \<or> ?k > 4)"
      by auto
    let ?n = "be_val (take ?k (cbs_bytes h2))"
    have k8: "?k \<le> 8" using r1 by simp
    have u: "cbs_get_u h2 ?k = (if cbs_len h2 < ?k then (None, h2) else (Some (of_nat ?n), cbs_adv ?k h2))"
      by (rule cbs_get_u_eq [OF k8])
    have l2: "\<not> cbs_len h2 < ?k"
      using res unfolding cbs_get_any_asn1_element_def tag prod.case option.case get Let_def hl
        if_not_P [OF False] if_not_P [OF ng(1)] if_not_P [OF ng(2)] u by (auto split: if_splits)
    have nv: "unat (of_nat ?n :: u64) = ?n"
      by (rule unat_be_val_u64 [OF k8])
    have nk: "?n < 256 ^ ?k" "?n < 2 ^ 32"
      using be_val_take_less [of ?k ?k] be_val_take_less [OF r1(2), of "cbs_bytes h2"] by simp_all
    have fit: "size_wrap (?n + (?L + 1) + ?k) = ?n + (?L + 1) + ?k"
      using nk(2) length_b128_tag [of t] r1 by (intro size_wrap_small) simp
    have r2: "(if (of_nat ?n :: u64) < 128 then (None, c)
       else if drop_bit ((?k - 1) * 8) (of_nat ?n :: u64) = 0 then (None, c)
       else if ?n + (?L + 1) + ?k < ?n then (None, c)
       else on_success (CBS_get_bytes c (?n + (?L + 1) + ?k)) (\<lambda>out c'. (Some (out, t, ?L + 1 + ?k), c')))
       = (Some (out, t, hl), c')"
      using res unfolding cbs_get_any_asn1_element_def tag prod.case option.case get Let_def hl
        if_not_P [OF False] if_not_P [OF ng(1)] if_not_P [OF ng(2)] u if_not_P [OF l2] nv fit .
    then have g: "\<not> (of_nat ?n :: u64) < 128" "drop_bit ((?k - 1) * 8) (of_nat ?n :: u64) \<noteq> 0"
      and o: "?n + (?L + 1) + ?k \<le> cbs_len c" "out = CBS_init (cbs_data c) (?n + (?L + 1) + ?k)"
      "hl = ?L + 1 + ?k" "c' = cbs_adv (?n + (?L + 1) + ?k) c"
      by (auto simp: CBS_get_bytes_eq split: if_splits)
    have n128: "128 \<le> ?n"
      using g(1) nv by (simp add: word_less_nat_alt)
    have "256 ^ (?k - 1) \<le> ?n"
      using g(2) top_byte_zero [OF nk(1) _ r1(2)] r1(1) by (simp only: not_less neq0_conv simp_thms)
    then have bl: "byte_len ?n = ?k"
      using nk(1) r1(1) byte_len_eqI [of "?k - 1" ?n] by simp
    have tk: "length (take ?k (cbs_bytes h2)) = ?k"
      using l2 len2 by simp
    have bb: "be_bytes ?k ?n = take ?k (cbs_bytes h2)"
      using be_bytes_be_val [of "take ?k (cbs_bytes h2)"] by (simp only: tk)
    have "(of_nat (128 + ?k) :: u8) = b"
      by (metis b(2) of_nat_unat_word)
    then have dl: "der_length ?n = b # take ?k (cbs_bytes h2)"
      using n128 by (simp only: der_length_def bl bb if_False not_less [symmetric])
    let ?body = "take ?n (drop ?k (cbs_bytes h2))"
    have lb: "length ?body = ?n"
      using o(1) len by simp
    have "cbs_bytes c = der_tag t @ (b # take ?k (cbs_bytes h2)) @ ?body @ drop (?k + ?n) (cbs_bytes h2)"
    proof -
      have "cbs_bytes h2 = take ?k (cbs_bytes h2) @ ?body @ drop ?n (drop ?k (cbs_bytes h2))"
        by (simp only: append_take_drop_id)
      then show ?thesis
        by (simp only: bytes append_Cons drop_drop add.commute [of ?n])
    qed
    moreover have "cbs_bytes c' = drop (?k + ?n) (cbs_bytes h2)"
    proof -
      have "?n + (?L + 1) + ?k = (?k + ?n) + (?L + 1)" by simp
      then show ?thesis
        by (simp only: o(4) drop2 cbs_adv_simps drop_drop)
    qed
    ultimately have "cbs_bytes c = der_element t ?body @ cbs_bytes c'"
      by (simp only: der_element_def der_header_def lb dl append.assoc)
    moreover have "length (der_element t ?body) = ?n + (?L + 1) + ?k"
      "length (der_header t (length ?body)) = ?L + 1 + ?k"
      by (simp_all only: der_element_def der_header_def lb dl length_append list.size tk)
    ultimately show ?thesis
      using nk(2) lb by (intro exI [of _ ?body]) (simp only: o(2-4) simp_thms)
  qed
qed

section \<open>Integers\<close>

text \<open>
  Two's complement contents octets (X.690, 8.3): not empty, and the first nine bits are neither
  all zero nor all one.
\<close>

definition twos_val :: "u8 list \<Rightarrow> int" where
  "twos_val bs = int (be_val bs) - (if bs \<noteq> [] \<and> 128 \<le> unat (hd bs) then 256 ^ length bs else 0)"

fun der_int_ok :: "u8 list \<Rightarrow> bool" where
  "der_int_ok [] = False"
| "der_int_ok [b] = True"
| "der_int_ok (b # b' # bs) =
     (\<not> (unat b = 0 \<and> unat b' < 128) \<and> \<not> (unat b = 255 \<and> 128 \<le> unat b'))"

lemma asn1_uint64_loop_eq:
  "asn1_uint64_loop bs r =
    (let v = unat r * 256 ^ length bs + be_val bs in if v < 2 ^ 64 then Some (of_nat v) else None)"
proof (induction bs arbitrary: r)
  case Nil
  show ?case using unsigned_less [where ?'a = nat, of r] by (simp add: of_nat_unat_word)
next
  case (Cons b bs)
  show ?case
  proof (cases "drop_bit 56 r = 0")
    case True
    then have "unat r div 2 ^ 56 = 0"
      using unat_drop_bit [of 56 r] by simp
    then have r: "unat r < 2 ^ 56" by simp
    have "unat (push_bit 8 r OR ucast b :: u64) = unat r * 2 ^ 8 + unat b"
      using r unat_push_bit_or [of "ucast b :: u64" 8 r] unat_u8_less [of b] by simp
    then have "unat (push_bit 8 r OR ucast b :: u64) * 256 ^ length bs + be_val bs =
        unat r * 256 ^ length (b # bs) + be_val (b # bs)"
      by (simp add: be_val_Cons algebra_simps)
    with True Cons show ?thesis
      by (simp add: Let_def)
  next
    case False
    then have "unat r div 2 ^ 56 \<noteq> 0"
      using unat_drop_bit [of 56 r] by (simp add: word_unat_eq_iff)
    then have "2 ^ 56 \<le> unat r"
      by (meson div_less not_le)
    then have "(2 :: nat) ^ 64 \<le> unat r * 256" by simp
    also have "\<dots> \<le> unat r * 256 ^ length (b # bs)"
      by simp
    finally have "\<not> unat r * 256 ^ length (b # bs) + be_val (b # bs) < 2 ^ 64"
      by linarith
    with False show ?thesis
      by (simp only: asn1_uint64_loop.simps Let_def if_False if_True simp_thms)
  qed
qed

lemma be_val_ones: "be_val (replicate n 0xff) + 1 = 256 ^ n"
  by (induction n) (simp_all add: be_val_Cons)

lemma be_val_zeros: "be_val (replicate n 0 @ bs) = be_val bs"
  by (induction n) (simp_all add: be_val_Cons)

lemma CBS_get_asn1_complete:
  assumes "cbs_ok c" "cbs_bytes c = der_element t body @ r" "length body < 2 ^ 32"
  shows "\<exists>out. CBS_get_asn1 c t = (Some out, cbs_adv (length (der_element t body)) c) \<and>
    cbs_ok out \<and> cbs_bytes out = body"
proof -
  let ?n = "length (der_element t body)" and ?h = "length (der_header t (length body))"
  let ?out = "cbs_adv ?h (CBS_init (cbs_data c) ?n)"
  have le: "?n \<le> length (cbs_data c)" "?n \<le> cbs_len c"
    using assms(1,2) length_cbs_bytes [of c] by (simp_all add: cbs_ok_def)
  have "CBS_get_asn1 c t = (Some ?out, cbs_adv ?n c)"
    by (simp add: CBS_get_asn1_def cbs_get_asn1_def CBS_get_any_asn1_element_def CBS_skip_eq
        cbs_get_any_asn1_element_complete [OF assms] der_element_def)
  moreover have "cbs_bytes ?out = body"
    using le(2) by (simp add: take_cbs_data assms(2)) (simp add: der_element_def)
  ultimately show ?thesis
    using le(1) by (intro exI [of _ ?out]) simp
qed

lemma CBS_get_asn1_sound:
  assumes "CBS_get_asn1 c t = (Some out, c')" "cbs_ok c"
  shows "cbs_bytes c = der_element t (cbs_bytes out) @ cbs_bytes c' \<and> cbs_ok out \<and>
    c' = cbs_adv (length (der_element t (cbs_bytes out))) c \<and> length (cbs_bytes out) < 2 ^ 32"
proof -
  obtain el hl where el: "cbs_get_any_asn1_element c False = (Some (el, t, hl), c')"
    and skip: "CBS_skip el hl = (Some (), out)"
    using assms(1)
    by (auto simp: CBS_get_asn1_def cbs_get_asn1_def CBS_get_any_asn1_element_def on_success_Some_iff
        split: if_splits prod.splits option.splits)
  obtain body where body: "length body < 2 ^ 32" "cbs_bytes c = der_element t body @ cbs_bytes c'"
    "c' = cbs_adv (length (der_element t body)) c"
    "el = CBS_init (cbs_data c) (length (der_element t body))" "hl = length (der_header t (length body))"
    using cbs_get_any_asn1_element_sound [OF el assms(2)] by blast
  have l: "length (der_element t body) \<le> cbs_len c" 
    using body(2) length_cbs_bytes [OF assms(2)] by (metis length_append le_add1)
  have out: "out = cbs_adv hl el"
    using skip by (simp add: CBS_skip_eq split: if_splits)
  have "cbs_bytes out = body"
    unfolding out body(4,5) using l by (simp add: take_cbs_data body(2)) (simp add: der_element_def)
  moreover have "cbs_ok out"
    unfolding out body(4,5) using l assms(2) by (simp add: cbs_ok_def)
  ultimately show ?thesis
    using body(1-3) by simp
qed

lemma twos_val_Cons:
  "twos_val (b # bs) =
     (int (unat b) - (if 128 \<le> unat b then 256 else 0)) * 256 ^ length bs + int (be_val bs)"
  by (simp add: twos_val_def be_val_Cons algebra_simps)

lemma signed_byte_bounds:
  "n < 256 \<Longrightarrow> - 128 \<le> int n - (if 128 \<le> n then 256 else 0) \<and> int n - (if 128 \<le> n then 256 else 0) \<le> 127"
  by auto

lemma signed_two_bytes:
  assumes "n < 256" "m < 256" "\<not> (n = 0 \<and> m < 128)" "\<not> (n = 255 \<and> 128 \<le> m)"
  shows "(int n - (if 128 \<le> n then 256 else 0)) * 256 + int m \<le> - 129 \<or>
    128 \<le> (int n - (if 128 \<le> n then 256 else 0)) * 256 + int m"
  using assms by (cases "128 \<le> n") auto

lemma twos_val_range:
  assumes "length bs = Suc k"
  shows "- (128 * 256 ^ k) \<le> twos_val bs" "twos_val bs < 128 * 256 ^ k"
proof -
  obtain b bs' where bs: "bs = b # bs'" "length bs' = k"
    using assms by (cases bs) auto
  let ?s = "int (unat b) - (if 128 \<le> unat b then 256 else 0)"
  have s: "- 128 \<le> ?s" "?s \<le> 127"
    using signed_byte_bounds [OF unat_u8_less] by blast+
  have v: "int (be_val bs') < 256 ^ k"
    using be_val_less [of bs'] bs(2) by (metis of_nat_less_iff of_nat_numeral of_nat_power)
  have "- 128 * 256 ^ k \<le> ?s * 256 ^ k" "?s * 256 ^ k \<le> 127 * 256 ^ k"
    by (rule mult_right_mono [OF s(1)], simp, rule mult_right_mono [OF s(2)], simp)
  with v show "- (128 * 256 ^ k) \<le> twos_val bs" "twos_val bs < 128 * 256 ^ k"
    unfolding bs(1) twos_val_Cons bs(2) by linarith+
qed

lemma twos_val_minimal:
  assumes "der_int_ok bs" "length bs = Suc (Suc k)"
  shows "twos_val bs < - (128 * 256 ^ k) \<or> 128 * 256 ^ k \<le> twos_val bs"
proof -
  obtain b b' bs' where bs: "bs = b # b' # bs'" "length bs' = k"
    using assms(2) by (metis Suc_length_conv)
  let ?s = "int (unat b) - (if 128 \<le> unat b then 256 else 0)"
  let ?P = "(256 :: int) ^ k"
  have tv: "twos_val bs = (?s * 256 + int (unat b')) * ?P + int (be_val bs')"
    by (simp add: bs twos_val_Cons be_val_Cons algebra_simps)
  have v: "int (be_val bs') < ?P"
    using be_val_less [of bs'] bs(2) by (metis of_nat_less_iff of_nat_numeral of_nat_power)
  have b: "unat b < 256" "unat b' < 256" by simp_all
  have m: "\<not> (unat b = 0 \<and> unat b' < 128)" "\<not> (unat b = 255 \<and> 128 \<le> unat b')"
    using assms(1) bs(1) by simp_all
  have "?s * 256 + int (unat b') \<le> - 129 \<or> 128 \<le> ?s * 256 + int (unat b')"
    using signed_two_bytes [OF b m] .
  then show ?thesis
  proof
    assume "?s * 256 + int (unat b') \<le> - 129"
    then have "(?s * 256 + int (unat b')) * ?P \<le> - 129 * ?P"
      by (rule mult_right_mono) simp
    with v show ?thesis unfolding tv by linarith
  next
    assume "128 \<le> ?s * 256 + int (unat b')"
    then have "128 * ?P \<le> (?s * 256 + int (unat b')) * ?P"
      by (rule mult_right_mono) simp
    then show ?thesis unfolding tv by linarith
  qed
qed

lemma der_int_ok_length:
  assumes "der_int_ok bs"
  shows "length bs \<le> Suc k \<longleftrightarrow> - (128 * 256 ^ k) \<le> twos_val bs \<and> twos_val bs < 128 * 256 ^ k"
proof -
  have pos: "0 < length bs"
    using assms by (cases bs) auto
  have mono: "(256 :: int) ^ i \<le> 256 ^ j" if "i \<le> j" for i j
    using that by (rule power_increasing) simp
  show ?thesis
  proof
    assume l: "length bs \<le> Suc k"
    then obtain j where j: "length bs = Suc j" "j \<le> k"
      using pos by (metis Suc_le_mono gr0_implies_Suc)
    show "- (128 * 256 ^ k) \<le> twos_val bs \<and> twos_val bs < 128 * 256 ^ k"
      using twos_val_range [OF j(1)] mono [OF j(2)] by linarith
  next
    assume r: "- (128 * 256 ^ k) \<le> twos_val bs \<and> twos_val bs < 128 * 256 ^ k"
    show "length bs \<le> Suc k"
    proof (rule ccontr)
      assume "\<not> length bs \<le> Suc k"
      then have "length bs = Suc (Suc (length bs - 2))" "k \<le> length bs - 2"
        by simp_all
      then obtain j where j: "length bs = Suc (Suc j)" "k \<le> j"
        by blast
      show False
        using twos_val_minimal [OF assms j(1)] mono [OF j(2)] r by linarith
    qed
  qed
qed

text \<open>What the typed readers return on any element with the right tag.\<close>

lemma der_int_ok_iff:
  "der_int_ok bs \<longleftrightarrow> bs \<noteq> [] \<and> \<not> (bs ! 0 = 0 \<and> 1 < length bs \<and> bs ! 1 AND 0x80 = 0) \<and>
     \<not> (1 < length bs \<and> bs ! 0 = 0xff \<and> bs ! 1 AND 0x80 \<noteq> 0)"
proof (cases bs rule: der_int_ok.cases)
  case (3 b b' r)
  have "unat b = 0 \<longleftrightarrow> b = 0" "unat b = 255 \<longleftrightarrow> b = 0xff"
    by (simp_all add: word_unat_eq_iff)
  then show ?thesis
    by (auto simp: 3 u8_and_0x80)
qed auto

lemma twos_val_nonneg_iff: "bs \<noteq> [] \<Longrightarrow> 0 \<le> twos_val bs \<longleftrightarrow> bs ! 0 AND 0x80 = 0"
proof (cases bs)
  case (Cons b r)
  have "int (be_val bs) < 256 ^ length bs"
    using be_val_less [of bs] by (metis of_nat_less_iff of_nat_numeral of_nat_power)
  then show ?thesis
    by (auto simp: Cons u8_and_0x80 twos_val_def)
qed simp

lemma CBS_get_asn1_contents:
  assumes "cbs_ok c" "cbs_bytes c = der_element t bs @ r" "length bs < 2 ^ 32"
  obtains out where "CBS_get_asn1 c t = (Some out, cbs_adv (length (der_element t bs)) c)"
    "cbs_ok out" "cbs_bytes out = bs" "CBS_len out = length bs"
    "\<And>i. i < length bs \<Longrightarrow> CBS_data out ! i = bs ! i" "take (length bs) (CBS_data out) = bs"
proof -
  obtain out where out: "CBS_get_asn1 c t = (Some out, cbs_adv (length (der_element t bs)) c)"
    "cbs_ok out" "cbs_bytes out = bs"
    using CBS_get_asn1_complete [OF assms] by blast
  moreover from out have len: "cbs_len out = length bs"
    using length_cbs_bytes by metis
  moreover from this have "CBS_data out ! i = bs ! i" if "i < length bs" for i
    using that nth_cbs_data [of i out] out(3) by (simp add: CBS_data_def)
  moreover have "take (length bs) (CBS_data out) = bs"
    using len out(3) by (simp add: CBS_data_def cbs_bytes_def)
  ultimately show ?thesis
    using that by (simp add: CBS_len_def)
qed

lemma CBS_get_asn1_uint64_eq:
  assumes "cbs_ok c" "cbs_bytes c = der_element CBS_ASN1_INTEGER bs @ r" "length bs < 2 ^ 32"
  shows "CBS_get_asn1_uint64 c =
    (if der_int_ok bs \<and> 0 \<le> twos_val bs \<and> twos_val bs < 2 ^ 64 then Some (of_int (twos_val bs)) else None,
     cbs_adv (length (der_element CBS_ASN1_INTEGER bs)) c)"
proof -
  obtain out where out: "CBS_get_asn1 c CBS_ASN1_INTEGER =
      (Some out, cbs_adv (length (der_element CBS_ASN1_INTEGER bs)) c)"
    and len: "CBS_len out = length bs" and nth: "\<And>i. i < length bs \<Longrightarrow> CBS_data out ! i = bs ! i"
    and tk: "take (length bs) (CBS_data out) = bs"
    using CBS_get_asn1_contents [OF assms] by blast
  show ?thesis
  proof (cases "bs = []")
    case True
    then show ?thesis
      by (simp add: CBS_get_asn1_uint64_def out len der_int_ok_iff)
  next
    case False
    then have n0: "CBS_data out ! 0 = bs ! 0" and n1: "1 < length bs \<Longrightarrow> CBS_data out ! 1 = bs ! 1"
      using nth by simp_all
    show ?thesis
    proof (cases "bs ! 0 AND 0x80 = 0")
      case neg: False
      then have "\<not> 0 \<le> twos_val bs"
        using twos_val_nonneg_iff [OF False] by simp
      then show ?thesis
        using False neg by (simp add: CBS_get_asn1_uint64_def out len n0 Let_def)
    next
      case pos: True
      then have tv: "twos_val bs = int (be_val bs)"
        using False by (cases bs) (simp_all add: twos_val_def u8_and_0x80)
      have "bs ! 0 \<noteq> 0xff" using pos by auto
      then have okb: "der_int_ok bs \<longleftrightarrow> \<not> (bs ! 0 = 0 \<and> 1 < length bs \<and> bs ! 1 AND 0x80 = 0)"
        using False by (simp add: der_int_ok_iff)
      have loop: "asn1_uint64_loop bs 0 = (if be_val bs < 2 ^ 64 then Some (of_nat (be_val bs)) else None)"
        by (simp add: asn1_uint64_loop_eq Let_def)
      have "int (be_val bs) < 2 ^ 64 \<longleftrightarrow> be_val bs < 2 ^ 64" by simp
      then show ?thesis
        using False pos n0 n1
        by (auto simp add: CBS_get_asn1_uint64_def out len Let_def okb tv loop tk)
    qed
  qed
qed


lemma CBS_get_asn1_int64_eq:
  assumes "cbs_ok c" "cbs_bytes c = der_element CBS_ASN1_INTEGER bs @ r" "length bs < 2 ^ 32"
  shows "CBS_get_asn1_int64 c =
    (if der_int_ok bs \<and> - (2 ^ 63) \<le> twos_val bs \<and> twos_val bs < 2 ^ 63 then Some (twos_val bs) else None,
     cbs_adv (length (der_element CBS_ASN1_INTEGER bs)) c)"
proof -
  obtain out where out: "CBS_get_asn1 c CBS_ASN1_INTEGER =
      (Some out, cbs_adv (length (der_element CBS_ASN1_INTEGER bs)) c)"
    and len: "CBS_len out = length bs" and nth: "\<And>i. i < length bs \<Longrightarrow> CBS_data out ! i = bs ! i"
    and tk: "take (length bs) (CBS_data out) = bs"
    using CBS_get_asn1_contents [OF assms] by blast
  have range: "der_int_ok bs \<Longrightarrow> (length bs \<le> 8 \<longleftrightarrow> - (2 ^ 63) \<le> twos_val bs \<and> twos_val bs < 2 ^ 63)"
    using der_int_ok_length [of bs 7] by simp
  show ?thesis
  proof (cases "bs = [] \<or> 8 < length bs")
    case True
    then have "\<not> (der_int_ok bs \<and> - (2 ^ 63) \<le> twos_val bs \<and> twos_val bs < 2 ^ 63)"
      using range by (auto simp: not_less)
    with True show ?thesis
      by (auto simp: CBS_get_asn1_int64_def out len Let_def)
  next
    case False
    then have n0: "CBS_data out ! 0 = bs ! 0" and n1: "1 < length bs \<Longrightarrow> CBS_data out ! 1 = bs ! 1"
      using nth by simp_all
    let ?m = "8 - length bs"
    let ?v = "be_val (replicate ?m (if bs ! 0 AND 0x80 \<noteq> 0 then 0xff else 0) @ bs)"
    have tv: "sint (of_nat ?v :: u64) = twos_val bs"
    proof -
      have p: "(256 :: nat) ^ ?m * 256 ^ length bs = 2 ^ 64"
        using False by (simp flip: power_add)
      have l: "be_val bs < 256 ^ length bs" by (rule be_val_less)
      show ?thesis
      proof (cases "bs ! 0 AND 0x80 = 0")
        case True
        then have tvb: "twos_val bs = int (be_val bs)"
          using False by (cases bs) (simp_all add: twos_val_def u8_and_0x80)
        obtain k where "length bs = Suc k" "k \<le> 7"
          using False by (cases bs) auto
        moreover from this have "(256 :: int) ^ k \<le> 256 ^ 7"
          by (intro power_increasing) simp_all
        ultimately have "int (be_val bs) < 2 ^ 63"
          using twos_val_range(2) [of bs k] tvb by simp
        then have "be_val bs < 2 ^ 63" by simp
        then show ?thesis
          using True by (simp add: be_val_zeros sint_of_nat_u64 tvb)
      next
        case neg: False
        have "be_val (replicate ?m 0xff @ bs) = (256 ^ ?m - 1) * 256 ^ length bs + be_val bs"
          using be_val_ones [of ?m] by (simp add: be_val_append eq_diff_iff flip: be_val_ones)
        also have "\<dots> = 2 ^ 64 - 256 ^ length bs + be_val bs"
          by (simp only: diff_mult_distrib p mult_1)
        finally have v: "be_val (replicate ?m 0xff @ bs) = 2 ^ 64 - 256 ^ length bs + be_val bs" .
        have le: "(256 :: nat) ^ length bs \<le> 2 ^ 64"
          using p by (metis dvd_imp_le dvd_triv_right zero_less_power zero_less_numeral)
        have tvb: "twos_val bs = int (be_val bs) - 256 ^ length bs"
          using False neg by (cases bs) (simp_all add: twos_val_def u8_and_0x80)
        have "128 * 256 ^ (length bs - 1) \<le> be_val bs"
          using False neg by (cases bs) (auto simp: be_val_Cons u8_and_0x80 intro!: trans_le_add1 mult_right_mono)
        then have "256 ^ length bs \<le> be_val bs + be_val bs"
          using False by (cases bs) auto
        then have "\<not> 2 ^ 64 - 256 ^ length bs + be_val bs < (2 :: nat) ^ 63"
          using le by simp
        moreover have "2 ^ 64 - 256 ^ length bs + be_val bs < (2 :: nat) ^ 64"
          using le l by simp
        moreover have "int (2 ^ 64 - 256 ^ length bs + be_val bs) = 2 ^ 64 - 256 ^ length bs + int (be_val bs)"
          using le by (simp add: of_nat_diff)
        ultimately show ?thesis
          using neg by (simp only: sint_of_nat_u64 v if_False if_True simp_thms tvb)
      qed
    qed
    have rev: "le_val (rev bs @ replicate ?m x) = be_val (replicate ?m x @ bs)" for x
      by (simp add: le_val_def)
    show ?thesis
      using False range n0 n1 tv
      by (auto simp: CBS_get_asn1_int64_def out len Let_def tk rev der_int_ok_iff)
  qed
qed

lemma CBS_get_asn1_bool_eq:
  assumes "cbs_ok c" "cbs_bytes c = der_element CBS_ASN1_BOOLEAN bs @ r" "length bs < 2 ^ 32"
  shows "CBS_get_asn1_bool c =
    (if bs = [0] then Some 0 else if bs = [0xff] then Some 1 else None,
     cbs_adv (length (der_element CBS_ASN1_BOOLEAN bs)) c)"
proof -
  obtain out where out: "CBS_get_asn1 c CBS_ASN1_BOOLEAN =
      (Some out, cbs_adv (length (der_element CBS_ASN1_BOOLEAN bs)) c)"
    and len: "CBS_len out = length bs" and nth: "\<And>i. i < length bs \<Longrightarrow> CBS_data out ! i = bs ! i"
    using CBS_get_asn1_contents [OF assms] by blast
  show ?thesis
  proof (cases "length bs = 1")
    case True
    then obtain b where "bs = [b]" by (cases bs) auto
    then show ?thesis
      using nth [of 0] by (simp add: CBS_get_asn1_bool_def out len Let_def)
  next
    case False
    then show ?thesis
      by (auto simp: CBS_get_asn1_bool_def out len)
  qed
qed

end
