(* ===== verification/CBB_Builder.thy ===== *)
theory CBB_Builder
  imports DER_Spec
begin

text \<open>
  The byte-string builder of BoringSSL-GRPC, \<open>crypto/bytestring/cbb.c\<close>, with \<open>CBB_finish_i2d\<close>
  of \<open>asn1_compat.c\<close>. A \<open>CBB\<close> owns or borrows a growing buffer; writing a length-prefixed
  or ASN.1 child links a \<open>CBB\<close> of the caller below it, and the next call on an ancestor flushes
  the pending child, which fills in its length. Each \<open>CBB\<close> has at most one child, so a root and
  its pending descendants are a list: \<open>cbb_nodes\<close>, child first. An operation names the \<open>CBB\<close> it
  works on by its depth \<open>d\<close> below the root (0 is the root). A depth beyond the list is a \<open>CBB\<close>
  that has been flushed or discarded: its \<open>base\<close> is null, so its flush fails and with it every
  operation that starts with one. \<open>CBB_did_write\<close> would read through the null pointer; the model
  of it fails there as well, and nothing is claimed of that case.
\<close>

section \<open>State\<close>

record cbb_buffer_st =
  bb_buf :: "u8 list option"
  bb_len :: nat
  bb_cap :: nat
  bb_can_resize :: bool
  bb_error :: bool

record cbb_node =
  offset :: nat
  pending_len_len :: nat
  pending_is_asn1 :: bool

record CBB =
  cbb_base :: "cbb_buffer_st option"
  cbb_nodes :: "cbb_node list"

definition CBB_zero :: CBB where
  "CBB_zero = \<lparr>cbb_base = None, cbb_nodes = []\<rparr>"

definition cbb_init :: "heap \<Rightarrow> u8 list option \<Rightarrow> nat \<Rightarrow> unit option \<times> CBB" where
  "cbb_init h buf cap =
     (case OPENSSL_malloc h 32 of
        None \<Rightarrow> (None, CBB_zero)
      | Some _ \<Rightarrow>
          (Some (), CBB_zero\<lparr>cbb_base := Some \<lparr>bb_buf = buf, bb_len = 0, bb_cap = cap,
             bb_can_resize = True, bb_error = False\<rparr>\<rparr>))"

definition CBB_init :: "heap \<Rightarrow> nat \<Rightarrow> unit option \<times> CBB" where
  "CBB_init h initial_capacity =
     (let buf = OPENSSL_malloc h initial_capacity
      in if initial_capacity > 0 \<and> buf = None then (None, CBB_zero)
         else cbb_init h buf initial_capacity)"

definition CBB_init_fixed :: "heap \<Rightarrow> u8 list \<Rightarrow> nat \<Rightarrow> unit option \<times> CBB" where
  "CBB_init_fixed h buf len =
     on_success (cbb_init h (Some buf) len) (\<lambda>_ c.
       (Some (), c\<lparr>cbb_base := map_option (\<lambda>b. b\<lparr>bb_can_resize := False\<rparr>) (cbb_base c)\<rparr>))"

definition CBB_cleanup :: "CBB \<Rightarrow> CBB" where
  "CBB_cleanup c = c\<lparr>cbb_base := None\<rparr>"

section \<open>The buffer\<close>

definition bb_fail :: "cbb_buffer_st \<Rightarrow> 'a option \<times> cbb_buffer_st" where
  "bb_fail b = (None, b\<lparr>bb_error := True\<rparr>)"

text \<open>The result is the position of \<open>*out\<close> in the buffer.\<close>

definition cbb_buffer_reserve ::
  "heap \<Rightarrow> cbb_buffer_st \<Rightarrow> nat \<Rightarrow> nat option \<times> cbb_buffer_st" where
  "cbb_buffer_reserve h b n =
     (let newlen = size_wrap (bb_len b + n)
      in if newlen < bb_len b then bb_fail b
         else if newlen > bb_cap b then
           (if \<not> bb_can_resize b then bb_fail b
            else
              let newcap = size_wrap (bb_cap b * 2);
                  newcap = (if newcap < bb_cap b \<or> newcap < newlen then newlen else newcap)
              in case OPENSSL_realloc h (map_option (\<lambda>p. (bb_cap b, p)) (bb_buf b)) newcap of
                   None \<Rightarrow> bb_fail b
                 | Some newbuf \<Rightarrow>
                     (Some (bb_len b), b\<lparr>bb_buf := Some newbuf, bb_cap := newcap\<rparr>))
         else (Some (bb_len b), b))"

definition cbb_buffer_add :: "heap \<Rightarrow> cbb_buffer_st \<Rightarrow> nat \<Rightarrow> nat option \<times> cbb_buffer_st" where
  "cbb_buffer_add h b n =
     on_success (cbb_buffer_reserve h b n) (\<lambda>out b'. (Some out, b'\<lparr>bb_len := bb_len b' + n\<rparr>))"

text \<open>
  \<open>put_be p off n v\<close> stores the \<open>n\<close> low bytes of \<open>v\<close> at \<open>off\<close>, last byte first, and leaves the
  rest of \<open>v\<close>: the loop of \<open>cbb_buffer_add_u\<close> and of \<open>CBB_flush\<close>.
\<close>

fun put_be :: "u8 list \<Rightarrow> nat \<Rightarrow> nat \<Rightarrow> u64 \<Rightarrow> u8 list \<times> u64" where
  "put_be p off 0 v = (p, v)"
| "put_be p off (Suc i) v = put_be (p[off + i := ucast v]) off i (drop_bit 8 v)"

definition bb_write :: "(u8 list \<Rightarrow> u8 list) \<Rightarrow> cbb_buffer_st \<Rightarrow> cbb_buffer_st" where
  "bb_write f b = b\<lparr>bb_buf := map_option f (bb_buf b)\<rparr>"

definition bb_bytes :: "cbb_buffer_st \<Rightarrow> u8 list" where
  "bb_bytes b = (case bb_buf b of None \<Rightarrow> [] | Some p \<Rightarrow> p)"

definition cbb_buffer_add_u ::
  "heap \<Rightarrow> cbb_buffer_st \<Rightarrow> u64 \<Rightarrow> nat \<Rightarrow> unit option \<times> cbb_buffer_st" where
  "cbb_buffer_add_u h b v len_len =
     (if len_len = 0 then (Some (), b)
      else on_success (cbb_buffer_add h b len_len) (\<lambda>buf b'.
        let b'' = bb_write (\<lambda>p. fst (put_be p buf len_len v)) b';
            rest = snd (put_be (bb_bytes b') buf len_len v)
        in if rest \<noteq> 0 then bb_fail b'' else (Some (), b'')))"

section \<open>Flushing\<close>

definition mem_move :: "u8 list \<Rightarrow> nat \<Rightarrow> nat \<Rightarrow> nat \<Rightarrow> u8 list" where
  "mem_move p dst src n = take dst p @ take n (drop src p) @ drop (dst + n) p"

definition asn1_len_len :: "nat \<Rightarrow> nat" where
  "asn1_len_len n =
     (if n > 0xffffff then 5 else if n > 0xffff then 4 else if n > 0xff then 3
      else if n > 0x7f then 2 else 1)"

text \<open>
  The ASN.1 branch of \<open>CBB_flush\<close>: makes room for the length octets, writes the first of them,
  and leaves the number of octets and the value the final loop writes.
\<close>

definition flush_asn1 ::
  "heap \<Rightarrow> cbb_node \<Rightarrow> nat \<Rightarrow> nat \<Rightarrow> cbb_buffer_st \<Rightarrow> (cbb_node \<times> nat) option \<times> cbb_buffer_st" where
  "flush_asn1 h child child_start n b =
     (if n > 0xfffffffe then (None, b)
      else
        let len_len = asn1_len_len n;
            initial_length_byte = (if len_len = 1 then of_nat n else 0x80 OR of_nat (len_len - 1));
            n' = (if len_len = 1 then 0 else n);
            extra_bytes = len_len - 1
        in on_success
             (if len_len \<noteq> 1 then
                on_success (cbb_buffer_add h b extra_bytes) (\<lambda>_ b1.
                  (Some (), bb_write (\<lambda>p. mem_move p (child_start + extra_bytes) child_start n') b1))
              else (Some (), b))
             (\<lambda>_ b2.
               (Some (child\<lparr>offset := offset child + 1, pending_len_len := len_len - 1\<rparr>, n'),
                bb_write (\<lambda>p. p[offset child := initial_length_byte]) b2)))"

text \<open>\<open>flush_nodes\<close> is \<open>CBB_flush\<close> on a \<open>CBB\<close> with the given descendants.\<close>

fun flush_nodes ::
  "heap \<Rightarrow> cbb_node list \<Rightarrow> cbb_buffer_st \<Rightarrow> unit option \<times> cbb_buffer_st \<times> cbb_node list" where
  "flush_nodes h [] b = (if bb_error b then None else Some (), b, [])"
| "flush_nodes h (child # rest) b =
     (if bb_error b then (None, b, child # rest)
      else if pending_len_len child = 0 then (Some (), b, child # rest)
      else
        let child_start = size_wrap (offset child + pending_len_len child)
        in case flush_nodes h rest b of
             (ok, b1, rest1) \<Rightarrow>
               (if ok = None \<or> child_start < offset child \<or> bb_len b1 < child_start
                then (None, b1\<lparr>bb_error := True\<rparr>, child # rest1)
                else
                  case (if pending_is_asn1 child
                        then flush_asn1 h child child_start (bb_len b1 - child_start) b1
                        else (Some (child, bb_len b1 - child_start), b1)) of
                    (None, b2) \<Rightarrow> (None, b2\<lparr>bb_error := True\<rparr>, child # rest1)
                  | (Some (child', n), b2) \<Rightarrow>
                      (let b3 = bb_write (\<lambda>p. fst (put_be p (offset child') (pending_len_len child') (of_nat n))) b2;
                           left = snd (put_be (bb_bytes b2) (offset child') (pending_len_len child') (of_nat n))
                       in if left \<noteq> 0 then (None, b3\<lparr>bb_error := True\<rparr>, child' # rest1)
                          else (Some (), b3, []))))"

definition CBB_flush :: "heap \<Rightarrow> CBB \<Rightarrow> nat \<Rightarrow> unit option \<times> CBB" where
  "CBB_flush h c d =
     (case cbb_base c of
        None \<Rightarrow> (None, c)
      | Some b \<Rightarrow>
          (if length (cbb_nodes c) < d then (None, c)
           else case flush_nodes h (drop d (cbb_nodes c)) b of
                  (ok, b', ns) \<Rightarrow> (ok, \<lparr>cbb_base = Some b', cbb_nodes = take d (cbb_nodes c) @ ns\<rparr>)))"

section \<open>Operations\<close>

text \<open>After a successful flush the base pointer is not null.\<close>

definition on_base ::
  "CBB \<Rightarrow> (cbb_buffer_st \<Rightarrow> 'a option \<times> cbb_buffer_st) \<Rightarrow> 'a option \<times> CBB" where
  "on_base c f =
     (case cbb_base c of
        None \<Rightarrow> (None, c)
      | Some b \<Rightarrow> (case f b of (r, b') \<Rightarrow> (r, c\<lparr>cbb_base := Some b'\<rparr>)))"

definition node_start :: "CBB \<Rightarrow> nat \<Rightarrow> nat" where
  "node_start c d =
     (if d = 0 then 0
      else offset (cbb_nodes c ! (d - 1)) + pending_len_len (cbb_nodes c ! (d - 1)))"

definition base_len :: "CBB \<Rightarrow> nat" where
  "base_len c = (case cbb_base c of None \<Rightarrow> 0 | Some b \<Rightarrow> bb_len b)"

definition CBB_data :: "CBB \<Rightarrow> nat \<Rightarrow> u8 list" where
  "CBB_data c d =
     (case cbb_base c of None \<Rightarrow> [] | Some b \<Rightarrow> drop (node_start c d) (bb_bytes b))"

definition CBB_len :: "CBB \<Rightarrow> nat \<Rightarrow> nat" where
  "CBB_len c d = base_len c - node_start c d"

definition cbb_add_child :: "CBB \<Rightarrow> nat \<Rightarrow> nat \<Rightarrow> bool \<Rightarrow> CBB" where
  "cbb_add_child c off len_len is_asn1 =
     c\<lparr>cbb_nodes := cbb_nodes c @ [\<lparr>offset = off, pending_len_len = len_len, pending_is_asn1 = is_asn1\<rparr>]\<rparr>"

definition cbb_add_length_prefixed :: "heap \<Rightarrow> CBB \<Rightarrow> nat \<Rightarrow> nat \<Rightarrow> unit option \<times> CBB" where
  "cbb_add_length_prefixed h c d len_len =
     on_success (CBB_flush h c d) (\<lambda>_ c1.
       let off = base_len c1
       in on_success (on_base c1 (\<lambda>b. cbb_buffer_add h b len_len)) (\<lambda>prefix c2.
            on_success
              (on_base c2 (\<lambda>b. (Some (), bb_write (\<lambda>p. mem_put p prefix (replicate len_len 0)) b)))
              (\<lambda>_ c3. (Some (), cbb_add_child c3 off len_len False))))"

definition CBB_add_u8_length_prefixed :: "heap \<Rightarrow> CBB \<Rightarrow> nat \<Rightarrow> unit option \<times> CBB" where
  "CBB_add_u8_length_prefixed h c d = cbb_add_length_prefixed h c d 1"

definition CBB_add_u16_length_prefixed :: "heap \<Rightarrow> CBB \<Rightarrow> nat \<Rightarrow> unit option \<times> CBB" where
  "CBB_add_u16_length_prefixed h c d = cbb_add_length_prefixed h c d 2"

definition CBB_add_u24_length_prefixed :: "heap \<Rightarrow> CBB \<Rightarrow> nat \<Rightarrow> unit option \<times> CBB" where
  "CBB_add_u24_length_prefixed h c d = cbb_add_length_prefixed h c d 3"

definition CBB_add_bytes :: "heap \<Rightarrow> CBB \<Rightarrow> nat \<Rightarrow> u8 list \<Rightarrow> nat \<Rightarrow> unit option \<times> CBB" where
  "CBB_add_bytes h c d data len =
     on_success (CBB_flush h c d) (\<lambda>_ c1.
       on_success (on_base c1 (\<lambda>b. cbb_buffer_add h b len)) (\<lambda>dest c2.
         on_base c2 (\<lambda>b. (Some (), bb_write (\<lambda>p. mem_put p dest (take len data)) b))))"

text \<open>The result is the position of \<open>*out_data\<close> in the buffer.\<close>

definition CBB_add_space :: "heap \<Rightarrow> CBB \<Rightarrow> nat \<Rightarrow> nat \<Rightarrow> nat option \<times> CBB" where
  "CBB_add_space h c d len =
     on_success (CBB_flush h c d) (\<lambda>_ c1. on_base c1 (\<lambda>b. cbb_buffer_add h b len))"

definition CBB_reserve :: "heap \<Rightarrow> CBB \<Rightarrow> nat \<Rightarrow> nat \<Rightarrow> nat option \<times> CBB" where
  "CBB_reserve h c d len =
     on_success (CBB_flush h c d) (\<lambda>_ c1. on_base c1 (\<lambda>b. cbb_buffer_reserve h b len))"

definition CBB_did_write :: "CBB \<Rightarrow> nat \<Rightarrow> nat \<Rightarrow> unit option \<times> CBB" where
  "CBB_did_write c d len =
     on_base c (\<lambda>b.
       let newlen = size_wrap (bb_len b + len)
       in if d \<noteq> length (cbb_nodes c) \<or> newlen < bb_len b \<or> newlen > bb_cap b then (None, b)
          else (Some (), b\<lparr>bb_len := newlen\<rparr>))"

definition cbb_add_u :: "heap \<Rightarrow> CBB \<Rightarrow> nat \<Rightarrow> u64 \<Rightarrow> nat \<Rightarrow> unit option \<times> CBB" where
  "cbb_add_u h c d v len_len =
     on_success (CBB_flush h c d) (\<lambda>_ c1. on_base c1 (\<lambda>b. cbb_buffer_add_u h b v len_len))"

definition CBB_add_u8 :: "heap \<Rightarrow> CBB \<Rightarrow> nat \<Rightarrow> u8 \<Rightarrow> unit option \<times> CBB" where
  "CBB_add_u8 h c d v = cbb_add_u h c d (ucast v) 1"

definition CBB_add_u16 :: "heap \<Rightarrow> CBB \<Rightarrow> nat \<Rightarrow> u16 \<Rightarrow> unit option \<times> CBB" where
  "CBB_add_u16 h c d v = cbb_add_u h c d (ucast v) 2"

definition CBB_add_u16le :: "heap \<Rightarrow> CBB \<Rightarrow> nat \<Rightarrow> u16 \<Rightarrow> unit option \<times> CBB" where
  "CBB_add_u16le h c d v = CBB_add_u16 h c d (CRYPTO_bswap2 v)"

definition CBB_add_u24 :: "heap \<Rightarrow> CBB \<Rightarrow> nat \<Rightarrow> u32 \<Rightarrow> unit option \<times> CBB" where
  "CBB_add_u24 h c d v = cbb_add_u h c d (ucast v) 3"

definition CBB_add_u32 :: "heap \<Rightarrow> CBB \<Rightarrow> nat \<Rightarrow> u32 \<Rightarrow> unit option \<times> CBB" where
  "CBB_add_u32 h c d v = cbb_add_u h c d (ucast v) 4"

definition CBB_add_u32le :: "heap \<Rightarrow> CBB \<Rightarrow> nat \<Rightarrow> u32 \<Rightarrow> unit option \<times> CBB" where
  "CBB_add_u32le h c d v = CBB_add_u32 h c d (CRYPTO_bswap4 v)"

definition CBB_add_u64 :: "heap \<Rightarrow> CBB \<Rightarrow> nat \<Rightarrow> u64 \<Rightarrow> unit option \<times> CBB" where
  "CBB_add_u64 h c d v = cbb_add_u h c d v 8"

definition CBB_add_u64le :: "heap \<Rightarrow> CBB \<Rightarrow> nat \<Rightarrow> u64 \<Rightarrow> unit option \<times> CBB" where
  "CBB_add_u64le h c d v = CBB_add_u64 h c d (CRYPTO_bswap8 v)"

definition CBB_discard_child :: "CBB \<Rightarrow> nat \<Rightarrow> CBB" where
  "CBB_discard_child c d =
     (if length (cbb_nodes c) \<le> d then c
      else \<lparr>cbb_base = map_option (\<lambda>b. b\<lparr>bb_len := offset (cbb_nodes c ! d)\<rparr>) (cbb_base c),
            cbb_nodes = take d (cbb_nodes c)\<rparr>)"

text \<open>
  The arguments of \<open>CBB_finish\<close> say whether \<open>out_data\<close> and \<open>out_len\<close> are given; the result is the
  buffer and its length.
\<close>

definition CBB_finish ::
  "heap \<Rightarrow> CBB \<Rightarrow> nat \<Rightarrow> bool \<Rightarrow> bool \<Rightarrow> (u8 list option \<times> nat) option \<times> CBB" where
  "CBB_finish h c d want_data want_len =
     (if d \<noteq> 0 then (None, c)
      else on_success (CBB_flush h c d) (\<lambda>_ c1.
        case cbb_base c1 of
          None \<Rightarrow> (None, c1)
        | Some b \<Rightarrow>
            (if bb_can_resize b \<and> \<not> (want_data \<and> want_len) then (None, c1)
             else (Some (bb_buf b, bb_len b), CBB_cleanup c1))))"

section \<open>ASN.1 elements\<close>

lemma drop_bit_7_less: "copy > 0 \<Longrightarrow> unat (drop_bit 7 copy) < unat (copy :: u64)"
  by (simp add: unat_drop_bit word_less_nat_alt)

function base128_len :: "u64 \<Rightarrow> nat" where
  "base128_len copy = (if copy > 0 then Suc (base128_len (drop_bit 7 copy)) else 0)"
  by pat_completeness auto
termination
  by (relation "measure unat") (use drop_bit_7_less in auto)

declare base128_len.simps [simp del]

fun add_base128_loop :: "heap \<Rightarrow> nat \<Rightarrow> u64 \<Rightarrow> nat \<Rightarrow> CBB \<Rightarrow> unit option \<times> CBB" where
  "add_base128_loop h d v 0 c = (Some (), c)"
| "add_base128_loop h d v (Suc i) c =
     (let byte = ucast (drop_bit (7 * i) v) AND 0x7f;
          byte = (if i \<noteq> 0 then byte OR 0x80 else byte)
      in on_success (CBB_add_u8 h c d byte) (\<lambda>_ c'. add_base128_loop h d v i c'))"

definition add_base128_integer :: "heap \<Rightarrow> CBB \<Rightarrow> nat \<Rightarrow> u64 \<Rightarrow> unit option \<times> CBB" where
  "add_base128_integer h c d v =
     (let len_len = base128_len v;
          len_len = (if len_len = 0 then 1 else len_len)
      in add_base128_loop h d v len_len c)"

definition CBB_add_asn1 :: "heap \<Rightarrow> CBB \<Rightarrow> nat \<Rightarrow> u32 \<Rightarrow> unit option \<times> CBB" where
  "CBB_add_asn1 h c d tag =
     on_success (CBB_flush h c d) (\<lambda>_ c1.
       let tag_bits = ucast (drop_bit CBS_ASN1_TAG_SHIFT tag) AND 0xe0 :: u8;
           tag_number = tag AND CBS_ASN1_TAG_NUMBER_MASK
       in on_success
            (if tag_number \<ge> 0x1f then
               on_success (CBB_add_u8 h c1 d (tag_bits OR 0x1f)) (\<lambda>_ c2.
                 add_base128_integer h c2 d (ucast tag_number))
             else CBB_add_u8 h c1 d (tag_bits OR ucast tag_number))
            (\<lambda>_ c3.
              let off = base_len c3
              in on_success (CBB_add_u8 h c3 d 0) (\<lambda>_ c4.
                   (Some (), cbb_add_child c4 off 1 True))))"

fun asn1_uint64_bytes ::
  "heap \<Rightarrow> nat \<Rightarrow> u64 \<Rightarrow> nat \<Rightarrow> bool \<Rightarrow> CBB \<Rightarrow> bool option \<times> CBB" where
  "asn1_uint64_bytes h d value 0 started c = (Some started, c)"
| "asn1_uint64_bytes h d value (Suc i) started c =
     (let byte = ucast (drop_bit (8 * i) value) AND 0xff :: u8
      in if \<not> started \<and> byte = 0 then asn1_uint64_bytes h d value i started c
         else
           on_success
             (if \<not> started \<and> byte AND 0x80 \<noteq> 0 then CBB_add_u8 h c d 0 else (Some (), c))
             (\<lambda>_ c1. on_success (CBB_add_u8 h c1 d byte) (\<lambda>_ c2.
               asn1_uint64_bytes h d value i True c2)))"

definition CBB_add_asn1_uint64 :: "heap \<Rightarrow> CBB \<Rightarrow> nat \<Rightarrow> u64 \<Rightarrow> unit option \<times> CBB" where
  "CBB_add_asn1_uint64 h c d value =
     on_success (CBB_add_asn1 h c d CBS_ASN1_INTEGER) (\<lambda>_ c1.
       on_success (asn1_uint64_bytes h (d + 1) value 8 False c1) (\<lambda>started c2.
         on_success (if \<not> started then CBB_add_u8 h c2 (d + 1) 0 else (Some (), c2)) (\<lambda>_ c3.
           CBB_flush h c3 d)))"

text \<open>\<open>bytes\<close> is the union's view of the value, least significant byte first.\<close>

fun int64_start :: "u8 list \<Rightarrow> nat \<Rightarrow> nat" where
  "int64_start bytes 0 = 0"
| "int64_start bytes (Suc s) =
     (if bytes ! Suc s = 0xff \<and> bytes ! s AND 0x80 \<noteq> 0 then int64_start bytes s else Suc s)"

fun add_bytes_down :: "heap \<Rightarrow> nat \<Rightarrow> u8 list \<Rightarrow> nat \<Rightarrow> CBB \<Rightarrow> unit option \<times> CBB" where
  "add_bytes_down h d bytes 0 c = (Some (), c)"
| "add_bytes_down h d bytes (Suc i) c =
     on_success (CBB_add_u8 h c d (bytes ! i)) (\<lambda>_ c'. add_bytes_down h d bytes i c')"

definition CBB_add_asn1_int64 :: "heap \<Rightarrow> CBB \<Rightarrow> nat \<Rightarrow> u64 \<Rightarrow> unit option \<times> CBB" where
  "CBB_add_asn1_int64 h c d value =
     (if sint value \<ge> 0 then CBB_add_asn1_uint64 h c d value
      else
        let bytes = le_bytes 8 (unat value); start = int64_start bytes 7
        in on_success (CBB_add_asn1 h c d CBS_ASN1_INTEGER) (\<lambda>_ c1.
             on_success (add_bytes_down h (d + 1) bytes (start + 1) c1) (\<lambda>_ c2. CBB_flush h c2 d)))"

definition CBB_add_asn1_octet_string ::
  "heap \<Rightarrow> CBB \<Rightarrow> nat \<Rightarrow> u8 list \<Rightarrow> nat \<Rightarrow> unit option \<times> CBB" where
  "CBB_add_asn1_octet_string h c d data data_len =
     on_success (CBB_add_asn1 h c d CBS_ASN1_OCTETSTRING) (\<lambda>_ c1.
       on_success (CBB_add_bytes h c1 (d + 1) data data_len) (\<lambda>_ c2. CBB_flush h c2 d))"

definition CBB_add_asn1_bool :: "heap \<Rightarrow> CBB \<Rightarrow> nat \<Rightarrow> int \<Rightarrow> unit option \<times> CBB" where
  "CBB_add_asn1_bool h c d value =
     on_success (CBB_add_asn1 h c d CBS_ASN1_BOOLEAN) (\<lambda>_ c1.
       on_success (CBB_add_u8 h c1 (d + 1) (if value \<noteq> 0 then 0xff else 0)) (\<lambda>_ c2.
         CBB_flush h c2 d))"

text \<open>
  \<open>outp\<close> is \<open>None\<close> for a null \<open>outp\<close>, \<open>Some None\<close> when \<open>*outp\<close> is null and \<open>Some (Some dst)\<close> when
  it points to \<open>dst\<close>. The result is the returned length and what \<open>*outp\<close> pointed to then holds.
\<close>

definition CBB_finish_i2d ::
  "heap \<Rightarrow> CBB \<Rightarrow> nat \<Rightarrow> u8 list option option \<Rightarrow> int \<times> u8 list option option \<times> CBB" where
  "CBB_finish_i2d h c d outp =
     (case CBB_finish h c d True True of
        (None, c') \<Rightarrow> (- 1, outp, CBB_cleanup c')
      | (Some (der, der_len), c') \<Rightarrow>
          (if der_len > INT_MAX then (- 1, outp, c')
           else
             (int der_len,
              (case outp of
                 None \<Rightarrow> None
               | Some None \<Rightarrow> Some der
               | Some (Some dst) \<Rightarrow>
                   Some (Some (mem_put dst 0 (take der_len (case der of None \<Rightarrow> [] | Some p \<Rightarrow> p))))),
              c')))"

end
