(* ===== verification/CBB_Refine.thy ===== *)
theory CBB_Refine
  imports CBB_Builder
begin

text \<open>
  The contract of the builder. Its abstract state is the list of the frames that are open: what
  each pending length prefix will cover. Closing a frame prepends its prefix (a fixed-width
  big-endian length, or the DER length octets). The flush, the writers, the opening of children and the
  typed elements are shown to implement (\<open>refines\<close>) the operation on frames, and to fail only when the
  contents do not fit the prefix or the buffer cannot hold the result. Space and reservations,
  \<open>CBB_did_write\<close>, discarding a child, starting and finishing have lemmas of their own over the frames.
\<close>

section \<open>The buffer, as the bytes written so far\<close>

text \<open>
  A buffer is well-formed when its length stays inside its capacity and its capacity inside its
  block, which \<open>heap_ok\<close> bounds.
\<close>

definition bb_ok :: "cbb_buffer_st \<Rightarrow> bool" where
  "bb_ok b \<longleftrightarrow> bb_len b \<le> bb_cap b \<and> bb_cap b \<le> length (bb_bytes b) \<and> bb_cap b + 8 \<le> 2 ^ 63 \<and> \<not> bb_error b"

definition bb_data :: "cbb_buffer_st \<Rightarrow> u8 list" where
  "bb_data b = take (bb_len b) (bb_bytes b)"

lemma length_bb_data [simp]: "bb_ok b \<Longrightarrow> length (bb_data b) = bb_len b"
  by (simp add: bb_ok_def bb_data_def)

lemma bb_bytes_Some [simp]: "bb_bytes (b\<lparr>bb_buf := Some p\<rparr>) = p"
  by (simp add: bb_bytes_def)

lemma bb_bytes_update [simp]:
  "bb_bytes (b\<lparr>bb_len := n\<rparr>) = bb_bytes b" "bb_bytes (b\<lparr>bb_cap := n\<rparr>) = bb_bytes b"
  "bb_bytes (b\<lparr>bb_error := e\<rparr>) = bb_bytes b" "bb_bytes (b\<lparr>bb_can_resize := e\<rparr>) = bb_bytes b"
  by (simp_all add: bb_bytes_def)

lemma bb_write_simps [simp]:
  "bb_len (bb_write f b) = bb_len b" "bb_cap (bb_write f b) = bb_cap b"
  "bb_error (bb_write f b) = bb_error b" "bb_can_resize (bb_write f b) = bb_can_resize b"
  by (simp_all add: bb_write_def)

lemma bb_bytes_write: "f [] = [] \<Longrightarrow> bb_bytes (bb_write f b) = f (bb_bytes b)"
  by (simp add: bb_bytes_def bb_write_def split: option.split)

lemma bb_bytes_write': "bb_bytes b \<noteq> [] \<Longrightarrow> bb_bytes (bb_write f b) = f (bb_bytes b)"
  by (simp add: bb_bytes_def bb_write_def split: option.splits)

text \<open>The outcome of making room for \<open>n\<close> bytes.\<close>

definition reserved :: "cbb_buffer_st \<Rightarrow> nat \<Rightarrow> nat option \<times> cbb_buffer_st \<Rightarrow> bool" where
  "reserved b n res \<longleftrightarrow>
     (case res of
        (None, b') \<Rightarrow> bb_error b' \<and> bb_cap b < bb_len b + n
      | (Some off, b') \<Rightarrow>
          off = bb_len b \<and> bb_ok b' \<and> bb_len b' = bb_len b \<and> bb_data b' = bb_data b \<and>
          bb_cap b \<le> bb_cap b' \<and> bb_len b + n \<le> bb_cap b' \<and> bb_can_resize b' = bb_can_resize b)"

lemma cbb_buffer_reserve_spec:
  assumes "heap_ok h" "bb_ok b" "n < 2 ^ 63"
  shows "reserved b n (cbb_buffer_reserve h b n)"
proof -
  have len: "bb_len b + n < SIZE_MOD" "bb_cap b * 2 < SIZE_MOD"
    using assms by (simp_all add: bb_ok_def)
  show ?thesis
  proof (cases "bb_len b + n \<le> bb_cap b")
    case True
    with assms len show ?thesis
      by (simp add: cbb_buffer_reserve_def reserved_def Let_def)
  next
    case False
    define newcap where "newcap = (if bb_cap b * 2 < bb_cap b \<or> bb_cap b * 2 < bb_len b + n then bb_len b + n else bb_cap b * 2)"
    have cap: "bb_len b + n \<le> newcap" "bb_cap b \<le> newcap" "newcap + 8 < SIZE_MOD"
      using False assms by (auto simp: newcap_def bb_ok_def)
    show ?thesis
    proof (cases "bb_can_resize b")
      case True
      have eq: "cbb_buffer_reserve h b n =
          (case OPENSSL_realloc h (map_option (\<lambda>p. (bb_cap b, p)) (bb_buf b)) newcap of
             None \<Rightarrow> bb_fail b
           | Some newbuf \<Rightarrow> (Some (bb_len b), b\<lparr>bb_buf := Some newbuf, bb_cap := newcap\<rparr>))"
        using False True by (simp only: cbb_buffer_reserve_def Let_def size_wrap_small [OF len(1)]
            size_wrap_small [OF len(2)] newcap_def) simp
      show ?thesis
      proof (cases "OPENSSL_realloc h (map_option (\<lambda>p. (bb_cap b, p)) (bb_buf b)) newcap")
        case None
        then show ?thesis
          using False True by (simp add: eq bb_fail_def reserved_def)
      next
        case (Some q)
        have granted: "grants h (newcap + 8)"
          using Some cap(3) by (auto simp: OPENSSL_realloc_def OPENSSL_malloc_def OPENSSL_MALLOC_PREFIX_def Let_def
              split: option.splits if_splits)
        then have small: "newcap + 8 < 2 ^ 63"
          using assms(1) by (simp add: heap_ok_def)
        have q: "newcap \<le> length q \<and> take (bb_len b) q = bb_data b"
        proof (cases "bb_buf b")
          case None
          with Some have "OPENSSL_malloc h newcap = Some q"
            by (simp add: OPENSSL_realloc_def)
          then have "length q = newcap"
            using cap(3) by (rule OPENSSL_malloc_length [rotated])
          moreover have "bb_len b = 0"
            using assms(2) None by (simp add: bb_ok_def bb_bytes_def)
          ultimately show ?thesis by (simp add: bb_data_def)
        next
          case buf: (Some p)
          obtain ret where ret: "OPENSSL_malloc h newcap = Some ret" and "q = take (if bb_cap b < newcap then bb_cap b else newcap) p @ drop (if bb_cap b < newcap then bb_cap b else newcap) ret"
            using Some by (auto simp: OPENSSL_realloc_def buf Let_def split: option.splits)
          then have q: "q = take (bb_cap b) p @ drop (bb_cap b) ret"
            using cap(2) by (auto split: if_splits)
          have "length ret = newcap"
            using cap(3) ret by (rule OPENSSL_malloc_length)
          then show ?thesis
            using assms(2) cap(2) by (simp add: q bb_ok_def bb_data_def bb_bytes_def buf min_absorb1)
        qed
        then show ?thesis
          using False True assms(2) cap small
          by (simp add: eq Some reserved_def bb_ok_def bb_data_def)
      qed
    next
      case False
      then show ?thesis
        using \<open>\<not> bb_len b + n \<le> bb_cap b\<close> len by (simp add: cbb_buffer_reserve_def Let_def bb_fail_def reserved_def)
    qed
  qed
qed

lemma cbb_buffer_add_spec:
  assumes "heap_ok h" "bb_ok b" "n < 2 ^ 63" "cbb_buffer_add h b n = (r, b')"
  shows "r = None \<and> bb_error b' \<and> bb_cap b < bb_len b + n \<or>
    r = Some (bb_len b) \<and> bb_ok b' \<and> bb_len b' = bb_len b + n \<and> take (bb_len b) (bb_data b') = bb_data b \<and>
    bb_cap b \<le> bb_cap b' \<and> bb_can_resize b' = bb_can_resize b"
proof -
  have "reserved b n (cbb_buffer_reserve h b n)"
    by (rule cbb_buffer_reserve_spec [OF assms(1-3)])
  then show ?thesis
    using assms(4)
    by (cases "cbb_buffer_reserve h b n")
      (auto simp: cbb_buffer_add_def reserved_def bb_ok_def bb_data_def split: option.splits)
qed

section \<open>Storing big-endian values\<close>

lemma put_be_eq:
  assumes "off + n \<le> length p"
  shows "put_be p off n v = (mem_put p off (be_bytes n (unat v)), drop_bit (8 * n) v)"
  using assms
proof (induction n arbitrary: p v)
  case 0
  then show ?case by (simp add: mem_put_def)
next
  case (Suc n)
  have d: "unat (drop_bit 8 v) = unat v div 256"
    by (simp add: unat_drop_bit)
  have "drop (off + n) (p[off + n := ucast v]) = ucast v # drop (off + Suc n) p"
    using Suc.prems by (simp add: upd_conv_take_nth_drop)
  then have eq: "mem_put (p[off + n := ucast v]) off (be_bytes n (unat v div 256)) =
      mem_put p off (be_bytes (Suc n) (unat v))"
    using Suc.prems by (simp add: mem_put_def)
  have "put_be (p[off + n := ucast v]) off n (drop_bit 8 v) =
      (mem_put (p[off + n := ucast v]) off (be_bytes n (unat (drop_bit 8 v))), drop_bit (8 * n) (drop_bit 8 v))"
    using Suc.prems by (intro Suc.IH) simp
  moreover have "drop_bit (8 * n) (drop_bit 8 v) = drop_bit (8 * Suc n) v"
    by (simp add: drop_bit_drop_bit add.commute)
  ultimately show ?case
    by (simp only: put_be.simps d eq)
qed

lemma drop_bit_be_zero_iff:
  assumes "n < 2 ^ 64"
  shows "drop_bit (8 * k) (of_nat n :: u64) = 0 \<longleftrightarrow> n < 256 ^ k"
proof -
  have "unat (of_nat n :: u64) = n"
    using assms by (simp add: unat_of_nat)
  moreover have "(2 :: nat) ^ (8 * k) = 256 ^ k"
    by (simp add: power_mult)
  ultimately show ?thesis
    by (simp only: word_unat_eq_iff unat_drop_bit) (simp add: div_eq_0_iff)
qed

section \<open>Frames\<close>

datatype frame_kind = Prefixed nat | Element

type_synonym frame = "frame_kind \<times> u8 list"

fun prefix_len :: "frame_kind \<Rightarrow> nat" where
  "prefix_len (Prefixed n) = n"
| "prefix_len Element = 1"

definition frame_bytes :: "frame \<Rightarrow> u8 list" where
  "frame_bytes f = replicate (prefix_len (fst f)) 0 @ snd f"

definition frames_bytes :: "frame list \<Rightarrow> u8 list" where
  "frames_bytes fs = concat (map frame_bytes fs)"

fun close_frame :: "frame_kind \<Rightarrow> u8 list \<Rightarrow> u8 list option" where
  "close_frame (Prefixed n) c =
     (if length c < 256 ^ n then Some (be_bytes n (length c) @ c) else None)"
| "close_frame Element c =
     (if length c \<le> 0xfffffffe then Some (der_length (length c) @ c) else None)"

fun collapse :: "frame list \<Rightarrow> u8 list option" where
  "collapse [] = Some []"
| "collapse ((k, c) # fs) =
     (case collapse fs of None \<Rightarrow> None | Some x \<Rightarrow> close_frame k (c @ x))"

fun nodes_rel :: "nat \<Rightarrow> cbb_node list \<Rightarrow> frame list \<Rightarrow> bool" where
  "nodes_rel off [] [] = True"
| "nodes_rel off (n # ns) ((k, c) # fs) =
     (offset n = off \<and> pending_len_len n = prefix_len k \<and> 0 < prefix_len k \<and> prefix_len k \<le> 8 \<and>
      pending_is_asn1 n = (k = Element) \<and> nodes_rel (off + prefix_len k + length c) ns fs)"
| "nodes_rel off _ _ = False"

lemma close_frame_longer: "close_frame k c = Some x \<Longrightarrow> prefix_len k + length c \<le> length x"
  by (cases k) (auto simp: der_length_def split: if_splits)

lemma length_frame_bytes: "length (frame_bytes (k, c)) = prefix_len k + length c"
  by (simp add: frame_bytes_def)

lemma collapse_longer: "collapse fs = Some x \<Longrightarrow> length (frames_bytes fs) \<le> length x"
proof (induction fs arbitrary: x)
  case Nil
  then show ?case by (simp add: frames_bytes_def)
next
  case (Cons f fs)
  then show ?case
    using close_frame_longer [of "fst f"]
    by (cases f) (force simp: frames_bytes_def length_frame_bytes split: option.splits)
qed

section \<open>Flushing implements collapsing\<close>

lemma asn1_len_len_byte_len:
  assumes "n \<le> 0xfffffffe"
  shows "asn1_len_len n - 1 = (if n < 128 then 0 else byte_len n)" "0 < asn1_len_len n"
    "asn1_len_len n \<le> 5" "asn1_len_len n = 1 \<longleftrightarrow> n < 128"
proof -
  have "byte_len n = 1" if "n < 256" "0 < n" using byte_len_eqI [of 0 n] that by simp
  moreover have "byte_len n = 2" if "n < 65536" "256 \<le> n" using byte_len_eqI [of 1 n] that by simp
  moreover have "byte_len n = 3" if "n < 16777216" "65536 \<le> n" using byte_len_eqI [of 2 n] that by simp
  moreover have "byte_len n = 4" if "n < 4294967296" "16777216 \<le> n" using byte_len_eqI [of 3 n] that by simp
  ultimately show "asn1_len_len n - 1 = (if n < 128 then 0 else byte_len n)"
    using assms by (auto simp: asn1_len_len_def)
  show "0 < asn1_len_len n" "asn1_len_len n \<le> 5" "asn1_len_len n = 1 \<longleftrightarrow> n < 128"
    by (auto simp: asn1_len_len_def)
qed

lemma der_length_asn1:
  assumes "n \<le> 0xfffffffe"
  shows "der_length n =
    (if asn1_len_len n = 1 then of_nat n else 0x80 OR of_nat (asn1_len_len n - 1)) #
    be_bytes (asn1_len_len n - 1) (if asn1_len_len n = 1 then 0 else n)"
proof (cases "n < 128")
  case True
  then show ?thesis
    using asn1_len_len_byte_len [OF assms] by (simp add: der_length_def)
next
  case False
  let ?k = "byte_len n"
  have k: "asn1_len_len n - 1 = ?k" "asn1_len_len n \<noteq> 1" "?k \<le> 4"
    using asn1_len_len_byte_len [OF assms] False by auto
  then have "(0x80 OR of_nat ?k :: u8) = of_nat (128 + ?k)"
    using push_bit_or_eq_add [of "of_nat ?k :: u8" 7 1] by (simp add: unat_of_nat_u8)
  with False k show ?thesis
    by (simp add: der_length_def)
qed

text \<open>The prefix of a frame at \<open>off\<close>, overwritten in place.\<close>

definition flushed :: "nat \<Rightarrow> cbb_buffer_st \<Rightarrow> u8 list option \<Rightarrow> cbb_buffer_st \<Rightarrow> bool \<Rightarrow> bool" where
  "flushed off b spec b' success \<longleftrightarrow>
     (if success then
        bb_ok b' \<and> bb_cap b \<le> bb_cap b' \<and> bb_can_resize b' = bb_can_resize b \<and>
        (\<exists>x. spec = Some x \<and> bb_data b' = take off (bb_data b) @ x)
      else bb_error b' \<and> (\<forall>x. spec = Some x \<longrightarrow> bb_cap b < off + length x))"

lemma bb_data_bytes:
  assumes "bb_ok b" "bb_data b = xs"
  shows "take (length xs) (bb_bytes b) = xs" "bb_len b = length xs" "length xs \<le> length (bb_bytes b)"
  using assms by (auto simp: bb_ok_def bb_data_def)

lemma bb_write_put:
  assumes "bb_ok b" "bb_data b = as @ zs @ cs" "length zs = length bs"
  shows "bb_ok (bb_write (\<lambda>p. mem_put p (length as) bs) b)"
    "bb_data (bb_write (\<lambda>p. mem_put p (length as) bs) b) = as @ bs @ cs"
proof -
  let ?n = "length (as @ zs @ cs)"
  have d: "take ?n (bb_bytes b) = as @ zs @ cs" "bb_len b = ?n" "?n \<le> length (bb_bytes b)"
    using bb_data_bytes [OF assms(1,2)] .
  have w: "bb_bytes (bb_write (\<lambda>p. mem_put p (length as) bs) b) = mem_put (bb_bytes b) (length as) bs \<or> as @ zs @ cs = []"
    using d(3) by (cases "bb_bytes b = []") (auto intro: bb_bytes_write')
  have l: "length (mem_put (bb_bytes b) (length as) bs) = length (bb_bytes b)"
    using d(3) assms(3) by (intro length_mem_put) simp
  show "bb_data (bb_write (\<lambda>p. mem_put p (length as) bs) b) = as @ bs @ cs"
    using w take_mem_put [OF d(1) assms(3) d(3)] d(2) assms(3) by (auto simp: bb_data_def)
  show "bb_ok (bb_write (\<lambda>p. mem_put p (length as) bs) b)"
  proof (cases "as @ zs @ cs = []")
    case True
    then have "as = []" "bs = []" using assms(3) by auto
    then show ?thesis
      using assms(1) by (simp add: bb_ok_def mem_put_def bb_write_def bb_bytes_def split: option.splits)
  next
    case False
    then show ?thesis
      using w l assms(1) by (auto simp: bb_ok_def)
  qed
qed

lemma list_update_mem_put: "off < length p \<Longrightarrow> p[off := x] = mem_put p off [x]"
  by (simp add: mem_put_def upd_conv_take_nth_drop)

lemma take_mem_move:
  assumes "take (length (as @ c)) p = as @ c" "length (as @ c) + extra \<le> length p"
  shows "take (length (as @ c) + extra) (mem_move p (length as + extra) (length as) (length c)) =
      as @ take extra (drop (length as) p) @ c"
    "length (mem_move p (length as + extra) (length as) (length c)) = length p"
proof -
  have as: "take (length as) p = as"
    using arg_cong [OF assms(1), of "take (length as)"] by (simp add: min_def)
  have c: "take (length c) (drop (length as) p) = c"
    using arg_cong [OF assms(1), of "drop (length as)"] by (simp add: drop_take)
  have "take (length as + extra) p = as @ take extra (drop (length as) p)"
    by (simp only: take_add as)
  then show "take (length (as @ c) + extra) (mem_move p (length as + extra) (length as) (length c)) =
      as @ take extra (drop (length as) p) @ c"
    using assms(2) by (simp add: mem_move_def c)
  show "length (mem_move p (length as + extra) (length as) (length c)) = length p"
    using assms(2) by (simp add: mem_move_def)
qed

lemma make_room:
  assumes h: "heap_ok h" and b: "bb_ok b" "bb_data b = as @ c" and x: "extra < 2 ^ 63" "0 < length as"
    and r: "on_success (cbb_buffer_add h b extra) (\<lambda>_ b1.
        (Some (), bb_write (\<lambda>p. mem_move p (length as + extra) (length as) (length c)) b1)) = (r, b2)"
  shows "r = None \<and> bb_error b2 \<and> bb_cap b < length as + extra + length c \<or>
    r = Some () \<and> bb_ok b2 \<and> bb_cap b \<le> bb_cap b2 \<and> bb_can_resize b2 = bb_can_resize b \<and>
    (\<exists>junk. length junk = extra \<and> bb_data b2 = as @ junk @ c)"
proof -
  obtain o1 b1 where add: "cbb_buffer_add h b extra = (o1, b1)" by fastforce
  have lb: "bb_len b = length (as @ c)" using b by (metis length_bb_data)
  have spec: "o1 = None \<and> bb_error b1 \<and> bb_cap b < bb_len b + extra \<or>
    o1 = Some (bb_len b) \<and> bb_ok b1 \<and> bb_len b1 = bb_len b + extra \<and> take (bb_len b) (bb_data b1) = bb_data b \<and>
    bb_cap b \<le> bb_cap b1 \<and> bb_can_resize b1 = bb_can_resize b"
    by (rule cbb_buffer_add_spec [OF h b(1) x(1) add])
  show ?thesis
  proof (cases o1)
    case None
    then show ?thesis using spec r add lb by auto
  next
    case (Some off)
    then have s: "bb_ok b1" "bb_len b1 = bb_len b + extra" "take (bb_len b) (bb_data b1) = bb_data b"
      "bb_cap b \<le> bb_cap b1" "bb_can_resize b1 = bb_can_resize b"
      using spec by auto
    let ?p = "bb_bytes b1" and ?f = "\<lambda>p. mem_move p (length as + extra) (length as) (length c)"
    have b2: "r = Some ()" "b2 = bb_write ?f b1"
      using r add Some by auto
    have len: "length (as @ c) + extra \<le> length ?p"
      using s(1,2) lb by (simp add: bb_ok_def)
    have tk: "take (length (as @ c)) ?p = as @ c"
      using s(2,3) lb b(2) by (simp add: bb_data_def)
    have "?p \<noteq> []" using len x(2) by auto
    then have w: "bb_bytes b2 = ?f ?p"
      by (simp add: b2(2) bb_bytes_write')
    have "bb_data b2 = as @ take extra (drop (length as) ?p) @ c"
      using take_mem_move(1) [OF tk len] by (simp add: bb_data_def w) (simp add: b2(2) s(2) lb)
    moreover have "length (take extra (drop (length as) ?p)) = extra"
      using len by simp
    moreover have "bb_ok b2"
      using s(1) take_mem_move(2) [OF tk len] by (simp add: bb_ok_def w) (simp add: b2(2))
    ultimately show ?thesis
      using b2 s(4,5) by auto
  qed
qed

lemma flush_asn1_spec:
  assumes h: "heap_ok h" and b: "bb_ok b" "bb_data b = pre @ 0 # c" and ch: "offset child = length pre"
    and r: "flush_asn1 h child (length pre + 1) (length c) b = (r, b2)"
  shows "r = None \<and> (0xfffffffe < length c \<or>
        bb_cap b < length pre + length (der_length (length c)) + length c) \<or>
    (\<exists>child' n junk. r = Some (child', n) \<and> length c \<le> 0xfffffffe \<and>
      bb_ok b2 \<and> bb_cap b \<le> bb_cap b2 \<and> bb_can_resize b2 = bb_can_resize b \<and>
      offset child' = length pre + 1 \<and> pending_len_len child' = length junk \<and>
      length junk = asn1_len_len (length c) - 1 \<and> n = (if asn1_len_len (length c) = 1 then 0 else length c) \<and>
      bb_data b2 = pre @ hd (der_length (length c)) # junk @ c)"
proof (cases "length c > 0xfffffffe")
  case True
  then show ?thesis using r by (auto simp: flush_asn1_def)
next
  case False
  let ?ll = "asn1_len_len (length c)"
  let ?ib = "if ?ll = 1 then of_nat (length c) else 0x80 OR of_nat (?ll - 1) :: u8"
  let ?room = "if ?ll \<noteq> 1 then
       on_success (cbb_buffer_add h b (?ll - 1)) (\<lambda>_ b1. (Some (),
         bb_write (\<lambda>p. mem_move p (length pre + 1 + (?ll - 1)) (length pre + 1) (if ?ll = 1 then 0 else length c)) b1))
     else (Some (), b)"
  obtain r1 b1 where room: "?room = (r1, b1)" by fastforce
  have dl: "der_length (length c) = ?ib # be_bytes (?ll - 1) (if ?ll = 1 then 0 else length c)"
    using False by (intro der_length_asn1) simp
  have ll: "0 < ?ll" "?ll \<le> 5"
    using asn1_len_len_byte_len [of "length c"] False by simp_all
  have len: "length (pre @ [0 :: u8]) = length pre + 1" by simp
  have room_spec: "r1 = None \<and> bb_cap b < length pre + ?ll + length c \<or>
      r1 = Some () \<and> bb_ok b1 \<and> bb_cap b \<le> bb_cap b1 \<and> bb_can_resize b1 = bb_can_resize b \<and>
      (\<exists>junk. length junk = ?ll - 1 \<and> bb_data b1 = (pre @ [0]) @ junk @ c)"
  proof (cases "?ll = 1")
    case True
    then show ?thesis using room b by auto
  next
    case not1: False
    have rm: "on_success (cbb_buffer_add h b (?ll - 1)) (\<lambda>_ b1. (Some (),
         bb_write (\<lambda>p. mem_move p (length (pre @ [0 :: u8]) + (?ll - 1)) (length (pre @ [0 :: u8])) (length c)) b1)) = (r1, b1)"
      using room not1 by (simp only: len if_False if_True simp_thms)
    have "bb_data b = (pre @ [0]) @ c" using b(2) by simp
    from make_room [OF h b(1) this _ _ rm] show ?thesis
      using ll by auto
  qed
  have eq: "flush_asn1 h child (length pre + 1) (length c) b = on_success (r1, b1) (\<lambda>_ b2.
       (Some (child\<lparr>offset := length pre + 1, pending_len_len := ?ll - 1\<rparr>, if ?ll = 1 then 0 else length c),
        bb_write (\<lambda>p. p[length pre := ?ib]) b2))"
    using False room by (simp only: flush_asn1_def Let_def ch if_False not_less if_not_P [OF False])
  show ?thesis
  proof (cases r1)
    case None
    then show ?thesis
      using room_spec eq r dl ll by (auto simp: )
  next
    case (Some u)
    then obtain junk where junk: "length junk = ?ll - 1" "bb_data b1 = pre @ [0] @ junk @ c"
      and ok1: "bb_ok b1" "bb_cap b \<le> bb_cap b1" "bb_can_resize b1 = bb_can_resize b"
      using room_spec by auto
    let ?b2 = "bb_write (\<lambda>p. mem_put p (length pre) [?ib]) b1"
    have w: "bb_write (\<lambda>p. p[length pre := ?ib]) b1 = ?b2"
    proof -
      have "length pre < length (bb_bytes b1)"
        using bb_data_bytes(3) [OF ok1(1) junk(2)] by simp
      then show ?thesis
        by (cases "bb_buf b1") (simp_all add: bb_write_def bb_bytes_def list_update_mem_put)
    qed
    have b2: "b2 = ?b2" "r = Some (child\<lparr>offset := length pre + 1, pending_len_len := ?ll - 1\<rparr>, if ?ll = 1 then 0 else length c)"
      using r Some eq w by auto
    have "bb_ok ?b2" "bb_data ?b2 = pre @ [?ib] @ junk @ c"
      using bb_write_put [OF ok1(1) junk(2), of "[?ib]"] by simp_all
    then show ?thesis
      using b2 False ok1 junk(1) by (simp add: dl)
  qed
qed

lemma frames_bytes_simps [simp]:
  "frames_bytes [] = []" "frames_bytes (f # fs) = frame_bytes f @ frames_bytes fs"
  "frames_bytes (fs @ gs) = frames_bytes fs @ frames_bytes gs"
  by (simp_all add: frames_bytes_def)

lemma less_byte_len: "n < 256 ^ byte_len n"
  by (simp only: byte_len_le_iff [symmetric])

lemma bb_write_put_be:
  assumes b: "bb_ok b" "bb_data b = as @ zs @ cs" and n: "n < 2 ^ 64"
  shows "bb_write (\<lambda>p. fst (put_be p (length as) (length zs) (of_nat n))) b =
      bb_write (\<lambda>p. mem_put p (length as) (be_bytes (length zs) n)) b"
    "snd (put_be (bb_bytes b) (length as) (length zs) (of_nat n)) = 0 \<longleftrightarrow> n < 256 ^ length zs"
proof -
  have "length as + length zs \<le> length (bb_bytes b)"
    using bb_data_bytes(3) [OF b] by simp
  then have eq: "put_be (bb_bytes b) (length as) (length zs) (of_nat n) =
      (mem_put (bb_bytes b) (length as) (be_bytes (length zs) n), drop_bit (8 * length zs) (of_nat n))"
    using n by (simp add: put_be_eq unat_of_nat)
  show "snd (put_be (bb_bytes b) (length as) (length zs) (of_nat n)) = 0 \<longleftrightarrow> n < 256 ^ length zs"
    by (simp only: eq snd_conv drop_bit_be_zero_iff [OF n])
  show "bb_write (\<lambda>p. fst (put_be p (length as) (length zs) (of_nat n))) b =
      bb_write (\<lambda>p. mem_put p (length as) (be_bytes (length zs) n)) b"
  proof (cases "bb_buf b")
    case None
    then show ?thesis by (simp add: bb_write_def)
  next
    case (Some p)
    then have "bb_bytes b = p" by (simp add: bb_bytes_def)
    then show ?thesis
      using eq by (simp add: bb_write_def Some)
  qed
qed

text \<open>
  Flushing the descendants of a \<open>CBB\<close> whose own bytes are \<open>pre\<close> replaces what they hold by their
  closed contents; it fails when a prefix is too narrow or the buffer cannot grow.
\<close>

lemma flush_nodes_spec:
  assumes "heap_ok h" "bb_ok b" "bb_data b = pre @ frames_bytes fs" "nodes_rel (length pre) ns fs"
    "flush_nodes h ns b = (r, b', ns')"
  shows "r = None \<and> bb_error b' \<and> (\<forall>x. collapse fs = Some x \<longrightarrow> bb_cap b < length pre + length x) \<or>
    (\<exists>x. r = Some () \<and> ns' = [] \<and> bb_ok b' \<and> bb_cap b \<le> bb_cap b' \<and> bb_can_resize b' = bb_can_resize b \<and>
       collapse fs = Some x \<and> bb_data b' = pre @ x)"
  using assms
proof (induction fs arbitrary: pre ns b r b' ns')
  case Nil
  then have "ns = []" by (cases ns) auto
  with Nil show ?case by (auto simp: bb_ok_def)
next
  case (Cons f fs)
  obtain k c where f: "f = (k, c)" by fastforce
  obtain n ns1 where ns: "ns = n # ns1"
    using Cons.prems(4) by (cases ns) (auto simp: f)
  have n: "offset n = length pre" "pending_len_len n = prefix_len k" "0 < prefix_len k" "prefix_len k \<le> 8"
    "pending_is_asn1 n = (k = Element)" "nodes_rel (length pre + prefix_len k + length c) ns1 fs"
    using Cons.prems(4) by (simp_all add: f ns)
  let ?pre = "pre @ replicate (prefix_len k) 0 @ c"
  obtain r1 b1 ns2 where rec: "flush_nodes h ns1 b = (r1, b1, ns2)"
    using prod_cases3 by blast
  have d1: "bb_data b = ?pre @ frames_bytes fs"
    using Cons.prems(3) by (simp add: f frame_bytes_def)
  have rel1: "nodes_rel (length ?pre) ns1 fs"
    using n(6) by (simp add: add.assoc)
  note ih = Cons.IH [OF Cons.prems(1,2) d1 rel1 rec]
  have lenb: "bb_len b = length (bb_data b)" "bb_len b \<le> bb_cap b" "bb_cap b + 8 \<le> 2 ^ 63" "\<not> bb_error b"
    using Cons.prems(2) by (auto simp: bb_ok_def bb_data_def)
  have start: "size_wrap (offset n + pending_len_len n) = length pre + prefix_len k"
    using lenb n(1,2,4) d1 by (intro trans [OF size_wrap_small]) simp_all
  show ?case
  proof (cases r1)
    case None
    then have e: "r = None" "bb_error b'"
      using Cons.prems(5) rec lenb(4) n(2,3) by (auto simp: ns Let_def)
    have "bb_cap b < length pre + length x" if coll: "collapse (f # fs) = Some x" for x
    proof -
      obtain y where "collapse fs = Some y" "close_frame k (c @ y) = Some x"
        using coll by (auto simp: f split: option.splits)
      moreover from this have "bb_cap b < length ?pre + length y"
        using ih None by auto
      ultimately show ?thesis
        using close_frame_longer [of k "c @ y" x] by simp
    qed
    with e show ?thesis by blast
  next
    case (Some u)
    then obtain x where x: "bb_ok b1" "bb_cap b \<le> bb_cap b1" "bb_can_resize b1 = bb_can_resize b"
      "collapse fs = Some x" "bb_data b1 = ?pre @ x"
      using ih by auto
    let ?c = "c @ x" and ?start = "length pre + prefix_len k"
    have l1: "bb_len b1 = ?start + length ?c"
      using x(1,5) by (metis length_bb_data length_append length_replicate add.assoc)
    have small: "length ?c < 2 ^ 64"
      using x(1) l1 by (simp add: bb_ok_def)
    define body where "body = (if pending_is_asn1 n then flush_asn1 h n ?start (bb_len b1 - ?start) b1
      else (Some (n, bb_len b1 - ?start), b1))"
    obtain o2 b2 where o2: "body = (o2, b2)" by fastforce
    have res: "(r, b', ns') = (case (o2, b2) of
        (None, b2) \<Rightarrow> (None, b2\<lparr>bb_error := True\<rparr>, n # ns2)
      | (Some (child', m), b2) \<Rightarrow>
          (let b3 = bb_write (\<lambda>p. fst (put_be p (offset child') (pending_len_len child') (of_nat m))) b2;
               left = snd (put_be (bb_bytes b2) (offset child') (pending_len_len child') (of_nat m))
           in if left \<noteq> 0 then (None, b3\<lparr>bb_error := True\<rparr>, child' # ns2) else (Some (), b3, [])))"
    proof -
      have g: "\<not> bb_error b" "pending_len_len n \<noteq> 0"
        "\<not> (Some u = None \<or> ?start < offset n \<or> bb_len b1 < ?start)"
        using lenb(4) n(1-3) l1 by auto
      have "flush_nodes h ns b = (case body of
        (None, b2) \<Rightarrow> (None, b2\<lparr>bb_error := True\<rparr>, n # ns2)
      | (Some (child', m), b2) \<Rightarrow>
          (let b3 = bb_write (\<lambda>p. fst (put_be p (offset child') (pending_len_len child') (of_nat m))) b2;
               left = snd (put_be (bb_bytes b2) (offset child') (pending_len_len child') (of_nat m))
           in if left \<noteq> 0 then (None, b3\<lparr>bb_error := True\<rparr>, child' # ns2) else (Some (), b3, [])))"
        unfolding ns flush_nodes.simps Let_def start rec Some prod.case body_def
        by (simp only: if_not_P [OF g(1)] if_not_P [OF g(2)] if_not_P [OF g(3)] Let_def)
      then show ?thesis using Cons.prems(5) o2 by simp
    qed
    have spec: "collapse (f # fs) = close_frame k ?c"
      by (simp add: f x(4))
    show ?thesis
    proof (cases k)
      case (Prefixed m)
      then have o: "o2 = Some (n, length ?c)" "b2 = b1"
        using o2 n(5) l1 by (simp_all add: body_def)
      let ?b3 = "bb_write (\<lambda>p. mem_put p (length pre) (be_bytes m (length ?c))) b1"
      have d: "bb_data b1 = pre @ replicate m 0 @ ?c"
        using x(5) Prefixed by simp
      note put = bb_write_put_be [OF x(1) d small, unfolded length_replicate]
      note put' = bb_write_put [OF x(1) d, of "be_bytes m (length ?c)"]
      show ?thesis
      proof (cases "length ?c < 256 ^ m")
        case True
        then have "r = Some ()" "ns' = []" "b' = ?b3"
          using res o put n(1,2) Prefixed by (simp_all add: Let_def)
        then show ?thesis
          using put' x True by (simp add: spec Prefixed)
      next
        case False
        then have "r = None" "bb_error b'"
          using res o put n(1,2) Prefixed by (simp_all add: Let_def)
        then show ?thesis
          using False by (simp add: spec Prefixed)
      qed
    next
      case Element
      have fa: "flush_asn1 h n (length pre + 1) (length ?c) b1 = (o2, b2)"
        using o2 n(5) l1 Element by (simp add: body_def)
      have d: "bb_data b1 = pre @ 0 # ?c"
        using x(5) Element by simp
      from flush_asn1_spec [OF Cons.prems(1) x(1) d n(1) fa] show ?thesis
      proof (elim disjE exE conjE)
        assume "o2 = None" and big: "4294967294 < length ?c"
        then show ?thesis
          using res by (simp add: spec Element)
      next
        assume "o2 = None" and big: "bb_cap b1 < length pre + length (der_length (length ?c)) + length ?c"
        then show ?thesis
          using res x(2) by (simp add: spec Element)
      next
        fix child' m junk
        assume o: "o2 = Some (child', m)" "length ?c \<le> 4294967294" "bb_ok b2" "bb_cap b1 \<le> bb_cap b2"
          "bb_can_resize b2 = bb_can_resize b1" "offset child' = length pre + 1"
          "pending_len_len child' = length junk" "length junk = asn1_len_len (length ?c) - 1"
          "m = (if asn1_len_len (length ?c) = 1 then 0 else length ?c)"
          "bb_data b2 = pre @ hd (der_length (length ?c)) # junk @ ?c"
        let ?as = "pre @ [hd (der_length (length ?c))]"
        have d2: "bb_data b2 = ?as @ junk @ ?c" using o(10) by simp
        have m: "m < 2 ^ 64" using o(2,9) by simp
        have dl: "der_length (length ?c) = hd (der_length (length ?c)) # be_bytes (length junk) m"
          using der_length_asn1 [OF o(2)] o(8,9) by simp
        have fits: "m < 256 ^ length junk"
          using asn1_len_len_byte_len [OF o(2)] less_byte_len [of "length ?c"] o(8,9)
          by (cases "length ?c < 128") auto
        note put = bb_write_put_be [OF o(3) d2 m, unfolded length_append list.size add_0 One_nat_def [symmetric] Suc_eq_plus1]
        let ?b3 = "bb_write (\<lambda>p. mem_put p (length ?as) (be_bytes (length junk) m)) b2"
        have "length ?as = length pre + 1" by simp
        then have "r = Some ()" "ns' = []" "b' = ?b3"
          using res o(1,6,7) put fits by (simp_all add: Let_def)
        moreover have "bb_ok ?b3" "bb_data ?b3 = ?as @ be_bytes (length junk) m @ ?c"
          using bb_write_put [OF o(3) d2, of "be_bytes (length junk) m"] by simp_all
        moreover have "close_frame k ?c = Some (der_length (length ?c) @ ?c)"
          using o(2) by (simp add: Element)
        moreover have "?as @ be_bytes (length junk) m @ ?c = pre @ der_length (length ?c) @ ?c"
          by (subst (2) dl) simp
        ultimately show ?thesis
          using o(4,5) x(2,3) by (simp add: spec)
      qed
    qed
  qed
qed

section \<open>The operations on frames\<close>

text \<open>The first frame is the root, which has no prefix; frame \<open>d\<close> is the \<open>CBB\<close> at depth \<open>d\<close>.\<close>

definition append_top :: "u8 list \<Rightarrow> frame list \<Rightarrow> frame list" where
  "append_top x fs = butlast fs @ [(fst (last fs), snd (last fs) @ x)]"

definition abs_flush :: "nat \<Rightarrow> frame list \<Rightarrow> frame list option" where
  "abs_flush d fs =
     map_option (\<lambda>x. append_top x (take (Suc d) fs)) (collapse (drop (Suc d) fs))"

definition abs_write :: "nat \<Rightarrow> u8 list \<Rightarrow> frame list \<Rightarrow> frame list option" where
  "abs_write d x fs = map_option (append_top x) (abs_flush d fs)"

definition abs_open :: "nat \<Rightarrow> frame_kind \<Rightarrow> frame list \<Rightarrow> frame list option" where
  "abs_open d k fs = map_option (\<lambda>fs'. fs' @ [(k, [])]) (abs_flush d fs)"

definition cbb_rel :: "CBB \<Rightarrow> frame list \<Rightarrow> bool" where
  "cbb_rel c fs \<longleftrightarrow>
     (\<exists>b root fs'. cbb_base c = Some b \<and> bb_ok b \<and> fs = (Prefixed 0, root) # fs' \<and>
        bb_data b = frames_bytes fs \<and> nodes_rel (length root) (cbb_nodes c) fs')"

definition cbb_cap :: "CBB \<Rightarrow> nat" where
  "cbb_cap c = (case cbb_base c of None \<Rightarrow> 0 | Some b \<Rightarrow> bb_cap b)"

definition cbb_resizes :: "CBB \<Rightarrow> bool" where
  "cbb_resizes c = (case cbb_base c of None \<Rightarrow> False | Some b \<Rightarrow> bb_can_resize b)"

definition cbb_dead :: "CBB \<Rightarrow> bool" where
  "cbb_dead c \<longleftrightarrow> (case cbb_base c of None \<Rightarrow> True | Some b \<Rightarrow> bb_error b)"

text \<open>
  A call implements an operation on frames: it returns one only with the frames the operation
  yields, and zero only when the operation fails or its result exceeds the capacity.
\<close>

definition refines :: "CBB \<Rightarrow> 'a option \<times> CBB \<Rightarrow> frame list option \<Rightarrow> bool" where
  "refines c res spec \<longleftrightarrow>
     (case res of
        (None, c') \<Rightarrow> cbb_dead c' \<and> (\<forall>fs. spec = Some fs \<longrightarrow> cbb_cap c < length (frames_bytes fs))
      | (Some _, c') \<Rightarrow> cbb_cap c \<le> cbb_cap c' \<and> cbb_resizes c' = cbb_resizes c \<and>
          (\<exists>fs. spec = Some fs \<and> cbb_rel c' fs))"

lemma refines_bind:
  assumes "refines c res a" "\<And>fs'. a = Some fs' \<Longrightarrow> a' = a2 fs'"
    and "\<And>x c1 fs'. res = (Some x, c1) \<Longrightarrow> a = Some fs' \<Longrightarrow> cbb_rel c1 fs' \<Longrightarrow> refines c1 (g x c1) (a2 fs')"
    and "\<And>fs' fs''. a = Some fs' \<Longrightarrow> a2 fs' = Some fs'' \<Longrightarrow> length (frames_bytes fs') \<le> length (frames_bytes fs'')"
    and "a = None \<Longrightarrow> a' = None"
  shows "refines c (on_success res g) a'"
proof (cases res)
  case (Pair r c1)
  show ?thesis
  proof (cases r)
    case None
    have "cbb_cap c < length (frames_bytes fs)" if a': "a' = Some fs" for fs
    proof -
      obtain fs' where fs': "a = Some fs'" using a' assms(5) by fastforce
      then have "cbb_cap c < length (frames_bytes fs')"
        using assms(1) by (simp add: refines_def Pair None)
      also have "\<dots> \<le> length (frames_bytes fs)"
        using assms(2,4) fs' a' by simp
      finally show ?thesis .
    qed
    then show ?thesis
      using assms(1) by (simp add: refines_def Pair None)
  next
    case (Some x)
    then obtain fs' where fs': "a = Some fs'" "cbb_rel c1 fs'" and cap: "cbb_cap c \<le> cbb_cap c1" "cbb_resizes c1 = cbb_resizes c"
      using assms(1) by (auto simp: refines_def Pair)
    have "refines c1 (g x c1) a'"
      using assms(2,3) fs' Pair Some by simp
    then show ?thesis
      using cap by (force simp: refines_def Pair Some split: option.splits)
  qed
qed

lemma nodes_rel_length: "nodes_rel off ns fs \<Longrightarrow> length ns = length fs"
  by (induction off ns fs rule: nodes_rel.induct) auto

lemma nodes_rel_drop:
  "nodes_rel off ns fs \<Longrightarrow> nodes_rel (off + length (frames_bytes (take d fs))) (drop d ns) (drop d fs)"
proof (induction off ns fs arbitrary: d rule: nodes_rel.induct)
  case (2 off n ns k c fs)
  show ?case
  proof (cases d)
    case (Suc d')
    then show ?thesis
      using "2.IH" [of d'] "2.prems" by (simp add: length_frame_bytes add.assoc)
  qed (use 2 in simp)
qed auto

lemma nodes_rel_take: "nodes_rel off ns fs \<Longrightarrow> nodes_rel off (take d ns) (take d fs)"
proof (induction off ns fs arbitrary: d rule: nodes_rel.induct)
  case (2 off n ns k c fs)
  then show ?case by (cases d) auto
qed auto

lemma nodes_rel_append_top:
  "nodes_rel off ns fs \<Longrightarrow> fs \<noteq> [] \<Longrightarrow> nodes_rel off ns (append_top x fs)"
proof (induction off ns fs rule: nodes_rel.induct)
  case (2 off n ns k c fs)
  then show ?case
    by (cases fs; cases ns) (auto simp: append_top_def)
qed auto

lemma nodes_rel_snoc:
  assumes "nodes_rel off ns fs" "0 < prefix_len k" "prefix_len k \<le> 8"
  shows "nodes_rel off (ns @ [\<lparr>offset = off + length (frames_bytes fs), pending_len_len = prefix_len k,
      pending_is_asn1 = (k = Element)\<rparr>]) (fs @ [(k, [])])"
  using assms
proof (induction off ns fs rule: nodes_rel.induct)
  case (2 off n ns k' c fs)
  then show ?case by (auto simp: length_frame_bytes add.assoc)
qed auto

lemma frames_bytes_append_top: "fs \<noteq> [] \<Longrightarrow> frames_bytes (append_top x fs) = frames_bytes fs @ x"
  by (cases fs rule: rev_cases) (auto simp: append_top_def frame_bytes_def)

lemma length_append_top [simp]: "fs \<noteq> [] \<Longrightarrow> length (append_top x fs) = length fs"
  by (simp add: append_top_def)

lemma append_top_append_top: "fs \<noteq> [] \<Longrightarrow> append_top y (append_top x fs) = append_top (x @ y) fs"
  by (simp add: append_top_def)

lemma append_top_snoc: "append_top x (fs @ [(k, c)]) = fs @ [(k, c @ x)]"
  by (simp add: append_top_def)

lemma abs_flush_longer:
  assumes "abs_flush d fs = Some fs'"
  shows "length (frames_bytes fs) \<le> length (frames_bytes fs')"
proof (cases "fs = []")
  case False
  obtain x where x: "collapse (drop (Suc d) fs) = Some x" "fs' = append_top x (take (Suc d) fs)"
    using assms by (auto simp: abs_flush_def)
  have "frames_bytes fs = frames_bytes (take (Suc d) fs) @ frames_bytes (drop (Suc d) fs)"
    by (simp only: frames_bytes_simps(3) [symmetric] append_take_drop_id)
  moreover have "take (Suc d) fs \<noteq> []" using False by simp
  ultimately show ?thesis
    using collapse_longer [OF x(1)] x(2) by (simp add: frames_bytes_append_top)
qed simp

text \<open>Flushing.\<close>

lemma cbb_rel_append_top:
  assumes "cbb_base c = Some b" "bb_ok b" "fs = (Prefixed 0, root) # fs'" "nodes_rel (length root) ns fs'"
    "bb_data b = frames_bytes fs @ x" "cbb_nodes c = ns" "fs' \<noteq> [] \<or> ns = []"
  shows "cbb_rel c (append_top x fs)"
proof (cases "fs' = []")
  case True
  then show ?thesis
    using assms by (auto simp: cbb_rel_def append_top_def frame_bytes_def)
next
  case False
  then have "append_top x fs = (Prefixed 0, root) # append_top x fs'"
    by (simp add: append_top_def assms(3))
  moreover have "fs \<noteq> []" using assms(3) by blast
  then have "bb_data b = frames_bytes (append_top x fs)"
    using assms(5) by (metis frames_bytes_append_top)
  ultimately show ?thesis
    using assms(1,2,6) nodes_rel_append_top [OF assms(4) False, of x] unfolding cbb_rel_def by blast
qed

lemma CBB_flush_refines:
  assumes h: "heap_ok h" and rel: "cbb_rel c fs" and d: "d < length fs"
  shows "refines c (CBB_flush h c d) (abs_flush d fs)"
proof -
  obtain b root fs' where b: "cbb_base c = Some b" "bb_ok b" "fs = (Prefixed 0, root) # fs'"
    "bb_data b = frames_bytes fs" "nodes_rel (length root) (cbb_nodes c) fs'"
    using rel by (auto simp: cbb_rel_def)
  let ?pre = "frames_bytes (take (Suc d) fs)"
  have len: "length (cbb_nodes c) = length fs'"
    using b(5) by (rule nodes_rel_length)
  have data: "bb_data b = ?pre @ frames_bytes (drop (Suc d) fs)"
    by (simp only: b(4) frames_bytes_simps(3) [symmetric] append_take_drop_id)
  have rel': "nodes_rel (length ?pre) (drop d (cbb_nodes c)) (drop (Suc d) fs)"
    using nodes_rel_drop [OF b(5), of d] by (simp add: b(3) frame_bytes_def)
  obtain r b' ns where fl: "flush_nodes h (drop d (cbb_nodes c)) b = (r, b', ns)"
    using prod_cases3 by blast
  have eq: "CBB_flush h c d = (r, \<lparr>cbb_base = Some b', cbb_nodes = take d (cbb_nodes c) @ ns\<rparr>)"
    using d len b(1,3) fl by (simp add: CBB_flush_def)
  have nonempty: "take (Suc d) fs \<noteq> []" using b(3) by simp
  from flush_nodes_spec [OF h b(2) data rel' fl] show ?thesis
  proof (elim disjE exE conjE)
    assume "r = None" "bb_error b'" and cap: "\<forall>x. collapse (drop (Suc d) fs) = Some x \<longrightarrow> bb_cap b < length ?pre + length x"
    then show ?thesis
      using nonempty by (auto simp: refines_def eq cbb_dead_def cbb_cap_def b(1) abs_flush_def frames_bytes_append_top)
  next
    fix x
    assume x: "r = Some ()" "ns = []" "bb_ok b'" "bb_cap b \<le> bb_cap b'" "bb_can_resize b' = bb_can_resize b"
      "collapse (drop (Suc d) fs) = Some x" "bb_data b' = ?pre @ x"
    let ?c' = "\<lparr>cbb_base = Some b', cbb_nodes = take d (cbb_nodes c)\<rparr>"
    have "cbb_rel ?c' (append_top x (take (Suc d) fs))"
    proof (rule cbb_rel_append_top)
      show "take (Suc d) fs = (Prefixed 0, root) # take d fs'" by (simp add: b(3))
      show "nodes_rel (length root) (take d (cbb_nodes c)) (take d fs')" by (rule nodes_rel_take [OF b(5)])
      show "take d fs' \<noteq> [] \<or> take d (cbb_nodes c) = []" using len by auto
    qed (use x in simp_all)
    then show ?thesis
      using x by (simp add: refines_def eq cbb_cap_def cbb_resizes_def b(1) abs_flush_def)
  qed
qed

section \<open>Writing\<close>

definition bb_append :: "heap \<Rightarrow> cbb_buffer_st \<Rightarrow> u8 list \<Rightarrow> unit option \<times> cbb_buffer_st" where
  "bb_append h b x =
     on_success (cbb_buffer_add h b (length x)) (\<lambda>dest b'. (Some (), bb_write (\<lambda>p. mem_put p dest x) b'))"

lemma bb_append_spec:
  assumes "heap_ok h" "bb_ok b" "length x < 2 ^ 63" "bb_append h b x = (r, b')"
  shows "r = None \<and> bb_error b' \<and> bb_cap b < bb_len b + length x \<or>
    r = Some () \<and> bb_ok b' \<and> bb_data b' = bb_data b @ x \<and> bb_cap b \<le> bb_cap b' \<and>
    bb_can_resize b' = bb_can_resize b"
proof -
  obtain o1 b1 where add: "cbb_buffer_add h b (length x) = (o1, b1)" by fastforce
  from cbb_buffer_add_spec [OF assms(1-3) add] show ?thesis
  proof (elim disjE conjE)
    assume "o1 = None" "bb_error b1" "bb_cap b < bb_len b + length x"
    then show ?thesis using assms(4) add by (simp add: bb_append_def)
  next
    assume a: "o1 = Some (bb_len b)" "bb_ok b1" "bb_len b1 = bb_len b + length x"
      "take (bb_len b) (bb_data b1) = bb_data b" "bb_cap b \<le> bb_cap b1" "bb_can_resize b1 = bb_can_resize b"
    have len: "bb_len b = length (bb_data b)" using assms(2) by simp
    have "bb_data b1 = bb_data b @ drop (bb_len b) (bb_data b1) @ []"
      using a(4) by (metis append_Nil2 append_take_drop_id)
    moreover have "length (drop (bb_len b) (bb_data b1)) = length x"
      using a(2,3) by simp
    ultimately have "bb_ok (bb_write (\<lambda>p. mem_put p (length (bb_data b)) x) b1)"
      "bb_data (bb_write (\<lambda>p. mem_put p (length (bb_data b)) x) b1) = bb_data b @ x @ []"
      using bb_write_put [OF a(2)] by blast+
    moreover have "r = Some ()" "b' = bb_write (\<lambda>p. mem_put p (length (bb_data b)) x) b1"
      using assms(4) add a(1) len by (simp_all add: bb_append_def)
    ultimately show ?thesis
      using a(5,6) by simp
  qed
qed

lemma bb_write_cong:
  "f (bb_bytes b) = g (bb_bytes b) \<Longrightarrow> bb_write f b = bb_write g b"
  by (cases "bb_buf b") (auto simp: bb_write_def bb_bytes_def)

lemma cbb_buffer_add_u_eq:
  assumes "heap_ok h" "bb_ok b" "0 < n" "n \<le> 8" "unat v < 256 ^ n"
  shows "cbb_buffer_add_u h b v n = bb_append h b (be_bytes n (unat v))"
proof -
  obtain o1 b1 where add: "cbb_buffer_add h b n = (o1, b1)" by fastforce
  have n63: "n < 2 ^ 63" using assms(4) by simp
  show ?thesis
  proof (cases o1)
    case None
    then show ?thesis
      using add assms(3) by (simp add: cbb_buffer_add_u_def bb_append_def)
  next
    case (Some off)
    then have a: "off = bb_len b" "bb_ok b1" "bb_len b1 = bb_len b + n"
      using cbb_buffer_add_spec [OF assms(1,2) n63 add] by auto
    then have "off + n \<le> length (bb_bytes b1)"
      by (simp add: bb_ok_def)
    then have put: "put_be (bb_bytes b1) off n v = (mem_put (bb_bytes b1) off (be_bytes n (unat v)), drop_bit (8 * n) v)"
      by (rule put_be_eq)
    moreover have "drop_bit (8 * n) v = 0"
      using drop_bit_be_zero_iff [of "unat v" n] assms(5) unsigned_less [where ?'a = nat, of v]
      by (simp add: of_nat_unat_word)
    moreover have "bb_write (\<lambda>p. fst (put_be p off n v)) b1 = bb_write (\<lambda>p. mem_put p off (be_bytes n (unat v))) b1"
      by (rule bb_write_cong) (simp add: put)
    ultimately show ?thesis
      using add Some assms(3) by (simp add: cbb_buffer_add_u_def bb_append_def Let_def)
  qed
qed

lemma cbb_buffer_add_u_overflow:
  assumes "heap_ok h" "bb_ok b" "0 < n" "n \<le> 8" "\<not> unat v < 256 ^ n"
  shows "\<exists>b'. cbb_buffer_add_u h b v n = (None, b') \<and> bb_error b'"
proof -
  obtain o1 b1 where add: "cbb_buffer_add h b n = (o1, b1)" by fastforce
  have n63: "n < 2 ^ 63" using assms(4) by simp
  show ?thesis
  proof (cases o1)
    case None
    then show ?thesis
      using add assms(3) cbb_buffer_add_spec [OF assms(1,2) n63 add] by (simp add: cbb_buffer_add_u_def)
  next
    case (Some off)
    then have a: "off = bb_len b" "bb_ok b1" "bb_len b1 = bb_len b + n"
      using cbb_buffer_add_spec [OF assms(1,2) n63 add] by auto
    then have "off + n \<le> length (bb_bytes b1)"
      by (simp add: bb_ok_def)
    then have put: "snd (put_be (bb_bytes b1) off n v) = drop_bit (8 * n) v"
      by (simp add: put_be_eq)
    moreover have "drop_bit (8 * n) v \<noteq> 0"
      using drop_bit_be_zero_iff [of "unat v" n] assms(5) unsigned_less [where ?'a = nat, of v]
      by (simp add: of_nat_unat_word)
    ultimately show ?thesis
      using add Some assms(3) by (simp add: cbb_buffer_add_u_def Let_def bb_fail_def)
  qed
qed

lemma on_base_bind:
  "on_success (on_base c f) (\<lambda>x c2. on_base c2 (g x)) = on_base c (\<lambda>b. on_success (f b) g)"
  by (auto simp: on_base_def on_success_def split: option.splits prod.splits)

lemma on_base_append_refines:
  assumes h: "heap_ok h" and rel: "cbb_rel c fs" and x: "length x < 2 ^ 63"
  shows "refines c (on_base c (\<lambda>b. bb_append h b x)) (Some (append_top x fs))"
proof -
  obtain b root fs' where b: "cbb_base c = Some b" "bb_ok b" "fs = (Prefixed 0, root) # fs'"
    "bb_data b = frames_bytes fs" "nodes_rel (length root) (cbb_nodes c) fs'"
    using rel by (auto simp: cbb_rel_def)
  obtain r b' where app: "bb_append h b x = (r, b')" by fastforce
  have eq: "on_base c (\<lambda>b. bb_append h b x) = (r, c\<lparr>cbb_base := Some b'\<rparr>)"
    by (simp add: on_base_def b(1) app)
  have ne: "fs \<noteq> []" using b(3) by blast
  from bb_append_spec [OF h b(2) x app] show ?thesis
  proof (elim disjE conjE)
    assume e: "r = None" "bb_error b'" "bb_cap b < bb_len b + length x"
    then have "bb_cap b < length (frames_bytes (append_top x fs))"
      using b(4) length_bb_data [OF b(2)] by (simp add: frames_bytes_append_top [OF ne])
    with e show ?thesis
      by (simp add: refines_def eq cbb_dead_def cbb_cap_def b(1))
  next
    assume a: "r = Some ()" "bb_ok b'" "bb_data b' = bb_data b @ x" "bb_cap b \<le> bb_cap b'"
      "bb_can_resize b' = bb_can_resize b"
    have "fs' \<noteq> [] \<or> cbb_nodes c = []"
      using nodes_rel_length [OF b(5)] by auto
    then have "cbb_rel (c\<lparr>cbb_base := Some b'\<rparr>) (append_top x fs)"
      using a b by (intro cbb_rel_append_top [of _ b' fs root fs' "cbb_nodes c" x]) simp_all
    with a show ?thesis
      by (simp add: refines_def eq cbb_cap_def cbb_resizes_def b(1))
  qed
qed

lemma abs_flush_Some_nonempty: "abs_flush d fs = Some fs' \<Longrightarrow> fs' \<noteq> []"
  by (auto simp: abs_flush_def append_top_def)

lemma append_top_longer: "fs \<noteq> [] \<Longrightarrow> length (frames_bytes fs) \<le> length (frames_bytes (append_top x fs))"
  by (simp add: frames_bytes_append_top)

lemma abs_write_Some:
  "abs_flush d fs = Some fs' \<Longrightarrow> abs_write d x fs = Some (append_top x fs')"
  by (simp add: abs_write_def)

text \<open>Flush, then append: the shape of every write.\<close>

lemma flush_append_refines:
  assumes "heap_ok h" "cbb_rel c fs" "d < length fs" "length x < 2 ^ 63"
    and "\<And>c1 fs1. cbb_rel c1 fs1 \<Longrightarrow> g c1 = on_base c1 (\<lambda>b. bb_append h b x)"
  shows "refines c (on_success (CBB_flush h c d) (\<lambda>_ c1. g c1)) (abs_write d x fs)"
proof (rule refines_bind [where ?a2.0 = "\<lambda>fs'. Some (append_top x fs')"])
  show "refines c (CBB_flush h c d) (abs_flush d fs)"
    by (rule CBB_flush_refines [OF assms(1-3)])
next
  fix u c1 fs1
  assume rel: "cbb_rel c1 fs1"
  show "refines c1 (g c1) (Some (append_top x fs1))"
    unfolding assms(5) [OF rel] by (rule on_base_append_refines [OF assms(1) rel assms(4)])
qed (auto simp: abs_write_def dest: abs_flush_Some_nonempty append_top_longer [of _ x])

lemma CBB_add_bytes_refines:
  assumes "heap_ok h" "cbb_rel c fs" "d < length fs" "n < 2 ^ 63" "n \<le> length data"
  shows "refines c (CBB_add_bytes h c d data n) (abs_write d (take n data) fs)"
  unfolding CBB_add_bytes_def on_base_bind
  by (rule flush_append_refines [OF assms(1-3)]) (use assms(4,5) in \<open>simp_all add: bb_append_def min_absorb2\<close>)

lemma cbb_rel_base: "cbb_rel c fs \<Longrightarrow> \<exists>b. cbb_base c = Some b \<and> bb_ok b"
  by (auto simp: cbb_rel_def)

lemma cbb_add_u_refines:
  assumes "heap_ok h" "cbb_rel c fs" "d < length fs" "0 < n" "n \<le> 8" "unat v < 256 ^ n"
  shows "refines c (cbb_add_u h c d v n) (abs_write d (be_bytes n (unat v)) fs)"
  unfolding cbb_add_u_def
proof (rule flush_append_refines [OF assms(1-3)])
  fix c1 fs1 assume "cbb_rel c1 fs1"
  then obtain b where "cbb_base c1 = Some b" "bb_ok b" using cbb_rel_base by blast
  then show "on_base c1 (\<lambda>b. cbb_buffer_add_u h b v n) = on_base c1 (\<lambda>b. bb_append h b (be_bytes n (unat v)))"
    using assms by (simp add: on_base_def cbb_buffer_add_u_eq)
qed (use assms(5) in simp)

lemma cbb_add_u_overflow:
  assumes "heap_ok h" "cbb_rel c fs" "d < length fs" "0 < n" "n \<le> 8" "\<not> unat v < 256 ^ n"
  shows "refines c (cbb_add_u h c d v n) None"
  unfolding cbb_add_u_def
proof (rule refines_bind [where ?a2.0 = "\<lambda>_. None"])
  show "refines c (CBB_flush h c d) (abs_flush d fs)"
    by (rule CBB_flush_refines [OF assms(1-3)])
next
  fix u c1 fs1 assume "cbb_rel c1 fs1"
  then obtain b where b: "cbb_base c1 = Some b" "bb_ok b" using cbb_rel_base by blast
  then obtain b' where "cbb_buffer_add_u h b v n = (None, b')" "bb_error b'"
    using cbb_buffer_add_u_overflow assms by blast
  then show "refines c1 (on_base c1 (\<lambda>b. cbb_buffer_add_u h b v n)) None"
    by (simp add: on_base_def b refines_def cbb_dead_def)
qed auto

section \<open>Sequences of writes\<close>

lemma abs_flush_length:
  assumes "abs_flush d fs = Some fs'" "d < length fs"
  shows "length fs' = Suc d"
proof -
  obtain x where "fs' = append_top x (take (Suc d) fs)"
    using assms(1) by (auto simp: abs_flush_def)
  moreover have "take (Suc d) fs \<noteq> []" using assms(2) by auto
  ultimately show ?thesis using assms(2) by simp
qed

lemma append_top_Nil [simp]: "fs \<noteq> [] \<Longrightarrow> append_top [] fs = fs"
  by (simp add: append_top_def)

lemma abs_flush_top: "length fs = Suc d \<Longrightarrow> abs_flush d fs = Some fs"
  by (cases "fs = []") (simp_all add: abs_flush_def)

lemma abs_write_top: "length fs = Suc d \<Longrightarrow> abs_write d x fs = Some (append_top x fs)"
  by (simp add: abs_write_def abs_flush_top)

lemma abs_write_length: "abs_write d x fs = Some fs' \<Longrightarrow> d < length fs \<Longrightarrow> length fs' = Suc d"
  by (auto simp: abs_write_def dest!: abs_flush_length) (metis length_append_top list.size(3) nat.distinct(1))

lemma abs_write_append:
  assumes "abs_write d x fs = Some fs'" "d < length fs"
  shows "abs_write d y fs' = abs_write d (x @ y) fs"
proof -
  obtain fs1 where f: "abs_flush d fs = Some fs1" "fs' = append_top x fs1"
    using assms(1) by (auto simp: abs_write_def)
  then have ne: "fs1 \<noteq> []" by (blast dest: abs_flush_Some_nonempty)
  have "length fs' = Suc d" using abs_write_length [OF assms] .
  then show ?thesis
    using f ne by (simp add: abs_write_top append_top_append_top) (simp add: abs_write_def)
qed

lemma refines_top: "cbb_rel c fs \<Longrightarrow> refines c (Some v, c) (Some fs)"
  by (auto simp: refines_def)

lemma refines_write_seq:
  assumes "refines c res (abs_write d x fs)" "d < length fs"
    and "\<And>v c1 fs1. res = (Some v, c1) \<Longrightarrow> cbb_rel c1 fs1 \<Longrightarrow> length fs1 = Suc d \<Longrightarrow>
       refines c1 (g v c1) (abs_write d y fs1)"
  shows "refines c (on_success res g) (abs_write d (x @ y) fs)"
proof (rule refines_bind [OF assms(1), where ?a2.0 = "abs_write d y"])
  fix fs' assume "abs_write d x fs = Some fs'"
  then show "abs_write d (x @ y) fs = abs_write d y fs'"
    using abs_write_append assms(2) by metis
next
  fix v c1 fs1
  assume "res = (Some v, c1)" "abs_write d x fs = Some fs1" "cbb_rel c1 fs1"
  then show "refines c1 (g v c1) (abs_write d y fs1)"
    using assms(2,3) abs_write_length by blast
next
  fix fs1 fs2
  assume a: "abs_write d x fs = Some fs1" "abs_write d y fs1 = Some fs2"
  have l: "length fs1 = Suc d" using abs_write_length [OF a(1) assms(2)] .
  then have "fs1 \<noteq> []" by auto
  then show "length (frames_bytes fs1) \<le> length (frames_bytes fs2)"
    using a(2) l by (auto simp: abs_write_top frames_bytes_append_top)
qed (auto simp: abs_write_def)

lemma be_bytes_1: "be_bytes 1 n = [of_nat n]"
  by simp

lemma CBB_add_u8_refines:
  assumes "heap_ok h" "cbb_rel c fs" "d < length fs"
  shows "refines c (CBB_add_u8 h c d v) (abs_write d [v] fs)"
proof -
  have "refines c (cbb_add_u h c d (ucast v) 1) (abs_write d (be_bytes 1 (unat (ucast v :: u64))) fs)"
    by (rule cbb_add_u_refines [OF assms]) simp_all
  then show ?thesis
    by (simp add: CBB_add_u8_def of_nat_unat_word)
qed

lemma CBB_add_ints_refine:
  assumes "heap_ok h" "cbb_rel c fs" "d < length fs"
  shows "refines c (CBB_add_u16 h c d v) (abs_write d (be_bytes 2 (unat v)) fs)"
    "refines c (CBB_add_u32 h c d w) (abs_write d (be_bytes 4 (unat w)) fs)"
    "refines c (CBB_add_u64 h c d x) (abs_write d (be_bytes 8 (unat x)) fs)"
    "refines c (CBB_add_u24 h c d w) (if unat w < 2 ^ 24 then abs_write d (be_bytes 3 (unat w)) fs else None)"
proof -
  have u: "unat (ucast v :: u64) = unat v" "unat (ucast w :: u64) = unat w"
    using unsigned_less [where ?'a = nat, of v] unsigned_less [where ?'a = nat, of w]
    by (simp_all add: unsigned_ucast_eq take_bit_nat_eq_self)
  have b: "unat v < 256 ^ 2" "unat w < 256 ^ 4" "unat x < 256 ^ 8"
    using unsigned_less [where ?'a = nat, of v] unsigned_less [where ?'a = nat, of w]
      unsigned_less [where ?'a = nat, of x] by simp_all
  show "refines c (CBB_add_u16 h c d v) (abs_write d (be_bytes 2 (unat v)) fs)"
    using cbb_add_u_refines [OF assms, of 2 "ucast v"] b(1) by (simp add: CBB_add_u16_def u)
  show "refines c (CBB_add_u32 h c d w) (abs_write d (be_bytes 4 (unat w)) fs)"
    using cbb_add_u_refines [OF assms, of 4 "ucast w"] b(2) by (simp add: CBB_add_u32_def u)
  show "refines c (CBB_add_u64 h c d x) (abs_write d (be_bytes 8 (unat x)) fs)"
    using cbb_add_u_refines [OF assms, of 8 x] b(3) by (simp add: CBB_add_u64_def)
  show "refines c (CBB_add_u24 h c d w) (if unat w < 2 ^ 24 then abs_write d (be_bytes 3 (unat w)) fs else None)"
    using cbb_add_u_refines [OF assms, of 3 "ucast w"] cbb_add_u_overflow [OF assms, of 3 "ucast w"]
    by (cases "unat w < 2 ^ 24") (simp_all only: CBB_add_u24_def u if_True if_False, simp_all)
qed

lemma CBB_add_le_refine:
  assumes "heap_ok h" "cbb_rel c fs" "d < length fs"
  shows "refines c (CBB_add_u16le h c d v) (abs_write d (rev (be_bytes 2 (unat v))) fs)"
    "refines c (CBB_add_u32le h c d w) (abs_write d (rev (be_bytes 4 (unat w))) fs)"
    "refines c (CBB_add_u64le h c d x) (abs_write d (rev (be_bytes 8 (unat x))) fs)"
  using CBB_add_ints_refine(1) [OF assms, of "CRYPTO_bswap2 v"] CBB_add_ints_refine(2) [OF assms, of "CRYPTO_bswap4 w"]
    CBB_add_ints_refine(3) [OF assms, of "CRYPTO_bswap8 x"]
  unfolding CBB_add_u16le_def CBB_add_u32le_def CBB_add_u64le_def unat_bswap be_bytes_le_val by blast+

section \<open>Base-128 integers\<close>

fun ndigits :: "nat \<Rightarrow> nat" where
  "ndigits n = (if n = 0 then 0 else Suc (ndigits (n div 128)))"

declare ndigits.simps [simp del]

fun b128_groups :: "nat \<Rightarrow> nat \<Rightarrow> u8 list" where
  "b128_groups 0 n = []"
| "b128_groups (Suc i) n =
     of_nat ((if i = 0 then 0 else 128) + n div 128 ^ i mod 128) # b128_groups i n"

fun more_groups :: "nat \<Rightarrow> nat \<Rightarrow> u8 list" where
  "more_groups 0 n = []"
| "more_groups (Suc i) n = more_groups i (n div 128) @ [of_nat (128 + n mod 128)]"

lemma more_groups_top:
  "more_groups (Suc i) n = of_nat (128 + n div 128 ^ i mod 128) # more_groups i n"
proof (induction i arbitrary: n)
  case (Suc i)
  have "more_groups (Suc (Suc i)) n = more_groups (Suc i) (n div 128) @ [of_nat (128 + n mod 128)]"
    by (rule more_groups.simps(2))
  also have "\<dots> = of_nat (128 + n div 128 div 128 ^ i mod 128) # more_groups i (n div 128) @ [of_nat (128 + n mod 128)]"
    by (simp only: Suc.IH append_Cons)
  also have "n div 128 div 128 ^ i = n div 128 ^ Suc i"
    by (simp add: div_mult2_eq)
  finally show ?case by (simp only: more_groups.simps(2))
qed simp

lemma b128_groups_eq: "b128_groups (Suc i) n = more_groups i (n div 128) @ [of_nat (n mod 128)]"
proof (induction i)
  case (Suc i)
  have "n div 128 ^ Suc i = n div 128 div 128 ^ i"
    by (simp add: div_mult2_eq)
  then show ?case
    by (simp only: b128_groups.simps(2) [of "Suc i"] Suc more_groups_top append_Cons nat.distinct if_False)
qed simp

lemma more_groups_ndigits: "more_groups (ndigits n) n = b128_more n"
proof (induction n rule: ndigits.induct)
  case (1 n)
  then show ?case
    by (cases "n = 0") (simp_all add: ndigits.simps [of n] ndigits.simps [of 0] b128_more.simps [of n])
qed

lemma b128_groups_ndigits: "b128_groups (max 1 (ndigits n)) n = b128 n"
proof (cases "n = 0")
  case True
  then show ?thesis by (simp add: ndigits.simps [of 0] b128_def)
next
  case False
  then have "max 1 (ndigits n) = Suc (ndigits (n div 128))"
    by (simp add: ndigits.simps [of n])
  then show ?thesis
    by (simp only: b128_groups_eq more_groups_ndigits b128_def)
qed

lemma base128_len_eq: "base128_len v = ndigits (unat v)"
proof (induction v rule: base128_len.induct)
  case (1 v)
  have "unat (drop_bit 7 v) = unat v div 128"
    by (simp add: unat_drop_bit)
  moreover have "v > 0 \<longleftrightarrow> unat v \<noteq> 0"
    by (simp add: word_less_nat_alt)
  ultimately show ?case
    using 1 by (simp add: base128_len.simps [of v] ndigits.simps [of "unat v"])
qed

lemma base128_byte:
  "(let byte = ucast (drop_bit (7 * i) (v :: u64)) AND 0x7f in if i \<noteq> 0 then byte OR 0x80 else byte) =
     (of_nat ((if i = 0 then 0 else 128) + unat v div 128 ^ i mod 128) :: u8)"
proof -
  have p: "(2 :: nat) ^ (7 * i) = 128 ^ i" by (simp add: power_mult)
  have "unat (ucast (drop_bit (7 * i) v) :: u8) = unat v div 128 ^ i mod 256"
    by (simp add: unsigned_ucast_eq take_bit_eq_mod unat_drop_bit p)
  then have b: "unat (ucast (drop_bit (7 * i) v) AND 0x7f :: u8) = unat v div 128 ^ i mod 128"
    by (simp add: unat_u8_and_0x7f mod_mod_cancel)
  let ?b = "ucast (drop_bit (7 * i) v) AND 0x7f :: u8"
  have lt: "unat v div 128 ^ i mod 128 < 128" by simp
  have "?b OR 0x80 = of_nat (128 + unat v div 128 ^ i mod 128)"
  proof -
    have "0x80 OR ?b = push_bit 7 1 + ?b"
      using push_bit_or_eq_add [of ?b 7 1] b lt by simp
    then show ?thesis
      by (simp only: or.commute b [symmetric]) (simp add: of_nat_unat_word)
  qed
  moreover have "?b = of_nat (unat v div 128 ^ i mod 128)"
    using b by (metis of_nat_unat_word)
  ultimately show ?thesis by (simp add: Let_def)
qed

lemma on_success_unit [simp]: "on_success res (\<lambda>u. Pair (Some ())) = (res :: unit option \<times> 's)"
  by (simp add: on_success_def split: option.split prod.split)

lemma add_base128_loop_refines:
  assumes "heap_ok h" "cbb_rel c fs" "d < length fs"
  shows "refines c (add_base128_loop h d v (Suc i) c) (abs_write d (b128_groups (Suc i) (unat v)) fs)"
  using assms(2,3)
proof (induction i arbitrary: c fs)
  case 0
  have "add_base128_loop h d v 0 = Pair (Some ())"
    by (simp add: fun_eq_iff)
  then show ?case
    using 0 CBB_add_u8_refines [OF assms(1), of c fs d] base128_byte [of 0 v]
    by (simp add: Let_def)
next
  case (Suc i)
  let ?b = "of_nat (128 + unat v div 128 ^ Suc i mod 128) :: u8"
  have eq: "add_base128_loop h d v (Suc (Suc i)) c =
      on_success (CBB_add_u8 h c d ?b) (\<lambda>_ c'. add_base128_loop h d v (Suc i) c')"
    using base128_byte [of "Suc i" v]
    by (simp only: add_base128_loop.simps(2) [of h d v "Suc i"] Let_def nat.distinct if_True if_False simp_thms)
  have "refines c (on_success (CBB_add_u8 h c d ?b) (\<lambda>_ c'. add_base128_loop h d v (Suc i) c'))
      (abs_write d ([?b] @ b128_groups (Suc i) (unat v)) fs)"
    by (rule refines_write_seq [OF CBB_add_u8_refines [OF assms(1) Suc.prems] Suc.prems(2)])
      (use Suc.IH in auto)
  then show ?case
    by (simp only: eq b128_groups.simps(2) [of "Suc i"] append_Cons append_Nil nat.distinct if_False)
qed

lemma add_base128_integer_refines:
  assumes "heap_ok h" "cbb_rel c fs" "d < length fs"
  shows "refines c (add_base128_integer h c d v) (abs_write d (b128 (unat v)) fs)"
proof -
  have m: "max 1 (ndigits (unat v)) = Suc (max 1 (ndigits (unat v)) - 1)" by simp
  have "add_base128_integer h c d v = add_base128_loop h d v (max 1 (ndigits (unat v))) c"
    by (simp add: add_base128_integer_def base128_len_eq Let_def max_def)
  then show ?thesis
    using add_base128_loop_refines [OF assms, of v "max 1 (ndigits (unat v)) - 1"]
    by (simp only: m [symmetric] b128_groups_ndigits)
qed

section \<open>Opening a child\<close>

lemma on_success_assoc:
  "on_success (on_success r f) g = on_success r (\<lambda>x s. on_success (f x s) g)"
  by (simp add: on_success_def split: option.split prod.split)

lemma nodes_rel_Nil: "nodes_rel off ns [] \<longleftrightarrow> ns = []"
  by (cases ns) auto

lemma nodes_rel_append_topD:
  "nodes_rel off ns (append_top x fs) \<Longrightarrow> fs \<noteq> [] \<Longrightarrow> nodes_rel off ns fs"
proof (induction fs arbitrary: off ns)
  case (Cons f fs)
  obtain k c where f: "f = (k, c)" by fastforce
  show ?case
    using Cons by (cases ns; cases "fs = []") (auto simp: append_top_def f nodes_rel_Nil)
qed simp

lemma cbb_add_child_rel:
  assumes rel: "cbb_rel c (append_top (replicate (prefix_len k) 0) fs)" and fs: "fs \<noteq> []"
    and k: "0 < prefix_len k" "prefix_len k \<le> 8"
    and off: "off = length (frames_bytes fs)"
  shows "cbb_rel (cbb_add_child c off (prefix_len k) (k = Element)) (fs @ [(k, [])])"
proof -
  let ?fs = "append_top (replicate (prefix_len k) 0) fs"
  obtain b root fs' where b: "cbb_base c = Some b" "bb_ok b" "?fs = (Prefixed 0, root) # fs'"
    "bb_data b = frames_bytes ?fs" "nodes_rel (length root) (cbb_nodes c) fs'"
    using rel by (auto simp: cbb_rel_def)
  have data: "bb_data b = frames_bytes (fs @ [(k, [])])"
    using b(4) fs by (simp add: frames_bytes_append_top frame_bytes_def)
  obtain root0 fs0 where fs0: "fs = (Prefixed 0, root0) # fs0" "nodes_rel (length root0) (cbb_nodes c) fs0"
  proof (cases "tl fs = []")
    case True
    then have "fs = [(Prefixed 0, snd (hd fs))]"
      using b(3) fs by (cases fs) (auto simp: append_top_def)
    moreover have "cbb_nodes c = []"
      using b(3,5) True fs by (cases fs; cases "cbb_nodes c") (auto simp: append_top_def)
    ultimately show ?thesis using that [of "snd (hd fs)" "[]"] by simp
  next
    case False
    then have "fs = (Prefixed 0, root) # tl fs" "fs' = append_top (replicate (prefix_len k) 0) (tl fs)"
      using b(3) fs by (cases fs; auto simp: append_top_def)+
    then show ?thesis
      using that [of root "tl fs"] b(5) False nodes_rel_append_topD by blast
  qed
  have "off = length root0 + length (frames_bytes fs0)"
    by (simp add: off fs0 frame_bytes_def)
  then show ?thesis
    using b(1,2) data fs0 nodes_rel_snoc [OF fs0(2) k]
    by (simp add: cbb_rel_def cbb_add_child_def)
qed

lemma cbb_rel_base_len: "cbb_rel c fs \<Longrightarrow> base_len c = length (frames_bytes fs)"
  by (auto simp: cbb_rel_def base_len_def dest: length_bb_data)

lemma abs_open_Some: "abs_flush d fs = Some fs' \<Longrightarrow> abs_open d k fs = Some (fs' @ [(k, [])])"
  by (simp add: abs_open_def)

lemma refines_open:
  assumes "refines c res (Some (append_top (replicate (prefix_len k) 0) fs))" "fs \<noteq> []"
    "0 < prefix_len k" "prefix_len k \<le> 8" "off = length (frames_bytes fs)"
  shows "refines c (on_success res (\<lambda>_ c1. (Some (), cbb_add_child c1 off (prefix_len k) (k = Element))))
    (Some (fs @ [(k, [])]))"
proof (rule refines_bind [OF assms(1), where ?a2.0 = "\<lambda>_. Some (fs @ [(k, [])])"])
  fix u c1 fs1
  assume "Some (append_top (replicate (prefix_len k) 0) fs) = Some fs1" "cbb_rel c1 fs1"
  then have "cbb_rel (cbb_add_child c1 off (prefix_len k) (k = Element)) (fs @ [(k, [])])"
    using cbb_add_child_rel [OF _ assms(2-5)] by auto
  then show "refines c1 (Some (), cbb_add_child c1 off (prefix_len k) (k = Element)) (Some (fs @ [(k, [])]))"
    by (simp add: refines_def cbb_add_child_def cbb_cap_def cbb_resizes_def)
qed (auto simp: frames_bytes_append_top [OF assms(2)] length_frame_bytes)

lemma cbb_add_length_prefixed_refines:
  assumes "heap_ok h" "cbb_rel c fs" "d < length fs" "0 < n" "n \<le> 3"
  shows "refines c (cbb_add_length_prefixed h c d n) (abs_open d (Prefixed n) fs)"
proof -
  have eq: "cbb_add_length_prefixed h c d n = on_success (CBB_flush h c d) (\<lambda>_ c1.
      on_success (on_base c1 (\<lambda>b. bb_append h b (replicate n 0)))
        (\<lambda>_ c3. (Some (), cbb_add_child c3 (base_len c1) n False)))"
    unfolding cbb_add_length_prefixed_def Let_def on_success_assoc [symmetric] on_base_bind
    by (simp add: bb_append_def)
  show ?thesis
    unfolding eq
  proof (rule refines_bind [where ?a2.0 = "\<lambda>fs'. Some (fs' @ [(Prefixed n, [])])"])
    show "refines c (CBB_flush h c d) (abs_flush d fs)"
      by (rule CBB_flush_refines [OF assms(1-3)])
  next
    fix u c1 fs1
    assume r: "abs_flush d fs = Some fs1" "cbb_rel c1 fs1"
    have ne: "fs1 \<noteq> []" using r(1) by (rule abs_flush_Some_nonempty)
    have "refines c1 (on_base c1 (\<lambda>b. bb_append h b (replicate n 0))) (Some (append_top (replicate n 0) fs1))"
      by (rule on_base_append_refines [OF assms(1) r(2)]) (use assms(5) in simp)
    then show "refines c1 (on_success (on_base c1 (\<lambda>b. bb_append h b (replicate n 0)))
        (\<lambda>_ c3. (Some (), cbb_add_child c3 (base_len c1) n False))) (Some (fs1 @ [(Prefixed n, [])]))"
      using refines_open [of c1 _ "Prefixed n" fs1 "base_len c1"] ne assms(4,5) cbb_rel_base_len [OF r(2)] by simp
  qed (auto simp: abs_open_def)
qed

definition abs_open_asn1 :: "nat \<Rightarrow> u32 \<Rightarrow> frame list \<Rightarrow> frame list option" where
  "abs_open_asn1 d tag fs = map_option (\<lambda>fs'. fs' @ [(Element, [])]) (abs_write d (der_tag tag) fs)"

lemma tag_bits_word:
  "unat (ucast (drop_bit 24 (t :: u32)) AND 0xe0 :: u8) = unat t div 2 ^ 29 * 32"
proof -
  have "(0xe0 :: u8) = push_bit 5 (mask 3)"
    by (simp add: mask_eq_exp_minus_1)
  moreover have "ucast (drop_bit 24 t) AND push_bit 5 (mask 3) = (push_bit 5 (ucast (drop_bit 29 t)) :: u8)"
    by (rule bit_word_eqI) (auto simp: bit_simps)
  ultimately have "(ucast (drop_bit 24 t) AND 0xe0 :: u8) = push_bit 5 (ucast (drop_bit 29 t))"
    by (simp only:)
  moreover have "unat (ucast (drop_bit 29 t) :: u8) = unat t div 2 ^ 29"
    using unat_u32_tag [of t] by (simp add: unsigned_ucast_eq unat_drop_bit take_bit_nat_eq_self)
  ultimately show ?thesis
    using unat_push_bit_or [of 0 5 "ucast (drop_bit 29 t) :: u8"] unat_u32_tag [of t] by simp
qed

lemma tag_lead_byte:
  assumes "unat (n :: u8) < 32"
  shows "(ucast (drop_bit 24 (t :: u32)) AND 0xe0) OR n = (of_nat (unat t div 2 ^ 29 * 32 + unat n) :: u8)"
proof -
  let ?x = "ucast (drop_bit 24 t) AND 0xe0 :: u8"
  have x: "?x = push_bit 5 (of_nat (unat t div 2 ^ 29))"
  proof -
    have "unat (push_bit 5 (of_nat (unat t div 2 ^ 29)) :: u8) = unat t div 2 ^ 29 * 32"
      using unat_push_bit_or [of 0 5 "of_nat (unat t div 2 ^ 29) :: u8"] unat_u32_tag [of t]
      by (simp add: unat_of_nat_u8)
    then show ?thesis
      by (simp only: word_unat_eq_iff tag_bits_word)
  qed
  have "unat (?x OR n) = unat t div 2 ^ 29 * 32 + unat n"
    unfolding x using assms unat_u32_tag [of t] unat_push_bit_or [of n 5 "of_nat (unat t div 2 ^ 29) :: u8"]
    by (simp add: unat_of_nat_u8)
  then show ?thesis
    by (metis of_nat_unat_word)
qed

lemma tag_number_word: "unat (t AND CBS_ASN1_TAG_NUMBER_MASK) = unat (t :: u32) mod 2 ^ 29"
proof -
  have m: "CBS_ASN1_TAG_NUMBER_MASK = mask 29"
    by (simp add: CBS_ASN1_TAG_NUMBER_MASK_def CBS_ASN1_TAG_SHIFT_def mask_eq_exp_minus_1)
  show ?thesis unfolding m by (rule unat_and_mask)
qed

lemma abs_flush_eq_write: "abs_flush d fs = abs_write d [] fs"
  by (cases "abs_flush d fs") (auto simp: abs_write_def dest: abs_flush_Some_nonempty)

lemma CBB_flush_refines_write:
  assumes "heap_ok h" "cbb_rel c fs" "d < length fs"
  shows "refines c (CBB_flush h c d) (abs_write d [] fs)"
  using CBB_flush_refines [OF assms] by (simp only: abs_flush_eq_write)

text \<open>The identifier octets.\<close>

lemma asn1_tag_refines:
  fixes tag :: u32
  assumes h: "heap_ok h" and rel: "cbb_rel c fs" and d: "d < length fs"
  defines "tag_bits \<equiv> ucast (drop_bit CBS_ASN1_TAG_SHIFT tag) AND 0xe0 :: u8"
    and "tag_number \<equiv> tag AND CBS_ASN1_TAG_NUMBER_MASK"
  shows "refines c
    (if tag_number \<ge> 0x1f then
       on_success (CBB_add_u8 h c d (tag_bits OR 0x1f)) (\<lambda>_ c2. add_base128_integer h c2 d (ucast tag_number))
     else CBB_add_u8 h c d (tag_bits OR ucast tag_number))
    (abs_write d (der_tag tag) fs)"
proof -
  let ?n = "unat tag mod 2 ^ 29"
  have tb: "tag_bits = ucast (drop_bit 24 tag) AND 0xe0"
    by (simp add: tag_bits_def CBS_ASN1_TAG_SHIFT_def)
  have n: "unat tag_number = ?n"
    unfolding tag_number_def by (rule tag_number_word)
  have ge: "tag_number \<ge> 0x1f \<longleftrightarrow> \<not> ?n < 31"
    using n by (simp add: word_le_nat_alt not_less)
  show ?thesis
  proof (cases "?n < 31")
    case True
    have u: "unat (ucast tag_number :: u8) = ?n"
      using n True by (simp add: unsigned_ucast_eq take_bit_nat_eq_self)
    then have "tag_bits OR ucast tag_number = of_nat (unat tag div 2 ^ 29 * 32 + ?n)"
      using tag_lead_byte [of "ucast tag_number" tag] True by (simp only: tb)
    then have "der_tag tag = [tag_bits OR ucast tag_number]"
      using True by (simp only: der_tag_def Let_def if_True)
    then show ?thesis
      using CBB_add_u8_refines [OF h rel d] True ge by simp
  next
    case False
    have "tag_bits OR 0x1f = of_nat (unat tag div 2 ^ 29 * 32 + 31)"
      using tag_lead_byte [of "0x1f" tag] by (simp only: tb) simp
    moreover have "unat (ucast tag_number :: u64) = ?n"
    proof -
      have "?n < 2 ^ 64" by (rule order_less_trans [OF mod_less_divisor]) simp_all
      then show ?thesis
        using n by (simp add: unsigned_ucast_eq take_bit_nat_eq_self)
    qed
    ultimately have dt: "der_tag tag = [tag_bits OR 0x1f] @ b128 (unat (ucast tag_number :: u64))"
      using False by (simp only: der_tag_def Let_def if_False append_Cons append_Nil)
    have "refines c (on_success (CBB_add_u8 h c d (tag_bits OR 0x1f))
        (\<lambda>_ c2. add_base128_integer h c2 d (ucast tag_number)))
        (abs_write d ([tag_bits OR 0x1f] @ b128 (unat (ucast tag_number :: u64))) fs)"
      by (rule refines_write_seq [OF CBB_add_u8_refines [OF h rel d] d])
        (auto intro: add_base128_integer_refines [OF h])
    then show ?thesis
      using ge False by (simp only: dt if_True simp_thms)
  qed
qed

lemma CBB_add_asn1_refines:
  assumes h: "heap_ok h" and rel: "cbb_rel c fs" and d: "d < length fs"
  shows "refines c (CBB_add_asn1 h c d tag) (abs_open_asn1 d tag fs)"
proof -
  let ?hdr = "\<lambda>c1.
    if tag AND CBS_ASN1_TAG_NUMBER_MASK \<ge> 0x1f then
       on_success (CBB_add_u8 h c1 d ((ucast (drop_bit CBS_ASN1_TAG_SHIFT tag) AND 0xe0) OR 0x1f)) (\<lambda>_ c2.
         add_base128_integer h c2 d (ucast (tag AND CBS_ASN1_TAG_NUMBER_MASK)))
     else CBB_add_u8 h c1 d ((ucast (drop_bit CBS_ASN1_TAG_SHIFT tag) AND 0xe0) OR ucast (tag AND CBS_ASN1_TAG_NUMBER_MASK))"
  let ?open = "\<lambda>c3. on_success (CBB_add_u8 h c3 d 0) (\<lambda>_ c4. (Some (), cbb_add_child c4 (base_len c3) 1 True))"
  have eq: "CBB_add_asn1 h c d tag = on_success (on_success (CBB_flush h c d) (\<lambda>_. ?hdr)) (\<lambda>_. ?open)"
    by (simp only: CBB_add_asn1_def Let_def on_success_assoc)
  have hdr: "refines c (on_success (CBB_flush h c d) (\<lambda>_. ?hdr)) (abs_write d ([] @ der_tag tag) fs)"
    by (rule refines_write_seq [OF CBB_flush_refines_write [OF assms] d])
      (use asn1_tag_refines [OF h] in auto)
  show ?thesis
    unfolding eq
  proof (rule refines_bind [OF hdr, where ?a2.0 = "\<lambda>fs'. Some (fs' @ [(Element, [])])"])
    fix u c3 fs3
    assume a: "abs_write d ([] @ der_tag tag) fs = Some fs3" "cbb_rel c3 fs3"
    have l: "length fs3 = Suc d" using abs_write_length [OF a(1) d] .
    then have ne: "fs3 \<noteq> []" by auto
    have "refines c3 (CBB_add_u8 h c3 d 0) (Some (append_top [0] fs3))"
      using CBB_add_u8_refines [OF h a(2), of d 0] l by (simp add: abs_write_top)
    then show "refines c3 (?open c3) (Some (fs3 @ [(Element, [])]))"
      using refines_open [of c3 _ Element fs3 "base_len c3"] ne cbb_rel_base_len [OF a(2)] by simp
  qed (auto simp: abs_open_asn1_def)
qed

section \<open>Whole elements\<close>

text \<open>Open, write, flush the parent: the shape of the typed writers.\<close>

definition abs_element :: "nat \<Rightarrow> u32 \<Rightarrow> u8 list \<Rightarrow> frame list \<Rightarrow> frame list option" where
  "abs_element d tag body fs =
     (if length body \<le> 0xfffffffe then abs_write d (der_element tag body) fs else None)"

lemma element_refines:
  assumes h: "heap_ok h" and rel: "cbb_rel c fs" and d: "d < length fs"
    and body: "\<And>c1 fs1. cbb_rel c1 fs1 \<Longrightarrow> length fs1 = Suc (Suc d) \<Longrightarrow> refines c1 (g c1) (abs_write (Suc d) body fs1)"
  shows "refines c
    (on_success (CBB_add_asn1 h c d tag) (\<lambda>_ c1. on_success (g c1) (\<lambda>_ c2. CBB_flush h c2 d)))
    (abs_element d tag body fs)"
proof (rule refines_bind [OF CBB_add_asn1_refines [OF h rel d], where
      ?a2.0 = "\<lambda>fs1. Option.bind (abs_write (Suc d) body fs1) (abs_flush d)"])
  fix fs1 assume "abs_open_asn1 d tag fs = Some fs1"
  then obtain fs0 where fs0: "abs_write d (der_tag tag) fs = Some fs0" "fs1 = fs0 @ [(Element, [])]"
    by (auto simp: abs_open_asn1_def)
  have l: "length fs0 = Suc d" using abs_write_length [OF fs0(1) d] .
  then have ne: "fs0 \<noteq> []" by auto
  have "abs_write (Suc d) body fs1 = Some (fs0 @ [(Element, body)])"
    using l by (simp add: fs0(2) abs_write_top append_top_snoc)
  then have "Option.bind (abs_write (Suc d) body fs1) (abs_flush d) =
      (if length body \<le> 0xfffffffe then Some (append_top (der_length (length body) @ body) fs0) else None)"
    using l by (simp add: abs_flush_def)
  moreover have "abs_write d (der_element tag body) fs = Some (append_top (der_length (length body) @ body) fs0)"
    using abs_write_append [OF fs0(1) d, of "der_length (length body) @ body"] l
    by (simp add: abs_write_top der_element_def der_header_def)
  ultimately show "abs_element d tag body fs = Option.bind (abs_write (Suc d) body fs1) (abs_flush d)"
    by (simp add: abs_element_def)
next
  fix u c1 fs1
  assume a: "abs_open_asn1 d tag fs = Some fs1" "cbb_rel c1 fs1"
  have l: "length fs1 = Suc (Suc d)"
    using a(1) d by (auto simp: abs_open_asn1_def dest: abs_write_length)
  show "refines c1 (on_success (g c1) (\<lambda>_ c2. CBB_flush h c2 d)) (Option.bind (abs_write (Suc d) body fs1) (abs_flush d))"
  proof (rule refines_bind [OF body [OF a(2) l], where ?a2.0 = "abs_flush d"])
    fix v c2 fs2
    assume "abs_write (Suc d) body fs1 = Some fs2" "cbb_rel c2 fs2"
    then show "refines c2 (CBB_flush h c2 d) (abs_flush d fs2)"
      using l by (intro CBB_flush_refines [OF h]) (auto dest!: abs_write_length)
  qed (auto intro: abs_flush_longer)
next
  fix fs1 fs2
  assume a: "Option.bind (abs_write (Suc d) body fs1) (abs_flush d) = Some fs2"
  then obtain fs' where fs': "abs_write (Suc d) body fs1 = Some fs'" "abs_flush d fs' = Some fs2"
    by (auto simp: bind_eq_Some_conv)
  obtain fs3 where fs3: "abs_flush (Suc d) fs1 = Some fs3" "fs' = append_top body fs3"
    using fs'(1) by (auto simp: abs_write_def)
  show "length (frames_bytes fs1) \<le> length (frames_bytes fs2)"
    using abs_flush_longer [OF fs3(1)] abs_flush_longer [OF fs'(2)] abs_flush_Some_nonempty [OF fs3(1)]
    by (simp add: fs3(2) frames_bytes_append_top)
next
  assume "abs_open_asn1 d tag fs = None"
  then show "abs_element d tag body fs = None"
    by (auto simp: abs_open_asn1_def abs_element_def abs_write_def)
qed

lemma CBB_add_asn1_octet_string_refines:
  assumes "heap_ok h" "cbb_rel c fs" "d < length fs" "n < 2 ^ 63" "n \<le> length data"
  shows "refines c (CBB_add_asn1_octet_string h c d data n)
    (abs_element d CBS_ASN1_OCTETSTRING (take n data) fs)"
  unfolding CBB_add_asn1_octet_string_def
  by (rule element_refines [OF assms(1-3)]) (use CBB_add_bytes_refines [OF assms(1) _ _ assms(4,5)] in simp)

lemma CBB_add_asn1_bool_refines:
  assumes "heap_ok h" "cbb_rel c fs" "d < length fs"
  shows "refines c (CBB_add_asn1_bool h c d v)
    (abs_element d CBS_ASN1_BOOLEAN [if v \<noteq> 0 then 0xff else 0] fs)"
  unfolding CBB_add_asn1_bool_def
  by (rule element_refines [OF assms]) (use CBB_add_u8_refines [OF assms(1)] in auto)

section \<open>Integers\<close>

fun uint_tail :: "nat \<Rightarrow> bool \<Rightarrow> nat \<Rightarrow> u8 list" where
  "uint_tail 0 st n = []"
| "uint_tail (Suc i) st n =
     (let byte = n div 256 ^ i mod 256
      in if \<not> st \<and> byte = 0 then uint_tail i st n
         else (if \<not> st \<and> 128 \<le> byte then [0] else []) @ of_nat byte # uint_tail i True n)"

definition der_uint :: "nat \<Rightarrow> u8 list" where
  "der_uint n = (if n = 0 then [0] else uint_tail 8 False n)"

lemma be_bytes_top: "be_bytes (Suc i) n = of_nat (n div 256 ^ i mod 256) # be_bytes i n"
proof (induction i arbitrary: n)
  case 0
  then show ?case by (simp add: word_unat_eq_iff unat_of_nat_u8)
next
  case (Suc i)
  have "be_bytes (Suc (Suc i)) n = be_bytes (Suc i) (n div 256) @ [of_nat n]"
    by (rule be_bytes.simps(2))
  also have "\<dots> = of_nat (n div 256 div 256 ^ i mod 256) # be_bytes i (n div 256) @ [of_nat n]"
    by (simp only: Suc.IH append_Cons)
  also have "n div 256 div 256 ^ i = n div 256 ^ Suc i"
    by (simp add: div_mult2_eq)
  finally show ?case by (simp only: be_bytes.simps(2))
qed

lemma uint_tail_True: "uint_tail i True n = be_bytes i n"
  by (induction i) (simp_all only: uint_tail.simps be_bytes.simps(1) be_bytes_top Let_def simp_thms if_False append_Nil)

lemma der_int_ok_Cons:
  "r = [] \<or> 0 < unat b \<and> unat b < 255 \<or> unat b = 0 \<and> 128 \<le> unat (hd r) \<or> unat b = 255 \<and> unat (hd r) < 128
   \<Longrightarrow> der_int_ok (b # r)"
  by (cases r) auto

lemma uint_tail_False:
  "n < 256 ^ i \<Longrightarrow> n \<noteq> 0 \<Longrightarrow>
   der_int_ok (uint_tail i False n) \<and> twos_val (uint_tail i False n) = int n \<and> length (uint_tail i False n) \<le> Suc i"
proof (induction i)
  case (Suc i)
  let ?b = "n div 256 ^ i"
  have b: "?b < 256" using Suc.prems(1) by (simp add: less_mult_imp_div_less)
  show ?case
  proof (cases "?b = 0")
    case True
    then have "n < 256 ^ i" by (simp add: div_eq_0_iff)
    then show ?thesis using Suc True by (simp add: Let_def le_SucI)
  next
    case False
    have u: "unat (of_nat ?b :: u8) = ?b" using b by (rule unat_of_nat_u8_less)
    have v: "be_val (be_bytes i n) = n mod 256 ^ i" by (rule be_val_be_bytes)
    have n: "int ?b * 256 ^ i + int (n mod 256 ^ i) = int n"
    proof -
      have "int (?b * 256 ^ i + n mod 256 ^ i) = int n"
        by (simp only: div_mult_mod_eq)
      then show ?thesis
        by (simp only: of_nat_add of_nat_mult of_nat_power of_nat_numeral)
    qed
    show ?thesis
    proof (cases "128 \<le> ?b")
      case True
      have t: "uint_tail (Suc i) False n = 0 # of_nat ?b # be_bytes i n"
        using False True b by (simp add: Let_def uint_tail_True)
      show ?thesis
        using True n u v by (simp only: t twos_val_Cons be_val_Cons) simp
    next
      case low: False
      have t: "uint_tail (Suc i) False n = of_nat ?b # be_bytes i n"
        using False low b by (simp add: Let_def uint_tail_True)
      have "der_int_ok (of_nat ?b # be_bytes i n)"
        using False low u by (intro der_int_ok_Cons) simp
      moreover have "twos_val (of_nat ?b # be_bytes i n) = int n"
        using low n by (simp only: twos_val_Cons u v if_False length_be_bytes diff_0_right)
      ultimately show ?thesis unfolding t by simp
    qed
  qed
qed simp

lemma der_uint_ok:
  assumes "n < 2 ^ 64"
  shows "der_int_ok (der_uint n)" "twos_val (der_uint n) = int n" "length (der_uint n) \<le> 9"
  using uint_tail_False [of n 8] assms by (auto simp: der_uint_def twos_val_def)

lemma asn1_uint64_bytes_value:
  "asn1_uint64_bytes h d v i st c = (Some s, c') \<Longrightarrow> s = (st \<or> unat v mod 256 ^ i \<noteq> 0)"
proof (induction h d v i st c rule: asn1_uint64_bytes.induct)
  case (2 h d v i st c)
  let ?b = "ucast (drop_bit (8 * i) v) AND 0xff :: u8"
  have "(2 :: nat) ^ (8 * i) = 256 ^ i" by (simp add: power_mult)
  then have b: "unat ?b = unat v div 256 ^ i mod 256"
    using unat_and_mask [of "ucast (drop_bit (8 * i) v) :: u8" 8]
    by (simp add: unsigned_ucast_eq take_bit_eq_mod unat_drop_bit mask_eq_exp_minus_1)
  have m: "unat v mod 256 ^ Suc i = 256 ^ i * (unat v div 256 ^ i mod 256) + unat v mod 256 ^ i"
    by (simp only: power_Suc2 mod_mult2_eq)
  show ?case
  proof (cases "\<not> st \<and> ?b = 0")
    case True
    then have "unat v div 256 ^ i mod 256 = 0" using b by (simp add: word_unat_eq_iff)
    then show ?thesis
      using "2.IH"(1) [OF refl True] "2.prems" True m by (simp only: asn1_uint64_bytes.simps Let_def if_True) simp
  next
    case False
    have "s = (True \<or> unat v mod 256 ^ i \<noteq> 0)"
      using "2.IH"(2) [OF refl False] "2.prems" False
      by (simp only: asn1_uint64_bytes.simps Let_def if_False) (blast elim: on_success_SomeE)
    moreover have "st \<or> unat v mod 256 ^ Suc i \<noteq> 0"
    proof (cases st)
      case False
      with \<open>\<not> (\<not> st \<and> ?b = 0)\<close> have "unat v div 256 ^ i mod 256 \<noteq> 0" using b by (simp add: word_unat_eq_iff)
      then show ?thesis using m by simp
    qed simp
    ultimately show ?thesis by simp
  qed
qed simp

lemma asn1_uint64_bytes_refines:
  assumes h: "heap_ok h" and "cbb_rel c fs" "length fs = Suc d"
  shows "refines c (asn1_uint64_bytes h d v i st c) (abs_write d (uint_tail i st (unat v)) fs)"
  using assms(2,3)
proof (induction i arbitrary: st c fs)
  case 0
  then have "fs \<noteq> []" by auto
  with 0 show ?case by (simp add: abs_write_top refines_top)
next
  case (Suc i)
  let ?b = "ucast (drop_bit (8 * i) v) AND 0xff :: u8"
  have p: "(2 :: nat) ^ (8 * i) = 256 ^ i" by (simp add: power_mult)
  have ub: "unat ?b = unat v div 256 ^ i mod 256"
    using unat_and_mask [of "ucast (drop_bit (8 * i) v) :: u8" 8]
    by (simp add: unsigned_ucast_eq take_bit_eq_mod unat_drop_bit mask_eq_exp_minus_1 p)
  then have b: "?b = of_nat (unat v div 256 ^ i mod 256)"
    by (metis of_nat_unat_word)
  have z: "?b = 0 \<longleftrightarrow> unat v div 256 ^ i mod 256 = 0"
    using ub by (simp add: word_unat_eq_iff)
  have hi: "?b AND 0x80 \<noteq> 0 \<longleftrightarrow> 128 \<le> unat v div 256 ^ i mod 256"
    by (simp only: u8_and_0x80 ub not_less)
  have d: "d < length fs" using Suc.prems by simp
  show ?case
  proof (cases "\<not> st \<and> ?b = 0")
    case True
    then have "uint_tail (Suc i) st (unat v) = uint_tail i st (unat v)"
      using z by (simp add: Let_def)
    then show ?thesis
      using Suc.IH [OF Suc.prems] True by (simp only: asn1_uint64_bytes.simps Let_def if_True) simp
  next
    case False
    let ?pad = "if \<not> st \<and> ?b AND 0x80 \<noteq> 0 then [0] else [] :: u8 list"
    have t: "uint_tail (Suc i) st (unat v) = ?pad @ [?b] @ uint_tail i True (unat v)"
      using False z hi by (simp only: uint_tail.simps Let_def if_False b [symmetric]) simp
    have pad: "refines c (if \<not> st \<and> ?b AND 0x80 \<noteq> 0 then CBB_add_u8 h c d 0 else (Some (), c)) (abs_write d ?pad fs)"
    proof (cases "\<not> st \<and> ?b AND 0x80 \<noteq> 0")
      case True
      then show ?thesis using CBB_add_u8_refines [OF h Suc.prems(1) d, of 0] by simp
    next
      case nopad: False
      have "fs \<noteq> []" using d by auto
      then have "refines c (Some (), c) (abs_write d [] fs)"
        using Suc.prems by (simp add: abs_write_top refines_top)
      then show ?thesis by (simp only: nopad if_False)
    qed
    have "refines c (on_success (if \<not> st \<and> ?b AND 0x80 \<noteq> 0 then CBB_add_u8 h c d 0 else (Some (), c))
        (\<lambda>_ c1. on_success (CBB_add_u8 h c1 d ?b) (\<lambda>_ c2. asn1_uint64_bytes h d v i True c2)))
        (abs_write d (?pad @ [?b] @ uint_tail i True (unat v)) fs)"
    proof (rule refines_write_seq [OF pad d])
      fix u c1 fs1 assume r: "cbb_rel c1 fs1" "length fs1 = Suc d"
      then have d1: "d < length fs1" by simp
      show "refines c1 (on_success (CBB_add_u8 h c1 d ?b) (\<lambda>_ c2. asn1_uint64_bytes h d v i True c2))
          (abs_write d ([?b] @ uint_tail i True (unat v)) fs1)"
        by (rule refines_write_seq [OF CBB_add_u8_refines [OF h r(1) d1] d1]) (use Suc.IH in auto)
    qed
    then show ?thesis
      by (simp only: t asn1_uint64_bytes.simps Let_def False if_False)
  qed
qed

lemma CBB_add_asn1_uint64_refines:
  assumes h: "heap_ok h" and rel: "cbb_rel c fs" and d: "d < length fs"
  shows "refines c (CBB_add_asn1_uint64 h c d v) (abs_element d CBS_ASN1_INTEGER (der_uint (unat v)) fs)"
proof -
  let ?g = "\<lambda>c1. on_success (asn1_uint64_bytes h (Suc d) v 8 False c1) (\<lambda>started c2.
      if \<not> started then CBB_add_u8 h c2 (Suc d) 0 else (Some (), c2))"
  have eq: "CBB_add_asn1_uint64 h c d v = on_success (CBB_add_asn1 h c d CBS_ASN1_INTEGER)
      (\<lambda>_ c1. on_success (?g c1) (\<lambda>_ c2. CBB_flush h c2 d))"
    by (simp only: CBB_add_asn1_uint64_def on_success_assoc Suc_eq_plus1)
  show ?thesis
    unfolding eq
  proof (rule element_refines [OF assms])
    fix c1 fs1 assume r: "cbb_rel c1 fs1" "length fs1 = Suc (Suc d)"
    let ?tail = "if unat v = 0 then [0] else [] :: u8 list"
    have v: "unat v mod 256 ^ 8 = unat v"
      using unsigned_less [where ?'a = nat, of v] by simp
    have z: "uint_tail i False 0 = []" for i by (induction i) simp_all
    have "refines c1 (?g c1) (abs_write (Suc d) (uint_tail 8 False (unat v) @ ?tail) fs1)"
    proof (rule refines_write_seq [OF asn1_uint64_bytes_refines [OF h r]])
      fix s c2 fs2
      assume a: "asn1_uint64_bytes h (Suc d) v 8 False c1 = (Some s, c2)" "cbb_rel c2 fs2" "length fs2 = Suc (Suc d)"
      have s: "s = (unat v \<noteq> 0)"
        using asn1_uint64_bytes_value [OF a(1)] v by simp
      have ne: "fs2 \<noteq> []" using a(3) by auto
      show "refines c2 (if \<not> s then CBB_add_u8 h c2 (Suc d) 0 else (Some (), c2)) (abs_write (Suc d) ?tail fs2)"
      proof (cases "unat v = 0")
        case True
        then show ?thesis
          using CBB_add_u8_refines [OF h a(2), of "Suc d" 0] a(3) by (simp only: s) simp
      next
        case False
        then show ?thesis
          using a(2,3) ne by (simp only: s) (simp add: abs_write_top refines_top)
      qed
    qed (use r in simp)
    moreover have "uint_tail 8 False (unat v) @ ?tail = der_uint (unat v)"
      by (simp only: der_uint_def) (simp add: z)
    ultimately show "refines c1 (?g c1) (abs_write (Suc d) (der_uint (unat v)) fs1)"
      by simp
  qed
qed

text \<open>
  The contents of an INTEGER as X.690 has them, for any integer: one octet when it fits, otherwise
  the encoding of the quotient by 256 followed by the low octet. It is the only string of octets
  that is minimal and has the value.
\<close>

function der_int :: "int \<Rightarrow> u8 list" where
  "der_int z = (if - 128 \<le> z \<and> z < 128 then [of_int z] else der_int (z div 256) @ [of_int z])"
  by pat_completeness auto
termination
  by (relation "measure (\<lambda>z. nat \<bar>z\<bar>)") auto

declare der_int.simps [simp del]

lemma unat_of_int_u8: "int (unat (of_int z :: u8)) = z mod 256"
  by (simp add: unsigned_of_int take_bit_eq_mod)

lemma der_int_ne [simp]: "der_int z \<noteq> []"
  by (subst der_int.simps) simp

lemma twos_val_snoc: "bs \<noteq> [] \<Longrightarrow> twos_val (bs @ [b]) = twos_val bs * 256 + int (unat b)"
  by (simp add: twos_val_def be_val_snoc algebra_simps)

lemma der_int_ok_snoc: "der_int_ok bs \<Longrightarrow> (length bs = 1 \<longrightarrow> der_int_ok (bs @ [b])) \<Longrightarrow> der_int_ok (bs @ [b])"
  by (cases bs rule: der_int_ok.cases) auto

text \<open>A value that does not fit one octet has two that are not redundant.\<close>

lemma two_octets:
  assumes "int m = z mod 256" "z div 256 = int n - (if 128 \<le> n then 256 else 0)" "\<not> (- 128 \<le> z \<and> z < 128)"
  shows "\<not> (n = 0 \<and> m < 128) \<and> \<not> (n = 255 \<and> 128 \<le> m)"
proof -
  have "z = z div 256 * 256 + int m" unfolding assms(1) by simp
  moreover have "0 \<le> int m" "int m < 256" unfolding assms(1) by simp_all
  ultimately show ?thesis using assms(2,3) by (auto split: if_splits)
qed

lemma der_int_correct: "der_int_ok (der_int z) \<and> twos_val (der_int z) = z"
proof (induction z rule: der_int.induct)
  case (1 z)
  show ?case
  proof (cases "- 128 \<le> z \<and> z < 128")
    case True
    then have "z mod 256 = (if z < 0 then z + 256 else z)"
      using mod_pos_pos_trivial [of z 256] mod_pos_pos_trivial [of "z + 256" 256] by simp
    then have u: "int (unat (of_int z :: u8)) = (if z < 0 then z + 256 else z)"
      unfolding unat_of_int_u8 .
    have "128 \<le> n \<longleftrightarrow> z < 0" if "int n = (if z < 0 then z + 256 else z)" for n
      using that True by (auto split: if_splits)
    from this [OF u] have "twos_val [of_int z] = z"
      using u by (simp only: twos_val_def be_val_single list.sel list.size) auto
    then show ?thesis using True by (simp add: der_int.simps [of z])
  next
    case False
    let ?q = "der_int (z div 256)"
    have ih: "der_int_ok ?q" "twos_val ?q = z div 256" using 1 False by auto
    have "der_int_ok (?q @ [of_int z])" if one: "length ?q = 1"
    proof -
      obtain b where b: "?q = [b]" using one by (cases ?q) auto
      have q: "z div 256 = int (unat b) - (if 128 \<le> unat b then 256 else 0)"
        using ih(2) [symmetric] unfolding b twos_val_def be_val_single by (simp only: list.sel list.size list.distinct) simp
      show ?thesis
        using two_octets [OF unat_of_int_u8 q] False unfolding b by auto
    qed
    then have "der_int_ok (?q @ [of_int z])" by (intro der_int_ok_snoc [OF ih(1)]) blast
    moreover have "twos_val (?q @ [of_int z]) = z"
      unfolding twos_val_snoc [OF der_int_ne] ih(2) unat_of_int_u8 by (rule div_mult_mod_eq)
    moreover have "der_int z = ?q @ [of_int z]" using False by (subst der_int.simps) (simp only: if_False)
    ultimately show ?thesis by (simp only:)
  qed
qed

lemma twos_val_eqI:
  assumes "length xs = length ys" "xs \<noteq> []" "twos_val xs = twos_val ys"
  shows "xs = ys"
proof -
  have m: "twos_val zs mod 256 ^ length zs = int (be_val zs)" for zs
  proof -
    have "int (be_val zs) < 256 ^ length zs" using be_val_less [of zs] by (metis of_nat_less_iff of_nat_numeral of_nat_power)
    then have "int (be_val zs) mod 256 ^ length zs = int (be_val zs)" by simp
    then show ?thesis by (simp add: twos_val_def minus_mod_self2)
  qed
  have "be_val xs = be_val ys" using m [of xs] m [of ys] assms(1,3) by simp
  then show ?thesis using assms(1) be_val_inject by blast
qed

lemma der_int_unique:
  assumes "der_int_ok bs" "twos_val bs = z"
  shows "bs = der_int z"
proof (rule twos_val_eqI)
  have ne: "bs \<noteq> []" using assms(1) by auto
  then obtain i j where ij: "length bs = Suc i" "length (der_int z) = Suc j"
    by (metis der_int_ne length_greater_0_conv Suc_pred)
  note l1 = der_int_ok_length [OF assms(1)] and l2 = der_int_ok_length [OF conjunct1 [OF der_int_correct, of z]]
  have "i \<le> j" "j \<le> i"
    using l1 [of j] l2 [of j] l1 [of i] l2 [of i] ij assms(2) der_int_correct [of z] by auto
  then show "length bs = length (der_int z)" using ij by simp
  show "bs \<noteq> []" by (rule ne)
qed (use assms(2) der_int_correct in simp)

lemma der_uint_eq: "n < 2 ^ 64 \<Longrightarrow> der_uint n = der_int (int n)"
  using der_uint_ok [of n] by (intro der_int_unique) simp_all

text \<open>What the code leaves of the eight octets of a negative value.\<close>

definition int64_bytes :: "u64 \<Rightarrow> u8 list" where
  "int64_bytes v = rev (take (int64_start (le_bytes 8 (unat v)) 7 + 1) (le_bytes 8 (unat v)))"

lemma twos_val_strip: "128 \<le> unat b \<Longrightarrow> twos_val (0xff # b # r) = twos_val (b # r)"
proof -
  assume b: "128 \<le> unat b"
  have "unat (0xff :: u8) = 255" by simp
  then show ?thesis
    using b by (simp only: twos_val_Cons) (simp add: be_val_Cons algebra_simps)
qed

lemma int64_start_minimal:
  assumes "s < length bs" "128 \<le> unat (bs ! s)"
  shows "der_int_ok (rev (take (int64_start bs s + 1) bs)) \<and>
     twos_val (rev (take (int64_start bs s + 1) bs)) = twos_val (rev (take (s + 1) bs)) \<and>
     int64_start bs s \<le> s"
  using assms
proof (induction s)
  case 0
  then show ?case by (cases bs) auto
next
  case (Suc s)
  have tk: "rev (take (Suc s + 1) bs) = bs ! Suc s # rev (take (s + 1) bs)"
    using Suc.prems(1) by (simp add: take_Suc_conv_app_nth)
  have tk': "rev (take (s + 1) bs) = bs ! s # rev (take s bs)"
    using Suc.prems(1) by (simp add: take_Suc_conv_app_nth)
  show ?case
  proof (cases "bs ! Suc s = 0xff \<and> bs ! s AND 0x80 \<noteq> 0")
    case True
    then have b: "bs ! Suc s = 0xff" "128 \<le> unat (bs ! s)"
      by (auto simp: u8_and_0x80)
    have "twos_val (rev (take (Suc s + 1) bs)) = twos_val (rev (take (s + 1) bs))"
      unfolding tk unfolding tk' b(1) by (rule twos_val_strip [OF b(2)])
    moreover have "int64_start bs (Suc s) = int64_start bs s" using True by simp
    ultimately show ?thesis
      using Suc b(2) by simp
  next
    case False
    then have st: "int64_start bs (Suc s) = Suc s" by auto
    have "unat (bs ! Suc s) = 255 \<longleftrightarrow> bs ! Suc s = 0xff"
      by (simp add: word_unat_eq_iff)
    then have "der_int_ok (bs ! Suc s # bs ! s # rev (take s bs))"
      using False Suc.prems(2) by (auto simp: u8_and_0x80)
    then show ?thesis
      unfolding st tk unfolding tk' by simp
  qed
qed

lemma sint_neg_be_bytes:
  fixes v :: u64
  assumes "sint v < 0"
  shows "128 \<le> unat (be_bytes 8 (unat v) ! 0)" "twos_val (be_bytes 8 (unat v)) = sint v"
proof -
  have v: "unat v < 2 ^ 64" using unsigned_less [where ?'a = nat, of v] by simp
  have s: "sint v = int (unat v) - (if unat v < 2 ^ 63 then 0 else 2 ^ 64)"
    using sint_of_nat_u64 [OF v] by (simp only: of_nat_unat_word)
  with assms have big: "2 ^ 63 \<le> unat v" by (simp split: if_splits)
  have top: "be_bytes 8 (unat v) = of_nat (unat v div 256 ^ 7) # be_bytes 7 (unat v)"
  proof -
    have "unat v div 256 ^ 7 mod 256 = unat v div 256 ^ 7"
      using v by (simp add: less_mult_imp_div_less)
    then show ?thesis using be_bytes_top [of 7 "unat v"] by simp
  qed
  have "128 \<le> unat v div 256 ^ 7"
    using big by (simp add: less_eq_div_iff_mult_less_eq)
  moreover have u: "unat (of_nat (unat v div 256 ^ 7) :: u8) = unat v div 256 ^ 7"
    using v by (intro unat_of_nat_u8_less) (simp add: less_mult_imp_div_less)
  ultimately show hi: "128 \<le> unat (be_bytes 8 (unat v) ! 0)"
    by (simp only: top nth_Cons_0)
  have "be_bytes 8 (unat v) \<noteq> []" by (simp add: top)
  then have "twos_val (be_bytes 8 (unat v)) = int (unat v) - 2 ^ 64"
    using hi v by (simp add: twos_val_def hd_conv_nth be_val_be_bytes)
  with s big show "twos_val (be_bytes 8 (unat v)) = sint v" by simp
qed

lemma int64_bytes_eq:
  assumes "sint v < 0"
  shows "int64_bytes v = der_int (sint v)"
proof -
  let ?bs = "le_bytes 8 (unat v)"
  have "?bs ! 7 = be_bytes 8 (unat v) ! 0"
    unfolding le_bytes_def by (subst rev_nth) simp_all
  then have "128 \<le> unat (?bs ! 7)" using sint_neg_be_bytes(1) [OF assms] by (simp only:)
  then have m: "der_int_ok (int64_bytes v)" "twos_val (int64_bytes v) = twos_val (rev (take (7 + 1) ?bs))"
    using int64_start_minimal [of 7 ?bs] by (simp_all add: int64_bytes_def)
  have "rev (take (7 + 1) ?bs) = be_bytes 8 (unat v)"
    by (simp add: le_bytes_def)
  then show ?thesis
    using m sint_neg_be_bytes(2) [OF assms] by (intro der_int_unique) (simp_all only:)
qed

lemma length_der_int:
  assumes "- (2 ^ 63) \<le> z" "z < 2 ^ 64"
  shows "length (der_int z) \<le> 9"
  using der_int_ok_length [of "der_int z" 8] der_int_correct [of z] assms by simp

lemma length_der_int_sint: "length (der_int (sint (v :: u64))) \<le> 9"
  by (rule length_der_int) (use sint_greater_eq [of v] sint_less [of v] in simp_all)

lemma add_bytes_down_refines:
  assumes h: "heap_ok h" and "cbb_rel c fs" "length fs = Suc d" "n \<le> length bs"
  shows "refines c (add_bytes_down h d bs n c) (abs_write d (rev (take n bs)) fs)"
  using assms(2-)
proof (induction n arbitrary: c fs)
  case 0
  then have "fs \<noteq> []" by auto
  with 0 show ?case by (simp add: abs_write_top refines_top)
next
  case (Suc n)
  have d: "d < length fs" using Suc.prems by simp
  have t: "rev (take (Suc n) bs) = [bs ! n] @ rev (take n bs)"
    using Suc.prems by (simp add: take_Suc_conv_app_nth)
  show ?case
    unfolding t add_bytes_down.simps
    by (rule refines_write_seq [OF CBB_add_u8_refines [OF h Suc.prems(1) d] d]) (use Suc in auto)
qed

lemma CBB_add_asn1_uint64_writes:
  assumes "heap_ok h" "cbb_rel c fs" "d < length fs"
  shows "refines c (CBB_add_asn1_uint64 h c d v) (abs_element d CBS_ASN1_INTEGER (der_int (uint v)) fs)"
proof -
  have "der_uint (unat v) = der_int (uint v)"
    using der_uint_eq [of "unat v"] unsigned_less [where ?'a = nat, of v] by simp
  then show ?thesis using CBB_add_asn1_uint64_refines [OF assms, of v] by (simp only:)
qed

lemma CBB_add_asn1_int64_refines:
  assumes h: "heap_ok h" and rel: "cbb_rel c fs" and d: "d < length fs"
  shows "refines c (CBB_add_asn1_int64 h c d v) (abs_element d CBS_ASN1_INTEGER (der_int (sint v)) fs)"
proof (cases "sint v \<ge> 0")
  case True
  have v: "unat v < 2 ^ 64" using unsigned_less [where ?'a = nat, of v] by simp
  have "sint v = int (unat v) - (if unat v < 2 ^ 63 then 0 else 2 ^ 64)"
    using sint_of_nat_u64 [OF v] by (simp only: of_nat_unat_word)
  moreover have "int (unat v) < 2 ^ 64" using v by (simp only: of_nat_less_numeral_power_cancel_iff)
  ultimately have "sint v = uint v" using True by (simp split: if_splits)
  then show ?thesis
    using CBB_add_asn1_uint64_writes [OF assms, of v] True by (simp only: CBB_add_asn1_int64_def if_True)
next
  case False
  let ?bs = "le_bytes 8 (unat v)"
  have le: "int64_start ?bs 7 + 1 \<le> length ?bs"
  proof -
    have "int64_start bs s \<le> s" for bs s by (induction s) auto
    from this [of ?bs 7] show ?thesis by simp
  qed
  have "refines c (on_success (CBB_add_asn1 h c d CBS_ASN1_INTEGER) (\<lambda>_ c1.
        on_success (add_bytes_down h (Suc d) ?bs (int64_start ?bs 7 + 1) c1) (\<lambda>_ c2. CBB_flush h c2 d)))
      (abs_element d CBS_ASN1_INTEGER (int64_bytes v) fs)"
    by (rule element_refines [OF assms])
      (use add_bytes_down_refines [OF h _ _ le] in \<open>simp add: int64_bytes_def\<close>)
  moreover have "int64_bytes v = der_int (sint v)" using False by (intro int64_bytes_eq) simp
  ultimately show ?thesis
    using False by (simp only: CBB_add_asn1_int64_def if_False Let_def Suc_eq_plus1)
qed

section \<open>Space, reservations and discarding\<close>

text \<open>
  \<open>CBB_add_space\<close> appends \<open>n\<close> bytes that the caller fills in afterwards, so they are any bytes.
\<close>

lemma on_base_add_space:
  assumes h: "heap_ok h" and rel: "cbb_rel c fs" and n: "n < 2 ^ 63"
  shows "\<exists>x. length x = n \<and> refines c (on_base c (\<lambda>b. cbb_buffer_add h b n)) (Some (append_top x fs))"
proof -
  obtain b root fs' where b: "cbb_base c = Some b" "bb_ok b" "fs = (Prefixed 0, root) # fs'"
    "bb_data b = frames_bytes fs" "nodes_rel (length root) (cbb_nodes c) fs'"
    using rel by (auto simp: cbb_rel_def)
  obtain r b' where add: "cbb_buffer_add h b n = (r, b')" by fastforce
  have eq: "on_base c (\<lambda>b. cbb_buffer_add h b n) = (r, c\<lparr>cbb_base := Some b'\<rparr>)"
    by (simp add: on_base_def b(1) add)
  have ne: "fs \<noteq> []" using b(3) by blast
  from cbb_buffer_add_spec [OF h b(2) n add] show ?thesis
  proof (elim disjE conjE)
    assume e: "r = None" "bb_error b'" "bb_cap b < bb_len b + n"
    then have "bb_cap b < length (frames_bytes (append_top (replicate n 0) fs))"
      using b(4) length_bb_data [OF b(2)] by (simp add: frames_bytes_append_top [OF ne])
    with e show ?thesis
      by (intro exI [of _ "replicate n 0"]) (simp add: refines_def eq cbb_dead_def cbb_cap_def b(1))
  next
    assume a: "r = Some (bb_len b)" "bb_ok b'" "bb_len b' = bb_len b + n" "take (bb_len b) (bb_data b') = bb_data b"
      "bb_cap b \<le> bb_cap b'" "bb_can_resize b' = bb_can_resize b"
    define x where "x = drop (bb_len b) (bb_data b')"
    have x: "bb_data b' = bb_data b @ x" "length x = n"
      using a(4) a(3) length_bb_data [OF a(2)] by (simp_all add: x_def) (metis append_take_drop_id)
    have "fs' \<noteq> [] \<or> cbb_nodes c = []"
      using nodes_rel_length [OF b(5)] by auto
    then have "cbb_rel (c\<lparr>cbb_base := Some b'\<rparr>) (append_top x fs)"
      using a(2) b x(1) by (intro cbb_rel_append_top [of _ b' fs root fs' "cbb_nodes c" x]) simp_all
    with a x(2) show ?thesis
      by (intro exI [of _ x]) (simp add: refines_def eq cbb_cap_def cbb_resizes_def b(1))
  qed
qed

lemma CBB_add_space_refines:
  assumes "heap_ok h" "cbb_rel c fs" "d < length fs" "n < 2 ^ 63"
  shows "\<exists>x. length x = n \<and> refines c (CBB_add_space h c d n) (abs_write d x fs)"
proof -
  note fl = CBB_flush_refines [OF assms(1-3)]
  obtain r c1 where c1: "CBB_flush h c d = (r, c1)" by fastforce
  have bind: "refines c (CBB_add_space h c d n) (abs_write d x fs)"
    if "\<And>fs1. r \<noteq> None \<Longrightarrow> abs_flush d fs = Some fs1 \<Longrightarrow> cbb_rel c1 fs1 \<Longrightarrow>
        refines c1 (on_base c1 (\<lambda>b. cbb_buffer_add h b n)) (Some (append_top x fs1))" for x
    unfolding CBB_add_space_def
  proof (rule refines_bind [OF fl, where ?a2.0 = "\<lambda>fs'. Some (append_top x fs')"])
    fix u c2 fs1
    assume "CBB_flush h c d = (Some u, c2)" "abs_flush d fs = Some fs1" "cbb_rel c2 fs1"
    then show "refines c2 (on_base c2 (\<lambda>b. cbb_buffer_add h b n)) (Some (append_top x fs1))"
      using that c1 by simp
  qed (auto simp: abs_write_def dest: abs_flush_Some_nonempty append_top_longer [of _ x])
  show ?thesis
  proof (cases r)
    case None
    then have "refines c (CBB_add_space h c d n) (abs_write d (replicate n 0) fs)" by (intro bind) simp
    then show ?thesis by (intro exI [of _ "replicate n 0"]) simp
  next
    case (Some u)
    then obtain fs1 where fs1: "abs_flush d fs = Some fs1" "cbb_rel c1 fs1"
      using fl c1 by (auto simp: refines_def)
    obtain x where "length x = n" "refines c1 (on_base c1 (\<lambda>b. cbb_buffer_add h b n)) (Some (append_top x fs1))"
      using on_base_add_space [OF assms(1) fs1(2) assms(4)] by blast
    then show ?thesis using bind fs1(1) by fastforce
  qed
qed

text \<open>
  \<open>CBB_reserve\<close> flushes and makes room behind the contents, which it leaves as they are. A later
  \<open>CBB_did_write\<close> appends what the caller stored there, as far as it stays inside the capacity.
\<close>

lemma CBB_reserve_spec:
  assumes h: "heap_ok h" and rel: "cbb_rel c fs" and d: "d < length fs" and n: "n < 2 ^ 63"
  shows "case CBB_reserve h c d n of
      (None, c') \<Rightarrow> cbb_dead c' \<and> (\<forall>fs'. abs_flush d fs = Some fs' \<longrightarrow> cbb_cap c < length (frames_bytes fs') + n)
    | (Some out, c') \<Rightarrow> \<exists>fs'. abs_flush d fs = Some fs' \<and> cbb_rel c' fs' \<and> out = length (frames_bytes fs') \<and>
        out + n \<le> cbb_cap c'"
proof -
  have fl: "refines c (CBB_flush h c d) (abs_flush d fs)" by (rule CBB_flush_refines [OF h rel d])
  obtain r c1 where c1: "CBB_flush h c d = (r, c1)" by fastforce
  show ?thesis
  proof (cases r)
    case None
    then have "CBB_reserve h c d n = (None, c1)" by (simp add: CBB_reserve_def c1)
    then show ?thesis using fl c1 None by (force simp: refines_def)
  next
    case (Some u)
    then obtain fs1 where fs1: "abs_flush d fs = Some fs1" "cbb_rel c1 fs1" "cbb_cap c \<le> cbb_cap c1"
      using fl c1 by (auto simp: refines_def)
    obtain b root fs' where b: "cbb_base c1 = Some b" "bb_ok b" "fs1 = (Prefixed 0, root) # fs'"
      "bb_data b = frames_bytes fs1" "nodes_rel (length root) (cbb_nodes c1) fs'"
      using fs1(2) by (auto simp: cbb_rel_def)
    have len: "bb_len b = length (frames_bytes fs1)" using b(4) length_bb_data [OF b(2)] by simp
    obtain o1 b' where res: "cbb_buffer_reserve h b n = (o1, b')" by fastforce
    have eq: "CBB_reserve h c d n = (o1, c1\<lparr>cbb_base := Some b'\<rparr>)"
      by (simp add: CBB_reserve_def c1 Some on_base_def b(1) res)
    note spec = cbb_buffer_reserve_spec [OF h b(2) n, unfolded res reserved_def prod.case]
    show ?thesis
    proof (cases o1)
      case None
      then show ?thesis
        using spec fs1 len by (auto simp: eq cbb_dead_def cbb_cap_def b(1))
    next
      case (Some off)
      then have "cbb_rel (c1\<lparr>cbb_base := Some b'\<rparr>) fs1"
        using spec b by (simp add: cbb_rel_def)
      then show ?thesis
        using spec Some fs1(1) len by (simp add: eq cbb_cap_def)
    qed
  qed
qed

lemma CBB_did_write_spec:
  assumes rel: "cbb_rel c fs" and d: "length fs = Suc d" and n: "n < 2 ^ 63" and b: "cbb_base c = Some b"
  shows "CBB_did_write c d n =
      (if bb_len b + n \<le> bb_cap b then (Some (), c\<lparr>cbb_base := Some (b\<lparr>bb_len := bb_len b + n\<rparr>)\<rparr>) else (None, c))"
    "bb_len b + n \<le> bb_cap b \<Longrightarrow>
      cbb_rel (snd (CBB_did_write c d n)) (append_top (take n (drop (bb_len b) (bb_bytes b))) fs)"
proof -
  obtain root fs' where r: "bb_ok b" "fs = (Prefixed 0, root) # fs'"
    "bb_data b = frames_bytes fs" "nodes_rel (length root) (cbb_nodes c) fs'"
    using rel b by (auto simp: cbb_rel_def)
  have nodes: "length (cbb_nodes c) = d" using nodes_rel_length [OF r(4)] d r(2) by simp
  have "bb_len b + n < SIZE_MOD" using r(1) n by (simp add: bb_ok_def)
  then show eq: "CBB_did_write c d n =
      (if bb_len b + n \<le> bb_cap b then (Some (), c\<lparr>cbb_base := Some (b\<lparr>bb_len := bb_len b + n\<rparr>)\<rparr>) else (None, c))"
    using b nodes by (cases c) (auto simp: CBB_did_write_def on_base_def Let_def size_wrap_def)
  show "cbb_rel (snd (CBB_did_write c d n)) (append_top (take n (drop (bb_len b) (bb_bytes b))) fs)"
    if fits: "bb_len b + n \<le> bb_cap b"
  proof -
    have "bb_data (b\<lparr>bb_len := bb_len b + n\<rparr>) = bb_data b @ take n (drop (bb_len b) (bb_bytes b))"
      by (simp add: bb_data_def take_add)
    moreover have "bb_ok (b\<lparr>bb_len := bb_len b + n\<rparr>)" using r(1) fits by (simp add: bb_ok_def)
    moreover have "fs' \<noteq> [] \<or> cbb_nodes c = []" using nodes_rel_length [OF r(4)] by auto
    ultimately show ?thesis
      unfolding eq using fits b r
      by (intro cbb_rel_append_top [of _ "b\<lparr>bb_len := bb_len b + n\<rparr>" fs root fs' "cbb_nodes c"]) simp_all
  qed
qed

lemma CBB_did_write_pending: "d < length (cbb_nodes c) \<Longrightarrow> CBB_did_write c d n = (None, c)"
  by (cases c) (simp add: CBB_did_write_def on_base_def Let_def split: option.splits)

text \<open>Discarding the child of a \<open>CBB\<close> drops all frames above its own.\<close>

lemma CBB_discard_child_rel:
  assumes rel: "cbb_rel c fs" and d: "d < length fs"
  shows "cbb_rel (CBB_discard_child c d) (take (Suc d) fs)"
proof -
  obtain b root fs' where b: "cbb_base c = Some b" "bb_ok b" "fs = (Prefixed 0, root) # fs'"
    "bb_data b = frames_bytes fs" "nodes_rel (length root) (cbb_nodes c) fs'"
    using rel by (auto simp: cbb_rel_def)
  have nodes: "length (cbb_nodes c) = length fs'" using nodes_rel_length [OF b(5)] .
  show ?thesis
  proof (cases "length (cbb_nodes c) \<le> d")
    case True
    then show ?thesis using rel nodes b(3) by (simp add: CBB_discard_child_def)
  next
    case False
    define x where "x = frames_bytes (take d fs')"
    have dd: "d < length (cbb_nodes c)" "d < length fs'" using False nodes by simp_all
    have "nodes_rel (length root + length x) (drop d (cbb_nodes c)) (drop d fs')"
      unfolding x_def by (rule nodes_rel_drop [OF b(5)])
    then have off: "offset (cbb_nodes c ! d) = length root + length x"
      using dd by (cases "fs' ! d") (simp add: Cons_nth_drop_Suc [symmetric])
    have all: "bb_data b = root @ x @ frames_bytes (drop d fs')"
      using frames_bytes_simps(3) [of "take d fs'" "drop d fs'"] by (simp add: b(3,4) x_def frame_bytes_def)
    then have len: "length root + length x \<le> bb_len b" using length_bb_data [OF b(2)] by simp
    let ?b = "b\<lparr>bb_len := length root + length x\<rparr>"
    have "take (length root + length x) (bb_data b) = root @ x" by (simp add: all)
    then have "bb_data ?b = root @ x" using len by (simp add: bb_data_def min_absorb1)
    moreover have "bb_ok ?b" using b(2) len by (simp add: bb_ok_def)
    ultimately show ?thesis
      using b(1,3) dd nodes_rel_take [OF b(5), of d] off
      by (simp add: CBB_discard_child_def cbb_rel_def x_def frame_bytes_def)
  qed
qed

section \<open>Starting and finishing\<close>

lemma malloc_block:
  assumes "heap_ok h" "OPENSSL_malloc h n = Some p" "n + 8 < SIZE_MOD"
  shows "length p = n" "n + 8 < 2 ^ 63"
proof -
  show "length p = n" using assms(2,3) OPENSSL_malloc_length by blast
  have "grants h (n + 8)"
    using assms(2,3) by (auto simp: OPENSSL_malloc_def OPENSSL_MALLOC_PREFIX_def Let_def split: if_splits)
  then show "n + 8 < 2 ^ 63" using assms(1) by (simp add: heap_ok_def)
qed

lemma cbb_init_rel:
  assumes "cbb_init h buf cap = (Some (), c)" "cap \<le> length (case buf of None \<Rightarrow> [] | Some p \<Rightarrow> p)"
    "cap + 8 \<le> 2 ^ 63"
  shows "cbb_rel c [(Prefixed 0, [])]" "cbb_cap c = cap"
proof -
  have "cbb_base c = Some \<lparr>bb_buf = buf, bb_len = 0, bb_cap = cap, bb_can_resize = True, bb_error = False\<rparr>"
    "cbb_nodes c = []"
    using assms(1) by (auto simp: cbb_init_def CBB_zero_def split: option.splits)
  then show "cbb_rel c [(Prefixed 0, [])]" "cbb_cap c = cap"
    using assms(2,3) by (simp_all add: cbb_rel_def bb_ok_def bb_bytes_def bb_data_def frame_bytes_def cbb_cap_def)
qed

lemma CBB_init_rel:
  assumes "heap_ok h" "CBB_init h cap = (Some (), c)" "cap + 8 < SIZE_MOD"
  shows "cbb_rel c [(Prefixed 0, [])] \<and> cbb_cap c = cap"
proof (cases "OPENSSL_malloc h cap")
  case None
  then have z: "cap = 0" and i: "cbb_init h None 0 = (Some (), c)"
    using assms(2) by (auto simp: CBB_init_def Let_def split: if_splits)
  have "cbb_rel c [(Prefixed 0, [])]" "cbb_cap c = 0"
    by (rule cbb_init_rel [OF i]; simp)+
  then show ?thesis by (simp add: z)
next
  case (Some p)
  have l: "length p = cap" "cap + 8 < 2 ^ 63"
    using malloc_block [OF assms(1) Some assms(3)] .
  have i: "cbb_init h (Some p) cap = (Some (), c)"
    using assms(2) Some by (simp add: CBB_init_def)
  have "cbb_rel c [(Prefixed 0, [])]" "cbb_cap c = cap"
    by (rule cbb_init_rel [OF i]; use l in simp)+
  then show ?thesis by simp
qed

lemma CBB_init_fixed_rel:
  assumes "CBB_init_fixed h buf cap = (Some (), c)" "cap \<le> length buf" "cap + 8 \<le> 2 ^ 63"
  shows "cbb_rel c [(Prefixed 0, [])] \<and> cbb_cap c = cap \<and> \<not> cbb_resizes c"
proof -
  have "cbb_base c = Some \<lparr>bb_buf = Some buf, bb_len = 0, bb_cap = cap, bb_can_resize = False, bb_error = False\<rparr>"
    "cbb_nodes c = []"
    using assms(1) by (auto simp: CBB_init_fixed_def cbb_init_def CBB_zero_def split: option.splits)
  then show ?thesis
    using assms(2,3) by (simp add: cbb_rel_def bb_ok_def bb_bytes_def bb_data_def frame_bytes_def cbb_cap_def cbb_resizes_def)
qed

text \<open>
  What \<open>CBB_finish\<close> hands out: the closed contents of all frames, in a block at least that long.
\<close>

definition finished :: "frame list \<Rightarrow> u8 list option" where
  "finished fs = map_option (\<lambda>fs'. snd (hd fs')) (abs_flush 0 fs)"

lemma CBB_finish_spec:
  assumes "heap_ok h" "cbb_rel c fs"
  shows "case CBB_finish h c 0 True True of
     (None, c') \<Rightarrow> (\<forall>x. finished fs = Some x \<longrightarrow> cbb_cap c < length x)
   | (Some (buf, n), c') \<Rightarrow> cbb_base c' = None \<and> n \<le> length (case buf of None \<Rightarrow> [] | Some p \<Rightarrow> p) \<and>
       finished fs = Some (take n (case buf of None \<Rightarrow> [] | Some p \<Rightarrow> p))"
proof -
  obtain r c1 where fl: "CBB_flush h c 0 = (r, c1)" by fastforce
  have len: "0 < length fs" using assms(2) by (auto simp: cbb_rel_def)
  have ref: "refines c (r, c1) (abs_flush 0 fs)"
    using CBB_flush_refines [OF assms len] by (simp only: fl)
  show ?thesis
  proof (cases r)
    case None
    have "cbb_cap c < length x" if fin: "finished fs = Some x" for x
    proof -
      obtain fs' where fs': "abs_flush 0 fs = Some fs'" "x = snd (hd fs')"
        using fin by (auto simp: finished_def)
      have "length fs' = 1" using abs_flush_length [OF fs'(1) len] by simp
      then obtain k y where fs'eq: "fs' = [(k, y)]" by (cases fs') auto
      moreover have "k = Prefixed 0"
        using fs'(1) assms(2) fs'eq by (auto simp: abs_flush_def cbb_rel_def append_top_def)
      ultimately show ?thesis
        using ref None fs' by (simp add: refines_def frame_bytes_def)
    qed
    then show ?thesis by (simp add: CBB_finish_def fl None)
  next
    case (Some u)
    then obtain fs' where fs': "abs_flush 0 fs = Some fs'" "cbb_rel c1 fs'"
      using ref by (auto simp: refines_def)
    have "length fs' = 1" using abs_flush_length [OF fs'(1) len] by simp
    then obtain b root where b: "cbb_base c1 = Some b" "bb_ok b" "fs' = [(Prefixed 0, root)]" "bb_data b = frames_bytes fs'"
      using fs'(2) by (auto simp: cbb_rel_def)
    have "bb_data b = root" using b(3,4) by (simp add: frame_bytes_def)
    moreover have "finished fs = Some root" by (simp add: finished_def fs'(1) b(3))
    ultimately show ?thesis
      using b(1,2) by (simp add: CBB_finish_def fl Some bb_ok_def bb_data_def bb_bytes_def CBB_cleanup_def)
  qed
qed

text \<open>\<open>CBB_finish_i2d\<close> with a null \<open>*outp\<close> hands out the same contents, or -1.\<close>

lemma CBB_finish_i2d_spec:
  assumes "heap_ok h" "cbb_rel c fs" "CBB_finish_i2d h c 0 (Some None) = (n, outp, c')"
  shows "n = - 1 \<and> outp = Some None \<or>
    (\<exists>der x. finished fs = Some x \<and> length x \<le> INT_MAX \<and> n = int (length x) \<and> outp = Some der \<and>
      take (length x) (case der of None \<Rightarrow> [] | Some p \<Rightarrow> p) = x)"
proof (cases "CBB_finish h c 0 True True")
  case (Pair r c1)
  note spec = CBB_finish_spec [OF assms(1,2), unfolded Pair prod.case]
  show ?thesis
  proof (cases r)
    case None
    then show ?thesis using assms(3) by (simp add: CBB_finish_i2d_def Pair)
  next
    case (Some q)
    obtain der len where q: "q = (der, len)" by (cases q)
    let ?p = "case der of None \<Rightarrow> [] | Some p \<Rightarrow> p"
    have f: "len \<le> length ?p" "finished fs = Some (take len ?p)" using spec by (simp_all add: Some q)
    have l: "length (take len ?p) = len" using f(1) by (simp only: length_take min_absorb2)
    show ?thesis
    proof (cases "len > INT_MAX")
      case False
      then have n: "n = int len" "outp = Some der" using assms(3) by (simp_all add: CBB_finish_i2d_def Pair Some q)
      show ?thesis
        using False by (intro disjI2 exI [of _ der] exI [of _ "take len ?p"] conjI) (simp_all only: f(2) l n not_less)
    qed (use assms(3) in \<open>simp add: CBB_finish_i2d_def Pair Some q\<close>)
  qed
qed

text \<open>A builder with only its root: starting, finishing, and what a refining call on a fresh one leaves.\<close>

lemma CBB_init_fails:
  assumes "CBB_init h n = (None, b)" "n + 8 < SIZE_MOD"
  shows "\<not> grants h (n + 8) \<or> \<not> grants h 40"
proof -
  have "OPENSSL_malloc h n = None \<or> OPENSSL_malloc h 32 = None"
    using assms(1) by (auto simp: CBB_init_def cbb_init_def Let_def split: if_splits option.splits)
  then show ?thesis
    using OPENSSL_malloc_Some_iff [OF assms(2), of h] OPENSSL_malloc_Some_iff [of 32 h] by auto
qed

lemma CBB_finish_root:
  assumes "heap_ok h" "cbb_rel b [(Prefixed 0, x)]"
  shows "case CBB_finish h b 0 True True of
      (None, _) \<Rightarrow> cbb_cap b < length x
    | (Some (data, n), _) \<Rightarrow> n = length x \<and> n \<le> length (case data of None \<Rightarrow> [] | Some p \<Rightarrow> p) \<and>
        take n (case data of None \<Rightarrow> [] | Some p \<Rightarrow> p) = x"
proof -
  obtain f b' where fin: "CBB_finish h b 0 True True = (f, b')" by fastforce
  have "finished [(Prefixed 0, x)] = Some x" by (simp add: finished_def abs_flush_top append_top_def)
  note spec = CBB_finish_spec [OF assms, unfolded fin this]
  show ?thesis
  proof (cases f)
    case (Some y)
    obtain data n where y: "y = (data, n)" by (cases y)
    let ?p = "case data of None \<Rightarrow> [] | Some p \<Rightarrow> p"
    have n: "n \<le> length ?p" "take n ?p = x" using spec by (simp_all add: Some y)
    have "length (take n ?p) = n" using n(1) by (simp only: length_take min_absorb2)
    then have "n = length x" unfolding n(2) ..
    then show ?thesis using n unfolding fin Some y prod.case option.case by blast
  qed (use spec in \<open>simp add: fin\<close>)
qed

lemma refines_fresh:
  assumes "refines b r (abs_write 0 x [(Prefixed 0, [])])"
  shows "case r of
      (None, _) \<Rightarrow> cbb_cap b < length x
    | (Some _, b') \<Rightarrow> cbb_rel b' [(Prefixed 0, x)] \<and> cbb_cap b \<le> cbb_cap b'"
  using assms by (auto simp: refines_def abs_write_top append_top_def frames_bytes_def frame_bytes_def split: prod.splits option.splits)

end
