(* ===== verification/Bytestring_Properties.thy ===== *)
theory Bytestring_Properties
  imports CBB_Refine
begin

text \<open>
  What the byte-string library promises: the element parser of \<open>cbs.c\<close> accepts exactly the DER
  encodings, the builder of \<open>cbb.c\<close> implements the frames of \<open>CBB_Refine\<close>, and what the builder
  writes the parser reads back.
\<close>

text \<open>
  C1: Whatever \<open>CBS_get_any_asn1_element\<close> accepts is the canonical (DER) encoding of the tag and
  body it found: the bytes it consumed are identifier octets, minimal length octets and the body,
  the header length it reports is that of the first two, and the cursor has moved past them.
\<close>

theorem CBS_get_any_asn1_element_accepts_only_DER:
  assumes "CBS_get_any_asn1_element c = (Some (out, t, header_len), c')" "cbs_ok c"
  shows "\<exists>body. length body < 2 ^ 32 \<and> cbs_bytes c = der_element t body @ cbs_bytes c' \<and>
    c' = cbs_adv (length (der_element t body)) c \<and>
    out = CBS_init (cbs_data c) (length (der_element t body)) \<and>
    header_len = length (der_header t (length body))"
  using assms unfolding CBS_get_any_asn1_element_def by (rule cbs_get_any_asn1_element_sound)

definition der_sample :: CBS where
  "der_sample = CBS_init [0x30, 3, 2, 1, 5, 0x99] 6"

theorem CBS_get_any_asn1_element_accepts_only_DER_witness:
  "\<exists>body. cbs_bytes der_sample = der_element 0x20000010 body @ [0x99]"
proof -
  have run: "CBS_get_any_asn1_element der_sample =
      (Some (CBS_init [0x30, 3, 2, 1, 5, 0x99] 5, 0x20000010, 2), cbs_adv 5 der_sample)"
    by code_simp
  have ok: "cbs_ok der_sample" by code_simp
  have rest: "cbs_bytes (cbs_adv 5 der_sample) = [0x99]" by code_simp
  show ?thesis
    using CBS_get_any_asn1_element_accepts_only_DER [OF run ok] by (metis rest)
qed

text \<open>
  C2: \<open>CBS_get_any_asn1_element\<close> reads back every canonical element with a body below four
  gigabytes, whatever follows it, and reports its tag and its header length.
\<close>

theorem CBS_get_any_asn1_element_reads_DER:
  assumes "cbs_ok c" "cbs_bytes c = der_element t body @ rest" "length body < 2 ^ 32"
  shows "CBS_get_any_asn1_element c =
    (Some (CBS_init (cbs_data c) (length (der_element t body)), t, length (der_header t (length body))),
     cbs_adv (length (der_element t body)) c)"
  unfolding CBS_get_any_asn1_element_def using assms by (rule cbs_get_any_asn1_element_complete)

theorem CBS_get_any_asn1_element_reads_DER_witness:
  "CBS_get_any_asn1_element (CBS_init [0x9f, 0x81, 0x7f, 2, 1, 2] 6) =
    (Some (CBS_init [0x9f, 0x81, 0x7f, 2, 1, 2] 6, 0x800000ff, 4), CBS_init [] 0)"
proof -
  let ?c = "CBS_init [0x9f, 0x81, 0x7f, 2, 1, 2] 6"
  have el: "der_element 0x800000ff [1, 2] = [0x9f, 0x81, 0x7f, 2, 1, 2]" by code_simp
  have hl: "length (der_header 0x800000ff (Suc (Suc 0))) = 4" by code_simp
  have "cbs_bytes ?c = der_element 0x800000ff [1, 2] @ []" by (simp add: el)
  from CBS_get_any_asn1_element_reads_DER [OF _ this] show ?thesis
    by (simp add: el hl cbs_adv_def)
qed

text \<open>
  C3: \<open>CBS_get_asn1_uint64\<close> on an INTEGER element returns its value exactly when the contents are
  a minimal two's complement encoding of a number below \<open>2 ^ 64\<close>, and fails otherwise; the cursor
  moves past the element either way.
\<close>

theorem CBS_get_asn1_uint64_exact:
  assumes "cbs_ok c" "cbs_bytes c = der_element CBS_ASN1_INTEGER bs @ rest" "length bs < 2 ^ 32"
  shows "CBS_get_asn1_uint64 c =
    (if der_int_ok bs \<and> 0 \<le> twos_val bs \<and> twos_val bs < 2 ^ 64 then Some (of_int (twos_val bs)) else None,
     cbs_adv (length (der_element CBS_ASN1_INTEGER bs)) c)"
  using assms by (rule CBS_get_asn1_uint64_eq)

theorem CBS_get_asn1_uint64_exact_witness:
  "fst (CBS_get_asn1_uint64 (CBS_init [2, 2, 0, 0x80] 4)) = Some 128 \<and>
   fst (CBS_get_asn1_uint64 (CBS_init [2, 2, 0, 0x7f] 4)) = None"
proof -
  have v: "der_int_ok [0, 0x80 :: u8]" "twos_val [0, 0x80] = 128" "\<not> der_int_ok [0, 0x7f :: u8]"
    by code_simp+
  have el: "der_element CBS_ASN1_INTEGER [0, 0x80] = [2, 2, 0, 0x80]"
    "der_element CBS_ASN1_INTEGER [0, 0x7f] = [2, 2, 0, 0x7f]"
    by code_simp+
  show ?thesis
    using CBS_get_asn1_uint64_exact [of "CBS_init [2, 2, 0, 0x80] 4" "[0, 0x80]" "[]"]
      CBS_get_asn1_uint64_exact [of "CBS_init [2, 2, 0, 0x7f] 4" "[0, 0x7f]" "[]"]
    by (simp add: v el del: der_int_ok.simps)
qed

text \<open>
  \<open>CBS_get_asn1_int64\<close> returns the two's complement value of an INTEGER element exactly when the
  contents are minimal and the value fits 64 signed bits, and fails otherwise.
\<close>

theorem CBS_get_asn1_int64_exact:
  assumes "cbs_ok c" "cbs_bytes c = der_element CBS_ASN1_INTEGER bs @ rest" "length bs < 2 ^ 32"
  shows "CBS_get_asn1_int64 c =
    (if der_int_ok bs \<and> - (2 ^ 63) \<le> twos_val bs \<and> twos_val bs < 2 ^ 63 then Some (twos_val bs) else None,
     cbs_adv (length (der_element CBS_ASN1_INTEGER bs)) c)"
  using assms by (rule CBS_get_asn1_int64_eq)

theorem CBS_get_asn1_int64_exact_witness:
  "fst (CBS_get_asn1_int64 (CBS_init [2, 2, 0xff, 0x7f] 4)) = Some (- 129) \<and>
   fst (CBS_get_asn1_int64 (CBS_init [2, 2, 0xff, 0x80] 4)) = None"
proof -
  have v: "der_int_ok [0xff, 0x7f :: u8]" "twos_val [0xff, 0x7f] = - 129" "\<not> der_int_ok [0xff, 0x80 :: u8]"
    by code_simp+
  have el: "der_element CBS_ASN1_INTEGER [0xff, 0x7f] = [2, 2, 0xff, 0x7f]"
    "der_element CBS_ASN1_INTEGER [0xff, 0x80] = [2, 2, 0xff, 0x80]"
    by code_simp+
  show ?thesis
    using CBS_get_asn1_int64_exact [of "CBS_init [2, 2, 0xff, 0x7f] 4" "[0xff, 0x7f]" "[]"]
      CBS_get_asn1_int64_exact [of "CBS_init [2, 2, 0xff, 0x80] 4" "[0xff, 0x80]" "[]"]
    by (simp add: v el del: der_int_ok.simps)
qed

text \<open>
  C4: \<open>CBB_flush\<close> implements the collapse of the pending children. On a builder that holds the
  frames \<open>fs\<close>, flushing the \<open>CBB\<close> at depth \<open>d\<close> either leaves the frames down to \<open>d\<close> with the closed
  contents of the deeper ones appended, or fails with the error flag set, and then only because a
  length does not fit its prefix or the result exceeds the capacity.
\<close>

theorem CBB_flush_implements_collapse:
  assumes "heap_ok h" "cbb_rel c fs" "d < length fs"
  shows "refines c (CBB_flush h c d) (abs_flush d fs)"
  using assms by (rule CBB_flush_refines)

definition cbb_sample :: CBB where
  "cbb_sample = snd (on_success (CBB_init all_grants 1) (\<lambda>_ c.
     on_success (CBB_add_u8_length_prefixed all_grants c 0) (\<lambda>_ c1.
       on_success (CBB_add_asn1 all_grants c1 1 0x20000010) (\<lambda>_ c2. CBB_add_u16 all_grants c2 2 0xabcd))))"

definition frames_sample :: "frame list" where
  "frames_sample = [(Prefixed 0, []), (Prefixed 1, [0x30]), (Element, [0xab, 0xcd])]"

lemma cbb_sample_rel: "cbb_rel cbb_sample frames_sample"
proof -
  have b: "cbb_base cbb_sample = Some (the (cbb_base cbb_sample))" by code_simp
  have ok: "bb_ok (the (cbb_base cbb_sample))" by code_simp
  have d: "bb_data (the (cbb_base cbb_sample)) = frames_bytes frames_sample" by code_simp
  have n: "nodes_rel 0 (cbb_nodes cbb_sample) (tl frames_sample)" by code_simp
  have f: "frames_sample = (Prefixed 0, []) # tl frames_sample" by code_simp
  show ?thesis
    unfolding cbb_rel_def using b ok d n f by (metis list.size(3))
qed

theorem CBB_flush_implements_collapse_witness:
  "refines cbb_sample (CBB_flush all_grants cbb_sample 0)
     (Some [(Prefixed 0, [4, 0x30, 2, 0xab, 0xcd])])"
proof -
  have "abs_flush 0 frames_sample = Some [(Prefixed 0, [4, 0x30, 2, 0xab, 0xcd])]" by code_simp
  moreover have "0 < length frames_sample" by code_simp
  ultimately show ?thesis
    using CBB_flush_implements_collapse [OF heap_ok_all_grants cbb_sample_rel] by metis
qed

text \<open>
  \<open>CBB_add_asn1\<close> implements opening an element: it flushes what is pending below the \<open>CBB\<close>,
  writes the canonical identifier octets of the tag and leaves an empty element open; it fails only
  when flushing fails or the buffer cannot hold the result.
\<close>

theorem CBB_add_asn1_opens_element:
  assumes "heap_ok h" "cbb_rel c fs" "d < length fs"
  shows "refines c (CBB_add_asn1 h c d tag) (abs_open_asn1 d tag fs)"
  using assms by (rule CBB_add_asn1_refines)

theorem CBB_add_asn1_opens_element_witness:
  "refines cbb_sample (CBB_add_asn1 all_grants cbb_sample 1 0x800000ff)
     (Some [(Prefixed 0, []), (Prefixed 1, [0x30, 2, 0xab, 0xcd, 0x9f, 0x81, 0x7f]), (Element, [])])"
proof -
  have "abs_open_asn1 1 0x800000ff frames_sample =
      Some [(Prefixed 0, []), (Prefixed 1, [0x30, 2, 0xab, 0xcd, 0x9f, 0x81, 0x7f]), (Element, [])]"
    by code_simp
  moreover have "1 < length frames_sample" by code_simp
  ultimately show ?thesis
    using CBB_add_asn1_opens_element [OF heap_ok_all_grants cbb_sample_rel] by metis
qed

text \<open>
  C5: The typed writers append one canonical element to the \<open>CBB\<close> at depth \<open>d\<close>: \<open>CBB_add_asn1_int64\<close>
  the minimal two's complement octets of the signed value (\<open>der_int\<close>, the only contents that C3 admits
  for it), \<open>CBB_add_asn1_uint64\<close> those of the unsigned value, \<open>CBB_add_asn1_bool\<close> 0xff or 0,
  \<open>CBB_add_asn1_octet_string\<close> the data. A writer fails only when pending children cannot be closed
  or the result exceeds the capacity.
\<close>

theorem typed_writers_append_elements:
  assumes "heap_ok h" "cbb_rel c fs" "d < length fs" "n < 2 ^ 63" "n \<le> length data"
  shows "refines c (CBB_add_asn1_int64 h c d v) (abs_element d CBS_ASN1_INTEGER (der_int (sint v)) fs) \<and>
    refines c (CBB_add_asn1_uint64 h c d v) (abs_element d CBS_ASN1_INTEGER (der_int (uint v)) fs) \<and>
    refines c (CBB_add_asn1_bool h c d b) (abs_element d CBS_ASN1_BOOLEAN [if b \<noteq> 0 then 0xff else 0] fs) \<and>
    refines c (CBB_add_asn1_octet_string h c d data n) (abs_element d CBS_ASN1_OCTETSTRING (take n data) fs)"
  using assms by (intro conjI CBB_add_asn1_int64_refines CBB_add_asn1_uint64_writes
      CBB_add_asn1_bool_refines CBB_add_asn1_octet_string_refines)

theorem typed_writers_append_elements_witness:
  "refines cbb_sample (CBB_add_asn1_int64 all_grants cbb_sample 2 (- 129))
     (Some [(Prefixed 0, []), (Prefixed 1, [0x30]), (Element, [0xab, 0xcd, 2, 2, 0xff, 0x7f])])"
proof -
  have "sint (- 129 :: u64) = - 129" by code_simp
  moreover have "der_int (- 129) = [0xff, 0x7f]" by (simp add: der_int.simps)
  moreover have "abs_element 2 CBS_ASN1_INTEGER [0xff, 0x7f] frames_sample =
      Some [(Prefixed 0, []), (Prefixed 1, [0x30]), (Element, [0xab, 0xcd, 2, 2, 0xff, 0x7f])]"
    by code_simp
  moreover have "2 < length frames_sample" by code_simp
  moreover have "(0 :: nat) < 2 ^ 63" "0 \<le> length ([] :: u8 list)" by simp_all
  ultimately show ?thesis
    using typed_writers_append_elements [OF heap_ok_all_grants cbb_sample_rel] by metis
qed

lemma int64_element_roundtrip:
  assumes "n \<le> length p" "take n p = der_element CBS_ASN1_INTEGER (der_int (sint (v :: u64)))"
  shows "CBS_get_asn1_int64 (CBS_init p n) = (Some (sint v), cbs_adv n (CBS_init p n))"
proof -
  have b: "cbs_bytes (CBS_init p n) = der_element CBS_ASN1_INTEGER (der_int (sint v)) @ []"
    using assms(2) by simp
  have l: "length (der_element CBS_ASN1_INTEGER (der_int (sint v))) = n"
    using assms by (metis length_take min_absorb2)
  have r: "- (2 ^ 63) \<le> sint v" "sint v < 2 ^ 63"
    using sint_ge [of v] sint_lt [of v] by simp_all
  have "length (der_int (sint v)) < 2 ^ 32" using length_der_int_sint [of v] by simp
  from CBS_get_asn1_int64_eq [OF _ b this] assms(1) show ?thesis
    using der_int_correct [of "sint v"] r by (simp only: l cbs_ok_init) simp
qed

lemma length_int64_element: "length (der_element CBS_ASN1_INTEGER (der_int (sint (v :: u64)))) \<le> 11"
proof -
  have "length (der_tag CBS_ASN1_INTEGER) = 1" by code_simp
  moreover have "length (der_length (length (der_int (sint v)))) = 1"
    using length_der_int_sint [of v] by (simp add: der_length_def)
  ultimately show ?thesis
    using length_der_int_sint [of v] by (simp add: der_element_def der_header_def)
qed

lemma finished_root: "finished [(Prefixed 0, x)] = Some x"
  by (simp add: finished_def abs_flush_top)

text \<open>
  C6: Round trip of 64-bit integers. A builder with room for eleven bytes accepts every value; what
  \<open>CBB_finish\<close> then hands out, \<open>CBS_get_asn1_int64\<close> reads back as the same value, to the last byte.
\<close>

theorem asn1_int64_roundtrip:
  assumes "heap_ok h" "CBB_init_fixed h buf cap = (Some (), c0)" "11 \<le> cap" "cap \<le> length buf"
    "cap + 8 \<le> 2 ^ 63"
  shows "\<exists>c1 p n c2. CBB_add_asn1_int64 h c0 0 v = (Some (), c1) \<and>
    CBB_finish h c1 0 True True = (Some (Some p, n), c2) \<and> n \<le> length p \<and>
    CBS_get_asn1_int64 (CBS_init p n) = (Some (sint v), cbs_adv n (CBS_init p n))"
proof -
  let ?el = "der_element CBS_ASN1_INTEGER (der_int (sint v))" and ?fs = "[(Prefixed 0, [])] :: frame list"
  have c0: "cbb_rel c0 ?fs" "cbb_cap c0 = cap"
    using CBB_init_fixed_rel [OF assms(2,4,5)] by simp_all
  obtain r c1 where add: "CBB_add_asn1_int64 h c0 0 v = (r, c1)" by fastforce
  have "abs_element 0 CBS_ASN1_INTEGER (der_int (sint v)) ?fs = Some [(Prefixed 0, ?el)]"
    using length_der_int_sint [of v] by (simp add: abs_element_def abs_write_top append_top_def)
  then have ref: "refines c0 (r, c1) (Some [(Prefixed 0, ?el)])"
    using CBB_add_asn1_int64_refines [OF assms(1) c0(1), of 0 v] by (simp add: add)
  moreover have "length ?el \<le> cap" using length_int64_element assms(3) by (rule order_trans)
  ultimately obtain c1: "r = Some ()" "cbb_rel c1 [(Prefixed 0, ?el)]" "cap \<le> cbb_cap c1"
    using c0(2) by (cases r) (auto simp: refines_def frame_bytes_def)
  obtain f c2 where fin: "CBB_finish h c1 0 True True = (f, c2)" by fastforce
  note spec = CBB_finish_spec [OF assms(1) c1(2), unfolded fin finished_root]
  have "f \<noteq> None"
    using spec c1(3) \<open>length ?el \<le> cap\<close> by (cases f) auto
  then obtain b n where f: "f = Some (b, n)" by (cases f) auto
  have b: "n \<le> length (case b of None \<Rightarrow> [] | Some p \<Rightarrow> p)" "take n (case b of None \<Rightarrow> [] | Some p \<Rightarrow> p) = ?el"
    using spec by (simp_all add: f)
  have "?el \<noteq> []" by (simp add: der_element_def der_header_def der_length_def)
  then obtain p where p: "b = Some p" using b(2) by (cases b) auto
  show ?thesis
    using add c1(1) fin f p b int64_element_roundtrip [of n p v] by auto
qed

theorem asn1_int64_roundtrip_witness:
  "\<exists>c0 c1 p n c2. CBB_add_asn1_int64 all_grants c0 0 (- 129) = (Some (), c1) \<and>
    CBB_finish all_grants c1 0 True True = (Some (Some p, n), c2) \<and>
    CBS_get_asn1_int64 (CBS_init p n) = (Some (- 129), cbs_adv n (CBS_init p n))"
proof -
  let ?init = "CBB_init_fixed all_grants (replicate 12 0) 12"
  have i: "?init = (Some (), snd ?init)" by code_simp
  have room: "(11 :: nat) \<le> 12" "12 \<le> length (replicate 12 (0 :: u8))" "(12 :: nat) + 8 \<le> 2 ^ 63"
    by simp_all
  have s: "sint (- 129 :: u64) = - 129" by code_simp
  show ?thesis
    using asn1_int64_roundtrip [OF heap_ok_all_grants i room, of "- 129"] unfolding s by blast
qed

end
