(* ===== verification/Pb_Stream.thy ===== *)
theory Pb_Stream
  imports Prelude
begin

text \<open>
  The streams of nanopb: \<open>pb_ostream_t\<close> with \<open>pb_write\<close> (\<open>pb_encode.c\<close>) and \<open>pb_istream_t\<close> with
  \<open>pb_read\<close>, \<open>pb_readbyte\<close> (\<open>pb_decode.c\<close>), over a callback supplied by the user and over the
  memory buffers of \<open>buf_write\<close> and \<open>buf_read\<close>. The state a callback works on is a type
  parameter. The configuration is that of the pod: \<open>PB_FIELD_32BIT\<close>, error messages, malloc.
\<close>

section \<open>Output streams\<close>

text \<open>A stream without callback only counts what is written (\<open>PB_OSTREAM_SIZING\<close>).\<close>

record 's pb_ostream =
  os_callback :: "('s \<Rightarrow> u8 list \<Rightarrow> bool \<times> 's) option"
  os_state :: 's
  os_max_size :: nat
  os_bytes_written :: nat
  os_errmsg :: "string option"

definition os_error :: "string \<Rightarrow> 's pb_ostream \<Rightarrow> 'a option \<times> 's pb_ostream" where
  "os_error msg st =
     (None, st\<lparr>os_errmsg := (case os_errmsg st of None \<Rightarrow> Some msg | Some m \<Rightarrow> Some m)\<rparr>)"

text \<open>The state of a buffer stream is the buffer with the position of the write pointer.\<close>

type_synonym sink_buffer = "u8 list \<times> nat"

definition buf_write :: "sink_buffer \<Rightarrow> u8 list \<Rightarrow> bool \<times> sink_buffer" where
  "buf_write st bs = (case st of (p, pos) \<Rightarrow> (True, (mem_put p pos bs, pos + length bs)))"

definition pb_ostream_from_buffer :: "u8 list \<Rightarrow> nat \<Rightarrow> sink_buffer pb_ostream" where
  "pb_ostream_from_buffer buf bufsize =
     \<lparr>os_callback = Some buf_write, os_state = (buf, 0), os_max_size = bufsize, os_bytes_written = 0,
      os_errmsg = None\<rparr>"

definition PB_OSTREAM_SIZING :: "'s \<Rightarrow> 's pb_ostream" where
  "PB_OSTREAM_SIZING s =
     \<lparr>os_callback = None, os_state = s, os_max_size = 0, os_bytes_written = 0, os_errmsg = None\<rparr>"

definition pb_write :: "'s pb_ostream \<Rightarrow> u8 list \<Rightarrow> nat \<Rightarrow> unit option \<times> 's pb_ostream" where
  "pb_write st buf count =
     (case (if count > 0 then os_callback st else None) of
        None \<Rightarrow> (Some (), st\<lparr>os_bytes_written := size_wrap (os_bytes_written st + count)\<rparr>)
      | Some callback \<Rightarrow>
          (if size_wrap (os_bytes_written st + count) < os_bytes_written st \<or>
              size_wrap (os_bytes_written st + count) > os_max_size st
           then os_error ''stream full'' st
           else
             case callback (os_state st) (take count buf) of
               (ok, s) \<Rightarrow>
                 (if \<not> ok then os_error ''io error'' (st\<lparr>os_state := s\<rparr>)
                  else (Some (), st\<lparr>os_state := s,
                    os_bytes_written := size_wrap (os_bytes_written st + count)\<rparr>))))"

section \<open>Input streams\<close>

text \<open>\<open>is_buf_read\<close> records whether the callback is \<open>buf_read\<close>, which \<open>pb_read\<close> asks.\<close>

record 's pb_istream =
  is_callback :: "'s \<Rightarrow> nat \<Rightarrow> u8 list option \<times> 's"
  is_buf_read :: bool
  is_state :: 's
  is_bytes_left :: nat
  is_errmsg :: "string option"

definition is_error :: "string \<Rightarrow> 's pb_istream \<Rightarrow> 'a option \<times> 's pb_istream" where
  "is_error msg st =
     (None, st\<lparr>is_errmsg := (case is_errmsg st of None \<Rightarrow> Some msg | Some m \<Rightarrow> Some m)\<rparr>)"

text \<open>The state of a buffer stream is what lies behind the read pointer.\<close>

definition buf_read :: "u8 list \<Rightarrow> nat \<Rightarrow> u8 list option \<times> u8 list" where
  "buf_read source count = (Some (take count source), drop count source)"

definition pb_istream_from_buffer :: "u8 list \<Rightarrow> nat \<Rightarrow> u8 list pb_istream" where
  "pb_istream_from_buffer buf bufsize =
     \<lparr>is_callback = buf_read, is_buf_read = True, is_state = buf, is_bytes_left = bufsize,
      is_errmsg = None\<rparr>"

text \<open>\<open>pb_read\<close> into a buffer; the result is what the buffer then holds.\<close>

definition pb_read :: "'s pb_istream \<Rightarrow> nat \<Rightarrow> u8 list option \<times> 's pb_istream" where
  "pb_read st count =
     (if count = 0 then (Some [], st)
      else if is_bytes_left st < count then is_error ''end-of-stream'' st
      else
        case is_callback st (is_state st) count of
          (None, s) \<Rightarrow> is_error ''io error'' (st\<lparr>is_state := s\<rparr>)
        | (Some bs, s) \<Rightarrow> (Some bs, st\<lparr>is_state := s, is_bytes_left := is_bytes_left st - count\<rparr>))"

text \<open>\<open>pb_read\<close> with a null buffer: input from a callback is skipped through a 16-byte buffer.\<close>

function pb_skip_loop :: "'s pb_istream \<Rightarrow> nat \<Rightarrow> unit option \<times> 's pb_istream" where
  "pb_skip_loop st count =
     (if count > 16
      then on_success (pb_read st 16) (\<lambda>_ st'. pb_skip_loop st' (count - 16))
      else on_success (pb_read st count) (\<lambda>_ st'. (Some (), st')))"
  by pat_completeness auto
termination
  by (relation "measure snd") auto

declare pb_skip_loop.simps [simp del]

definition pb_read_null :: "'s pb_istream \<Rightarrow> nat \<Rightarrow> unit option \<times> 's pb_istream" where
  "pb_read_null st count =
     (if count = 0 then (Some (), st)
      else if \<not> is_buf_read st then pb_skip_loop st count
      else on_success (pb_read st count) (\<lambda>_ st'. (Some (), st')))"

definition pb_readbyte :: "'s pb_istream \<Rightarrow> u8 option \<times> 's pb_istream" where
  "pb_readbyte st =
     (if is_bytes_left st = 0 then is_error ''end-of-stream'' st
      else
        case is_callback st (is_state st) 1 of
          (None, s) \<Rightarrow> is_error ''io error'' (st\<lparr>is_state := s\<rparr>)
        | (Some bs, s) \<Rightarrow>
            (Some (bs ! 0), st\<lparr>is_state := s, is_bytes_left := is_bytes_left st - 1\<rparr>))"

lemma pb_readbyte_left: "pb_readbyte st = (Some b, st') \<Longrightarrow> is_bytes_left st' < is_bytes_left st"
  by (auto simp: pb_readbyte_def is_error_def split: if_splits prod.splits option.splits)

section \<open>Interface: where bytes go\<close>

text \<open>
  What \<open>pb_write\<close> expects of a callback: with room for the bytes it returns true and the bytes it
  has received so far grow by exactly these.
\<close>

locale byte_sink =
  fixes callback :: "'s \<Rightarrow> u8 list \<Rightarrow> bool \<times> 's"
    and received :: "'s \<Rightarrow> u8 list"
    and room :: "'s \<Rightarrow> nat"
  assumes accept: "length bs \<le> room s \<Longrightarrow>
    fst (callback s bs) \<and> received (snd (callback s bs)) = received s @ bs \<and>
    room (snd (callback s bs)) = room s - length bs"
begin

text \<open>A stream on this callback whose counters agree with what was received.\<close>

definition sink_ok :: "'s pb_ostream \<Rightarrow> bool" where
  "sink_ok st \<longleftrightarrow> os_callback st = Some callback \<and> os_bytes_written st \<le> os_max_size st \<and>
     os_max_size st < SIZE_MOD \<and> os_max_size st - os_bytes_written st \<le> room (os_state st)"

definition writes :: "'s pb_ostream \<Rightarrow> u8 list \<Rightarrow> unit option \<times> 's pb_ostream \<Rightarrow> bool" where
  "writes st bs res \<longleftrightarrow>
     (if os_bytes_written st + length bs \<le> os_max_size st then
        fst res = Some () \<and> sink_ok (snd res) \<and>
        received (os_state (snd res)) = received (os_state st) @ bs \<and>
        os_bytes_written (snd res) = os_bytes_written st + length bs \<and>
        os_max_size (snd res) = os_max_size st
      else fst res = None)"

lemma pb_write_writes:
  assumes "sink_ok st" "length bs = n" "n < SIZE_MOD"
  shows "writes st bs (pb_write st bs n)"
proof (cases "n = 0")
  case True
  then show ?thesis
    using assms by (simp add: writes_def pb_write_def sink_ok_def)
next
  case False
  have b: "os_bytes_written st < SIZE_MOD"
    using assms(1) by (simp add: sink_ok_def)
  show ?thesis
  proof (cases "os_bytes_written st + n \<le> os_max_size st")
    case True
    then have "n \<le> os_max_size st - os_bytes_written st"
      by linarith
    also have "\<dots> \<le> room (os_state st)"
      using assms(1) by (simp add: sink_ok_def)
    finally have "length bs \<le> room (os_state st)"
      by (simp only: assms(2))
    then have a: "fst (callback (os_state st) bs)"
      "received (snd (callback (os_state st) bs)) = received (os_state st) @ bs"
      "room (snd (callback (os_state st) bs)) = room (os_state st) - length bs"
      using accept by blast+
    obtain ok s where c: "callback (os_state st) bs = (ok, s)" by fastforce
    have "size_wrap (os_bytes_written st + n) = os_bytes_written st + n"
      using True assms(1) by (intro size_wrap_small) (simp add: sink_ok_def)
    then have "pb_write st bs n =
        (Some (), st\<lparr>os_state := s, os_bytes_written := os_bytes_written st + n\<rparr>)"
      using assms a(1) c True False by (simp add: pb_write_def sink_ok_def)
    then show ?thesis
      using a c True assms by (auto simp: writes_def sink_ok_def)
  next
    case full: False
    have "size_wrap (os_bytes_written st + n) < os_bytes_written st \<or>
        size_wrap (os_bytes_written st + n) > os_max_size st"
      using size_wrap_overflow_iff [OF b assms(3)] full by (cases "os_bytes_written st + n < SIZE_MOD") auto
    then show ?thesis
      using full assms False by (auto simp: writes_def pb_write_def sink_ok_def os_error_def)
  qed
qed

lemma writes_Nil: "sink_ok st \<Longrightarrow> writes st [] (Some (), st)"
  by (simp add: writes_def sink_ok_def)

text \<open>Two writes in sequence write the concatenation.\<close>

lemma writes_seq:
  assumes "writes st as res" "\<And>u st'. res = (Some u, st') \<Longrightarrow> sink_ok st' \<Longrightarrow> writes st' bs (f st')"
  shows "writes st (as @ bs) (on_success res (\<lambda>_. f))"
proof (cases "os_bytes_written st + length as \<le> os_max_size st")
  case True
  obtain st' where r: "res = (Some (), st')"
    using True assms(1) by (cases res) (simp add: writes_def)
  then have st': "sink_ok st'" "received (os_state st') = received (os_state st) @ as"
    "os_bytes_written st' = os_bytes_written st + length as" "os_max_size st' = os_max_size st"
    using True assms(1) by (simp_all add: writes_def)
  have "writes st' bs (f st')" using assms(2) r st'(1) by blast
  then show ?thesis
    using st' by (auto simp: r writes_def add.assoc split: if_splits)
next
  case False
  then have "fst res = None" using assms(1) by (simp add: writes_def)
  then have "fst (on_success res (\<lambda>_. f)) = None" by (cases res) simp
  with False show ?thesis by (simp add: writes_def)
qed

end

text \<open>The buffer of \<open>buf_write\<close> is such a sink.\<close>

definition sink_received :: "sink_buffer \<Rightarrow> u8 list" where
  "sink_received st = take (snd st) (fst st)"

definition sink_room :: "sink_buffer \<Rightarrow> nat" where
  "sink_room st = (if snd st \<le> length (fst st) then length (fst st) - snd st else 0)"

interpretation buffer_sink: byte_sink buf_write sink_received sink_room
proof
  fix bs :: "u8 list" and s :: sink_buffer
  assume room: "length bs \<le> sink_room s"
  obtain p pos where s: "s = (p, pos)" by fastforce
  show "fst (buf_write s bs) \<and> sink_received (snd (buf_write s bs)) = sink_received s @ bs \<and>
      sink_room (snd (buf_write s bs)) = sink_room s - length bs"
    using room by (auto simp: s sink_received_def sink_room_def buf_write_def mem_put_def split: if_splits)
qed

lemma pb_ostream_from_buffer_ok:
  assumes "n \<le> length buf" "n < SIZE_MOD"
  shows "buffer_sink.sink_ok (pb_ostream_from_buffer buf n)"
  using assms by (simp add: buffer_sink.sink_ok_def pb_ostream_from_buffer_def sink_room_def)

section \<open>Interface: where bytes come from\<close>

text \<open>
  What \<open>pb_read\<close> expects of a callback: it delivers the next bytes of what is available.
\<close>

locale byte_source =
  fixes callback :: "'s \<Rightarrow> nat \<Rightarrow> u8 list option \<times> 's"
    and available :: "'s \<Rightarrow> u8 list"
  assumes deliver: "n \<le> length (available s) \<Longrightarrow>
    fst (callback s n) = Some (take n (available s)) \<and>
    available (snd (callback s n)) = drop n (available s)"
begin

definition source_ok :: "'s pb_istream \<Rightarrow> bool" where
  "source_ok st \<longleftrightarrow> is_callback st = callback \<and> is_bytes_left st \<le> length (available (is_state st))"

text \<open>What the stream may still deliver, and the effect of consuming \<open>n\<close> bytes of it.\<close>

definition pending :: "'s pb_istream \<Rightarrow> u8 list" where
  "pending st = take (is_bytes_left st) (available (is_state st))"

lemma length_pending [simp]: "source_ok st \<Longrightarrow> length (pending st) = is_bytes_left st"
  by (simp add: source_ok_def pending_def)

definition reads :: "'s pb_istream \<Rightarrow> nat \<Rightarrow> 's pb_istream \<Rightarrow> bool" where
  "reads st n st' \<longleftrightarrow> source_ok st' \<and> pending st' = drop n (pending st) \<and>
     available (is_state st') = drop n (available (is_state st)) \<and>
     is_bytes_left st' = is_bytes_left st - n \<and>
     is_errmsg st' = is_errmsg st \<and> is_buf_read st' = is_buf_read st"

lemma reads_0: "source_ok st \<Longrightarrow> reads st 0 st"
  by (simp add: reads_def)

lemma reads_trans: "reads st m st' \<Longrightarrow> reads st' n st'' \<Longrightarrow> reads st (m + n) st''"
  by (simp add: reads_def add.commute)

lemma deliver_step:
  assumes ok: "source_ok st" and n: "n \<le> is_bytes_left st"
  obtains s where "is_callback st (is_state st) n = (Some (take n (pending st)), s)"
    "reads st n (st\<lparr>is_state := s, is_bytes_left := is_bytes_left st - n\<rparr>)"
proof -
  have cb: "is_callback st = callback" using ok by (simp add: source_ok_def)
  have l: "is_bytes_left st \<le> length (available (is_state st))" using ok by (simp add: source_ok_def)
  with n have "n \<le> length (available (is_state st))" by simp
  from deliver [OF this] obtain s where s: "callback (is_state st) n = (Some (take n (available (is_state st))), s)"
    "available s = drop n (available (is_state st))"
    by (cases "callback (is_state st) n") auto
  have "take n (available (is_state st)) = take n (pending st)"
    using n by (simp add: pending_def min_absorb1)
  moreover have "reads st n (st\<lparr>is_state := s, is_bytes_left := is_bytes_left st - n\<rparr>)"
    using l n cb s(2) by (simp add: reads_def source_ok_def pending_def drop_take)
  ultimately show ?thesis
    using that s(1) cb by metis
qed

lemma pb_read_reads:
  assumes "source_ok st"
  shows "if n \<le> is_bytes_left st
    then \<exists>st'. pb_read st n = (Some (take n (pending st)), st') \<and> reads st n st'
    else fst (pb_read st n) = None"
proof (cases "n = 0")
  case True
  then show ?thesis using assms by (simp add: pb_read_def reads_0)
next
  case False
  show ?thesis
  proof (cases "n \<le> is_bytes_left st")
    case True
    then obtain s where "is_callback st (is_state st) n = (Some (take n (pending st)), s)"
      "reads st n (st\<lparr>is_state := s, is_bytes_left := is_bytes_left st - n\<rparr>)"
      using deliver_step [OF assms] by metis
    then show ?thesis using True False by (simp add: pb_read_def)
  next
    case short: False
    then show ?thesis using False by (simp add: pb_read_def is_error_def)
  qed
qed

lemma pb_readbyte_reads:
  assumes "source_ok st" "pending st = b # r"
  shows "\<exists>st'. pb_readbyte st = (Some b, st') \<and> reads st 1 st' \<and> pending st' = r"
proof -
  have l: "1 \<le> is_bytes_left st"
    using assms length_pending by fastforce
  then obtain s where "is_callback st (is_state st) 1 = (Some (take 1 (pending st)), s)"
    "reads st 1 (st\<lparr>is_state := s, is_bytes_left := is_bytes_left st - 1\<rparr>)"
    using deliver_step [OF assms(1)] by metis
  then show ?thesis
    using l assms(2) by (simp add: pb_readbyte_def reads_def)
qed

lemma pb_readbyte_end: "pending st = [] \<Longrightarrow> source_ok st \<Longrightarrow> fst (pb_readbyte st) = None"
  using length_pending [of st] by (simp add: pb_readbyte_def is_error_def)

lemma pb_readbyte_SomeD:
  assumes "source_ok st" "pb_readbyte st = (Some b, st')"
  shows "pending st = b # pending st' \<and> reads st 1 st'"
proof (cases "pending st")
  case Nil
  then show ?thesis using assms pb_readbyte_end by fastforce
next
  case (Cons b' r)
  then show ?thesis using pb_readbyte_reads [OF assms(1) Cons] assms(2) by auto
qed

text \<open>Skipping reads nothing but moves the stream like a read.\<close>

lemma pb_skip_loop_reads:
  assumes "source_ok st"
  shows "if n \<le> is_bytes_left st
    then \<exists>st'. pb_skip_loop st n = (Some (), st') \<and> reads st n st'
    else fst (pb_skip_loop st n) = None"
  using assms
proof (induction st n rule: pb_skip_loop.induct)
  case (1 st n)
  show ?case
  proof (cases "16 < n")
    case True
    then have unf: "pb_skip_loop st n = on_success (pb_read st 16) (\<lambda>_ st'. pb_skip_loop st' (n - 16))"
      by (simp add: pb_skip_loop.simps [of st n])
    show ?thesis
    proof (cases "16 \<le> is_bytes_left st")
      case le: True
      then obtain st1 where st1: "pb_read st 16 = (Some (take 16 (pending st)), st1)" "reads st 16 st1"
        using pb_read_reads [OF "1.prems", of 16] by auto
      then have ok1: "source_ok st1" and l1: "is_bytes_left st1 = is_bytes_left st - 16"
        using "1.prems" le by (auto simp: reads_def dest!: arg_cong [of _ _ length])
      have ih: "if n - 16 \<le> is_bytes_left st1
        then \<exists>st'. pb_skip_loop st1 (n - 16) = (Some (), st') \<and> reads st1 (n - 16) st'
        else fst (pb_skip_loop st1 (n - 16)) = None"
        using "1.IH" True st1 ok1 by blast
      have iff: "n \<le> is_bytes_left st \<longleftrightarrow> n - 16 \<le> is_bytes_left st1"
        using True le l1 by linarith
      have run: "pb_skip_loop st n = pb_skip_loop st1 (n - 16)"
        by (simp add: unf st1)
      show ?thesis
      proof (cases "n \<le> is_bytes_left st")
        case True
        then obtain st' where st': "pb_skip_loop st1 (n - 16) = (Some (), st')" "reads st1 (n - 16) st'"
          using ih iff by auto
        moreover have "reads st n st'"
          using reads_trans [OF st1(2) st'(2)] \<open>16 < n\<close> by simp
        ultimately show ?thesis using True run by auto
      next
        case False
        then show ?thesis using ih iff run by simp
      qed
    next
      case False
      then have "fst (pb_read st 16) = None"
        using pb_read_reads [OF "1.prems", of 16] by simp
      then have "fst (pb_skip_loop st n) = None"
        by (cases "pb_read st 16") (simp add: unf)
      then show ?thesis using False True by simp
    qed
  next
    case False
    then have unf: "pb_skip_loop st n = on_success (pb_read st n) (\<lambda>_ st'. (Some (), st'))"
      by (simp add: pb_skip_loop.simps [of st n])
    show ?thesis
      using pb_read_reads [OF "1.prems", of n]
      by (cases "pb_read st n") (auto simp: unf on_success_def split: if_splits option.splits)
  qed
qed

lemma pb_read_null_reads:
  assumes "source_ok st"
  shows "if n \<le> is_bytes_left st
    then \<exists>st'. pb_read_null st n = (Some (), st') \<and> reads st n st'
    else fst (pb_read_null st n) = None"
proof (cases "n = 0 \<or> \<not> is_buf_read st")
  case True
  then show ?thesis
    using pb_skip_loop_reads [OF assms, of n] assms by (auto simp: pb_read_null_def reads_0)
next
  case False
  then show ?thesis
    using pb_read_reads [OF assms, of n]
    by (cases "pb_read st n") (auto simp: pb_read_null_def on_success_def split: if_splits option.splits)
qed

end

text \<open>The buffer of \<open>buf_read\<close> is such a source.\<close>

interpretation buffer_source: byte_source buf_read "\<lambda>s. s"
  by unfold_locales (simp add: buf_read_def)

lemma pb_istream_from_buffer_ok:
  assumes "n \<le> length buf"
  shows "buffer_source.source_ok (pb_istream_from_buffer buf n)"
    "buffer_source.pending (pb_istream_from_buffer buf n) = take n buf"
  using assms by (simp_all add: buffer_source.source_ok_def buffer_source.pending_def pb_istream_from_buffer_def)

end
