(* ===== verification/Varint.thy ===== *)
theory Varint
  imports Prelude
begin

text \<open>
  The base-128 encoding of numbers, as a reference for the protocol-buffers and the database code
  that write and read it, and the bytes of a word.
\<close>

unbundle bit_operations_syntax

section \<open>Base 128\<close>

text \<open>The low group first, with the high bit set in all groups but the last.\<close>

fun varint :: "nat \<Rightarrow> u8 list" where
  "varint n = (if n < 128 then [of_nat n] else of_nat (128 + n mod 128) # varint (n div 128))"

declare varint.simps [simp del]

fun unvarint :: "u8 list \<Rightarrow> (nat \<times> u8 list) option" where
  "unvarint [] = None"
| "unvarint (b # bs) =
     (if unat b < 128 then Some (unat b, bs)
      else case unvarint bs of None \<Rightarrow> None | Some (n, r) \<Rightarrow> Some (n * 128 + (unat b - 128), r))"

lemma unvarint_varint: "unvarint (varint n @ rest) = Some (n, rest)"
proof (induction n rule: varint.induct)
  case (1 n)
  show ?case
  proof (cases "n < 128")
    case True
    then show ?thesis by (simp add: varint.simps [of n] unat_of_nat_u8)
  next
    case False
    have "unat (of_nat (128 + n mod 128) :: u8) = 128 + n mod 128"
      by (simp only: unat_of_nat_u8) simp
    then show ?thesis
      using 1 False by (simp add: varint.simps [of n] del: of_nat_add)
  qed
qed

interpretation varint_codec: prefix_codec varint unvarint "\<lambda>_. True"
  by unfold_locales (rule unvarint_varint)

lemma varint_length: "0 < k \<Longrightarrow> n < 128 ^ k \<Longrightarrow> length (varint n) \<le> k"
proof (induction k arbitrary: n)
  case (Suc k)
  show ?case
  proof (cases "n < 128")
    case False
    then have "n div 128 < 128 ^ k" "k \<noteq> 0"
      using Suc.prems by (auto simp: less_mult_imp_div_less mult.commute intro: ccontr)
    with Suc.IH False show ?thesis by (simp add: varint.simps [of n])
  qed (simp add: varint.simps [of n])
qed simp

lemma u8_and_0x7f_less: "unat (b :: u8) < 128 \<Longrightarrow> b AND 0x7F = b"
  using unat_and_mask [of b 7] by (simp add: mask_eq_exp_minus_1 word_unat_eq_iff)

section \<open>Little-endian bytes of a word\<close>

lemma le_bytes_0: "le_bytes 0 v = []"
  by (simp add: le_bytes_def)

lemma byte_of_word:
  "(ucast (drop_bit k (v :: 'a::len word) AND 0xFF) :: u8) = of_nat (unat v div 2 ^ k)"
proof -
  have m: "drop_bit k v AND 0xFF = take_bit 8 (drop_bit k v)"
    by (simp add: take_bit_eq_mask mask_eq_exp_minus_1)
  have "(ucast (drop_bit k v AND 0xFF) :: u8) = ucast (drop_bit k v)"
    unfolding m by (rule bit_word_eqI) (auto simp: bit_simps dest: bit_imp_le_length)
  then show ?thesis
    by (simp add: word_unat_eq_iff unsigned_ucast_eq unat_of_nat take_bit_eq_mod unat_drop_bit)
qed

lemma byte_of_word_0: "(ucast ((v :: 'a::len word) AND 0xFF) :: u8) = of_nat (unat v)"
  using byte_of_word [of 0 v] by simp

lemma le_bytes_4: "le_bytes 4 n = [of_nat n, of_nat (n div 2 ^ 8), of_nat (n div 2 ^ 16), of_nat (n div 2 ^ 24)]"
proof -
  have four: "(4 :: nat) = Suc (Suc (Suc (Suc 0)))" by simp
  have "le_bytes 4 n = [of_nat n, of_nat (n div 256), of_nat (n div 256 div 256), of_nat (n div 256 div 256 div 256)]"
    by (simp only: four le_bytes_Suc le_bytes_0)
  then show ?thesis by (simp add: div_mult2_eq [symmetric])
qed

lemma le_bytes_8: "le_bytes 8 n =
  [of_nat n, of_nat (n div 2 ^ 8), of_nat (n div 2 ^ 16), of_nat (n div 2 ^ 24),
   of_nat (n div 2 ^ 32), of_nat (n div 2 ^ 40), of_nat (n div 2 ^ 48), of_nat (n div 2 ^ 56)]"
proof -
  have eight: "(8 :: nat) = Suc (Suc (Suc (Suc (Suc (Suc (Suc (Suc 0)))))))" by simp
  have "le_bytes 8 n = [of_nat n, of_nat (n div 256), of_nat (n div 256 div 256), of_nat (n div 256 div 256 div 256),
      of_nat (n div 256 div 256 div 256 div 256), of_nat (n div 256 div 256 div 256 div 256 div 256),
      of_nat (n div 256 div 256 div 256 div 256 div 256 div 256),
      of_nat (n div 256 div 256 div 256 div 256 div 256 div 256 div 256)]"
    by (simp only: eight le_bytes_Suc le_bytes_0)
  then show ?thesis by (simp add: div_mult2_eq [symmetric])
qed

end
