(* ===== verification/Pb_Encode.thy ===== *)
theory Pb_Encode
  imports Pb_Stream Varint
begin

text \<open>
  The encoders of nanopb, \<open>pb_encode.c\<close>: varints, zigzag, fixed-width values, tags, strings and
  the field encoders \<open>pb_enc_*\<close>. A field encoder reads its value from the memory \<open>src\<close> points to,
  a list of bytes in the byte order of the target (little endian).
\<close>

section \<open>Field descriptors\<close>

text \<open>\<open>pb_field_t\<close>; the default value and the submessage descriptor behind \<open>ptr\<close> are not read here.\<close>

record pb_field =
  tag :: u32
  field_type :: u8
  data_offset :: u32
  size_offset :: nat
  data_size :: nat
  array_size :: nat

definition PB_LTYPE :: "u8 \<Rightarrow> u8" where "PB_LTYPE x = x AND 0x0F"
definition PB_HTYPE :: "u8 \<Rightarrow> u8" where "PB_HTYPE x = x AND 0x30"
definition PB_ATYPE :: "u8 \<Rightarrow> u8" where "PB_ATYPE x = x AND 0xC0"

abbreviation PB_LTYPE_BOOL :: u8 where "PB_LTYPE_BOOL \<equiv> 0x00"
abbreviation PB_LTYPE_VARINT :: u8 where "PB_LTYPE_VARINT \<equiv> 0x01"
abbreviation PB_LTYPE_UVARINT :: u8 where "PB_LTYPE_UVARINT \<equiv> 0x02"
abbreviation PB_LTYPE_SVARINT :: u8 where "PB_LTYPE_SVARINT \<equiv> 0x03"
abbreviation PB_LTYPE_FIXED32 :: u8 where "PB_LTYPE_FIXED32 \<equiv> 0x04"
abbreviation PB_LTYPE_FIXED64 :: u8 where "PB_LTYPE_FIXED64 \<equiv> 0x05"
abbreviation PB_LTYPE_BYTES :: u8 where "PB_LTYPE_BYTES \<equiv> 0x06"
abbreviation PB_LTYPE_STRING :: u8 where "PB_LTYPE_STRING \<equiv> 0x07"
abbreviation PB_LTYPE_SUBMESSAGE :: u8 where "PB_LTYPE_SUBMESSAGE \<equiv> 0x08"
abbreviation PB_LTYPE_EXTENSION :: u8 where "PB_LTYPE_EXTENSION \<equiv> 0x09"
abbreviation PB_LTYPE_FIXED_LENGTH_BYTES :: u8 where "PB_LTYPE_FIXED_LENGTH_BYTES \<equiv> 0x0A"

abbreviation PB_ATYPE_STATIC :: u8 where "PB_ATYPE_STATIC \<equiv> 0x00"
abbreviation PB_ATYPE_POINTER :: u8 where "PB_ATYPE_POINTER \<equiv> 0x80"

abbreviation PB_WT_VARINT :: u32 where "PB_WT_VARINT \<equiv> 0"
abbreviation PB_WT_64BIT :: u32 where "PB_WT_64BIT \<equiv> 1"
abbreviation PB_WT_STRING :: u32 where "PB_WT_STRING \<equiv> 2"
abbreviation PB_WT_32BIT :: u32 where "PB_WT_32BIT \<equiv> 5"

section \<open>Varints\<close>

lemma u64_drop_7_less: "value \<noteq> 0 \<Longrightarrow> unat (drop_bit 7 value) < unat (value :: u64)"
  by (simp add: unat_drop_bit word_unat_eq_iff)

text \<open>The bytes the loop leaves in \<open>buffer\<close>.\<close>

function encode_varint_loop :: "u64 \<Rightarrow> u8 list" where
  "encode_varint_loop value =
     (if value = 0 then []
      else (ucast (value AND 0x7F) OR 0x80) # encode_varint_loop (drop_bit 7 value))"
  by pat_completeness auto
termination
  by (relation "measure unat") (use u64_drop_7_less in auto)

declare encode_varint_loop.simps [simp del]

definition pb_encode_varint :: "'s pb_ostream \<Rightarrow> u64 \<Rightarrow> unit option \<times> 's pb_ostream" where
  "pb_encode_varint st value =
     (if value \<le> 0x7F then pb_write st [ucast value] 1
      else
        let buffer = encode_varint_loop value; i = length buffer
        in pb_write st (buffer[i - 1 := buffer ! (i - 1) AND 0x7F]) i)"

definition pb_encode_svarint :: "'s pb_ostream \<Rightarrow> u64 \<Rightarrow> unit option \<times> 's pb_ostream" where
  "pb_encode_svarint st value =
     (let zigzagged = (if sint value < 0 then NOT (push_bit 1 value) else push_bit 1 value)
      in pb_encode_varint st zigzagged)"

section \<open>Fixed-width values and tags\<close>

definition pb_encode_fixed32 :: "'s pb_ostream \<Rightarrow> u32 \<Rightarrow> unit option \<times> 's pb_ostream" where
  "pb_encode_fixed32 st val =
     pb_write st [ucast (val AND 0xFF), ucast (drop_bit 8 val AND 0xFF),
       ucast (drop_bit 16 val AND 0xFF), ucast (drop_bit 24 val AND 0xFF)] 4"

definition pb_encode_fixed64 :: "'s pb_ostream \<Rightarrow> u64 \<Rightarrow> unit option \<times> 's pb_ostream" where
  "pb_encode_fixed64 st val =
     pb_write st [ucast (val AND 0xFF), ucast (drop_bit 8 val AND 0xFF),
       ucast (drop_bit 16 val AND 0xFF), ucast (drop_bit 24 val AND 0xFF),
       ucast (drop_bit 32 val AND 0xFF), ucast (drop_bit 40 val AND 0xFF),
       ucast (drop_bit 48 val AND 0xFF), ucast (drop_bit 56 val AND 0xFF)] 8"

definition pb_encode_tag :: "'s pb_ostream \<Rightarrow> u32 \<Rightarrow> u32 \<Rightarrow> unit option \<times> 's pb_ostream" where
  "pb_encode_tag st wiretype field_number =
     pb_encode_varint st (push_bit 3 (ucast field_number) OR ucast wiretype)"

definition wire_type_of :: "u8 \<Rightarrow> u32 option" where
  "wire_type_of ltype =
     (if ltype \<in> {PB_LTYPE_BOOL, PB_LTYPE_VARINT, PB_LTYPE_UVARINT, PB_LTYPE_SVARINT} then Some PB_WT_VARINT
      else if ltype = PB_LTYPE_FIXED32 then Some PB_WT_32BIT
      else if ltype = PB_LTYPE_FIXED64 then Some PB_WT_64BIT
      else if ltype \<in> {PB_LTYPE_BYTES, PB_LTYPE_STRING, PB_LTYPE_SUBMESSAGE, PB_LTYPE_FIXED_LENGTH_BYTES}
        then Some PB_WT_STRING
      else None)"

definition pb_encode_tag_for_field :: "'s pb_ostream \<Rightarrow> pb_field \<Rightarrow> unit option \<times> 's pb_ostream" where
  "pb_encode_tag_for_field st field =
     (case wire_type_of (PB_LTYPE (field_type field)) of
        None \<Rightarrow> os_error ''invalid field type'' st
      | Some wiretype \<Rightarrow> pb_encode_tag st wiretype (tag field))"

definition pb_encode_string :: "'s pb_ostream \<Rightarrow> u8 list \<Rightarrow> nat \<Rightarrow> unit option \<times> 's pb_ostream" where
  "pb_encode_string st buffer n =
     on_success (pb_encode_varint st (of_nat n)) (\<lambda>_ st'. pb_write st' buffer n)"

section \<open>Field encoders\<close>

text \<open>\<open>bool\<close> has one byte, and any non-zero byte is true.\<close>

definition safe_read_bool :: "u8 list \<Rightarrow> bool" where
  "safe_read_bool p = (p ! 0 \<noteq> 0)"

definition pb_enc_bool :: "'s pb_ostream \<Rightarrow> pb_field \<Rightarrow> u8 list \<Rightarrow> unit option \<times> 's pb_ostream" where
  "pb_enc_bool st field src = pb_encode_varint st (if safe_read_bool src then 1 else 0)"

text \<open>An integer of the given size in memory, and the same as a two's complement number.\<close>

definition load_unsigned :: "nat \<Rightarrow> u8 list \<Rightarrow> u64" where
  "load_unsigned n src = of_nat (le_val (take n src))"

definition load_signed :: "nat \<Rightarrow> u8 list \<Rightarrow> u64" where
  "load_signed n src = signed_take_bit (8 * n - 1) (load_unsigned n src)"

definition pb_enc_varint :: "'s pb_ostream \<Rightarrow> pb_field \<Rightarrow> u8 list \<Rightarrow> unit option \<times> 's pb_ostream" where
  "pb_enc_varint st field src =
     (if data_size field \<in> {1, 2, 4, 8}
      then pb_encode_varint st (load_signed (data_size field) src)
      else os_error ''invalid data_size'' st)"

definition pb_enc_uvarint :: "'s pb_ostream \<Rightarrow> pb_field \<Rightarrow> u8 list \<Rightarrow> unit option \<times> 's pb_ostream" where
  "pb_enc_uvarint st field src =
     (if data_size field \<in> {1, 2, 4, 8}
      then pb_encode_varint st (load_unsigned (data_size field) src)
      else os_error ''invalid data_size'' st)"

definition pb_enc_svarint :: "'s pb_ostream \<Rightarrow> pb_field \<Rightarrow> u8 list \<Rightarrow> unit option \<times> 's pb_ostream" where
  "pb_enc_svarint st field src =
     (if data_size field \<in> {1, 2, 4, 8}
      then pb_encode_svarint st (load_signed (data_size field) src)
      else os_error ''invalid data_size'' st)"

definition pb_enc_fixed64 :: "'s pb_ostream \<Rightarrow> pb_field \<Rightarrow> u8 list \<Rightarrow> unit option \<times> 's pb_ostream" where
  "pb_enc_fixed64 st field src = pb_encode_fixed64 st (load_unsigned 8 src)"

definition pb_enc_fixed32 :: "'s pb_ostream \<Rightarrow> pb_field \<Rightarrow> u8 list \<Rightarrow> unit option \<times> 's pb_ostream" where
  "pb_enc_fixed32 st field src = pb_encode_fixed32 st (ucast (load_unsigned 4 src))"

text \<open>
  A \<open>pb_bytes_array_t\<close> is a 32-bit size and the bytes; \<open>None\<close> is the null pointer. The
  allocation size is computed in \<open>size_t\<close>.
\<close>

definition PB_BYTES_ARRAY_T_ALLOCSIZE :: "nat \<Rightarrow> nat" where
  "PB_BYTES_ARRAY_T_ALLOCSIZE n = size_wrap (n + 4)"

definition pb_enc_bytes :: "'s pb_ostream \<Rightarrow> pb_field \<Rightarrow> u8 list option \<Rightarrow> unit option \<times> 's pb_ostream" where
  "pb_enc_bytes st field src =
     (case src of
        None \<Rightarrow> pb_encode_string st [] 0
      | Some bytes \<Rightarrow>
          (let n = le_val (take 4 bytes); allocsize = PB_BYTES_ARRAY_T_ALLOCSIZE n
           in if allocsize < n \<or> PB_ATYPE (field_type field) = PB_ATYPE_STATIC \<and> allocsize > data_size field
              then os_error ''bytes size exceeded'' st
              else pb_encode_string st (drop 4 bytes) n))"

fun strnlen_loop :: "u8 list \<Rightarrow> nat \<Rightarrow> nat" where
  "strnlen_loop p 0 = 0"
| "strnlen_loop [] (Suc n) = 0"
| "strnlen_loop (c # p) (Suc n) = (if c = 0 then 0 else Suc (strnlen_loop p n))"

text \<open>For a pointer field the loop is bounded by the terminator only.\<close>

definition pb_enc_string :: "'s pb_ostream \<Rightarrow> pb_field \<Rightarrow> u8 list option \<Rightarrow> unit option \<times> 's pb_ostream" where
  "pb_enc_string st field src =
     (case src of
        None \<Rightarrow> pb_encode_string st [] 0
      | Some p \<Rightarrow>
          (let max_size = (if PB_ATYPE (field_type field) = PB_ATYPE_POINTER then length p else data_size field)
           in pb_encode_string st p (strnlen_loop p max_size)))"

definition pb_enc_fixed_length_bytes ::
  "'s pb_ostream \<Rightarrow> pb_field \<Rightarrow> u8 list \<Rightarrow> unit option \<times> 's pb_ostream" where
  "pb_enc_fixed_length_bytes st field src = pb_encode_string st src (data_size field)"

section \<open>The wire format\<close>

lemma varint_byte:
  fixes v :: u64
  shows "(ucast (v AND 0x7F) OR 0x80 :: u8) = of_nat (128 + unat v mod 128)"
    "(ucast (v AND 0x7F) OR 0x80 :: u8) AND 0x7F = of_nat (unat v mod 128)"
proof -
  have "unat (v AND 0x7F) = unat v mod 128"
    using unat_and_mask [of v 7] by (simp add: mask_eq_exp_minus_1)
  moreover have "unat v mod 128 < 256"
    by (rule order_less_trans [OF mod_less_divisor]) simp_all
  ultimately have u: "unat (ucast (v AND 0x7F) :: u8) = unat v mod 128"
    by (simp add: unsigned_ucast_eq take_bit_nat_eq_self)
  let ?b = "ucast (v AND 0x7F) :: u8"
  have "0x80 OR ?b = push_bit 7 1 + ?b"
    using push_bit_or_eq_add [of ?b 7 1] u by simp
  also have "\<dots> = of_nat (128 + unat ?b)"
    by (simp add: of_nat_unat_word)
  finally show e: "?b OR 0x80 = of_nat (128 + unat v mod 128)"
    by (simp only: u or.commute)
  have "unat ((of_nat (128 + unat v mod 128) :: u8) AND 0x7F) = unat v mod 128"
    using unat_and_mask [of "of_nat (128 + unat v mod 128) :: u8" 7]
    by (simp only: unat_of_nat_u8 mask_eq_exp_minus_1) simp
  then show "(?b OR 0x80) AND 0x7F = of_nat (unat v mod 128)"
    unfolding e by (metis of_nat_unat_word)
qed

lemma encode_varint_loop_eq:
  assumes "v \<noteq> 0"
  shows "encode_varint_loop v \<noteq> [] \<and>
    (let buffer = encode_varint_loop v; i = length buffer in buffer[i - 1 := buffer ! (i - 1) AND 0x7F]) =
    varint (unat v)"
  using assms
proof (induction v rule: encode_varint_loop.induct)
  case (1 v)
  let ?b = "ucast (v AND 0x7F) OR 0x80 :: u8" and ?t = "encode_varint_loop (drop_bit 7 v)"
  have unf: "encode_varint_loop v = ?b # ?t"
    using 1 by (simp add: encode_varint_loop.simps [of v])
  have d: "unat (drop_bit 7 v) = unat v div 128" by (simp add: unat_drop_bit)
  show ?case
  proof (cases "unat v < 128")
    case True
    then have z: "drop_bit 7 v = 0" using d by (simp add: word_unat_eq_iff)
    then have "?t = []" by (simp add: encode_varint_loop.simps [of 0])
    then show ?thesis
      using varint_byte(2) [of v] True by (simp add: unf varint.simps [of "unat v"])
  next
    case False
    then have nz: "drop_bit 7 v \<noteq> 0" using d by (auto simp: word_unat_eq_iff)
    have ih: "?t \<noteq> []" "?t[length ?t - 1 := ?t ! (length ?t - 1) AND 0x7F] = varint (unat v div 128)"
      using "1.IH" nz "1.prems" d by (simp_all add: Let_def)
    then obtain x t where t: "?t = x # t" by (cases ?t) auto
    have "varint (unat v) = ?b # varint (unat v div 128)"
      using False by (simp only: varint.simps [of "unat v"] varint_byte(1) if_False)
    then show ?thesis
      using ih(2) by (simp add: unf t Let_def)
  qed
qed

lemma pb_encode_varint_eq:
  "pb_encode_varint st v = pb_write st (varint (unat v)) (length (varint (unat v)))"
proof (cases "v \<le> 0x7F")
  case True
  then have "unat v < 128" by (simp add: word_le_nat_alt)
  then show ?thesis
    using True by (simp add: pb_encode_varint_def varint.simps [of "unat v"])
next
  case False
  then have "v \<noteq> 0" by auto
  from encode_varint_loop_eq [OF this] have "length (encode_varint_loop v) = length (varint (unat v))"
    by (metis length_list_update)
  then show ?thesis
    using False encode_varint_loop_eq [OF \<open>v \<noteq> 0\<close>] by (simp add: pb_encode_varint_def Let_def)
qed

text \<open>Never more than ten bytes: the size of the buffer on the stack.\<close>

lemma varint_u64_length: "length (varint (unat (v :: u64))) \<le> 10"
  using unsigned_less [where ?'a = nat, of v] by (intro varint_length) simp_all

lemma encode_varint_loop_fits: "length (encode_varint_loop v) \<le> 10"
proof (cases "v = 0")
  case True
  then show ?thesis by (simp add: encode_varint_loop.simps [of 0])
next
  case False
  from encode_varint_loop_eq [OF this] have "length (encode_varint_loop v) = length (varint (unat v))"
    by (metis length_list_update)
  then show ?thesis using varint_u64_length [of v] by simp
qed

text \<open>Zigzag maps signed values to unsigned ones: 0, -1, 1, -2, 2, ...\<close>

definition zigzag :: "int \<Rightarrow> nat" where
  "zigzag i = nat (if i < 0 then - 2 * i - 1 else 2 * i)"

definition unzigzag :: "nat \<Rightarrow> int" where
  "unzigzag n = (if even n then int (n div 2) else - int (n div 2) - 1)"

lemma unzigzag_zigzag [simp]: "unzigzag (zigzag i) = i"
  by (auto simp: unzigzag_def zigzag_def even_nat_iff nat_div_distrib)

lemma zigzag_negative:
  "u < 2 ^ 64 \<Longrightarrow> 2 ^ 63 \<le> u \<Longrightarrow> 2 ^ 64 - 1 - (2 * u - 2 ^ 64) = zigzag (int u - 2 ^ 64)"
  by (auto simp: zigzag_def)

lemma zigzag_word:
  "unat (if sint (v :: u64) < 0 then NOT (push_bit 1 v) else push_bit 1 v) = zigzag (sint v)"
proof -
  have v: "unat v < 2 ^ 64" using unsigned_less [where ?'a = nat, of v] by simp
  have p: "unat (push_bit 1 v) = 2 * unat v mod 2 ^ 64"
    by (simp only: unsigned_push_bit_eq push_bit_eq_mult [where 'a = nat] take_bit_eq_mod [where 'a = nat])
      (simp add: mult.commute)
  show ?thesis
  proof (cases "unat v < 2 ^ 63")
    case True
    then have s: "sint v = int (unat v)" by (simp only: sint_u64 if_True)
    have "2 * unat v mod 2 ^ 64 = 2 * unat v" using True by simp
    then show ?thesis using p by (simp only: s zigzag_def) (simp add: nat_mult_distrib)
  next
    case False
    then have s: "sint v = int (unat v) - 2 ^ 64" by (simp only: sint_u64 if_False)
    then have neg: "sint v < 0" 
    proof -
      have "int (unat v) < 2 ^ 64" using v by (simp only: of_nat_less_numeral_power_cancel_iff)
      then show ?thesis using s by linarith
    qed
    have "2 * unat v = 2 * unat v - 2 ^ 64 + 2 ^ 64" using False by simp
    then have "2 * unat v mod 2 ^ 64 = 2 * unat v - 2 ^ 64"
      using v by (metis mod_add_self2 mod_less less_diff_conv2 mult_2 nat_add_left_cancel_less add_less_mono le_add2)
    then have p': "unat (push_bit 1 v) = 2 * unat v - 2 ^ 64" using p by simp
    have "NOT (push_bit 1 v) = - 1 - push_bit 1 v" by (simp add: not_eq_complement)
    moreover have "unat (- 1 - push_bit 1 v :: u64) = unat (- 1 :: u64) - unat (push_bit 1 v)"
      by (rule unat_sub) (rule word_n1_ge)
    moreover have "unat (- 1 :: u64) = 2 ^ 64 - 1"
      by (simp add: unsigned_minus_1_eq_mask mask_eq_exp_minus_1)
    ultimately have "unat (NOT (push_bit 1 v)) = 2 ^ 64 - 1 - (2 * unat v - 2 ^ 64)"
      by (simp only: p')
    then show ?thesis
      using neg zigzag_negative [of "unat v"] False v by (simp only: if_True s not_less)
  qed
qed

lemma pb_encode_fixed32_eq: "pb_encode_fixed32 st val = pb_write st (le_bytes 4 (unat val)) 4"
  by (simp only: pb_encode_fixed32_def byte_of_word byte_of_word_0 le_bytes_4 unat_drop_bit)

lemma pb_encode_fixed64_eq: "pb_encode_fixed64 st val = pb_write st (le_bytes 8 (unat val)) 8"
  by (simp only: pb_encode_fixed64_def byte_of_word byte_of_word_0 le_bytes_8 unat_drop_bit)

lemma tag_word:
  assumes "unat wt < 8"
  shows "unat (push_bit 3 (ucast (n :: u32)) OR ucast (wt :: u32) :: u64) = 8 * unat n + unat wt"
proof -
  have n: "unat n < 2 ^ 32" using unsigned_less [where ?'a = nat, of n] by simp
  then have u: "unat (ucast n :: u64) = unat n"
    by (simp add: unsigned_ucast_eq take_bit_nat_eq_self)
  have w: "unat (ucast wt :: u64) = unat wt"
    using assms by (simp add: unsigned_ucast_eq take_bit_nat_eq_self)
  show ?thesis
    using unat_push_bit_or [of "ucast wt :: u64" 3 "ucast n"] assms n u w by simp
qed

lemma pb_encode_tag_eq:
  assumes "unat wt < 8"
  shows "pb_encode_tag st wt n =
    pb_write st (varint (8 * unat n + unat wt)) (length (varint (8 * unat n + unat wt)))"
  by (simp only: pb_encode_tag_def pb_encode_varint_eq tag_word [OF assms])

section \<open>What the encoders write\<close>

context byte_sink begin

lemma pb_encode_varint_writes: "sink_ok st \<Longrightarrow> writes st (varint (unat v)) (pb_encode_varint st v)"
  unfolding pb_encode_varint_eq
  by (rule pb_write_writes) (use varint_u64_length [of v] in simp_all)

lemma pb_encode_svarint_writes: "sink_ok st \<Longrightarrow> writes st (varint (zigzag (sint v))) (pb_encode_svarint st v)"
  unfolding pb_encode_svarint_def Let_def zigzag_word [symmetric] by (rule pb_encode_varint_writes)

lemma pb_encode_fixed32_writes: "sink_ok st \<Longrightarrow> writes st (le_bytes 4 (unat w)) (pb_encode_fixed32 st w)"
  unfolding pb_encode_fixed32_eq by (rule pb_write_writes) simp_all

lemma pb_encode_fixed64_writes: "sink_ok st \<Longrightarrow> writes st (le_bytes 8 (unat v)) (pb_encode_fixed64 st v)"
  unfolding pb_encode_fixed64_eq by (rule pb_write_writes) simp_all

lemma pb_encode_tag_writes:
  assumes "sink_ok st" "unat wt < 8"
  shows "writes st (varint (8 * unat n + unat wt)) (pb_encode_tag st wt n)"
  unfolding pb_encode_tag_def tag_word [OF assms(2), symmetric]
  using assms(1) by (rule pb_encode_varint_writes)

lemma pb_encode_string_writes:
  assumes "sink_ok st" "n < SIZE_MOD" "n \<le> length buf"
  shows "writes st (varint n @ take n buf) (pb_encode_string st buf n)"
proof -
  have n: "unat (of_nat n :: u64) = n" using assms(2) by (simp add: unat_of_nat)
  have "writes st (varint (unat (of_nat n :: u64))) (pb_encode_varint st (of_nat n))"
    using assms(1) by (rule pb_encode_varint_writes)
  then have v: "writes st (varint n) (pb_encode_varint st (of_nat n))" by (simp only: n)
  have w: "writes st' (take n buf) (pb_write st' buf n)" if "sink_ok st'" for st'
  proof -
    have "pb_write st' buf n = pb_write st' (take n buf) n"
      by (cases "os_callback st'") (simp_all add: pb_write_def)
    then show ?thesis
      using pb_write_writes [OF that, of "take n buf" n] assms(2,3) by simp
  qed
  show ?thesis
    unfolding pb_encode_string_def by (rule writes_seq [OF v]) (rule w)
qed

end

end
