(* ===== verification/Pb_Decode.thy ===== *)
theory Pb_Decode
  imports Pb_Encode
begin

text \<open>
  The decoders of nanopb, \<open>pb_decode.c\<close>: varints, tags, skipping, length-delimited substreams and
  the field decoders \<open>pb_dec_*\<close>. A field decoder writes to the memory \<open>dest\<close> points to; it may have
  written before it fails, so the model returns that memory in either case.
\<close>

section \<open>Varints\<close>

text \<open>
  The loop of the 32-bit decoder after the first byte. \<open>bitpos\<close> is a \<open>uint_fast8_t\<close>; the loop
  leaves the value, the final position and the last byte.
\<close>

function varint32_loop ::
  "'s pb_istream \<Rightarrow> u32 \<Rightarrow> u8 \<Rightarrow> (u32 \<times> u8 \<times> u8) option \<times> 's pb_istream" where
  "varint32_loop st result bitpos =
     (case pb_readbyte st of
        (None, st') \<Rightarrow> (None, st')
      | (Some byte, st') \<Rightarrow>
          (let sign_extension = (if bitpos < 63 then 0xFF else 0x01);
               result' = (if bitpos \<ge> 32 then result
                          else result OR push_bit (unat bitpos) (ucast (byte AND 0x7F)));
               bitpos' = bitpos + 7
           in if bitpos \<ge> 32 \<and> byte AND 0x7F \<noteq> 0 \<and> (drop_bit 31 result = 0 \<or> byte \<noteq> sign_extension)
              then is_error ''varint overflow'' st'
              else if byte AND 0x80 \<noteq> 0 then varint32_loop st' result' bitpos'
              else (Some (result', bitpos', byte), st')))"
  by pat_completeness auto
termination
  by (relation "measure (\<lambda>(st, _). is_bytes_left st)") (auto dest: sym [THEN pb_readbyte_left])

declare varint32_loop.simps [simp del]

text \<open>The second component is what \<open>*eof\<close> is set to (false when it is left alone).\<close>

definition pb_decode_varint32_eof :: "'s pb_istream \<Rightarrow> u32 option \<times> bool \<times> 's pb_istream" where
  "pb_decode_varint32_eof st =
     (case pb_readbyte st of
        (None, st') \<Rightarrow> (None, is_bytes_left st' = 0, st')
      | (Some byte, st') \<Rightarrow>
          (if byte AND 0x80 = 0 then (Some (ucast byte), False, st')
           else
             case varint32_loop st' (ucast (byte AND 0x7F)) 7 of
               (None, st'') \<Rightarrow> (None, False, st'')
             | (Some (result, bitpos, last_byte), st'') \<Rightarrow>
                 (if bitpos = 35 \<and> last_byte AND 0x70 \<noteq> 0
                  then (let (r, s) = is_error ''varint overflow'' st'' in (r, False, s))
                  else (Some result, False, st''))))"

definition pb_decode_varint32 :: "'s pb_istream \<Rightarrow> u32 option \<times> 's pb_istream" where
  "pb_decode_varint32 st = (case pb_decode_varint32_eof st of (r, _, st') \<Rightarrow> (r, st'))"

function varint_loop :: "'s pb_istream \<Rightarrow> u64 \<Rightarrow> u8 \<Rightarrow> u64 option \<times> 's pb_istream" where
  "varint_loop st result bitpos =
     (if bitpos \<ge> 64 then is_error ''varint overflow'' st
      else
        case pb_readbyte st of
          (None, st') \<Rightarrow> (None, st')
        | (Some byte, st') \<Rightarrow>
            (let result' = result OR push_bit (unat bitpos) (ucast (byte AND 0x7F))
             in if byte AND 0x80 \<noteq> 0 then varint_loop st' result' (bitpos + 7)
                else (Some result', st')))"
  by pat_completeness auto
termination
  by (relation "measure (\<lambda>(st, _). is_bytes_left st)") (auto dest: sym [THEN pb_readbyte_left])

declare varint_loop.simps [simp del]

definition pb_decode_varint :: "'s pb_istream \<Rightarrow> u64 option \<times> 's pb_istream" where
  "pb_decode_varint st = varint_loop st 0 0"

lemma pb_read_1_left:
  "pb_read st (Suc 0) = (Some bs, st') \<Longrightarrow> is_bytes_left st' < is_bytes_left st"
  by (auto simp: pb_read_def is_error_def split: if_splits prod.splits option.splits)

function pb_skip_varint :: "'s pb_istream \<Rightarrow> unit option \<times> 's pb_istream" where
  "pb_skip_varint st =
     (case pb_read st 1 of
        (None, st') \<Rightarrow> (None, st')
      | (Some bs, st') \<Rightarrow> (if bs ! 0 AND 0x80 \<noteq> 0 then pb_skip_varint st' else (Some (), st')))"
  by pat_completeness auto
termination
  by (relation "measure is_bytes_left") (auto dest: sym [THEN pb_read_1_left])

declare pb_skip_varint.simps [simp del]

definition pb_decode_svarint :: "'s pb_istream \<Rightarrow> u64 option \<times> 's pb_istream" where
  "pb_decode_svarint st =
     on_success (pb_decode_varint st) (\<lambda>v st'.
       (Some (if v AND 1 \<noteq> 0 then NOT (drop_bit 1 v) else drop_bit 1 v), st'))"

section \<open>Strings, tags and skipping\<close>

definition pb_skip_string :: "'s pb_istream \<Rightarrow> unit option \<times> 's pb_istream" where
  "pb_skip_string st =
     on_success (pb_decode_varint32 st) (\<lambda>length st'. pb_read_null st' (unat length))"

text \<open>The result is the wire type and the tag; the second component is \<open>*eof\<close>.\<close>

definition pb_decode_tag :: "'s pb_istream \<Rightarrow> (u32 \<times> u32) option \<times> bool \<times> 's pb_istream" where
  "pb_decode_tag st =
     (case pb_decode_varint32_eof st of
        (None, eof, st') \<Rightarrow> (None, eof, st')
      | (Some temp, eof, st') \<Rightarrow>
          (if temp = 0 then (None, True, st') else (Some (temp AND 7, drop_bit 3 temp), eof, st')))"

definition pb_skip_field :: "'s pb_istream \<Rightarrow> u32 \<Rightarrow> unit option \<times> 's pb_istream" where
  "pb_skip_field st wire_type =
     (if wire_type = PB_WT_VARINT then pb_skip_varint st
      else if wire_type = PB_WT_64BIT then pb_read_null st 8
      else if wire_type = PB_WT_STRING then pb_skip_string st
      else if wire_type = PB_WT_32BIT then pb_read_null st 4
      else is_error ''invalid wire_type'' st)"

text \<open>The bytes of a value as they are on the wire, at most \<open>max_size\<close> of them.\<close>

fun raw_varint :: "'s pb_istream \<Rightarrow> nat \<Rightarrow> u8 list option \<times> 's pb_istream" where
  "raw_varint st 0 = (None, st)"
| "raw_varint st (Suc n) =
     on_success (pb_read st 1) (\<lambda>bs st'.
       if bs ! 0 AND 0x80 \<noteq> 0 then on_success (raw_varint st' n) (\<lambda>r st''. (Some (bs @ r), st''))
       else (Some bs, st'))"

definition read_raw_value :: "'s pb_istream \<Rightarrow> u32 \<Rightarrow> nat \<Rightarrow> u8 list option \<times> 's pb_istream" where
  "read_raw_value st wire_type max_size =
     (if wire_type = PB_WT_VARINT then raw_varint st max_size
      else if wire_type = PB_WT_64BIT then pb_read st 8
      else if wire_type = PB_WT_32BIT then pb_read st 4
      else is_error ''invalid wire_type'' st)"

text \<open>The substream and the parent, which no longer counts the substream's bytes.\<close>

definition pb_make_string_substream ::
  "'s pb_istream \<Rightarrow> 's pb_istream option \<times> 's pb_istream" where
  "pb_make_string_substream st =
     on_success (pb_decode_varint32 st) (\<lambda>n st'.
       if is_bytes_left st' < unat n then is_error ''parent stream too short'' st'
       else (Some (st'\<lparr>is_bytes_left := unat n\<rparr>), st'\<lparr>is_bytes_left := is_bytes_left st' - unat n\<rparr>))"

definition pb_close_string_substream ::
  "'s pb_istream \<Rightarrow> 's pb_istream \<Rightarrow> unit option \<times> 's pb_istream" where
  "pb_close_string_substream st substream =
     (case (if is_bytes_left substream \<noteq> 0 then pb_read_null substream (is_bytes_left substream)
            else (Some (), substream)) of
        (None, _) \<Rightarrow> (None, st)
      | (Some _, sub) \<Rightarrow> (Some (), st\<lparr>is_state := is_state sub, is_errmsg := is_errmsg sub\<rparr>))"

section \<open>Fixed-width values\<close>

definition pb_decode_fixed32 :: "'s pb_istream \<Rightarrow> u32 option \<times> 's pb_istream" where
  "pb_decode_fixed32 st =
     on_success (pb_read st 4) (\<lambda>bytes st'.
       (Some (push_bit 0 (ucast (bytes ! 0)) OR push_bit 8 (ucast (bytes ! 1)) OR
              push_bit 16 (ucast (bytes ! 2)) OR push_bit 24 (ucast (bytes ! 3))), st'))"

definition pb_decode_fixed64 :: "'s pb_istream \<Rightarrow> u64 option \<times> 's pb_istream" where
  "pb_decode_fixed64 st =
     on_success (pb_read st 8) (\<lambda>bytes st'.
       (Some (push_bit 0 (ucast (bytes ! 0)) OR push_bit 8 (ucast (bytes ! 1)) OR
              push_bit 16 (ucast (bytes ! 2)) OR push_bit 24 (ucast (bytes ! 3)) OR
              push_bit 32 (ucast (bytes ! 4)) OR push_bit 40 (ucast (bytes ! 5)) OR
              push_bit 48 (ucast (bytes ! 6)) OR push_bit 56 (ucast (bytes ! 7))), st'))"

section \<open>Field decoders\<close>

text \<open>\<open>store n v dest\<close>: the \<open>n\<close> low bytes of \<open>v\<close> written to \<open>dest\<close>.\<close>

definition store :: "nat \<Rightarrow> u64 \<Rightarrow> u8 list \<Rightarrow> u8 list" where
  "store n v dest = mem_put dest 0 (le_bytes n (unat v))"

type_synonym 's decoded = "unit option \<times> u8 list \<times> 's pb_istream"

definition with_dest :: "u8 list \<Rightarrow> 'a option \<times> 's pb_istream \<Rightarrow> ('a \<Rightarrow> 's pb_istream \<Rightarrow> 's decoded) \<Rightarrow> 's decoded" where
  "with_dest dest r f = (case r of (None, st) \<Rightarrow> (None, dest, st) | (Some a, st) \<Rightarrow> f a st)"

definition dec_error :: "u8 list \<Rightarrow> string \<Rightarrow> 's pb_istream \<Rightarrow> 's decoded" where
  "dec_error dest msg st = (case is_error msg st of (r, st') \<Rightarrow> (r, dest, st'))"

definition pb_dec_bool :: "'s pb_istream \<Rightarrow> pb_field \<Rightarrow> u8 list \<Rightarrow> 's decoded" where
  "pb_dec_bool st field dest =
     with_dest dest (pb_decode_varint32 st) (\<lambda>v st'.
       (Some (), mem_put dest 0 [if v \<noteq> 0 then 1 else 0], st'))"

definition pb_decode_bool :: "'s pb_istream \<Rightarrow> u8 list \<Rightarrow> 's decoded" where
  "pb_decode_bool st dest =
     with_dest dest (pb_decode_varint32 st) (\<lambda>v st'.
       (Some (), mem_put dest 0 [if v \<noteq> 0 then 1 else 0], st'))"

text \<open>
  The value truncated to the field and read back (\<open>clamped\<close>) is compared with the value decoded.
\<close>

definition clamp_signed :: "nat \<Rightarrow> u64 \<Rightarrow> u64" where
  "clamp_signed n v = signed_take_bit (8 * n - 1) v"

definition pb_dec_varint :: "'s pb_istream \<Rightarrow> pb_field \<Rightarrow> u8 list \<Rightarrow> 's decoded" where
  "pb_dec_varint st field dest =
     with_dest dest (pb_decode_varint st) (\<lambda>v st'.
       let svalue = (if data_size field = 8 then v else clamp_signed 4 v)
       in if data_size field \<in> {8, 4, 2, 1} then
            (let dest' = store (data_size field) svalue dest;
                 clamped = clamp_signed (data_size field) svalue
             in if clamped \<noteq> svalue then dec_error dest' ''integer too large'' st'
                else (Some (), dest', st'))
          else dec_error dest ''invalid data_size'' st')"

definition pb_dec_uvarint :: "'s pb_istream \<Rightarrow> pb_field \<Rightarrow> u8 list \<Rightarrow> 's decoded" where
  "pb_dec_uvarint st field dest =
     with_dest dest (pb_decode_varint st) (\<lambda>v st'.
       if data_size field \<in> {8, 4, 2, 1} then
         (let dest' = store (data_size field) v dest;
              clamped = take_bit (8 * data_size field) v
          in if clamped \<noteq> v then dec_error dest' ''integer too large'' st'
             else (Some (), dest', st'))
       else dec_error dest ''invalid data_size'' st')"

definition pb_dec_svarint :: "'s pb_istream \<Rightarrow> pb_field \<Rightarrow> u8 list \<Rightarrow> 's decoded" where
  "pb_dec_svarint st field dest =
     with_dest dest (pb_decode_svarint st) (\<lambda>v st'.
       if data_size field \<in> {8, 4, 2, 1} then
         (let dest' = store (data_size field) v dest;
              clamped = clamp_signed (data_size field) v
          in if clamped \<noteq> v then dec_error dest' ''integer too large'' st'
             else (Some (), dest', st'))
       else dec_error dest ''invalid data_size'' st')"

definition pb_dec_fixed32 :: "'s pb_istream \<Rightarrow> pb_field \<Rightarrow> u8 list \<Rightarrow> 's decoded" where
  "pb_dec_fixed32 st field dest =
     with_dest dest (pb_decode_fixed32 st) (\<lambda>v st'. (Some (), store 4 (ucast v) dest, st'))"

definition pb_dec_fixed64 :: "'s pb_istream \<Rightarrow> pb_field \<Rightarrow> u8 list \<Rightarrow> 's decoded" where
  "pb_dec_fixed64 st field dest =
     with_dest dest (pb_decode_fixed64 st) (\<lambda>v st'. (Some (), store 8 v dest, st'))"

text \<open>
  Bytes and strings of a pointer field go to a block from \<open>allocate_field\<close>, which the first
  argument stands for: \<open>None\<close> when the allocation fails, or the fresh block. A static field is
  decoded in place. A failed read leaves the destination as the callback left it; the model keeps
  the bytes before the read.
\<close>

definition pb_dec_bytes ::
  "(nat \<Rightarrow> u8 list option) \<Rightarrow> 's pb_istream \<Rightarrow> pb_field \<Rightarrow> u8 list \<Rightarrow> 's decoded" where
  "pb_dec_bytes allocate st field dest =
     with_dest dest (pb_decode_varint32 st) (\<lambda>n st'.
       let alloc_size = PB_BYTES_ARRAY_T_ALLOCSIZE (unat n)
       in if unat n > alloc_size then dec_error dest ''size too large'' st'
          else if PB_ATYPE (field_type field) \<noteq> PB_ATYPE_POINTER \<and> alloc_size > data_size field
            then dec_error dest ''bytes overflow'' st'
          else
            case (if PB_ATYPE (field_type field) = PB_ATYPE_POINTER then allocate alloc_size else Some dest) of
              None \<Rightarrow> dec_error dest ''realloc failed'' st'
            | Some bdest \<Rightarrow>
                (let bdest' = mem_put bdest 0 (le_bytes 4 (unat n))
                 in with_dest bdest' (pb_read st' (unat n)) (\<lambda>bs st''.
                      (Some (), mem_put bdest' 4 bs, st''))))"

text \<open>\<open>size + 1\<close> is computed in 32 bits. The terminator is written even when the read fails.\<close>

definition pb_dec_string ::
  "(nat \<Rightarrow> u8 list option) \<Rightarrow> 's pb_istream \<Rightarrow> pb_field \<Rightarrow> u8 list \<Rightarrow> 's decoded" where
  "pb_dec_string allocate st field dest =
     with_dest dest (pb_decode_varint32 st) (\<lambda>n st'.
       let alloc_size = unat (n + 1)
       in if alloc_size < unat n then dec_error dest ''size too large'' st'
          else if PB_ATYPE (field_type field) \<noteq> PB_ATYPE_POINTER \<and> alloc_size > data_size field
            then dec_error dest ''string overflow'' st'
          else
            case (if PB_ATYPE (field_type field) = PB_ATYPE_POINTER then allocate alloc_size else Some dest) of
              None \<Rightarrow> dec_error dest ''realloc failed'' st'
            | Some sdest \<Rightarrow>
                (case pb_read st' (unat n) of
                   (None, st'') \<Rightarrow> (None, mem_put sdest (unat n) [0], st'')
                 | (Some bs, st'') \<Rightarrow> (Some (), mem_put (mem_put sdest 0 bs) (unat n) [0], st'')))"

definition pb_dec_fixed_length_bytes :: "'s pb_istream \<Rightarrow> pb_field \<Rightarrow> u8 list \<Rightarrow> 's decoded" where
  "pb_dec_fixed_length_bytes st field dest =
     with_dest dest (pb_decode_varint32 st) (\<lambda>n st'.
       if n = 0 then (Some (), mem_put dest 0 (replicate (data_size field) 0), st')
       else if unat n \<noteq> data_size field
         then dec_error dest ''incorrect fixed length bytes size'' st'
       else with_dest dest (pb_read st' (data_size field)) (\<lambda>bs st''. (Some (), mem_put dest 0 bs, st'')))"

section \<open>Varints\<close>

lemma or_shifted_group:
  fixes R :: "'a::len word" and b :: u8
  assumes "8 \<le> LENGTH('a)" "unat R < 2 ^ k" "unat R + unat b mod 128 * 2 ^ k < 2 ^ LENGTH('a)"
  shows "unat (R OR push_bit k (ucast (b AND 0x7F))) = unat R + unat b mod 128 * 2 ^ k"
proof -
  have u: "unat (ucast (b AND 0x7F) :: 'a word) = unat b mod 128"
    using assms(1) unat_and_mask [of b 7] by (simp add: mask_eq_exp_minus_1)
  show ?thesis
    using unat_push_bit_or [of R k "ucast (b AND 0x7F)"] assms u by (simp add: or.commute add.commute)
qed

lemma u8_bitpos: "k \<le> 30 \<Longrightarrow> unat (of_nat (7 * k) :: u8) = 7 * k"
  by (rule unat_of_nat_u8_less) simp

lemma varint_cases:
  obtains (last) b where "varint m = [b]" "unat b = m" "m < 128"
  | (more) b where "varint m = b # varint (m div 128)" "unat b = 128 + m mod 128" "128 \<le> m"
proof (cases "m < 128")
  case True
  then show ?thesis using last [of "of_nat m"] by (simp add: varint.simps [of m] unat_of_nat_u8)
next
  case False
  have "unat (of_nat (128 + m mod 128) :: u8) = 128 + m mod 128"
    by (simp only: unat_of_nat_u8) simp
  then show ?thesis
    using more [of "of_nat (128 + m mod 128)"] False by (simp add: varint.simps [of m] del: of_nat_add)
qed

context byte_source begin

lemma varint_loop_reads:
  assumes "source_ok st" "pending st = varint m @ r" "unat R < 2 ^ (7 * k)" "unat R + m * 2 ^ (7 * k) < 2 ^ 64"
    "k \<le> 9"
  shows "\<exists>st'. varint_loop st R (of_nat (7 * k)) = (Some (of_nat (unat R + m * 2 ^ (7 * k))), st') \<and>
    reads st (length (varint m)) st'"
  using assms
proof (induction m arbitrary: st R k rule: less_induct)
  case (less m)
  have k: "unat (of_nat (7 * k) :: u8) = 7 * k" using less.prems(5) by (intro u8_bitpos) simp
  then have g: "\<not> (of_nat (7 * k) :: u8) \<ge> 64" using less.prems(5) by (simp add: word_le_nat_alt)
  show ?case
  proof (cases m rule: varint_cases)
    case (last b)
    then have p: "pending st = b # r" using less.prems(2) by simp
    then obtain st' where st': "pb_readbyte st = (Some b, st')" "reads st 1 st'"
      using pb_readbyte_reads [OF less.prems(1)] by blast
    have v: "unat (R OR push_bit (7 * k) (ucast (b AND 0x7F))) = unat R + m * 2 ^ (7 * k)"
      using or_shifted_group [of R "7 * k" b] less.prems(3,4) last by simp
    then have "R OR push_bit (7 * k) (ucast (b AND 0x7F)) = of_nat (unat R + m * 2 ^ (7 * k))"
      by (metis of_nat_unat_word)
    then show ?thesis
      using st' last g k by (simp add: varint_loop.simps [of st] u8_and_0x80)
  next
    case (more b)
    then have p: "pending st = b # varint (m div 128) @ r" using less.prems(2) by simp
    then obtain st1 where st1: "pb_readbyte st = (Some b, st1)" "reads st 1 st1" "pending st1 = varint (m div 128) @ r"
      using pb_readbyte_reads [OF less.prems(1)] by blast
    then have ok1: "source_ok st1" by (simp add: reads_def)
    let ?R = "R OR push_bit (7 * k) (ucast (b AND 0x7F))"
    have split: "m mod 128 * 2 ^ (7 * k) + m div 128 * 2 ^ (7 * Suc k) = m * 2 ^ (7 * k)"
    proof -
      have "a * 128 + c = n \<Longrightarrow> c * P + a * (128 * P) = n * P" for a c n P :: nat
        by (auto simp: algebra_simps)
      from this [OF div_mult_mod_eq [of m 128]] show ?thesis by (simp add: power_add)
    qed
    have bm: "unat b mod 128 = m mod 128" using more(2) by simp
    have "unat R + m mod 128 * 2 ^ (7 * k) < 2 ^ 64"
      using less.prems(4) split by linarith
    then have v: "unat ?R = unat R + m mod 128 * 2 ^ (7 * k)"
      using or_shifted_group [of R "7 * k" b] less.prems(3) bm by simp
    have "m mod 128 * 2 ^ (7 * k) \<le> 127 * 2 ^ (7 * k)"
      by (rule mult_right_mono) (simp_all add: less_Suc_eq_le [symmetric])
    moreover have pk: "(2 :: nat) ^ (7 * Suc k) = 128 * 2 ^ (7 * k)" by (simp add: power_add)
    ultimately have b1: "unat ?R < 2 ^ (7 * Suc k)"
      using less.prems(3) unfolding v pk by linarith
    have b2: "unat ?R + m div 128 * 2 ^ (7 * Suc k) = unat R + m * 2 ^ (7 * k)"
      using v split by linarith
    have k9: "Suc k \<le> 9"
    proof (rule ccontr)
      assume "\<not> Suc k \<le> 9"
      then have "k = 9" using less.prems(5) by simp
      then have "128 * 2 ^ 63 \<le> m * 2 ^ (7 * k)" using more(3) by simp
      then show False using less.prems(4) by simp
    qed
    have lt: "m div 128 < m" using more(3) by simp
    have bound: "unat ?R + m div 128 * 2 ^ (7 * Suc k) < 2 ^ 64"
      unfolding b2 by (rule less.prems(4))
    note ih = less.IH [OF lt ok1 st1(3) b1 bound k9, unfolded b2]
    then obtain st' where st': "varint_loop st1 ?R (of_nat (7 * Suc k)) = (Some (of_nat (unat R + m * 2 ^ (7 * k))), st')"
      "reads st1 (length (varint (m div 128))) st'"
      by blast
    have "(of_nat (7 * k) + 7 :: u8) = of_nat (7 * Suc k)" by simp
    then have "varint_loop st R (of_nat (7 * k)) = varint_loop st1 ?R (of_nat (7 * Suc k))"
      using st1(1) g k more(2) by (simp only: varint_loop.simps [of st] if_False prod.case option.case Let_def u8_and_0x80) simp
    then show ?thesis
      using st' reads_trans [OF st1(2) st'(2)] more(1) by auto
  qed
qed

lemma pb_decode_varint_reads:
  assumes "source_ok st" "pending st = varint m @ r" "m < 2 ^ 64"
  shows "\<exists>st'. pb_decode_varint st = (Some (of_nat m), st') \<and> reads st (length (varint m)) st'"
  using varint_loop_reads [OF assms(1,2), of 0 0] assms(3) by (simp add: pb_decode_varint_def)

end

lemma and_0x70_small:
  assumes "unat (x :: u8) < 16"
  shows "x AND 0x70 = 0"
proof -
  have x: "x = take_bit 4 x"
    using assms by (simp add: word_unat_eq_iff unsigned_take_bit_eq take_bit_nat_eq_self)
  have h: "(0x70 :: u8) = push_bit 4 7" by simp
  have "take_bit 4 x AND push_bit 4 y = 0" for y
    by (rule bit_word_eqI) (auto simp: bit_simps)
  from this [of 7] show ?thesis using x by (simp only: h)
qed

context byte_source begin

lemma varint32_loop_reads:
  assumes "source_ok st" "pending st = varint m @ r" "unat R < 2 ^ (7 * k)" "unat R + m * 2 ^ (7 * k) < 2 ^ 32"
    "k \<le> 4"
  shows "\<exists>bp x st'. varint32_loop st R (of_nat (7 * k)) = (Some (of_nat (unat R + m * 2 ^ (7 * k)), bp, x), st') \<and>
    reads st (length (varint m)) st' \<and> (bp = 35 \<longrightarrow> unat x < 16)"
  using assms
proof (induction m arbitrary: st R k rule: less_induct)
  case (less m)
  have k: "unat (of_nat (7 * k) :: u8) = 7 * k" using less.prems(5) by (intro u8_bitpos) simp
  then have g: "\<not> (of_nat (7 * k) :: u8) \<ge> 32" using less.prems(5) by (simp add: word_le_nat_alt)
  have bp: "(of_nat (7 * k) + 7 :: u8) = of_nat (7 * Suc k)" by simp
  show ?case
  proof (cases m rule: varint_cases)
    case (last b)
    then have p: "pending st = b # r" using less.prems(2) by simp
    then obtain st' where st': "pb_readbyte st = (Some b, st')" "reads st 1 st'"
      using pb_readbyte_reads [OF less.prems(1)] by blast
    let ?v = "R OR push_bit (7 * k) (ucast (b AND 0x7F))"
    have v: "unat ?v = unat R + m * 2 ^ (7 * k)"
      using or_shifted_group [of R "7 * k" b] less.prems(3,4) last by simp
    then have e: "?v = of_nat (unat R + m * 2 ^ (7 * k))"
      by (metis of_nat_unat_word)
    have fin: "unat b < 16" if "(of_nat (7 * Suc k) :: u8) = 35"
    proof -
      have "unat (of_nat (7 * Suc k) :: u8) = 7 * Suc k" using less.prems(5) by (intro u8_bitpos) simp
      then have "k = 4" using that by simp
      then show ?thesis using less.prems(4) last(2) by simp
    qed
    have "varint32_loop st R (of_nat (7 * k)) = (Some (?v, of_nat (7 * Suc k), b), st')"
      using st'(1) g k last(2,3) by (simp only: varint32_loop.simps [of st] prod.case option.case Let_def u8_and_0x80 bp) simp
    then show ?thesis
      using st'(2) last(1) fin e by auto
  next
    case (more b)
    then have p: "pending st = b # varint (m div 128) @ r" using less.prems(2) by simp
    then obtain st1 where st1: "pb_readbyte st = (Some b, st1)" "reads st 1 st1" "pending st1 = varint (m div 128) @ r"
      using pb_readbyte_reads [OF less.prems(1)] by blast
    then have ok1: "source_ok st1" by (simp add: reads_def)
    let ?R = "R OR push_bit (7 * k) (ucast (b AND 0x7F))"
    have split: "m mod 128 * 2 ^ (7 * k) + m div 128 * 2 ^ (7 * Suc k) = m * 2 ^ (7 * k)"
    proof -
      have "a * 128 + c = n \<Longrightarrow> c * P + a * (128 * P) = n * P" for a c n P :: nat
        by (auto simp: algebra_simps)
      from this [OF div_mult_mod_eq [of m 128]] show ?thesis by (simp add: power_add)
    qed
    have bm: "unat b mod 128 = m mod 128" using more(2) by simp
    have "unat R + m mod 128 * 2 ^ (7 * k) < 2 ^ 32"
      using less.prems(4) split by linarith
    then have v: "unat ?R = unat R + m mod 128 * 2 ^ (7 * k)"
      using or_shifted_group [of R "7 * k" b] less.prems(3) bm by simp
    have "m mod 128 * 2 ^ (7 * k) \<le> 127 * 2 ^ (7 * k)"
      by (rule mult_right_mono) (simp_all add: less_Suc_eq_le [symmetric])
    moreover have pk: "(2 :: nat) ^ (7 * Suc k) = 128 * 2 ^ (7 * k)" by (simp add: power_add)
    ultimately have b1: "unat ?R < 2 ^ (7 * Suc k)"
      using less.prems(3) unfolding v pk by linarith
    have b2: "unat ?R + m div 128 * 2 ^ (7 * Suc k) = unat R + m * 2 ^ (7 * k)"
      using v split by linarith
    have k4: "Suc k \<le> 4"
    proof (rule ccontr)
      assume "\<not> Suc k \<le> 4"
      then have "k = 4" using less.prems(5) by simp
      then have "128 * 2 ^ 28 \<le> m * 2 ^ (7 * k)" using more(3) by simp
      then show False using less.prems(4) by simp
    qed
    have lt: "m div 128 < m" using more(3) by simp
    have bound: "unat ?R + m div 128 * 2 ^ (7 * Suc k) < 2 ^ 32"
      unfolding b2 by (rule less.prems(4))
    note ih = less.IH [OF lt ok1 st1(3) b1 bound k4, unfolded b2]
    then obtain bp' x st' where st': "varint32_loop st1 ?R (of_nat (7 * Suc k)) =
        (Some (of_nat (unat R + m * 2 ^ (7 * k)), bp', x), st')"
      "reads st1 (length (varint (m div 128))) st'" "bp' = 35 \<longrightarrow> unat x < 16"
      by blast
    have "varint32_loop st R (of_nat (7 * k)) = varint32_loop st1 ?R (of_nat (7 * Suc k))"
      using st1(1) g k more(2) by (simp only: varint32_loop.simps [of st] prod.case option.case Let_def u8_and_0x80 bp) simp
    then show ?thesis
      using st' reads_trans [OF st1(2) st'(2)] more(1) by auto
  qed
qed

lemma pb_decode_varint32_eof_reads:
  assumes "source_ok st" "pending st = varint m @ r" "m < 2 ^ 32"
  shows "\<exists>st'. pb_decode_varint32_eof st = (Some (of_nat m), False, st') \<and> reads st (length (varint m)) st'"
proof (cases m rule: varint_cases)
  case (last b)
  then have "pending st = b # r" using assms(2) by simp
  then obtain st' where st': "pb_readbyte st = (Some b, st')" "reads st 1 st'"
    using pb_readbyte_reads [OF assms(1)] by blast
  have "(ucast b :: u32) = of_nat m" using last(2) assms(3) by (simp add: word_unat_eq_iff unat_of_nat)
  then show ?thesis
    using st' last by (simp add: pb_decode_varint32_eof_def u8_and_0x80)
next
  case (more b)
  then have p: "pending st = b # varint (m div 128) @ r" using assms(2) by simp
  then obtain st1 where st1: "pb_readbyte st = (Some b, st1)" "reads st 1 st1" "pending st1 = varint (m div 128) @ r"
    using pb_readbyte_reads [OF assms(1)] by blast
  then have ok1: "source_ok st1" by (simp add: reads_def)
  let ?R = "ucast (b AND 0x7F) :: u32"
  have R: "unat ?R = m mod 128"
    using more(2) by (simp add: unat_u8_and_0x7f)
  have e: "unat ?R + m div 128 * 2 ^ (7 * 1) = m"
    using R by simp
  have p1: "unat ?R < 2 ^ (7 * 1)" "unat ?R + m div 128 * 2 ^ (7 * 1) < 2 ^ 32" "(1 :: nat) \<le> 4"
    using R assms(3) e by simp_all
  obtain bp x st' where st': "varint32_loop st1 ?R (of_nat (7 * 1)) = (Some (of_nat m, bp, x), st')"
    "reads st1 (length (varint (m div 128))) st'" "bp = 35 \<longrightarrow> unat x < 16"
    using varint32_loop_reads [OF ok1 st1(3) p1] unfolding e by blast
  have "\<not> (bp = 35 \<and> x AND 0x70 \<noteq> 0)" using st'(3) and_0x70_small by blast
  then show ?thesis
    using st1(1) st' more(2) reads_trans [OF st1(2) st'(2)] more(1)
    by (auto simp: pb_decode_varint32_eof_def u8_and_0x80)
qed

lemma pb_decode_varint32_reads:
  assumes "source_ok st" "pending st = varint m @ r" "m < 2 ^ 32"
  shows "\<exists>st'. pb_decode_varint32 st = (Some (of_nat m), st') \<and> reads st (length (varint m)) st'"
  using pb_decode_varint32_eof_reads [OF assms] by (auto simp: pb_decode_varint32_def)

lemma pb_decode_tag_reads:
  assumes "source_ok st" "pending st = varint (8 * f + wt) @ r" "0 < f" "wt < 8" "8 * f + wt < 2 ^ 32"
  shows "\<exists>st'. pb_decode_tag st = (Some (of_nat wt, of_nat f), False, st') \<and>
    reads st (length (varint (8 * f + wt))) st'"
proof -
  let ?t = "of_nat (8 * f + wt) :: u32"
  have t: "unat ?t = 8 * f + wt" using assms(5) by (simp add: unat_of_nat del: of_nat_add of_nat_mult)
  have nz: "?t \<noteq> 0"
  proof
    assume "?t = 0"
    then have "unat ?t = 0" by (simp only: unsigned_0)
    then show False using t assms(3) by simp
  qed
  have "unat (?t AND 7) = wt"
    using unat_and_mask [of ?t 3] t assms(4) by (simp add: mask_eq_exp_minus_1 del: of_nat_add of_nat_mult)
  then have a: "?t AND 7 = of_nat wt" by (metis of_nat_unat_word)
  have "unat (drop_bit 3 ?t) = f"
    using t assms(4) by (simp add: unat_drop_bit del: of_nat_add of_nat_mult)
  then have b: "drop_bit 3 ?t = of_nat f" by (metis of_nat_unat_word)
  obtain st' where "pb_decode_varint32_eof st = (Some ?t, False, st')" "reads st (length (varint (8 * f + wt))) st'"
    using pb_decode_varint32_eof_reads [OF assms(1,2,5)] by blast
  then show ?thesis
    by (simp add: pb_decode_tag_def nz a b del: of_nat_add of_nat_mult)
qed

end

section \<open>Little-endian values\<close>

fun le_word :: "u8 list \<Rightarrow> 'a::len word" where
  "le_word [] = 0"
| "le_word (b # bs) = ucast b OR push_bit 8 (le_word bs)"

lemma le_val_Cons: "le_val (b # bs) = unat b + 256 * le_val bs"
  by (simp add: le_val_def)

lemma unat_le_word:
  "8 * length bs \<le> LENGTH('a::len) \<Longrightarrow> unat (le_word bs :: 'a word) = le_val bs"
proof (induction bs)
  case Nil
  then show ?case by (simp add: le_val_def)
next
  case (Cons b bs)
  then have ih: "unat (le_word bs :: 'a word) = le_val bs" by simp
  have l: "8 \<le> LENGTH('a)" using Cons.prems by simp
  have "le_val (b # bs) < 256 ^ length (b # bs)" by (rule le_val_less)
  also have "(256 :: nat) ^ length (b # bs) = 2 ^ (8 * length (b # bs))" by (simp only: power_mult) simp
  also have "\<dots> \<le> 2 ^ LENGTH('a)" using Cons.prems by (intro power_increasing) simp_all
  finally have fits: "unat b + 256 * le_val bs < 2 ^ LENGTH('a)" by (simp add: le_val_Cons)
  have "unat (push_bit 8 (le_word bs) OR ucast b :: 'a word) = le_val bs * 256 + unat b"
    using unat_push_bit_or [of "ucast b :: 'a word" 8 "le_word bs"] fits ih l by (simp add: mult.commute add.commute)
  then show ?case by (simp add: or.commute le_val_Cons mult.commute add.commute)
qed

lemma le_word_of_nat:
  "8 * length bs \<le> LENGTH('a::len) \<Longrightarrow> (le_word bs :: 'a word) = of_nat (le_val bs)"
  using unat_le_word [of bs, where ?'a = 'a] by (metis of_nat_unat_word)

lemma length_4E: "length bs = 4 \<Longrightarrow> \<exists>a b c d. bs = [a, b, c, d]"
  by (auto simp: length_Suc_conv numeral_eq_Suc)

lemma length_8E: "length bs = 8 \<Longrightarrow> \<exists>a b c d e f g h. bs = [a, b, c, d, e, f, g, h]"
  by (auto simp: length_Suc_conv numeral_eq_Suc)

lemma le_word_4:
  "length bs = 4 \<Longrightarrow> push_bit 0 (ucast (bs ! 0)) OR push_bit 8 (ucast (bs ! 1)) OR
     push_bit 16 (ucast (bs ! 2)) OR push_bit 24 (ucast (bs ! 3)) = (le_word bs :: u32)"
  by (drule length_4E) (auto simp: push_bit_or push_bit_push_bit or.assoc)

lemma le_word_8:
  "length bs = 8 \<Longrightarrow> push_bit 0 (ucast (bs ! 0)) OR push_bit 8 (ucast (bs ! 1)) OR
     push_bit 16 (ucast (bs ! 2)) OR push_bit 24 (ucast (bs ! 3)) OR push_bit 32 (ucast (bs ! 4)) OR
     push_bit 40 (ucast (bs ! 5)) OR push_bit 48 (ucast (bs ! 6)) OR push_bit 56 (ucast (bs ! 7)) =
   (le_word bs :: u64)"
  by (drule length_8E) (auto simp: push_bit_or push_bit_push_bit or.assoc)

lemma unzigzag_word:
  fixes v :: u64
  shows "sint (if v AND 1 \<noteq> 0 then NOT (drop_bit 1 v) else drop_bit 1 v) = unzigzag (unat v)"
proof -
  have v: "unat v < 2 ^ 64" using unsigned_less [where ?'a = nat, of v] by simp
  have "unat (v AND 1) = unat v mod 2"
    using unat_and_mask [of v 1] by (simp add: mask_eq_exp_minus_1)
  then have odd: "v AND 1 \<noteq> 0 \<longleftrightarrow> odd (unat v)"
    by (auto simp: word_unat_eq_iff even_iff_mod_2_eq_zero)
  have d: "unat (drop_bit 1 v) = unat v div 2" by (simp add: unat_drop_bit)
  have d63: "unat v div 2 < 2 ^ 63" using v by simp
  show ?thesis
  proof (cases "odd (unat v)")
    case False
    then show ?thesis
      using odd d d63 by (simp only: sint_u64 if_True if_False simp_thms unzigzag_def not_not)
  next
    case True
    have "NOT (drop_bit 1 v) = - 1 - drop_bit 1 v" by (simp add: not_eq_complement)
    moreover have "unat (- 1 - drop_bit 1 v :: u64) = unat (- 1 :: u64) - unat (drop_bit 1 v)"
      by (rule unat_sub) (rule word_n1_ge)
    moreover have "unat (- 1 :: u64) = 2 ^ 64 - 1"
      by (simp add: unsigned_minus_1_eq_mask mask_eq_exp_minus_1)
    ultimately have n: "unat (NOT (drop_bit 1 v)) = 2 ^ 64 - 1 - unat v div 2"
      by (simp only: d)
    have "\<not> 2 ^ 64 - 1 - unat v div 2 < (2 :: nat) ^ 63" using d63 by simp
    moreover have "int (2 ^ 64 - 1 - unat v div 2) - 2 ^ 64 = - int (unat v div 2) - 1"
      using d63 by (simp add: of_nat_diff)
    ultimately have "sint (NOT (drop_bit 1 v)) = - int (unat v div 2) - 1"
      by (simp only: sint_u64 n if_False)
    then show ?thesis
      using True odd by (simp only: if_True simp_thms unzigzag_def if_False)
  qed
qed

context byte_source begin

lemma pb_decode_svarint_reads:
  assumes "source_ok st" "pending st = varint m @ r" "m < 2 ^ 64"
  shows "\<exists>v st'. pb_decode_svarint st = (Some v, st') \<and> sint v = unzigzag m \<and> reads st (length (varint m)) st'"
proof -
  obtain st' where st': "pb_decode_varint st = (Some (of_nat m), st')" "reads st (length (varint m)) st'"
    using pb_decode_varint_reads [OF assms] by blast
  have "unat (of_nat m :: u64) = m" using assms(3) by (simp add: unat_of_nat)
  then show ?thesis
    using st' unzigzag_word [of "of_nat m"] by (auto simp: pb_decode_svarint_def)
qed

lemma pb_decode_fixed32_reads:
  assumes "source_ok st" "pending st = bs @ r" "length bs = 4"
  shows "\<exists>st'. pb_decode_fixed32 st = (Some (of_nat (le_val bs)), st') \<and> reads st 4 st'"
proof -
  have "4 \<le> is_bytes_left st" using assms length_pending [OF assms(1)] by simp
  then obtain st' where st': "pb_read st 4 = (Some (take 4 (pending st)), st')" "reads st 4 st'"
    using pb_read_reads [OF assms(1), of 4] by auto
  moreover have "take 4 (pending st) = bs" using assms by simp
  ultimately show ?thesis
    using le_word_4 [OF assms(3)] le_word_of_nat [of bs, where ?'a = 32] assms(3)
    by (simp only: pb_decode_fixed32_def on_success_simps) simp
qed

lemma pb_decode_fixed64_reads:
  assumes "source_ok st" "pending st = bs @ r" "length bs = 8"
  shows "\<exists>st'. pb_decode_fixed64 st = (Some (of_nat (le_val bs)), st') \<and> reads st 8 st'"
proof -
  have "8 \<le> is_bytes_left st" using assms length_pending [OF assms(1)] by simp
  then obtain st' where st': "pb_read st 8 = (Some (take 8 (pending st)), st')" "reads st 8 st'"
    using pb_read_reads [OF assms(1), of 8] by auto
  moreover have "take 8 (pending st) = bs" using assms by simp
  ultimately show ?thesis
    using le_word_8 [OF assms(3)] le_word_of_nat [of bs, where ?'a = 64] assms(3)
    by (simp only: pb_decode_fixed64_def on_success_simps) simp
qed

end

section \<open>Skipping and substreams\<close>

context byte_source begin

lemma pb_skip_varint_reads:
  assumes "source_ok st" "pending st = varint m @ r"
  shows "\<exists>st'. pb_skip_varint st = (Some (), st') \<and> reads st (length (varint m)) st'"
  using assms
proof (induction m arbitrary: st rule: less_induct)
  case (less m)
  obtain b t where bt: "varint m = b # t" by (cases m rule: varint_cases) auto
  then have "1 \<le> is_bytes_left st" using less.prems length_pending [OF less.prems(1)] by simp
  then obtain st1 where st1: "pb_read st 1 = (Some (take 1 (pending st)), st1)" "reads st 1 st1"
    using pb_read_reads [OF less.prems(1), of 1] by auto
  then have get: "pb_read st 1 = (Some [b], st1)" using less.prems(2) bt by simp
  show ?case
  proof (cases m rule: varint_cases)
    case (last b')
    then show ?thesis
      using get bt st1(2) by (simp add: pb_skip_varint.simps [of st] u8_and_0x80)
  next
    case (more b')
    have ok1: "source_ok st1" and p1: "pending st1 = varint (m div 128) @ r"
      using st1(2) less.prems(2) more(1) by (simp_all add: reads_def)
    have "m div 128 < m" using more(3) by simp
    then obtain st' where st': "pb_skip_varint st1 = (Some (), st')" "reads st1 (length (varint (m div 128))) st'"
      using less.IH ok1 p1 by blast
    have "pb_skip_varint st = pb_skip_varint st1"
      using get more(1,2) bt by (simp add: pb_skip_varint.simps [of st] u8_and_0x80)
    then show ?thesis
      using st' reads_trans [OF st1(2) st'(2)] more(1) by auto
  qed
qed

lemma pb_read_null_exact:
  assumes "source_ok st" "pending st = bs @ r" "length bs = n"
  shows "\<exists>st'. pb_read_null st n = (Some (), st') \<and> reads st n st'"
  using pb_read_null_reads [OF assms(1), of n] assms length_pending [OF assms(1)] by (simp split: if_splits)

lemma pb_skip_string_reads:
  assumes "source_ok st" "pending st = varint (length body) @ body @ r" "length body < 2 ^ 32"
  shows "\<exists>st'. pb_skip_string st = (Some (), st') \<and> reads st (length (varint (length body) @ body)) st'"
proof -
  obtain st1 where st1: "pb_decode_varint32 st = (Some (of_nat (length body)), st1)"
    "reads st (length (varint (length body))) st1"
    using pb_decode_varint32_reads [OF assms] by blast
  have n: "unat (of_nat (length body) :: u32) = length body" using assms(3) by (simp add: unat_of_nat)
  have ok1: "source_ok st1" and p1: "pending st1 = body @ r"
    using st1(2) assms(2) by (simp_all add: reads_def)
  obtain st' where st': "pb_read_null st1 (length body) = (Some (), st')" "reads st1 (length body) st'"
    using pb_read_null_exact [OF ok1 p1 refl] by blast
  then show ?thesis
    using st1(1) n reads_trans [OF st1(2) st'(2)] by (simp add: pb_skip_string_def)
qed

end

text \<open>The values a field of a wire type can have on the wire.\<close>

definition wire_value :: "u32 \<Rightarrow> u8 list \<Rightarrow> bool" where
  "wire_value wt bs \<longleftrightarrow>
     (wt = PB_WT_VARINT \<and> (\<exists>m. bs = varint m) \<or> wt = PB_WT_64BIT \<and> length bs = 8 \<or>
      wt = PB_WT_STRING \<and> (\<exists>body. bs = varint (length body) @ body \<and> length body < 2 ^ 32) \<or>
      wt = PB_WT_32BIT \<and> length bs = 4)"

context byte_source begin

lemma pb_skip_field_reads:
  assumes "source_ok st" "pending st = bs @ r" "wire_value wt bs"
  shows "\<exists>st'. pb_skip_field st wt = (Some (), st') \<and> reads st (length bs) st'"
  using assms(3) unfolding wire_value_def
proof (elim disjE conjE exE)
  fix m assume "wt = PB_WT_VARINT" "bs = varint m"
  then show ?thesis
    using pb_skip_varint_reads [OF assms(1)] assms(2) by (simp add: pb_skip_field_def)
next
  assume "wt = PB_WT_64BIT" "length bs = 8"
  then show ?thesis
    using pb_read_null_exact [OF assms(1,2)] by (simp add: pb_skip_field_def)
next
  fix body assume "wt = PB_WT_STRING" "bs = varint (length body) @ body" "length body < 2 ^ 32"
  then show ?thesis
    using pb_skip_string_reads [OF assms(1), of body r] assms(2) by (simp add: pb_skip_field_def)
next
  assume "wt = PB_WT_32BIT" "length bs = 4"
  then show ?thesis
    using pb_read_null_exact [OF assms(1,2)] by (simp add: pb_skip_field_def)
qed

lemma pb_make_string_substream_reads:
  assumes "source_ok st" "pending st = varint (length body) @ body @ r" "length body < 2 ^ 32"
  shows "\<exists>sub par. pb_make_string_substream st = (Some sub, par) \<and> source_ok sub \<and> pending sub = body \<and>
    (\<forall>k sub'. k \<le> length body \<longrightarrow> reads sub k sub' \<longrightarrow>
      (\<exists>par'. pb_close_string_substream par sub' = (Some (), par') \<and>
         reads st (length (varint (length body) @ body)) par'))"
proof -
  let ?n = "length body"
  obtain st1 where st1: "pb_decode_varint32 st = (Some (of_nat ?n), st1)" "reads st (length (varint ?n)) st1"
    using pb_decode_varint32_reads [OF assms] by blast
  have n: "unat (of_nat ?n :: u32) = ?n" using assms(3) by (simp add: unat_of_nat)
  have ok1: "source_ok st1" and p1: "pending st1 = body @ r"
    using st1(2) assms(2) by (simp_all add: reads_def)
  have left: "is_bytes_left st1 = ?n + length r" using p1 length_pending [OF ok1] by simp
  let ?sub = "st1\<lparr>is_bytes_left := ?n\<rparr>" and ?par = "st1\<lparr>is_bytes_left := is_bytes_left st1 - ?n\<rparr>"
  have mk: "pb_make_string_substream st = (Some ?sub, ?par)"
    using st1(1) n left by (simp add: pb_make_string_substream_def)
  have avail: "take (?n + length r) (available (is_state st1)) = body @ r" "?n + length r \<le> length (available (is_state st1))"
    using p1 ok1 left by (simp_all add: pending_def source_ok_def)
  have sub: "source_ok ?sub" using ok1 left by (simp add: source_ok_def)
  have psub: "pending ?sub = body"
  proof -
    have "take ?n (available (is_state st1)) = take ?n (take (?n + length r) (available (is_state st1)))"
      by (simp add: min_absorb1)
    then show ?thesis by (simp add: avail(1) pending_def)
  qed
  have "\<exists>par'. pb_close_string_substream ?par sub' = (Some (), par') \<and>
      reads st (length (varint ?n @ body)) par'" if k: "k \<le> ?n" and rd: "reads ?sub k sub'" for k sub'
  proof -
    have oks: "source_ok sub'" and ps: "pending sub' = drop k body"
      using rd psub by (simp_all add: reads_def)
    have ls: "is_bytes_left sub' = ?n - k" using ps length_pending [OF oks] by simp
    obtain sub'' where sub'': "(if is_bytes_left sub' \<noteq> 0 then pb_read_null sub' (is_bytes_left sub')
        else (Some (), sub')) = (Some (), sub'')" "reads sub' (?n - k) sub''"
    proof (cases "is_bytes_left sub' = 0")
      case True
      then show ?thesis using that [of sub'] reads_0 [OF oks] ls by simp
    next
      case False
      then show ?thesis
        using that pb_read_null_reads [OF oks, of "?n - k"] ls by auto
    qed
    let ?par' = "?par\<lparr>is_state := is_state sub'', is_errmsg := is_errmsg sub''\<rparr>"
    have tot: "reads ?sub ?n sub''"
      using reads_trans [OF rd sub''(2)] k by simp
    have close: "pb_close_string_substream ?par sub' = (Some (), ?par')"
      using sub''(1) by (simp add: pb_close_string_substream_def)
    have av: "available (is_state sub'') = drop ?n (available (is_state st1))"
      and cb: "is_callback sub'' = callback" and e: "is_errmsg sub'' = is_errmsg st1"
      using tot by (simp_all add: reads_def source_ok_def)
    have "take (length r) (drop ?n (available (is_state st1))) = r"
      using avail(1) by (simp add: take_drop add.commute)
    moreover have "length r \<le> length (available (is_state st1)) - ?n"
      using avail(2) by linarith
    ultimately have "reads st1 ?n ?par'"
      using av avail left ok1 e by (simp add: reads_def source_ok_def pending_def drop_take)
    then show ?thesis
      using close reads_trans [OF st1(2)] by auto
  qed
  then show ?thesis using mk sub psub by blast
qed

end

lemma le_bytes_mod: "le_bytes n (v mod 256 ^ n) = le_bytes n v"
proof -
  have "be_bytes n (v mod 256 ^ n) = be_bytes n v"
    by (rule be_val_inject) (simp_all add: be_val_be_bytes)
  then show ?thesis by (simp add: le_bytes_def)
qed

lemma le_val_take_less: "n \<le> k \<Longrightarrow> le_val (take n bs) < 256 ^ k"
proof -
  assume "n \<le> k"
  then have "(256 :: nat) ^ length (take n bs) \<le> 256 ^ k"
    by (intro power_increasing) auto
  then show ?thesis
    using le_val_less [of "take n bs"] by linarith
qed

lemma unat_load_unsigned: "n \<le> 8 \<Longrightarrow> unat (load_unsigned n src) = le_val (take n src)"
  using le_val_take_less [of n 8 src] by (simp add: load_unsigned_def unat_of_nat)

lemma le_bytes_unat_cong:
  fixes v w :: u64
  assumes "take_bit (8 * n) v = take_bit (8 * n) w"
  shows "le_bytes n (unat v) = le_bytes n (unat w)"
proof -
  have p: "(2 :: nat) ^ (8 * n) = 256 ^ n" by (simp add: power_mult)
  have "unat v mod 2 ^ (8 * n) = unat w mod 2 ^ (8 * n)"
    using arg_cong [OF assms, of unat] by (simp only: unsigned_take_bit_eq take_bit_eq_mod [where 'a = nat])
  then show ?thesis
    using le_bytes_mod [of n "unat v"] le_bytes_mod [of n "unat w"] by (simp only: p)
qed

text \<open>What is loaded and stored again is what was in memory.\<close>

lemma store_load_unsigned:
  assumes "n \<le> 8" "n \<le> length src"
  shows "store n (load_unsigned n src) dest = take n src @ drop n dest"
proof -
  have "le_bytes n (unat (load_unsigned n src)) = take n src"
    using le_bytes_le_val [of "take n src"] assms by (simp add: unat_load_unsigned min_absorb2)
  then show ?thesis using assms by (simp add: store_def mem_put_def)
qed

lemma store_load_signed:
  assumes "0 < n" "n \<le> 8" "n \<le> length src"
  shows "store n (load_signed n src) dest = take n src @ drop n dest"
proof -
  have "take_bit (8 * n) (signed_take_bit (8 * n - 1) w) = take_bit (8 * n) w" for w :: u64
    using assms(1) by (intro take_bit_signed_take_bit) simp
  then have "le_bytes n (unat (load_signed n src)) = le_bytes n (unat (load_unsigned n src))"
    by (intro le_bytes_unat_cong) (simp add: load_signed_def)
  then show ?thesis
    using store_load_unsigned [OF assms(2,3), of dest] by (simp add: store_def)
qed

lemma clamp_load_signed:
  assumes "0 < n" "n \<le> m"
  shows "clamp_signed m (load_signed n src) = load_signed n src"
proof -
  have "8 * n - 1 \<le> 8 * m - 1" using assms by simp
  then show ?thesis
    by (simp only: clamp_signed_def load_signed_def signed_take_bit_signed_take_bit min_absorb2)
qed

lemma take_bit_load_unsigned:
  assumes "n \<le> 8"
  shows "take_bit (8 * n) (load_unsigned n src) = load_unsigned n src"
proof -
  have p: "(2 :: nat) ^ (8 * n) = 256 ^ n" by (simp add: power_mult)
  have "le_val (take n src) < 256 ^ n" by (rule le_val_take_less) simp
  then show ?thesis
    using unat_load_unsigned [OF assms, of src]
    by (simp only: word_unat_eq_iff unsigned_take_bit_eq take_bit_eq_mod [where 'a = nat] p) simp
qed

section \<open>Reading back what was written\<close>

text \<open>The bytes of a finished buffer stream, as an input stream.\<close>

definition reopen :: "sink_buffer pb_ostream \<Rightarrow> u8 list pb_istream" where
  "reopen st = pb_istream_from_buffer (fst (os_state st)) (os_bytes_written st)"

lemma reopen_written:
  assumes "buffer_sink.writes (pb_ostream_from_buffer buf cap) bs res" "length bs \<le> cap" "cap \<le> length buf"
  shows "fst res = Some () \<and> buffer_source.source_ok (reopen (snd res)) \<and>
    buffer_source.pending (reopen (snd res)) = bs"
proof -
  let ?st = "pb_ostream_from_buffer buf cap"
  have w: "fst res = Some ()" "sink_received (os_state (snd res)) = bs" "os_bytes_written (snd res) = length bs"
    using assms(1,2) by (simp_all add: buffer_sink.writes_def pb_ostream_from_buffer_def sink_received_def)
  obtain p pos where s: "os_state (snd res) = (p, pos)" by fastforce
  have "take pos p = bs" using w(2) s by (simp add: sink_received_def)
  then have "length bs \<le> length p" "take (length bs) p = bs"
    by (auto simp: min_def split: if_splits)
  then show ?thesis
    using w(1,3) s pb_istream_from_buffer_ok [of "length bs" p] by (simp add: reopen_def)
qed

lemma varint_field_decoded:
  assumes "n \<in> {1, 2, 4, 8}" "data_size field = n" "n \<le> length src"
    "buffer_source.source_ok st" "buffer_source.pending st = varint (unat (load_signed n src))"
  shows "\<exists>st'. pb_dec_varint st field dest = (Some (), take n src @ drop n dest, st')"
proof -
  have v: "unat (load_signed n src) < 2 ^ 64"
    using unsigned_less [where ?'a = nat, of "load_signed n src"] by simp
  obtain st' where st': "pb_decode_varint st = (Some (load_signed n src), st')"
    using buffer_source.pb_decode_varint_reads [OF assms(4), of _ "[]"] assms(5) v
    by (metis append_Nil2 of_nat_unat_word)
  have n0: "0 < n" "n \<le> 8" using assms(1) by auto
  have s: "(if n = 8 then load_signed n src else clamp_signed 4 (load_signed n src)) = load_signed n src"
    using assms(1) clamp_load_signed [OF n0(1), of 4 src] by auto
  have c: "clamp_signed n (load_signed n src) = load_signed n src"
    using clamp_load_signed [OF n0(1), of n src] by simp
  have "n \<in> {8, 4, 2, 1}" using assms(1) by auto
  then have "pb_dec_varint st field dest = (Some (), store n (load_signed n src) dest, st')"
    by (simp only: pb_dec_varint_def with_dest_def st' prod.case option.case Let_def assms(2) s c if_True simp_thms if_False)
  then show ?thesis
    using store_load_signed [OF n0 assms(3)] by metis
qed

end
