(* ===== verification/Pb_Properties.thy ===== *)
theory Pb_Properties
  imports Pb_Decode
begin

text \<open>
  What nanopb's encoder and decoder promise each other, on memory buffers: every value written
  is read back, skipping consumes exactly one value, substreams leave the parent behind their
  contents; and what the 32-bit varint decoder lets through.
\<close>

lemma length_small: "length [] = 0" "length [a] = 1" "length [a, b] = 2" "length [a, b, c] = 3" "length [a, b, c, d] = 4"
  by simp_all

text \<open>
  A stream on a buffer accepts a write exactly when it fits the remaining size. It then appends
  the bytes, and the memory beyond them is as before; otherwise it fails and the buffer is untouched.
\<close>

theorem pb_write_stays_in_buffer:
  assumes "pos = os_bytes_written st" "os_callback st = Some buf_write" "os_state st = (p, pos)"
    "pos \<le> os_max_size st" "os_max_size st \<le> length p" "length p < SIZE_MOD" "length bs < SIZE_MOD"
  shows "if pos + length bs \<le> os_max_size st
    then pb_write st bs (length bs) =
      (Some (), st\<lparr>os_state := (take pos p @ bs @ drop (pos + length bs) p, pos + length bs),
         os_bytes_written := pos + length bs\<rparr>)
    else fst (pb_write st bs (length bs)) = None \<and> os_state (snd (pb_write st bs (length bs))) = (p, pos)"
proof (cases "pos + length bs \<le> os_max_size st")
  case True
  then have "size_wrap (pos + length bs) = pos + length bs"
    using assms by (intro size_wrap_small) simp
  then show ?thesis
    using assms True by (cases "bs = []") (auto simp: pb_write_def buf_write_def mem_put_def)
next
  case False
  have "size_wrap (pos + length bs) < pos \<or> size_wrap (pos + length bs) > os_max_size st"
    using size_wrap_overflow_iff [of pos "length bs"] assms False by (cases "pos + length bs < SIZE_MOD") auto
  then show ?thesis
    using assms False by (auto simp: pb_write_def os_error_def)
qed

theorem pb_write_stays_in_buffer_witness:
  "fst (pb_write (pb_ostream_from_buffer [1, 2, 3] 2) [7, 8, 9] 3) = None \<and>
   pb_write (pb_ostream_from_buffer [1, 2, 3] 2) [7] 1 =
     (Some (), (pb_ostream_from_buffer [1, 2, 3] 2)\<lparr>os_state := ([7, 2, 3], 1), os_bytes_written := 1\<rparr>)"
  using pb_write_stays_in_buffer [of 0 "pb_ostream_from_buffer [1, 2, 3] 2" "[1, 2, 3]" "[7, 8, 9]"]
    pb_write_stays_in_buffer [of 0 "pb_ostream_from_buffer [1, 2, 3] 2" "[1, 2, 3]" "[7]"]
  by (simp add: length_small pb_ostream_from_buffer_def del: list.size)

text \<open>
  C10: Every 64-bit value survives the varint round trip: with ten bytes of buffer the encoder
  succeeds, and the decoder reads the same value back from what was written.
\<close>

theorem pb_varint_roundtrip:
  assumes "10 \<le> cap" "cap \<le> length buf" "cap < SIZE_MOD"
  shows "\<exists>st'. pb_encode_varint (pb_ostream_from_buffer buf cap) v = (Some (), st') \<and>
    fst (pb_decode_varint (reopen st')) = Some v"
proof -
  let ?st = "pb_ostream_from_buffer buf cap"
  have w: "buffer_sink.writes ?st (varint (unat v)) (pb_encode_varint ?st v)"
    by (rule buffer_sink.pb_encode_varint_writes [OF pb_ostream_from_buffer_ok [OF assms(2,3)]])
  have "length (varint (unat v)) \<le> cap"
    using varint_u64_length [of v] assms(1) by simp
  note r = reopen_written [OF w this assms(2)]
  have "unat v < 2 ^ 64" using unsigned_less [where ?'a = nat, of v] by simp
  with r obtain st'' where "pb_decode_varint (reopen (snd (pb_encode_varint ?st v))) = (Some (of_nat (unat v)), st'')"
    using buffer_source.pb_decode_varint_reads [of _ "unat v" "[]"] by force
  with r show ?thesis
    by (cases "pb_encode_varint ?st v") (simp add: of_nat_unat_word)
qed

theorem pb_varint_roundtrip_witness:
  "\<exists>st'. pb_encode_varint (pb_ostream_from_buffer (replicate 10 0) 10) (2 ^ 64 - 2) = (Some (), st') \<and>
    fst (pb_decode_varint (reopen st')) = Some (2 ^ 64 - 2)"
  by (rule pb_varint_roundtrip) simp_all

text \<open>
  Signed values survive the zigzag round trip, and small magnitudes stay small: the value -1
  takes one byte.
\<close>

theorem pb_svarint_roundtrip:
  assumes "10 \<le> cap" "cap \<le> length buf" "cap < SIZE_MOD"
  shows "\<exists>st' w. pb_encode_svarint (pb_ostream_from_buffer buf cap) v = (Some (), st') \<and>
    fst (pb_decode_svarint (reopen st')) = Some w \<and> sint w = sint v \<and>
    os_bytes_written st' = length (varint (zigzag (sint v)))"
proof -
  let ?st = "pb_ostream_from_buffer buf cap" and ?n = "zigzag (sint v)"
  have w: "buffer_sink.writes ?st (varint ?n) (pb_encode_svarint ?st v)"
    by (rule buffer_sink.pb_encode_svarint_writes [OF pb_ostream_from_buffer_ok [OF assms(2,3)]])
  have n: "?n < 2 ^ 64"
    unfolding zigzag_word [symmetric]
    using unsigned_less [where ?'a = nat, of "if sint v < 0 then NOT (push_bit 1 v) else push_bit 1 v"] by simp
  have l: "length (varint ?n) \<le> cap"
    using varint_length [of 10 ?n] n assms(1) by simp
  note r = reopen_written [OF w l assms(2)]
  obtain st' where st': "pb_encode_svarint ?st v = (Some (), st')"
    using r by (cases "pb_encode_svarint ?st v") auto
  obtain u st'' where "pb_decode_svarint (reopen st') = (Some u, st'')" "sint u = unzigzag ?n"
    using buffer_source.pb_decode_svarint_reads [of "reopen st'" ?n "[]"] r n st' by auto
  moreover have "os_bytes_written st' = length (varint ?n)"
    using w l st' by (simp add: buffer_sink.writes_def pb_ostream_from_buffer_def)
  ultimately show ?thesis
    using st' by auto
qed

theorem pb_svarint_roundtrip_witness:
  "\<exists>st' w. pb_encode_svarint (pb_ostream_from_buffer (replicate 10 0) 10) (- 3) = (Some (), st') \<and>
    fst (pb_decode_svarint (reopen st')) = Some w \<and> sint w = sint (- 3 :: u64) \<and>
    os_bytes_written st' = length (varint (zigzag (sint (- 3 :: u64))))"
  by (rule pb_svarint_roundtrip) simp_all

text \<open>
  Integer fields of one, two, four and eight bytes survive \<open>pb_enc_varint\<close> and \<open>pb_dec_varint\<close>:
  the bytes decoded into the destination are the bytes that were in the source, sign included.
\<close>

theorem pb_int_field_roundtrip:
  assumes "data_size field \<in> {1, 2, 4, 8}" "data_size field \<le> length src" "10 \<le> cap" "cap \<le> length buf"
    "cap < SIZE_MOD"
  shows "\<exists>st' st''. pb_enc_varint (pb_ostream_from_buffer buf cap) field src = (Some (), st') \<and>
    pb_dec_varint (reopen st') field dest =
      (Some (), take (data_size field) src @ drop (data_size field) dest, st'')"
proof -
  let ?st = "pb_ostream_from_buffer buf cap" and ?v = "load_signed (data_size field) src"
  have e: "pb_enc_varint ?st field src = pb_encode_varint ?st ?v"
    using assms(1) by (simp only: pb_enc_varint_def if_True simp_thms)
  have w: "buffer_sink.writes ?st (varint (unat ?v)) (pb_encode_varint ?st ?v)"
    by (rule buffer_sink.pb_encode_varint_writes [OF pb_ostream_from_buffer_ok [OF assms(4,5)]])
  have "length (varint (unat ?v)) \<le> cap"
    using varint_u64_length [of ?v] assms(3) by simp
  note r = reopen_written [OF w this assms(4)]
  obtain st' where st': "pb_encode_varint ?st ?v = (Some (), st')"
    using r by (cases "pb_encode_varint ?st ?v") auto
  then show ?thesis
    using varint_field_decoded [OF assms(1) refl assms(2), of "reopen st'"] r e by auto
qed

definition int16_field :: pb_field where
  "int16_field = \<lparr>tag = 3, field_type = PB_LTYPE_VARINT, data_offset = 0, size_offset = 0,
     data_size = 2, array_size = 0\<rparr>"

theorem pb_int_field_roundtrip_witness:
  "\<exists>st' st''. pb_enc_varint (pb_ostream_from_buffer (replicate 10 0) 10) int16_field [0xfe, 0xff] = (Some (), st') \<and>
    pb_dec_varint (reopen st') int16_field [0, 0, 0x55] = (Some (), [0xfe, 0xff, 0x55], st'')"
  using pb_int_field_roundtrip [of int16_field "[0xfe, 0xff]" 10 "replicate 10 0" "[0, 0, 0x55]"]
  by (simp add: int16_field_def)

text \<open>
  Tags survive: \<open>pb_decode_tag\<close> returns the wire type and the field number that
  \<open>pb_encode_tag\<close> was given, without reporting the end of the message, for every field number a
  message may use.
\<close>

theorem pb_tag_roundtrip:
  assumes "10 \<le> cap" "cap \<le> length buf" "cap < SIZE_MOD" "0 < f" "f < 2 ^ 29" "wt < 8"
  shows "\<exists>st' st''. pb_encode_tag (pb_ostream_from_buffer buf cap) (of_nat wt) (of_nat f) = (Some (), st') \<and>
    pb_decode_tag (reopen st') = (Some (of_nat wt, of_nat f), False, st'')"
proof -
  let ?st = "pb_ostream_from_buffer buf cap"
  have u: "unat (of_nat wt :: u32) = wt" "unat (of_nat f :: u32) = f"
    using assms(5,6) by (simp_all add: unat_of_nat)
  have "unat (of_nat wt :: u32) < 8" by (simp only: u assms(6))
  from buffer_sink.pb_encode_tag_writes [OF pb_ostream_from_buffer_ok [OF assms(2,3)] this, of "of_nat f"]
  have w: "buffer_sink.writes ?st (varint (8 * f + wt)) (pb_encode_tag ?st (of_nat wt) (of_nat f))"
    by (simp only: u)
  have t: "8 * f + wt < 2 ^ 32" using assms(5,6) by simp
  have "length (varint (8 * f + wt)) \<le> cap"
    using varint_length [of 10 "8 * f + wt"] t assms(1) by simp
  note r = reopen_written [OF w this assms(2)]
  obtain st' where st': "pb_encode_tag ?st (of_nat wt) (of_nat f) = (Some (), st')"
    using r by (cases "pb_encode_tag ?st (of_nat wt) (of_nat f)") auto
  obtain st'' where "pb_decode_tag (reopen st') = (Some (of_nat wt, of_nat f), False, st'')"
    using buffer_source.pb_decode_tag_reads [of "reopen st'" f wt "[]"] r st' assms(4,6) t by auto
  with st' show ?thesis by blast
qed

theorem pb_tag_roundtrip_witness:
  "\<exists>st' st''. pb_encode_tag (pb_ostream_from_buffer (replicate 10 0) 10) 5 536870911 = (Some (), st') \<and>
    pb_decode_tag (reopen st') = (Some (5, 536870911), False, st'')"
  using pb_tag_roundtrip [of 10 "replicate 10 0" 536870911 5] by simp

text \<open>
  C11: \<open>pb_skip_field\<close> consumes exactly one value of the given wire type, whatever follows it in the
  buffer: a varint of any length, eight or four bytes, or a length with that many bytes.
\<close>

theorem pb_skip_field_consumes_one_value:
  assumes "wire_value wt bs" "n = length bs + length rest"
  shows "\<exists>st'. pb_skip_field (pb_istream_from_buffer (bs @ rest) n) wt = (Some (), st') \<and>
    is_state st' = rest \<and> is_bytes_left st' = length rest"
proof -
  let ?st = "pb_istream_from_buffer (bs @ rest) n"
  have ok: "buffer_source.source_ok ?st" "buffer_source.pending ?st = bs @ rest"
    using pb_istream_from_buffer_ok [of n "bs @ rest"] assms(2) by simp_all
  obtain st' where st': "pb_skip_field ?st wt = (Some (), st')" "buffer_source.reads ?st (length bs) st'"
    using buffer_source.pb_skip_field_reads [OF ok assms(1)] by blast
  then show ?thesis
    using assms(2) by (simp add: buffer_source.reads_def pb_istream_from_buffer_def)
qed

theorem pb_skip_field_consumes_one_value_witness:
  "\<exists>st'. pb_skip_field (pb_istream_from_buffer [2, 0xaa, 0xbb, 0x08] 4) PB_WT_STRING = (Some (), st') \<and>
    is_state st' = [0x08] \<and> is_bytes_left st' = 1"
proof -
  have "varint 2 = [2]" by (simp add: varint.simps)
  then have "[2, 0xaa, 0xbb] = varint (length [0xaa, 0xbb :: u8]) @ [0xaa, 0xbb] \<and> length [0xaa, 0xbb :: u8] < 2 ^ 32"
    by (simp add: length_small del: list.size)
  then have "wire_value PB_WT_STRING [2, 0xaa, 0xbb]"
    unfolding wire_value_def by blast
  from pb_skip_field_consumes_one_value [OF this, of 4 "[0x08]"] show ?thesis by simp
qed

text \<open>
  C12: A length-delimited substream holds exactly the bytes its length announces, and however much
  of it the consumer reads, closing it leaves the parent at the first byte behind them.
\<close>

theorem string_substream_isolates_contents:
  assumes "length body < 2 ^ 32" "n = length (varint (length body)) + length body + length rest"
    "k \<le> length body"
  shows "\<exists>sub par sub' par'.
    pb_make_string_substream (pb_istream_from_buffer (varint (length body) @ body @ rest) n) = (Some sub, par) \<and>
    is_state sub = body @ rest \<and> is_bytes_left sub = length body \<and>
    pb_read sub k = (Some (take k body), sub') \<and>
    pb_close_string_substream par sub' = (Some (), par') \<and>
    is_state par' = rest \<and> is_bytes_left par' = length rest"
proof -
  let ?st = "pb_istream_from_buffer (varint (length body) @ body @ rest) n"
  have ok: "buffer_source.source_ok ?st" "buffer_source.pending ?st = varint (length body) @ body @ rest"
    using pb_istream_from_buffer_ok [of n "varint (length body) @ body @ rest"] assms(2) by simp_all
  obtain sub par where sub: "pb_make_string_substream ?st = (Some sub, par)" "buffer_source.source_ok sub"
    "buffer_source.pending sub = body"
    and close: "\<And>k sub'. k \<le> length body \<Longrightarrow> buffer_source.reads sub k sub' \<Longrightarrow>
      \<exists>par'. pb_close_string_substream par sub' = (Some (), par') \<and>
        buffer_source.reads ?st (length (varint (length body) @ body)) par'"
    using buffer_source.pb_make_string_substream_reads [OF ok assms(1)] by blast
  have left: "is_bytes_left sub = length body"
    using buffer_source.length_pending [OF sub(2)] sub(3) by simp
  obtain sub' where sub': "pb_read sub k = (Some (take k body), sub')" "buffer_source.reads sub k sub'"
    using buffer_source.pb_read_reads [OF sub(2), of k] assms(3) left sub(3) by auto
  obtain full where "buffer_source.reads sub (length body) full" "is_state full = drop (length body) (is_state sub)"
    using buffer_source.pb_read_reads [OF sub(2), of "length body"] left by (auto simp: buffer_source.reads_def)
  obtain par' where par': "pb_close_string_substream par sub' = (Some (), par')"
    "buffer_source.reads ?st (length (varint (length body) @ body)) par'"
    using close [OF assms(3) sub'(2)] by blast
  have st: "is_state sub = body @ rest"
  proof -
    obtain st1 where st1: "pb_decode_varint32 ?st = (Some (of_nat (length body)), st1)"
      "buffer_source.reads ?st (length (varint (length body))) st1"
      using buffer_source.pb_decode_varint32_reads [OF ok assms(1)] by blast
    have "is_state sub = is_state st1"
    proof (cases "is_bytes_left st1 < unat (of_nat (length body) :: u32)")
      case True
      then show ?thesis using sub(1) st1(1) by (simp add: pb_make_string_substream_def is_error_def)
    next
      case False
      then have "Some (st1\<lparr>is_bytes_left := unat (of_nat (length body) :: u32)\<rparr>) = Some sub"
        using sub(1) st1(1) by (simp add: pb_make_string_substream_def)
      then have "is_state (st1\<lparr>is_bytes_left := unat (of_nat (length body) :: u32)\<rparr>) = is_state sub"
        by (simp only: option.inject)
      then show ?thesis by simp
    qed
    then show ?thesis
      using st1(2) by (simp add: buffer_source.reads_def pb_istream_from_buffer_def)
  qed
  then show ?thesis
    using sub left sub' par' assms(2) by (simp add: buffer_source.reads_def pb_istream_from_buffer_def)
qed

theorem string_substream_isolates_contents_witness:
  "\<exists>sub par sub' par'.
    pb_make_string_substream (pb_istream_from_buffer [3, 1, 2, 3, 9] 5) = (Some sub, par) \<and>
    is_state sub = [1, 2, 3, 9] \<and> is_bytes_left sub = 3 \<and>
    pb_read sub 2 = (Some [1, 2], sub') \<and>
    pb_close_string_substream par sub' = (Some (), par') \<and>
    is_state par' = [9] \<and> is_bytes_left par' = 1"
proof -
  have "varint 3 = [3]" by (simp add: varint.simps)
  then show ?thesis
    using string_substream_isolates_contents [of "[1, 2, 3]" 5 "[9]" 2]
    by (simp add: length_small del: list.size)
qed

section \<open>What the 32-bit varint decoder lets through\<close>

text \<open>
  The overflow check on the fifth byte runs only when that byte is the last. Followed by a further
  byte 00 its upper bits are dropped: these six bytes encode 30064771072 and are accepted as 0,
  while the five bytes of the shortest encoding of the same number are refused.
\<close>

theorem pb_decode_varint32_drops_high_bits:
  "unvarint [0x80, 0x80, 0x80, 0x80, 0xf0, 0x00] = Some (30064771072, []) \<and>
   fst (pb_decode_varint32 (pb_istream_from_buffer [0x80, 0x80, 0x80, 0x80, 0xf0, 0x00] 6)) = Some 0 \<and>
   unvarint [0x80, 0x80, 0x80, 0x80, 0x70] = Some (30064771072, []) \<and>
   fst (pb_decode_varint32 (pb_istream_from_buffer [0x80, 0x80, 0x80, 0x80, 0x70] 5)) = None"
  by (intro conjI) (simp, code_simp, simp, code_simp)

end
