(* ===== verification/Stack.thy ===== *)
theory Stack
  imports Crypto_Mem "HOL-Library.Multiset"
begin

text \<open>
  The pointer stacks of \<open>crypto/stack/stack.c\<close>: a growable array of pointers with a comparison
  function and a flag that says it is sorted. Pointers are the values \<open>Some p\<close>, the null pointer
  is \<open>None\<close>; a null stack is \<open>None\<close> as well. Comparison functions are known by name, and
  \<open>call_cmp_func\<close> calls one on two elements, as in the code.
\<close>

section \<open>State\<close>

record ('p, 'c) stack =
  st_num :: nat
  st_data :: "'p option list"
  st_sorted :: bool
  st_num_alloc :: nat
  st_comp :: "'c option"

type_synonym ('p, 'c) call_cmp = "'c \<Rightarrow> 'p option \<Rightarrow> 'p option \<Rightarrow> int"

definition kMinSize :: nat where "kMinSize = 4"

text \<open>
  \<open>OPENSSL_realloc\<close> on an array of \<open>n\<close> eight-byte pointers: what fits of the old slots, then
  slots whose contents \<open>u\<close> are arbitrary.
\<close>

definition realloc_slots :: "heap \<Rightarrow> (nat \<Rightarrow> 'p option) \<Rightarrow> 'p option list \<Rightarrow> nat \<Rightarrow> 'p option list option" where
  "realloc_slots h u old n =
     (case OPENSSL_malloc h (size_wrap (8 * n)) of
        None \<Rightarrow> None
      | Some block \<Rightarrow> Some (take (length block div 8) (take n old @ map u [length old..<n])))"

section \<open>Operations\<close>

definition sk_new :: "heap \<Rightarrow> 'c option \<Rightarrow> ('p, 'c) stack option" where
  "sk_new h c =
     (case OPENSSL_malloc h 40 of
        None \<Rightarrow> None
      | Some _ \<Rightarrow>
          (case OPENSSL_malloc h (8 * kMinSize) of
             None \<Rightarrow> None
           | Some _ \<Rightarrow>
               Some \<lparr>st_num = 0, st_data = replicate kMinSize None, st_sorted = False,
                     st_num_alloc = kMinSize, st_comp = c\<rparr>))"

definition sk_new_null :: "heap \<Rightarrow> ('p, 'c) stack option" where
  "sk_new_null h = sk_new h None"

definition sk_num :: "('p, 'c) stack option \<Rightarrow> nat" where
  "sk_num sk = (case sk of None \<Rightarrow> 0 | Some s \<Rightarrow> st_num s)"

definition sk_zero :: "('p, 'c) stack option \<Rightarrow> ('p, 'c) stack option" where
  "sk_zero sk =
     (case sk of
        None \<Rightarrow> None
      | Some s \<Rightarrow>
          if st_num s = 0 then Some s
          else Some (s\<lparr>st_data := replicate (st_num s) None @ drop (st_num s) (st_data s), st_num := 0, st_sorted := False\<rparr>))"

definition sk_value :: "('p, 'c) stack option \<Rightarrow> nat \<Rightarrow> 'p option" where
  "sk_value sk i =
     (case sk of None \<Rightarrow> None | Some s \<Rightarrow> if i \<ge> st_num s then None else st_data s ! i)"

definition sk_set :: "('p, 'c) stack option \<Rightarrow> nat \<Rightarrow> 'p option \<Rightarrow> 'p option \<times> ('p, 'c) stack option" where
  "sk_set sk i v =
     (case sk of
        None \<Rightarrow> (None, None)
      | Some s \<Rightarrow> if i \<ge> st_num s then (None, Some s) else (v, Some (s\<lparr>st_data := (st_data s)[i := v]\<rparr>)))"

text \<open>
  The elements are released in order by \<open>free_func\<close>, which works on a state of the caller's;
  null elements are passed over. The stack is gone afterwards.
\<close>

definition sk_pop_free_ex :: "('p, 'c) stack option \<Rightarrow> ('p \<Rightarrow> 's \<Rightarrow> 's) \<Rightarrow> 's \<Rightarrow> 's" where
  "sk_pop_free_ex sk free_func w =
     (case sk of
        None \<Rightarrow> w
      | Some s \<Rightarrow>
          foldl (\<lambda>w i. case st_data s ! i of None \<Rightarrow> w | Some p \<Rightarrow> free_func p w) w [0..<st_num s])"

definition sk_pop_free :: "('p, 'c) stack option \<Rightarrow> ('p \<Rightarrow> 's \<Rightarrow> 's) \<Rightarrow> 's \<Rightarrow> 's" where
  "sk_pop_free sk free_func w = sk_pop_free_ex sk free_func w"

text \<open>The size the array grows to: doubled, or one more when doubling overflows, or none.\<close>

definition sk_grown :: "nat \<Rightarrow> nat option" where
  "sk_grown n =
     (let new_alloc = size_wrap (n * 2);
          alloc_size = size_wrap (new_alloc * 8);
          new_alloc' = (if new_alloc < n \<or> alloc_size div 8 \<noteq> new_alloc then size_wrap (n + 1) else new_alloc);
          alloc_size' = (if new_alloc < n \<or> alloc_size div 8 \<noteq> new_alloc then size_wrap (new_alloc' * 8) else alloc_size)
      in if new_alloc' < n \<or> alloc_size' div 8 \<noteq> new_alloc' then None else Some new_alloc')"

definition sk_grow :: "heap \<Rightarrow> (nat \<Rightarrow> 'p option) \<Rightarrow> ('p, 'c) stack \<Rightarrow> ('p, 'c) stack option" where
  "sk_grow h u s =
     (if st_num_alloc s \<le> size_wrap (st_num s + 1) then
        (case sk_grown (st_num_alloc s) of
           None \<Rightarrow> None
         | Some new_alloc \<Rightarrow>
             (case realloc_slots h u (st_data s) new_alloc of
                None \<Rightarrow> None
              | Some d \<Rightarrow> Some (s\<lparr>st_data := d, st_num_alloc := new_alloc\<rparr>)))
      else Some s)"

definition sk_insert ::
  "heap \<Rightarrow> (nat \<Rightarrow> 'p option) \<Rightarrow> ('p, 'c) stack option \<Rightarrow> 'p option \<Rightarrow> nat \<Rightarrow> nat \<times> ('p, 'c) stack option" where
  "sk_insert h u sk p at =
     (case sk of
        None \<Rightarrow> (0, None)
      | Some s \<Rightarrow>
          (case sk_grow h u s of
             None \<Rightarrow> (0, Some s)
           | Some s' \<Rightarrow>
               let d = (if at \<ge> st_num s' then (st_data s')[st_num s' := p]
                        else (take (at + 1) (st_data s') @ take (st_num s' - at) (drop at (st_data s')) @
                              drop (st_num s' + 1) (st_data s'))[at := p]);
                   n = size_wrap (st_num s' + 1)
               in (n, Some (s'\<lparr>st_data := d, st_num := n, st_sorted := False\<rparr>))))"

definition sk_delete :: "('p, 'c) stack option \<Rightarrow> nat \<Rightarrow> 'p option \<times> ('p, 'c) stack option" where
  "sk_delete sk at =
     (case sk of
        None \<Rightarrow> (None, None)
      | Some s \<Rightarrow>
          if at \<ge> st_num s then (None, Some s)
          else
            let ret = st_data s ! at;
                d = (if at \<noteq> st_num s - 1
                     then take at (st_data s) @ take (st_num s - at - 1) (drop (at + 1) (st_data s)) @ drop (st_num s - 1) (st_data s)
                     else st_data s)
            in (ret, Some (s\<lparr>st_data := d, st_num := st_num s - 1\<rparr>)))"

definition sk_delete_ptr :: "('p, 'c) stack option \<Rightarrow> 'p option \<Rightarrow> 'p option \<times> ('p, 'c) stack option" where
  "sk_delete_ptr sk p =
     (case sk of
        None \<Rightarrow> (None, None)
      | Some s \<Rightarrow>
          (case List.find (\<lambda>i. st_data s ! i = p) [0..<st_num s] of
             None \<Rightarrow> (None, Some s)
           | Some i \<Rightarrow> sk_delete sk i))"

definition sk_is_sorted :: "('p, 'c) stack option \<Rightarrow> bool" where
  "sk_is_sorted sk = (case sk of None \<Rightarrow> True | Some s \<Rightarrow> st_sorted s)"

text \<open>The binary search; \<open>r mid\<close> compares the key with the element at \<open>mid\<close>.\<close>

function sk_bsearch :: "(nat \<Rightarrow> int) \<Rightarrow> nat \<Rightarrow> nat \<Rightarrow> nat option" where
  "sk_bsearch r lo hi =
     (if lo < hi then
        let mid = lo + (hi - lo - 1) div 2
        in if r mid > 0 then sk_bsearch r (mid + 1) hi
           else if r mid < 0 then sk_bsearch r lo mid
           else if hi - lo = 1 then Some mid
           else sk_bsearch r lo (mid + 1)
      else None)"
  by pat_completeness auto
termination
  by (relation "measure (\<lambda>(_, lo, hi). hi - lo)") (auto simp: less_diff_conv2 intro!: diff_less_mono2)

definition sk_find :: "('p, 'c) call_cmp \<Rightarrow> ('p, 'c) stack option \<Rightarrow> 'p option \<Rightarrow> nat option" where
  "sk_find call_cmp_func sk p =
     (case sk of
        None \<Rightarrow> None
      | Some s \<Rightarrow>
          (case st_comp s of
             None \<Rightarrow> List.find (\<lambda>i. st_data s ! i = p) [0..<st_num s]
           | Some c \<Rightarrow>
               if p = None then None
               else if \<not> sk_is_sorted sk
                 then List.find (\<lambda>i. call_cmp_func c p (st_data s ! i) = 0) [0..<st_num s]
               else sk_bsearch (\<lambda>mid. call_cmp_func c p (st_data s ! mid)) 0 (st_num s)))"

definition sk_shift :: "('p, 'c) stack option \<Rightarrow> 'p option \<times> ('p, 'c) stack option" where
  "sk_shift sk =
     (case sk of
        None \<Rightarrow> (None, None)
      | Some s \<Rightarrow> if st_num s = 0 then (None, Some s) else sk_delete sk 0)"

definition sk_push ::
  "heap \<Rightarrow> (nat \<Rightarrow> 'p option) \<Rightarrow> ('p, 'c) stack option \<Rightarrow> 'p option \<Rightarrow> nat \<times> ('p, 'c) stack option" where
  "sk_push h u sk p = sk_insert h u sk p (sk_num sk)"

definition sk_pop :: "('p, 'c) stack option \<Rightarrow> 'p option \<times> ('p, 'c) stack option" where
  "sk_pop sk =
     (case sk of
        None \<Rightarrow> (None, None)
      | Some s \<Rightarrow> if st_num s = 0 then (None, Some s) else sk_delete sk (st_num s - 1))"

definition sk_dup :: "heap \<Rightarrow> (nat \<Rightarrow> 'p option) \<Rightarrow> ('p, 'c) stack option \<Rightarrow> ('p, 'c) stack option" where
  "sk_dup h u sk =
     (case sk of
        None \<Rightarrow> None
      | Some s \<Rightarrow>
          (case (sk_new h (st_comp s) :: ('p, 'c) stack option) of
             None \<Rightarrow> None
           | Some ret \<Rightarrow>
               (case realloc_slots h u (st_data ret) (st_num_alloc s) of
                  None \<Rightarrow> None
                | Some d \<Rightarrow>
                    Some (ret\<lparr>st_data := take (st_num s) (st_data s) @ drop (st_num s) d, st_num := st_num s,
                              st_sorted := st_sorted s, st_num_alloc := st_num_alloc s, st_comp := st_comp s\<rparr>))))"

text \<open>\<open>qsort\<close> of the C library is a parameter: it sorts the slots by a comparison.\<close>

definition sk_sort ::
  "(('p option \<Rightarrow> 'p option \<Rightarrow> int) \<Rightarrow> 'p option list \<Rightarrow> 'p option list) \<Rightarrow> ('p, 'c) call_cmp \<Rightarrow>
     ('p, 'c) stack option \<Rightarrow> ('p, 'c) stack option" where
  "sk_sort qsort call_cmp_func sk =
     (case sk of
        None \<Rightarrow> None
      | Some s \<Rightarrow>
          (case st_comp s of
             None \<Rightarrow> Some s
           | Some c \<Rightarrow>
               if st_sorted s then Some s
               else
                 let d = (if st_num s \<ge> 2
                          then qsort (call_cmp_func c) (take (st_num s) (st_data s)) @ drop (st_num s) (st_data s)
                          else st_data s)
                 in Some (s\<lparr>st_data := d, st_sorted := True\<rparr>)))"

definition sk_set_cmp_func :: "('p, 'c) stack \<Rightarrow> 'c option \<Rightarrow> 'c option \<times> ('p, 'c) stack" where
  "sk_set_cmp_func s c =
     (st_comp s, s\<lparr>st_sorted := (if st_comp s \<noteq> c then False else st_sorted s), st_comp := c\<rparr>)"

text \<open>
  \<open>deep_copy_loop copy d i n\<close> replaces the elements from \<open>i\<close> on by their copies; a failed copy
  stops it with the copies made so far, which the caller frees.
\<close>

function deep_copy_loop :: "('p \<Rightarrow> 'p option) \<Rightarrow> 'p option list \<Rightarrow> nat \<Rightarrow> nat \<Rightarrow> 'p option list + 'p option list" where
  "deep_copy_loop copy d i n =
     (if i < n then
        (case d ! i of
           None \<Rightarrow> deep_copy_loop copy d (i + 1) n
         | Some p \<Rightarrow>
             (case copy p of
                None \<Rightarrow> Inl (take i d)
              | Some q \<Rightarrow> deep_copy_loop copy (d[i := Some q]) (i + 1) n))
      else Inr d)"
  by pat_completeness auto
termination
  by (relation "measure (\<lambda>(_, _, i, n). n - i)") auto

definition sk_deep_copy ::
  "heap \<Rightarrow> (nat \<Rightarrow> 'p option) \<Rightarrow> ('p \<Rightarrow> 'p option) \<Rightarrow> ('p \<Rightarrow> 's \<Rightarrow> 's) \<Rightarrow> ('p, 'c) stack option \<Rightarrow> 's \<Rightarrow>
     ('p, 'c) stack option \<times> 's" where
  "sk_deep_copy h u copy_func free_func sk w =
     (case sk_dup h u sk of
        None \<Rightarrow> (None, w)
      | Some ret \<Rightarrow>
          (case deep_copy_loop copy_func (st_data ret) 0 (st_num ret) of
             Inl copies \<Rightarrow>
               (None, foldl (\<lambda>w e. case e of None \<Rightarrow> w | Some p \<Rightarrow> free_func p w) w copies)
           | Inr d \<Rightarrow> (Some (ret\<lparr>st_data := d\<rparr>), w)))"

declare sk_bsearch.simps [simp del] deep_copy_loop.simps [simp del]

section \<open>The stack as a list\<close>

definition sk_elems :: "('p, 'c) stack \<Rightarrow> 'p option list" where
  "sk_elems s = take (st_num s) (st_data s)"

definition sk_ok :: "('p, 'c) stack \<Rightarrow> bool" where
  "sk_ok s \<longleftrightarrow> length (st_data s) = st_num_alloc s \<and> st_num s < st_num_alloc s \<and>
     kMinSize \<le> st_num_alloc s \<and> 8 * st_num_alloc s + 8 < 2 ^ 63"

definition insert_at :: "nat \<Rightarrow> 'a \<Rightarrow> 'a list \<Rightarrow> 'a list" where
  "insert_at i x xs = take i xs @ x # drop i xs"

definition delete_at :: "nat \<Rightarrow> 'a list \<Rightarrow> 'a list" where
  "delete_at i xs = take i xs @ drop (Suc i) xs"

lemma length_sk_elems [simp]: "sk_ok s \<Longrightarrow> length (sk_elems s) = st_num s"
  by (simp add: sk_ok_def sk_elems_def)

lemma sk_elems_nth: "\<lbrakk>sk_ok s; i < st_num s\<rbrakk> \<Longrightarrow> st_data s ! i = sk_elems s ! i"
  by (simp add: sk_elems_def)

lemma sk_elems_sorted_update [simp]: "sk_elems (s\<lparr>st_sorted := b\<rparr>) = sk_elems s"
  by (simp add: sk_elems_def)

lemma sk_elems_comp_update [simp]: "sk_elems (s\<lparr>st_comp := c\<rparr>) = sk_elems s"
  by (simp add: sk_elems_def)

lemma sk_ok_flags [simp]: "sk_ok (s\<lparr>st_sorted := b\<rparr>) = sk_ok s" "sk_ok (s\<lparr>st_comp := c\<rparr>) = sk_ok s"
  by (simp_all add: sk_ok_def)

lemma find_index_cong:
  "(\<And>i. i < n \<Longrightarrow> P i = Q i) \<Longrightarrow> List.find P [0..<n] = List.find Q [0..<n]"
  by (rule find_cong) auto

lemma realloc_slots_grow:
  assumes "heap_ok h" "realloc_slots h u old n = Some d" "8 * n + 8 < SIZE_MOD" "length old \<le> n"
  shows "length d = n \<and> take (length old) d = old \<and> 8 * n + 8 < 2 ^ 63"
proof -
  have w: "size_wrap (8 * n) = 8 * n" using assms(3) by simp
  obtain block where b: "OPENSSL_malloc h (8 * n) = Some block"
    "d = take (length block div 8) (take n old @ map u [length old..<n])"
    using assms(2) unfolding realloc_slots_def w by (auto split: option.splits)
  have "length block = 8 * n"
    using OPENSSL_malloc_length [OF _ b(1)] assms(3) by simp
  moreover have "grants h (8 * n + 8)"
    using b(1) OPENSSL_malloc_Some_iff [OF assms(3)] by auto
  ultimately show ?thesis
    using b(2) assms(1,4) unfolding heap_ok_def by simp
qed

lemma sk_new_ok:
  "sk_new h c = Some s \<Longrightarrow> sk_ok s \<and> sk_elems s = [] \<and> st_comp s = c \<and> \<not> st_sorted s"
  by (auto simp: sk_new_def sk_ok_def sk_elems_def kMinSize_def split: option.splits)

lemma sk_grow_ok:
  assumes "heap_ok h" "sk_ok s" "sk_grow h u s = Some s'"
  shows "sk_ok s' \<and> st_num s + 1 < st_num_alloc s' \<and> sk_elems s' = sk_elems s \<and> st_num s' = st_num s \<and>
    st_comp s' = st_comp s"
proof -
  have s: "length (st_data s) = st_num_alloc s" "st_num s < st_num_alloc s" "8 * st_num_alloc s + 8 < 2 ^ 63"
    "kMinSize \<le> st_num_alloc s"
    using assms(2) by (auto simp: sk_ok_def)
  then have w: "size_wrap (st_num s + 1) = st_num s + 1"
    by (intro size_wrap_small) simp
  show ?thesis
  proof (cases "st_num_alloc s \<le> st_num s + 1")
    case False
    then show ?thesis using assms(2,3) w by (simp add: sk_grow_def)
  next
    case True
    have g: "sk_grown (st_num_alloc s) = Some (st_num_alloc s * 2)"
      using s(3) by (simp add: sk_grown_def Let_def)
    obtain d where d: "realloc_slots h u (st_data s) (st_num_alloc s * 2) = Some d"
      "s' = s\<lparr>st_data := d, st_num_alloc := st_num_alloc s * 2\<rparr>"
      using assms(3) True w g by (auto simp: sk_grow_def split: option.splits)
    have "length d = st_num_alloc s * 2 \<and> take (length (st_data s)) d = st_data s \<and> 8 * (st_num_alloc s * 2) + 8 < 2 ^ 63"
      by (rule realloc_slots_grow [OF assms(1) d(1)]) (use s in simp_all)
    moreover from this have "take (st_num s) d = take (st_num s) (st_data s)"
      using s(1,2) by (metis less_imp_le_nat min_def take_take)
    ultimately show ?thesis
      using s d(2) by (simp add: sk_ok_def sk_elems_def)
  qed
qed

text \<open>Insertion, at the end when the position lies behind it.\<close>

lemma sk_insert_elems:
  assumes "heap_ok h" "sk_ok s" "sk_insert h u (Some s) p i = (n, t)" "n \<noteq> 0"
  shows "\<exists>s'. t = Some s' \<and> sk_ok s' \<and> sk_elems s' = insert_at i p (sk_elems s) \<and> n = st_num s + 1 \<and>
    st_num s' = st_num s + 1 \<and> st_comp s' = st_comp s \<and> \<not> st_sorted s'"
proof -
  obtain g where g: "sk_grow h u s = Some g"
    using assms(3,4) by (auto simp: sk_insert_def split: option.splits)
  note ok = sk_grow_ok [OF assms(1,2) g]
  have gd: "length (st_data g) = st_num_alloc g" "st_num g < st_num_alloc g" "8 * st_num_alloc g + 8 < 2 ^ 63"
    "kMinSize \<le> st_num_alloc g"
    using ok by (auto simp: sk_ok_def)
  then have w: "size_wrap (Suc (st_num g)) = Suc (st_num g)"
    by (intro size_wrap_small) simp
  let ?d = "if i \<ge> st_num g then (st_data g)[st_num g := p]
    else (take (i + 1) (st_data g) @ take (st_num g - i) (drop i (st_data g)) @ drop (st_num g + 1) (st_data g))[i := p]"
  have t: "t = Some (g\<lparr>st_data := ?d, st_num := st_num g + 1, st_sorted := False\<rparr>)" "n = st_num g + 1"
    using assms(3) g by (auto simp: sk_insert_def Let_def w)
  have "take (st_num g + 1) ?d = insert_at i p (take (st_num g) (st_data g)) \<and> length ?d = st_num_alloc g"
  proof (cases "i \<ge> st_num g")
    case True
    then show ?thesis
      using gd by (simp add: insert_at_def take_Suc_conv_app_nth)
  next
    case False
    have "(take (i + 1) (st_data g) @ take (st_num g - i) (drop i (st_data g)) @ drop (st_num g + 1) (st_data g))[i := p] =
      take i (st_data g) @ p # take (st_num g - i) (drop i (st_data g)) @ drop (st_num g + 1) (st_data g)"
      using False gd by (simp add: take_Suc_conv_app_nth list_update_append)
    then show ?thesis
      using False gd by (simp add: insert_at_def min_def take_drop Suc_diff_le)
  qed
  then obtain d where d: "d = ?d" "take (st_num g + 1) d = insert_at i p (take (st_num g) (st_data g))"
    "length d = st_num_alloc g"
    by blast
  have "t = Some (g\<lparr>st_data := d, st_num := st_num g + 1, st_sorted := False\<rparr>)"
    using t(1) d(1) by (simp only:)
  moreover have "take (st_num s) (st_data g) = take (st_num s) (st_data s)"
    using ok unfolding sk_elems_def by metis
  ultimately show ?thesis
    using t(2) d(2,3) ok gd by (simp add: sk_ok_def sk_elems_def)
qed

lemma sk_insert_refused:
  assumes "sk_ok s" "sk_insert h u (Some s) p i = (0, t)" "heap_ok h"
  shows "t = Some s"
proof (cases "sk_grow h u s")
  case None
  then show ?thesis using assms(2) by (simp add: sk_insert_def)
next
  case (Some g)
  then have "sk_ok g" using sk_grow_ok [OF assms(3,1) Some] by simp
  then have "size_wrap (st_num g + 1) = st_num g + 1"
    by (intro size_wrap_small) (simp add: sk_ok_def)
  then show ?thesis using assms(2) Some by (simp add: sk_insert_def Let_def)
qed

lemma sk_delete_elems:
  assumes "sk_ok s" "i < st_num s" "sk_delete (Some s) i = (r, t)"
  shows "\<exists>s'. t = Some s' \<and> sk_ok s' \<and> sk_elems s' = delete_at i (sk_elems s) \<and> r = sk_elems s ! i \<and>
    st_comp s' = st_comp s \<and> st_sorted s' = st_sorted s"
proof -
  let ?d = "if i \<noteq> st_num s - 1
    then take i (st_data s) @ take (st_num s - i - 1) (drop (i + 1) (st_data s)) @ drop (st_num s - 1) (st_data s)
    else st_data s"
  have s: "length (st_data s) = st_num_alloc s" "st_num s < st_num_alloc s"
    using assms(1) by (auto simp: sk_ok_def)
  have "take (st_num s - 1) ?d = delete_at i (take (st_num s) (st_data s)) \<and> length ?d = st_num_alloc s"
    using s assms(2) by (auto simp: delete_at_def min_def take_drop)
  then show ?thesis
    using assms s by (auto simp: sk_delete_def Let_def sk_ok_def sk_elems_def)
qed

lemma sk_delete_out_of_range: "st_num s \<le> i \<Longrightarrow> sk_delete (Some s) i = (None, Some s)"
  by (simp add: sk_delete_def)

lemma sk_zero_elems:
  "sk_ok s \<Longrightarrow> \<exists>s'. sk_zero (Some s) = Some s' \<and> sk_ok s' \<and> sk_elems s' = [] \<and> st_comp s' = st_comp s"
  by (auto simp: sk_zero_def sk_ok_def sk_elems_def)

lemma sk_value_elems: "sk_ok s \<Longrightarrow> sk_value (Some s) i = (if i < st_num s then sk_elems s ! i else None)"
  by (simp add: sk_value_def sk_elems_def)

lemma sk_set_elems:
  "\<lbrakk>sk_ok s; i < st_num s\<rbrakk> \<Longrightarrow> \<exists>s'. sk_set (Some s) i p = (p, Some s') \<and> sk_ok s' \<and> sk_elems s' = (sk_elems s)[i := p] \<and>
     st_comp s' = st_comp s \<and> st_sorted s' = st_sorted s"
  by (simp add: sk_set_def sk_ok_def sk_elems_def take_update_swap)

section \<open>Comparison functions and sorting\<close>

text \<open>What a comparison function has to be for sorting and searching to mean anything.\<close>

definition cmp_ok :: "('a \<Rightarrow> 'a \<Rightarrow> int) \<Rightarrow> bool" where
  "cmp_ok c \<longleftrightarrow> (\<forall>a b. (c a b < 0 \<longleftrightarrow> 0 < c b a)) \<and> (\<forall>x y z. c x y \<le> 0 \<longrightarrow> c y z \<le> 0 \<longrightarrow> c x z \<le> 0)"

definition sorted_by :: "('a \<Rightarrow> 'a \<Rightarrow> int) \<Rightarrow> 'a list \<Rightarrow> bool" where
  "sorted_by c xs \<longleftrightarrow> sorted_wrt (\<lambda>a b. c a b \<le> 0) xs"

text \<open>What the C library promises of \<open>qsort\<close>.\<close>

definition qsort_ok :: "(('a \<Rightarrow> 'a \<Rightarrow> int) \<Rightarrow> 'a list \<Rightarrow> 'a list) \<Rightarrow> bool" where
  "qsort_ok qsort \<longleftrightarrow> (\<forall>c xs. cmp_ok c \<longrightarrow> mset (qsort c xs) = mset xs \<and> sorted_by c (qsort c xs))"

lemma cmp_ok_flip: "cmp_ok c \<Longrightarrow> c a b < 0 \<longleftrightarrow> 0 < c b a"
  by (simp add: cmp_ok_def)

lemma cmp_ok_trans: "\<lbrakk>cmp_ok c; c x y \<le> 0; c y z \<le> 0\<rbrakk> \<Longrightarrow> c x z \<le> 0"
  unfolding cmp_ok_def by blast

lemma cmp_ok_less_trans: "\<lbrakk>cmp_ok c; c x y < 0; c y z \<le> 0\<rbrakk> \<Longrightarrow> c x z < 0"
  by (metis cmp_ok_flip cmp_ok_trans not_le)

lemma cmp_ok_le_less_trans: "\<lbrakk>cmp_ok c; c x y \<le> 0; c y z < 0\<rbrakk> \<Longrightarrow> c x z < 0"
  by (metis cmp_ok_flip cmp_ok_trans not_le)

lemma cmp_ok_refl: "cmp_ok c \<Longrightarrow> c a a = 0"
  by (metis cmp_ok_flip less_irrefl linorder_neqE order.asym)

lemma sorted_by_nth:
  "\<lbrakk>cmp_ok c; sorted_by c xs; i \<le> j; j < length xs\<rbrakk> \<Longrightarrow> c (xs ! i) (xs ! j) \<le> 0"
  by (cases "i = j") (auto simp: sorted_by_def sorted_wrt_iff_nth_less cmp_ok_refl)

lemma sorted_by_delete_at: "sorted_by c xs \<Longrightarrow> sorted_by c (delete_at i xs)"
  unfolding sorted_by_def delete_at_def
  by (subst (asm) append_take_drop_id [of i xs, symmetric], subst (asm) sorted_wrt_append)
    (auto simp: sorted_wrt_append sorted_wrt_drop dest: in_set_dropD
      intro!: sorted_wrt_drop [of _ "drop i xs" 1, simplified drop_drop plus_1_eq_Suc]
      dest: set_drop_subset_set_drop [of i "Suc i", THEN subsetD, rotated])

section \<open>Searching\<close>

text \<open>
  What the loop finds is the first index that compares equal, when no index below \<open>lo\<close> does
  and none from \<open>hi\<close> on is the first.
\<close>

definition first_index :: "(nat \<Rightarrow> bool) \<Rightarrow> nat \<Rightarrow> nat option" where
  "first_index P n = List.find P [0..<n]"

lemma first_index_Some_iff: "first_index P n = Some i \<longleftrightarrow> i < n \<and> P i \<and> (\<forall>j<i. \<not> P j)"
  unfolding first_index_def find_Some_iff by (auto 4 4)

lemma first_index_None_iff: "first_index P n = None \<longleftrightarrow> (\<forall>i<n. \<not> P i)"
  unfolding first_index_def find_None_iff by auto

lemma sk_bsearch_cong:
  "(\<And>i. i < hi \<Longrightarrow> r i = r' i) \<Longrightarrow> sk_bsearch r lo hi = sk_bsearch r' lo hi"
proof (induction r lo hi rule: sk_bsearch.induct)
  case (1 r lo hi)
  then show ?case
    by (subst (1 2) sk_bsearch.simps) (auto simp: Let_def)
qed

lemma sk_bsearch_first:
  assumes pos: "\<And>i j. \<lbrakk>i \<le> j; j < n; 0 < r j\<rbrakk> \<Longrightarrow> 0 < r i"
    and neg: "\<And>i j. \<lbrakk>i \<le> j; j < n; r i < 0\<rbrakk> \<Longrightarrow> r j < 0"
    and "hi \<le> n" "\<And>i. first_index (\<lambda>i. r i = 0) n = Some i \<Longrightarrow> lo \<le> i \<and> i < hi"
  shows "sk_bsearch r lo hi = first_index (\<lambda>i. r i = 0) n"
  using assms(3,4)
proof (induction "hi - lo" arbitrary: lo hi rule: less_induct)
  case less
  let ?mid = "lo + (hi - lo - 1) div 2" and ?first = "first_index (\<lambda>i. r i = 0) n"
  show ?case
  proof (cases "lo < hi")
    case False
    then show ?thesis using less.prems(2) by (cases ?first) (auto simp: sk_bsearch.simps [of r lo hi])
  next
    case True
    then have mid: "lo \<le> ?mid" "?mid < hi" "?mid < n" using less.prems(1) by auto
    consider "0 < r ?mid" | "r ?mid < 0" | "r ?mid = 0" by linarith
    then show ?thesis
    proof cases
      case 1
      have "sk_bsearch r (?mid + 1) hi = ?first"
      proof (rule less.hyps)
        show "?mid + 1 \<le> i \<and> i < hi" if "?first = Some i" for i
          using less.prems(2) [OF that] that pos [of i ?mid] mid 1 by (force simp: first_index_Some_iff)
      qed (use mid less.prems(1) in auto)
      then show ?thesis using True 1 by (simp add: sk_bsearch.simps [of r lo hi] Let_def)
    next
      case 2
      have "sk_bsearch r lo ?mid = ?first"
      proof (rule less.hyps)
        show "lo \<le> i \<and> i < ?mid" if "?first = Some i" for i
          using less.prems(2) [OF that] that neg [of ?mid i] mid 2 by (force simp: first_index_Some_iff)
      qed (use mid less.prems(1) in auto)
      then show ?thesis using True 2 by (simp add: sk_bsearch.simps [of r lo hi] Let_def)
    next
      case 3
      obtain i where first: "?first = Some i"
        using 3 mid(3) by (cases ?first) (auto simp: first_index_None_iff)
      have "i \<le> ?mid"
        using first 3 unfolding first_index_Some_iff by (meson not_le)
      note i = first this
      show ?thesis
      proof (cases "hi - lo = 1")
        case True
        then have "lo = i" "?mid = lo" using less.prems(2) [OF i(1)] by auto
        then have "sk_bsearch r lo hi = Some lo"
          using True 3 by (subst sk_bsearch.simps) (simp add: Let_def)
        then show ?thesis
          using i(1) \<open>lo = i\<close> by simp
      next
        case False
        have "sk_bsearch r lo (?mid + 1) = ?first"
          by (rule less.hyps) (use mid False True i less.prems in auto)
        then show ?thesis using True False 3 by (simp add: sk_bsearch.simps [of r lo hi] Let_def)
      qed
    qed
  qed
qed

lemma sk_find_sorted:
  assumes "sk_ok s" "st_comp s = Some c" "cmp_ok (cmp c)" "st_sorted s \<longrightarrow> sorted_by (cmp c) (sk_elems s)" "p \<noteq> None"
  shows "sk_find cmp (Some s) p = first_index (\<lambda>i. cmp c p (sk_elems s ! i) = 0) (st_num s)"
proof (cases "st_sorted s")
  case False
  then show ?thesis
    using assms by (auto simp: sk_find_def sk_is_sorted_def first_index_def sk_elems_nth intro!: find_index_cong)
next
  case True
  let ?r = "\<lambda>i. cmp c p (sk_elems s ! i)"
  have le: "cmp c (sk_elems s ! i) (sk_elems s ! j) \<le> 0" if "i \<le> j" "j < st_num s" for i j
    using sorted_by_nth [OF assms(3)] assms(1,4) True that by simp
  have "sk_bsearch ?r 0 (st_num s) = first_index (\<lambda>i. ?r i = 0) (st_num s)"
  proof (rule sk_bsearch_first)
    show "0 < ?r i" if "i \<le> j" "j < st_num s" "0 < ?r j" for i j
      using le [OF that(1,2)] that(3) cmp_ok_le_less_trans [OF assms(3)] cmp_ok_flip [OF assms(3)] by metis
    show "?r j < 0" if "i \<le> j" "j < st_num s" "?r i < 0" for i j
      using le [OF that(1,2)] that(3) cmp_ok_less_trans [OF assms(3)] by metis
  qed (auto simp: first_index_Some_iff)
  moreover have "sk_bsearch (\<lambda>i. cmp c p (st_data s ! i)) 0 (st_num s) = sk_bsearch ?r 0 (st_num s)"
    by (rule sk_bsearch_cong) (simp add: sk_elems_nth assms(1))
  ultimately show ?thesis
    using True assms(2,5) by (auto simp: sk_find_def sk_is_sorted_def)
qed

end
