(* ===== verification/Stack_Properties.thy ===== *)
theory Stack_Properties
  imports Stack
begin

text \<open>
  The stack as a state machine: every operation of \<open>stack.c\<close> that changes a stack is a step, the
  stacks a program can have are those reached from \<open>sk_new\<close>. Searching such a stack finds the
  first match, whether or not it has been sorted; writing elements in place, with \<open>sk_set\<close> or by a
  deep copy whose copies compare differently, is what can spoil this, and the reachable states
  remember whether it has happened.
\<close>

section \<open>Sorting, copying\<close>

lemma sk_sort_elems:
  assumes "sk_ok s" "qsort_ok qsort" "\<And>c. cmp_ok (cmp c)" "st_sorted s \<and> st_comp s = Some c \<longrightarrow> sorted_by (cmp c) (sk_elems s)"
    "st_comp s = Some c"
  shows "\<exists>s'. sk_sort qsort cmp (Some s) = Some s' \<and> sk_ok s' \<and> mset (sk_elems s') = mset (sk_elems s) \<and>
    st_comp s' = st_comp s \<and> st_sorted s' \<and> sorted_by (cmp c) (sk_elems s')"
proof -
  have q: "mset (qsort (cmp c) xs) = mset xs" "sorted_by (cmp c) (qsort (cmp c) xs)" for xs
    using assms(2,3) by (simp_all add: qsort_ok_def)
  have len: "length (qsort (cmp c) xs) = length xs" for xs
    by (rule mset_eq_length) (rule q(1))
  have ok: "length (st_data s) = st_num_alloc s" "st_num s < st_num_alloc s" "8 * st_num_alloc s + 8 < 2 ^ 63"
    "kMinSize \<le> st_num_alloc s"
    using assms(1) by (auto simp: sk_ok_def)
  consider "st_sorted s" | "\<not> st_sorted s" "st_num s \<ge> 2" | "\<not> st_sorted s" "st_num s < 2" by linarith
  then show ?thesis
  proof cases
    case 1
    then show ?thesis using assms by (simp add: sk_sort_def)
  next
    case 2
    then show ?thesis
      using assms(5) ok q len by (simp add: sk_sort_def sk_ok_def sk_elems_def)
  next
    case 3
    then have "sorted_by (cmp c) (sk_elems s)"
      using assms(1) by (cases "sk_elems s"; cases "tl (sk_elems s)") (auto simp: sorted_by_def dest: arg_cong [of _ _ length])
    then show ?thesis
      using 3 assms(1,5) by (simp add: sk_sort_def Let_def)
  qed
qed

lemma sk_sort_no_comp: "st_comp s = None \<Longrightarrow> sk_sort qsort cmp (Some s) = Some s"
  by (simp add: sk_sort_def)

lemma sk_dup_elems:
  assumes "heap_ok h" "sk_ok s" "sk_dup h u (Some s) = Some s'"
  shows "sk_ok s' \<and> sk_elems s' = sk_elems s \<and> st_comp s' = st_comp s \<and> st_sorted s' = st_sorted s"
proof -
  have s: "length (st_data s) = st_num_alloc s" "st_num s < st_num_alloc s" "8 * st_num_alloc s + 8 < 2 ^ 63"
    "4 \<le> st_num_alloc s"
    using assms(2) by (auto simp: sk_ok_def kMinSize_def)
  obtain ret :: "('a, 'b) stack" and d where ret: "sk_new h (st_comp s) = Some ret"
    and d: "realloc_slots h u (st_data ret) (st_num_alloc s) = Some d"
    and s': "s' = ret\<lparr>st_data := take (st_num s) (st_data s) @ drop (st_num s) d, st_num := st_num s,
       st_sorted := st_sorted s, st_num_alloc := st_num_alloc s, st_comp := st_comp s\<rparr>"
    using assms(3) by (auto simp: sk_dup_def split: option.splits)
  have "length (st_data ret) = 4"
    using ret by (auto simp: sk_new_def kMinSize_def split: option.splits)
  then have "length d = st_num_alloc s"
    using realloc_slots_grow [OF assms(1) d] s(3,4) by simp
  then show ?thesis
    using s s' by (simp add: sk_ok_def sk_elems_def kMinSize_def)
qed

text \<open>What a deep copy makes of a list: the copies, or those made before the first failure.\<close>

fun copy_all :: "('p \<Rightarrow> 'p option) \<Rightarrow> 'p option list \<Rightarrow> 'p option list + 'p option list" where
  "copy_all copy [] = Inr []"
| "copy_all copy (None # es) = map_sum (Cons None) (Cons None) (copy_all copy es)"
| "copy_all copy (Some p # es) =
     (case copy p of None \<Rightarrow> Inl [] | Some q \<Rightarrow> map_sum (Cons (Some q)) (Cons (Some q)) (copy_all copy es))"

lemma copy_all_Inr_iff:
  "copy_all copy es = Inr es' \<longleftrightarrow>
     (\<forall>p. Some p \<in> set es \<longrightarrow> copy p \<noteq> None) \<and> es' = map (\<lambda>e. Option.bind e copy) es"
proof (induction es arbitrary: es' rule: copy_all.induct)
  case (2 copy es)
  then show ?case by (cases "copy_all copy es") auto
next
  case (3 copy p es)
  then show ?case by (cases "copy p"; cases "copy_all copy es") auto
qed auto

lemma copy_all_Inl:
  assumes "copy_all copy es = Inl cs"
  shows "\<exists>ps p qs. es = ps @ Some p # qs \<and> copy p = None \<and> cs = map (\<lambda>e. Option.bind e copy) ps \<and>
    (\<forall>q. Some q \<in> set ps \<longrightarrow> copy q \<noteq> None)"
  using assms
proof (induction copy es arbitrary: cs rule: copy_all.induct)
  case (2 copy es)
  obtain cs' where cs': "copy_all copy es = Inl cs'" "cs = None # cs'"
    using 2(2) by (cases "copy_all copy es") auto
  obtain ps p qs where "es = ps @ Some p # qs" "copy p = None" "cs' = map (\<lambda>e. Option.bind e copy) ps"
    "\<forall>q. Some q \<in> set ps \<longrightarrow> copy q \<noteq> None"
    using 2(1) [OF cs'(1)] by blast
  then show ?case using cs'(2) by (intro exI [of _ "None # ps"] exI [of _ p] exI [of _ qs]) simp
next
  case (3 copy p es)
  show ?case
  proof (cases "copy p")
    case None
    then show ?thesis using 3(2) by (intro exI [of _ "[]"] exI [of _ p] exI [of _ es]) simp
  next
    case (Some q)
    obtain cs' where cs': "copy_all copy es = Inl cs'" "cs = Some q # cs'"
      using 3(2) Some by (cases "copy_all copy es") auto
    obtain ps r qs where "es = ps @ Some r # qs" "copy r = None" "cs' = map (\<lambda>e. Option.bind e copy) ps"
      "\<forall>q. Some q \<in> set ps \<longrightarrow> copy q \<noteq> None"
      using 3(1) [OF Some cs'(1)] by blast
    then show ?thesis
      using cs'(2) Some by (intro exI [of _ "Some p # ps"] exI [of _ r] exI [of _ qs]) simp
  qed
qed simp

lemma deep_copy_loop_eq:
  assumes "n \<le> length d" "i \<le> n"
  shows "deep_copy_loop copy d i n =
    map_sum (\<lambda>cs. take i d @ cs) (\<lambda>cs. take i d @ cs @ drop n d) (copy_all copy (drop i (take n d)))"
  using assms
proof (induction "n - i" arbitrary: i d)
  case 0
  then have "n = i" by simp
  then have "deep_copy_loop copy d i n = Inr d" by (subst deep_copy_loop.simps) simp
  then show ?case by (simp add: \<open>n = i\<close>)
next
  case (Suc k)
  then have i: "i < n" "n \<le> length d" by auto
  have split: "drop i (take n d) = d ! i # drop (Suc i) (take n d)"
    using i Cons_nth_drop_Suc [of i "take n d"] by simp
  have step: "deep_copy_loop copy e (Suc i) n =
      map_sum (\<lambda>cs. take (Suc i) e @ cs) (\<lambda>cs. take (Suc i) e @ cs @ drop n e) (copy_all copy (drop (Suc i) (take n e)))"
    if "length e = length d" for e
    by (rule Suc.hyps(1)) (use Suc.hyps(2) i that in auto)
  show ?case
  proof (cases "d ! i")
    case None
    have "take (Suc i) d = take i d @ [None]" using i None by (simp add: take_Suc_conv_app_nth)
    then show ?thesis
      using i None by (simp add: deep_copy_loop.simps [of copy d i n] step split sum.map_comp comp_def)
  next
    case (Some p)
    note p = Some
    show ?thesis
    proof (cases "copy p")
      case None
      then show ?thesis
        using i p by (simp add: deep_copy_loop.simps [of copy d i n] split)
    next
      case (Some q)
      let ?d = "d[i := Some q]"
      have "take (Suc i) ?d = take i d @ [Some q]" using i by (simp add: take_Suc_conv_app_nth)
      moreover have "drop (Suc i) (take n ?d) = drop (Suc i) (take n d)"
        by (simp add: take_update_swap)
      moreover have "drop n ?d = drop n d" using i by simp
      ultimately show ?thesis
        using i p Some by (simp add: deep_copy_loop.simps [of copy d i n] step split sum.map_comp comp_def)
    qed
  qed
qed

lemma sk_deep_copy_elems:
  assumes "heap_ok h" "sk_ok s" "sk_deep_copy h u copy free (Some s) w = (r, w')" "sk_dup h u (Some s) \<noteq> None"
  shows "case copy_all copy (sk_elems s) of
      Inr es \<Rightarrow> w' = w \<and> (\<exists>s'. r = Some s' \<and> sk_ok s' \<and> sk_elems s' = es \<and> st_comp s' = st_comp s \<and> st_sorted s' = st_sorted s)
    | Inl cs \<Rightarrow> r = None \<and> w' = foldl (\<lambda>w e. case e of None \<Rightarrow> w | Some p \<Rightarrow> free p w) w cs"
proof -
  obtain d where d: "sk_dup h u (Some s) = Some d" using assms(4) by auto
  have dok: "sk_ok d" "sk_elems d = sk_elems s" "st_comp d = st_comp s" "st_sorted d = st_sorted s"
    using sk_dup_elems [OF assms(1,2) d] by auto
  then have n: "st_num d \<le> length (st_data d)" by (simp add: sk_ok_def)
  have loop: "deep_copy_loop copy (st_data d) 0 (st_num d) =
      map_sum id (\<lambda>cs. cs @ drop (st_num d) (st_data d)) (copy_all copy (sk_elems s))"
    using deep_copy_loop_eq [OF n, of 0 copy] dok(2) by (simp add: sk_elems_def id_def)
  have len: "length es = st_num d" if "copy_all copy (sk_elems s) = Inr es" for es
    using that unfolding copy_all_Inr_iff by (metis length_map length_sk_elems dok(1,2))
  show ?thesis
  proof (cases "copy_all copy (sk_elems s)")
    case (Inl cs)
    then show ?thesis using assms(3) d loop by (simp add: sk_deep_copy_def)
  next
    case (Inr es)
    then have r: "r = Some (d\<lparr>st_data := es @ drop (st_num d) (st_data d)\<rparr>)" "w' = w"
      using assms(3) d loop by (simp_all add: sk_deep_copy_def)
    show ?thesis
      using len [OF Inr] dok n unfolding r Inr by (simp add: sk_ok_def sk_elems_def)
  qed
qed

section \<open>The stacks a program can have\<close>

text \<open>Two elements that a comparison function cannot tell apart.\<close>

definition same_order :: "('a \<Rightarrow> 'a \<Rightarrow> int) \<Rightarrow> 'a \<Rightarrow> 'a \<Rightarrow> bool" where
  "same_order c a b \<longleftrightarrow> (\<forall>x. (c a x \<le> 0) = (c b x \<le> 0) \<and> (c x a \<le> 0) = (c x b \<le> 0))"

text \<open>
  One step of a program on a stack. \<open>sk_step\<close> has the operations that keep the order of what they
  do not replace or that clear the flag, and the deep copies that compare like their originals;
  \<open>sk_overwrite\<close> has those that put other elements in the places of the old ones and leave the flag
  as it was: \<open>sk_set\<close>, and a deep copy whose copies are arbitrary. Every operation has a heap of its
  own, so that any allocation may fail.
\<close>

type_synonym 'p qsort = "('p option \<Rightarrow> 'p option \<Rightarrow> int) \<Rightarrow> 'p option list \<Rightarrow> 'p option list"

inductive sk_step :: "'p qsort \<Rightarrow> ('p, 'c) call_cmp \<Rightarrow> ('p, 'c) stack \<Rightarrow> ('p, 'c) stack \<Rightarrow> bool" for qsort cmp s where
  zero: "sk_zero (Some s) = Some s' \<Longrightarrow> sk_step qsort cmp s s'"
| insert: "\<lbrakk>heap_ok h; sk_insert h u (Some s) p i = (n, Some s')\<rbrakk> \<Longrightarrow> sk_step qsort cmp s s'"
| push: "\<lbrakk>heap_ok h; sk_push h u (Some s) p = (n, Some s')\<rbrakk> \<Longrightarrow> sk_step qsort cmp s s'"
| delete: "sk_delete (Some s) i = (r, Some s') \<Longrightarrow> sk_step qsort cmp s s'"
| delete_ptr: "sk_delete_ptr (Some s) p = (r, Some s') \<Longrightarrow> sk_step qsort cmp s s'"
| shift: "sk_shift (Some s) = (r, Some s') \<Longrightarrow> sk_step qsort cmp s s'"
| pop: "sk_pop (Some s) = (r, Some s') \<Longrightarrow> sk_step qsort cmp s s'"
| sort: "sk_sort qsort cmp (Some s) = Some s' \<Longrightarrow> sk_step qsort cmp s s'"
| set_cmp: "sk_set_cmp_func s c = (old, s') \<Longrightarrow> sk_step qsort cmp s s'"
| dup: "\<lbrakk>heap_ok h; sk_dup h u (Some s) = Some s'\<rbrakk> \<Longrightarrow> sk_step qsort cmp s s'"
| deep_copy: "\<lbrakk>heap_ok h; sk_deep_copy h u copy (\<lambda>_. id) (Some s) () = (Some s', ());
    \<And>p q c. copy p = Some q \<Longrightarrow> same_order (cmp c) (Some p) (Some q)\<rbrakk> \<Longrightarrow> sk_step qsort cmp s s'"

inductive sk_overwrite :: "('p, 'c) stack \<Rightarrow> ('p, 'c) stack \<Rightarrow> bool" for s where
  set: "sk_set (Some s) i v = (r, Some s') \<Longrightarrow> sk_overwrite s s'"
| deep_copy: "\<lbrakk>heap_ok h; sk_deep_copy h u copy (\<lambda>_. id) (Some s) () = (Some s', ())\<rbrakk> \<Longrightarrow> sk_overwrite s s'"

text \<open>
  The stacks a program can have. The second argument tells whether elements have been overwritten
  in place since the flag was last cleared; an operation that clears the flag makes it false.
\<close>

inductive sk_reach :: "'p qsort \<Rightarrow> ('p, 'c) call_cmp \<Rightarrow> ('p, 'c) stack \<Rightarrow> bool \<Rightarrow> bool" for qsort cmp where
  new: "\<lbrakk>heap_ok h; sk_new h c = Some s\<rbrakk> \<Longrightarrow> sk_reach qsort cmp s False"
| step: "\<lbrakk>sk_reach qsort cmp s w; sk_step qsort cmp s s'\<rbrakk> \<Longrightarrow> sk_reach qsort cmp s' (w \<and> st_sorted s')"
| overwrite: "\<lbrakk>sk_reach qsort cmp s w; sk_overwrite s s'\<rbrakk> \<Longrightarrow> sk_reach qsort cmp s' (st_sorted s')"

definition sk_inv :: "('p, 'c) call_cmp \<Rightarrow> ('p, 'c) stack \<Rightarrow> bool" where
  "sk_inv cmp s \<longleftrightarrow> sk_ok s \<and> (\<forall>c. st_sorted s \<and> st_comp s = Some c \<longrightarrow> sorted_by (cmp c) (sk_elems s))"

lemma sk_insert_ok:
  assumes "heap_ok h" "sk_ok s" "sk_insert h u (Some s) p i = (n, Some s')"
  shows "sk_ok s'"
  using sk_insert_refused [of s h u p i "Some s'"] sk_insert_elems [OF assms] assms by (cases "n = 0") auto

lemma sk_delete_ok:
  assumes "sk_ok s" "sk_delete (Some s) i = (r, Some s')"
  shows "sk_ok s'"
  using sk_delete_elems [OF assms(1) _ assms(2)] sk_delete_out_of_range [of s i] assms by (cases "i < st_num s") auto

lemma sk_deep_copy_result:
  assumes "heap_ok h" "sk_ok s" "sk_deep_copy h u copy free (Some s) w = (Some s', w')"
  shows "sk_ok s' \<and> sk_elems s' = map (\<lambda>e. Option.bind e copy) (sk_elems s) \<and> st_comp s' = st_comp s \<and>
    st_sorted s' = st_sorted s \<and> (\<forall>p. Some p \<in> set (sk_elems s) \<longrightarrow> copy p \<noteq> None)"
proof -
  have "sk_dup h u (Some s) \<noteq> None"
    using assms(3) by (cases "sk_dup h u (Some s)") (auto simp: sk_deep_copy_def)
  from sk_deep_copy_elems [OF assms this] show ?thesis
    by (auto simp: copy_all_Inr_iff split: sum.splits)
qed

lemma sk_inv_insert:
  assumes "heap_ok h" "sk_inv cmp s" "sk_insert h u (Some s) p i = (n, Some s')"
  shows "sk_inv cmp s'"
proof (cases "n = 0")
  case True
  then show ?thesis
    using sk_insert_refused [of s h u p i "Some s'"] assms by (simp add: sk_inv_def)
next
  case False
  then show ?thesis
    using sk_insert_elems [OF assms(1) _ assms(3)] assms(2) by (auto simp: sk_inv_def)
qed

lemma sk_inv_delete:
  assumes "sk_inv cmp s" "sk_delete (Some s) i = (r, Some s')"
  shows "sk_inv cmp s'"
proof (cases "i < st_num s")
  case True
  then show ?thesis
    using sk_delete_elems [OF _ True assms(2)] assms(1) by (auto simp: sk_inv_def intro: sorted_by_delete_at)
next
  case False
  then show ?thesis using assms sk_delete_out_of_range [of s i] by simp
qed

lemma sk_step_refl: "sk_ok s \<Longrightarrow> sk_ok s \<and> (sk_inv cmp s \<or> \<not> st_sorted s \<longrightarrow> sk_inv cmp s)"
  by (auto simp: sk_inv_def)

lemma sk_delete_step:
  assumes "sk_ok s" "sk_delete (Some s) i = (r, Some s')"
  shows "sk_ok s' \<and> (sk_inv cmp s \<or> \<not> st_sorted s' \<longrightarrow> sk_inv cmp s')"
  using sk_delete_ok [OF assms] sk_inv_delete [OF _ assms(2), of cmp] by (auto simp: sk_inv_def)

lemma sorted_by_copies:
  assumes "sorted_by c es" "\<And>p q. copy p = Some q \<Longrightarrow> same_order c (Some p) (Some q)"
    "\<forall>p. Some p \<in> set es \<longrightarrow> copy p \<noteq> None"
  shows "sorted_by c (map (\<lambda>e. Option.bind e copy) es)"
proof -
  have same: "same_order c e (Option.bind e copy)" if "e \<in> set es" for e
  proof (cases e)
    case None
    then show ?thesis by (simp add: same_order_def)
  next
    case (Some p)
    then show ?thesis using assms(2,3) that by (cases "copy p") auto
  qed
  have le: "c (Option.bind a copy) (Option.bind b copy) \<le> 0" if "c a b \<le> 0" "a \<in> set es" "b \<in> set es" for a b
    using same [OF that(2)] same [OF that(3)] that(1) unfolding same_order_def by blast
  have "sorted_wrt (\<lambda>a b. c (Option.bind a copy) (Option.bind b copy) \<le> 0) es"
    using assms(1) unfolding sorted_by_def by (auto intro: sorted_wrt_mono_rel [rotated] le)
  then show ?thesis
    by (simp add: sorted_by_def sorted_wrt_map)
qed

text \<open>Every step keeps the array in shape, and the order with it; an overwriting keeps the array.\<close>

lemma sk_step_ok:
  assumes "sk_step qsort cmp s s'" "qsort_ok qsort" "\<And>c. cmp_ok (cmp c)" "sk_ok s"
  shows "sk_ok s' \<and> (sk_inv cmp s \<or> \<not> st_sorted s' \<longrightarrow> sk_inv cmp s')"
  using assms(1)
proof cases
  case zero
  then show ?thesis using sk_zero_elems [OF assms(4)] by (auto simp: sk_inv_def sorted_by_def)
next
  case (insert h u p i n)
  then show ?thesis using sk_insert_ok [OF insert(1) assms(4) insert(2)] sk_inv_insert [OF insert(1) _ insert(2)] by (simp add: sk_inv_def)
next
  case (push h u p n)
  then have ins: "sk_insert h u (Some s) p (sk_num (Some s)) = (n, Some s')" by (simp add: sk_push_def)
  show ?thesis using sk_insert_ok [OF push(1) assms(4) ins] sk_inv_insert [OF push(1) _ ins] by (simp add: sk_inv_def)
next
  case (delete i r)
  then show ?thesis using sk_delete_step [OF assms(4)] by blast
next
  case (delete_ptr p r)
  then show ?thesis
    using sk_delete_step [OF assms(4)] sk_step_refl [OF assms(4)] by (auto simp: sk_delete_ptr_def split: option.splits)
next
  case (shift r)
  then show ?thesis
    using sk_delete_step [OF assms(4)] sk_step_refl [OF assms(4)] by (auto simp: sk_shift_def split: if_splits)
next
  case (pop r)
  then show ?thesis
    using sk_delete_step [OF assms(4)] sk_step_refl [OF assms(4)] by (auto simp: sk_pop_def split: if_splits)
next
  case sort
  show ?thesis
  proof (cases "st_comp s")
    case None
    then show ?thesis using sort assms(4) by (auto simp: sk_sort_no_comp sk_inv_def)
  next
    case (Some c)
    show ?thesis
    proof (cases "st_sorted s")
      case True
      then show ?thesis using sort assms(4) Some by (auto simp: sk_sort_def sk_inv_def)
    next
      case False
      then show ?thesis
        using sk_sort_elems [where cmp = cmp, OF assms(4,2,3) _ Some] sort Some by (auto simp: sk_inv_def)
    qed
  qed
next
  case (set_cmp c old)
  then show ?thesis using assms(4) by (auto simp: sk_inv_def sk_set_cmp_func_def split: if_splits)
next
  case (dup h u)
  then show ?thesis using sk_dup_elems [OF dup(1) assms(4) dup(2)] by (simp add: sk_inv_def)
next
  case (deep_copy h u copy)
  note c = sk_deep_copy_result [OF deep_copy(1) assms(4) deep_copy(2)]
  show ?thesis
    using c deep_copy(3) by (auto simp: sk_inv_def intro!: sorted_by_copies)
qed

lemma sk_overwrite_ok:
  assumes "sk_overwrite s s'" "sk_ok s"
  shows "sk_ok s'"
  using assms(1)
proof cases
  case (set i v r)
  then show ?thesis using sk_set_elems [OF assms(2), of i v] assms(2) by (cases "i < st_num s") (auto simp: sk_set_def)
next
  case (deep_copy h u copy)
  show ?thesis using sk_deep_copy_result [OF deep_copy(1) assms(2) deep_copy(2)] by simp
qed

lemma sk_reach_inv:
  assumes "qsort_ok qsort" "\<And>c. cmp_ok (cmp c)" "sk_reach qsort cmp s w"
  shows "sk_ok s \<and> (\<not> w \<longrightarrow> sk_inv cmp s)"
  using assms(3)
proof induction
  case (new h c s)
  then show ?case using sk_new_ok [of h c s] by (simp add: sk_inv_def)
next
  case (step s w s')
  then show ?case using sk_step_ok [OF step(2) assms(1,2)] by blast
next
  case (overwrite s w s')
  then show ?case using sk_overwrite_ok [OF overwrite(2)] by (simp add: sk_inv_def)
qed

text \<open>Whatever the order of the elements, an index that is found compares equal.\<close>

lemma sk_bsearch_sound: "sk_bsearch r lo hi = Some i \<Longrightarrow> i < hi \<and> r i = 0"
proof (induction r lo hi rule: sk_bsearch.induct)
  case (1 r lo hi)
  then show ?case
    by (subst (asm) (4) sk_bsearch.simps) (auto simp: Let_def split: if_splits)
qed

lemma sk_find_sound:
  assumes "st_comp s = Some c" "p \<noteq> None" "sk_find cmp (Some s) p = Some i"
  shows "i < st_num s \<and> cmp c p (st_data s ! i) = 0"
  using assms by (auto simp: sk_find_def find_Some_iff dest: sk_bsearch_sound split: if_splits)

section \<open>An instance\<close>

text \<open>Insertion sort, as one way to meet \<open>qsort_ok\<close>, and pointers compared by their value.\<close>

fun insert_by :: "('a \<Rightarrow> 'a \<Rightarrow> int) \<Rightarrow> 'a \<Rightarrow> 'a list \<Rightarrow> 'a list" where
  "insert_by c x [] = [x]"
| "insert_by c x (y # ys) = (if c x y \<le> 0 then x # y # ys else y # insert_by c x ys)"

fun insertion_sort :: "('a \<Rightarrow> 'a \<Rightarrow> int) \<Rightarrow> 'a list \<Rightarrow> 'a list" where
  "insertion_sort c [] = []"
| "insertion_sort c (x # xs) = insert_by c x (insertion_sort c xs)"

lemma mset_insert_by [simp]: "mset (insert_by c x xs) = add_mset x (mset xs)"
  by (induction xs) auto

lemma set_insert_by [simp]: "set (insert_by c x xs) = insert x (set xs)"
  by (simp flip: set_mset_mset)

lemma sorted_insert_by: "\<lbrakk>cmp_ok c; sorted_by c xs\<rbrakk> \<Longrightarrow> sorted_by c (insert_by c x xs)"
proof (induction xs)
  case (Cons y ys)
  have "c y x \<le> 0" if "\<not> c x y \<le> 0"
    using that cmp_ok_flip [OF Cons.prems(1), of y x] by linarith
  then show ?case
    using Cons cmp_ok_trans [OF Cons.prems(1)] by (auto simp: sorted_by_def)
qed (simp add: sorted_by_def)

lemma insertion_sort_ok: "qsort_ok insertion_sort"
proof -
  have "mset (insertion_sort c xs) = mset xs" for c and xs :: "'a list"
    by (induction xs) auto
  moreover have "cmp_ok c \<Longrightarrow> sorted_by c (insertion_sort c xs)" for c and xs :: "'a list"
    by (induction xs) (auto simp: sorted_insert_by, simp add: sorted_by_def)
  ultimately show ?thesis by (simp add: qsort_ok_def)
qed

definition value_cmp :: "(int, unit) call_cmp" where
  "value_cmp c a b = (case a of None \<Rightarrow> -1 | Some x \<Rightarrow> x) - (case b of None \<Rightarrow> -1 | Some y \<Rightarrow> y)"

lemma value_cmp_ok: "cmp_ok (value_cmp c)"
  by (simp add: cmp_ok_def value_cmp_def)

definition sample_stack :: "(int, unit) stack" where
  "sample_stack = \<lparr>st_num = 3, st_data = [Some 1, Some 3, Some 3, None], st_sorted = True, st_num_alloc = 4,
     st_comp = Some ()\<rparr>"

definition four_slots :: "nat \<Rightarrow> int option list \<Rightarrow> bool \<Rightarrow> (int, unit) stack" where
  "four_slots n d b = \<lparr>st_num = n, st_data = d, st_sorted = b, st_num_alloc = 4, st_comp = Some ()\<rparr>"

lemma replicate_4: "replicate 4 x = [x, x, x, x]"
  by (simp add: numeral_eq_Suc)

text \<open>Pushing 3, inserting 3 and 1 in front of it, and sorting.\<close>

lemma sample_stack_reachable: "sk_reach insertion_sort value_cmp sample_stack False"
proof -
  let ?s0 = "four_slots 0 [None, None, None, None] False" and ?s1 = "four_slots 1 [Some 3, None, None, None] False"
    and ?s2 = "four_slots 2 [Some 1, Some 3, None, None] False" and ?s3 = "four_slots 3 [Some 1, Some 3, Some 3, None] False"
  note next_step = sk_reach.step [where w = False, simplified] and h = heap_ok_all_grants
  have "sk_new all_grants (Some ()) = Some ?s0"
    by (simp add: sk_new_def OPENSSL_malloc_def OPENSSL_MALLOC_PREFIX_def all_grants_def kMinSize_def replicate_4 four_slots_def)
  then have 0: "sk_reach insertion_sort value_cmp ?s0 False" by (rule sk_reach.new [OF h])
  have "sk_push all_grants (\<lambda>_. None) (Some ?s0) (Some 3) = (1, Some ?s1)"
    by (simp add: sk_push_def sk_insert_def sk_grow_def sk_num_def four_slots_def)
  from next_step [OF 0 sk_step.push [OF h this]] have 1: "sk_reach insertion_sort value_cmp ?s1 False" .
  have "sk_insert all_grants (\<lambda>_. None) (Some ?s1) (Some 1) 0 = (2, Some ?s2)"
    by (simp add: sk_insert_def sk_grow_def four_slots_def numeral_2_eq_2)
  from next_step [OF 1 sk_step.insert [OF h this]] have 2: "sk_reach insertion_sort value_cmp ?s2 False" .
  have "sk_insert all_grants (\<lambda>_. None) (Some ?s2) (Some 3) 1 = (3, Some ?s3)"
    by (simp add: sk_insert_def sk_grow_def four_slots_def numeral_2_eq_2 numeral_3_eq_3)
  from next_step [OF 2 sk_step.insert [OF h this]] have 3: "sk_reach insertion_sort value_cmp ?s3 False" .
  have "sk_sort insertion_sort value_cmp (Some ?s3) = Some sample_stack"
    by (simp add: sk_sort_def value_cmp_def sample_stack_def four_slots_def numeral_3_eq_3)
  from next_step [OF 3 sk_step.sort [OF this]] show ?thesis .
qed

text \<open>Overwriting the last element with 0 leaves the flag set.\<close>

definition spoilt_stack :: "(int, unit) stack" where
  "spoilt_stack = sample_stack\<lparr>st_data := [Some 1, Some 3, Some 0, None]\<rparr>"

lemma spoilt_stack_reachable: "sk_reach insertion_sort value_cmp spoilt_stack True"
proof -
  have "sk_set (Some sample_stack) 2 (Some 0) = (Some 0, Some spoilt_stack)"
    by (simp add: sk_set_def spoilt_stack_def sample_stack_def numeral_2_eq_2 numeral_3_eq_3)
  from sk_reach.overwrite [OF sample_stack_reachable sk_overwrite.set [OF this]] show ?thesis
    by (simp add: spoilt_stack_def sample_stack_def)
qed

section \<open>Properties\<close>

text \<open>
  C13: Every stack reached from \<open>sk_new\<close> by any sequence of operations, allocation failures,
  \<open>sk_set\<close> and deep copies with any copier included, keeps its elements inside its array, with
  room for one more, and can hold no more than memory has addresses for. When its flag says it is
  sorted, its elements are in the order of its comparison function, unless elements have been
  overwritten in place (by \<open>sk_set\<close>, or by copies that compare differently) since the flag was last
  clear. Comparison functions are total preorders and \<open>qsort\<close> sorts.
\<close>

theorem sk_reachable_invariant:
  assumes "qsort_ok qsort" "\<And>c. cmp_ok (cmp c)" "sk_reach qsort cmp s overwritten"
  shows "st_num s < st_num_alloc s \<and> length (st_data s) = st_num_alloc s \<and> 8 * st_num_alloc s < 2 ^ 63 \<and>
    (st_sorted s \<and> \<not> overwritten \<longrightarrow>
      (\<forall>c. st_comp s = Some c \<longrightarrow> sorted_by (cmp c) (take (st_num s) (st_data s))))"
  using sk_reach_inv [OF assms] by (auto simp: sk_inv_def sk_ok_def sk_elems_def)

theorem sk_reachable_invariant_witness:
  "st_num sample_stack < st_num_alloc sample_stack \<and> length (st_data sample_stack) = st_num_alloc sample_stack \<and>
    sorted_by (value_cmp ()) (take (st_num sample_stack) (st_data sample_stack)) \<and>
    st_num spoilt_stack < st_num_alloc spoilt_stack \<and> \<not> sorted_by (value_cmp ()) (take (st_num spoilt_stack) (st_data spoilt_stack))"
  using sk_reachable_invariant [OF insertion_sort_ok value_cmp_ok sample_stack_reachable]
    sk_reachable_invariant [OF insertion_sort_ok value_cmp_ok spoilt_stack_reachable]
  by (simp add: sample_stack_def spoilt_stack_def sorted_by_def value_cmp_def numeral_3_eq_3)

text \<open>
  C14: Searching any reachable stack that has a comparison function, \<open>sk_set\<close> and all, for a key that
  is not the null pointer returns an index of an element that compares equal to the key, or nothing.
  Unless the elements of a stack flagged as sorted have been overwritten in place, it is the first
  such index, and nothing is returned only when there is none: the binary search of a sorted stack,
  duplicates included, finds what the linear search of an unsorted one does.
\<close>

theorem sk_find_finds_first:
  assumes "qsort_ok qsort" "\<And>c. cmp_ok (cmp c)" "sk_reach qsort cmp s overwritten" "st_comp s = Some c" "p \<noteq> None"
  shows "case sk_find cmp (Some s) p of
      Some i \<Rightarrow> i < st_num s \<and> cmp c p (sk_value (Some s) i) = 0 \<and>
        (overwritten \<or> (\<forall>j<i. cmp c p (sk_value (Some s) j) \<noteq> 0))
    | None \<Rightarrow> overwritten \<or> (\<forall>i < st_num s. cmp c p (sk_value (Some s) i) \<noteq> 0)"
proof (cases overwritten)
  case True
  then show ?thesis
    using sk_find_sound [OF assms(4,5), of cmp] by (auto simp: sk_value_def split: option.splits)
next
  case False
  then have inv: "sk_ok s" "st_sorted s \<longrightarrow> sorted_by (cmp c) (sk_elems s)"
    using sk_reach_inv [OF assms(1-3)] assms(4) by (simp_all add: sk_inv_def)
  show ?thesis
    using sk_find_sorted [where cmp = cmp and c = c and s = s and p = p, OF inv(1) assms(4) assms(2) [of c] inv(2) assms(5)] inv(1)
    by (auto simp: first_index_Some_iff first_index_None_iff sk_value_elems split: option.splits)
qed

theorem sk_find_finds_first_witness:
  "sk_find value_cmp (Some sample_stack) (Some 3) = Some 1 \<and> sk_find value_cmp (Some sample_stack) (Some 2) = None"
proof -
  note find = sk_find_finds_first [OF insertion_sort_ok value_cmp_ok sample_stack_reachable]
  have c: "st_comp sample_stack = Some ()" by (simp add: sample_stack_def)
  have n: "i = 0 \<or> i = 1 \<or> i = 2" if "i < st_num sample_stack" for i
    using that by (auto simp: sample_stack_def)
  have v: "value_cmp () (Some k) (sk_value (Some sample_stack) 0) = k - 1"
    "value_cmp () (Some k) (sk_value (Some sample_stack) 1) = k - 3"
    "value_cmp () (Some k) (sk_value (Some sample_stack) 2) = k - 3" for k
    by (simp_all add: sample_stack_def sk_value_def value_cmp_def)
  have "sk_find value_cmp (Some sample_stack) (Some 3) = Some 1"
    using find [OF c, of "Some 3"] n v [of 3] by (fastforce simp: sample_stack_def split: option.splits)
  moreover have "sk_find value_cmp (Some sample_stack) (Some 2) = None"
    using find [OF c, of "Some 2"] n v [of 2] by (fastforce split: option.splits)
  ultimately show ?thesis by simp
qed

text \<open>
  Inserting puts the element at the position asked for, or at the end when the position lies
  behind it, moves the later ones up and returns the new length; when memory is refused it
  returns 0 and leaves the stack as it was.
\<close>

theorem sk_insert_implements_insert_at:
  assumes "heap_ok h" "sk_ok s"
  shows "case sk_insert h u (Some s) p i of (n, t) \<Rightarrow>
      (if n = 0 then t = Some s
       else \<exists>s'. t = Some s' \<and> sk_ok s' \<and> sk_elems s' = insert_at i p (sk_elems s) \<and> n = length (sk_elems s'))"
proof -
  obtain n t where ins: "sk_insert h u (Some s) p i = (n, t)" by fastforce
  show ?thesis
  proof (cases "n = 0")
    case True
    then show ?thesis using ins sk_insert_refused [OF assms(2) _ assms(1)] by simp
  next
    case False
    obtain s' where s': "t = Some s'" "sk_ok s'" "sk_elems s' = insert_at i p (sk_elems s)" "n = st_num s + 1"
      "st_num s' = st_num s + 1"
      using sk_insert_elems [OF assms ins False] by blast
    then have "n = length (sk_elems s')" by (metis length_sk_elems)
    with s' False show ?thesis unfolding ins prod.case by (metis (no_types))
  qed
qed

theorem sk_insert_implements_insert_at_witness:
  "case sk_insert all_grants (\<lambda>_. None) (Some sample_stack) (Some 7) 1 of (n, t) \<Rightarrow>
      (if n = 0 then t = Some sample_stack
       else \<exists>s'. t = Some s' \<and> sk_ok s' \<and> sk_elems s' = insert_at 1 (Some 7) (sk_elems sample_stack) \<and>
         n = length (sk_elems s'))"
  by (rule sk_insert_implements_insert_at) (simp_all add: heap_ok_all_grants sample_stack_def sk_ok_def kMinSize_def)

text \<open>
  What has been pushed is popped again, and the stack is then what it was.
\<close>

theorem sk_pop_returns_pushed:
  assumes "heap_ok h" "sk_ok s" "sk_push h u (Some s) p = (n, t)" "n \<noteq> 0"
  shows "\<exists>s'. sk_pop t = (p, Some s') \<and> sk_ok s' \<and> sk_elems s' = sk_elems s"
proof -
  have ins: "sk_insert h u (Some s) p (st_num s) = (n, t)"
    using assms(3) by (simp add: sk_push_def sk_num_def)
  obtain s1 where s1: "t = Some s1" "sk_ok s1" "sk_elems s1 = sk_elems s @ [p]" "st_num s1 = st_num s + 1"
    using sk_insert_elems [OF assms(1,2) ins assms(4)] assms(2) by (auto simp: insert_at_def)
  obtain r t' where pop: "sk_delete (Some s1) (st_num s) = (r, t')" by fastforce
  then show ?thesis
    using sk_delete_elems [OF s1(2) _ pop] s1 assms(2) by (auto simp: sk_pop_def delete_at_def nth_append)
qed

theorem sk_pop_returns_pushed_witness:
  "\<exists>s'. sk_pop (snd (sk_push all_grants (\<lambda>_. None) (sk_new all_grants (None :: unit option)) (Some (5 :: int)))) = (Some 5, Some s') \<and>
     sk_ok s' \<and> sk_elems s' = []"
proof -
  obtain s :: "(int, unit) stack" where s: "sk_new all_grants None = Some s" "st_num s = 0" "st_num_alloc s = 4"
    by (simp add: sk_new_def OPENSSL_malloc_def OPENSSL_MALLOC_PREFIX_def all_grants_def kMinSize_def)
  note ok = sk_new_ok [OF s(1)]
  have "fst (sk_push all_grants (\<lambda>_. None) (Some s) (Some 5)) = 1"
    using s by (simp add: sk_push_def sk_insert_def sk_grow_def sk_num_def)
  then show ?thesis
    using sk_pop_returns_pushed [OF heap_ok_all_grants, of s "\<lambda>_. None" "Some 5"] ok s(1)
    by (cases "sk_push all_grants (\<lambda>_. None) (Some s) (Some 5)") simp
qed

text \<open>
  C15: Once the array has been duplicated, a deep copy is all or nothing: either every element has
  been copied, null elements staying null, and the copy has the elements in the old order, the flag
  and the comparison function of the original, or a copy failed, no stack is returned and exactly
  the copies already made are freed, in their order.
\<close>

theorem sk_deep_copy_all_or_nothing:
  assumes "heap_ok h" "sk_ok s" "sk_dup h u (Some s) \<noteq> None"
  shows "case sk_deep_copy h u copy (\<lambda>p freed. freed @ [p]) (Some s) [] of (r, freed) \<Rightarrow>
      (case r of
         Some s' \<Rightarrow> freed = [] \<and> sk_elems s' = map (\<lambda>e. Option.bind e copy) (sk_elems s) \<and>
           st_sorted s' = st_sorted s \<and> st_comp s' = st_comp s \<and>
           (\<forall>p. Some p \<in> set (sk_elems s) \<longrightarrow> copy p \<noteq> None)
       | None \<Rightarrow> \<exists>ps p qs. sk_elems s = ps @ Some p # qs \<and> copy p = None \<and>
           (\<forall>q. Some q \<in> set ps \<longrightarrow> copy q \<noteq> None) \<and>
           map Some freed = filter (\<lambda>e. e \<noteq> None) (map (\<lambda>e. Option.bind e copy) ps))"
proof -
  let ?free = "\<lambda>p freed. freed @ [p]"
  have freed: "map Some (foldl (\<lambda>w e. case e of None \<Rightarrow> w | Some p \<Rightarrow> ?free p w) w cs) =
      map Some w @ filter (\<lambda>e. e \<noteq> None) cs" for w and cs :: "'a option list"
    by (induction cs arbitrary: w) (auto split: option.splits)
  obtain r w where rw: "sk_deep_copy h u copy ?free (Some s) [] = (r, w)" by fastforce
  show ?thesis
  proof (cases "copy_all copy (sk_elems s)")
    case (Inl cs)
    then have r: "r = None" "w = foldl (\<lambda>w e. case e of None \<Rightarrow> w | Some p \<Rightarrow> ?free p w) [] cs"
      using sk_deep_copy_elems [OF assms(1,2) rw assms(3)] by simp_all
    obtain ps p qs where ps: "sk_elems s = ps @ Some p # qs" "copy p = None" "cs = map (\<lambda>e. Option.bind e copy) ps"
      "\<forall>q. Some q \<in> set ps \<longrightarrow> copy q \<noteq> None"
      using copy_all_Inl [OF Inl] by blast
    have "map Some w = filter (\<lambda>e. e \<noteq> None) cs"
      using freed [of "[]" cs] r(2) by simp
    with ps show ?thesis unfolding rw r(1) prod.case option.case by blast
  next
    case (Inr es)
    obtain s' where "w = []" "r = Some s'" "sk_elems s' = es" "st_sorted s' = st_sorted s" "st_comp s' = st_comp s"
      using sk_deep_copy_elems [OF assms(1,2) rw assms(3)] Inr by auto
    then show ?thesis
      using Inr rw by (simp add: copy_all_Inr_iff)
  qed
qed

theorem sk_deep_copy_all_or_nothing_witness:
  "case sk_deep_copy all_grants (\<lambda>_. None) (\<lambda>n. if n = 3 then None else Some (n + 10)) (\<lambda>p freed. freed @ [p])
        (Some sample_stack) [] of (r, freed) \<Rightarrow> r = None \<and> freed = [11]"
proof -
  let ?copy = "\<lambda>n :: int. if n = 3 then None else Some (n + 10)"
  have ok: "sk_ok sample_stack" by (simp add: sample_stack_def sk_ok_def kMinSize_def)
  have dup: "sk_dup all_grants (\<lambda>_. None) (Some sample_stack) \<noteq> None"
    by (simp add: sk_dup_def sample_stack_def sk_new_def realloc_slots_def OPENSSL_malloc_def
        OPENSSL_MALLOC_PREFIX_def all_grants_def kMinSize_def)
  obtain r freed where r: "sk_deep_copy all_grants (\<lambda>_. None) ?copy (\<lambda>p freed. freed @ [p]) (Some sample_stack) [] = (r, freed)"
    by fastforce
  have e: "sk_elems sample_stack = [Some 1, Some 3, Some 3]"
    by (simp add: sample_stack_def sk_elems_def numeral_3_eq_3)
  have u: "ps = [Some 1]" if "[Some 1, Some 3, Some (3 :: int)] = ps @ Some p # qs" "?copy p = None"
      "\<forall>q. Some q \<in> set ps \<longrightarrow> ?copy q \<noteq> None" "map Some freed = filter (\<lambda>e. e \<noteq> None) (map (\<lambda>e. Option.bind e ?copy) ps)" for ps p qs
    using that by (auto simp: Cons_eq_append_conv append_eq_Cons_conv split: if_splits)
  have all: "\<not> (\<forall>p. Some p \<in> set (sk_elems sample_stack) \<longrightarrow> ?copy p \<noteq> None)" by (auto simp: e)
  show ?thesis
    using sk_deep_copy_all_or_nothing [OF heap_ok_all_grants ok dup, of ?copy] all e u unfolding r prod.case
    by (cases r) (fastforce)+
qed

text \<open>
  Writing an element in place keeps the flag of a sorted stack: the search then misses an element
  that the linear search would find.
\<close>

theorem sk_set_keeps_sorted_flag:
  "case sk_set (Some sample_stack) 2 (Some 0) of (_, t) \<Rightarrow>
     sk_is_sorted t \<and> sk_value t 2 = Some 0 \<and> sk_find value_cmp t (Some 0) = None"
  by code_simp

end
