(* ===== verification/Lhash.thy ===== *)
theory Lhash
  imports Crypto_Mem "HOL-Library.Multiset"
begin

text \<open>
  The hash table of \<open>crypto/lhash/lhash.c\<close>: an array of chains, resized when the chains get too
  long or too short. A chain is the list of its items, so a pointer into it is a position; the
  elements are the pointers the caller stores, compared and hashed by the table's functions.
\<close>

section \<open>State\<close>

record 'v lhash_item =
  it_data :: 'v
  it_hash :: u32

record 'v lhash =
  num_items :: nat
  buckets :: "'v lhash_item list list"
  num_buckets :: nat
  callback_depth :: nat
  lh_comp :: "'v \<Rightarrow> 'v \<Rightarrow> int"
  lh_hash :: "'v \<Rightarrow> u32"

definition kMinNumBuckets :: nat where "kMinNumBuckets = 16"
definition kMaxAverageChainLength :: nat where "kMaxAverageChainLength = 2"
definition kMinAverageChainLength :: nat where "kMinAverageChainLength = 1"

section \<open>Operations\<close>

definition lh_new :: "heap \<Rightarrow> ('v \<Rightarrow> u32) \<Rightarrow> ('v \<Rightarrow> 'v \<Rightarrow> int) \<Rightarrow> 'v lhash option" where
  "lh_new h hash cmp =
     (if OPENSSL_malloc h 48 = None then None
      else if OPENSSL_malloc h (8 * kMinNumBuckets) = None then None
      else Some \<lparr>num_items = 0, buckets = replicate kMinNumBuckets [], num_buckets = kMinNumBuckets,
                 callback_depth = 0, lh_comp = cmp, lh_hash = hash\<rparr>)"

text \<open>The items released by \<open>lh_free\<close>, in order.\<close>

definition lh_free :: "'v lhash option \<Rightarrow> 'v lhash_item list" where
  "lh_free lh = (case lh of None \<Rightarrow> [] | Some t \<Rightarrow> concat (buckets t))"

definition lh_num_items :: "'v lhash \<Rightarrow> nat" where
  "lh_num_items lh = num_items lh"

text \<open>The position of the first item that satisfies \<open>P\<close>; the end of the chain if there is none.\<close>

fun chain_pos :: "('v lhash_item \<Rightarrow> bool) \<Rightarrow> 'v lhash_item list \<Rightarrow> nat" where
  "chain_pos P [] = 0"
| "chain_pos P (cur # rest) = (if P cur then 0 else Suc (chain_pos P rest))"

text \<open>The hash, the bucket and the position in its chain.\<close>

definition get_next_ptr_and_hash :: "'v lhash \<Rightarrow> 'v \<Rightarrow> u32 \<times> nat \<times> nat" where
  "get_next_ptr_and_hash lh v =
     (let hash = lh_hash lh v; b = unat hash mod num_buckets lh
      in (hash, b, chain_pos (\<lambda>cur. lh_comp lh (it_data cur) v = 0) (buckets lh ! b)))"

definition get_next_ptr_by_key :: "'v lhash \<Rightarrow> 'k \<Rightarrow> u32 \<Rightarrow> ('k \<Rightarrow> 'v \<Rightarrow> int) \<Rightarrow> nat \<times> nat" where
  "get_next_ptr_by_key lh key key_hash cmp_key =
     (let b = unat key_hash mod num_buckets lh
      in (b, chain_pos (\<lambda>cur. cmp_key key (it_data cur) = 0) (buckets lh ! b)))"

definition item_at :: "'v lhash \<Rightarrow> nat \<Rightarrow> nat \<Rightarrow> 'v lhash_item option" where
  "item_at lh b i = (if i < length (buckets lh ! b) then Some (buckets lh ! b ! i) else None)"

definition lh_retrieve :: "'v lhash \<Rightarrow> 'v \<Rightarrow> 'v option" where
  "lh_retrieve lh v =
     (case get_next_ptr_and_hash lh v of (_, b, i) \<Rightarrow> map_option it_data (item_at lh b i))"

definition lh_retrieve_key :: "'v lhash \<Rightarrow> 'k \<Rightarrow> u32 \<Rightarrow> ('k \<Rightarrow> 'v \<Rightarrow> int) \<Rightarrow> 'v option" where
  "lh_retrieve_key lh key key_hash cmp_key =
     (case get_next_ptr_by_key lh key key_hash cmp_key of (b, i) \<Rightarrow> map_option it_data (item_at lh b i))"

text \<open>Each item moves to the head of its new chain.\<close>

definition rebucket_item :: "nat \<Rightarrow> 'v lhash_item list list \<Rightarrow> 'v lhash_item \<Rightarrow> 'v lhash_item list list" where
  "rebucket_item n bs cur = (let b = unat (it_hash cur) mod n in bs[b := cur # bs ! b])"

definition lh_rebucket :: "heap \<Rightarrow> 'v lhash \<Rightarrow> nat \<Rightarrow> 'v lhash" where
  "lh_rebucket h lh new_num_buckets =
     (let alloc_size = size_wrap (8 * new_num_buckets)
      in if alloc_size div 8 \<noteq> new_num_buckets then lh
         else if OPENSSL_malloc h alloc_size = None then lh
         else lh\<lparr>num_buckets := new_num_buckets,
                 buckets := foldl (rebucket_item new_num_buckets) (replicate new_num_buckets []) (concat (buckets lh))\<rparr>)"

definition lh_maybe_resize :: "heap \<Rightarrow> 'v lhash \<Rightarrow> 'v lhash" where
  "lh_maybe_resize h lh =
     (if callback_depth lh > 0 then lh
      else
        let avg_chain_length = num_items lh div num_buckets lh
        in if avg_chain_length > kMaxAverageChainLength then
             (let new_num_buckets = size_wrap (num_buckets lh * 2)
              in if new_num_buckets > num_buckets lh then lh_rebucket h lh new_num_buckets else lh)
           else if avg_chain_length < kMinAverageChainLength \<and> num_buckets lh > kMinNumBuckets then
             (let new_num_buckets = num_buckets lh div 2;
                  new_num_buckets = (if new_num_buckets < kMinNumBuckets then kMinNumBuckets else new_num_buckets)
              in lh_rebucket h lh new_num_buckets)
           else lh)"

definition lh_insert :: "heap \<Rightarrow> 'v \<Rightarrow> 'v lhash \<Rightarrow> bool \<times> 'v option \<times> 'v lhash" where
  "lh_insert h v lh =
     (case get_next_ptr_and_hash lh v of (hash, b, i) \<Rightarrow>
        case item_at lh b i of
          Some item \<Rightarrow>
            (True, Some (it_data item),
             lh\<lparr>buckets := (buckets lh)[b := (buckets lh ! b)[i := item\<lparr>it_data := v\<rparr>]]\<rparr>)
        | None \<Rightarrow>
            if OPENSSL_malloc h 24 = None then (False, None, lh)
            else
              let item = \<lparr>it_data = v, it_hash = hash\<rparr>
              in (True, None,
                  lh_maybe_resize h
                    (lh\<lparr>buckets := (buckets lh)[b := buckets lh ! b @ [item]],
                        num_items := size_wrap (num_items lh + 1)\<rparr>)))"

definition lh_delete :: "heap \<Rightarrow> 'v \<Rightarrow> 'v lhash \<Rightarrow> 'v option \<times> 'v lhash" where
  "lh_delete h v lh =
     (case get_next_ptr_and_hash lh v of (_, b, i) \<Rightarrow>
        case item_at lh b i of
          None \<Rightarrow> (None, lh)
        | Some item \<Rightarrow>
            let chain = buckets lh ! b
            in (Some (it_data item),
                lh_maybe_resize h
                  (lh\<lparr>buckets := (buckets lh)[b := take i chain @ drop (i + 1) chain],
                      num_items := size_wrap (num_items lh + (SIZE_MOD - 1))\<rparr>)))"

definition UINT_MAX :: nat where "UINT_MAX = 4294967295"

text \<open>
  The callback is a function on the caller's state; it does not change the table it visits (a
  callback that does is outside this model).
\<close>

definition lh_doall_arg :: "heap \<Rightarrow> 'v lhash option \<Rightarrow> ('v \<Rightarrow> 's \<Rightarrow> 's) \<Rightarrow> 's \<Rightarrow> 's \<times> 'v lhash option" where
  "lh_doall_arg h lh func arg =
     (case lh of
        None \<Rightarrow> (arg, None)
      | Some t \<Rightarrow>
          let t1 = (if callback_depth t < UINT_MAX then t\<lparr>callback_depth := callback_depth t + 1\<rparr> else t);
              arg' = foldl (\<lambda>s cur. func (it_data cur) s) arg (concat (buckets t1));
              t2 = (if callback_depth t1 < UINT_MAX then t1\<lparr>callback_depth := callback_depth t1 - 1\<rparr> else t1)
          in (arg', Some (lh_maybe_resize h t2)))"

definition lh_strhash :: "u8 list option \<Rightarrow> u32" where
  "lh_strhash c =
     (case c of None \<Rightarrow> 0 | Some s \<Rightarrow> OPENSSL_hash32 s (length (takeWhile (\<lambda>b. b \<noteq> 0) s)))"

section \<open>The table as a map\<close>

text \<open>
  \<open>lh_laws key t\<close>: the functions of the table compare and hash elements by their \<open>key\<close>.
\<close>

definition lh_laws :: "('v \<Rightarrow> 'k) \<Rightarrow> 'v lhash \<Rightarrow> bool" where
  "lh_laws key t \<longleftrightarrow> (\<forall>a b. (lh_comp t a b = 0) = (key a = key b)) \<and>
     (\<forall>a b. key a = key b \<longrightarrow> lh_hash t a = lh_hash t b)"

definition lh_items :: "'v lhash \<Rightarrow> 'v lhash_item list" where
  "lh_items t = concat (buckets t)"

definition bucket_of :: "nat \<Rightarrow> 'v lhash_item \<Rightarrow> nat" where
  "bucket_of n it = unat (it_hash it) mod n"

definition buckets_ok :: "nat \<Rightarrow> 'v lhash_item list list \<Rightarrow> bool" where
  "buckets_ok n bs \<longleftrightarrow> length bs = n \<and> (\<forall>b<n. \<forall>it\<in>set (bs ! b). bucket_of n it = b)"

definition lh_ok :: "('v \<Rightarrow> 'k) \<Rightarrow> 'v lhash \<Rightarrow> bool" where
  "lh_ok key t \<longleftrightarrow> lh_laws key t \<and> buckets_ok (num_buckets t) (buckets t) \<and> kMinNumBuckets \<le> num_buckets t \<and>
     num_items t = size_wrap (length (lh_items t)) \<and>
     (\<forall>it\<in>set (lh_items t). it_hash it = lh_hash t (it_data it)) \<and>
     distinct (map (key \<circ> it_data) (lh_items t))"

lemma lh_ok_laws: "lh_ok key t \<Longrightarrow> lh_laws key t"
  by (simp add: lh_ok_def)

lemma lh_laws_cong: "\<lbrakk>lh_comp t = lh_comp t'; lh_hash t = lh_hash t'\<rbrakk> \<Longrightarrow> lh_laws key t = lh_laws key t'"
  by (simp only: lh_laws_def)

lemma lh_laws_comp: "lh_laws key t \<Longrightarrow> (lh_comp t a b = 0) = (key a = key b)"
  unfolding lh_laws_def by blast

lemma lh_laws_hash: "\<lbrakk>lh_laws key t; key a = key b\<rbrakk> \<Longrightarrow> lh_hash t a = lh_hash t b"
  unfolding lh_laws_def by blast

definition lh_lookup :: "('v \<Rightarrow> 'k) \<Rightarrow> 'v lhash \<Rightarrow> 'k \<Rightarrow> 'v option" where
  "lh_lookup key t = map_of (map (\<lambda>it. (key (it_data it), it_data it)) (lh_items t))"

lemma chain_pos_le: "chain_pos P xs \<le> length xs"
  by (induction xs) auto

lemma chain_pos_hit: "chain_pos P xs < length xs \<Longrightarrow> P (xs ! chain_pos P xs)"
  by (induction xs) auto

lemma chain_pos_miss: "length xs \<le> chain_pos P xs \<Longrightarrow> \<forall>x\<in>set xs. \<not> P x"
  by (induction xs) (auto split: if_splits)

text \<open>The chains only partition the items: all that counts is which items there are.\<close>

lemma lh_lookup_eq_iff:
  assumes "distinct (map (key \<circ> it_data) (lh_items t))"
  shows "lh_lookup key t k = Some v \<longleftrightarrow> (\<exists>it\<in>set (lh_items t). it_data it = v \<and> key v = k)"
proof -
  have "distinct (map fst (map (\<lambda>it. (key (it_data it), it_data it)) (lh_items t)))"
    using assms by (simp add: comp_def)
  then show ?thesis
    unfolding lh_lookup_def by (auto simp: map_of_eq_Some_iff)
qed

lemma lh_lookup_None_iff: "lh_lookup key t k = None \<longleftrightarrow> (\<forall>it\<in>set (lh_items t). key (it_data it) \<noteq> k)"
  unfolding lh_lookup_def by (force simp: map_of_eq_None_iff image_image)

lemma mset_concat_update:
  "b < length bs \<Longrightarrow> mset (concat (bs[b := c])) + mset (bs ! b) = mset (concat bs) + mset c"
proof (induction bs arbitrary: b)
  case (Cons x bs)
  show ?case
  proof (cases b)
    case 0
    then show ?thesis by simp
  next
    case (Suc b')
    then show ?thesis using Cons.IH [of b'] Cons.prems by simp
  qed
qed simp

lemma buckets_ok_update:
  assumes "buckets_ok n bs" "\<forall>it\<in>set c. bucket_of n it = b"
  shows "buckets_ok n (bs[b := c])"
  unfolding buckets_ok_def
proof (intro conjI allI impI ballI)
  show "length (bs[b := c]) = n" using assms(1) by (simp add: buckets_ok_def)
  show "bucket_of n it = i" if "i < n" "it \<in> set (bs[b := c] ! i)" for i it
    using assms that by (cases "i = b") (auto simp: buckets_ok_def)
qed

lemma bucket_of_less: "0 < n \<Longrightarrow> bucket_of n it < n"
  by (simp add: bucket_of_def)

lemma rebucket_item_ok:
  assumes "buckets_ok n bs" "0 < n"
  shows "buckets_ok n (rebucket_item n bs it) \<and> mset (concat (rebucket_item n bs it)) = mset (it # concat bs)"
proof -
  let ?b = "bucket_of n it"
  have b: "?b < length bs" using assms by (simp add: buckets_ok_def bucket_of_less)
  have r: "rebucket_item n bs it = bs[?b := it # bs ! ?b]"
    by (simp add: rebucket_item_def bucket_of_def Let_def)
  have "buckets_ok n (bs[?b := it # bs ! ?b])"
    by (rule buckets_ok_update [OF assms(1)]) (use assms(1) b in \<open>auto simp: buckets_ok_def\<close>)
  then show ?thesis
    using mset_concat_update [OF b, of "it # bs ! ?b"] by (simp add: r)
qed

lemma rebucket_all_ok:
  assumes "buckets_ok n bs" "0 < n"
  shows "buckets_ok n (foldl (rebucket_item n) bs its) \<and>
    mset (concat (foldl (rebucket_item n) bs its)) = mset its + mset (concat bs)"
  using assms(1)
proof (induction its arbitrary: bs)
  case (Cons it its)
  note r = rebucket_item_ok [OF Cons.prems assms(2), of it]
  show ?case using Cons.IH [OF conjunct1 [OF r]] r by simp
qed simp

lemma distinct_mset: "mset xs = mset ys \<Longrightarrow> distinct (map f xs) = distinct (map f ys)"
  by (metis mset_eq_imp_distinct_iff mset_map)

text \<open>Tables with the same items, functions and count stand for the same map.\<close>

lemma lh_same_items:
  assumes "lh_ok key t" "mset (lh_items t') = mset (lh_items t)" "buckets_ok (num_buckets t') (buckets t')"
    "kMinNumBuckets \<le> num_buckets t'" "num_items t' = num_items t" "lh_comp t' = lh_comp t" "lh_hash t' = lh_hash t"
  shows "lh_ok key t' \<and> lh_lookup key t' = lh_lookup key t"
proof -
  have set: "set (lh_items t') = set (lh_items t)" and len: "length (lh_items t') = length (lh_items t)"
    using assms(2) mset_eq_setD mset_eq_length by blast+
  have d: "distinct (map (key \<circ> it_data) (lh_items t'))"
    using distinct_mset [OF assms(2), of "key \<circ> it_data"] assms(1) by (simp only: lh_ok_def)
  have "lh_lookup key t' = lh_lookup key t"
  proof
    fix k
    show "lh_lookup key t' k = lh_lookup key t k"
    proof (cases "lh_lookup key t k")
      case None
      then show ?thesis using set lh_lookup_None_iff [of key t' k] lh_lookup_None_iff [of key t k] by simp
    next
      case (Some v)
      then show ?thesis
        using set lh_lookup_eq_iff [OF d, of k v] lh_lookup_eq_iff [of key t k v] assms(1) by (simp add: lh_ok_def)
    qed
  qed
  moreover have "lh_laws key t'"
    using lh_ok_laws [OF assms(1)] unfolding lh_laws_def assms(6,7) .
  ultimately show ?thesis
    using assms d set len by (simp add: lh_ok_def)
qed

lemma lh_rebucket_ok:
  assumes "lh_ok key t" "kMinNumBuckets \<le> n"
  shows "lh_ok key (lh_rebucket h t n) \<and> lh_lookup key (lh_rebucket h t n) = lh_lookup key t"
proof -
  have n: "0 < n" using assms(2) by (simp add: kMinNumBuckets_def)
  have e: "buckets_ok n (replicate n [])" by (simp add: buckets_ok_def)
  note r = rebucket_all_ok [OF e n, of "lh_items t"]
  let ?t = "t\<lparr>num_buckets := n, buckets := foldl (rebucket_item n) (replicate n []) (concat (buckets t))\<rparr>"
  have "lh_ok key ?t \<and> lh_lookup key ?t = lh_lookup key t"
    by (rule lh_same_items [OF assms(1)]) (use r assms(2) in \<open>simp_all add: lh_items_def\<close>)
  then show ?thesis
    using assms(1) by (simp add: lh_rebucket_def Let_def)
qed

lemma lh_maybe_resize_ok:
  assumes "lh_ok key t"
  shows "lh_ok key (lh_maybe_resize h t) \<and> lh_lookup key (lh_maybe_resize h t) = lh_lookup key t"
proof -
  have "kMinNumBuckets \<le> num_buckets t" using assms by (simp add: lh_ok_def)
  then show ?thesis
    using assms lh_rebucket_ok [OF assms, of _ h] by (simp add: lh_maybe_resize_def Let_def)
qed

section \<open>The operations on the map\<close>

lemma lh_ok_bucket:
  assumes "lh_ok key t" "it \<in> set (lh_items t)"
  shows "it \<in> set (buckets t ! (unat (lh_hash t (it_data it)) mod num_buckets t))"
proof -
  have "it_hash it = lh_hash t (it_data it)" using assms by (simp add: lh_ok_def)
  moreover obtain b where "b < num_buckets t" "it \<in> set (buckets t ! b)"
    using assms unfolding lh_items_def lh_ok_def buckets_ok_def by (metis UN_E in_set_conv_nth set_concat)
  moreover from this have "unat (it_hash it) mod num_buckets t = b"
    using assms(1) by (simp add: lh_ok_def buckets_ok_def bucket_of_def)
  ultimately show ?thesis by simp
qed

text \<open>Where the search stops, and what it found.\<close>

lemma get_next_ptr_hit:
  assumes "lh_ok key t" "get_next_ptr_and_hash t v = (hash, b, i)"
  shows "hash = lh_hash t v \<and> b < length (buckets t) \<and> b = unat hash mod num_buckets t \<and>
    (case item_at t b i of
       Some it \<Rightarrow> it = buckets t ! b ! i \<and> i < length (buckets t ! b) \<and> it \<in> set (lh_items t) \<and>
         key (it_data it) = key v \<and> lh_lookup key t (key v) = Some (it_data it)
     | None \<Rightarrow> i = length (buckets t ! b) \<and> lh_lookup key t (key v) = None)"
proof -
  note laws = lh_ok_laws [OF assms(1)]
  have b: "hash = lh_hash t v" "b = unat hash mod num_buckets t"
    "i = chain_pos (\<lambda>cur. lh_comp t (it_data cur) v = 0) (buckets t ! b)"
    using assms(2) by (auto simp: get_next_ptr_and_hash_def Let_def)
  have nb: "0 < num_buckets t" "length (buckets t) = num_buckets t"
    using assms(1) by (auto simp: lh_ok_def buckets_ok_def kMinNumBuckets_def)
  then have bl: "b < length (buckets t)" using b(2) by simp
  show ?thesis
  proof (cases "i < length (buckets t ! b)")
    case True
    let ?it = "buckets t ! b ! i"
    have "lh_comp t (it_data ?it) v = 0"
      using chain_pos_hit [of "\<lambda>cur. lh_comp t (it_data cur) v = 0" "buckets t ! b"] True b(3) by simp
    then have k: "key (it_data ?it) = key v" using lh_laws_comp [OF laws] by simp
    have m: "?it \<in> set (lh_items t)"
      using True bl nth_mem unfolding lh_items_def by fastforce
    have "lh_lookup key t (key v) = Some (it_data ?it)"
      using assms(1) m k by (subst lh_lookup_eq_iff) (auto simp: lh_ok_def)
    then show ?thesis using True k m b bl by (simp add: item_at_def)
  next
    case False
    have none: "\<forall>x\<in>set (buckets t ! b). lh_comp t (it_data x) v \<noteq> 0"
      using chain_pos_miss [of "buckets t ! b" "\<lambda>cur. lh_comp t (it_data cur) v = 0"] False b(3) by simp
    have "key (it_data it) \<noteq> key v" if it: "it \<in> set (lh_items t)" for it
    proof
      assume k: "key (it_data it) = key v"
      then have "it \<in> set (buckets t ! b)"
        using lh_ok_bucket [OF assms(1) it]
        unfolding lh_laws_hash [OF laws k] b(1) [symmetric] b(2) [symmetric] by blast
      with none k show False using lh_laws_comp [OF laws] by blast
    qed
    then have "lh_lookup key t (key v) = None" by (simp add: lh_lookup_None_iff)
    moreover have "i = length (buckets t ! b)"
      using False b(3) chain_pos_le [of "\<lambda>cur. lh_comp t (it_data cur) v = 0" "buckets t ! b"] by simp
    ultimately show ?thesis using b bl by (simp add: item_at_def)
  qed
qed

lemma lh_retrieve_lookup: "lh_ok key t \<Longrightarrow> lh_retrieve t v = lh_lookup key t (key v)"
proof -
  assume ok: "lh_ok key t"
  obtain hash b i where p: "get_next_ptr_and_hash t v = (hash, b, i)" by (metis prod_cases3)
  show ?thesis
    using get_next_ptr_hit [OF ok p] by (cases "item_at t b i") (simp_all add: lh_retrieve_def p)
qed

text \<open>Searching by a key of another type, whose hash and comparison agree with the table's.\<close>

lemma lh_retrieve_key_lookup:
  fixes t :: "'v lhash"
  assumes "lh_ok key t" "\<And>v. (cmp_key k v = 0) = (key v = key w)" "key_hash = lh_hash t w"
  shows "lh_retrieve_key t k key_hash cmp_key = lh_lookup key t (key w)"
proof -
  have "cmp_key k (it_data cur) = 0 \<longleftrightarrow> lh_comp t (it_data cur) w = 0" for cur :: "'v lhash_item"
    using assms(2) lh_laws_comp [OF lh_ok_laws [OF assms(1)]] by simp
  then show ?thesis
    unfolding lh_retrieve_lookup [OF assms(1), symmetric]
    by (simp add: lh_retrieve_key_def lh_retrieve_def get_next_ptr_by_key_def get_next_ptr_and_hash_def assms(3) Let_def)
qed

text \<open>The table after its items and count have changed.\<close>

lemma lh_ok_changed:
  assumes "lh_ok key t" "t' = t\<lparr>buckets := bs, num_items := n\<rparr>" "buckets_ok (num_buckets t) bs"
    "n = size_wrap (length (concat bs))" "\<forall>it\<in>set (concat bs). it_hash it = lh_hash t (it_data it)"
    "distinct (map (key \<circ> it_data) (concat bs))"
  shows "lh_ok key t'"
proof -
  have "lh_laws key t'"
    using lh_ok_laws [OF assms(1)] by (subst lh_laws_cong [of t' t]) (simp_all add: assms(2))
  then show ?thesis
    using assms(1,3-6) by (simp add: lh_ok_def lh_items_def assms(2))
qed

lemma lh_lookup_ext:
  assumes "distinct (map (key \<circ> it_data) (lh_items t'))"
    "\<And>k v. m k = Some v \<longleftrightarrow> (\<exists>it\<in>set (lh_items t'). it_data it = v \<and> key v = k)"
  shows "lh_lookup key t' = m"
proof
  fix k
  show "lh_lookup key t' k = m k"
  proof -
    have "lh_lookup key t' k = Some v \<longleftrightarrow> m k = Some v" for v
      using lh_lookup_eq_iff [OF assms(1), of k v] assms(2) [of k v] by blast
    then show ?thesis by (metis not_None_eq)
  qed
qed

lemma mset_concat_append:
  assumes "b < length bs"
  shows "mset (concat (bs[b := bs ! b @ [it]])) = add_mset it (mset (concat bs))"
  using mset_concat_update [OF assms, of "bs ! b @ [it]"] by simp

lemma mset_concat_remove:
  assumes "b < length bs" "i < length (bs ! b)"
  shows "add_mset (bs ! b ! i) (mset (concat (bs[b := take i (bs ! b) @ drop (i + 1) (bs ! b)]))) = mset (concat bs)"
proof -
  have "mset (bs ! b) = add_mset (bs ! b ! i) (mset (take i (bs ! b) @ drop (i + 1) (bs ! b)))"
    using id_take_nth_drop [OF assms(2)] by (metis add.commute mset.simps(2) mset_append union_mset_add_mset_right Suc_eq_plus1)
  then show ?thesis
    using mset_concat_update [OF assms(1), of "take i (bs ! b) @ drop (i + 1) (bs ! b)"] by simp
qed

lemma mset_concat_replace:
  assumes "b < length bs" "i < length (bs ! b)"
  shows "add_mset (bs ! b ! i) (mset (concat (bs[b := (bs ! b)[i := x]]))) = add_mset x (mset (concat bs))"
proof -
  have "add_mset (bs ! b ! i) (mset ((bs ! b)[i := x])) = add_mset x (mset (bs ! b))"
    using assms(2) by (simp add: mset_update)
  moreover have "mset (concat (bs[b := (bs ! b)[i := x]])) + mset (bs ! b) = mset (concat bs) + mset ((bs ! b)[i := x])"
    by (rule mset_concat_update [OF assms(1)])
  ultimately have "add_mset (bs ! b ! i) (mset (concat (bs[b := (bs ! b)[i := x]]))) + mset (bs ! b) =
      add_mset x (mset (concat bs)) + mset (bs ! b)"
    by (metis union_mset_add_mset_left union_mset_add_mset_right)
  then show ?thesis by (simp only: add_right_cancel)
qed

lemma lh_insert_new:
  assumes "lh_ok key t" "get_next_ptr_and_hash t v = (hash, b, i)" "item_at t b i = None"
  defines "t' \<equiv> t\<lparr>buckets := (buckets t)[b := buckets t ! b @ [\<lparr>it_data = v, it_hash = hash\<rparr>]],
    num_items := size_wrap (num_items t + 1)\<rparr>"
  shows "lh_ok key t' \<and> lh_lookup key t' = (lh_lookup key t)(key v \<mapsto> v)"
proof -
  let ?it = "\<lparr>it_data = v, it_hash = hash\<rparr> :: 'a lhash_item"
  have g: "hash = lh_hash t v" "b < length (buckets t)" "b = unat hash mod num_buckets t" "lh_lookup key t (key v) = None"
    using get_next_ptr_hit [OF assms(1,2)] assms(3) by auto
  let ?bs = "(buckets t)[b := buckets t ! b @ [?it]]"
  have m: "mset (concat ?bs) = add_mset ?it (mset (lh_items t))"
    unfolding lh_items_def by (rule mset_concat_append [OF g(2)])
  then have set: "set (concat ?bs) = insert ?it (set (lh_items t))"
    using mset_eq_setD [of "concat ?bs" "?it # lh_items t"] by simp
  have new: "key (it_data it) \<noteq> key v" if "it \<in> set (lh_items t)" for it
    using g(4) that by (simp add: lh_lookup_None_iff)
  have d: "distinct (map (key \<circ> it_data) (concat ?bs))"
    using distinct_mset [of "concat ?bs" "?it # lh_items t" "key \<circ> it_data"] m assms(1) new by (auto simp: lh_ok_def)
  have ok: "lh_ok key t'"
  proof (rule lh_ok_changed [OF assms(1) meta_eq_to_obj_eq [OF t'_def]])
    show "buckets_ok (num_buckets t) ?bs"
      by (rule buckets_ok_update) (use assms(1) g in \<open>auto simp: lh_ok_def buckets_ok_def bucket_of_def\<close>)
    have "length (concat ?bs) = length (lh_items t) + 1"
      using mset_eq_length [of "concat ?bs" "?it # lh_items t"] m by simp
    then show "size_wrap (num_items t + 1) = size_wrap (length (concat ?bs))"
      using assms(1) by (simp add: lh_ok_def size_wrap_def mod_simps)
    show "\<forall>it\<in>set (concat ?bs). it_hash it = lh_hash t (it_data it)"
      using assms(1) g(1) unfolding set by (auto simp: lh_ok_def)
  qed (rule d)
  have items: "set (lh_items t') = insert ?it (set (lh_items t))" using set by (simp add: lh_items_def t'_def)
  have "lh_lookup key t' = (lh_lookup key t)(key v \<mapsto> v)"
  proof (rule lh_lookup_ext)
    show "distinct (map (key \<circ> it_data) (lh_items t'))" using ok by (simp add: lh_ok_def)
    have dt: "distinct (map (key \<circ> it_data) (lh_items t))" using assms(1) by (simp add: lh_ok_def)
    show "((lh_lookup key t)(key v \<mapsto> v)) k = Some w \<longleftrightarrow> (\<exists>it\<in>set (lh_items t'). it_data it = w \<and> key w = k)" for k w
      using new unfolding items by (auto simp: lh_lookup_eq_iff [OF dt])
  qed
  with ok show ?thesis ..
qed

lemma lh_insert_replace:
  assumes "lh_ok key t" "get_next_ptr_and_hash t v = (hash, b, i)" "item_at t b i = Some item"
  defines "t' \<equiv> t\<lparr>buckets := (buckets t)[b := (buckets t ! b)[i := item\<lparr>it_data := v\<rparr>]]\<rparr>"
  shows "lh_ok key t' \<and> lh_lookup key t' = (lh_lookup key t)(key v \<mapsto> v)"
proof -
  let ?it = "item\<lparr>it_data := v\<rparr>"
  have g: "hash = lh_hash t v" "b < length (buckets t)" "b = unat hash mod num_buckets t" "item = buckets t ! b ! i"
    "i < length (buckets t ! b)" "item \<in> set (lh_items t)" "key (it_data item) = key v"
    using get_next_ptr_hit [OF assms(1,2)] assms(3) by auto
  have h: "it_hash item = lh_hash t v"
    using assms(1) g(6,7) lh_laws_hash [OF lh_ok_laws [OF assms(1)] g(7)] by (simp add: lh_ok_def)
  let ?bs = "(buckets t)[b := (buckets t ! b)[i := ?it]]"
  have m: "add_mset item (mset (concat ?bs)) = add_mset ?it (mset (lh_items t))"
    unfolding lh_items_def using mset_concat_replace [OF g(2,5), of ?it] g(4) by simp
  obtain rest where rest: "mset (lh_items t) = add_mset item rest"
    using g(6) by (metis insert_DiffM set_mset_mset)
  then have m': "mset (concat ?bs) = add_mset ?it rest" using m by (simp add: add_mset_commute)
  obtain xs where xs: "mset xs = rest" using ex_mset by blast
  have dt: "distinct (map (key \<circ> it_data) (lh_items t))" using assms(1) by (simp add: lh_ok_def)
  then have dx: "distinct (map (key \<circ> it_data) (item # xs))"
    using distinct_mset [of "lh_items t" "item # xs" "key \<circ> it_data"] rest xs by simp
  have set: "set (lh_items t) = insert item (set xs)" "set (concat ?bs) = insert ?it (set xs)"
    using mset_eq_setD [of "lh_items t" "item # xs"] mset_eq_setD [of "concat ?bs" "?it # xs"] rest m' xs by simp_all
  have d: "distinct (map (key \<circ> it_data) (concat ?bs))"
    using distinct_mset [of "concat ?bs" "?it # xs" "key \<circ> it_data"] m' xs dx g(7) by auto
  have "lh_ok key (t\<lparr>buckets := ?bs, num_items := num_items t\<rparr>)"
  proof (rule lh_ok_changed [OF assms(1) refl])
    show "buckets_ok (num_buckets t) ?bs"
      by (rule buckets_ok_update)
        (use assms(1) g h in \<open>auto simp: lh_ok_def buckets_ok_def bucket_of_def dest!: set_update_subset_insert [THEN subsetD]\<close>)
    have "length (concat ?bs) = length (lh_items t)"
      using mset_eq_length [of "concat ?bs" "?it # xs"] mset_eq_length [of "lh_items t" "item # xs"] m' rest xs by simp
    then show "num_items t = size_wrap (length (concat ?bs))" using assms(1) by (simp add: lh_ok_def)
    show "\<forall>it\<in>set (concat ?bs). it_hash it = lh_hash t (it_data it)"
      using assms(1) h set(1) unfolding set(2) by (simp add: lh_ok_def)
  qed (rule d)
  moreover have "t\<lparr>buckets := ?bs, num_items := num_items t\<rparr> = t'" by (simp add: t'_def)
  ultimately have ok: "lh_ok key t'" by simp
  have items: "set (lh_items t') = insert ?it (set xs)" using set(2) by (simp add: lh_items_def t'_def)
  have "(key \<circ> it_data) item \<notin> (key \<circ> it_data) ` set xs" using dx by simp
  then have new: "key (it_data it) \<noteq> key v" if "it \<in> set xs" for it
    using that g(7) by (metis comp_apply image_eqI)
  have "lh_lookup key t' = (lh_lookup key t)(key v \<mapsto> v)"
  proof (rule lh_lookup_ext)
    show "distinct (map (key \<circ> it_data) (lh_items t'))" using ok by (simp add: lh_ok_def)
    show "((lh_lookup key t)(key v \<mapsto> v)) k = Some w \<longleftrightarrow> (\<exists>it\<in>set (lh_items t'). it_data it = w \<and> key w = k)" for k w
      using new g(7) unfolding items by (auto simp: lh_lookup_eq_iff [OF dt] set(1))
  qed
  with ok show ?thesis ..
qed

lemma lh_delete_item:
  assumes "lh_ok key t" "get_next_ptr_and_hash t v = (hash, b, i)" "item_at t b i = Some item"
  defines "t' \<equiv> t\<lparr>buckets := (buckets t)[b := take i (buckets t ! b) @ drop (i + 1) (buckets t ! b)],
    num_items := size_wrap (num_items t + (SIZE_MOD - 1))\<rparr>"
  shows "lh_ok key t' \<and> lh_lookup key t' = (lh_lookup key t)(key v := None)"
proof -
  have g: "b < length (buckets t)" "b = unat hash mod num_buckets t" "item = buckets t ! b ! i"
    "i < length (buckets t ! b)" "key (it_data item) = key v"
    using get_next_ptr_hit [OF assms(1,2)] assms(3) by auto
  let ?bs = "(buckets t)[b := take i (buckets t ! b) @ drop (i + 1) (buckets t ! b)]"
  have m: "add_mset item (mset (concat ?bs)) = mset (lh_items t)"
    unfolding lh_items_def g(3) by (rule mset_concat_remove [OF g(1,4)])
  have dt: "distinct (map (key \<circ> it_data) (lh_items t))" using assms(1) by (simp add: lh_ok_def)
  then have dx: "distinct (map (key \<circ> it_data) (item # concat ?bs))"
    using distinct_mset [of "lh_items t" "item # concat ?bs" "key \<circ> it_data"] m by simp
  have set: "set (lh_items t) = insert item (set (concat ?bs))"
    using mset_eq_setD [of "lh_items t" "item # concat ?bs"] m by simp
  have ok: "lh_ok key t'"
  proof (rule lh_ok_changed [OF assms(1) meta_eq_to_obj_eq [OF t'_def]])
    show "buckets_ok (num_buckets t) ?bs"
      by (rule buckets_ok_update)
        (use assms(1) g in \<open>auto simp: lh_ok_def buckets_ok_def dest: in_set_takeD in_set_dropD\<close>)
    have "length (lh_items t) = length (concat ?bs) + 1"
      using mset_eq_length [of "lh_items t" "item # concat ?bs"] m by simp
    then have "num_items t = size_wrap (length (concat ?bs) + 1)" using assms(1) by (simp add: lh_ok_def)
    then show "size_wrap (num_items t + (SIZE_MOD - 1)) = size_wrap (length (concat ?bs))"
      by (simp only: size_wrap_def mod_simps) simp
    show "\<forall>it\<in>set (concat ?bs). it_hash it = lh_hash t (it_data it)"
      using assms(1) set by (simp add: lh_ok_def)
  qed (use dx in simp)
  have items: "lh_items t' = concat ?bs" by (simp add: lh_items_def t'_def)
  have new: "key (it_data it) \<noteq> key v" if "it \<in> set (concat ?bs)" for it
  proof -
    have "(key \<circ> it_data) item \<notin> (key \<circ> it_data) ` set (concat ?bs)"
      using dx by (simp only: list.map distinct.simps set_map) simp
    then show ?thesis using that g(5) by force
  qed
  have "lh_lookup key t' = (lh_lookup key t)(key v := None)"
  proof (rule lh_lookup_ext)
    show "distinct (map (key \<circ> it_data) (lh_items t'))" using ok by (simp add: lh_ok_def)
    show "((lh_lookup key t)(key v := None)) k = Some w \<longleftrightarrow> (\<exists>it\<in>set (lh_items t'). it_data it = w \<and> key w = k)" for k w
      using new g(5) lh_lookup_eq_iff [OF dt, of k w] set unfolding items by (cases "k = key v") auto
  qed
  with ok show ?thesis ..
qed

lemma lh_insert_map:
  assumes "lh_ok key t" "lh_insert h v t = (ok, old, t')"
  shows "lh_ok key t' \<and> lh_lookup key t' = (if ok then (lh_lookup key t)(key v \<mapsto> v) else lh_lookup key t) \<and>
    old = (if ok then lh_lookup key t (key v) else None)"
proof -
  obtain hash b i where p: "get_next_ptr_and_hash t v = (hash, b, i)" by (metis prod_cases3)
  note hit = get_next_ptr_hit [OF assms(1) p]
  show ?thesis
  proof (cases "item_at t b i")
    case None
    note new = lh_insert_new [OF assms(1) p None]
    show ?thesis
    proof (cases "OPENSSL_malloc h 24")
      case None
      then show ?thesis using assms p \<open>item_at t b i = None\<close> by (simp add: lh_insert_def)
    next
      case (Some blk)
      then show ?thesis
        using assms(2) p \<open>item_at t b i = None\<close> hit lh_maybe_resize_ok [OF conjunct1 [OF new], of h] new
        by (auto simp: lh_insert_def Let_def)
    qed
  next
    case (Some item)
    then show ?thesis
      using assms(2) p hit lh_insert_replace [OF assms(1) p Some] by (auto simp: lh_insert_def)
  qed
qed

lemma lh_delete_map:
  assumes "lh_ok key t" "lh_delete h v t = (old, t')"
  shows "lh_ok key t' \<and> lh_lookup key t' = (lh_lookup key t)(key v := None) \<and> old = lh_lookup key t (key v)"
proof -
  obtain hash b i where p: "get_next_ptr_and_hash t v = (hash, b, i)" by (metis prod_cases3)
  note hit = get_next_ptr_hit [OF assms(1) p]
  show ?thesis
  proof (cases "item_at t b i")
    case None
    then show ?thesis using assms p hit by (auto simp: lh_delete_def)
  next
    case (Some item)
    note del = lh_delete_item [OF assms(1) p Some]
    show ?thesis
      using assms(2) p Some hit lh_maybe_resize_ok [OF conjunct1 [OF del], of h] del
      by (auto simp: lh_delete_def Let_def)
  qed
qed

text \<open>A new key needs an item of 24 bytes, which the allocator prefixes with 8 bytes of its own.\<close>

lemma lh_insert_refused:
  assumes "lh_ok key t" "lh_insert h v t = (ok, old, t')"
  shows "ok = (lh_lookup key t (key v) \<noteq> None \<or> grants h 32)"
proof -
  obtain hash b i where p: "get_next_ptr_and_hash t v = (hash, b, i)" by (metis prod_cases3)
  have "OPENSSL_malloc h 24 \<noteq> None \<longleftrightarrow> grants h 32"
    using OPENSSL_malloc_Some_iff [of 24 h] by auto
  then show ?thesis
    using get_next_ptr_hit [OF assms(1) p] assms(2) p by (auto simp: lh_insert_def Let_def split: option.splits if_splits)
qed

text \<open>The table provides the interface, whatever the elements and their keys are.\<close>

interpretation lh_table: keyed_table "lh_lookup key" lh_insert lh_delete "\<lambda>v t. lh_retrieve t v" key "lh_ok key"
    "\<lambda>h. grants h 32"
  for key :: "'v \<Rightarrow> 'k"
proof unfold_locales
  show "lh_ok key t'" if "lh_ok key t" "lh_insert h v t = (ok, old, t')" for t h v ok old t'
    using lh_insert_map [OF that] by blast
  show "lh_ok key t'" if "lh_ok key t" "lh_delete h v t = (old, t')" for t h v old t'
    using lh_delete_map [OF that] by blast
  show "ok = (lh_lookup key t (key v) \<noteq> None \<or> grants h 32)"
    if "lh_ok key t" "lh_insert h v t = (ok, old, t')" for t h v ok old t'
    by (rule lh_insert_refused [OF that])
  show "lh_lookup key t' = (if ok then (lh_lookup key t)(key v \<mapsto> v) else lh_lookup key t) \<and>
      old = (if ok then lh_lookup key t (key v) else None)"
    if "lh_ok key t" "lh_insert h v t = (ok, old, t')" for t h v ok old t'
    using lh_insert_map [OF that] by blast
  show "lh_lookup key t' = (lh_lookup key t)(key v := None) \<and> old = lh_lookup key t (key v)"
    if "lh_ok key t" "lh_delete h v t = (old, t')" for t h v old t'
    using lh_delete_map [OF that] by blast
qed (rule lh_retrieve_lookup)

lemma lh_new_ok:
  assumes "lh_new h hash cmp = Some t" "\<And>a b. (cmp a b = 0) = (key a = key b)" "\<And>a b. key a = key b \<Longrightarrow> hash a = hash b"
  shows "lh_ok key t \<and> lh_lookup key t = Map.empty"
proof -
  have t: "buckets t = replicate 16 []" "num_buckets t = 16" "num_items t = 0" "lh_comp t = cmp" "lh_hash t = hash"
    using assms(1) by (auto simp: lh_new_def kMinNumBuckets_def split: if_splits)
  have "lh_laws key t" unfolding lh_laws_def t using assms(2,3) by blast
  then show ?thesis
    by (simp add: lh_ok_def lh_lookup_def lh_items_def t buckets_ok_def kMinNumBuckets_def)
qed

end
