(* ===== verification/Lhash_Properties.thy ===== *)
theory Lhash_Properties
  imports Lhash
begin

text \<open>
  What the hash table promises: a map from keys to elements, whatever sequence of insertions,
  deletions and searches it has seen, whatever its size and wherever memory ran out; an insertion is
  refused only where the memory for a new item is.
\<close>

text \<open>
  C16: A hash table made by \<open>lh_new\<close> behaves as a finite map under any sequence of insertions,
  deletions and searches, each with memory of its own: each call returns what the map would return,
  the element displaced included. Replacing an element always succeeds; inserting a new one succeeds
  exactly when the allocator grants the 32 bytes of an item and its prefix, and a refused insertion
  changes nothing. Growing and shrinking the bucket array, or failing to, cannot be observed.
\<close>

theorem lh_implements_map:
  assumes "lh_new h hash cmp = Some t" "\<And>a b. (cmp a b = 0) = (key a = key b)"
    "\<And>a b. key a = key b \<Longrightarrow> hash a = hash b"
  shows "fst (run_ops lh_insert lh_delete (\<lambda>v t. lh_retrieve t v) ops t) =
    fst (map_ops (\<lambda>h. grants h 32) key ops Map.empty)"
proof -
  have new: "lh_ok key t" "lh_lookup key t = Map.empty"
    using lh_new_ok [of h hash cmp t key, OF assms] by auto
  obtain rs t' where run: "run_ops lh_insert lh_delete (\<lambda>v t. lh_retrieve t v) ops t = (rs, t')" by fastforce
  show ?thesis
    using lh_table.run_ops_refines [OF new(1) run] new(2) run by simp
qed

definition sample_hash :: "nat \<times> string \<Rightarrow> u32" where "sample_hash v = of_nat (fst v)"
definition sample_cmp :: "nat \<times> string \<Rightarrow> nat \<times> string \<Rightarrow> int" where
  "sample_cmp a b = int (fst a) - int (fst b)"
definition no_grants :: heap where "no_grants = all_grants\<lparr>grants := \<lambda>_. False\<rparr>"

theorem lh_implements_map_witness:
  "map_option (\<lambda>t. fst (run_ops lh_insert lh_delete (\<lambda>v t. lh_retrieve t v)
     [(all_grants, Insert_Item (1, ''a'')), (no_grants, Insert_Item (17, ''b'')), (no_grants, Insert_Item (1, ''c'')),
      (no_grants, Remove_Item (17, ''d'')), (no_grants, Find_Item (1, ''e''))] t))
     (lh_new all_grants sample_hash sample_cmp) =
   Some [(True, None), (False, None), (True, Some (1, ''a'')), (True, None), (True, Some (1, ''c''))]"
proof -
  obtain t where t: "lh_new all_grants sample_hash sample_cmp = Some t"
    by (simp add: lh_new_def OPENSSL_malloc_def OPENSSL_MALLOC_PREFIX_def all_grants_def kMinNumBuckets_def)
  let ?ops = "[(all_grants, Insert_Item (1, ''a'')), (no_grants, Insert_Item (17, ''b'')), (no_grants, Insert_Item (1, ''c'')),
    (no_grants, Remove_Item (17, ''d'')), (no_grants, Find_Item (1 :: nat, ''e''))]"
  have "fst (run_ops lh_insert lh_delete (\<lambda>v t. lh_retrieve t v) ?ops t) = fst (map_ops (\<lambda>h. grants h 32) fst ?ops Map.empty)"
    by (rule lh_implements_map [OF t]) (simp_all add: sample_cmp_def sample_hash_def)
  moreover have "fst (map_ops (\<lambda>h. grants h 32) fst ?ops Map.empty) =
      [(True, None), (False, None), (True, Some (1, ''a'')), (True, None), (True, Some (1, ''c''))]"
    by (simp add: no_grants_def all_grants_def)
  ultimately show ?thesis unfolding t option.map by (simp only:)
qed

text \<open>
  The count a table keeps is the number of keys it holds (modulo the width of \<open>size_t\<close>).
\<close>

theorem lh_num_items_counts_keys:
  assumes "lh_ok key t"
  shows "lh_num_items t = size_wrap (card (dom (lh_lookup key t)))"
proof -
  have "dom (lh_lookup key t) = set (map (key \<circ> it_data) (lh_items t))"
    by (auto simp: lh_lookup_def dom_map_of_conv_image_fst image_image)
  then have "card (dom (lh_lookup key t)) = length (lh_items t)"
    using assms distinct_card [of "map (key \<circ> it_data) (lh_items t)"] by (simp add: lh_ok_def)
  then show ?thesis
    using assms by (simp add: lh_num_items_def lh_ok_def)
qed

lemma sample_table:
  "\<exists>t. lh_new all_grants sample_hash sample_cmp = Some t \<and> lh_ok fst t \<and> lh_lookup fst t = Map.empty \<and>
     callback_depth t = 0 \<and> num_items t = 0 \<and> num_buckets t = 16"
proof -
  obtain t where t: "lh_new all_grants sample_hash sample_cmp = Some t" "callback_depth t = 0" "num_items t = 0"
    "num_buckets t = 16"
    by (simp add: lh_new_def OPENSSL_malloc_def OPENSSL_MALLOC_PREFIX_def all_grants_def kMinNumBuckets_def)
  have "lh_ok fst t \<and> lh_lookup fst t = Map.empty"
    by (rule lh_new_ok [OF t(1)]) (simp_all add: sample_cmp_def sample_hash_def)
  with t show ?thesis by blast
qed

text \<open>A table of one element.\<close>

lemma sample_table_1:
  "\<exists>t. lh_ok fst t \<and> lh_lookup fst t = [7 \<mapsto> (7 :: nat, ''x'')]"
proof -
  obtain t :: "(nat \<times> string) lhash" where t: "lh_ok fst t" "lh_lookup fst t = Map.empty"
    using sample_table by blast
  obtain ok old t' where ins: "lh_insert all_grants (7, ''x'') t = (ok, old, t')" by (metis prod_cases3)
  then have "ok"
    by (auto simp: lh_insert_def OPENSSL_malloc_def OPENSSL_MALLOC_PREFIX_def all_grants_def Let_def
        split: prod.splits option.splits if_splits)
  then show ?thesis using lh_insert_map [OF t(1) ins] t(2) by auto
qed

theorem lh_num_items_counts_keys_witness:
  "\<exists>t. lh_lookup fst t = [7 \<mapsto> (7 :: nat, ''x'')] \<and> lh_num_items t = 1"
proof -
  obtain t where "lh_ok fst t" "lh_lookup fst t = [7 \<mapsto> (7 :: nat, ''x'')]" using sample_table_1 by blast
  then show ?thesis using lh_num_items_counts_keys [of fst t] by auto
qed

text \<open>
  C17: \<open>lh_doall_arg\<close> hands every element of the table to the callback exactly once, and the table
  holds the same elements afterwards.
\<close>

theorem lh_doall_arg_visits_each_once:
  assumes "lh_ok key t"
  shows "\<exists>vs t'. lh_doall_arg h (Some t) (\<lambda>v seen. seen @ [v]) [] = (vs, Some t') \<and>
    distinct (map key vs) \<and> (\<forall>v. v \<in> set vs \<longleftrightarrow> lh_lookup key t (key v) = Some v) \<and>
    lh_ok key t' \<and> lh_lookup key t' = lh_lookup key t"
proof -
  have fold: "foldl (\<lambda>s cur. s @ [it_data cur]) s its = s @ map it_data its" for s :: "'a list" and its :: "'a lhash_item list"
    by (induction its arbitrary: s) auto
  define t1 where "t1 = (if callback_depth t < UINT_MAX then t\<lparr>callback_depth := callback_depth t + 1\<rparr> else t)"
  define t2 where "t2 = (if callback_depth t1 < UINT_MAX then t1\<lparr>callback_depth := callback_depth t1 - 1\<rparr> else t1)"
  have b: "buckets t1 = buckets t" "buckets t2 = buckets t" "num_buckets t2 = num_buckets t" "num_items t2 = num_items t"
    "lh_comp t2 = lh_comp t" "lh_hash t2 = lh_hash t"
    by (simp_all add: t1_def t2_def)
  have t2: "lh_ok key t2 \<and> lh_lookup key t2 = lh_lookup key t"
    by (rule lh_same_items [OF assms]) (use assms b in \<open>simp_all add: lh_items_def lh_ok_def\<close>)
  have "lh_doall_arg h (Some t) (\<lambda>v seen. seen @ [v]) [] = (map it_data (lh_items t), Some (lh_maybe_resize h t2))"
    by (simp add: lh_doall_arg_def t1_def [symmetric] t2_def [symmetric] Let_def fold b lh_items_def)
  moreover have "distinct (map key (map it_data (lh_items t)))" using assms by (simp add: lh_ok_def)
  moreover have "v \<in> set (map it_data (lh_items t)) \<longleftrightarrow> lh_lookup key t (key v) = Some v" for v
    using lh_lookup_eq_iff [of key t "key v" v] assms by (auto simp: lh_ok_def)
  ultimately show ?thesis
    using lh_maybe_resize_ok [OF conjunct1 [OF t2], of h] t2 by simp
qed

theorem lh_doall_arg_visits_each_once_witness:
  "\<exists>t t'. lh_lookup fst t = [7 \<mapsto> (7 :: nat, ''x'')] \<and>
     lh_doall_arg all_grants (Some t) (\<lambda>v seen. seen @ [v]) [] = ([(7, ''x'')], Some t')"
proof -
  obtain t where t: "lh_ok fst t" "lh_lookup fst t = [7 \<mapsto> (7 :: nat, ''x'')]" using sample_table_1 by blast
  obtain vs t' where vs: "lh_doall_arg all_grants (Some t) (\<lambda>v seen. seen @ [v]) [] = (vs, Some t')"
    "distinct (map fst vs)" "\<And>v. v \<in> set vs \<longleftrightarrow> lh_lookup fst t (fst v) = Some v"
    using lh_doall_arg_visits_each_once [OF t(1), of all_grants] by blast
  have "v \<in> set vs \<longleftrightarrow> v = (7, ''x'')" for v
    using vs(3) [of v] t(2) by (cases v) auto
  then have "set vs = {(7, ''x'')}" by auto
  moreover have "distinct vs" using vs(2) by (simp add: distinct_map)
  ultimately have "vs = [(7, ''x'')]"
    by (cases vs; cases "tl vs") auto
  with t vs(1) show ?thesis by blast
qed

text \<open>Resizing after one insertion restores the bound on the chains.\<close>

lemma half_of_more: "(n :: nat) < b \<Longrightarrow> 16 < b \<Longrightarrow> n < 3 * (b div 2)"
  by presburger

lemma lh_maybe_resize_short:
  assumes "callback_depth t = 0" "num_items t \<le> 3 * num_buckets t" "num_buckets t < 2 ^ 59" "0 < num_buckets t"
    "grants h (16 * num_buckets t + 8)"
  shows "num_items (lh_maybe_resize h t) < 3 * num_buckets (lh_maybe_resize h t)"
proof -
  let ?avg = "num_items t div num_buckets t"
  have w: "size_wrap (num_buckets t * 2) = num_buckets t * 2" "size_wrap (8 * (num_buckets t * 2)) = 8 * (num_buckets t * 2)"
    by (intro size_wrap_small; use assms(3) in simp)+
  have m: "OPENSSL_malloc h (8 * (num_buckets t * 2)) \<noteq> None"
    using OPENSSL_malloc_Some_iff [of "8 * (num_buckets t * 2)" h] assms(3,5) by auto
  have avg: "?avg < 3 \<longleftrightarrow> num_items t < 3 * num_buckets t" "?avg < 1 \<longleftrightarrow> num_items t < num_buckets t"
    using assms(4) by (simp_all add: div_less_iff_less_mult div_eq_0_iff)
  consider "\<not> ?avg < 3" | "?avg < 1" "kMinNumBuckets < num_buckets t"
    | "?avg < 3" "\<not> (?avg < 1 \<and> kMinNumBuckets < num_buckets t)" by linarith
  then show ?thesis
  proof cases
    case 1
    then have "lh_maybe_resize h t = lh_rebucket h t (num_buckets t * 2)"
      using assms(1,4) w(1) by (simp add: lh_maybe_resize_def kMaxAverageChainLength_def Let_def)
    then show ?thesis
      using m w(2) assms(2,4) by (auto simp: lh_rebucket_def Let_def)
  next
    case 2
    then have "num_items t < 3 * (num_buckets t div 2)"
      using half_of_more [of "num_items t" "num_buckets t"] avg(2) by (simp add: kMinNumBuckets_def)
    then show ?thesis
      using 2 assms(1) avg by (auto simp: lh_maybe_resize_def lh_rebucket_def kMaxAverageChainLength_def
          kMinAverageChainLength_def Let_def)
  next
    case 3
    then have "lh_maybe_resize h t = t"
      using assms(1) by (auto simp: lh_maybe_resize_def kMaxAverageChainLength_def kMinAverageChainLength_def Let_def)
    then show ?thesis using 3 avg by simp
  qed
qed

text \<open>
  C18: An insertion keeps the chains short: when memory for a larger array is granted, the table
  never holds three times as many elements as it has buckets.
\<close>

theorem lh_insert_keeps_chains_short:
  assumes "callback_depth t = 0" "num_items t < 3 * num_buckets t" "num_buckets t < 2 ^ 59"
    "grants h (16 * num_buckets t + 8)" "lh_insert h v t = (ok, old, t')"
  shows "num_items t' < 3 * num_buckets t'"
proof -
  obtain hash b i where p: "get_next_ptr_and_hash t v = (hash, b, i)" by (metis prod_cases3)
  have "size_wrap (num_items t + 1) = num_items t + 1"
    by (rule size_wrap_small) (use assms(2,3) in simp)
  then consider "t' = t" | "\<exists>bs. t' = t\<lparr>buckets := bs\<rparr>"
    | "\<exists>bs. t' = lh_maybe_resize h (t\<lparr>buckets := bs, num_items := num_items t + 1\<rparr>)"
    using assms(5) p by (auto simp: lh_insert_def Let_def split: option.splits if_splits)
  then show ?thesis
    by cases (use assms lh_maybe_resize_short [of "t\<lparr>buckets := bs, num_items := num_items t + 1\<rparr>" h for bs] in auto)
qed

theorem lh_insert_keeps_chains_short_witness:
  "\<exists>t. lh_new all_grants sample_hash sample_cmp = Some t \<and>
     (case lh_insert all_grants (7, ''x'') t of (ok, old, t') \<Rightarrow> num_items t' < 3 * num_buckets t')"
proof -
  obtain t where t: "lh_new all_grants sample_hash sample_cmp = Some t" "callback_depth t = 0" "num_items t = 0"
    "num_buckets t = 16"
    using sample_table by blast
  obtain ok old t' where ins: "lh_insert all_grants (7, ''x'') t = (ok, old, t')" by (metis prod_cases3)
  have "num_items t' < 3 * num_buckets t'"
    by (rule lh_insert_keeps_chains_short [OF t(2) _ _ _ ins]) (simp_all add: t(3,4) all_grants_def)
  with t(1) ins show ?thesis by auto
qed

end
