(* ===== verification/Const_Time.thy ===== *)
theory Const_Time
  imports Crypto_Mem
begin

unbundle bit_operations_syntax

text \<open>
  The constant-time comparisons and selections of \<open>crypto/internal.h\<close>, on 64-bit words
  (\<open>crypto_word_t\<close>), and that they compute what their names say. The barriers that keep the
  compiler from seeing through them return their argument.
\<close>

section \<open>Definitions\<close>

definition constant_time_msb_w :: "u64 \<Rightarrow> u64" where
  "constant_time_msb_w a = 0 - drop_bit 63 a"

definition constant_time_lt_w :: "u64 \<Rightarrow> u64 \<Rightarrow> u64" where
  "constant_time_lt_w a b = constant_time_msb_w (a XOR ((a XOR b) OR ((a - b) XOR a)))"

definition constant_time_lt_8 :: "u64 \<Rightarrow> u64 \<Rightarrow> u8" where
  "constant_time_lt_8 a b = ucast (constant_time_lt_w a b)"

definition constant_time_ge_w :: "u64 \<Rightarrow> u64 \<Rightarrow> u64" where
  "constant_time_ge_w a b = NOT (constant_time_lt_w a b)"

definition constant_time_ge_8 :: "u64 \<Rightarrow> u64 \<Rightarrow> u8" where
  "constant_time_ge_8 a b = ucast (constant_time_ge_w a b)"

definition constant_time_is_zero_w :: "u64 \<Rightarrow> u64" where
  "constant_time_is_zero_w a = constant_time_msb_w (NOT a AND (a - 1))"

definition constant_time_is_zero_8 :: "u64 \<Rightarrow> u8" where
  "constant_time_is_zero_8 a = ucast (constant_time_is_zero_w a)"

definition constant_time_eq_w :: "u64 \<Rightarrow> u64 \<Rightarrow> u64" where
  "constant_time_eq_w a b = constant_time_is_zero_w (a XOR b)"

definition constant_time_eq_8 :: "u64 \<Rightarrow> u64 \<Rightarrow> u8" where
  "constant_time_eq_8 a b = ucast (constant_time_eq_w a b)"

text \<open>An \<open>int\<close> is a 32-bit word, sign-extended by the conversion to \<open>crypto_word_t\<close>.\<close>

definition constant_time_eq_int :: "32 word \<Rightarrow> 32 word \<Rightarrow> u64" where
  "constant_time_eq_int a b = constant_time_eq_w (scast a) (scast b)"

definition constant_time_eq_int_8 :: "32 word \<Rightarrow> 32 word \<Rightarrow> u8" where
  "constant_time_eq_int_8 a b = constant_time_eq_8 (scast a) (scast b)"

definition value_barrier_w :: "u64 \<Rightarrow> u64" where
  "value_barrier_w a = a"

definition constant_time_select_w :: "u64 \<Rightarrow> u64 \<Rightarrow> u64 \<Rightarrow> u64" where
  "constant_time_select_w m a b = (value_barrier_w m AND a) OR (value_barrier_w (NOT m) AND b)"

definition constant_time_select_8 :: "u8 \<Rightarrow> u8 \<Rightarrow> u8 \<Rightarrow> u8" where
  "constant_time_select_8 m a b = ucast (constant_time_select_w (ucast m) (ucast a) (ucast b))"

definition constant_time_select_int :: "u64 \<Rightarrow> 32 word \<Rightarrow> 32 word \<Rightarrow> 32 word" where
  "constant_time_select_int m a b = ucast (constant_time_select_w m (scast a) (scast b))"

section \<open>What they compute\<close>

definition mask_w :: "bool \<Rightarrow> u64" where "mask_w P = (if P then - 1 else 0)"
definition mask_8 :: "bool \<Rightarrow> u8" where "mask_8 P = (if P then - 1 else 0)"

lemma ucast_mask_w: "(ucast (mask_w P) :: u8) = mask_8 P"
proof -
  have "(ucast (- 1 :: u64) :: u8) = - 1" by (rule bit_word_eqI) (simp add: bit_simps)
  then show ?thesis by (simp add: mask_w_def mask_8_def)
qed

lemma bit_63_iff: "bit (a :: u64) 63 \<longleftrightarrow> 2 ^ 63 \<le> unat a"
proof -
  have "unat a < 2 ^ 64" using unsigned_less [where ?'a = nat, of a] by simp
  then have "unat a div 2 ^ 63 = (if 2 ^ 63 \<le> unat a then 1 else 0)"
    by (auto intro!: div_nat_eqI simp: div_eq_0_iff)
  moreover have "bit a 63 \<longleftrightarrow> bit (unat a) 63"
    by (simp add: bit_unsigned_iff)
  ultimately show ?thesis by (simp add: bit_iff_odd)
qed

lemma constant_time_msb_w_eq: "constant_time_msb_w a = mask_w (2 ^ 63 \<le> unat a)"
proof -
  have "drop_bit 63 a = of_bool (bit a 63)"
  proof (rule bit_word_eqI)
    fix n assume "n < LENGTH(64)"
    then show "bit (drop_bit 63 a) n = bit (of_bool (bit a 63) :: u64) n"
      by (cases n) (auto simp: bit_drop_bit_eq bit_of_bool_iff dest: bit_imp_le_length)
  qed
  then show ?thesis
    by (simp add: constant_time_msb_w_def mask_w_def bit_63_iff)
qed

lemma unat_u64_less: "unat (a :: u64) < 2 ^ 64"
  using unsigned_less [where ?'a = nat, of a] by simp

lemma unat_minus_u64:
  "unat ((a :: u64) - b) = (if unat b \<le> unat a then unat a - unat b else 2 ^ 64 + unat a - unat b)"
  using unat_u64_less [of a] unat_u64_less [of b]
  by (auto simp: unat_sub_if_size word_size)

lemma constant_time_lt_w_eq: "constant_time_lt_w a b = mask_w (a < b)"
proof -
  have "bit (a XOR ((a XOR b) OR ((a - b) XOR a))) 63 \<longleftrightarrow>
      (if bit a 63 = bit b 63 then bit (a - b) 63 else bit b 63)"
    by (auto simp: bit_xor_iff bit_or_iff)
  also have "\<dots> \<longleftrightarrow> unat a < unat b"
    using unat_u64_less [of a] unat_u64_less [of b] by (auto simp: bit_63_iff unat_minus_u64)
  finally show ?thesis
    by (simp add: constant_time_lt_w_def constant_time_msb_w_eq bit_63_iff word_less_nat_alt)
qed

lemma constant_time_is_zero_w_eq: "constant_time_is_zero_w a = mask_w (a = 0)"
proof -
  have "bit (NOT a AND (a - 1)) 63 \<longleftrightarrow> \<not> bit a 63 \<and> bit (a - 1) 63"
    by (simp add: bit_and_iff bit_not_iff)
  also have "\<dots> \<longleftrightarrow> a = 0"
    using unat_u64_less [of a] by (auto simp: bit_63_iff unat_minus_u64 word_unat_eq_iff)
  finally show ?thesis
    by (simp add: constant_time_is_zero_w_def constant_time_msb_w_eq bit_63_iff)
qed

lemma constant_time_eq_w_eq: "constant_time_eq_w a b = mask_w (a = b)"
proof -
  have "a XOR b = 0 \<longleftrightarrow> a = b" by (auto simp: bit_eq_iff bit_xor_iff)
  then show ?thesis by (simp add: constant_time_eq_w_def constant_time_is_zero_w_eq)
qed

lemma constant_time_eq_8_eq: "constant_time_eq_8 a b = mask_8 (a = b)"
  by (simp add: constant_time_eq_8_def constant_time_eq_w_eq ucast_mask_w)

lemma constant_time_select_8_eq: "constant_time_select_8 (mask_8 P) a b = (if P then a else b)"
  by (cases P; intro bit_word_eqI)
    (auto simp: constant_time_select_8_def constant_time_select_w_def value_barrier_w_def mask_8_def bit_simps)

text \<open>
  The constant-time comparisons are the comparisons: for all words, all ones when the relation
  holds and zero when it does not, and a selection by such a mask is a conditional.
\<close>

theorem constant_time_masks_exact:
  "constant_time_lt_w a b = (if a < b then - 1 else 0) \<and>
   constant_time_ge_w a b = (if a \<ge> b then - 1 else 0) \<and>
   constant_time_is_zero_w a = (if a = 0 then - 1 else 0) \<and>
   constant_time_eq_w a b = (if a = b then - 1 else 0) \<and>
   constant_time_eq_int x y = (if x = y then - 1 else 0) \<and>
   constant_time_select_w (constant_time_lt_w a b) c d = (if a < b then c else d) \<and>
   constant_time_select_int (constant_time_eq_int x y) z w = (if x = y then z else w)"
proof -
  have s: "(scast x = (scast y :: u64)) = (x = y)" for x y :: "32 word"
  proof -
    have "sint (scast x :: u64) = sint x" for x :: "32 word"
      by (rule sint_up_scast) (simp add: is_up)
    then show ?thesis by (metis signed_word_eqI)
  qed
  have u: "ucast (scast z :: u64) = z" for z :: "32 word"
    by (intro bit_word_eqI) (simp add: bit_simps)
  show ?thesis
    by (auto simp: constant_time_lt_w_eq constant_time_ge_w_def constant_time_is_zero_w_eq constant_time_eq_w_eq
        constant_time_eq_int_def constant_time_select_w_def constant_time_select_int_def value_barrier_w_def mask_w_def s u)
qed

end
