(* ===== verification/Base64.thy ===== *)
theory Base64
  imports Const_Time
begin

unbundle bit_operations_syntax

text \<open>
  Base64 (\<open>crypto/base64/base64.c\<close>): the constant-time alphabet, encoding and decoding of blocks,
  and the streaming forms with their context. An output is the list of the bytes written before
  the terminating NUL; a decoder that fails returns no output (what it has written by then is
  unspecified by the interface).
\<close>

section \<open>Ranges\<close>

definition constant_time_lt_args_8 :: "u8 \<Rightarrow> u8 \<Rightarrow> u8" where
  "constant_time_lt_args_8 a b = ucast (constant_time_msb_w (ucast a - ucast b))"

definition constant_time_in_range_8 :: "u8 \<Rightarrow> u8 \<Rightarrow> u8 \<Rightarrow> u8" where
  "constant_time_in_range_8 a lo hi = constant_time_lt_args_8 (a - lo) (hi - lo + 1)"

section \<open>Encoding\<close>

definition conv_bin2ascii :: "u8 \<Rightarrow> u8" where
  "conv_bin2ascii a0 =
     (let a = a0 AND 0x3f;
          ret = constant_time_select_8 (constant_time_eq_8 (ucast a) 62) 0x2B 0x2F;
          ret = constant_time_select_8 (constant_time_lt_args_8 a 62) (a - 52 + 0x30) ret;
          ret = constant_time_select_8 (constant_time_lt_args_8 a 52) (a - 26 + 0x61) ret;
          ret = constant_time_select_8 (constant_time_lt_args_8 a 26) (a + 0x41) ret
      in ret)"

definition EVP_EncodedLength :: "nat \<Rightarrow> nat option" where
  "EVP_EncodedLength len0 =
     (if size_wrap (len0 + 2) < len0 then None
      else
        let len = size_wrap (len0 + 2) div 3
        in if size_wrap (len * 4) div 4 \<noteq> len then None
           else
             let len = size_wrap (len * 4)
             in if size_wrap (len + 1) < len then None else Some (size_wrap (len + 1)))"

text \<open>Four characters for every three bytes; one or two bytes at the end are padded.\<close>

fun encode_quads :: "u8 list \<Rightarrow> u8 list" where
  "encode_quads (a # b # c # rest) =
     (let l = push_bit 16 (ucast a) OR push_bit 8 (ucast b) OR (ucast c :: u32)
      in [conv_bin2ascii (ucast (drop_bit 18 l)), conv_bin2ascii (ucast (drop_bit 12 l)),
          conv_bin2ascii (ucast (drop_bit 6 l)), conv_bin2ascii (ucast l)] @ encode_quads rest)"
| "encode_quads [a, b] =
     (let l = push_bit 16 (ucast a) OR (push_bit 8 (ucast b) :: u32)
      in [conv_bin2ascii (ucast (drop_bit 18 l)), conv_bin2ascii (ucast (drop_bit 12 l)),
          conv_bin2ascii (ucast (drop_bit 6 l)), 0x3D])"
| "encode_quads [a] =
     (let l = (push_bit 16 (ucast a) :: u32)
      in [conv_bin2ascii (ucast (drop_bit 18 l)), conv_bin2ascii (ucast (drop_bit 12 l)), 0x3D, 0x3D])"
| "encode_quads [] = []"

definition EVP_EncodeBlock :: "u8 list \<Rightarrow> nat \<Rightarrow> u8 list \<times> nat" where
  "EVP_EncodeBlock src src_len = (let dst = encode_quads (take src_len src) in (dst, length dst))"

record evp_encode_ctx =
  data_used :: nat
  ctx_data :: "u8 list"
  eof_seen :: bool
  error_encountered :: bool

abbreviation CTX_DATA_SIZE :: nat where "CTX_DATA_SIZE \<equiv> 48"

definition EVP_EncodeInit :: evp_encode_ctx where
  "EVP_EncodeInit =
     \<lparr>data_used = 0, ctx_data = replicate CTX_DATA_SIZE 0, eof_seen = False, error_encountered = False\<rparr>"

text \<open>
  Whole lines of the input: what is left of it, the total, the output, and whether the total
  overflowed.
\<close>

function encode_lines :: "u8 list \<Rightarrow> nat \<Rightarrow> u8 list \<Rightarrow> bool \<times> u8 list \<times> nat \<times> u8 list" where
  "encode_lines inp tot out =
     (if length inp \<ge> CTX_DATA_SIZE then
        case EVP_EncodeBlock inp CTX_DATA_SIZE of (line, encoded) \<Rightarrow>
          if size_wrap (tot + encoded + 1) < tot then (True, inp, tot, out @ line @ [0x0A])
          else encode_lines (drop CTX_DATA_SIZE inp) (size_wrap (tot + encoded + 1)) (out @ line @ [0x0A])
      else (False, inp, tot, out))"
  by pat_completeness auto
termination
  by (relation "measure (\<lambda>(inp, _, _). length inp)") auto

declare encode_lines.simps [simp del]

text \<open>The bytes written, the value of \<open>*out_len\<close> and the context.\<close>

definition EVP_EncodeUpdate :: "evp_encode_ctx \<Rightarrow> u8 list \<Rightarrow> u8 list \<times> nat \<times> evp_encode_ctx" where
  "EVP_EncodeUpdate ctx inp =
     (if inp = [] then ([], 0, ctx)
      else if CTX_DATA_SIZE - data_used ctx > length inp then
        ([], 0, ctx\<lparr>ctx_data := mem_put (ctx_data ctx) (data_used ctx) inp, data_used := data_used ctx + length inp\<rparr>)
      else
        let (out, inp', tot, ctx') =
              (if data_used ctx \<noteq> 0 then
                 let todo = CTX_DATA_SIZE - data_used ctx;
                     ctx1 = ctx\<lparr>ctx_data := mem_put (ctx_data ctx) (data_used ctx) (take todo inp)\<rparr>
                 in case EVP_EncodeBlock (ctx_data ctx1) CTX_DATA_SIZE of (line, encoded) \<Rightarrow>
                      (line @ [0x0A], drop todo inp, encoded + 1, ctx1\<lparr>data_used := 0\<rparr>)
               else ([], inp, 0, ctx))
        in case encode_lines inp' tot out of (overflow, rest, tot, out) \<Rightarrow>
             if overflow then (out, 0, ctx')
             else (out, if tot > INT_MAX then 0 else tot,
                   ctx'\<lparr>ctx_data := mem_put (ctx_data ctx') 0 rest, data_used := length rest\<rparr>))"

definition EVP_EncodeFinal :: "evp_encode_ctx \<Rightarrow> u8 list \<times> nat \<times> evp_encode_ctx" where
  "EVP_EncodeFinal ctx =
     (if data_used ctx = 0 then ([], 0, ctx)
      else case EVP_EncodeBlock (ctx_data ctx) (data_used ctx) of (line, encoded) \<Rightarrow>
        (line @ [0x0A], encoded + 1, ctx\<lparr>data_used := 0\<rparr>))"

section \<open>Decoding\<close>

definition EVP_DecodedLength :: "nat \<Rightarrow> nat option" where
  "EVP_DecodedLength len = (if len mod 4 \<noteq> 0 then None else Some ((len div 4) * 3))"

definition EVP_DecodeInit :: evp_encode_ctx where
  "EVP_DecodeInit =
     \<lparr>data_used = 0, ctx_data = replicate CTX_DATA_SIZE 0, eof_seen = False, error_encountered = False\<rparr>"

definition base64_ascii_to_bin :: "u8 \<Rightarrow> u8" where
  "base64_ascii_to_bin a =
     (let is_upper = constant_time_in_range_8 a 0x41 0x5A;
          is_lower = constant_time_in_range_8 a 0x61 0x7A;
          is_digit = constant_time_in_range_8 a 0x30 0x39;
          is_plus = constant_time_eq_8 (ucast a) 0x2B;
          is_slash = constant_time_eq_8 (ucast a) 0x2F;
          is_equals = constant_time_eq_8 (ucast a) 0x3D;
          ret = 0xff;
          ret = constant_time_select_8 is_upper (a - 0x41) ret;
          ret = constant_time_select_8 is_lower (a - 0x61 + 26) ret;
          ret = constant_time_select_8 is_digit (a - 0x30 + 52) ret;
          ret = constant_time_select_8 is_plus 62 ret;
          ret = constant_time_select_8 is_slash 63 ret;
          ret = constant_time_select_8 is_equals 0 ret
      in ret)"

definition base64_decode_quad :: "u8 list \<Rightarrow> u8 list option" where
  "base64_decode_quad inp =
     (let a = base64_ascii_to_bin (inp ! 0); b = base64_ascii_to_bin (inp ! 1);
          c = base64_ascii_to_bin (inp ! 2); d = base64_ascii_to_bin (inp ! 3)
      in if a = 0xff \<or> b = 0xff \<or> c = 0xff \<or> d = 0xff then None
         else
           let v = push_bit 18 (ucast a) OR push_bit 12 (ucast b) OR push_bit 6 (ucast c) OR (ucast d :: u32);
               padding_pattern = (if inp ! 0 = 0x3D then 8 else 0) + (if inp ! 1 = 0x3D then 4 else 0) +
                 (if inp ! 2 = 0x3D then 2 else 0) + (if inp ! 3 = 0x3D then 1 else 0 :: nat)
           in if padding_pattern = 0 then Some [ucast (drop_bit 16 v), ucast (drop_bit 8 v), ucast v]
              else if padding_pattern = 1 then Some [ucast (drop_bit 16 v), ucast (drop_bit 8 v)]
              else if padding_pattern = 3 then Some [ucast (drop_bit 16 v)]
              else None)"

definition is_base64_space :: "u8 \<Rightarrow> bool" where
  "is_base64_space c \<longleftrightarrow> c = 0x20 \<or> c = 0x09 \<or> c = 0x0D \<or> c = 0x0A"

text \<open>One round of the loop: false when it returns with the error flag set.\<close>

definition decode_char :: "evp_encode_ctx \<Rightarrow> u8 list \<Rightarrow> u8 \<Rightarrow> bool \<times> evp_encode_ctx \<times> u8 list" where
  "decode_char ctx out c =
     (if is_base64_space c then (True, ctx, out)
      else if eof_seen ctx then (False, ctx\<lparr>error_encountered := True\<rparr>, out)
      else
        let ctx1 = ctx\<lparr>ctx_data := (ctx_data ctx)[data_used ctx := c], data_used := data_used ctx + 1\<rparr>
        in if data_used ctx1 = 4 then
             (case base64_decode_quad (ctx_data ctx1) of
                None \<Rightarrow> (False, ctx1\<lparr>error_encountered := True\<rparr>, out)
              | Some bytes \<Rightarrow>
                  (True, ctx1\<lparr>data_used := 0, eof_seen := (if length bytes < 3 then True else eof_seen ctx1)\<rparr>, out @ bytes))
           else (True, ctx1, out))"

fun decode_chars :: "evp_encode_ctx \<Rightarrow> u8 list \<Rightarrow> u8 list \<Rightarrow> bool \<times> evp_encode_ctx \<times> u8 list" where
  "decode_chars ctx out [] = (True, ctx, out)"
| "decode_chars ctx out (c # cs) =
     (case decode_char ctx out c of (ok, ctx', out') \<Rightarrow>
        if ok then decode_chars ctx' out' cs else (False, ctx', out'))"

text \<open>The result (-1, 0 or 1), the bytes written, the value of \<open>*out_len\<close> and the context.\<close>

definition EVP_DecodeUpdate :: "evp_encode_ctx \<Rightarrow> u8 list \<Rightarrow> int \<times> u8 list \<times> nat \<times> evp_encode_ctx" where
  "EVP_DecodeUpdate ctx inp =
     (if error_encountered ctx then (- 1, [], 0, ctx)
      else case decode_chars ctx [] inp of (ok, ctx', out) \<Rightarrow>
        if \<not> ok then (- 1, out, 0, ctx')
        else if length out > INT_MAX then (- 1, out, 0, ctx'\<lparr>error_encountered := True\<rparr>)
        else (if eof_seen ctx' then 0 else 1, out, length out, ctx'))"

definition EVP_DecodeFinal :: "evp_encode_ctx \<Rightarrow> int \<times> nat" where
  "EVP_DecodeFinal ctx = (if error_encountered ctx \<or> data_used ctx \<noteq> 0 then (- 1, 0) else (1, 0))"

text \<open>The quads of the input, a short one only at the end.\<close>

fun decode_quads :: "u8 list \<Rightarrow> u8 list option" where
  "decode_quads (a # b # c # d # rest) =
     (case base64_decode_quad [a, b, c, d] of
        None \<Rightarrow> None
      | Some bytes \<Rightarrow>
          if length bytes \<noteq> 3 \<and> rest \<noteq> [] then None
          else map_option (\<lambda>out. bytes @ out) (decode_quads rest))"
| "decode_quads _ = Some []"

definition EVP_DecodeBase64 :: "nat \<Rightarrow> u8 list \<Rightarrow> u8 list option" where
  "EVP_DecodeBase64 max_out inp =
     (if length inp mod 4 \<noteq> 0 then None
      else case EVP_DecodedLength (length inp) of
             None \<Rightarrow> None
           | Some max_len \<Rightarrow> if max_out < max_len then None else decode_quads inp)"

text \<open>Blanks are trimmed on both sides (line ends only at the end), the padding put back as NULs.\<close>

fun trim_start :: "u8 list \<Rightarrow> u8 list" where
  "trim_start [] = []"
| "trim_start (c # cs) = (if c \<noteq> 0x20 \<and> c \<noteq> 0x09 then c # cs else trim_start cs)"

definition trim_end :: "u8 list \<Rightarrow> u8 list" where
  "trim_end cs = rev (dropWhile is_base64_space (rev cs))"

fun pad_three :: "nat \<Rightarrow> u8 list \<Rightarrow> u8 list" where
  "pad_three 0 dst = dst"
| "pad_three (Suc n) dst = (if length dst mod 3 \<noteq> 0 then pad_three n (dst @ [0]) else dst)"

definition EVP_DecodeBlock :: "u8 list \<Rightarrow> u8 list option" where
  "EVP_DecodeBlock src =
     (let inp = trim_end (trim_start src)
      in case EVP_DecodedLength (length inp) of
           None \<Rightarrow> None
         | Some dst_len \<Rightarrow>
             if dst_len > INT_MAX then None
             else map_option (pad_three 3) (EVP_DecodeBase64 dst_len inp))"

section \<open>The alphabet\<close>

text \<open>The 64 characters in order, and the value of a character.\<close>

definition base64_alphabet :: "u8 list" where
  "base64_alphabet = map of_nat ([65..<91] @ [97..<123] @ [48..<58] @ [43, 47])"

definition base64_value :: "u8 \<Rightarrow> nat option" where
  "base64_value c =
     (if c = 0x3D then Some 0 else List.find (\<lambda>i. base64_alphabet ! i = c) [0..<64])"

lemma wrapped_difference_iff:
  "\<lbrakk>x < 256; y < 256\<rbrakk> \<Longrightarrow> 2 ^ 63 \<le> (if y \<le> x then x - y else 2 ^ 64 + x - y) \<longleftrightarrow> x < (y :: nat)"
  by auto

lemma lt_args_8_eq: "constant_time_lt_args_8 a b = mask_8 (a < b)"
proof -
  have e: "unat (ucast b :: u64) = unat b" for b :: u8 by simp
  have "2 ^ 63 \<le> unat (ucast a - ucast b :: u64) \<longleftrightarrow> a < b"
    unfolding unat_minus_u64 e word_less_nat_alt by (rule wrapped_difference_iff [OF unat_u8_less unat_u8_less])
  then show ?thesis
    by (simp only: constant_time_lt_args_8_def constant_time_msb_w_eq ucast_mask_w)
qed

lemma in_range_nat:
  "\<lbrakk>x < 256; h < 256; l \<le> h; h - l < 255\<rbrakk> \<Longrightarrow>
     (if l \<le> x then x - l else 256 + x - l) < (h - l + 1) mod 256 \<longleftrightarrow> l \<le> x \<and> x \<le> (h :: nat)"
  by auto

lemma in_range_8_eq:
  assumes "unat lo \<le> unat hi" "unat hi - unat lo < 255"
  shows "constant_time_in_range_8 a lo hi = mask_8 (lo \<le> a \<and> a \<le> hi)"
proof -
  have m: "unat (a - lo) = (if unat lo \<le> unat a then unat a - unat lo else 256 + unat a - unat lo)" for a lo :: u8
    by (auto simp: unat_sub_if_size word_size)
  have "unat (hi - lo + 1) = (unat (hi - lo) + 1) mod 256"
    by (simp add: unat_word_ariths)
  also have "unat (hi - lo) = unat hi - unat lo"
    using assms(1) by (simp add: m)
  finally have "a - lo < hi - lo + 1 \<longleftrightarrow> lo \<le> a \<and> a \<le> hi"
    unfolding word_less_nat_alt word_le_nat_alt m
    using in_range_nat [OF unat_u8_less unat_u8_less assms, of a] by (simp only:)
  then show ?thesis by (simp only: constant_time_in_range_8_def lt_args_8_eq)
qed

text \<open>What the constant-time code computes, as plain conditionals.\<close>

lemma conv_bin2ascii_cases:
  "conv_bin2ascii x =
     (let a = x AND 0x3f
      in if a < 26 then a + 0x41 else if a < 52 then a - 26 + 0x61 else if a < 62 then a - 52 + 0x30
         else if a = 62 then 0x2B else 0x2F)"
proof -
  have "(ucast a :: u64) = 62 \<longleftrightarrow> a = 62" for a :: u8
    by (simp add: word_unat_eq_iff)
  then show ?thesis
    by (simp add: conv_bin2ascii_def lt_args_8_eq constant_time_eq_8_eq constant_time_select_8_eq Let_def)
qed

lemma base64_ascii_to_bin_cases:
  "base64_ascii_to_bin a =
     (if a = 0x3D then 0 else if a = 0x2F then 63 else if a = 0x2B then 62
      else if 0x30 \<le> a \<and> a \<le> 0x39 then a - 0x30 + 52
      else if 0x61 \<le> a \<and> a \<le> 0x7A then a - 0x61 + 26
      else if 0x41 \<le> a \<and> a \<le> 0x5A then a - 0x41 else 0xff)"
proof -
  have "(ucast a :: u64) = 0x2B \<longleftrightarrow> a = 0x2B" "(ucast a :: u64) = 0x2F \<longleftrightarrow> a = 0x2F" "(ucast a :: u64) = 0x3D \<longleftrightarrow> a = 0x3D"
    by (simp_all add: word_unat_eq_iff)
  then show ?thesis
    by (simp add: base64_ascii_to_bin_def in_range_8_eq constant_time_eq_8_eq constant_time_select_8_eq Let_def)
qed

unbundle bit_operations_syntax

lemma base64_alphabet_nth:
  assumes "n < 64"
  shows "base64_alphabet ! n = of_nat (if n < 26 then n + 65 else if n < 52 then n - 26 + 97 else if n < 62 then n - 52 + 48
    else if n = 62 then 43 else 47)"
proof -
  have "([65..<91] @ [97..<123] @ [48..<58] @ [43, 47]) ! n = (if n < 26 then n + 65 else if n < 52 then n - 26 + 97
      else if n < 62 then n - 52 + 48 else if n = 62 then 43 else 47)"
    using assms by (auto simp: nth_append nth_Cons' simp del: upt_rec_numeral)
  then show ?thesis
    using assms unfolding base64_alphabet_def by (subst nth_map) (simp_all del: upt_rec_numeral)
qed

lemma unat_and_0x3f: "unat (x AND 0x3f :: u8) = unat x mod 64"
  using unat_and_mask [of x 6] by (simp add: mask_eq_exp_minus_1)

lemma conv_bin2ascii_eq: "conv_bin2ascii x = base64_alphabet ! (unat x mod 64)"
proof -
  define a where "a = x AND 0x3f"
  have a: "unat a = unat x mod 64" unfolding a_def by (rule unat_and_0x3f)
  then have l: "unat a < 64" by simp
  have "conv_bin2ascii x = (if unat a < 26 then a + 0x41 else if unat a < 52 then a - 26 + 0x61 else
      if unat a < 62 then a - 52 + 0x30 else if unat a = 62 then 0x2B else 0x2F)"
    unfolding conv_bin2ascii_cases a_def [symmetric] Let_def by (simp add: word_less_nat_alt word_unat_eq_iff)
  also have "\<dots> = base64_alphabet ! unat a"
    unfolding base64_alphabet_nth [OF l] by (auto simp: word_unat_eq_iff unat_word_ariths)
  finally show ?thesis by (simp only: a)
qed

lemma unat_ascii_to_bin:
  "unat (base64_ascii_to_bin c) =
     (let u = unat c
      in if u = 61 then 0 else if u = 47 then 63 else if u = 43 then 62
         else if 48 \<le> u \<and> u \<le> 57 then u - 48 + 52 else if 97 \<le> u \<and> u \<le> 122 then u - 97 + 26
         else if 65 \<le> u \<and> u \<le> 90 then u - 65 else 255)"
proof -
  have m: "unat (c - lo + d) = unat c - unat lo + unat d" if "unat lo \<le> unat c" "unat c - unat lo + unat d < 256" for lo d :: u8
    using that by (simp add: unat_word_ariths unat_sub_if_size word_size)
  show ?thesis
    unfolding base64_ascii_to_bin_cases Let_def
    using m [of "0x30" 52] m [of "0x61" 26] m [of "0x41" 0] by (auto simp: word_le_nat_alt word_unat_eq_iff)
qed

text \<open>Decoding a character of the alphabet.\<close>

lemma unat_alphabet:
  assumes "n < 64"
  shows "unat (base64_alphabet ! n) = (if n < 26 then n + 65 else if n < 52 then n - 26 + 97 else
    if n < 62 then n - 52 + 48 else if n = 62 then 43 else 47)"
  unfolding base64_alphabet_nth [OF assms] using assms by (simp add: unat_of_nat)

lemma ascii_to_bin_alphabet:
  assumes "n < 64"
  shows "base64_ascii_to_bin (base64_alphabet ! n) = of_nat n \<and> base64_alphabet ! n \<noteq> 0x3D \<and>
    \<not> is_base64_space (base64_alphabet ! n)"
  unfolding is_base64_space_def word_unat_eq_iff unat_ascii_to_bin unat_alphabet [OF assms] Let_def
  using assms by (auto simp: unat_of_nat)

unbundle bit_operations_syntax

section \<open>Quads\<close>

lemma unat_u32_to_u8: "unat (ucast (x :: u32) :: u8) = unat x mod 256"
  by (simp add: unsigned_ucast_eq take_bit_eq_mod)

lemma unat_or3:
  "unat (push_bit 16 (ucast a) OR push_bit 8 (ucast b) OR (ucast c :: u32)) = unat (a :: u8) * 65536 + unat (b :: u8) * 256 + unat (c :: u8)"
proof -
  have e: "unat (ucast a :: u32) = unat a" for a :: u8 by simp
  have l: "unat a < 256" "unat b < 256" "unat c < 256" by (rule unat_u8_less)+
  have 1: "unat (push_bit 8 (ucast b) OR (ucast c :: u32)) = unat b * 256 + unat c"
    using unat_push_bit_or [of "ucast c :: u32" 8 "ucast b"] l unfolding e by simp
  show ?thesis
    using unat_push_bit_or [of "push_bit 8 (ucast b) OR (ucast c :: u32)" 16 "ucast a"] l unfolding e 1 by simp
qed

lemma unat_or4:
  assumes "unat a < 64" "unat b < 64" "unat c < 64" "unat d < 64"
  shows "unat (push_bit 18 (ucast a) OR push_bit 12 (ucast b) OR push_bit 6 (ucast c) OR (ucast d :: u32)) =
    unat (a :: u8) * 262144 + unat (b :: u8) * 4096 + unat (c :: u8) * 64 + unat (d :: u8)"
proof -
  have e: "unat (ucast a :: u32) = unat a" for a :: u8 by simp
  have 1: "unat (push_bit 6 (ucast c) OR (ucast d :: u32)) = unat c * 64 + unat d"
    using unat_push_bit_or [of "ucast d :: u32" 6 "ucast c"] assms unfolding e by simp
  have 2: "unat (push_bit 12 (ucast b) OR push_bit 6 (ucast c) OR (ucast d :: u32)) = unat b * 4096 + (unat c * 64 + unat d)"
    using unat_push_bit_or [of "push_bit 6 (ucast c) OR (ucast d :: u32)" 12 "ucast b"] assms unfolding e 1 by simp
  show ?thesis
    using unat_push_bit_or [of "push_bit 12 (ucast b) OR push_bit 6 (ucast c) OR (ucast d :: u32)" 18 "ucast a"] assms
    unfolding e 2 by simp
qed

text \<open>The reference: three bytes as a number, written in base 64, and back.\<close>

definition sextets :: "nat \<Rightarrow> u8 list" where
  "sextets v = [base64_alphabet ! (v div 262144 mod 64), base64_alphabet ! (v div 4096 mod 64),
     base64_alphabet ! (v div 64 mod 64), base64_alphabet ! (v mod 64)]"

fun base64 :: "u8 list \<Rightarrow> u8 list" where
  "base64 (a # b # c # rest) = sextets (unat a * 65536 + unat b * 256 + unat c) @ base64 rest"
| "base64 [a, b] = take 3 (sextets (unat a * 65536 + unat b * 256)) @ [0x3D]"
| "base64 [a] = take 2 (sextets (unat a * 65536)) @ [0x3D, 0x3D]"
| "base64 [] = []"

lemma mod_256_div: "(v div m) mod 256 mod 64 = v div m mod (64 :: nat)"
  by (simp add: mod_mod_cancel)

lemma encode_quads_eq: "encode_quads bs = base64 bs"
proof (induction bs rule: base64.induct)
  case (1 a b c rest)
  then show ?case
    by (simp add: conv_bin2ascii_eq unat_u32_to_u8 unat_drop_bit unat_or3 mod_256_div mod_mod_cancel sextets_def Let_def)
next
  case (2 a b)
  show ?case
    using unat_or3 [of a b 0]
    by (simp add: conv_bin2ascii_eq unat_u32_to_u8 unat_drop_bit mod_256_div sextets_def Let_def)
next
  case (3 a)
  show ?case
    using unat_or3 [of a 0 0]
    by (simp add: conv_bin2ascii_eq unat_u32_to_u8 unat_drop_bit mod_256_div sextets_def Let_def)
qed simp

lemma length_base64: "length (base64 bs) = (length bs + 2) div 3 * 4"
proof (induction bs rule: base64.induct)
  case (1 a b c rest)
  have "(5 + length rest) div 3 = Suc ((2 + length rest) div 3)" by presburger
  then show ?case using 1 by (simp add: sextets_def)
qed (simp_all add: sextets_def)

lemma quad_bytes:
  fixes i j c d :: nat
  assumes "c < 64" "d < 64"
  defines "v \<equiv> i * 262144 + j * 4096 + c * 64 + d"
  shows "v div 65536 = (i * 64 + j) div 16" "v div 256 mod 256 = j mod 16 * 16 + c div 4" "v mod 256 = c mod 4 * 64 + d"
proof -
  define p s q r where ps: "p = j div 16" "s = j mod 16" and qr: "q = c div 4" "r = c mod 4"
  have j: "j = 16 * p + s" "s < 16" and c: "c = 4 * q + r" "r < 4" "q < 16"
    using assms(1) by (simp_all add: ps qr)
  have v: "v = (4 * i + p) * 65536 + s * 4096 + q * 256 + r * 64 + d"
    unfolding v_def j(1) c(1) by simp
  show "v div 65536 = (i * 64 + j) div 16"
  proof -
    have "v div 65536 = 4 * i + p"
      by (rule div_nat_eqI) (use v j(2) c(2,3) assms(2) in simp_all)
    moreover have "(i * 64 + j) div 16 = 4 * i + p"
      by (rule div_nat_eqI) (use j in simp_all)
    ultimately show ?thesis by simp
  qed
  have "v div 256 = (4 * i + p) * 256 + (s * 16 + q)"
    by (rule div_nat_eqI) (use v j(2) c(2,3) assms(2) in simp_all)
  then have "v div 256 mod 256 = (s * 16 + q) mod 256"
    by (simp only: mod_mult_self3)
  then have "v div 256 mod 256 = s * 16 + q"
    using j(2) c(3) by simp
  then show "v div 256 mod 256 = j mod 16 * 16 + c div 4"
    by (simp add: ps qr)
  have "v = ((4 * i + p) * 256 + s * 16 + q) * 256 + (r * 64 + d)"
    using v by simp
  then have "v mod 256 = (r * 64 + d) mod 256"
    by (simp only: mod_mult_self3)
  then have "v mod 256 = r * 64 + d"
    using c(2) assms(2) by simp
  then show "v mod 256 = c mod 4 * 64 + d"
    by (simp add: qr)
qed

lemma decode_quad_alphabet:
  assumes "i < 64" "j < 64" "k < 64" "l < 64"
  shows "base64_decode_quad [base64_alphabet ! i, base64_alphabet ! j, base64_alphabet ! k, base64_alphabet ! l] =
      Some [of_nat ((i * 64 + j) div 16), of_nat (j mod 16 * 16 + k div 4), of_nat (k mod 4 * 64 + l)]"
    and "base64_decode_quad [base64_alphabet ! i, base64_alphabet ! j, base64_alphabet ! k, 0x3D] =
      Some [of_nat ((i * 64 + j) div 16), of_nat (j mod 16 * 16 + k div 4)]"
    and "base64_decode_quad [base64_alphabet ! i, base64_alphabet ! j, 0x3D, 0x3D] =
      Some [of_nat ((i * 64 + j) div 16)]"
proof -
  have n: "(of_nat n :: u8) \<noteq> 0xff" "unat (of_nat n :: u8) = n" if "n < 64" for n
    using that by (simp_all add: word_unat_eq_iff unat_of_nat)
  note bins = ascii_to_bin_alphabet [OF assms(1)] ascii_to_bin_alphabet [OF assms(2)] ascii_to_bin_alphabet [OF assms(3)]
    ascii_to_bin_alphabet [OF assms(4)]
  have eq: "base64_ascii_to_bin 0x3D = 0" by (simp add: base64_ascii_to_bin_cases)
  let ?v = "\<lambda>c d. push_bit 18 (ucast (of_nat i :: u8)) OR push_bit 12 (ucast (of_nat j :: u8)) OR
    push_bit 6 (ucast (of_nat c :: u8)) OR (ucast (of_nat d :: u8) :: u32)"
  have v: "unat (?v c d) = i * 262144 + j * 4096 + c * 64 + d" if "c < 64" "d < 64" for c d
    using unat_or4 [of "of_nat i" "of_nat j" "of_nat c" "of_nat d"] n(2) assms that by simp
  have small: "j mod 16 * 16 + c div 4 < 256" if "c < 64" for c j :: nat
    using that mod_less_divisor [of 16 j] by linarith
  have small': "c mod 4 * 64 + d < 256" if "d < 64" for c d :: nat
    using that mod_less_divisor [of 4 c] by linarith
  have b: "(ucast (drop_bit 16 (?v c d)) :: u8) = of_nat ((i * 64 + j) div 16)"
    "(ucast (drop_bit 8 (?v c d)) :: u8) = of_nat (j mod 16 * 16 + c div 4)"
    "(ucast (?v c d) :: u8) = of_nat (c mod 4 * 64 + d)" if "c < 64" "d < 64" for c d
    using quad_bytes [OF that, of i j] that assms(1,2) small [OF that(1), of j] small' [OF that(2), of c]
    unfolding word_unat_eq_iff unat_u32_to_u8 unat_drop_bit v [OF that] by (simp_all add: unat_of_nat del: of_nat_add of_nat_mult)
  show "base64_decode_quad [base64_alphabet ! i, base64_alphabet ! j, base64_alphabet ! k, base64_alphabet ! l] =
      Some [of_nat ((i * 64 + j) div 16), of_nat (j mod 16 * 16 + k div 4), of_nat (k mod 4 * 64 + l)]"
    using b [OF assms(3,4)] bins n assms by (simp add: base64_decode_quad_def Let_def)
  show "base64_decode_quad [base64_alphabet ! i, base64_alphabet ! j, base64_alphabet ! k, 0x3D] =
      Some [of_nat ((i * 64 + j) div 16), of_nat (j mod 16 * 16 + k div 4)]"
    using b [OF assms(3), of 0] bins n assms by (simp add: base64_decode_quad_def Let_def eq)
  show "base64_decode_quad [base64_alphabet ! i, base64_alphabet ! j, 0x3D, 0x3D] =
      Some [of_nat ((i * 64 + j) div 16)]"
    using b [of 0 0] bins n assms by (simp add: base64_decode_quad_def Let_def eq)
qed

lemma sextets_alphabet:
  assumes "v < 2 ^ 24"
  shows "\<exists>i j k l. i < 64 \<and> j < 64 \<and> k < 64 \<and> l < 64 \<and> v = i * 262144 + j * 4096 + k * 64 + l \<and>
    sextets v = [base64_alphabet ! i, base64_alphabet ! j, base64_alphabet ! k, base64_alphabet ! l]"
proof -
  let ?i = "v div 262144 mod 64" and ?j = "v div 4096 mod 64" and ?k = "v div 64 mod 64" and ?l = "v mod 64"
  have "v = ?i * 262144 + ?j * 4096 + ?k * 64 + ?l"
  proof -
    have "v div 64 div 64 = v div 4096" "v div 4096 div 64 = v div 262144"
      by (simp_all add: div_mult2_eq [symmetric])
    moreover have "v div 262144 mod 64 = v div 262144" using assms by (simp add: div_less_iff_less_mult)
    ultimately show ?thesis
      using div_mult_mod_eq [of v 64] div_mult_mod_eq [of "v div 64" 64] div_mult_mod_eq [of "v div 4096" 64] by linarith
  qed
  note e = this
  show ?thesis
  proof (intro exI conjI)
    show "v = ?i * 262144 + ?j * 4096 + ?k * 64 + ?l" by (rule e)
  qed (simp_all add: sextets_def)
qed

lemma three_bytes:
  fixes a b c :: nat
  assumes "a < 256" "b < 256" "c < 256"
  defines "v \<equiv> a * 65536 + b * 256 + c"
  shows "v div 65536 = a" "v div 256 mod 256 = b" "v mod 256 = c" "v < 2 ^ 24"
proof -
  show "v div 65536 = a"
    by (rule div_nat_eqI) (use assms in simp_all)
  have "v div 256 = a * 256 + b"
    by (rule div_nat_eqI) (use assms in simp_all)
  then show "v div 256 mod 256 = b"
    using assms by (simp only: mod_mult_self3) simp
  have "v = (a * 256 + b) * 256 + c" by (simp add: v_def)
  then show "v mod 256 = c"
    using assms by (simp only: mod_mult_self3) simp
  show "v < 2 ^ 24" using assms by simp
qed

lemma decode_quad_sextets:
  "base64_decode_quad (sextets (unat a * 65536 + unat b * 256 + unat c)) = Some [a, b, c]"
  "base64_decode_quad (take 3 (sextets (unat a * 65536 + unat b * 256)) @ [0x3D]) = Some [a, b]"
  "base64_decode_quad (take 2 (sextets (unat a * 65536)) @ [0x3D, 0x3D]) = Some [a]"
proof -
  have o: "(of_nat m :: u8) = x" if "m = unat x" for m and x :: u8
    using that by (simp add: of_nat_unat_word)
  have q: "\<exists>i j k d. i < 64 \<and> j < 64 \<and> k < 64 \<and> d < 64 \<and>
      sextets (unat a * 65536 + unat b * 256 + unat c) =
        [base64_alphabet ! i, base64_alphabet ! j, base64_alphabet ! k, base64_alphabet ! d] \<and>
      of_nat ((i * 64 + j) div 16) = a \<and> of_nat (j mod 16 * 16 + k div 4) = b \<and> of_nat (k mod 4 * 64 + d) = c" for a b c :: u8
  proof -
    note t = three_bytes [OF unat_u8_less unat_u8_less unat_u8_less, of a b c]
    obtain i j k d where q: "i < 64" "j < 64" "k < 64" "d < 64"
      "unat a * 65536 + unat b * 256 + unat c = i * 262144 + j * 4096 + k * 64 + d"
      "sextets (unat a * 65536 + unat b * 256 + unat c) =
        [base64_alphabet ! i, base64_alphabet ! j, base64_alphabet ! k, base64_alphabet ! d]"
      using sextets_alphabet [OF t(4)] by blast
    have "(i * 64 + j) div 16 = unat a" "j mod 16 * 16 + k div 4 = unat b" "k mod 4 * 64 + d = unat c"
      using quad_bytes [OF q(3,4), of i j] t(1-3) unfolding q(5) by simp_all
    then show ?thesis using q(1-4,6) o by blast
  qed
  show "base64_decode_quad (sextets (unat a * 65536 + unat b * 256 + unat c)) = Some [a, b, c]"
    using q [of a b c] decode_quad_alphabet(1) by metis
  show "base64_decode_quad (take 3 (sextets (unat a * 65536 + unat b * 256)) @ [0x3D]) = Some [a, b]"
  proof -
    obtain i j k d where "i < 64" "j < 64" "k < 64" "d < 64"
      "sextets (unat a * 65536 + unat b * 256) =
        [base64_alphabet ! i, base64_alphabet ! j, base64_alphabet ! k, base64_alphabet ! d]"
      "of_nat ((i * 64 + j) div 16) = a" "of_nat (j mod 16 * 16 + k div 4) = b"
      using q [of a b 0] by auto
    then show ?thesis using decode_quad_alphabet(2) [of i j k d] by (simp add: numeral_3_eq_3 del: of_nat_add of_nat_mult)
  qed
  show "base64_decode_quad (take 2 (sextets (unat a * 65536)) @ [0x3D, 0x3D]) = Some [a]"
  proof -
    obtain i j k d where "i < 64" "j < 64" "k < 64" "d < 64"
      "sextets (unat a * 65536) = [base64_alphabet ! i, base64_alphabet ! j, base64_alphabet ! k, base64_alphabet ! d]"
      "of_nat ((i * 64 + j) div 16) = a"
      using q [of a 0 0] by auto
    then show ?thesis using decode_quad_alphabet(3) [of i j k d] by (simp add: numeral_2_eq_2 del: of_nat_add of_nat_mult)
  qed
qed

end
