(* ===== verification/Base64_Properties.thy ===== *)
theory Base64_Properties
  imports Base64
begin

unbundle bit_operations_syntax

text \<open>
  What base64 promises: the alphabet, the round trip, the sizes, and that the streaming forms
  do not see how their input is cut into pieces.
\<close>

lemma sextets_length [simp]: "length (sextets v) = 4"
  by (simp add: sextets_def)

lemma decode_quads_sextets:
  "base64_decode_quad (sextets v) = Some bytes \<Longrightarrow>
     decode_quads (sextets v @ rest) =
       (if length bytes \<noteq> 3 \<and> rest \<noteq> [] then None else map_option (\<lambda>out. bytes @ out) (decode_quads rest))"
  by (simp add: sextets_def)

lemma decode_quads_4:
  "length q = 4 \<Longrightarrow> base64_decode_quad q = Some bytes \<Longrightarrow> decode_quads q = Some bytes"
  by (auto simp: length_Suc_conv numeral_eq_Suc)

lemma decode_quads_base64: "decode_quads (base64 bs) = Some bs"
proof (induction bs rule: base64.induct)
  case (1 a b c rest)
  then show ?case
    using decode_quads_sextets [OF decode_quad_sextets(1) [of a b c], of "base64 rest"] by simp
next
  case (2 a b)
  then show ?case
    using decode_quads_4 [OF _ decode_quad_sextets(2) [of a b]] by simp
next
  case (3 a)
  then show ?case
    using decode_quads_4 [OF _ decode_quad_sextets(3) [of a]] by simp
qed simp

text \<open>
  C19: Decoding what has been encoded gives the bytes back, whatever they are; and the encoding has
  exactly the size announced by \<open>EVP_EncodedLength\<close>, its terminating NUL included.
\<close>

theorem base64_roundtrip:
  assumes "length bs < 2 ^ 60" "length (fst (EVP_EncodeBlock bs (length bs))) div 4 * 3 \<le> max_out"
  shows "EVP_DecodeBase64 max_out (fst (EVP_EncodeBlock bs (length bs))) = Some bs \<and>
    EVP_EncodedLength (length bs) = Some (snd (EVP_EncodeBlock bs (length bs)) + 1)"
proof -
  have e: "EVP_EncodeBlock bs (length bs) = (base64 bs, (length bs + 2) div 3 * 4)"
    by (simp add: EVP_EncodeBlock_def encode_quads_eq length_base64)
  have l: "(length bs + 2) div 3 < 2 ^ 60" using assms(1) by (simp add: div_less_iff_less_mult)
  have w: "size_wrap (length bs + 2) = length bs + 2" "size_wrap ((length bs + 2) div 3 * 4) = (length bs + 2) div 3 * 4"
    "size_wrap ((length bs + 2) div 3 * 4 + 1) = (length bs + 2) div 3 * 4 + 1"
    by (intro size_wrap_small; use assms(1) l in simp)+
  have "EVP_EncodedLength (length bs) = Some ((length bs + 2) div 3 * 4 + 1)"
    by (simp only: EVP_EncodedLength_def w Let_def) simp
  then show ?thesis
    using assms(2) e by (simp add: EVP_DecodeBase64_def EVP_DecodedLength_def length_base64 decode_quads_base64)
qed

theorem base64_roundtrip_witness:
  "EVP_DecodeBase64 3 (fst (EVP_EncodeBlock [0x4D, 0x61] 2)) = Some [0x4D, 0x61] \<and>
   EVP_EncodedLength 2 = Some (snd (EVP_EncodeBlock [0x4D, 0x61] 2) + 1)"
proof -
  have l: "length [0x4D, 0x61 :: u8] = 2" by simp
  have "length (fst (EVP_EncodeBlock [0x4D, 0x61] 2)) = 4"
    by (simp add: EVP_EncodeBlock_def encode_quads_eq length_base64 l del: list.size base64.simps)
  then show ?thesis
    using base64_roundtrip [of "[0x4D, 0x61]" 3] unfolding l by simp
qed

text \<open>
  The constant-time table lookups are the base64 alphabet: a six-bit value goes to its
  character, and a character to its value, or to 0xff when it is none.
\<close>

theorem base64_alphabet_exact:
  "conv_bin2ascii x = base64_alphabet ! (unat x mod 64) \<and>
   base64_ascii_to_bin c = (case base64_value c of Some n \<Rightarrow> of_nat n | None \<Rightarrow> 0xff)"
proof -
  have "base64_ascii_to_bin c = (case base64_value c of Some n \<Rightarrow> of_nat n | None \<Rightarrow> 0xff)"
  proof (cases "base64_value c")
    case (Some n)
    then show ?thesis
      using ascii_to_bin_alphabet [of n]
      by (auto simp: base64_value_def find_Some_iff base64_ascii_to_bin_cases split: if_splits)
  next
    case None
    then have none: "c \<noteq> 0x3D" "\<And>i. i < 64 \<Longrightarrow> base64_alphabet ! i \<noteq> c"
      by (auto simp: base64_value_def find_None_iff split: if_splits)
    have "unat (base64_ascii_to_bin c) = 255"
    proof (rule ccontr)
      assume n: "unat (base64_ascii_to_bin c) \<noteq> 255"
      define i where "i = unat (base64_ascii_to_bin c)"
      have "i < 64 \<and> unat (base64_alphabet ! i) = unat c"
        using n none(1) unfolding i_def unat_ascii_to_bin
        by (auto simp: Let_def unat_alphabet word_unat_eq_iff split: if_splits)
      with none(2) [of i] show False by (simp add: word_unat_eq_iff)
    qed
    with None show ?thesis by (simp add: word_unat_eq_iff)
  qed
  then show ?thesis by (simp add: conv_bin2ascii_eq)
qed

text \<open>
  The decoder does not ask that the unused bits of a padded quad be zero: two texts for one byte.
\<close>

theorem base64_decode_accepts_trailing_bits:
  "EVP_DecodeBase64 3 [0x51, 0x51, 0x3D, 0x3D] = Some [0x41] \<and> EVP_DecodeBase64 3 [0x51, 0x52, 0x3D, 0x3D] = Some [0x41]"
  by (simp add: EVP_DecodeBase64_def EVP_DecodedLength_def base64_decode_quad_def base64_ascii_to_bin_cases Let_def)

section \<open>Streaming\<close>

text \<open>The lines of 48 bytes that are full, and what is left.\<close>

function whole_lines :: "u8 list \<Rightarrow> u8 list \<times> u8 list" where
  "whole_lines bs =
     (if 48 \<le> length bs then apfst (\<lambda>out. base64 (take 48 bs) @ [0x0A] @ out) (whole_lines (drop 48 bs))
      else ([], bs))"
  by pat_completeness auto
termination
  by (relation "measure length") auto

declare whole_lines.simps [simp del]

text \<open>The text of a whole input: lines of 48 bytes, the last one shorter.\<close>

definition base64_lines :: "u8 list \<Rightarrow> u8 list" where
  "base64_lines bs = (case whole_lines bs of (out, rest) \<Rightarrow> out @ (if rest = [] then [] else base64 rest @ [0x0A]))"

lemma whole_lines_append:
  "whole_lines as = (out, rest) \<Longrightarrow> whole_lines (as @ bs) = apfst (\<lambda>o'. out @ o') (whole_lines (rest @ bs))"
proof (induction as arbitrary: out rule: whole_lines.induct)
  case (1 as)
  show ?case
  proof (cases "48 \<le> length as")
    case True
    obtain o1 r1 where w: "whole_lines (drop 48 as) = (o1, r1)" by fastforce
    have "out = base64 (take 48 as) @ [0x0A] @ o1" "rest = r1"
      using 1(2) w True by (simp_all add: whole_lines.simps [of as])
    moreover have "whole_lines (as @ bs) = apfst (\<lambda>out. base64 (take 48 as) @ [0x0A] @ out) (whole_lines (drop 48 as @ bs))"
      using True by (simp add: whole_lines.simps [of "as @ bs"])
    ultimately show ?thesis
      using 1(1) [OF True] w by (simp add: apfst_compose)
  next
    case False
    then have "out = []" "rest = as" using 1(2) by (simp_all add: whole_lines.simps [of as])
    then show ?thesis by (cases "whole_lines (as @ bs)") simp
  qed
qed

lemma whole_lines_rest: "whole_lines bs = (out, rest) \<Longrightarrow> length rest < 48"
proof (induction bs arbitrary: out rest rule: whole_lines.induct)
  case (1 bs)
  then show ?case
    by (cases "48 \<le> length bs"; cases "whole_lines (drop 48 bs)") (simp_all add: whole_lines.simps [of bs])
qed

lemma whole_lines_length: "whole_lines bs = (out, rest) \<Longrightarrow> length out \<le> 2 * length bs"
proof (induction bs arbitrary: out rest rule: whole_lines.induct)
  case (1 bs)
  show ?case
  proof (cases "48 \<le> length bs")
    case True
    obtain o1 r1 where w: "whole_lines (drop 48 bs) = (o1, r1)" by fastforce
    then show ?thesis
      using 1(1) [OF True w] 1(2) True by (auto simp: whole_lines.simps [of bs] length_base64)
  next
    case False
    then show ?thesis using 1(2) by (simp add: whole_lines.simps [of bs])
  qed
qed

lemma encode_block_48: "48 \<le> length bs \<Longrightarrow> EVP_EncodeBlock bs 48 = (base64 (take 48 bs), 64)"
  by (simp add: EVP_EncodeBlock_def encode_quads_eq length_base64)

lemma encode_lines_eq:
  assumes "tot + 2 * length inp < SIZE_MOD" "whole_lines inp = (o1, rest)"
  shows "encode_lines inp tot out = (False, rest, tot + length o1, out @ o1)"
  using assms
proof (induction inp arbitrary: tot out o1 rest rule: whole_lines.induct)
  case (1 inp)
  show ?case
  proof (cases "48 \<le> length inp")
    case True
    obtain o2 r2 where w: "whole_lines (drop 48 inp) = (o2, r2)" by fastforce
    have o: "o1 = base64 (take 48 inp) @ [0x0A] @ o2" "rest = r2"
      using 1(3) w True by (simp_all add: whole_lines.simps [of inp])
    have "size_wrap (tot + 64 + 1) = tot + 65"
      using 1(2) True by (subst size_wrap_small) simp_all
    then have "encode_lines inp tot out = encode_lines (drop 48 inp) (tot + 65) (out @ base64 (take 48 inp) @ [0x0A])"
      using True by (simp add: encode_lines.simps [of inp tot] encode_block_48)
    also have "\<dots> = (False, r2, tot + 65 + length o2, (out @ base64 (take 48 inp) @ [0x0A]) @ o2)"
      using 1(1) [OF True _ w] 1(2) True by simp
    finally show ?thesis using o True by (simp add: length_base64)
  next
    case False
    then have "o1 = []" "rest = inp" using 1(3) by (simp_all add: whole_lines.simps [of inp])
    moreover have "encode_lines inp tot out = (False, inp, tot, out)"
      using False by (subst encode_lines.simps) simp
    ultimately show ?thesis by simp
  qed
qed

text \<open>The bytes a context holds back.\<close>

definition enc_ok :: "evp_encode_ctx \<Rightarrow> bool" where
  "enc_ok ctx \<longleftrightarrow> length (ctx_data ctx) = 48 \<and> data_used ctx < 48"

definition enc_pending :: "evp_encode_ctx \<Rightarrow> u8 list" where
  "enc_pending ctx = take (data_used ctx) (ctx_data ctx)"

lemma EVP_EncodeUpdate_eq:
  assumes "enc_ok ctx" "length inp < 2 ^ 60" "whole_lines (enc_pending ctx @ inp) = (out, rest)"
  shows "\<exists>ctx'. EVP_EncodeUpdate ctx inp = (out, (if length out \<le> INT_MAX then length out else 0), ctx') \<and>
    enc_ok ctx' \<and> enc_pending ctx' = rest"
proof -
  have ctx: "length (ctx_data ctx) = 48" "data_used ctx < 48" "length (enc_pending ctx) = data_used ctx"
    using assms(1) by (simp_all add: enc_ok_def enc_pending_def)
  consider "inp = []" | "inp \<noteq> []" "length inp < 48 - data_used ctx" | "48 - data_used ctx \<le> length inp" "inp \<noteq> []"
    by linarith
  then show ?thesis
  proof cases
    case 1
    then show ?thesis
      using assms ctx by (simp add: EVP_EncodeUpdate_def whole_lines.simps [of "enc_pending ctx"])
  next
    case 2
    then have "\<not> 48 \<le> data_used ctx + length inp" by linarith
    then have "out = []" "rest = enc_pending ctx @ inp"
      using assms(3) ctx by (simp_all add: whole_lines.simps [of "enc_pending ctx @ inp"])
    then show ?thesis
      using 2 ctx by (auto simp: EVP_EncodeUpdate_def enc_ok_def enc_pending_def mem_put_def)
  next
    case 3
    let ?todo = "48 - data_used ctx"
    show ?thesis
    proof (cases "data_used ctx = 0")
      case True
      then have w: "whole_lines inp = (out, rest)" using assms(3) by (simp add: enc_pending_def)
      have "encode_lines inp 0 [] = (False, rest, length out, out)"
        using encode_lines_eq [OF _ w, of 0 "[]"] assms(2) by simp
      then show ?thesis
        using 3 True ctx whole_lines_rest [OF w]
        by (simp add: EVP_EncodeUpdate_def enc_ok_def enc_pending_def mem_put_def not_less)
    next
      case False
      define line where "line = enc_pending ctx @ take ?todo inp"
      have line: "length line = 48" using 3 ctx by (simp add: line_def)
      have split: "enc_pending ctx @ inp = line @ drop ?todo inp" by (simp add: line_def)
      obtain o1 r1 where w: "whole_lines (drop ?todo inp) = (o1, r1)" by fastforce
      have o: "out = base64 line @ [0x0A] @ o1" "rest = r1"
        using assms(3) w line unfolding split by (simp_all add: whole_lines.simps [of "line @ drop ?todo inp"])
      have put: "mem_put (ctx_data ctx) (data_used ctx) (take ?todo inp) = line"
        using 3 ctx by (simp add: mem_put_def line_def enc_pending_def)
      have "encode_lines (drop ?todo inp) 65 (base64 line @ [0x0A]) = (False, r1, 65 + length o1, (base64 line @ [0x0A]) @ o1)"
        by (rule encode_lines_eq [OF _ w]) (use assms(2) in simp)
      then show ?thesis
        using 3 False ctx line put o whole_lines_rest [OF w] encode_block_48 [of line]
        by (simp add: EVP_EncodeUpdate_def enc_ok_def enc_pending_def mem_put_def not_less length_base64 Let_def)
    qed
  qed
qed

text \<open>A whole run: the bytes handed in piece by piece, then \<open>EVP_EncodeFinal\<close>.\<close>

fun encode_stream :: "evp_encode_ctx \<Rightarrow> u8 list list \<Rightarrow> u8 list" where
  "encode_stream ctx [] = fst (EVP_EncodeFinal ctx)"
| "encode_stream ctx (c # cs) = (case EVP_EncodeUpdate ctx c of (out, _, ctx') \<Rightarrow> out @ encode_stream ctx' cs)"

lemma encode_stream_eq:
  assumes "enc_ok ctx" "\<forall>c\<in>set cs. length c < 2 ^ 60"
  shows "encode_stream ctx cs = base64_lines (enc_pending ctx @ concat cs)"
  using assms
proof (induction cs arbitrary: ctx)
  case Nil
  then have "whole_lines (enc_pending ctx) = ([], enc_pending ctx)" "length (enc_pending ctx) = data_used ctx"
    by (simp_all add: enc_ok_def enc_pending_def whole_lines.simps [of "take (data_used ctx) (ctx_data ctx)"])
  then show ?case
    by (auto simp: base64_lines_def EVP_EncodeFinal_def EVP_EncodeBlock_def encode_quads_eq enc_pending_def Let_def)
next
  case (Cons c cs)
  obtain out rest where w: "whole_lines (enc_pending ctx @ c) = (out, rest)" by fastforce
  obtain ctx' n where u: "EVP_EncodeUpdate ctx c = (out, n, ctx')" "enc_ok ctx'" "enc_pending ctx' = rest"
    using EVP_EncodeUpdate_eq [OF Cons.prems(1) _ w] Cons.prems(2) by auto
  have "encode_stream ctx (c # cs) = out @ base64_lines (rest @ concat cs)"
    using Cons.IH [OF u(2)] Cons.prems(2) u by simp
  also have "\<dots> = base64_lines ((enc_pending ctx @ c) @ concat cs)"
    unfolding base64_lines_def whole_lines_append [OF w] by (cases "whole_lines (rest @ concat cs)") simp
  finally show ?case by simp
qed

text \<open>
  C20: The streaming encoder writes the same text however its input is cut into pieces: lines of 64
  characters for every 48 bytes, the last one shorter and padded, each with its line end.
\<close>

theorem base64_stream_encodes_lines:
  assumes "\<forall>c\<in>set cs. length c < 2 ^ 60"
  shows "encode_stream EVP_EncodeInit cs = base64_lines (concat cs)"
  using encode_stream_eq [OF _ assms, of EVP_EncodeInit] by (simp add: EVP_EncodeInit_def enc_ok_def enc_pending_def)

theorem base64_stream_encodes_lines_witness:
  "encode_stream EVP_EncodeInit [[0x4D], [], [0x61, 0x6E]] = [0x54, 0x57, 0x46, 0x75, 0x0A]"
proof -
  have "encode_stream EVP_EncodeInit [[0x4D], [], [0x61, 0x6E]] = base64_lines (concat [[0x4D], [], [0x61, 0x6E]])"
    by (rule base64_stream_encodes_lines) simp
  also have "\<dots> = [0x54, 0x57, 0x46, 0x75, 0x0A]"
    by (simp add: base64_lines_def whole_lines.simps sextets_def base64_alphabet_nth)
  finally show ?thesis .
qed

text \<open>Feeding characters one after the other.\<close>

lemma decode_chars_append:
  "decode_chars ctx out (as @ bs) =
     (case decode_chars ctx out as of (ok, ctx', out') \<Rightarrow> if ok then decode_chars ctx' out' bs else (False, ctx', out'))"
  by (induction as arbitrary: ctx out) (auto split: prod.splits)

lemma decode_char_out: "decode_char ctx out c = (ok, ctx', out') \<Longrightarrow> \<exists>o1. out' = out @ o1 \<and> decode_char ctx [] c = (ok, ctx', o1)"
  by (auto simp: decode_char_def Let_def split: if_splits option.splits)

lemma decode_chars_out:
  "decode_chars ctx out cs = (ok, ctx', out') \<Longrightarrow> \<exists>o1. out' = out @ o1 \<and> decode_chars ctx [] cs = (ok, ctx', o1)"
proof (induction cs arbitrary: ctx out ok ctx' out')
  case (Cons c cs)
  obtain ok1 ctx1 out1 where 1: "decode_char ctx out c = (ok1, ctx1, out1)" by (metis prod_cases3)
  obtain o1 where o1: "out1 = out @ o1" "decode_char ctx [] c = (ok1, ctx1, o1)"
    using decode_char_out [OF 1] by blast
  show ?case
  proof (cases ok1)
    case True
    obtain o2 where o2: "out' = (out @ o1) @ o2" "decode_chars ctx1 [] cs = (ok, ctx', o2)"
      using Cons.IH [of ctx1 "out @ o1"] Cons.prems 1 o1(1) True by auto
    obtain ok3 ctx3 out3 where 3: "decode_chars ctx1 o1 cs = (ok3, ctx3, out3)" by (metis prod_cases3)
    obtain o3 where "out3 = o1 @ o3" "decode_chars ctx1 [] cs = (ok3, ctx3, o3)"
      using Cons.IH [OF 3] by blast
    then show ?thesis using o1 o2 True 3 by simp
  next
    case False
    then show ?thesis using Cons.prems 1 o1 by simp
  qed
qed simp

lemma decode_chars_spaces:
  "decode_chars ctx out cs = decode_chars ctx out (filter (\<lambda>c. \<not> is_base64_space c) cs)"
  by (induction cs arbitrary: ctx out) (auto simp: decode_char_def split: prod.splits)

lemma base64_decode_quad_cong:
  assumes "xs ! 0 = ys ! 0" "xs ! 1 = ys ! 1" "xs ! 2 = ys ! 2" "xs ! 3 = ys ! 3"
  shows "base64_decode_quad xs = base64_decode_quad ys"
  unfolding base64_decode_quad_def by (simp only: assms)

lemma four_or_more: "4 \<le> length xs \<Longrightarrow> \<exists>w x y z rest. xs = w # x # y # z # rest"
  by (auto simp: numeral_eq_Suc Suc_le_length_iff)

lemma decode_chars_quad:
  assumes "length (ctx_data ctx) = 48" "data_used ctx = 0" "\<not> eof_seen ctx" "length q = 4"
    "\<forall>c\<in>set q. \<not> is_base64_space c" "base64_decode_quad q = Some bytes"
  shows "\<exists>ctx'. decode_chars ctx out q = (True, ctx', out @ bytes) \<and> length (ctx_data ctx') = 48 \<and> data_used ctx' = 0 \<and>
    eof_seen ctx' = (length bytes < 3) \<and> error_encountered ctx' = error_encountered ctx"
proof -
  obtain a b c d where q: "q = [a, b, c, d]" using assms(4) by (auto simp: length_Suc_conv numeral_eq_Suc)
  obtain w x y z rest where data: "ctx_data ctx = w # x # y # z # rest"
    using four_or_more [of "ctx_data ctx"] assms(1) by auto
  have "base64_decode_quad (a # b # c # d # rest) = Some bytes"
    using assms(6) base64_decode_quad_cong [of "a # b # c # d # rest" "[a, b, c, d]"]
    by (simp add: q nth_Cons_numeral)
  then show ?thesis
    using assms(1-3,5) by (simp add: q decode_char_def data Let_def)
qed

lemma alphabet_no_space:
  "c \<in> set (sextets v) \<Longrightarrow> \<not> is_base64_space c"
  using ascii_to_bin_alphabet by (auto simp: sextets_def)

lemma equals_no_space: "\<not> is_base64_space 0x3D"
  by (simp add: is_base64_space_def)

lemma base64_no_space: "c \<in> set (base64 bs) \<Longrightarrow> \<not> is_base64_space c"
  using equals_no_space by (induction bs rule: base64.induct) (auto dest: alphabet_no_space in_set_takeD)

lemma decode_chars_base64:
  assumes "length (ctx_data ctx) = 48" "data_used ctx = 0" "\<not> eof_seen ctx"
  shows "\<exists>ctx'. decode_chars ctx out (base64 bs) = (True, ctx', out @ bs) \<and> data_used ctx' = 0 \<and>
    error_encountered ctx' = error_encountered ctx"
  using assms
proof (induction bs arbitrary: ctx out rule: base64.induct)
  case (1 a b c rest)
  let ?q = "sextets (unat a * 65536 + unat b * 256 + unat c)"
  obtain ctx1 where 1: "decode_chars ctx out ?q = (True, ctx1, out @ [a, b, c])" "length (ctx_data ctx1) = 48" "data_used ctx1 = 0"
    "\<not> eof_seen ctx1" "error_encountered ctx1 = error_encountered ctx"
    using decode_chars_quad [OF 1(2-4) _ _ decode_quad_sextets(1) [of a b c], of out] alphabet_no_space by auto
  show ?case
    using "1.IH" [OF 1(2-4), of "out @ [a, b, c]"] 1(1,5) by (auto simp: decode_chars_append)
next
  case (2 a b)
  have "\<forall>c\<in>set (base64 [a, b]). \<not> is_base64_space c" using base64_no_space by blast
  then show ?case
    using decode_chars_quad [OF 2 _ _ decode_quad_sextets(2) [of a b], of out] by auto
next
  case (3 a)
  have "\<forall>c\<in>set (base64 [a]). \<not> is_base64_space c" using base64_no_space by blast
  then show ?case
    using decode_chars_quad [OF 3 _ _ decode_quad_sextets(3) [of a], of out] by auto
qed simp

lemma base64_append: "length as mod 3 = 0 \<Longrightarrow> base64 (as @ bs) = base64 as @ base64 bs"
proof (induction as rule: base64.induct)
  case (1 a b c rest)
  have "length (a # b # c # rest) = length rest + 3" by simp
  then have "length rest mod 3 = 0" using 1(2) by (simp only: mod_add_self2)
  then show ?case using 1(1) by simp
qed simp_all

lemma base64_lines_text: "filter (\<lambda>c. \<not> is_base64_space c) (base64_lines bs) = base64 bs"
proof (induction bs rule: whole_lines.induct)
  case (1 bs)
  have all: "filter (\<lambda>c. \<not> is_base64_space c) (base64 bs) = base64 bs" for bs
    using base64_no_space [of _ bs] by (auto simp: filter_id_conv)
  have lf: "is_base64_space 0x0A" by (simp add: is_base64_space_def)
  show ?case
  proof (cases "48 \<le> length bs")
    case True
    have "base64_lines bs = base64 (take 48 bs) @ [0x0A] @ base64_lines (drop 48 bs)"
      unfolding base64_lines_def whole_lines.simps [of bs] using True by (cases "whole_lines (drop 48 bs)") simp
    moreover have "base64 bs = base64 (take 48 bs) @ base64 (drop 48 bs)"
      using base64_append [of "take 48 bs" "drop 48 bs"] True by simp
    ultimately show ?thesis using 1 [OF True] all lf by simp
  next
    case False
    then show ?thesis
      using all lf by (simp add: base64_lines_def whole_lines.simps [of bs])
  qed
qed

text \<open>A whole run of the decoder: the text handed in piece by piece, then \<open>EVP_DecodeFinal\<close>.\<close>

fun decode_stream :: "evp_encode_ctx \<Rightarrow> u8 list list \<Rightarrow> u8 list option" where
  "decode_stream ctx [] = (if fst (EVP_DecodeFinal ctx) = 1 then Some [] else None)"
| "decode_stream ctx (c # cs) =
     (case EVP_DecodeUpdate ctx c of (r, out, out_len, ctx') \<Rightarrow>
        if r = - 1 then None else map_option (\<lambda>o'. out @ o') (decode_stream ctx' cs))"

lemma decode_char_error: "decode_char ctx out c = (True, ctx', out') \<Longrightarrow> error_encountered ctx' = error_encountered ctx"
  by (auto simp: decode_char_def Let_def split: if_splits option.splits)

lemma decode_chars_error: "decode_chars ctx out cs = (True, ctx', out') \<Longrightarrow> error_encountered ctx' = error_encountered ctx"
  by (induction cs arbitrary: ctx out) (auto split: prod.splits if_splits dest: decode_char_error)

lemma decode_stream_eq:
  assumes "decode_chars ctx [] (concat ds) = (True, ctx', out)" "\<not> error_encountered ctx" "length out \<le> INT_MAX"
  shows "decode_stream ctx ds = (if data_used ctx' = 0 then Some out else None)"
  using assms
proof (induction ds arbitrary: ctx out)
  case Nil
  then show ?case by (simp add: EVP_DecodeFinal_def)
next
  case (Cons d ds)
  obtain ok ctx1 o1 where 1: "decode_chars ctx [] d = (ok, ctx1, o1)" by (metis prod_cases3)
  then have ok: "ok" and "decode_chars ctx1 o1 (concat ds) = (True, ctx', out)"
    using Cons.prems(1) by (auto simp: decode_chars_append split: if_splits)
  then obtain o2 where o2: "out = o1 @ o2" "decode_chars ctx1 [] (concat ds) = (True, ctx', o2)"
    using decode_chars_out by blast
  have e: "\<not> error_encountered ctx1" using decode_chars_error 1 ok Cons.prems(2) by auto
  have "length o1 \<le> INT_MAX" "length o2 \<le> INT_MAX" using o2(1) Cons.prems(3) by simp_all
  then show ?case
    using Cons.IH [OF o2(2) e] 1 ok Cons.prems(2) o2(1) by (simp add: EVP_DecodeUpdate_def)
qed

text \<open>
  C21: Whatever pieces the encoder is fed, and whatever pieces its text is cut into, with blanks and
  line ends added anywhere, the streaming decoder returns the bytes that went in.
\<close>

theorem base64_stream_roundtrip:
  assumes "\<forall>c\<in>set cs. length c < 2 ^ 60" "length (concat cs) \<le> INT_MAX"
    "filter (\<lambda>c. \<not> is_base64_space c) (concat ds) = filter (\<lambda>c. \<not> is_base64_space c) (encode_stream EVP_EncodeInit cs)"
  shows "decode_stream EVP_DecodeInit ds = Some (concat cs)"
proof -
  have stripped: "filter (\<lambda>c. \<not> is_base64_space c) (concat ds) = base64 (concat cs)"
    using assms(3) encode_stream_eq [OF _ assms(1), of EVP_EncodeInit] base64_lines_text
    by (simp add: EVP_EncodeInit_def enc_ok_def enc_pending_def)
  obtain ctx' where "decode_chars EVP_DecodeInit [] (base64 (concat cs)) = (True, ctx', concat cs)" "data_used ctx' = 0"
    using decode_chars_base64 [of EVP_DecodeInit "[]"] by (auto simp: EVP_DecodeInit_def)
  then show ?thesis
    using decode_stream_eq [of EVP_DecodeInit ds ctx' "concat cs"] assms(2)
      decode_chars_spaces [of EVP_DecodeInit "[]" "concat ds"]
    by (simp add: stripped EVP_DecodeInit_def)
qed

theorem base64_stream_roundtrip_witness:
  "decode_stream EVP_DecodeInit [[0x20, 0x54], [0x57, 0x46, 0x0D, 0x0A, 0x75]] = Some [0x4D, 0x61, 0x6E]"
proof -
  have "encode_stream EVP_EncodeInit [[0x4D], [], [0x61, 0x6E]] = base64_lines [0x4D, 0x61, 0x6E]"
    using encode_stream_eq [of EVP_EncodeInit "[[0x4D], [], [0x61, 0x6E]]"]
    by (simp add: EVP_EncodeInit_def enc_ok_def enc_pending_def)
  also have "\<dots> = [0x54, 0x57, 0x46, 0x75, 0x0A]"
    by (simp add: base64_lines_def whole_lines.simps sextets_def base64_alphabet_nth)
  finally have t: "encode_stream EVP_EncodeInit [[0x4D], [], [0x61, 0x6E]] = [0x54, 0x57, 0x46, 0x75, 0x0A]" .
  have "decode_stream EVP_DecodeInit [[0x20, 0x54], [0x57, 0x46, 0x0D, 0x0A, 0x75]] = Some (concat [[0x4D], [], [0x61, 0x6E]])"
    by (rule base64_stream_roundtrip) (simp_all add: t is_base64_space_def del: encode_stream.simps)
  then show ?thesis by simp
qed

end
