(* ===== verification/Asn1_Object.thy ===== *)
theory Asn1_Object
  imports CBB_Refine
begin

unbundle bit_operations_syntax

text \<open>
  Object headers and strings of the older ASN.1 code, \<open>crypto/asn1/asn1_lib.c\<close>: reading and
  writing identifier and length octets, and the \<open>ASN1_STRING\<close> type.
\<close>

section \<open>Reading a header\<close>

text \<open>
  What a reader that walks a pointer does: it reads past the bytes that are there, it gives up,
  or it returns a value.
\<close>

datatype 'a read = Past_end | Bad | Got 'a

definition on_got :: "'a read \<Rightarrow> ('a \<Rightarrow> 'b read) \<Rightarrow> 'b read" where
  "on_got r f = (case r of Past_end \<Rightarrow> Past_end | Bad \<Rightarrow> Bad | Got x \<Rightarrow> f x)"

lemma on_got_simps [simp]: "on_got Past_end f = Past_end" "on_got Bad f = Bad" "on_got (Got x) f = f x"
  by (simp_all add: on_got_def)

lemma on_got_Got_iff: "on_got r f = Got y \<longleftrightarrow> (\<exists>x. r = Got x \<and> f x = Got y)"
  by (cases r) simp_all

text \<open>\<open>INT_MAX >> 7\<close> and \<open>INT_MAX / 2\<close>.\<close>

definition TAG_LIMIT :: u64 where "TAG_LIMIT = 16777215"
definition LENGTH_LIMIT :: u64 where "LENGTH_LIMIT = 1073741823"

text \<open>The digits of a long tag that have the continuation bit; \<open>l\<close> is the value so far.\<close>

fun high_tag_loop :: "u8 list \<Rightarrow> int \<Rightarrow> u64 \<Rightarrow> (u64 \<times> u8 list \<times> int) read" where
  "high_tag_loop [] room l = Past_end"
| "high_tag_loop (b # p) room l =
     (if b AND 0x80 \<noteq> 0 then
        (let l1 = push_bit 7 l OR ucast (b AND 0x7f)
         in if room - 1 = 0 then Bad
            else if l1 > TAG_LIMIT then Bad
            else high_tag_loop p (room - 1) l1)
      else Got (l, b # p, room))"

text \<open>The tag number, what follows the identifier octets and how much of it may be read.\<close>

definition get_tag :: "u8 \<Rightarrow> u8 list \<Rightarrow> int \<Rightarrow> (u64 \<times> u8 list \<times> int) read" where
  "get_tag b p room =
     (if b AND 0x1f = 0x1f then
        (if room - 1 = 0 then Bad
         else on_got (high_tag_loop p (room - 1) 0) (\<lambda>(l, q, m).
           case q of
             [] \<Rightarrow> Past_end
           | c # r \<Rightarrow> (if m - 1 = 0 then Bad else Got (push_bit 7 l OR ucast (c AND 0x7f), r, m - 1))))
      else if room - 1 = 0 then Bad
      else Got (ucast (b AND 0x1f), p, room - 1))"

definition asn1_get_length :: "u8 list \<Rightarrow> int \<Rightarrow> (bool \<times> u64 \<times> u8 list) read" where
  "asn1_get_length p room =
     (if room < 1 then Bad
      else case p of
        [] \<Rightarrow> Past_end
      | b # q \<Rightarrow>
          on_got
            (if b = 0x80 then Got (True, 0, q)
             else let i = unat (b AND 0x7f)
                  in if b AND 0x80 \<noteq> 0 then
                       (if i > 8 \<or> room - 1 < int i then Bad
                        else if length q < i then Past_end
                        else Got (False, foldl (\<lambda>r c. push_bit 8 r OR ucast c) 0 (take i q), drop i q))
                     else Got (False, of_nat i, q))
            (\<lambda>(inf, len, r). if len > LENGTH_LIMIT then Bad else Got (inf, len, r)))"

text \<open>
  What \<open>ASN1_get_object\<close> returns and stores when it does not take the error exit, where it
  returns 0x80: \<open>obj_used\<close> is how far \<open>*pp\<close> moves.
\<close>

record obj_header =
  obj_ret :: u32
  obj_used :: nat
  obj_length :: nat
  obj_tag :: nat
  obj_class :: u8

definition ASN1_get_object :: "u8 list \<Rightarrow> int \<Rightarrow> obj_header read" where
  "ASN1_get_object p omax =
     (if omax = 0 then Bad
      else case p of
        [] \<Rightarrow> Past_end
      | b # p1 \<Rightarrow>
          (let ret = ucast (b AND 0x20) :: u32; xclass = b AND 0xc0
           in on_got (get_tag b p1 omax) (\<lambda>(tag, p2, room).
                if xclass = 0 \<and> tag > 0xff then Bad
                else on_got (asn1_get_length p2 room) (\<lambda>(inf, len, p3).
                  if inf \<and> ret AND 0x20 = 0 then Bad
                  else
                    let used = length p - length p3;
                        ret1 = (if int (unat len) > omax - int used then ret OR 0x80 else ret)
                    in Got \<lparr>obj_ret = ret1 OR (if inf then 1 else 0), obj_used = used, obj_length = unat len,
                            obj_tag = unat tag, obj_class = xclass\<rparr>))))"

section \<open>Writing a header\<close>

text \<open>The number of base-128 digits of a tag, and of bytes of a length.\<close>

fun tag_digits :: "nat \<Rightarrow> nat" where
  "tag_digits t = (if t > 0 then Suc (tag_digits (t div 128)) else 0)"

fun length_digits :: "nat \<Rightarrow> nat" where
  "length_digits l = (if l > 0 then Suc (length_digits (l div 256)) else 0)"

declare tag_digits.simps [simp del] length_digits.simps [simp del]

text \<open>The bytes \<open>p[0], ..., p[i - 1]\<close>, filled from the last one.\<close>

fun put_tag_digits :: "nat \<Rightarrow> nat \<Rightarrow> nat \<Rightarrow> u8 list \<Rightarrow> u8 list" where
  "put_tag_digits 0 ttag tag later = later"
| "put_tag_digits (Suc i) ttag tag later =
     put_tag_digits i ttag (tag div 128)
       ((let b = of_nat (tag mod 128) in if i \<noteq> ttag - 1 then b OR 0x80 else b) # later)"

fun put_length_bytes :: "nat \<Rightarrow> nat \<Rightarrow> u8 list \<Rightarrow> u8 list" where
  "put_length_bytes 0 n later = later"
| "put_length_bytes (Suc i) n later = put_length_bytes i (n div 256) (of_nat (n mod 256) # later)"

definition asn1_put_length :: "int \<Rightarrow> u8 list" where
  "asn1_put_length len =
     (if len \<le> 127 then [of_int len]
      else let i = length_digits (nat len) in (of_nat i OR 0x80) # put_length_bytes i (nat len) [])"

definition obj_lead :: "int \<Rightarrow> u32 \<Rightarrow> u8" where
  "obj_lead constructed xclass = ucast ((if constructed \<noteq> 0 then 0x20 else 0) OR (xclass AND 0xc0))"

definition ASN1_put_object :: "int \<Rightarrow> int \<Rightarrow> int \<Rightarrow> u32 \<Rightarrow> u8 list" where
  "ASN1_put_object constructed len tag xclass =
     (if tag < 31 then [obj_lead constructed xclass OR ucast (of_int tag AND 0x1f :: u32)]
      else let n = tag_digits (nat tag)
           in (obj_lead constructed xclass OR 0x1f) # put_tag_digits n n (nat tag) []) @
     (if constructed = 2 then [0x80] else asn1_put_length len)"

definition ASN1_put_eoc :: "u8 list" where
  "ASN1_put_eoc = [0, 0]"

definition ASN1_object_size :: "int \<Rightarrow> int \<Rightarrow> int \<Rightarrow> int" where
  "ASN1_object_size constructed len tag =
     (if len < 0 then - 1
      else
        let ret1 = 1 + (if tag \<ge> 31 then int (tag_digits (nat tag)) else 0);
            ret2 = (if constructed = 2 then ret1 + 3
                    else ret1 + 1 + (if len > 127 then int (length_digits (nat len)) else 0))
        in if ret2 \<ge> 2147483647 - len then - 1 else ret2 + len)"

section \<open>The writer emits the canonical header\<close>

lemma tag_digits_eq: "tag_digits t = ndigits t"
proof (induction t rule: tag_digits.induct)
  case (1 t)
  then show ?case by (simp add: tag_digits.simps [of t] ndigits.simps [of t])
qed

lemma length_digits_eq: "length_digits l = byte_len l"
proof (induction l rule: length_digits.induct)
  case (1 l)
  then show ?case by (simp add: length_digits.simps [of l] byte_len.simps [of l])
qed

lemma or_0x80: "m < 128 \<Longrightarrow> (of_nat m :: u8) OR 0x80 = of_nat (128 + m)"
proof -
  assume m: "m < 128"
  have e: "(0x80 :: u8) = push_bit 7 1" by code_simp
  have "unat (push_bit 7 1 OR of_nat m :: u8) = unat (1 :: u8) * 2 ^ 7 + unat (of_nat m :: u8)"
    using m by (intro unat_push_bit_or) (simp_all add: unat_of_nat_u8_less)
  also have "\<dots> = unat (of_nat (128 + m) :: u8)"
    using m unat_of_nat_u8_less [of m] unat_of_nat_u8_less [of "128 + m"] by simp
  finally show ?thesis unfolding e by (simp only: word_unat_eq_iff or.commute [of "of_nat m"])
qed

lemma put_tag_digits_more:
  "i < ttag \<Longrightarrow> put_tag_digits i ttag tag later = more_groups i tag @ later"
proof (induction i arbitrary: tag later)
  case (Suc i)
  then have "i \<noteq> ttag - 1" by simp
  then show ?case
    using Suc by (simp add: or_0x80 del: of_nat_add)
qed simp

lemma put_tag_digits_b128:
  assumes "0 < tag"
  shows "put_tag_digits (tag_digits tag) (tag_digits tag) tag [] = b128 tag"
proof -
  have "tag_digits tag = Suc (ndigits (tag div 128))"
    using assms by (simp add: tag_digits_eq ndigits.simps [of tag])
  then show ?thesis
    by (simp add: put_tag_digits_more more_groups_ndigits b128_def)
qed

lemma put_length_bytes_eq: "put_length_bytes i n later = be_bytes i n @ later"
proof (induction i arbitrary: n later)
  case (Suc i)
  have "(of_nat (n mod 256) :: u8) = of_nat n"
    by (simp only: word_unat_eq_iff unat_of_nat_u8) simp
  then show ?case using Suc by simp
qed simp

lemma asn1_put_length_eq:
  assumes "0 \<le> len" "len < 2 ^ 31"
  shows "asn1_put_length len = der_length (nat len)"
proof (cases "len \<le> 127")
  case True
  then have "nat len < 128" by simp
  moreover have "(of_int len :: u8) = of_nat (nat len)" using assms(1) by simp
  ultimately show ?thesis using True by (simp only: asn1_put_length_def der_length_def if_True)
next
  case False
  have "nat len < 256 ^ 4" using assms by simp
  then have "byte_len (nat len) \<le> 4" by (simp only: byte_len_le_iff)
  moreover have "\<not> nat len < 128" using False by simp
  ultimately show ?thesis
    using False by (simp add: asn1_put_length_def der_length_def length_digits_eq put_length_bytes_eq or_0x80 Let_def del: of_nat_add)
qed

text \<open>The tag as the byte-string library writes it: class and constructed bit above the number.\<close>

text \<open>
  The identifier octets as X.690 defines them: the class is bits 8 and 7 of \<open>xclass\<close>, then comes the
  constructed bit, then the number.
\<close>

definition obj_tag_word :: "int \<Rightarrow> int \<Rightarrow> u32 \<Rightarrow> u32" where
  "obj_tag_word constructed tag xclass =
    of_nat (unat xclass div 64 mod 4 * 2 ^ 30 + (if constructed \<noteq> 0 then 2 ^ 29 else 0) + nat tag)"

lemma low_bits_zero:
  assumes "(w :: u32) AND mask k = 0"
  shows "ucast w = (push_bit k (drop_bit k (ucast w)) :: u8)"
proof -
  have "\<not> bit w n" if "n < k" for n
    using arg_cong [OF assms, of "\<lambda>w. bit w n"] that by (auto simp: bit_simps dest: bit_imp_le_length)
  then have le: "k \<le> n" if "bit w n" for n
    using that by (metis not_le)
  show ?thesis
    by (intro bit_word_eqI) (auto simp: bit_simps le)
qed

lemma obj_lead_or:
  assumes "unat x < 32"
  shows "obj_lead constructed xclass OR x = of_nat (unat (obj_lead constructed xclass) div 32 * 32 + unat x)"
proof -
  let ?l = "obj_lead constructed xclass"
  have z: "((if constructed \<noteq> 0 then 0x20 else 0) OR (xclass AND 0xc0)) AND mask 5 = (0 :: u32)"
    by (simp add: bit.conj_disj_distrib2 and.assoc mask_eq_exp_minus_1)
  have l: "?l = push_bit 5 (drop_bit 5 ?l)"
    using low_bits_zero [OF z] unfolding obj_lead_def .
  have "unat ?l div 32 < 8" by (rule less_mult_imp_div_less) simp
  then have "unat (push_bit 5 (drop_bit 5 ?l) OR x) = unat (drop_bit 5 ?l) * 2 ^ 5 + unat x"
    using assms by (intro unat_push_bit_or) (simp_all add: unat_drop_bit)
  then have "unat (?l OR x) = unat ?l div 2 ^ 5 * 2 ^ 5 + unat x"
    unfolding l [symmetric] unat_drop_bit .
  then have "unat (?l OR x) = unat ?l div 32 * 32 + unat x" by simp
  then show ?thesis by (metis of_nat_unat_word)
qed

lemma obj_lead_class:
  "unat (obj_lead constructed xclass) div 32 = unat xclass div 64 mod 4 * 2 + (if constructed \<noteq> 0 then 1 else 0)"
proof -
  let ?b = "(if constructed \<noteq> 0 then 0x20 else 0) :: u32"
  have c: "unat (drop_bit 6 xclass AND mask 2) = unat xclass div 64 mod 4"
    unfolding take_bit_eq_mask [symmetric] unsigned_take_bit_eq by (simp add: take_bit_eq_mod unat_drop_bit)
  have m: "(0xc0 :: u32) = push_bit 6 (mask 2)" by code_simp
  have "xclass AND 0xc0 = push_bit 6 (drop_bit 6 xclass AND mask 2)"
    unfolding m by (rule bit_word_eqI) (auto simp: bit_simps)
  then have "?b OR (xclass AND 0xc0) = push_bit 6 (drop_bit 6 xclass AND mask 2) OR ?b"
    by (simp only: or.commute)
  moreover have "unat (push_bit 6 (drop_bit 6 xclass AND mask 2) OR ?b) = unat xclass div 64 mod 4 * 2 ^ 6 + unat ?b"
    unfolding c [symmetric] by (rule unat_push_bit_or) (use c in auto)
  ultimately have "unat (?b OR (xclass AND 0xc0)) = unat xclass div 64 mod 4 * 64 + unat ?b" by simp
  then have "unat (obj_lead constructed xclass) = unat xclass div 64 mod 4 * 64 + unat ?b"
    unfolding obj_lead_def by (simp add: unsigned_ucast_eq take_bit_eq_mod)
  then show ?thesis by auto
qed

lemma unat_low_tag:
  assumes "0 \<le> tag" "tag < 31"
  shows "unat (ucast (of_int tag AND 0x1f :: u32) :: u8) = nat tag"
proof -
  have "of_int tag = (of_nat (nat tag) :: u32)" using assms(1) by simp
  moreover have "nat tag < 31" using assms(2) by simp
  ultimately have "unat (of_int tag AND 0x1f :: u32) = nat tag"
    unfolding unat_and_0x1f by (simp only: unat_of_nat) simp
  then show ?thesis
    using assms by (simp add: unsigned_ucast_eq take_bit_nat_eq_self)
qed

lemma ASN1_put_object_eq:
  assumes "0 \<le> tag" "constructed \<noteq> 2" "0 \<le> len" "len < 2 ^ 31"
  shows "ASN1_put_object constructed len tag xclass =
    (let cls = unat (obj_lead constructed xclass) div 32
     in (if tag < 31 then [of_nat (cls * 32 + nat tag)] else of_nat (cls * 32 + 31) # b128 (nat tag)) @ der_length (nat len))"
proof (cases "tag < 31")
  case True
  have "unat (ucast (of_int tag AND 0x1f :: u32) :: u8) = nat tag"
    using assms(1) True by (rule unat_low_tag)
  then show ?thesis
    using True assms obj_lead_or [of "ucast (of_int tag AND 0x1f :: u32)" constructed xclass]
    by (simp add: ASN1_put_object_def asn1_put_length_eq Let_def del: of_nat_add)
next
  case False
  then show ?thesis
    using assms obj_lead_or [of "0x1f" constructed xclass]
    by (simp add: ASN1_put_object_def asn1_put_length_eq put_tag_digits_b128 Let_def del: of_nat_add)
qed

lemma ASN1_put_object_der:
  assumes "0 \<le> tag" "tag < 2 ^ 29" "constructed \<noteq> 2" "0 \<le> len" "len < 2 ^ 31"
  shows "ASN1_put_object constructed len tag xclass = der_header (obj_tag_word constructed tag xclass) (nat len)"
proof -
  let ?cls = "unat (obj_lead constructed xclass) div 32"
  have cls: "?cls < 8" by (rule less_mult_imp_div_less) simp
  have tag: "nat tag < 2 ^ 29" using assms(2) by (simp add: nat_less_iff)
  have "?cls * 2 ^ 29 + nat tag < 2 ^ 32" using cls tag by simp
  moreover have "obj_tag_word constructed tag xclass = of_nat (?cls * 2 ^ 29 + nat tag)"
    unfolding obj_tag_word_def obj_lead_class by (rule arg_cong [where f = of_nat]) (simp add: algebra_simps)
  ultimately have u: "unat (obj_tag_word constructed tag xclass) = ?cls * 2 ^ 29 + nat tag"
    by (simp add: unat_of_nat del: of_nat_add of_nat_mult)
  have "(?cls * 2 ^ 29 + nat tag) div 2 ^ 29 = ?cls" "(?cls * 2 ^ 29 + nat tag) mod 2 ^ 29 = nat tag"
    using tag by simp_all
  then show ?thesis
    using assms by (simp add: ASN1_put_object_eq der_header_def der_tag_def u Let_def nat_less_iff del: of_nat_add of_nat_mult)
qed

section \<open>The reader on canonical headers\<close>

lemma high_tag_loop_more:
  assumes "m < 2 ^ 24" "int (length (b128_more m)) < room"
  shows "high_tag_loop (b128_more m @ r) room 0 = high_tag_loop r (room - int (length (b128_more m))) (of_nat m)"
  using assms
proof (induction m arbitrary: r rule: b128_more.induct)
  case (1 m)
  show ?case
  proof (cases "m = 0")
    case False
    let ?b = "of_nat (128 + m mod 128) :: u8" and ?n = "length (b128_more (m div 128))"
    let ?l1 = "push_bit 7 (of_nat (m div 128)) OR ucast (?b AND 0x7f) :: u64"
    have b: "unat ?b = 128 + m mod 128"
      by (rule unat_of_nat_u8_less) simp
    have more: "b128_more m = b128_more (m div 128) @ [?b]"
      using False by (subst b128_more.simps) simp
    have small: "m div 128 < 2 ^ 24" using "1.prems"(1) by simp
    have ih: "high_tag_loop (b128_more (m div 128) @ ?b # r) room 0 = high_tag_loop (?b # r) (room - int ?n) (of_nat (m div 128))"
      using False "1.prems" more small by (intro "1.IH") auto
    have "unat (of_nat (m div 128) :: u64) = m div 128"
      using small by (simp add: unat_of_nat)
    then have "unat ?l1 = m div 128 * 128 + unat ?b mod 128"
      using small shift7_value [OF drop57_zero, of "m div 128" ?b] by simp
    also have "\<dots> = m" unfolding b by simp
    finally have u: "unat ?l1 = m" .
    then have l1: "?l1 = of_nat m" by (metis of_nat_unat_word)
    have "\<not> ?l1 > TAG_LIMIT"
      using "1.prems"(1) u by (simp add: word_less_nat_alt TAG_LIMIT_def)
    moreover have "room - int ?n - 1 \<noteq> 0" using "1.prems"(2) more by simp
    moreover have "?b AND 0x80 \<noteq> 0" using b by (simp add: u8_and_0x80 del: of_nat_add)
    ultimately have "high_tag_loop (?b # r) (room - int ?n) (of_nat (m div 128)) = high_tag_loop r (room - int ?n - 1) (of_nat m)"
      unfolding high_tag_loop.simps l1 Let_def by simp
    moreover have "room - int ?n - 1 = room - int (length (b128_more m))" unfolding more by simp
    ultimately show ?thesis
      unfolding ih [symmetric] by (metis ih more append.assoc append_Cons append_Nil)
  qed simp
qed

lemma get_tag_low: "\<lbrakk>b AND 0x1f \<noteq> 0x1f; room \<noteq> 1\<rbrakk> \<Longrightarrow> get_tag b p room = Got (ucast (b AND 0x1f), p, room - 1)"
  by (simp add: get_tag_def)

lemma get_tag_high:
  assumes "b AND 0x1f = 0x1f" "n < 2 ^ 31" "int (length (b128 n)) + 1 < room"
  shows "get_tag b (b128 n @ r) room = Got (of_nat n, r, room - 1 - int (length (b128 n)))"
proof -
  let ?c = "of_nat (n mod 128) :: u8" and ?k = "length (b128_more (n div 128))"
  have c: "unat ?c = n mod 128" by (rule unat_of_nat_u8_less) (simp add: less_imp_le order_less_trans [of _ 128])
  have small: "n div 128 < 2 ^ 24" using assms(2) by (simp add: less_mult_imp_div_less)
  have "high_tag_loop (b128 n @ r) (room - 1) 0 = high_tag_loop (?c # r) (room - 1 - int ?k) (of_nat (n div 128))"
    using high_tag_loop_more [OF small, of "room - 1" "?c # r"] assms(3) by (simp add: b128_def)
  also have "\<dots> = Got (of_nat (n div 128), ?c # r, room - 1 - int ?k)"
    using c by (simp add: u8_and_0x80)
  finally have loop: "high_tag_loop (b128 n @ r) (room - 1) 0 = Got (of_nat (n div 128), ?c # r, room - 1 - int ?k)" .
  have "unat (of_nat (n div 128) :: u64) = n div 128"
    using small by (simp add: unat_of_nat)
  then have "unat (push_bit 7 (of_nat (n div 128)) OR ucast (?c AND 0x7f) :: u64) = n div 128 * 128 + unat ?c mod 128"
    using small shift7_value [OF drop57_zero, of "n div 128" ?c] by simp
  also have "\<dots> = n" unfolding c by simp
  finally have "push_bit 7 (of_nat (n div 128)) OR ucast (?c AND 0x7f) = (of_nat n :: u64)"
    by (metis of_nat_unat_word)
  moreover have "room - 1 \<noteq> 0" "room - 1 - int ?k - 1 \<noteq> 0" using assms(3) by (simp_all add: b128_def)
  ultimately show ?thesis
    using assms(1) loop by (simp add: get_tag_def b128_def)
qed

lemma asn1_get_length_der:
  assumes "n \<le> 1073741823" "int (length (der_length n)) \<le> room"
  shows "asn1_get_length (der_length n @ r) room = Got (False, of_nat n, r)"
proof (cases "n < 128")
  case True
  let ?b = "of_nat n :: u8"
  have b: "unat ?b = n" using True by (intro unat_of_nat_u8_less) simp
  then have "?b \<noteq> 0x80" "?b AND 0x80 = 0" "unat (?b AND 0x7f) = n"
    using True by (auto simp: u8_and_0x80 unat_u8_and_0x7f)
  moreover have "\<not> (of_nat n :: u64) > LENGTH_LIMIT"
    using True by (simp add: LENGTH_LIMIT_def word_less_nat_alt unat_of_nat)
  ultimately show ?thesis
    using True assms(2) by (simp add: asn1_get_length_def der_length_def)
next
  case False
  let ?k = "byte_len n"
  let ?b = "of_nat (128 + ?k) :: u8" and ?v = "foldl (\<lambda>r c. push_bit 8 r OR ucast c) 0 (be_bytes (byte_len n) n) :: u64"
  have k: "0 < ?k" "?k \<le> 4" using False assms(1) byte_len_bounds(3) [of n] byte_len_le_iff [of n 4] by auto
  have b: "unat ?b = 128 + ?k" using k by (intro unat_of_nat_u8_less) simp
  then have b': "?b \<noteq> 0x80" "?b AND 0x80 \<noteq> 0" "unat (?b AND 0x7f) = ?k"
    using k by (auto simp: u8_and_0x80 unat_u8_and_0x7f simp del: of_nat_add)
  have "n < 256 ^ ?k" using False byte_len_bounds(2) [of n] by simp
  then have v: "unat ?v = n"
    using fold_bytes_u64 [of "be_bytes ?k n"] k(2) by (simp add: be_val_be_bytes)
  then have "\<not> ?v > LENGTH_LIMIT" "?v = of_nat n"
    using assms(1) by (simp_all add: LENGTH_LIMIT_def word_less_nat_alt) (metis of_nat_unat_word)
  then show ?thesis
    using False assms(2) b' k by (simp add: asn1_get_length_def der_length_def Let_def del: of_nat_add)
qed

lemma ASN1_get_object_header:
  assumes b: "b AND 0x1f \<noteq> 0x1f \<and> tag = unat (b AND 0x1f) \<and> tail = [] \<or>
      b AND 0x1f = 0x1f \<and> tag < 2 ^ 31 \<and> tail = b128 tag"
    and univ: "b AND 0xc0 = 0 \<Longrightarrow> tag \<le> 255"
    and n: "n \<le> 1073741823"
    and room: "int (1 + length tail + length (der_length n)) + int n \<le> omax"
  shows "ASN1_get_object (b # tail @ der_length n @ r) omax =
    Got \<lparr>obj_ret = ucast (b AND 0x20), obj_used = 1 + length tail + length (der_length n), obj_length = n,
         obj_tag = tag, obj_class = b AND 0xc0\<rparr>"
proof -
  have dl: "0 < length (der_length n)" by (simp add: der_length_def)
  have "tag < 2 ^ 31"
    using b unat_and_0x1f [of b] mod_less_divisor [of 32 "unat b"] by auto
  then have ut: "unat (of_nat tag :: u64) = tag" by (simp add: unat_of_nat)
  have t: "get_tag b (tail @ der_length n @ r) omax = Got (of_nat tag, der_length n @ r, omax - 1 - int (length tail))"
  proof -
    have "int (length tail) + 1 < omax" using room dl by linarith
    with b show ?thesis by (auto simp: get_tag_low get_tag_high)
  qed
  have l: "asn1_get_length (der_length n @ r) (omax - 1 - int (length tail)) = Got (False, of_nat n, r)"
    using n room by (intro asn1_get_length_der) simp_all
  have un: "unat (of_nat n :: u64) = n" using n by (simp add: unat_of_nat)
  moreover have "uint (of_nat n :: u64) = int n" by (metis un of_nat_unat)
  moreover have "\<not> (b AND 0xc0 = 0 \<and> (of_nat tag :: u64) > 0xff)"
    using univ ut by (auto simp: word_less_nat_alt)
  moreover have "omax \<noteq> 0" using room dl by simp
  ultimately show ?thesis
    using t l ut room by (simp add: ASN1_get_object_def Let_def)
qed

text \<open>The fields of the leading byte.\<close>

lemma obj_lead_fields:
  assumes "x AND 0x1f = x"
  shows "(obj_lead constructed xclass OR x) AND 0x1f = x"
    "(obj_lead constructed xclass OR x) AND 0x20 = (if constructed \<noteq> 0 then 0x20 else 0)"
    "(obj_lead constructed xclass OR x) AND 0xc0 = ucast (xclass AND 0xc0)"
proof -
  have lead: "obj_lead constructed xclass AND m = ucast (((if constructed \<noteq> 0 then 0x20 else 0) OR (xclass AND 0xc0)) AND ucast m)" for m
    unfolding obj_lead_def by (rule bit_word_eqI) (auto simp: bit_simps)
  have "0x1f AND 0x20 = (0 :: u8)" "0x1f AND 0xc0 = (0 :: u8)" by code_simp+
  then have x: "x AND 0x20 = 0" "x AND 0xc0 = 0"
    using assms by (metis and.assoc and_zero_eq)+
  show "(obj_lead constructed xclass OR x) AND 0x1f = x"
    "(obj_lead constructed xclass OR x) AND 0x20 = (if constructed \<noteq> 0 then 0x20 else 0)"
    "(obj_lead constructed xclass OR x) AND 0xc0 = ucast (xclass AND 0xc0)"
    using assms x by (simp_all add: bit.conj_disj_distrib2 and.assoc lead)
qed

text \<open>What the writer puts in front of the length.\<close>

lemma ASN1_put_object_parts:
  assumes "0 \<le> tag" "constructed \<noteq> 2" "0 \<le> len" "len < 2 ^ 31"
  obtains x tail where "ASN1_put_object constructed len tag xclass = (obj_lead constructed xclass OR x) # tail @ der_length (nat len)"
    "x AND 0x1f = x" "x \<noteq> 0x1f \<and> nat tag = unat x \<and> tail = [] \<or> x = 0x1f \<and> tail = b128 (nat tag)"
proof (cases "tag < 31")
  case True
  let ?x = "ucast (of_int tag AND 0x1f :: u32) :: u8"
  have x: "unat ?x = nat tag"
    using True assms(1) by (rule unat_low_tag [rotated])
  have "?x \<noteq> 0x1f" using x True by (auto simp: word_unat_eq_iff)
  moreover have "?x AND 0x1f = ?x"
    by (rule bit_word_eqI) (auto simp: bit_simps)
  moreover have "ASN1_put_object constructed len tag xclass = (obj_lead constructed xclass OR ?x) # [] @ der_length (nat len)"
    using True assms by (simp add: ASN1_put_object_def asn1_put_length_eq)
  ultimately show ?thesis using x that [of ?x "[]"] by simp
next
  case False
  then show ?thesis
    using assms by (intro that [of "0x1f" "b128 (nat tag)"]) (simp_all add: ASN1_put_object_def asn1_put_length_eq put_tag_digits_b128 Let_def)
qed

lemma get_put_object:
  assumes "0 \<le> tag" "tag < 2 ^ 31" "xclass AND 0xc0 = 0 \<Longrightarrow> tag \<le> 255" "constructed \<noteq> 2" "0 \<le> len" "len \<le> 1073741823"
    and "int (length (ASN1_put_object constructed len tag xclass)) + len \<le> omax"
  shows "ASN1_get_object (ASN1_put_object constructed len tag xclass @ r) omax =
    Got \<lparr>obj_ret = (if constructed \<noteq> 0 then 0x20 else 0), obj_used = length (ASN1_put_object constructed len tag xclass),
         obj_length = nat len, obj_tag = nat tag, obj_class = ucast (xclass AND 0xc0)\<rparr>"
proof -
  have len: "len < 2 ^ 31" using assms(6) by simp
  obtain x tail where put: "ASN1_put_object constructed len tag xclass = (obj_lead constructed xclass OR x) # tail @ der_length (nat len)"
    and x: "x AND 0x1f = x" and tag: "x \<noteq> 0x1f \<and> nat tag = unat x \<and> tail = [] \<or> x = 0x1f \<and> tail = b128 (nat tag)"
    using ASN1_put_object_parts [OF assms(1,4,5) len] .
  note f = obj_lead_fields [OF x, of constructed xclass]
  have z: "ucast (xclass AND 0xc0) = (0 :: u8) \<Longrightarrow> xclass AND 0xc0 = 0"
  proof -
    assume "ucast (xclass AND 0xc0) = (0 :: u8)"
    then have "unat (xclass AND 0xc0) mod 256 = 0"
      by (simp add: word_unat_eq_iff unsigned_ucast_eq take_bit_eq_mod)
    moreover have "unat (xclass AND 0xc0) \<le> unat (0xc0 :: u32)"
      by (rule word_and_le1 [THEN word_le_nat_alt [THEN iffD1]])
    ultimately show ?thesis by (simp add: word_unat_eq_iff)
  qed
  have "ASN1_get_object ((obj_lead constructed xclass OR x) # tail @ der_length (nat len) @ r) omax =
    Got \<lparr>obj_ret = ucast ((obj_lead constructed xclass OR x) AND 0x20), obj_used = 1 + length tail + length (der_length (nat len)),
         obj_length = nat len, obj_tag = nat tag, obj_class = (obj_lead constructed xclass OR x) AND 0xc0\<rparr>"
    by (rule ASN1_get_object_header) (use tag assms put z in \<open>auto simp: f nat_less_iff\<close>)
  then show ?thesis
    unfolding put by (simp add: f)
qed

section \<open>The reader stays within its bounds\<close>

text \<open>The read stays within the bytes that are there, and what it returns satisfies \<open>Q\<close>.\<close>

definition in_bounds :: "'a read \<Rightarrow> ('a \<Rightarrow> bool) \<Rightarrow> bool" where
  "in_bounds r Q \<longleftrightarrow> (case r of Past_end \<Rightarrow> False | Bad \<Rightarrow> True | Got x \<Rightarrow> Q x)"

lemma in_bounds_simps [simp]: "\<not> in_bounds Past_end Q" "in_bounds Bad Q" "in_bounds (Got x) Q = Q x"
  by (simp_all add: in_bounds_def)

lemma in_bounds_bind:
  "\<lbrakk>in_bounds r P; \<And>x. P x \<Longrightarrow> in_bounds (f x) Q\<rbrakk> \<Longrightarrow> in_bounds (on_got r f) Q"
  by (cases r) simp_all

lemma in_bounds_mono: "\<lbrakk>in_bounds r P; \<And>x. P x \<Longrightarrow> Q x\<rbrakk> \<Longrightarrow> in_bounds r Q"
  by (cases r) simp_all

text \<open>The bytes behind the readable ones keep their number \<open>d\<close>.\<close>

lemma high_tag_loop_safe:
  assumes "0 < room" "int (length p) = room + int d" "unat l < 2 ^ 24"
  shows "in_bounds (high_tag_loop p room l)
    (\<lambda>(l', p', room'). 0 < room' \<and> room' \<le> room \<and> int (length p') = room' + int d \<and> unat l' < 2 ^ 24)"
  using assms
proof (induction p room l rule: high_tag_loop.induct)
  case (2 b p room l)
  let ?l1 = "push_bit 7 l OR ucast (b AND 0x7f)"
  show ?case
  proof (cases "b AND 0x80 \<noteq> 0 \<and> room - 1 \<noteq> 0 \<and> \<not> ?l1 > TAG_LIMIT")
    case True
    then have "unat ?l1 < 2 ^ 24" by (simp add: TAG_LIMIT_def word_less_nat_alt)
    then have "in_bounds (high_tag_loop p (room - 1) ?l1)
        (\<lambda>(l', p', room'). 0 < room' \<and> room' \<le> room - 1 \<and> int (length p') = room' + int d \<and> unat l' < 2 ^ 24)"
      using True "2.prems" by (intro "2.IH") simp_all
    then have "in_bounds (high_tag_loop p (room - 1) ?l1)
        (\<lambda>(l', p', room'). 0 < room' \<and> room' \<le> room \<and> int (length p') = room' + int d \<and> unat l' < 2 ^ 24)"
      by (rule in_bounds_mono) auto
    then show ?thesis
      using True by (simp only: high_tag_loop.simps Let_def) simp
  next
    case False
    then consider "b AND 0x80 = 0" | "b AND 0x80 \<noteq> 0" "room - 1 = 0 \<or> ?l1 > TAG_LIMIT" by blast
    then show ?thesis
      using "2.prems" by cases (auto simp only: high_tag_loop.simps Let_def in_bounds_simps prod.case if_True if_False simp_thms split: if_splits)
  qed
qed simp

lemma get_tag_safe:
  assumes "0 < room" "int (length p) + 1 = room + int d"
  shows "in_bounds (get_tag b p room)
    (\<lambda>(t, p', room'). 0 < room' \<and> room' < room \<and> int (length p') = room' + int d \<and> unat t < 2 ^ 31)"
proof (cases "b AND 0x1f = 0x1f \<and> room - 1 \<noteq> 0")
  case True
  have "in_bounds (high_tag_loop p (room - 1) 0)
      (\<lambda>(l', p', room'). 0 < room' \<and> room' \<le> room - 1 \<and> int (length p') = room' + int d \<and> unat l' < 2 ^ 24)"
    using True assms by (intro high_tag_loop_safe) simp_all
  then have "in_bounds (on_got (high_tag_loop p (room - 1) 0) (\<lambda>(l, q, m).
       case q of [] \<Rightarrow> Past_end
       | c # r \<Rightarrow> (if m - 1 = 0 then Bad else Got (push_bit 7 l OR ucast (c AND 0x7f), r, m - 1))))
     (\<lambda>(t, p', room'). 0 < room' \<and> room' < room \<and> int (length p') = room' + int d \<and> unat t < 2 ^ 31)"
  proof (rule in_bounds_bind)
    fix x :: "u64 \<times> u8 list \<times> int"
    obtain l q m where x: "x = (l, q, m)" by (cases x)
    assume "case x of (l', p', room') \<Rightarrow> 0 < room' \<and> room' \<le> room - 1 \<and> int (length p') = room' + int d \<and> unat l' < 2 ^ 24"
    then have m: "0 < m" "m \<le> room - 1" "int (length q) = m + int d" and l: "unat l < 2 ^ 24" by (simp_all add: x)
    then obtain c r where q: "q = c # r" by (cases q) auto
    have "unat (push_bit 7 l OR ucast (c AND 0x7f)) = unat l * 128 + unat c mod 128"
      using l by (intro shift7_value) (simp add: word_unat_eq_iff unat_drop_bit)
    moreover have "unat c mod 128 < 128" by simp
    ultimately have "unat (push_bit 7 l OR ucast (c AND 0x7f)) < 2 ^ 31" using l by simp
    then show "in_bounds (case x of (l, q, m) \<Rightarrow>
       case q of [] \<Rightarrow> Past_end
       | c # r \<Rightarrow> (if m - 1 = 0 then Bad else Got (push_bit 7 l OR ucast (c AND 0x7f), r, m - 1)))
     (\<lambda>(t, p', room'). 0 < room' \<and> room' < room \<and> int (length p') = room' + int d \<and> unat t < 2 ^ 31)"
      using m unfolding x q by simp
  qed
  then show ?thesis using True by (simp add: get_tag_def)
next
  case False
  have "unat (b AND 0x1f) < 32" unfolding unat_and_0x1f by simp
  then show ?thesis using False assms by (auto simp: get_tag_def)
qed

lemma asn1_get_length_safe:
  assumes "int (length p) = room + int d"
  shows "in_bounds (asn1_get_length p room)
    (\<lambda>(inf, len, r). d \<le> length r \<and> length r < length p \<and> unat len \<le> 1073741823)"
proof (cases "room < 1")
  case True
  then show ?thesis by (simp add: asn1_get_length_def)
next
  case False
  then obtain b q where p: "p = b # q" using assms by (cases p) auto
  have lim: "unat len \<le> 1073741823" if "\<not> len > LENGTH_LIMIT" for len
    using that by (simp add: LENGTH_LIMIT_def word_less_nat_alt not_less)
  have q: "int (length q) = room - 1 + int d" using assms by (simp add: p)
  have "in_bounds (if b AND 0x80 \<noteq> 0 then
                (if i > 8 \<or> room - 1 < int i then Bad
                 else if length q < i then Past_end
                 else Got (False, foldl (\<lambda>r c. push_bit 8 r OR ucast c) 0 (take i q), drop i q))
              else Got (False, of_nat i, q))
     (\<lambda>(inf, len :: u64, r). d \<le> length r \<and> length r < length p)" for i
    using q False by (auto simp: p)
  then have len: "in_bounds (if b = 0x80 then Got (True, 0, q)
      else let i = unat (b AND 0x7f)
           in if b AND 0x80 \<noteq> 0 then
                (if i > 8 \<or> room - 1 < int i then Bad
                 else if length q < i then Past_end
                 else Got (False, foldl (\<lambda>r c. push_bit 8 r OR ucast c) 0 (take i q), drop i q))
              else Got (False, of_nat i, q))
     (\<lambda>(inf, len :: u64, r). d \<le> length r \<and> length r < length p)"
    using q False by (simp add: p Let_def)
  show ?thesis
    using False unfolding asn1_get_length_def p
    by (simp only: if_False list.case, intro in_bounds_bind [OF len [unfolded p]])
      (auto intro: lim)
qed

lemma and_0x20_cases: "(b :: u8) AND 0x20 = 0 \<or> b AND 0x20 = 0x20"
proof -
  have e: "(0x20 :: u8) = push_bit 5 1" by code_simp
  have "b AND push_bit n 1 = push_bit n (drop_bit n b AND 1)" for n
    by (rule bit_word_eqI) (auto simp: bit_simps)
  moreover have "drop_bit 5 b AND 1 = 0 \<or> drop_bit 5 b AND 1 = 1"
    by (simp add: and_one_eq mod_2_eq_odd)
  ultimately show ?thesis unfolding e by (metis push_bit_of_0)
qed

lemma ASN1_get_object_safe:
  assumes "0 \<le> omax" "omax \<le> int (length p)"
  shows "in_bounds (ASN1_get_object p omax)
    (\<lambda>h. int (obj_used h) \<le> omax \<and> 0 < obj_used h \<and> obj_length h \<le> 1073741823 \<and> obj_tag h < 2 ^ 31 \<and>
       (obj_class h = 0 \<longrightarrow> obj_tag h \<le> 255) \<and>
       (obj_ret h AND 0x80 = 0 \<longrightarrow> int (obj_used h) + int (obj_length h) \<le> omax) \<and>
       (obj_ret h AND 1 \<noteq> 0 \<longrightarrow> obj_ret h AND 0x20 \<noteq> 0))" (is "in_bounds _ ?Q")
proof (cases "omax = 0")
  case True
  then show ?thesis by (simp add: ASN1_get_object_def)
next
  case False
  then obtain b p1 where p: "p = b # p1" using assms by (cases p) auto
  define d where "d = length p - nat omax"
  have d: "int (length p1) + 1 = omax + int d" using assms by (simp add: d_def p)
  let ?ret = "ucast (b AND 0x20) :: u32"
  have ret: "?ret = 0 \<or> ?ret = 0x20" using and_0x20_cases [of b] by auto
  have final: "?Q \<lparr>obj_ret = (if int (unat len) > omax - int (length p - length p3) then ?ret OR 0x80 else ?ret) OR (if inf then 1 else 0),
      obj_used = length p - length p3, obj_length = unat len, obj_tag = unat tag, obj_class = b AND 0xc0\<rparr>"
    if "d \<le> length p3" "length p3 \<le> length p1" "unat len \<le> 1073741823" "unat (tag :: u64) < 2 ^ 31"
      "\<not> (b AND 0xc0 = 0 \<and> tag > 0xff)" "\<not> (inf \<and> ?ret AND 0x20 = 0)" for p3 :: "u8 list" and inf len tag
  proof -
    have used: "int (length p - length p3) = omax + int d - int (length p3)" using that(2) d by (simp add: p)
    have n: "int (length p - length p3) \<le> omax" "0 < length p - length p3" using that(1,2) used by (simp_all add: p)
    have t: "b AND 0xc0 = 0 \<longrightarrow> unat tag \<le> 255" using that(5) by (auto simp: word_less_nat_alt)
    show ?thesis
    proof (cases "int (unat len) > omax - int (length p - length p3)")
      case True
      have "((?ret OR 0x80) OR (if inf then 1 else 0)) AND 0x80 \<noteq> 0"
        "((?ret OR 0x80) OR (if inf then 1 else 0)) AND 1 \<noteq> 0 \<longrightarrow> ((?ret OR 0x80) OR (if inf then 1 else 0)) AND 0x20 \<noteq> 0"
        using ret that(6) by auto
      then show ?thesis using n t that(3,4) True by (simp only: obj_header.simps if_True) simp
    next
      case False
      have "(?ret OR (if inf then 1 else 0)) AND 1 \<noteq> 0 \<longrightarrow> (?ret OR (if inf then 1 else 0)) AND 0x20 \<noteq> 0"
        using ret that(6) by auto
      then show ?thesis using n t that(3,4) False by (simp only: obj_header.simps if_False) simp
    qed
  qed
  have length_stage: "in_bounds (on_got (asn1_get_length p2 room) (\<lambda>(inf, len, p3).
      if inf \<and> ?ret AND 0x20 = 0 then Bad
      else Got \<lparr>obj_ret = (if int (unat len) > omax - int (length p - length p3) then ?ret OR 0x80 else ?ret) OR (if inf then 1 else 0),
        obj_used = length p - length p3, obj_length = unat len, obj_tag = unat tag, obj_class = b AND 0xc0\<rparr>)) ?Q"
    if "0 < room" "room < omax" "int (length p2) = room + int d" "unat tag < 2 ^ 31" "\<not> (b AND 0xc0 = 0 \<and> tag > 0xff)"
    for p2 room and tag :: u64
  proof (rule in_bounds_bind [OF asn1_get_length_safe [OF that(3)]])
    fix x :: "bool \<times> u64 \<times> u8 list"
    obtain inf len p3 where x: "x = (inf, len, p3)" by (cases x)
    assume "case x of (inf, len, r) \<Rightarrow> d \<le> length r \<and> length r < length p2 \<and> unat len \<le> 1073741823"
    then have l: "d \<le> length p3" "length p3 < length p2" "unat len \<le> 1073741823" by (simp_all add: x)
    have "length p3 \<le> length p1" using l(2) that(2,3) d by linarith
    note f = final [OF l(1) this l(3) that(4,5), of inf]
    show "in_bounds (case x of (inf, len, p3) \<Rightarrow>
      if inf \<and> ?ret AND 0x20 = 0 then Bad
      else Got \<lparr>obj_ret = (if int (unat len) > omax - int (length p - length p3) then ?ret OR 0x80 else ?ret) OR (if inf then 1 else 0),
        obj_used = length p - length p3, obj_length = unat len, obj_tag = unat tag, obj_class = b AND 0xc0\<rparr>) ?Q"
    proof (cases "inf \<and> ?ret AND 0x20 = 0")
      case True
      show ?thesis unfolding x prod.case if_P [OF True] by simp
    next
      case False
      show ?thesis unfolding x prod.case if_not_P [OF False] in_bounds_simps by (rule f [OF False])
    qed
  qed
  have tag_stage: "in_bounds (case x of (tag, p2, room) \<Rightarrow>
       if b AND 0xc0 = 0 \<and> tag > 0xff then Bad
       else on_got (asn1_get_length p2 room) (\<lambda>(inf, len, p3).
         if inf \<and> ?ret AND 0x20 = 0 then Bad
         else Got \<lparr>obj_ret = (if int (unat len) > omax - int (length p - length p3) then ?ret OR 0x80 else ?ret) OR (if inf then 1 else 0),
           obj_used = length p - length p3, obj_length = unat len, obj_tag = unat tag, obj_class = b AND 0xc0\<rparr>)) ?Q"
    if "case x of (t, p', room') \<Rightarrow> 0 < room' \<and> room' < omax \<and> int (length p') = room' + int d \<and> unat t < 2 ^ 31" for x :: "u64 \<times> u8 list \<times> int"
  proof -
    obtain tag p2 room where x: "x = (tag, p2, room)" by (cases x)
    have t: "0 < room" "room < omax" "int (length p2) = room + int d" "unat tag < 2 ^ 31" using that by (simp_all add: x)
    show ?thesis
    proof (cases "b AND 0xc0 = 0 \<and> tag > 0xff")
      case True
      show ?thesis unfolding x prod.case if_P [OF True] by simp
    next
      case False
      show ?thesis unfolding x prod.case if_not_P [OF False] by (rule length_stage [OF t False])
    qed
  qed
  have "in_bounds (get_tag b p1 omax)
      (\<lambda>(t, p', room'). 0 < room' \<and> room' < omax \<and> int (length p') = room' + int d \<and> unat t < 2 ^ 31)"
    using False assms(1) d by (intro get_tag_safe) simp_all
  from in_bounds_bind [OF this tag_stage] show ?thesis
    using False by (simp only: ASN1_get_object_def p Let_def if_False list.case)
qed

section \<open>Sizes\<close>

lemma length_put_tag_digits [simp]: "length (put_tag_digits i ttag tag later) = i + length later"
  by (induction i arbitrary: tag later) simp_all

lemma length_put_length_bytes [simp]: "length (put_length_bytes i n later) = i + length later"
  by (induction i arbitrary: n later) simp_all

lemma ASN1_object_size_eq:
  assumes "0 \<le> len"
  shows "ASN1_object_size constructed len tag =
    (let n = int (length (ASN1_put_object constructed len tag xclass)) + len +
             (if constructed = 2 then int (length ASN1_put_eoc) else 0)
     in if n \<ge> 2147483647 then - 1 else n)"
  using assms
  by (auto simp: ASN1_object_size_def ASN1_put_object_def asn1_put_length_def ASN1_put_eoc_def Let_def)

section \<open>Agreement with the byte-string parser\<close>

lemma high_byte:
  fixes t :: u32
  assumes "x < 32"
  shows "of_nat (unat t div 2 ^ 29 * 32 + x) AND 0xe0 = ucast (drop_bit 24 t) AND (0xe0 :: u8)"
    "unat (of_nat (unat t div 2 ^ 29 * 32 + x) AND 0x1f :: u8) = x"
proof -
  have t: "unat t div 2 ^ 29 < 8" by (rule unat_u32_tag)
  then have u: "unat (of_nat (unat t div 2 ^ 29 * 32 + x) :: u8) = unat t div 2 ^ 29 * 32 + x"
    using assms by (intro unat_of_nat_u8_less) linarith
  have "unat t div 2 ^ 24 < 256" using unsigned_less [of t, where ?'a = nat] by (intro less_mult_imp_div_less) simp
  then have v: "unat (ucast (drop_bit 24 t) :: u8) = unat t div 2 ^ 24"
    by (simp add: unsigned_ucast_eq unat_drop_bit take_bit_nat_eq_self)
  have "unat t div 2 ^ 24 div 2 ^ 5 = unat t div 2 ^ 29"
    by (simp add: div_mult2_eq [symmetric])
  then have "unat (of_nat (unat t div 2 ^ 29 * 32 + x) :: u8) div 2 ^ 5 = unat (ucast (drop_bit 24 t) :: u8) div 2 ^ 5"
    unfolding u v using assms by simp
  then have "of_nat (unat t div 2 ^ 29 * 32 + x) AND NOT (mask 5) = ucast (drop_bit 24 t) AND (NOT (mask 5) :: u8)"
    unfolding and_not_mask_eq_iff .
  moreover have "NOT (mask 5) = (0xe0 :: u8)" by code_simp
  ultimately show "of_nat (unat t div 2 ^ 29 * 32 + x) AND 0xe0 = ucast (drop_bit 24 t) AND (0xe0 :: u8)" by simp
  show "unat (of_nat (unat t div 2 ^ 29 * 32 + x) AND 0x1f :: u8) = x"
    unfolding unat_and_0x1f u using assms by simp
qed

lemma ASN1_get_object_der:
  assumes "length body \<le> 1073741823" "unat t mod 2 ^ 29 \<le> 255 \<or> ucast (drop_bit 24 t) AND (0xc0 :: u8) \<noteq> 0"
    and "int (length (der_element t body)) \<le> omax"
  shows "ASN1_get_object (der_element t body @ rest) omax =
    Got \<lparr>obj_ret = ucast (ucast (drop_bit 24 t) AND (0x20 :: u8)), obj_used = length (der_header t (length body)),
         obj_length = length body, obj_tag = unat t mod 2 ^ 29, obj_class = ucast (drop_bit 24 t) AND 0xc0\<rparr>"
proof -
  let ?num = "unat t mod 2 ^ 29"
  define x where "x = (if ?num < 31 then ?num else 31)"
  define tail where "tail = (if ?num < 31 then [] else b128 ?num)"
  define b :: u8 where "b = of_nat (unat t div 2 ^ 29 * 32 + x)"
  have el: "der_element t body @ rest = b # tail @ der_length (length body) @ body @ rest"
    by (simp add: der_element_def der_header_def der_tag_def x_def tail_def b_def Let_def)
  have "x < 32" by (simp add: x_def)
  note hb = high_byte [OF this, of t, folded b_def]
  have m: "0xe0 AND 0xc0 = (0xc0 :: u8)" "0xe0 AND 0x20 = (0x20 :: u8)" by code_simp+
  have cls: "b AND k = ucast (drop_bit 24 t) AND k" if "0xe0 AND k = k" for k :: u8
  proof -
    have "b AND k = (b AND 0xe0) AND k" unfolding and.assoc that ..
    also have "\<dots> = ucast (drop_bit 24 t) AND k" unfolding hb(1) and.assoc that ..
    finally show ?thesis .
  qed
  have "b AND 0x1f = 0x1f \<longleftrightarrow> x = 31" using hb(2) by (auto simp: word_unat_eq_iff)
  moreover have "?num < 2 ^ 31" using mod_less_divisor [of "2 ^ 29" "unat t"] by simp
  ultimately have tag: "b AND 0x1f \<noteq> 0x1f \<and> ?num = unat (b AND 0x1f) \<and> tail = [] \<or>
      b AND 0x1f = 0x1f \<and> ?num < 2 ^ 31 \<and> tail = b128 ?num"
    using hb(2) by (cases "?num < 31") (simp_all only: x_def tail_def if_True if_False, simp_all)
  have hl: "length (der_header t (length body)) = 1 + length tail + length (der_length (length body))"
    by (simp add: der_header_def der_tag_def tail_def Let_def)
  have "ASN1_get_object (b # tail @ der_length (length body) @ body @ rest) omax =
    Got \<lparr>obj_ret = ucast (b AND 0x20), obj_used = 1 + length tail + length (der_length (length body)),
         obj_length = length body, obj_tag = ?num, obj_class = b AND 0xc0\<rparr>"
    using assms cls [OF m(1)] hl by (intro ASN1_get_object_header tag) (auto simp: der_element_def)
  then show ?thesis unfolding el cls [OF m(1)] cls [OF m(2)] hl .
qed

end
