(* ===== verification/Asn1_String.thy ===== *)
theory Asn1_String
  imports Crypto_Mem
begin

text \<open>
  The \<open>ASN1_STRING\<close> type of \<open>crypto/asn1/asn1_lib.c\<close>: creation, assignment, copies and the
  comparison, with the allocation failures the code handles.
\<close>

section \<open>Definitions\<close>

text \<open>\<open>data\<close> is the block behind the pointer; it has room for a terminator after the contents.\<close>

record asn1_string =
  str_length :: int
  str_type :: int
  str_data :: "u8 list option"
  str_flags :: int

definition V_ASN1_OCTET_STRING :: int where "V_ASN1_OCTET_STRING = 4"

definition SIZEOF_ASN1_STRING :: nat where "SIZEOF_ASN1_STRING = 24"

definition ASN1_STRING_type_new :: "heap \<Rightarrow> int \<Rightarrow> asn1_string option" where
  "ASN1_STRING_type_new h type =
     (case OPENSSL_malloc h SIZEOF_ASN1_STRING of
        None \<Rightarrow> None
      | Some _ \<Rightarrow> Some \<lparr>str_length = 0, str_type = type, str_data = None, str_flags = 0\<rparr>)"

definition ASN1_STRING_new :: "heap \<Rightarrow> asn1_string option" where
  "ASN1_STRING_new h = ASN1_STRING_type_new h V_ASN1_OCTET_STRING"

text \<open>
  \<open>ASN1_STRING_set\<close>; a negative length asks for \<open>strlen\<close> of the data, and \<open>None\<close> stands for a
  read past its end. The result is the return value and the string.
\<close>

definition set_length :: "u8 list option \<Rightarrow> int \<Rightarrow> int option option" where
  "set_length data len =
     (if len < 0 then
        (case data of
           None \<Rightarrow> Some None
         | Some d \<Rightarrow> (case c_strlen d of None \<Rightarrow> None | Some n \<Rightarrow> Some (Some (int n))))
      else Some (Some len))"

definition ensure_block :: "heap \<Rightarrow> asn1_string \<Rightarrow> int \<Rightarrow> u8 list option" where
  "ensure_block h str len =
     (if str_length str \<le> len \<or> str_data str = None then
        (case str_data str of
           None \<Rightarrow> OPENSSL_malloc h (nat (len + 1))
         | Some c \<Rightarrow> OPENSSL_realloc h (Some (length c, c)) (nat (len + 1)))
      else str_data str)"

definition ASN1_STRING_set :: "heap \<Rightarrow> asn1_string \<Rightarrow> u8 list option \<Rightarrow> int \<Rightarrow> (bool \<times> asn1_string) option" where
  "ASN1_STRING_set h str data len0 =
     (case set_length data len0 of
        None \<Rightarrow> None
      | Some None \<Rightarrow> Some (False, str)
      | Some (Some len) \<Rightarrow>
          (case ensure_block h str len of
             None \<Rightarrow> Some (False, str)
           | Some block \<Rightarrow>
               let filled = (case data of
                     None \<Rightarrow> block
                   | Some d \<Rightarrow> (mem_put block 0 (take (nat len) d))[nat len := 0])
               in Some (True, str\<lparr>str_data := Some filled, str_length := len\<rparr>)))"

definition ASN1_STRING_set0 :: "asn1_string \<Rightarrow> u8 list option \<Rightarrow> int \<Rightarrow> asn1_string" where
  "ASN1_STRING_set0 str data len = str\<lparr>str_data := data, str_length := len\<rparr>"

definition ASN1_STRING_copy :: "heap \<Rightarrow> asn1_string \<Rightarrow> asn1_string option \<Rightarrow> (bool \<times> asn1_string) option" where
  "ASN1_STRING_copy h dst str =
     (case str of
        None \<Rightarrow> Some (False, dst)
      | Some s \<Rightarrow>
          (case ASN1_STRING_set h (dst\<lparr>str_type := str_type s\<rparr>) (str_data s) (str_length s) of
             None \<Rightarrow> None
           | Some (ok, d) \<Rightarrow> Some (if \<not> ok then (False, d) else (True, d\<lparr>str_flags := str_flags s\<rparr>))))"

definition ASN1_STRING_FLAG_NDEF :: int where "ASN1_STRING_FLAG_NDEF = 0x010"

text \<open>The data block that freeing a string releases, besides the string itself.\<close>

definition ASN1_STRING_free :: "asn1_string option \<Rightarrow> u8 list option" where
  "ASN1_STRING_free a =
     (case a of
        None \<Rightarrow> None
      | Some s \<Rightarrow> if str_data s \<noteq> None \<and> (and (str_flags s) ASN1_STRING_FLAG_NDEF) = 0 then str_data s else None)"

definition ASN1_STRING_dup :: "heap \<Rightarrow> asn1_string option \<Rightarrow> asn1_string option option" where
  "ASN1_STRING_dup h str =
     (case str of
        None \<Rightarrow> Some None
      | Some s \<Rightarrow>
          (case ASN1_STRING_new h of
             None \<Rightarrow> Some None
           | Some ret \<Rightarrow>
               (case ASN1_STRING_copy h ret (Some s) of
                  None \<Rightarrow> None
                | Some (ok, r) \<Rightarrow> Some (if ok then Some r else None))))"

definition str_bytes :: "asn1_string \<Rightarrow> u8 list" where
  "str_bytes s = (case str_data s of None \<Rightarrow> [] | Some d \<Rightarrow> d)"

definition ASN1_STRING_cmp :: "asn1_string \<Rightarrow> asn1_string \<Rightarrow> int" where
  "ASN1_STRING_cmp a b =
     (let i = str_length a - str_length b
      in if i = 0 then
           (let j = memcmp (str_bytes a) (str_bytes b) (nat (str_length a))
            in if j = 0 then str_type a - str_type b else j)
         else i)"

definition ASN1_STRING_length :: "asn1_string \<Rightarrow> int" where "ASN1_STRING_length x = str_length x"

definition ASN1_STRING_length_set :: "asn1_string \<Rightarrow> int \<Rightarrow> asn1_string" where
  "ASN1_STRING_length_set x len = x\<lparr>str_length := len\<rparr>"

definition ASN1_STRING_type :: "asn1_string \<Rightarrow> int" where "ASN1_STRING_type x = str_type x"

definition ASN1_STRING_data :: "asn1_string \<Rightarrow> u8 list option" where "ASN1_STRING_data x = str_data x"

definition ASN1_STRING_get0_data :: "asn1_string \<Rightarrow> u8 list option" where "ASN1_STRING_get0_data x = str_data x"

section \<open>Well-formed strings\<close>

definition str_ok :: "asn1_string \<Rightarrow> bool" where
  "str_ok s \<longleftrightarrow> 0 \<le> str_length s \<and> str_length s \<le> int (length (str_bytes s))"

definition str_contents :: "asn1_string \<Rightarrow> u8 list" where
  "str_contents s = take (nat (str_length s)) (str_bytes s)"

lemma length_str_contents: "str_ok s \<Longrightarrow> int (length (str_contents s)) = str_length s"
  unfolding str_ok_def str_contents_def by simp linarith

lemma OPENSSL_realloc_length:
  assumes "n + 8 < SIZE_MOD" "OPENSSL_realloc h (Some (length c, c)) n = Some b"
  shows "length b = n"
  using assms OPENSSL_malloc_length [OF assms(1), of h]
  by (auto simp: OPENSSL_realloc_def Let_def split: option.splits if_splits)

lemma ensure_block_spec:
  assumes "str_ok s" "0 \<le> len" "len < 2 ^ 31 - 1"
  shows "case ensure_block h s len of
      None \<Rightarrow> \<not> grants h (nat len + 9)
    | Some b \<Rightarrow> nat len < length b"
proof -
  have sz: "nat (len + 1) + 8 < SIZE_MOD" using assms(2,3) by simp
  have n9: "nat (len + 1) + 8 = nat len + 9" using assms(2) by simp
  show ?thesis
  proof (cases "str_length s \<le> len \<or> str_data s = None")
    case True
    show ?thesis
    proof (cases "str_data s")
      case None
      have len: "length b = nat (len + 1)" if "OPENSSL_malloc h (nat (len + 1)) = Some b" for b
        using OPENSSL_malloc_length [OF sz that] .
      then show ?thesis
        using None OPENSSL_malloc_Some_iff [OF sz, of h] assms(2) n9
        by (auto simp: ensure_block_def split: option.split)
    next
      case (Some c)
      have len: "length b = nat (len + 1)" if "OPENSSL_realloc h (Some (length c, c)) (nat (len + 1)) = Some b" for b
        using OPENSSL_realloc_length [OF sz that] .
      have "\<not> grants h (nat len + 9)" if "OPENSSL_realloc h (Some (length c, c)) (nat (len + 1)) = None"
        using that OPENSSL_malloc_Some_iff [OF sz, of h] n9 by (auto simp: OPENSSL_realloc_def Let_def split: option.splits)
      then show ?thesis
        using True Some len assms(2) by (auto simp: ensure_block_def split: option.split)
    qed
  next
    case False
    then show ?thesis
      using assms by (auto simp: ensure_block_def str_ok_def str_bytes_def)
  qed
qed

lemma ASN1_STRING_set_spec:
  assumes "str_ok s" "0 \<le> len" "len < 2 ^ 31 - 1" "nat len \<le> length (case data of None \<Rightarrow> [] | Some d \<Rightarrow> d)"
  shows "\<exists>ok s'. ASN1_STRING_set h s data len = Some (ok, s') \<and>
    (if ok then str_ok s' \<and> str_length s' = len \<and> str_type s' = str_type s \<and> str_flags s' = str_flags s \<and>
         (\<forall>d. data = Some d \<longrightarrow> str_contents s' = take (nat len) d \<and> str_bytes s' ! nat len = 0)
     else s' = s \<and> \<not> grants h (nat len + 9))"
proof (cases "ensure_block h s len")
  case None
  then show ?thesis
    using assms(2) ensure_block_spec [OF assms(1-3), of h]
    by (intro exI [of _ False] exI [of _ s]) (simp add: ASN1_STRING_set_def set_length_def)
next
  case (Some b)
  then have b: "nat len < length b" using ensure_block_spec [OF assms(1-3), of h] by simp
  show ?thesis
  proof (cases data)
    case None
    have "ASN1_STRING_set h s data len = Some (True, s\<lparr>str_data := Some b, str_length := len\<rparr>)"
      using Some None assms(2) by (simp add: ASN1_STRING_set_def set_length_def)
    then show ?thesis
      using b assms(2) None by (intro exI [of _ True] exI) (auto simp: str_ok_def str_bytes_def)
  next
    case data: (Some d)
    let ?f = "(mem_put b 0 (take (nat len) d))[nat len := 0]"
    have l: "length (take (nat len) d) = nat len" using assms(4) data by simp
    have f: "?f = (take (nat len) d @ drop (nat len) b)[nat len := 0]"
      unfolding mem_put_def l by simp
    have "take (nat len) ?f = take (nat len) d"
      unfolding f take_update_cancel [OF order_refl] using l by simp
    moreover have "?f ! nat len = 0" "nat len < length ?f"
      unfolding f using l b by (simp_all add: nth_list_update_eq)
    moreover have "ASN1_STRING_set h s data len = Some (True, s\<lparr>str_data := Some ?f, str_length := len\<rparr>)"
      using Some data assms(2) by (simp add: ASN1_STRING_set_def set_length_def)
    ultimately show ?thesis
      using assms(2) data
      by (intro exI [of _ True] exI [of _ "s\<lparr>str_data := Some ?f, str_length := len\<rparr>"])
        (simp add: str_ok_def str_bytes_def str_contents_def)
  qed
qed

section \<open>The comparison\<close>

lemma memcmp_same [simp]: "memcmp a a n = 0"
proof (induction n arbitrary: a)
  case (Suc n)
  then show ?case by (cases a) simp_all
qed simp

lemma memcmp_flip: "memcmp b a n = - memcmp a b n"
  by (induction a b n rule: memcmp.induct) auto

lemma memcmp_eq_0_iff: "\<lbrakk>n \<le> length a; n \<le> length b\<rbrakk> \<Longrightarrow> memcmp a b n = 0 \<longleftrightarrow> take n a = take n b"
  by (induction a b n rule: memcmp.induct) (auto simp: word_uint_eq_iff)

lemma memcmp_trans:
  "\<lbrakk>n \<le> length a; n \<le> length b; n \<le> length c; memcmp a b n \<le> 0; memcmp b c n \<le> 0\<rbrakk> \<Longrightarrow>
    memcmp a c n \<le> 0 \<and> (memcmp a b n < 0 \<or> memcmp b c n < 0 \<longrightarrow> memcmp a c n < 0)"
proof (induction n arbitrary: a b c)
  case (Suc n)
  then obtain x a' y b' z c' where l: "a = x # a'" "b = y # b'" "c = z # c'"
    by (metis Suc_le_length_iff)
  have ih: "memcmp a' b' n \<le> 0 \<Longrightarrow> memcmp b' c' n \<le> 0 \<Longrightarrow>
      memcmp a' c' n \<le> 0 \<and> (memcmp a' b' n < 0 \<or> memcmp b' c' n < 0 \<longrightarrow> memcmp a' c' n < 0)"
    using Suc.prems(1-3) l by (intro Suc.IH) simp_all
  consider "x = y" "y = z" | "x = y" "y \<noteq> z" | "x \<noteq> y" "y = z" | "x \<noteq> y" "y \<noteq> z" by blast
  then show ?case
  proof cases
    case 1
    then show ?thesis using ih Suc.prems(4,5) l by simp
  next
    case 4
    then have lt: "uint x < uint y" "uint y < uint z"
      using Suc.prems(4,5) l word_uint_eq_iff [of x y] word_uint_eq_iff [of y z] by simp_all
    then have "x \<noteq> z" by auto
    then show ?thesis using 4 lt l by simp
  next
    case 2
    then have "uint y < uint z" using Suc.prems(5) l word_uint_eq_iff [of y z] by simp
    then show ?thesis using 2 l by simp
  next
    case 3
    then have "uint x < uint y" using Suc.prems(4) l word_uint_eq_iff [of x y] by simp
    then show ?thesis using 3 l by simp
  qed
qed simp

lemma ASN1_STRING_cmp_flip: "ASN1_STRING_cmp b a = - ASN1_STRING_cmp a b"
  by (auto simp: ASN1_STRING_cmp_def Let_def memcmp_flip [of "str_bytes b"])

lemma ASN1_STRING_cmp_0_iff:
  assumes "str_ok a" "str_ok b"
  shows "ASN1_STRING_cmp a b = 0 \<longleftrightarrow> str_contents a = str_contents b \<and> str_type a = str_type b"
proof (cases "str_length a = str_length b")
  case True
  then have "memcmp (str_bytes a) (str_bytes b) (nat (str_length a)) = 0 \<longleftrightarrow> str_contents a = str_contents b"
    using assms by (auto simp: str_ok_def str_contents_def memcmp_eq_0_iff)
  then show ?thesis
    using True by (auto simp: ASN1_STRING_cmp_def Let_def)
next
  case False
  then have "str_contents a \<noteq> str_contents b"
    using assms length_str_contents by metis
  then show ?thesis using False by (simp add: ASN1_STRING_cmp_def Let_def)
qed

lemma ASN1_STRING_cmp_trans:
  assumes "str_ok a" "str_ok b" "str_ok c" "ASN1_STRING_cmp a b \<le> 0" "ASN1_STRING_cmp b c \<le> 0"
  shows "ASN1_STRING_cmp a c \<le> 0"
proof (cases "str_length a = str_length b \<and> str_length b = str_length c")
  case True
  let ?n = "nat (str_length a)"
  have m: "?n \<le> length (str_bytes a)" "?n \<le> length (str_bytes b)" "?n \<le> length (str_bytes c)"
    using assms(1-3) True by (auto simp: str_ok_def)
  have "memcmp (str_bytes a) (str_bytes b) ?n \<le> 0" "memcmp (str_bytes b) (str_bytes c) ?n \<le> 0"
    using assms(4,5) True by (auto simp: ASN1_STRING_cmp_def Let_def split: if_splits)
  from memcmp_trans [OF m this] show ?thesis
    using assms(4,5) True by (auto simp: ASN1_STRING_cmp_def Let_def split: if_splits)
next
  case False
  then show ?thesis
    using assms(4,5) by (auto simp: ASN1_STRING_cmp_def Let_def split: if_splits)
qed

section \<open>Copies\<close>

lemma ASN1_STRING_copy_spec:
  assumes "str_ok s" "str_length s < 2 ^ 31 - 1" "str_ok d"
  shows "\<exists>ok d'. ASN1_STRING_copy h d (Some s) = Some (ok, d') \<and>
    (if ok then str_ok d' \<and> str_contents d' = str_contents s \<and> str_type d' = str_type s \<and> str_flags d' = str_flags s
     else \<not> grants h (nat (str_length s) + 9))"
proof -
  let ?d = "d\<lparr>str_type := str_type s\<rparr>"
  have d: "str_ok ?d" using assms(3) by (simp add: str_ok_def str_bytes_def)
  have s: "0 \<le> str_length s" "nat (str_length s) \<le> length (str_bytes s)" using assms(1) by (auto simp: str_ok_def)
  obtain ok d' where set: "ASN1_STRING_set h ?d (str_data s) (str_length s) = Some (ok, d')"
    and spec: "if ok then str_ok d' \<and> str_length d' = str_length s \<and> str_type d' = str_type ?d \<and> str_flags d' = str_flags ?d \<and>
         (\<forall>x. str_data s = Some x \<longrightarrow> str_contents d' = take (nat (str_length s)) x \<and> str_bytes d' ! nat (str_length s) = 0)
     else d' = ?d \<and> \<not> grants h (nat (str_length s) + 9)"
    using ASN1_STRING_set_spec [OF d s(1) assms(2), of "str_data s" h] s(2) unfolding str_bytes_def by blast
  have "str_contents d' = str_contents s" if ok
  proof (cases "str_data s")
    case None
    then have "str_length s = 0" using s by (simp add: str_bytes_def)
    then show ?thesis using spec that by (simp add: str_contents_def)
  next
    case (Some x)
    then show ?thesis using spec that by (simp add: str_contents_def [of s] str_bytes_def)
  qed
  then show ?thesis
    using set spec
    by (cases ok) (auto simp: ASN1_STRING_copy_def str_ok_def str_bytes_def str_contents_def)
qed

lemma ASN1_STRING_dup_spec:
  assumes "str_ok s" "str_length s < 2 ^ 31 - 1"
  shows "case ASN1_STRING_dup h (Some s) of
      None \<Rightarrow> False
    | Some None \<Rightarrow> \<not> grants h 32 \<or> \<not> grants h (nat (str_length s) + 9)
    | Some (Some r) \<Rightarrow> str_ok r \<and> ASN1_STRING_cmp r s = 0 \<and> str_flags r = str_flags s"
proof (cases "ASN1_STRING_new h")
  case None
  then have "\<not> grants h 32"
    by (auto simp: ASN1_STRING_new_def ASN1_STRING_type_new_def OPENSSL_malloc_def OPENSSL_MALLOC_PREFIX_def
        SIZEOF_ASN1_STRING_def Let_def split: option.splits if_splits)
  then show ?thesis by (simp add: ASN1_STRING_dup_def None)
next
  case (Some r)
  then have "str_ok r"
    by (auto simp: ASN1_STRING_new_def ASN1_STRING_type_new_def str_ok_def str_bytes_def split: option.splits)
  from ASN1_STRING_copy_spec [OF assms this, of h] obtain ok r' where
    "ASN1_STRING_copy h r (Some s) = Some (ok, r')"
    "if ok then str_ok r' \<and> str_contents r' = str_contents s \<and> str_type r' = str_type s \<and> str_flags r' = str_flags s
     else \<not> grants h (nat (str_length s) + 9)"
    by blast
  then show ?thesis
    using Some assms(1) by (cases ok) (simp_all add: ASN1_STRING_dup_def ASN1_STRING_cmp_0_iff)
qed

end
