(* ===== verification/Unicode.thy ===== *)
theory Unicode
  imports DER_Spec CBB_Refine
begin

unbundle bit_operations_syntax

text \<open>
  The text encodings of \<open>crypto/bytestring/unicode.c\<close>: reading and writing one code point in
  UTF-8, Latin-1, UCS-2 and UTF-32, with the check of the code point.
\<close>

section \<open>Definitions\<close>

definition is_valid_code_point :: "u32 \<Rightarrow> bool" where
  "is_valid_code_point v =
     (if v > 0x10ffff \<or> v AND 0xfffe = 0xfffe \<or> (v \<ge> 0xfdd0 \<and> v \<le> 0xfdef) \<or> (v \<ge> 0xd800 \<and> v \<le> 0xdfff)
      then False else True)"

definition BOTTOM_BITS :: "nat \<Rightarrow> u8" where
  "BOTTOM_BITS n = ucast (push_bit n (1 :: u32) - 1)"

definition TOP_BITS :: "nat \<Rightarrow> u8" where
  "TOP_BITS n = NOT (BOTTOM_BITS (8 - n))"

text \<open>The continuation bytes.\<close>

fun utf8_tail :: "nat \<Rightarrow> u32 \<Rightarrow> CBS \<Rightarrow> u32 option \<times> CBS" where
  "utf8_tail 0 v c = (Some v, c)"
| "utf8_tail (Suc i) v c =
     on_success (CBS_get_u8 c) (\<lambda>b c'.
       if b AND TOP_BITS 2 \<noteq> TOP_BITS 1 then (None, c')
       else utf8_tail i (push_bit 6 v OR ucast (b AND BOTTOM_BITS 6)) c')"

definition cbs_get_utf8 :: "CBS \<Rightarrow> u32 option \<times> CBS" where
  "cbs_get_utf8 cbs =
     on_success (CBS_get_u8 cbs) (\<lambda>c cbs1.
       if c \<le> 0x7f then (Some (ucast c), cbs1)
       else
         case (if c AND TOP_BITS 3 = TOP_BITS 2 then Some (ucast (c AND BOTTOM_BITS 5), 1, 0x80)
               else if c AND TOP_BITS 4 = TOP_BITS 3 then Some (ucast (c AND BOTTOM_BITS 4), 2, 0x800)
               else if c AND TOP_BITS 5 = TOP_BITS 4 then Some (ucast (c AND BOTTOM_BITS 3), 3, 0x10000)
               else None :: (u32 \<times> nat \<times> u32) option) of
           None \<Rightarrow> (None, cbs1)
         | Some (v, len, lower_bound) \<Rightarrow>
             on_success (utf8_tail len v cbs1) (\<lambda>v cbs2.
               if \<not> is_valid_code_point v \<or> v < lower_bound then (None, cbs2) else (Some v, cbs2)))"

definition cbs_get_latin1 :: "CBS \<Rightarrow> u32 option \<times> CBS" where
  "cbs_get_latin1 cbs = on_success (CBS_get_u8 cbs) (\<lambda>c cbs1. (Some (ucast c), cbs1))"

definition cbs_get_ucs2_be :: "CBS \<Rightarrow> u32 option \<times> CBS" where
  "cbs_get_ucs2_be cbs =
     on_success (CBS_get_u16 cbs) (\<lambda>c cbs1.
       if \<not> is_valid_code_point (ucast c) then (None, cbs1) else (Some (ucast c), cbs1))"

definition cbs_get_utf32_be :: "CBS \<Rightarrow> u32 option \<times> CBS" where
  "cbs_get_utf32_be cbs =
     on_success (CBS_get_u32 cbs) (\<lambda>v cbs1. if is_valid_code_point v then (Some v, cbs1) else (None, cbs1))"

definition cbb_get_utf8_len :: "u32 \<Rightarrow> nat" where
  "cbb_get_utf8_len u = (if u \<le> 0x7f then 1 else if u \<le> 0x7ff then 2 else if u \<le> 0xffff then 3 else 4)"

text \<open>A byte argument given as an \<open>int\<close> expression is truncated.\<close>

definition byte_arg :: "u32 \<Rightarrow> u8" where
  "byte_arg x = ucast x"

definition cbb_add_utf8 :: "heap \<Rightarrow> CBB \<Rightarrow> nat \<Rightarrow> u32 \<Rightarrow> unit option \<times> CBB" where
  "cbb_add_utf8 h cbb d u =
     (if \<not> is_valid_code_point u then (None, cbb)
      else if u \<le> 0x7f then CBB_add_u8 h cbb d (byte_arg u)
      else if u \<le> 0x7ff then
        on_success (CBB_add_u8 h cbb d (byte_arg (ucast (TOP_BITS 2) OR drop_bit 6 u))) (\<lambda>_ c1.
          CBB_add_u8 h c1 d (byte_arg (ucast (TOP_BITS 1) OR (u AND ucast (BOTTOM_BITS 6)))))
      else if u \<le> 0xffff then
        on_success (CBB_add_u8 h cbb d (byte_arg (ucast (TOP_BITS 3) OR drop_bit 12 u))) (\<lambda>_ c1.
        on_success (CBB_add_u8 h c1 d (byte_arg (ucast (TOP_BITS 1) OR (drop_bit 6 u AND ucast (BOTTOM_BITS 6))))) (\<lambda>_ c2.
          CBB_add_u8 h c2 d (byte_arg (ucast (TOP_BITS 1) OR (u AND ucast (BOTTOM_BITS 6))))))
      else if u \<le> 0x10ffff then
        on_success (CBB_add_u8 h cbb d (byte_arg (ucast (TOP_BITS 4) OR drop_bit 18 u))) (\<lambda>_ c1.
        on_success (CBB_add_u8 h c1 d (byte_arg (ucast (TOP_BITS 1) OR (drop_bit 12 u AND ucast (BOTTOM_BITS 6))))) (\<lambda>_ c2.
        on_success (CBB_add_u8 h c2 d (byte_arg (ucast (TOP_BITS 1) OR (drop_bit 6 u AND ucast (BOTTOM_BITS 6))))) (\<lambda>_ c3.
          CBB_add_u8 h c3 d (byte_arg (ucast (TOP_BITS 1) OR (u AND ucast (BOTTOM_BITS 6)))))))
      else (None, cbb))"

definition cbb_add_latin1 :: "heap \<Rightarrow> CBB \<Rightarrow> nat \<Rightarrow> u32 \<Rightarrow> unit option \<times> CBB" where
  "cbb_add_latin1 h cbb d u = (if u \<le> 0xff then CBB_add_u8 h cbb d (ucast u) else (None, cbb))"

definition cbb_add_ucs2_be :: "heap \<Rightarrow> CBB \<Rightarrow> nat \<Rightarrow> u32 \<Rightarrow> unit option \<times> CBB" where
  "cbb_add_ucs2_be h cbb d u =
     (if u \<le> 0xffff \<and> is_valid_code_point u then CBB_add_u16 h cbb d (ucast u) else (None, cbb))"

definition cbb_add_utf32_be :: "heap \<Rightarrow> CBB \<Rightarrow> nat \<Rightarrow> u32 \<Rightarrow> unit option \<times> CBB" where
  "cbb_add_utf32_be h cbb d u =
     (if is_valid_code_point u then CBB_add_u32 h cbb d u else (None, cbb))"

section \<open>Code points and UTF-8, as numbers\<close>

definition code_point :: "nat \<Rightarrow> bool" where
  "code_point n \<longleftrightarrow> n \<le> 0x10ffff \<and> n mod 0x10000 < 0xfffe \<and> \<not> (0xfdd0 \<le> n \<and> n \<le> 0xfdef) \<and> \<not> (0xd800 \<le> n \<and> n \<le> 0xdfff)"

definition utf8 :: "nat \<Rightarrow> u8 list" where
  "utf8 n =
     (if n < 0x80 then [of_nat n]
      else if n < 0x800 then [of_nat (192 + n div 64), of_nat (128 + n mod 64)]
      else if n < 0x10000 then
        [of_nat (224 + n div 4096), of_nat (128 + n div 64 mod 64), of_nat (128 + n mod 64)]
      else
        [of_nat (240 + n div 262144), of_nat (128 + n div 4096 mod 64), of_nat (128 + n div 64 mod 64), of_nat (128 + n mod 64)])"

lemma bits_values:
  "TOP_BITS 1 = 0x80" "TOP_BITS 2 = 0xC0" "TOP_BITS 3 = 0xE0" "TOP_BITS 4 = 0xF0" "TOP_BITS 5 = 0xF8"
  "BOTTOM_BITS 6 = 0x3F" "BOTTOM_BITS 5 = 0x1F" "BOTTOM_BITS 4 = 0x0F" "BOTTOM_BITS 3 = 0x07"
  by code_simp+

lemma not_masks:
  "NOT (mask 6) = (0xC0 :: u8)" "NOT (mask 5) = (0xE0 :: u8)" "NOT (mask 4) = (0xF0 :: u8)" "NOT (mask 3) = (0xF8 :: u8)"
  by code_simp+

lemma not_masks_and:
  "0x80 AND 0xC0 = (0x80 :: u8)" "0xC0 AND 0xE0 = (0xC0 :: u8)" "0xE0 AND 0xF0 = (0xE0 :: u8)" "0xF0 AND 0xF8 = (0xF0 :: u8)"
  by code_simp+

lemma lead_byte_iff:
  "c AND 0xC0 = (0x80 :: u8) \<longleftrightarrow> unat c div 64 = 2"
  "c AND 0xE0 = (0xC0 :: u8) \<longleftrightarrow> unat c div 32 = 6"
  "c AND 0xF0 = (0xE0 :: u8) \<longleftrightarrow> unat c div 16 = 14"
  "c AND 0xF8 = (0xF0 :: u8) \<longleftrightarrow> unat c div 8 = 30"
  using and_not_mask_eq_iff [of c 6 "0x80"] and_not_mask_eq_iff [of c 5 "0xC0"]
    and_not_mask_eq_iff [of c 4 "0xE0"] and_not_mask_eq_iff [of c 3 "0xF0"]
  unfolding not_masks not_masks_and by simp_all

lemma and_window_iff:
  assumes "k + n \<le> 32"
  shows "v AND push_bit k (mask n) = (push_bit k (mask n) :: u32) \<longleftrightarrow> take_bit n (drop_bit k v) = mask n"
proof -
  have p: "v AND push_bit k (mask n) = push_bit k (take_bit n (drop_bit k v))"
    by (rule bit_word_eqI) (auto simp: bit_simps)
  have d: "drop_bit k (push_bit k (take_bit n y)) = take_bit n y" for y :: u32
    using assms by (intro bit_word_eqI) (auto simp: bit_simps)
  show ?thesis
    unfolding p by (metis d take_bit_minus_one_eq_mask)
qed

lemma noncharacter_iff: "v AND 0xfffe = (0xfffe :: u32) \<longleftrightarrow> unat v mod 0x10000 \<ge> 0xfffe"
proof -
  have m: "(0xfffe :: u32) = push_bit 1 (mask 15)" by code_simp
  have "v AND 0xfffe = 0xfffe \<longleftrightarrow> take_bit 15 (drop_bit 1 v) = mask 15"
    unfolding m by (rule and_window_iff) simp
  also have "\<dots> \<longleftrightarrow> unat v div 2 mod 32768 = 32767"
    by (simp add: word_unat_eq_iff take_bit_eq_mod unat_mod_distrib unat_div_distrib drop_bit_eq_div mask_eq_exp_minus_1)
  also have "\<dots> \<longleftrightarrow> unat v mod 0x10000 \<ge> 0xfffe"
  proof -
    have "unat v mod 0x10000 = 2 * (unat v div 2 mod 32768) + unat v mod 2"
      using mod_mult2_eq [of "unat v" 2 32768] by simp
    moreover have "unat v div 2 mod 32768 < 32768" "unat v mod 2 < 2" by simp_all
    ultimately show ?thesis by linarith
  qed
  finally show ?thesis .
qed

lemma is_valid_code_point_iff: "is_valid_code_point v \<longleftrightarrow> code_point (unat v)"
  unfolding is_valid_code_point_def code_point_def noncharacter_iff
  by (simp add: word_less_nat_alt word_le_nat_alt not_less not_le)

section \<open>Continuation bytes\<close>

fun utf8_rest :: "nat \<Rightarrow> nat \<Rightarrow> u8 list" where
  "utf8_rest 0 n = []"
| "utf8_rest (Suc k) n = of_nat (128 + n div 64 ^ k mod 64) # utf8_rest k n"

lemma length_utf8_rest [simp]: "length (utf8_rest k n) = k"
  by (induction k) simp_all

lemma unat_and_low:
  "unat (c AND 0x3F :: u8) = unat c mod 64" "unat (c AND 0x1F :: u8) = unat c mod 32"
  "unat (c AND 0x0F :: u8) = unat c mod 16" "unat (c AND 0x07 :: u8) = unat c mod 8"
proof -
  have m: "(0x3F :: u8) = mask 6" "(0x1F :: u8) = mask 5" "(0x0F :: u8) = mask 4" "(0x07 :: u8) = mask 3"
    by code_simp+
  show "unat (c AND 0x3F) = unat c mod 64" "unat (c AND 0x1F) = unat c mod 32"
    "unat (c AND 0x0F) = unat c mod 16" "unat (c AND 0x07) = unat c mod 8"
    unfolding m unat_and_mask by simp_all
qed

lemma tail_step_value:
  assumes "unat v * 64 + 64 \<le> 2 ^ 32"
  shows "unat (push_bit 6 v OR ucast (b AND 0x3F :: u8) :: u32) = unat v * 64 + unat b mod 64"
  using assms unat_push_bit_or [of "ucast (b AND 0x3F) :: u32" 6 v] mod_less_divisor [of 64 "unat b"]
  by (simp add: unat_and_low)

lemma utf8_tail_Suc:
  "utf8_tail (Suc i) v c =
     on_success (CBS_get_u8 c) (\<lambda>b c'.
       if b AND 0xC0 \<noteq> 0x80 then (None, c')
       else utf8_tail i (push_bit 6 v OR ucast (b AND 0x3F)) c')"
  by (simp only: utf8_tail.simps bits_values)

lemma utf8_tail_sound:
  assumes "cbs_ok c" "utf8_tail k v c = (Some w, c')" "(unat v + 1) * 64 ^ k \<le> 2 ^ 32"
  shows "cbs_bytes c = utf8_rest k (unat w) @ cbs_bytes c' \<and> c' = cbs_adv k c \<and> unat w div 64 ^ k = unat v"
  using assms
proof (induction k arbitrary: v c)
  case 0
  then show ?case by simp
next
  case (Suc k)
  obtain b c1 where b: "CBS_get_u8 c = (Some b, c1)" "b AND 0xC0 = 0x80"
    and tail: "utf8_tail k (push_bit 6 v OR ucast (b AND 0x3F)) c1 = (Some w, c')"
    using Suc.prems(2) unfolding utf8_tail_Suc by (auto simp: on_success_Some_iff split: if_splits)
  let ?v = "push_bit 6 v OR ucast (b AND 0x3F)"
  have bytes: "cbs_bytes c = b # cbs_bytes c1" "c1 = cbs_adv 1 c"
    using cbs_get_u8_SomeD [OF Suc.prems(1) b(1)] by blast+
  have total: "(unat v + 1) * 64 * 64 ^ k \<le> 2 ^ 32" using Suc.prems(3) by (simp only: power_Suc mult.assoc)
  have "(unat v + 1) * 64 * 1 \<le> (unat v + 1) * 64 * 64 ^ k" by (rule mult_le_mono2) simp
  with total have "(unat v + 1) * 64 \<le> 2 ^ 32" by linarith
  then have v: "unat ?v = unat v * 64 + unat b mod 64" by (intro tail_step_value) (simp only: distrib_right mult_1)
  have "unat ?v + 1 \<le> (unat v + 1) * 64"
  proof -
    have "unat b mod 64 < 64" by simp
    then show ?thesis unfolding v distrib_right mult_1 by linarith
  qed
  then have "(unat ?v + 1) * 64 ^ k \<le> (unat v + 1) * 64 * 64 ^ k" by (rule mult_le_mono1)
  with total have small: "(unat ?v + 1) * 64 ^ k \<le> 2 ^ 32" by linarith
  have ih: "cbs_bytes c1 = utf8_rest k (unat w) @ cbs_bytes c'" "c' = cbs_adv k c1" "unat w div 64 ^ k = unat ?v"
    using Suc.IH [OF _ tail small] cbs_ok_adv [OF Suc.prems(1), of 1] unfolding bytes(2) by blast+
  have "unat b div 64 = 2"
    using b(2) unfolding lead_byte_iff .
  then have "unat b = 128 + unat b mod 64"
    using div_mult_mod_eq [of "unat b" 64] by simp
  also have "unat b mod 64 = (unat v * 64 + unat b mod 64) mod 64"
    by simp
  finally have "unat b = 128 + unat w div 64 ^ k mod 64"
    unfolding ih(3) v .
  then have "b = of_nat (128 + unat w div 64 ^ k mod 64)"
    by (metis of_nat_unat_word)
  moreover have "unat w div 64 ^ Suc k = unat v"
    unfolding power_Suc2 div_mult2_eq ih(3) v by simp
  moreover have "c' = cbs_adv (Suc k) c" unfolding ih(2) bytes(2) by simp
  ultimately show ?case
    unfolding bytes(1) ih(1) by simp
qed

lemma rest_byte:
  "of_nat (128 + m mod 64) AND 0xC0 = (0x80 :: u8)" "unat (of_nat (128 + m mod 64) :: u8) mod 64 = m mod 64"
proof -
  have "m mod 64 < 64" by simp
  then have u: "unat (of_nat (128 + m mod 64) :: u8) = 2 * 64 + m mod 64"
    by (subst unat_of_nat_u8_less) linarith+
  show "of_nat (128 + m mod 64) AND 0xC0 = (0x80 :: u8)" unfolding lead_byte_iff u by simp
  show "unat (of_nat (128 + m mod 64) :: u8) mod 64 = m mod 64"
    unfolding u by (simp only: mod_mult_self3 mod_mod_trivial)
qed

lemma utf8_tail_complete:
  assumes "cbs_ok c" "cbs_bytes c = utf8_rest k n @ rest" "n < 2 ^ 32" "unat v = n div 64 ^ k"
  shows "utf8_tail k v c = (Some (of_nat n), cbs_adv k c)"
  using assms
proof (induction k arbitrary: v c)
  case 0
  then have "v = of_nat n" by (metis div_by_1 of_nat_unat_word power_0)
  then show ?case by simp
next
  case (Suc k)
  let ?b = "of_nat (128 + n div 64 ^ k mod 64) :: u8"
  let ?v = "push_bit 6 v OR ucast (?b AND 0x3F)"
  have b: "CBS_get_u8 c = (Some ?b, cbs_adv 1 c)"
    using Suc.prems(1,2) by (intro cbs_get_u8_bytes) auto
  have v: "unat v = n div 64 ^ k div 64"
    using Suc.prems(4) unfolding power_Suc2 div_mult2_eq .
  have "n div 64 ^ k < 2 ^ 32"
    using Suc.prems(3) by (metis div_le_dividend le_less_trans)
  then have "unat v * 64 + 64 \<le> 2 ^ 32" unfolding v by simp
  from tail_step_value [OF this, of ?b] have "unat ?v = n div 64 ^ k"
    unfolding rest_byte(2) v using div_mult_mod_eq [of "n div 64 ^ k" 64] by simp
  moreover have "cbs_bytes (cbs_adv 1 c) = utf8_rest k n @ rest"
    using Suc.prems(2) by simp
  ultimately have "utf8_tail k ?v (cbs_adv 1 c) = (Some (of_nat n), cbs_adv k (cbs_adv 1 c))"
    using Suc.IH [of "cbs_adv 1 c" ?v] Suc.prems(1,3) by simp
  then show ?case
    unfolding utf8_tail_Suc b by (simp add: rest_byte(1) del: of_nat_add)
qed

section \<open>Reading UTF-8\<close>

lemma utf8_eq_rest:
  "utf8 n = (if n < 0x80 then [of_nat n]
     else if n < 0x800 then of_nat (192 + n div 64) # utf8_rest 1 n
     else if n < 0x10000 then of_nat (224 + n div 4096) # utf8_rest 2 n
     else of_nat (240 + n div 262144) # utf8_rest 3 n)"
  unfolding utf8_def One_nat_def numeral_2_eq_2 numeral_3_eq_3 utf8_rest.simps
  by (simp del: of_nat_add)

text \<open>The number of continuation bytes, the bits of the lead byte and the smallest value of each length.\<close>

definition utf8_class :: "nat \<Rightarrow> (nat \<times> nat \<times> nat) option" where
  "utf8_class b =
     (if b div 32 = 6 then Some (1, b mod 32, 0x80)
      else if b div 16 = 14 then Some (2, b mod 16, 0x800)
      else if b div 8 = 30 then Some (3, b mod 8, 0x10000) else None)"

lemma utf8_classD:
  assumes "utf8_class (unat c) = Some (k, m, lo)" "n div 64 ^ k = m" "lo \<le> n"
  shows "utf8 n = c # utf8_rest k n"
proof -
  consider "unat c div 32 = 6" "k = 1" "m = unat c mod 32" "lo = 0x80"
    | "unat c div 16 = 14" "k = 2" "m = unat c mod 16" "lo = 0x800"
    | "unat c div 8 = 30" "k = 3" "m = unat c mod 8" "lo = 0x10000"
    using assms(1) by (auto simp: utf8_class_def split: if_splits)
  then show ?thesis
  proof cases
    case 1
    have "unat c = 192 + m" using 1 div_mult_mod_eq [of "unat c" 32] by simp
    then have c: "c = of_nat (192 + n div 64)" using assms(2) 1(2) by (metis of_nat_unat_word power_one_right)
    have "n div 64 < 32" using assms(2) 1(2,3) by simp
    then have "n < 0x800" by simp
    then show ?thesis using c 1 assms(3) by (simp add: utf8_eq_rest del: of_nat_add)
  next
    case 2
    have "unat c = 224 + m" using 2 div_mult_mod_eq [of "unat c" 16] by simp
    then have c: "c = of_nat (224 + n div 4096)" using assms(2) 2(2) of_nat_unat_word [of c] by simp
    have "n div 4096 < 16" using assms(2) 2(2,3) by simp
    then have "n < 0x10000" by simp
    then show ?thesis using c 2 assms(3) by (simp add: utf8_eq_rest del: of_nat_add)
  next
    case 3
    have "unat c = 240 + m" using 3 div_mult_mod_eq [of "unat c" 8] by simp
    then have c: "c = of_nat (240 + n div 262144)" using assms(2) 3(2) of_nat_unat_word [of c] by simp
    then show ?thesis using c 3 assms(3) by (simp add: utf8_eq_rest del: of_nat_add)
  qed
qed

lemma low_bits_of_nat:
  "ucast (c AND 0x1F :: u8) = (of_nat (unat c mod 32) :: u32)"
  "ucast (c AND 0x0F :: u8) = (of_nat (unat c mod 16) :: u32)"
  "ucast (c AND 0x07 :: u8) = (of_nat (unat c mod 8) :: u32)"
  by (simp_all flip: unat_and_low)

lemma cbs_get_utf8_eq:
  "cbs_get_utf8 cbs =
     on_success (CBS_get_u8 cbs) (\<lambda>c cbs1.
       if unat c < 128 then (Some (of_nat (unat c)), cbs1)
       else
         case utf8_class (unat c) of
           None \<Rightarrow> (None, cbs1)
         | Some (k, m, lo) \<Rightarrow>
             on_success (utf8_tail k (of_nat m) cbs1) (\<lambda>v cbs2.
               if \<not> code_point (unat v) \<or> unat v < lo then (None, cbs2) else (Some v, cbs2)))"
proof -
  have le: "c \<le> 0x7f \<longleftrightarrow> unat c < 128" for c :: u8
    by (simp add: word_le_nat_alt) linarith
  show ?thesis
    unfolding cbs_get_utf8_def bits_values lead_byte_iff is_valid_code_point_iff le word_less_nat_alt utf8_class_def
      low_bits_of_nat
    by (rule arg_cong [where f = "on_success (CBS_get_u8 cbs)"]) (rule ext, rule ext, simp)
qed

lemma utf8_class_room:
  assumes "utf8_class b = Some (k, m, lo)"
  shows "(m + 1) * 64 ^ k \<le> 2 ^ 32" "m < 2 ^ 32"
proof -
  have "b mod 32 < 32" "b mod 16 < 16" "b mod 8 < 8" by simp_all
  then have "(k, m) = (1, b mod 32) \<and> b mod 32 < 32 \<or> (k, m) = (2, b mod 16) \<and> b mod 16 < 16 \<or>
      (k, m) = (3, b mod 8) \<and> b mod 8 < 8"
    using assms by (auto simp: utf8_class_def split: if_splits)
  then show "(m + 1) * 64 ^ k \<le> 2 ^ 32" "m < 2 ^ 32" by auto
qed

lemma cbs_get_utf8_sound:
  assumes "cbs_ok c" "cbs_get_utf8 c = (Some v, c')"
  shows "code_point (unat v) \<and> cbs_bytes c = utf8 (unat v) @ cbs_bytes c' \<and> c' = cbs_adv (length (utf8 (unat v))) c"
proof -
  obtain b c1 where b: "CBS_get_u8 c = (Some b, c1)"
    using assms(2) unfolding cbs_get_utf8_eq by (rule on_success_SomeE)
  have bytes: "cbs_bytes c = b # cbs_bytes c1" "c1 = cbs_adv 1 c"
    using cbs_get_u8_SomeD [OF assms(1) b] by blast+
  note run = assms(2) [unfolded cbs_get_utf8_eq b on_success_simps]
  show ?thesis
  proof (cases "unat b < 128")
    case True
    then have v: "v = of_nat (unat b)" "c' = c1" using run by simp_all
    then have u: "unat v = unat b" by simp
    show ?thesis
      using True bytes(1) unfolding u v(2) bytes(2) by (simp add: utf8_def code_point_def)
  next
    case False
    then obtain k m lo where cl: "utf8_class (unat b) = Some (k, m, lo)"
      using run by (auto split: option.splits)
    note room = utf8_class_room [OF cl]
    have um: "unat (of_nat m :: u32) = m" using room(2) by (simp add: unat_of_nat)
    have t: "utf8_tail k (of_nat m) c1 = (Some v, c')" and v: "code_point (unat v)" "lo \<le> unat v"
      using run False cl by (auto simp: on_success_Some_iff split: if_splits)
    have "cbs_ok c1" using assms(1) bytes(2) by simp
    from utf8_tail_sound [OF this t] room(1)
    have tail: "cbs_bytes c1 = utf8_rest k (unat v) @ cbs_bytes c'" "c' = cbs_adv k c1" "unat v div 64 ^ k = m"
      unfolding um by blast+
    have "utf8 (unat v) = b # utf8_rest k (unat v)"
      using utf8_classD [OF cl tail(3) v(2)] .
    then show ?thesis
      using v(1) unfolding bytes(1) tail(1) unfolding tail(2) bytes(2) by simp
  qed
qed

lemma utf8_lead:
  assumes "0x80 \<le> n" "n \<le> 0x10ffff"
  obtains b k lo where "utf8 n = b # utf8_rest k n" "utf8_class (unat b) = Some (k, n div 64 ^ k, lo)" "lo \<le> n"
    "\<not> unat b < 128"
proof -
  note found = that
  consider "n < 0x800" | "0x800 \<le> n" "n < 0x10000" | "0x10000 \<le> n" by linarith
  then show ?thesis
  proof cases
    case 1
    then have x: "n div 64 < 32" by simp
    then have b: "unat (of_nat (192 + n div 64) :: u8) = 192 + n div 64" by (subst unat_of_nat_u8_less) linarith+
    have "(192 + n div 64) div 32 = 6" "(192 + n div 64) mod 32 = n div 64"
      using x by (simp_all add: div_add1_eq mod_add_eq flip: mod_add_eq)
    then show ?thesis
      using 1 assms(1) by (intro found [of "of_nat (192 + n div 64)" 1 "0x80"]) (simp_all only: b, simp_all add: utf8_eq_rest utf8_class_def)
  next
    case 2
    then have x: "n div 4096 < 16" by simp
    then have b: "unat (of_nat (224 + n div 4096) :: u8) = 224 + n div 4096" by (subst unat_of_nat_u8_less) linarith+
    have "(224 + n div 4096) div 32 = 7" "(224 + n div 4096) div 16 = 14" "(224 + n div 4096) mod 16 = n div 4096"
      using x by (simp_all add: div_nat_eqI) (simp add: mod_add_eq flip: mod_add_eq)
    then show ?thesis
      using 2 by (intro found [of "of_nat (224 + n div 4096)" 2 "0x800"]) (simp_all only: b, simp_all add: utf8_eq_rest utf8_class_def)
  next
    case 3
    then have x: "n div 262144 < 8" using assms(2) by simp
    then have b: "unat (of_nat (240 + n div 262144) :: u8) = 240 + n div 262144" by (subst unat_of_nat_u8_less) linarith+
    have "(240 + n div 262144) div 32 = 7" "(240 + n div 262144) div 16 = 15" "(240 + n div 262144) div 8 = 30"
      "(240 + n div 262144) mod 8 = n div 262144"
      using x by (simp_all add: div_nat_eqI) (simp add: mod_add_eq flip: mod_add_eq)
    then show ?thesis
      using 3 by (intro found [of "of_nat (240 + n div 262144)" 3 "0x10000"]) (simp_all only: b, simp_all add: utf8_eq_rest utf8_class_def)
  qed
qed

lemma cbs_get_utf8_complete:
  assumes "cbs_ok c" "cbs_bytes c = utf8 n @ rest" "code_point n"
  shows "cbs_get_utf8 c = (Some (of_nat n), cbs_adv (length (utf8 n)) c)"
proof (cases "n < 128")
  case True
  then have "CBS_get_u8 c = (Some (of_nat n), cbs_adv 1 c)"
    using assms by (intro cbs_get_u8_bytes) (auto simp: utf8_def)
  moreover have "unat (of_nat n :: u8) = n" using True by (simp add: unat_of_nat)
  ultimately show ?thesis
    using True by (simp only: cbs_get_utf8_eq on_success_simps) (simp add: utf8_def)
next
  case False
  then obtain b k lo where b: "utf8 n = b # utf8_rest k n" "utf8_class (unat b) = Some (k, n div 64 ^ k, lo)" "lo \<le> n"
    "\<not> unat b < 128"
    using assms(3) by (auto simp: code_point_def intro: utf8_lead [of n])
  have n: "n < 2 ^ 32" using assms(3) by (simp add: code_point_def)
  then have un: "unat (of_nat n :: u32) = n" by (simp add: unat_of_nat)
  have get: "CBS_get_u8 c = (Some b, cbs_adv 1 c)"
    using assms(1,2) b(1) by (intro cbs_get_u8_bytes) auto
  have "utf8_tail k (of_nat (n div 64 ^ k)) (cbs_adv 1 c) = (Some (of_nat n), cbs_adv k (cbs_adv 1 c))"
    using assms(1,2) b(1) n utf8_class_room(2) [OF b(2)]
    by (intro utf8_tail_complete [where rest = rest]) (simp_all add: unat_of_nat)
  then show ?thesis
    using b(2-4) assms(3) un unfolding cbs_get_utf8_eq get b(1) by simp
qed

section \<open>Writing UTF-8\<close>

lemma byte_arg_or:
  assumes "unat y < 2 ^ k" "unat x * 2 ^ k + unat y < 2 ^ 32"
  shows "byte_arg (push_bit k x OR y) = of_nat (unat x * 2 ^ k + unat y)"
proof -
  have "unat (push_bit k x OR y) = unat x * 2 ^ k + unat y"
    using assms by (intro unat_push_bit_or) simp_all
  moreover have "ucast w = (of_nat (unat w) :: u8)" for w :: u32 by simp
  ultimately show ?thesis
    unfolding byte_arg_def by metis
qed

lemma u8_arg_bits:
  "ucast (TOP_BITS 1) = (push_bit 6 2 :: u32)" "ucast (TOP_BITS 2) = (push_bit 6 3 :: u32)"
  "ucast (TOP_BITS 3) = (push_bit 5 7 :: u32)" "ucast (TOP_BITS 4) = (push_bit 4 15 :: u32)"
  "ucast (BOTTOM_BITS 6) = (mask 6 :: u32)"
  by code_simp+

lemma utf8_bytes:
  "byte_arg (ucast (TOP_BITS 1) OR (drop_bit i u AND ucast (BOTTOM_BITS 6))) = of_nat (128 + unat u div 2 ^ i mod 64)"
  "unat u < 0x800 \<Longrightarrow> byte_arg (ucast (TOP_BITS 2) OR drop_bit 6 u) = of_nat (192 + unat u div 64)"
  "unat u < 0x10000 \<Longrightarrow> byte_arg (ucast (TOP_BITS 3) OR drop_bit 12 u) = of_nat (224 + unat u div 4096)"
  "unat u < 0x110000 \<Longrightarrow> byte_arg (ucast (TOP_BITS 4) OR drop_bit 18 u) = of_nat (240 + unat u div 262144)"
proof -
  have "unat (drop_bit i u AND mask 6) = unat u div 2 ^ i mod 64" by (simp add: unat_and_mask unat_drop_bit)
  moreover have "unat u div 2 ^ i mod 64 < 64" by simp
  ultimately show "byte_arg (ucast (TOP_BITS 1) OR (drop_bit i u AND ucast (BOTTOM_BITS 6))) = of_nat (128 + unat u div 2 ^ i mod 64)"
    unfolding u8_arg_bits by (subst byte_arg_or) (simp_all del: of_nat_add)
  show "unat u < 0x800 \<Longrightarrow> byte_arg (ucast (TOP_BITS 2) OR drop_bit 6 u) = of_nat (192 + unat u div 64)"
    unfolding u8_arg_bits by (subst byte_arg_or) (simp_all add: unat_drop_bit del: of_nat_add)
  show "unat u < 0x10000 \<Longrightarrow> byte_arg (ucast (TOP_BITS 3) OR drop_bit 12 u) = of_nat (224 + unat u div 4096)"
    unfolding u8_arg_bits by (subst byte_arg_or) (simp_all add: unat_drop_bit del: of_nat_add)
  show "unat u < 0x110000 \<Longrightarrow> byte_arg (ucast (TOP_BITS 4) OR drop_bit 18 u) = of_nat (240 + unat u div 262144)"
    unfolding u8_arg_bits by (subst byte_arg_or) (simp_all add: unat_drop_bit del: of_nat_add)
qed

text \<open>Bytes written one after another are written as one string.\<close>

lemma refines_write_byte:
  assumes "heap_ok h" "cbb_rel c fs" "d < length fs" "v = b"
    and "\<And>c1 fs1. cbb_rel c1 fs1 \<Longrightarrow> length fs1 = Suc d \<Longrightarrow> refines c1 (g c1) (abs_write d y fs1)"
  shows "refines c (on_success (CBB_add_u8 h c d v) (\<lambda>_. g)) (abs_write d (b # y) fs)"
  using refines_write_seq [OF CBB_add_u8_refines [OF assms(1-3)] assms(3), of _ "\<lambda>_. g"] assms(4,5) by simp

lemma cbb_add_utf8_refines:
  assumes "heap_ok h" "cbb_rel c fs" "d < length fs" "code_point (unat u)"
  shows "refines c (cbb_add_utf8 h c d u) (abs_write d (utf8 (unat u)) fs)"
proof -
  have valid: "is_valid_code_point u" using assms(4) by (simp add: is_valid_code_point_iff)
  have le: "unat u < 0x110000" using assms(4) by (simp add: code_point_def)
  have z: "drop_bit 0 u = u" by simp
  have last: "byte_arg (ucast (TOP_BITS 1) OR (u AND ucast (BOTTOM_BITS 6))) = of_nat (128 + unat u mod 64)"
    using utf8_bytes(1) [of 0 u] unfolding z by simp
  have mid: "byte_arg (ucast (TOP_BITS 1) OR (drop_bit 6 u AND ucast (BOTTOM_BITS 6))) = of_nat (128 + unat u div 64 mod 64)"
    "byte_arg (ucast (TOP_BITS 1) OR (drop_bit 12 u AND ucast (BOTTOM_BITS 6))) = of_nat (128 + unat u div 4096 mod 64)"
    using utf8_bytes(1) [of 6 u] utf8_bytes(1) [of 12 u] by simp_all
  have range: "u \<le> 0x7f \<longleftrightarrow> unat u < 0x80" "u \<le> 0x7ff \<longleftrightarrow> unat u < 0x800" "u \<le> 0xffff \<longleftrightarrow> unat u < 0x10000"
    "u \<le> 0x10ffff"
    using le by (simp_all add: word_le_nat_alt less_Suc_eq_le) linarith+
  note u8 = CBB_add_u8_refines [OF assms(1)]
  consider "unat u < 0x80" | "\<not> unat u < 0x80" "unat u < 0x800" | "\<not> unat u < 0x800" "unat u < 0x10000" "\<not> unat u < 0x80"
    | "\<not> unat u < 0x10000" "\<not> unat u < 0x80" "\<not> unat u < 0x800"
    by linarith
  then show ?thesis
  proof cases
    case 1
    then have "cbb_add_utf8 h c d u = CBB_add_u8 h c d (of_nat (unat u))"
      using valid by (simp only: cbb_add_utf8_def range byte_arg_def) simp
    then show ?thesis using u8 [OF assms(2,3)] 1 by (simp only: utf8_def if_True)
  next
    case 2
    show ?thesis
      using 2 valid unfolding cbb_add_utf8_def range utf8_def last utf8_bytes(2) [OF 2(2)]
      by (simp only: not_True_eq_False if_False if_True) (intro refines_write_byte [OF assms(1)] u8 assms(2,3) refl, simp_all)
  next
    case 3
    show ?thesis
      using 3 valid unfolding cbb_add_utf8_def range utf8_def last mid utf8_bytes(3) [OF 3(2)]
      by (simp only: not_True_eq_False if_False if_True) (intro refines_write_byte [OF assms(1)] u8 assms(2,3) refl, simp_all)
  next
    case 4
    show ?thesis
      using 4 valid range(4) unfolding cbb_add_utf8_def range(1-3) utf8_def last mid utf8_bytes(4) [OF le]
      by (simp only: not_True_eq_False if_False if_True) (intro refines_write_byte [OF assms(1)] u8 assms(2,3) refl, simp_all)
  qed
qed

lemma cbb_get_utf8_len_eq: "cbb_get_utf8_len u = length (utf8 (unat u))"
  by (simp add: cbb_get_utf8_len_def utf8_def word_le_nat_alt)

section \<open>The interface of a text encoding\<close>

text \<open>
  What a caller needs of an encoding: a reader and a writer of single code points that agree with
  the encoding \<open>enc\<close> of the code points satisfying \<open>ok\<close>.
\<close>

locale text_encoding =
  fixes enc :: "nat \<Rightarrow> u8 list"
    and ok :: "nat \<Rightarrow> bool"
    and get :: "CBS \<Rightarrow> u32 option \<times> CBS"
    and put :: "heap \<Rightarrow> CBB \<Rightarrow> nat \<Rightarrow> u32 \<Rightarrow> unit option \<times> CBB"
  assumes get_sound: "\<lbrakk>cbs_ok c; get c = (Some v, c')\<rbrakk> \<Longrightarrow>
      ok (unat v) \<and> cbs_bytes c = enc (unat v) @ cbs_bytes c' \<and> c' = cbs_adv (length (enc (unat v))) c"
    and get_complete: "\<lbrakk>cbs_ok c; cbs_bytes c = enc n @ rest; ok n\<rbrakk> \<Longrightarrow>
      get c = (Some (of_nat n), cbs_adv (length (enc n)) c)"
    and put_refines: "\<lbrakk>heap_ok h; cbb_rel b fs; d < length fs; ok (unat u)\<rbrakk> \<Longrightarrow>
      refines b (put h b d u) (abs_write d (enc (unat u)) fs)"
    and put_rejects: "\<not> ok (unat u) \<Longrightarrow> put h b d u = (None, b)"
    and ok_code_point: "ok n \<Longrightarrow> code_point n"
    and enc_nonempty: "enc n \<noteq> []"

lemma unat_code_point: "code_point n \<Longrightarrow> unat (of_nat n :: u32) = n"
  by (simp add: code_point_def unat_of_nat)

lemma put_invalid_utf8: "\<not> code_point (unat u) \<Longrightarrow> cbb_add_utf8 h b d u = (None, b)"
  by (simp add: cbb_add_utf8_def is_valid_code_point_iff)

interpretation utf8_text: text_encoding utf8 code_point cbs_get_utf8 cbb_add_utf8
proof
  show "utf8 n \<noteq> []" for n by (simp add: utf8_def)
qed (use cbs_get_utf8_sound cbs_get_utf8_complete cbb_add_utf8_refines put_invalid_utf8 in blast)+

definition latin1_ok :: "nat \<Rightarrow> bool" where "latin1_ok n \<longleftrightarrow> n \<le> 0xff"

definition latin1 :: "nat \<Rightarrow> u8 list" where "latin1 n = [of_nat n]"

interpretation latin1_text: text_encoding latin1 latin1_ok cbs_get_latin1 cbb_add_latin1
proof
  fix c c' :: CBS and v
  assume "cbs_ok c" "cbs_get_latin1 c = (Some v, c')"
  then obtain b where b: "CBS_get_u8 c = (Some b, c')" "v = ucast b"
    by (auto simp: cbs_get_latin1_def on_success_Some_iff)
  have f: "cbs_bytes c = b # cbs_bytes c'" "c' = cbs_adv 1 c"
    using cbs_get_u8_SomeD [OF \<open>cbs_ok c\<close> b(1)] by blast+
  have l: "latin1 (unat v) = [b]" by (simp add: b(2) latin1_def)
  have "unat b \<le> 255" using unat_u8_less [of b] by linarith
  then have "latin1_ok (unat v)" by (simp add: b(2) latin1_ok_def)
  moreover have "cbs_bytes c = latin1 (unat v) @ cbs_bytes c'" unfolding l using f(1) by (simp only: append_Cons append_Nil)
  moreover have "c' = cbs_adv (length (latin1 (unat v))) c" unfolding l using f(2) by (simp only: list.size One_nat_def add_0)
  ultimately show "latin1_ok (unat v) \<and> cbs_bytes c = latin1 (unat v) @ cbs_bytes c' \<and> c' = cbs_adv (length (latin1 (unat v))) c"
    by blast
next
  fix c :: CBS and n rest
  assume "cbs_ok c" "cbs_bytes c = latin1 n @ rest" "latin1_ok n"
  then have "CBS_get_u8 c = (Some (of_nat n), cbs_adv 1 c)"
    by (intro cbs_get_u8_bytes) (simp_all add: latin1_def)
  moreover have n: "n < 256" using \<open>latin1_ok n\<close> by (simp add: latin1_ok_def)
  moreover have "ucast (of_nat n :: u8) = (of_nat n :: u32)"
    using n by (simp add: word_unat_eq_iff unat_of_nat)
  ultimately show "cbs_get_latin1 c = (Some (of_nat n), cbs_adv (length (latin1 n)) c)"
    by (simp add: cbs_get_latin1_def latin1_def)
next
  fix h b fs d and u :: u32
  assume a: "heap_ok h" "cbb_rel b fs" "d < length fs" "latin1_ok (unat u)"
  have "ucast u = (of_nat (unat u) :: u8)" by simp
  then show "refines b (cbb_add_latin1 h b d u) (abs_write d (latin1 (unat u)) fs)"
    using a CBB_add_u8_refines [OF a(1-3), of "ucast u"]
    by (simp add: cbb_add_latin1_def latin1_def latin1_ok_def word_le_nat_alt)
next
  show "latin1 n \<noteq> []" for n by (simp add: latin1_def)
  show "latin1_ok n \<Longrightarrow> code_point n" for n by (simp add: latin1_ok_def code_point_def)
  show "\<not> latin1_ok (unat u) \<Longrightarrow> cbb_add_latin1 h b d u = (None, b)" for u h b d
    by (simp add: cbb_add_latin1_def latin1_ok_def word_le_nat_alt)
qed

text \<open>Big-endian code units.\<close>

lemma fixed_units:
  assumes "cbs_ok c" "k \<le> cbs_len c"
  shows "cbs_bytes c = be_bytes k (be_val (take k (cbs_bytes c))) @ cbs_bytes (cbs_adv k c)"
proof -
  have "length (take k (cbs_bytes c)) = k" using assms by simp
  then have "be_bytes k (be_val (take k (cbs_bytes c))) = take k (cbs_bytes c)"
    using be_bytes_be_val [of "take k (cbs_bytes c)"] by simp
  then show ?thesis by simp
qed

lemma fixed_units_read:
  assumes "cbs_ok c" "cbs_bytes c = be_bytes k n @ rest" "n < 256 ^ k"
  shows "k \<le> cbs_len c" "be_val (take k (cbs_bytes c)) = n"
proof -
  have "length (cbs_bytes c) = k + length rest" using assms(2) by simp
  then show "k \<le> cbs_len c" using assms(1) by simp
  show "be_val (take k (cbs_bytes c)) = n" using assms(2,3) by (simp add: be_val_be_bytes)
qed

definition ucs2_ok :: "nat \<Rightarrow> bool" where "ucs2_ok n \<longleftrightarrow> code_point n \<and> n \<le> 0xffff"

interpretation ucs2_text: text_encoding "be_bytes 2" ucs2_ok cbs_get_ucs2_be cbb_add_ucs2_be
proof
  fix c c' :: CBS and v
  assume "cbs_ok c" "cbs_get_ucs2_be c = (Some v, c')"
  then have "2 \<le> cbs_len c" and v: "v = ucast (of_nat (be_val (take 2 (cbs_bytes c))) :: u16)" "c' = cbs_adv 2 c"
    and "is_valid_code_point v"
    by (auto simp: cbs_get_ucs2_be_def on_success_Some_iff CBS_get_ints_eq split: if_splits)
  have "be_val (take 2 (cbs_bytes c)) < 256 ^ 2" by (rule be_val_take_less) simp
  then have u: "unat v = be_val (take 2 (cbs_bytes c))" "unat v \<le> 0xffff"
    unfolding v(1) by (simp_all add: unsigned_ucast_eq unat_of_nat take_bit_nat_eq_self)
  show "ucs2_ok (unat v) \<and> cbs_bytes c = be_bytes 2 (unat v) @ cbs_bytes c' \<and> c' = cbs_adv (length (be_bytes 2 (unat v))) c"
    using fixed_units [OF \<open>cbs_ok c\<close> \<open>2 \<le> cbs_len c\<close>] \<open>is_valid_code_point v\<close> u(2) v(2)
    unfolding u(1) [symmetric] by (simp add: ucs2_ok_def is_valid_code_point_iff)
next
  fix c :: CBS and n rest
  assume c: "cbs_ok c" "cbs_bytes c = be_bytes 2 n @ rest" and n: "ucs2_ok n"
  have "n < 256 ^ 2" using n by (simp add: ucs2_ok_def)
  note r = fixed_units_read [OF c this]
  have "ucast (of_nat n :: u16) = (of_nat n :: u32)"
    using n by (simp add: word_unat_eq_iff unsigned_ucast_eq unat_of_nat take_bit_nat_eq_self ucs2_ok_def)
  then show "cbs_get_ucs2_be c = (Some (of_nat n), cbs_adv (length (be_bytes 2 n)) c)"
    using r n by (simp add: cbs_get_ucs2_be_def CBS_get_ints_eq is_valid_code_point_iff ucs2_ok_def unat_code_point)
next
  fix h b fs d and u :: u32
  assume a: "heap_ok h" "cbb_rel b fs" "d < length fs" "ucs2_ok (unat u)"
  have "unat (ucast u :: u16) = unat u"
    using a(4) by (simp add: unsigned_ucast_eq take_bit_nat_eq_self ucs2_ok_def)
  then show "refines b (cbb_add_ucs2_be h b d u) (abs_write d (be_bytes 2 (unat u)) fs)"
    using a CBB_add_ints_refine(1) [OF a(1-3), of "ucast u"]
    by (simp add: cbb_add_ucs2_be_def ucs2_ok_def word_le_nat_alt is_valid_code_point_iff del: be_bytes.simps)
next
  show "be_bytes 2 n \<noteq> []" for n using length_be_bytes [of 2 n] by (metis list.size(3) zero_neq_numeral)
  show "ucs2_ok n \<Longrightarrow> code_point n" for n by (simp add: ucs2_ok_def)
  show "\<not> ucs2_ok (unat u) \<Longrightarrow> cbb_add_ucs2_be h b d u = (None, b)" for u h b d
    by (auto simp: cbb_add_ucs2_be_def ucs2_ok_def word_le_nat_alt is_valid_code_point_iff)
qed

interpretation utf32_text: text_encoding "be_bytes 4" code_point cbs_get_utf32_be cbb_add_utf32_be
proof
  fix c c' :: CBS and v
  assume "cbs_ok c" "cbs_get_utf32_be c = (Some v, c')"
  then have "4 \<le> cbs_len c" and v: "v = of_nat (be_val (take 4 (cbs_bytes c)))" "c' = cbs_adv 4 c"
    and "is_valid_code_point v"
    by (auto simp: cbs_get_utf32_be_def on_success_Some_iff CBS_get_ints_eq split: if_splits)
  have "be_val (take 4 (cbs_bytes c)) < 256 ^ 4" by (rule be_val_take_less) simp
  then have u: "unat v = be_val (take 4 (cbs_bytes c))"
    unfolding v(1) by (simp add: unat_of_nat)
  show "code_point (unat v) \<and> cbs_bytes c = be_bytes 4 (unat v) @ cbs_bytes c' \<and> c' = cbs_adv (length (be_bytes 4 (unat v))) c"
    using fixed_units [OF \<open>cbs_ok c\<close> \<open>4 \<le> cbs_len c\<close>] \<open>is_valid_code_point v\<close> v(2)
    unfolding u(1) [symmetric] by (simp add: is_valid_code_point_iff)
next
  fix c :: CBS and n rest
  assume c: "cbs_ok c" "cbs_bytes c = be_bytes 4 n @ rest" and n: "code_point n"
  have "n < 256 ^ 4" using n by (simp add: code_point_def)
  note r = fixed_units_read [OF c this]
  then show "cbs_get_utf32_be c = (Some (of_nat n), cbs_adv (length (be_bytes 4 n)) c)"
    using n by (simp add: cbs_get_utf32_be_def CBS_get_ints_eq is_valid_code_point_iff unat_code_point)
next
  fix h b fs d and u :: u32
  assume a: "heap_ok h" "cbb_rel b fs" "d < length fs" "code_point (unat u)"
  then show "refines b (cbb_add_utf32_be h b d u) (abs_write d (be_bytes 4 (unat u)) fs)"
    using CBB_add_ints_refine(2) [OF a(1-3), of u]
    by (simp add: cbb_add_utf32_be_def is_valid_code_point_iff del: be_bytes.simps)
next
  show "be_bytes 4 n \<noteq> []" for n using length_be_bytes [of 4 n] by (metis list.size(3) zero_neq_numeral)
  show "\<not> code_point (unat u) \<Longrightarrow> cbb_add_utf32_be h b d u = (None, b)" for u h b d
    by (simp add: cbb_add_utf32_be_def is_valid_code_point_iff)
qed simp

section \<open>Whole texts\<close>

context text_encoding
begin

lemma ok_unat: "ok n \<Longrightarrow> unat (of_nat n :: u32) = n"
  by (rule unat_code_point [OF ok_code_point])

lemma get_step:
  "\<lbrakk>cbs_ok c; get c = (Some v, c')\<rbrakk> \<Longrightarrow> ok (unat v) \<and> cbs_bytes c = enc (unat v) @ cbs_bytes c' \<and> cbs_ok c'"
  using get_sound by (metis cbs_ok_adv)

lemma get_less: "\<lbrakk>cbs_ok c; get c = (Some v, c')\<rbrakk> \<Longrightarrow> cbs_ok c' \<and> length (cbs_bytes c') < length (cbs_bytes c)"
  using get_sound [of c v c'] enc_nonempty [of "unat v"] by (metis cbs_ok_adv length_append length_greater_0_conv less_add_same_cancel2)

text \<open>An encoded text determines its code points.\<close>

lemma get_head:
  assumes "cbs_ok c" "cbs_bytes c = concat (map enc (n # ns))" "ok n"
  shows "get c = (Some (of_nat n), cbs_adv (length (enc n)) c)"
    "cbs_bytes (cbs_adv (length (enc n)) c) = concat (map enc ns)"
  using assms by (auto intro: get_complete)

text \<open>A text that does not start with an encoded code point is rejected.\<close>

lemma get_reject:
  assumes "cbs_ok c" "\<nexists>ns. (\<forall>n\<in>set ns. ok n) \<and> cbs_bytes c = concat (map enc ns)"
  shows "case get c of
      (None, _) \<Rightarrow> True
    | (Some v, c') \<Rightarrow> \<nexists>ns. (\<forall>n\<in>set ns. ok n) \<and> cbs_bytes c' = concat (map enc ns)"
proof (cases "get c")
  case (Pair r c')
  show ?thesis
  proof (cases r)
    case (Some v)
    then have s: "ok (unat v)" "cbs_bytes c = enc (unat v) @ cbs_bytes c'"
      using get_sound [OF assms(1)] Pair by blast+
    have "(\<forall>n\<in>set (unat v # ns). ok n) \<and> cbs_bytes c = concat (map enc (unat v # ns))"
      if "\<forall>n\<in>set ns. ok n" "cbs_bytes c' = concat (map enc ns)" for ns
      using s that by simp
    then have "\<nexists>ns. (\<forall>n\<in>set ns. ok n) \<and> cbs_bytes c' = concat (map enc ns)"
      using assms(2) by blast
    then show ?thesis by (simp add: Pair Some)
  qed (simp add: Pair)
qed

end

end
