(* ===== verification/Asn1_Properties.thy ===== *)
theory Asn1_Properties
  imports Asn1_Object Asn1_String Unicode
begin

unbundle bit_operations_syntax

text \<open>
  What the older ASN.1 code promises: object headers are read within their bounds and read back
  what was written, they agree with the byte-string library, strings compare as a total order and
  copy completely or not at all, and UTF-8 is decoded exactly.
\<close>

text \<open>
  C23: \<open>ASN1_get_object\<close> never reads outside the \<open>omax\<close> bytes it was given. When it succeeds, the
  header lies within them, the length fits an \<open>int\<close>, universal tags stay below the limit; without
  the error bit the contents lie within \<open>omax\<close> too, and an indefinite length is only reported for
  a constructed object.
\<close>

theorem ASN1_get_object_stays_in_bounds:
  assumes "0 \<le> omax" "omax \<le> int (length p)"
  shows "case ASN1_get_object p omax of
      Past_end \<Rightarrow> False
    | Bad \<Rightarrow> True
    | Got h \<Rightarrow> int (obj_used h) \<le> omax \<and> 0 < obj_used h \<and> obj_length h \<le> 1073741823 \<and> obj_tag h < 2 ^ 31 \<and>
       (obj_class h = 0 \<longrightarrow> obj_tag h \<le> 255) \<and>
       (obj_ret h AND 0x80 = 0 \<longrightarrow> int (obj_used h) + int (obj_length h) \<le> omax) \<and>
       (obj_ret h AND 1 \<noteq> 0 \<longrightarrow> obj_ret h AND 0x20 \<noteq> 0)"
  using ASN1_get_object_safe [OF assms] unfolding in_bounds_def .

theorem ASN1_get_object_stays_in_bounds_witness:
  "ASN1_get_object [0x30, 0x84, 0x10] 3 \<noteq> Past_end"
proof -
  have "(0 :: int) \<le> 3" "3 \<le> int (length [0x30, 0x84, 0x10 :: u8])" by simp_all
  from ASN1_get_object_stays_in_bounds [OF this] show ?thesis by auto
qed

text \<open>
  C24: Round trip of object headers. What \<open>ASN1_put_object\<close> writes, in front of any bytes,
  \<open>ASN1_get_object\<close> reads back: the same tag, class, constructed bit and length, with the cursor
  moved past exactly the bytes written, for every non-negative tag (a universal one below the
  limit) and every length the reader admits.
\<close>

theorem ASN1_object_roundtrip:
  assumes "0 \<le> tag" "tag < 2 ^ 31" "xclass AND 0xc0 = 0 \<Longrightarrow> tag \<le> 255" "constructed \<noteq> 2" "0 \<le> len" "len \<le> 1073741823"
    and "int (length (ASN1_put_object constructed len tag xclass)) + len \<le> omax"
  shows "ASN1_get_object (ASN1_put_object constructed len tag xclass @ rest) omax =
    Got \<lparr>obj_ret = (if constructed \<noteq> 0 then 0x20 else 0), obj_used = length (ASN1_put_object constructed len tag xclass),
         obj_length = nat len, obj_tag = nat tag, obj_class = ucast (xclass AND 0xc0)\<rparr>"
  using assms by (rule get_put_object)

theorem ASN1_object_roundtrip_witness:
  "ASN1_get_object [0xbf, 0x82, 0x2c, 0x81, 0xc8] 300 =
    Got \<lparr>obj_ret = 0x20, obj_used = 5, obj_length = 200, obj_tag = 300, obj_class = 0x80\<rparr>"
proof -
  have put: "ASN1_put_object 1 200 300 0x80 = [0xbf, 0x82, 0x2c, 0x81, 0xc8]" by code_simp
  have c: "(0x80 AND 0xc0 :: u32) = 0x80" by code_simp
  show ?thesis
    using ASN1_object_roundtrip [of 300 "0x80" 1 200 300 "[]"] unfolding put c by simp
qed

text \<open>
  C25: Except for the indefinite form (\<open>constructed\<close> 2), \<open>ASN1_put_object\<close> writes the canonical header
  of the element whose class is bits 8 and 7 of \<open>xclass\<close>, which is constructed when \<open>constructed\<close> is
  not zero and whose number is \<open>tag\<close>, the octets the byte-string builder writes for that tag; and
  \<open>ASN1_object_size\<close> is the number of bytes of the whole object, or -1 when that number does not fit
  below \<open>INT_MAX\<close>. Tag numbers are those the byte-string library can hold.
\<close>

theorem ASN1_put_object_writes_DER:
  assumes "0 \<le> tag" "tag < 2 ^ 29" "constructed \<noteq> 2" "0 \<le> len" "len < 2 ^ 31"
  shows "ASN1_put_object constructed len tag xclass = der_header (obj_tag_word constructed tag xclass) (nat len) \<and>
    ASN1_object_size constructed len tag =
      (let n = int (length (der_header (obj_tag_word constructed tag xclass) (nat len))) + len
       in if n \<ge> 2147483647 then - 1 else n)"
  using ASN1_put_object_der [OF assms] ASN1_object_size_eq [OF assms(4), of constructed tag xclass] assms(3)
  by simp

theorem ASN1_put_object_writes_DER_witness:
  "der_header (obj_tag_word 1 300 0x80) 200 = [0xbf, 0x82, 0x2c, 0x81, 0xc8] \<and> ASN1_object_size 1 200 300 = 205"
proof -
  have put: "ASN1_put_object 1 200 300 0x80 = [0xbf, 0x82, 0x2c, 0x81, 0xc8]" by code_simp
  have w: "ASN1_put_object 1 200 300 0x80 = der_header (obj_tag_word 1 300 0x80) (nat 200) \<and>
      ASN1_object_size 1 200 300 =
        (let n = int (length (der_header (obj_tag_word 1 300 0x80) (nat 200))) + 200
         in if n \<ge> 2147483647 then - 1 else n)"
    by (rule ASN1_put_object_writes_DER) simp_all
  then have d: "der_header (obj_tag_word 1 300 0x80) 200 = [0xbf, 0x82, 0x2c, 0x81, 0xc8]"
    by (simp add: put)
  show ?thesis using w by (simp add: d)
qed

text \<open>
  C26: The two parsers agree. Every element that \<open>CBS_get_any_asn1_element\<close> accepts, with a body
  below the older code's limit and a universal tag below its limit, \<open>ASN1_get_object\<close> reads with the
  same tag number, class and constructed bit, header length and body length.
\<close>

theorem ASN1_get_object_agrees_with_CBS:
  assumes "CBS_get_any_asn1_element c = (Some (out, t, header_len), c')" "cbs_ok c"
    and "cbs_len out - header_len \<le> 1073741823"
    and "unat t mod 2 ^ 29 \<le> 255 \<or> ucast (drop_bit 24 t) AND (0xc0 :: u8) \<noteq> 0"
  shows "ASN1_get_object (cbs_bytes c) (int (cbs_len c)) =
    Got \<lparr>obj_ret = ucast (ucast (drop_bit 24 t) AND (0x20 :: u8)), obj_used = header_len,
         obj_length = cbs_len out - header_len, obj_tag = unat t mod 2 ^ 29, obj_class = ucast (drop_bit 24 t) AND 0xc0\<rparr>"
proof -
  obtain body where body: "cbs_bytes c = der_element t body @ cbs_bytes c'"
    "out = CBS_init (cbs_data c) (length (der_element t body))" "header_len = length (der_header t (length body))"
    using cbs_get_any_asn1_element_sound [OF assms(1) [unfolded CBS_get_any_asn1_element_def] assms(2)] by blast
  have len: "cbs_len out - header_len = length body" unfolding body(2,3) by (simp add: der_element_def)
  have "length (der_element t body) \<le> cbs_len c"
    using arg_cong [OF body(1), of length] assms(2) by simp
  then show ?thesis
    unfolding body(1) len unfolding body(3)
    using assms(3,4) by (intro ASN1_get_object_der) (simp_all add: len)
qed

theorem ASN1_get_object_agrees_with_CBS_witness:
  "ASN1_get_object [0x30, 3, 2, 1, 5, 0x99] 6 =
    Got \<lparr>obj_ret = 0x20, obj_used = 2, obj_length = 3, obj_tag = 16, obj_class = 0\<rparr>"
proof -
  let ?c = "CBS_init [0x30, 3, 2, 1, 5, 0x99] 6"
  have run: "CBS_get_any_asn1_element ?c = (Some (CBS_init [0x30, 3, 2, 1, 5, 0x99] 5, 0x20000010, 2), cbs_adv 5 ?c)"
    by code_simp
  have t: "unat (0x20000010 :: u32) mod 2 ^ 29 = 16" "ucast (drop_bit 24 (0x20000010 :: u32)) = (0x20 :: u8)"
    by code_simp+
  have a: "(0x20 AND 0x20 :: u8) = 0x20" "(0x20 AND 0xc0 :: u8) = 0" by code_simp+
  show ?thesis
    using ASN1_get_object_agrees_with_CBS [OF run] unfolding t a by simp
qed

text \<open>
  On well-formed strings \<open>ASN1_STRING_cmp\<close> is a total order: zero exactly for equal contents and
  type, opposite signs when the arguments are exchanged, and transitive.
\<close>

theorem ASN1_STRING_cmp_total_order:
  assumes "str_ok a" "str_ok b" "str_ok c"
  shows "(ASN1_STRING_cmp a b = 0 \<longleftrightarrow> str_contents a = str_contents b \<and> str_type a = str_type b) \<and>
    (ASN1_STRING_cmp a b < 0 \<longleftrightarrow> 0 < ASN1_STRING_cmp b a) \<and>
    (ASN1_STRING_cmp a b \<le> 0 \<and> ASN1_STRING_cmp b c \<le> 0 \<longrightarrow> ASN1_STRING_cmp a c \<le> 0)"
proof (intro conjI impI)
  show "ASN1_STRING_cmp a b = 0 \<longleftrightarrow> str_contents a = str_contents b \<and> str_type a = str_type b"
    using assms(1,2) by (rule ASN1_STRING_cmp_0_iff)
  show "ASN1_STRING_cmp a b < 0 \<longleftrightarrow> 0 < ASN1_STRING_cmp b a"
    unfolding ASN1_STRING_cmp_flip [of b a] by simp
  show "ASN1_STRING_cmp a b \<le> 0 \<and> ASN1_STRING_cmp b c \<le> 0 \<Longrightarrow> ASN1_STRING_cmp a c \<le> 0"
    using assms ASN1_STRING_cmp_trans by blast
qed

definition string_of :: "u8 list \<Rightarrow> asn1_string" where
  "string_of bs = \<lparr>str_length = int (length bs), str_type = 4, str_data = Some (bs @ [0]), str_flags = 0\<rparr>"

lemma str_ok_string_of: "str_ok (string_of bs)"
  by (simp add: str_ok_def string_of_def str_bytes_def)

theorem ASN1_STRING_cmp_total_order_witness:
  "ASN1_STRING_cmp (string_of [1, 2]) (string_of [1, 3]) \<noteq> 0"
  using ASN1_STRING_cmp_total_order [OF str_ok_string_of [of "[1, 2]"] str_ok_string_of [of "[1, 3]"] str_ok_string_of [of "[]"]]
  by (simp add: string_of_def str_contents_def str_bytes_def)

text \<open>
  \<open>ASN1_STRING_dup\<close> copies completely or not at all: it returns a well-formed string that compares
  equal and has the same flags, and otherwise null, only because the allocator refused the string
  or its contents.
\<close>

theorem ASN1_STRING_dup_all_or_nothing:
  assumes "str_ok s" "str_length s < 2 ^ 31 - 1"
  shows "case ASN1_STRING_dup h (Some s) of
      None \<Rightarrow> False
    | Some None \<Rightarrow> \<not> grants h 32 \<or> \<not> grants h (nat (str_length s) + 9)
    | Some (Some r) \<Rightarrow> str_ok r \<and> ASN1_STRING_cmp r s = 0 \<and> str_flags r = str_flags s"
  using assms by (rule ASN1_STRING_dup_spec)

theorem ASN1_STRING_dup_all_or_nothing_witness:
  "\<exists>r. ASN1_STRING_dup all_grants (Some (string_of [7, 8])) = Some (Some r) \<and> ASN1_STRING_cmp r (string_of [7, 8]) = 0"
proof -
  have "str_length (string_of [7, 8]) = 2" by (simp add: string_of_def)
  moreover have "grants all_grants 32" "grants all_grants 11" by (simp_all add: all_grants_def)
  ultimately show ?thesis
    using ASN1_STRING_dup_all_or_nothing [OF str_ok_string_of, of "[7, 8]" all_grants]
    by (auto split: option.splits)
qed

section \<open>UTF-8\<close>

text \<open>
  C22: \<open>cbs_get_utf8\<close> decodes UTF-8 exactly. It accepts a prefix of the input exactly when that prefix is
  the shortest encoding of a valid code point, returns that code point and moves past it; so
  overlong forms, surrogates, noncharacters, truncated and stray bytes are all rejected.
\<close>

theorem cbs_get_utf8_exact:
  assumes "cbs_ok c"
  shows "case cbs_get_utf8 c of
      (Some v, c') \<Rightarrow> code_point (unat v) \<and> cbs_bytes c = utf8 (unat v) @ cbs_bytes c' \<and>
        c' = cbs_adv (length (utf8 (unat v))) c \<and> length (utf8 (unat v)) = cbb_get_utf8_len v
    | (None, _) \<Rightarrow> \<nexists>n rest. code_point n \<and> cbs_bytes c = utf8 n @ rest"
proof (cases "cbs_get_utf8 c")
  case (Pair r c')
  show ?thesis
  proof (cases r)
    case None
    then show ?thesis
      using cbs_get_utf8_complete [OF assms] Pair by auto
  next
    case (Some v)
    have "code_point (unat v) \<and> cbs_bytes c = utf8 (unat v) @ cbs_bytes c' \<and> c' = cbs_adv (length (utf8 (unat v))) c"
      using cbs_get_utf8_sound [OF assms] Pair Some by blast
    then show ?thesis
      unfolding Pair Some prod.case option.case cbb_get_utf8_len_eq by blast
  qed
qed

theorem cbs_get_utf8_exact_witness:
  "fst (cbs_get_utf8 (CBS_init [0xE2, 0x82, 0xAC, 0x21] 4)) = Some 0x20AC \<and>
   (\<nexists>n rest. code_point n \<and> [0xC0, 0x80] = utf8 n @ rest)"
proof -
  have cp: "code_point 0x20AC" "utf8 0x20AC = [0xE2, 0x82, 0xAC]" by code_simp+
  have ok: "cbs_ok (CBS_init [0xE2, 0x82, 0xAC, 0x21] 4)" "cbs_ok (CBS_init [0xC0, 0x80] 2)" by simp_all
  have euro: "cbs_get_utf8 (CBS_init [0xE2, 0x82, 0xAC, 0x21] 4) = (Some 0x20AC, cbs_adv 3 (CBS_init [0xE2, 0x82, 0xAC, 0x21] 4))"
    by code_simp
  have overlong: "fst (cbs_get_utf8 (CBS_init [0xC0, 0x80] 2)) = None" by code_simp
  then obtain c' where "cbs_get_utf8 (CBS_init [0xC0, 0x80] 2) = (None, c')" by (metis prod.collapse)
  then have "\<nexists>n rest. code_point n \<and> cbs_bytes (CBS_init [0xC0, 0x80] 2) = utf8 n @ rest"
    using cbs_get_utf8_exact [OF ok(2)] by simp
  then show ?thesis using euro by simp
qed

end
