(* ===== verification/Mbstring.thy ===== *)
theory Mbstring
  imports Unicode Asn1_String
begin

unbundle bit_operations_syntax

text \<open>
  \<open>ASN1_mbstring_ncopy\<close> of \<open>crypto/asn1/a_mbstr.c\<close>: it decodes a text in one of four encodings,
  chooses the smallest permitted string type that can hold it, and stores it re-encoded.
\<close>

section \<open>Definitions\<close>

definition MBSTRING_UTF8 :: u32 where "MBSTRING_UTF8 = 0x1000"
definition MBSTRING_ASC :: u32 where "MBSTRING_ASC = 0x1001"
definition MBSTRING_BMP :: u32 where "MBSTRING_BMP = 0x1002"
definition MBSTRING_UNIV :: u32 where "MBSTRING_UNIV = 0x1004"

definition B_ASN1_PRINTABLESTRING :: u64 where "B_ASN1_PRINTABLESTRING = 0x0002"
definition B_ASN1_T61STRING :: u64 where "B_ASN1_T61STRING = 0x0004"
definition B_ASN1_IA5STRING :: u64 where "B_ASN1_IA5STRING = 0x0010"
definition B_ASN1_UNIVERSALSTRING :: u64 where "B_ASN1_UNIVERSALSTRING = 0x0100"
definition B_ASN1_BMPSTRING :: u64 where "B_ASN1_BMPSTRING = 0x0800"
definition B_ASN1_UTF8STRING :: u64 where "B_ASN1_UTF8STRING = 0x2000"

definition DIRSTRING_TYPE :: u64 where
  "DIRSTRING_TYPE = B_ASN1_PRINTABLESTRING OR B_ASN1_T61STRING OR B_ASN1_BMPSTRING OR B_ASN1_UTF8STRING"

lemmas mb_consts = MBSTRING_UTF8_def MBSTRING_ASC_def MBSTRING_BMP_def MBSTRING_UNIV_def

text \<open>The reasons the code puts on the error queue.\<close>

datatype mb_error = Unknown_format | Invalid_bmpstring | Invalid_universalstring | Invalid_utf8string
  | Illegal_characters | Too_short | Too_long | Malloc_failure | Internal_error

text \<open>
  \<open>strchr\<close> also finds the terminator of the string, so the NUL character passes the last test.
\<close>

definition is_printable :: "u32 \<Rightarrow> bool" where
  "is_printable v =
     (if v > 0x7f then False
      else let ch = unat v
           in if 0x61 \<le> ch \<and> ch \<le> 0x7a then True
              else if 0x41 \<le> ch \<and> ch \<le> 0x5a then True
              else if 0x30 \<le> ch \<and> ch \<le> 0x39 then True
              else ch = 0x20 \<or> ch \<in> set (map of_char [CHR 0x27, CHR ''('', CHR '')'', CHR ''+'', CHR '','', CHR ''-'', CHR ''.'', CHR ''/'', CHR '':'', CHR ''='', CHR ''?''] @ [0]))"

text \<open>The function pointers of the two loops; the default case of the first switch is \<open>known_format\<close>.\<close>

definition known_format :: "u32 \<Rightarrow> bool" where
  "known_format form \<longleftrightarrow> form = MBSTRING_BMP \<or> form = MBSTRING_UNIV \<or> form = MBSTRING_UTF8 \<or> form = MBSTRING_ASC"

definition decode_func :: "u32 \<Rightarrow> CBS \<Rightarrow> u32 option \<times> CBS" where
  "decode_func form =
     (if form = MBSTRING_BMP then cbs_get_ucs2_be
      else if form = MBSTRING_UNIV then cbs_get_utf32_be
      else if form = MBSTRING_UTF8 then cbs_get_utf8
      else cbs_get_latin1)"

definition decode_error :: "u32 \<Rightarrow> mb_error" where
  "decode_error form =
     (if form = MBSTRING_BMP then Invalid_bmpstring
      else if form = MBSTRING_UNIV then Invalid_universalstring
      else if form = MBSTRING_UTF8 then Invalid_utf8string
      else Internal_error)"

definition encode_func :: "u32 \<Rightarrow> heap \<Rightarrow> CBB \<Rightarrow> nat \<Rightarrow> u32 \<Rightarrow> unit option \<times> CBB" where
  "encode_func form =
     (if form = MBSTRING_BMP then cbb_add_ucs2_be
      else if form = MBSTRING_UNIV then cbb_add_utf32_be
      else if form = MBSTRING_UTF8 then cbb_add_utf8
      else cbb_add_latin1)"

text \<open>The output types that can still hold the text after the character \<open>c\<close>.\<close>

definition clear_mask :: "u64 \<Rightarrow> u64 \<Rightarrow> bool \<Rightarrow> u64" where
  "clear_mask m b bad = (if m AND b \<noteq> 0 \<and> bad then m AND NOT b else m)"

definition update_mask :: "u64 \<Rightarrow> u32 \<Rightarrow> u64" where
  "update_mask m c =
     (let m1 = clear_mask m B_ASN1_PRINTABLESTRING (\<not> is_printable c);
          m2 = clear_mask m1 B_ASN1_IA5STRING (c > 127);
          m3 = clear_mask m2 B_ASN1_T61STRING (c > 0xff)
      in clear_mask m3 B_ASN1_BMPSTRING (c > 0xffff))"

lemma utf8_tail_len: "utf8_tail k v c = (Some w, c') \<Longrightarrow> cbs_len c' \<le> cbs_len c"
proof (induction k arbitrary: v c)
  case (Suc k)
  then obtain b c1 where b: "CBS_get_u8 c = (Some b, c1)"
    and t: "utf8_tail k (push_bit 6 v OR ucast (b AND 0x3F)) c1 = (Some w, c')"
    unfolding utf8_tail_Suc by (auto simp: on_success_Some_iff split: if_splits)
  from Suc.IH [OF t] cbs_get_u8_len [OF b] show ?case by simp
qed simp

lemma decode_func_len: "decode_func form c = (Some v, c') \<Longrightarrow> cbs_len c' < cbs_len c"
proof -
  assume d: "decode_func form c = (Some v, c')"
  have "cbs_len c' < cbs_len c" if utf8: "cbs_get_utf8 c = (Some v, c')"
  proof -
    obtain b c1 where b: "CBS_get_u8 c = (Some b, c1)"
      using utf8 unfolding cbs_get_utf8_eq by (rule on_success_SomeE)
    have "cbs_len c' \<le> cbs_len c1"
      using utf8 unfolding cbs_get_utf8_eq b on_success_simps
      by (auto simp: on_success_Some_iff split: if_splits option.splits dest: utf8_tail_len)
    then show ?thesis using cbs_get_u8_len [OF b] by simp
  qed
  with d show ?thesis
    by (auto simp: decode_func_def cbs_get_ucs2_be_def cbs_get_utf32_be_def cbs_get_latin1_def
        on_success_Some_iff CBS_get_ints_eq cbs_get_u8_len split: if_splits)
qed

text \<open>The first loop: the mask, the number of characters and the length of the text in UTF-8.\<close>

function scan_text :: "u32 \<Rightarrow> CBS \<Rightarrow> u64 \<Rightarrow> nat \<Rightarrow> nat \<Rightarrow> mb_error + (u64 \<times> nat \<times> nat)" where
  "scan_text form c m nchar utf8_len =
     (if cbs_len c \<noteq> 0 then
        (case decode_func form c of
           (None, _) \<Rightarrow> Inl (decode_error form)
         | (Some v, c') \<Rightarrow>
             (if nchar = 0 \<and> (form = MBSTRING_BMP \<or> form = MBSTRING_UNIV) \<and> v = 0xfeff then Inl Illegal_characters
              else let m' = update_mask m v
                   in if m' = 0 then Inl Illegal_characters
                      else scan_text form c' m' (nchar + 1) (utf8_len + cbb_get_utf8_len v)))
      else Inr (m, nchar, utf8_len))"
  by pat_completeness auto
termination
  by (relation "measure (\<lambda>(form, c, m, n, k). cbs_len c)") (auto dest: sym [THEN decode_func_len])

declare scan_text.simps [simp del]

text \<open>The type, the encoding and the size of the output.\<close>

definition choose_output :: "u64 \<Rightarrow> nat \<Rightarrow> nat \<Rightarrow> int \<times> u32 \<times> nat" where
  "choose_output m nchar utf8_len =
     (if m AND B_ASN1_PRINTABLESTRING \<noteq> 0 then (19, MBSTRING_ASC, nchar)
      else if m AND B_ASN1_IA5STRING \<noteq> 0 then (22, MBSTRING_ASC, nchar)
      else if m AND B_ASN1_T61STRING \<noteq> 0 then (20, MBSTRING_ASC, nchar)
      else if m AND B_ASN1_BMPSTRING \<noteq> 0 then (30, MBSTRING_BMP, 2 * nchar)
      else if m AND B_ASN1_UNIVERSALSTRING \<noteq> 0 then (28, MBSTRING_UNIV, 4 * nchar)
      else (12, MBSTRING_UTF8, utf8_len))"

text \<open>The second loop.\<close>

function transcode :: "heap \<Rightarrow> u32 \<Rightarrow> u32 \<Rightarrow> CBS \<Rightarrow> CBB \<Rightarrow> unit option \<times> CBB" where
  "transcode h form outform c b =
     (if cbs_len c \<noteq> 0 then
        (case decode_func form c of
           (None, _) \<Rightarrow> (None, b)
         | (Some v, c') \<Rightarrow>
             on_success (encode_func outform h b 0 v) (\<lambda>_ b'. transcode h form outform c' b'))
      else (Some (), b))"
  by pat_completeness auto
termination
  by (relation "measure (\<lambda>(h, form, outform, c, b). cbs_len c)") (auto dest: sym [THEN decode_func_len])

declare transcode.simps [simp del]

text \<open>The re-encoded text with its terminator: the block and its length.\<close>

definition convert_text :: "heap \<Rightarrow> u32 \<Rightarrow> u32 \<Rightarrow> nat \<Rightarrow> CBS \<Rightarrow> mb_error + (u8 list option \<times> nat)" where
  "convert_text h form outform size_estimate c =
     (case CBB_init h (size_estimate + 1) of
        (None, _) \<Rightarrow> Inl Malloc_failure
      | (Some _, b0) \<Rightarrow>
          (case on_success (transcode h form outform c b0) (\<lambda>_ b1.
                on_success (CBB_add_u8 h b1 0 0) (\<lambda>_ b2. CBB_finish h b2 0 True True)) of
             (None, _) \<Rightarrow> Inl Internal_error
           | (Some (data, data_len), _) \<Rightarrow>
               if data_len < 1 \<or> data_len > INT_MAX then Inl Internal_error else Inr (data, data_len)))"

text \<open>
  What \<open>*out\<close> points to: nothing, a string, or a string that has been freed. \<open>open_dest\<close> is the
  block that reuses or creates it; the flag is \<open>free_out\<close>.
\<close>

datatype string_slot = Null_slot | Live asn1_string | Freed

definition open_dest :: "heap \<Rightarrow> string_slot \<Rightarrow> int \<Rightarrow> (bool \<times> asn1_string) option" where
  "open_dest h slot stype =
     (case slot of
        Live dest \<Rightarrow>
          (let d1 = (if str_data dest \<noteq> None then dest\<lparr>str_length := 0, str_data := None\<rparr> else dest)
           in Some (False, d1\<lparr>str_type := stype\<rparr>))
      | _ \<Rightarrow> map_option (\<lambda>d. (True, d)) (ASN1_STRING_type_new h stype))"

text \<open>The part after the type is known; the first component is the return value or the error behind -1.\<close>

definition store_text ::
  "heap \<Rightarrow> string_slot \<Rightarrow> u8 list \<Rightarrow> int \<Rightarrow> u32 \<Rightarrow> int \<times> u32 \<times> nat \<Rightarrow> ((mb_error + int) \<times> string_slot) option" where
  "store_text h slot inp len form choice =
     (case choice of (stype, outform, size_estimate) \<Rightarrow>
       case open_dest h slot stype of
         None \<Rightarrow> Some (Inl Malloc_failure, slot)
       | Some (free_out, dest) \<Rightarrow>
           if form = outform then
             map_option (\<lambda>(done, d). if done then (Inr stype, Live d) else (Inl Malloc_failure, Live d))
               (ASN1_STRING_set h dest (Some inp) len)
           else
             Some (case convert_text h form outform size_estimate (CBS_init inp (unat (of_int len :: u64))) of
                Inl e \<Rightarrow> (Inl e, if free_out then Freed else Live dest)
              | Inr (data, data_len) \<Rightarrow>
                  (Inr stype, Live (dest\<lparr>str_length := int (data_len - 1), str_data := data\<rparr>))))"

definition ASN1_mbstring_ncopy ::
  "heap \<Rightarrow> string_slot option \<Rightarrow> u8 list \<Rightarrow> int \<Rightarrow> u32 \<Rightarrow> u64 \<Rightarrow> int \<Rightarrow> int \<Rightarrow>
     ((mb_error + int) \<times> string_slot option) option" where
  "ASN1_mbstring_ncopy h out inp len0 form mask0 minsize maxsize =
     (case (if len0 = - 1 then map_option int (c_strlen inp) else Some len0) of
        None \<Rightarrow> None
      | Some len \<Rightarrow>
          (let m0 = (if mask0 = 0 then DIRSTRING_TYPE else mask0)
           in if \<not> known_format form then Some (Inl Unknown_format, out)
              else case scan_text form (CBS_init inp (unat (of_int len :: u64))) m0 0 0 of
                Inl e \<Rightarrow> Some (Inl e, out)
              | Inr (m, nchar, utf8_len) \<Rightarrow>
                  if minsize > 0 \<and> nchar < nat minsize then Some (Inl Too_short, out)
                  else if maxsize > 0 \<and> nchar > nat maxsize then Some (Inl Too_long, out)
                  else
                    let choice = choose_output m nchar utf8_len
                    in case out of
                         None \<Rightarrow> Some (Inr (fst choice), None)
                       | Some slot \<Rightarrow> map_option (apsnd Some) (store_text h slot inp len form choice)))"

definition ASN1_mbstring_copy ::
  "heap \<Rightarrow> string_slot option \<Rightarrow> u8 list \<Rightarrow> int \<Rightarrow> u32 \<Rightarrow> u64 \<Rightarrow> ((mb_error + int) \<times> string_slot option) option" where
  "ASN1_mbstring_copy h out inp len form m = ASN1_mbstring_ncopy h out inp len form m 0 0"

section \<open>The encodings by format\<close>

definition format_enc :: "u32 \<Rightarrow> nat \<Rightarrow> u8 list" where
  "format_enc form =
     (if form = MBSTRING_BMP then be_bytes 2 else if form = MBSTRING_UNIV then be_bytes 4
      else if form = MBSTRING_UTF8 then utf8 else latin1)"

definition format_ok :: "u32 \<Rightarrow> nat \<Rightarrow> bool" where
  "format_ok form =
     (if form = MBSTRING_BMP then ucs2_ok else if form = MBSTRING_UNIV then code_point
      else if form = MBSTRING_UTF8 then code_point else latin1_ok)"

lemma format_encoding: "text_encoding (format_enc form) (format_ok form) (decode_func form) (encode_func form)"
  by (simp add: format_enc_def format_ok_def decode_func_def encode_func_def
      utf8_text.text_encoding_axioms latin1_text.text_encoding_axioms ucs2_text.text_encoding_axioms
      utf32_text.text_encoding_axioms)

text \<open>The bytes of a text in a format.\<close>

definition format_text :: "u32 \<Rightarrow> nat list \<Rightarrow> u8 list" where
  "format_text form ns = concat (map (format_enc form) ns)"

lemma scan_text_spec:
  assumes "cbs_ok c"
  shows "case scan_text form c m k u of
      Inl e \<Rightarrow> True
    | Inr (m', k', u') \<Rightarrow>
        \<exists>ns. (\<forall>n\<in>set ns. format_ok form n) \<and> cbs_bytes c = format_text form ns \<and>
          m' = foldl update_mask m (map of_nat ns) \<and> k' = k + length ns \<and> u' = u + length (format_text MBSTRING_UTF8 ns)"
  using assms
proof (induction form c m k u rule: scan_text.induct)
  case (1 form c m k u)
  show ?case
  proof (cases "scan_text form c m k u")
    case (Inr x)
    obtain m' k' u' where x: "x = (m', k', u')" by (cases x)
    note run = Inr [unfolded x, unfolded scan_text.simps [of form c]]
    show ?thesis
    proof (cases "cbs_len c = 0")
      case True
      then have "cbs_bytes c = []" using length_cbs_bytes [OF "1.prems"] by simp
      moreover have "m' = m" "k' = k" "u' = u" using run True by simp_all
      ultimately show ?thesis
        unfolding Inr x sum.case prod.case by (intro exI [of _ "[]"]) (simp add: format_text_def)
    next
      case False
      obtain v c' where d: "decode_func form c = (Some v, c')"
        using run False by (auto split: prod.splits option.splits)
      have m1: "update_mask m v \<noteq> 0" and step: "\<not> (k = 0 \<and> (form = MBSTRING_BMP \<or> form = MBSTRING_UNIV) \<and> v = 0xfeff)"
        and rec: "scan_text form c' (update_mask m v) (k + 1) (u + cbb_get_utf8_len v) = Inr (m', k', u')"
        using run False d by (auto simp: Let_def split: if_splits)
      have s: "format_ok form (unat v)" "cbs_bytes c = format_enc form (unat v) @ cbs_bytes c'" "cbs_ok c'"
        using text_encoding.get_step [OF format_encoding "1.prems" d] by blast+
      have "case scan_text form c' (update_mask m v) (k + 1) (u + cbb_get_utf8_len v) of
          Inl e \<Rightarrow> True
        | Inr (m', k', u') \<Rightarrow>
            \<exists>ns. (\<forall>n\<in>set ns. format_ok form n) \<and> cbs_bytes c' = format_text form ns \<and>
              m' = foldl update_mask (update_mask m v) (map of_nat ns) \<and> k' = k + 1 + length ns \<and>
              u' = u + cbb_get_utf8_len v + length (format_text MBSTRING_UTF8 ns)"
        using False d step m1 s(3) by (intro "1.IH") auto
      then obtain ns where ns: "\<forall>n\<in>set ns. format_ok form n" "cbs_bytes c' = format_text form ns"
        "m' = foldl update_mask (update_mask m v) (map of_nat ns)" "k' = k + 1 + length ns"
        "u' = u + cbb_get_utf8_len v + length (format_text MBSTRING_UTF8 ns)"
        unfolding rec by auto
      have u8: "format_enc MBSTRING_UTF8 = utf8" by (simp add: format_enc_def mb_consts)
      show ?thesis
        unfolding Inr x sum.case prod.case
        using s ns by (intro exI [of _ "unat v # ns"]) (simp add: format_text_def cbb_get_utf8_len_eq u8 of_nat_unat_word)
    qed
  qed simp
qed

text \<open>An input that is not a text in the format is never accepted.\<close>

lemma scan_text_rejects:
  assumes "cbs_ok c" "\<nexists>ns. (\<forall>n\<in>set ns. format_ok form n) \<and> cbs_bytes c = format_text form ns"
  shows "\<exists>e. scan_text form c m k u = Inl e"
proof (cases "scan_text form c m k u")
  case (Inr x)
  then show ?thesis
    using scan_text_spec [OF assms(1), of form m k u] assms(2) by (cases x) auto
qed simp

section \<open>The mask\<close>

lemma clear_mask_same: "clear_mask m b bad AND b = (if bad then 0 else m AND b)"
proof (cases "m AND b \<noteq> 0 \<and> bad")
  case True
  have "(m AND NOT b) AND b = 0" by (rule bit_word_eqI) (auto simp: bit_simps)
  with True show ?thesis by (simp add: clear_mask_def)
qed (auto simp: clear_mask_def)

lemma clear_mask_other:
  assumes "b AND b' = 0"
  shows "clear_mask m b bad AND b' = m AND b'"
proof -
  have "bit b n \<Longrightarrow> \<not> bit b' n" for n
    using arg_cong [OF assms, of "\<lambda>w. bit w n"] by (simp add: bit_simps)
  then have "(m AND NOT b) AND b' = m AND b'"
    by (intro bit_word_eqI) (auto simp: bit_simps)
  then show ?thesis by (simp add: clear_mask_def)
qed

lemma mask_bits_disjoint:
  "B_ASN1_PRINTABLESTRING AND B_ASN1_IA5STRING = 0" "B_ASN1_PRINTABLESTRING AND B_ASN1_T61STRING = 0"
  "B_ASN1_PRINTABLESTRING AND B_ASN1_BMPSTRING = 0" "B_ASN1_IA5STRING AND B_ASN1_PRINTABLESTRING = 0"
  "B_ASN1_IA5STRING AND B_ASN1_T61STRING = 0" "B_ASN1_IA5STRING AND B_ASN1_BMPSTRING = 0"
  "B_ASN1_T61STRING AND B_ASN1_PRINTABLESTRING = 0" "B_ASN1_T61STRING AND B_ASN1_IA5STRING = 0"
  "B_ASN1_T61STRING AND B_ASN1_BMPSTRING = 0" "B_ASN1_BMPSTRING AND B_ASN1_PRINTABLESTRING = 0"
  "B_ASN1_BMPSTRING AND B_ASN1_IA5STRING = 0" "B_ASN1_BMPSTRING AND B_ASN1_T61STRING = 0"
  by code_simp+

lemma update_mask_bits:
  "update_mask m c AND B_ASN1_PRINTABLESTRING = (if is_printable c then m AND B_ASN1_PRINTABLESTRING else 0)"
  "update_mask m c AND B_ASN1_IA5STRING = (if c > 127 then 0 else m AND B_ASN1_IA5STRING)"
  "update_mask m c AND B_ASN1_T61STRING = (if c > 0xff then 0 else m AND B_ASN1_T61STRING)"
  "update_mask m c AND B_ASN1_BMPSTRING = (if c > 0xffff then 0 else m AND B_ASN1_BMPSTRING)"
  by (simp_all add: update_mask_def Let_def clear_mask_same clear_mask_other mask_bits_disjoint)

lemma foldl_mask_bit:
  assumes "\<And>m c. update_mask m c AND b = (if bad c then 0 else m AND b)"
  shows "foldl update_mask m cs AND b \<noteq> 0 \<longleftrightarrow> m AND b \<noteq> 0 \<and> (\<forall>c\<in>set cs. \<not> bad c)"
  by (induction cs arbitrary: m) (simp_all add: assms)

lemma foldl_mask_bits:
  "foldl update_mask m cs AND B_ASN1_PRINTABLESTRING \<noteq> 0 \<longleftrightarrow>
     m AND B_ASN1_PRINTABLESTRING \<noteq> 0 \<and> (\<forall>c\<in>set cs. is_printable c)"
  "foldl update_mask m cs AND B_ASN1_IA5STRING \<noteq> 0 \<longleftrightarrow> m AND B_ASN1_IA5STRING \<noteq> 0 \<and> (\<forall>c\<in>set cs. c \<le> 127)"
  "foldl update_mask m cs AND B_ASN1_T61STRING \<noteq> 0 \<longleftrightarrow> m AND B_ASN1_T61STRING \<noteq> 0 \<and> (\<forall>c\<in>set cs. c \<le> 0xff)"
  "foldl update_mask m cs AND B_ASN1_BMPSTRING \<noteq> 0 \<longleftrightarrow> m AND B_ASN1_BMPSTRING \<noteq> 0 \<and> (\<forall>c\<in>set cs. c \<le> 0xffff)"
  using foldl_mask_bit [of B_ASN1_PRINTABLESTRING "\<lambda>c. \<not> is_printable c" m cs]
    foldl_mask_bit [of B_ASN1_IA5STRING "\<lambda>c. c > 127" m cs]
    foldl_mask_bit [of B_ASN1_T61STRING "\<lambda>c. c > 0xff" m cs]
    foldl_mask_bit [of B_ASN1_BMPSTRING "\<lambda>c. c > 0xffff" m cs]
  by (simp_all add: update_mask_bits not_less)

section \<open>Writing the text\<close>

lemma transcode_refines:
  assumes h: "heap_ok h"
    and "cbs_ok c" "cbs_bytes c = format_text form ns" "\<forall>n\<in>set ns. format_ok form n \<and> format_ok outform n"
    and "cbb_rel b fs" "length fs = 1"
  shows "refines b (transcode h form outform c b) (abs_write 0 (format_text outform ns) fs)"
  using assms(2-)
proof (induction ns arbitrary: c b fs)
  case Nil
  then have "cbs_len c = 0" "fs \<noteq> []" using length_cbs_bytes [of c] by (auto simp: format_text_def)
  then show ?case
    using Nil by (simp add: transcode.simps [of h form outform c b] format_text_def abs_write_top refines_top)
next
  case (Cons n ns)
  have ok: "format_ok form n" "format_ok outform n" using Cons.prems(3) by simp_all
  have bytes: "cbs_bytes c = concat (map (format_enc form) (n # ns))"
    using Cons.prems(2) by (simp add: format_text_def)
  let ?c' = "cbs_adv (length (format_enc form n)) c"
  have d: "decode_func form c = (Some (of_nat n), ?c')" and b': "cbs_bytes ?c' = concat (map (format_enc form) ns)"
    using text_encoding.get_head [OF format_encoding Cons.prems(1) bytes ok(1)] .
  have nz: "cbs_len c \<noteq> 0" using decode_func_len [OF d] by simp
  have u: "unat (of_nat n :: u32) = n" using text_encoding.ok_unat [OF format_encoding ok(1)] .
  have put: "refines b (encode_func outform h b 0 (of_nat n)) (abs_write 0 (format_enc outform n) fs)"
    using text_encoding.put_refines [OF format_encoding h Cons.prems(4), of 0 outform "of_nat n"] Cons.prems(5) ok(2) u by simp
  have rest: "refines b' (transcode h form outform ?c' b') (abs_write 0 (format_text outform ns) fs')"
    if "cbb_rel b' fs'" "length fs' = Suc 0" for b' fs'
    using that Cons.prems(1,3) b' by (intro Cons.IH) (simp_all add: format_text_def)
  have "transcode h form outform c b =
      on_success (encode_func outform h b 0 (of_nat n)) (\<lambda>_ b'. transcode h form outform ?c' b')"
    using nz d by (simp add: transcode.simps [of h form outform c b])
  moreover have "format_text outform (n # ns) = format_enc outform n @ format_text outform ns"
    by (simp add: format_text_def)
  ultimately show ?case
    using refines_write_seq [OF put, where y = "format_text outform ns" and g = "\<lambda>_ b'. transcode h form outform ?c' b'"]
      Cons.prems(5) rest by simp
qed

lemma convert_text_spec:
  assumes h: "heap_ok h"
    and c: "cbs_ok c" "cbs_bytes c = format_text form ns" "\<forall>n\<in>set ns. format_ok form n \<and> format_ok outform n"
    and size: "sz = length (format_text outform ns)" "sz < INT_MAX"
  shows "case convert_text h form outform sz c of
      Inl e \<Rightarrow> e = Malloc_failure \<and> (\<not> grants h (sz + 9) \<or> \<not> grants h 40)
    | Inr (data, n) \<Rightarrow> \<exists>p. data = Some p \<and> n = sz + 1 \<and> n \<le> length p \<and> take n p = format_text outform ns @ [0]"
proof -
  let ?text = "format_text outform ns"
  have wrap: "sz + 1 + 8 < SIZE_MOD" using size(2) by simp
  obtain r0 b0 where init: "CBB_init h (sz + 1) = (r0, b0)" by fastforce
  show ?thesis
  proof (cases r0)
    case None
    then have "\<not> grants h (sz + 9) \<or> \<not> grants h 40"
      using CBB_init_fails [of h "sz + 1" b0] init wrap unfolding add.assoc by simp
    then show ?thesis
      using init None by (simp add: convert_text_def)
  next
    case (Some x0)
    have b0: "cbb_rel b0 [(Prefixed 0, [])]" "cbb_cap b0 = sz + 1"
      using CBB_init_rel [OF h _ wrap] init Some by auto
    let ?call = "on_success (transcode h form outform c b0) (\<lambda>_ b1. CBB_add_u8 h b1 0 0)"
    have "refines b0 (transcode h form outform c b0) (abs_write 0 ?text [(Prefixed 0, [])])"
      using transcode_refines [OF h c b0(1)] by simp
    then have wr: "refines b0 ?call (abs_write 0 (?text @ [0]) [(Prefixed 0, [])])"
      by (rule refines_write_seq) (simp_all add: CBB_add_u8_refines [OF h])
    obtain r1 b1 where w: "?call = (r1, b1)" by fastforce
    note wr' = wr [unfolded w]
    have b1: "cbb_rel b1 [(Prefixed 0, ?text @ [0])]" "sz + 1 \<le> cbb_cap b1" and r1: "r1 = Some ()"
      using refines_fresh [OF wr'] b0(2) size(1) by (cases r1; simp)+
    obtain f b2 where fin: "CBB_finish h b1 0 True True = (f, b2)" by fastforce
    note spec = CBB_finish_root [OF h b1(1), unfolded fin]
    then have "f \<noteq> None" using b1(2) size(1) by (cases f) auto
    then obtain data n where f: "f = Some (data, n)" by (cases f) auto
    have data: "n = sz + 1" "n \<le> length (case data of None \<Rightarrow> [] | Some p \<Rightarrow> p)"
      "take n (case data of None \<Rightarrow> [] | Some p \<Rightarrow> p) = ?text @ [0]"
      using spec [unfolded f prod.case option.case] size(1) by (elim conjE, simp)+
    then obtain p where p: "data = Some p" by (cases data) auto
    note n = data(1)
    have run: "on_success (transcode h form outform c b0) (\<lambda>_ b1.
        on_success (CBB_add_u8 h b1 0 0) (\<lambda>_ b2. CBB_finish h b2 0 True True)) = (Some (data, n), b2)"
      unfolding on_success_assoc [symmetric] w r1 using fin f by simp
    have "\<not> (n < 1 \<or> n > INT_MAX)" using n size(2) by simp
    then show ?thesis
      using init Some run n data p by (simp add: convert_text_def)
  qed
qed

section \<open>The result\<close>

text \<open>The type the code arrives at, by its own test of the printable characters.\<close>

definition chosen_type :: "u64 \<Rightarrow> nat list \<Rightarrow> int" where
  "chosen_type m ns =
     (if m AND B_ASN1_PRINTABLESTRING \<noteq> 0 \<and> (\<forall>n\<in>set ns. is_printable (of_nat n)) then 19
      else if m AND B_ASN1_IA5STRING \<noteq> 0 \<and> (\<forall>n\<in>set ns. n \<le> 127) then 22
      else if m AND B_ASN1_T61STRING \<noteq> 0 \<and> (\<forall>n\<in>set ns. n \<le> 0xff) then 20
      else if m AND B_ASN1_BMPSTRING \<noteq> 0 \<and> (\<forall>n\<in>set ns. n \<le> 0xffff) then 30
      else if m AND B_ASN1_UNIVERSALSTRING \<noteq> 0 then 28 else 12)"

definition type_format :: "int \<Rightarrow> u32" where
  "type_format t = (if t = 30 then MBSTRING_BMP else if t = 28 then MBSTRING_UNIV else if t = 12 then MBSTRING_UTF8 else MBSTRING_ASC)"

lemma update_mask_universal: "update_mask m c AND B_ASN1_UNIVERSALSTRING = m AND B_ASN1_UNIVERSALSTRING"
proof -
  have "B_ASN1_PRINTABLESTRING AND B_ASN1_UNIVERSALSTRING = 0" "B_ASN1_IA5STRING AND B_ASN1_UNIVERSALSTRING = 0"
    "B_ASN1_T61STRING AND B_ASN1_UNIVERSALSTRING = 0" "B_ASN1_BMPSTRING AND B_ASN1_UNIVERSALSTRING = 0"
    by code_simp+
  then show ?thesis by (simp add: update_mask_def Let_def clear_mask_other)
qed

lemma foldl_mask_universal: "foldl update_mask m cs AND B_ASN1_UNIVERSALSTRING = m AND B_ASN1_UNIVERSALSTRING"
  by (induction cs arbitrary: m) (simp_all add: update_mask_universal)

text \<open>The types that some character of the text rules out by that test, and the byte-order mark the code rejects.\<close>

definition ruled_out :: "nat list \<Rightarrow> u64" where
  "ruled_out ns =
     (if \<forall>n\<in>set ns. is_printable (of_nat n) then 0 else B_ASN1_PRINTABLESTRING) OR
     (if \<forall>n\<in>set ns. n \<le> 127 then 0 else B_ASN1_IA5STRING) OR
     (if \<forall>n\<in>set ns. n \<le> 0xff then 0 else B_ASN1_T61STRING) OR
     (if \<forall>n\<in>set ns. n \<le> 0xffff then 0 else B_ASN1_BMPSTRING)"

definition starts_with_bom :: "u32 \<Rightarrow> nat list \<Rightarrow> bool" where
  "starts_with_bom form ns \<longleftrightarrow> (form = MBSTRING_BMP \<or> form = MBSTRING_UNIV) \<and> ns \<noteq> [] \<and> hd ns = 0xfeff"

lemma clear_mask_eq: "clear_mask m b bad = m AND NOT (if bad then b else 0)"
proof (cases "m AND b = 0")
  case True
  have "bit m n \<Longrightarrow> \<not> bit b n" for n
    using arg_cong [OF True, of "\<lambda>w. bit w n"] by (simp add: bit_simps)
  then have "m AND NOT b = m" by (intro bit_word_eqI) (auto simp: bit_simps)
  then show ?thesis by (simp add: clear_mask_def True)
qed (simp add: clear_mask_def)

lemma update_mask_eq: "n \<le> 0x10ffff \<Longrightarrow> update_mask m (of_nat n) = m AND NOT (ruled_out [n])"
proof -
  assume "n \<le> 0x10ffff"
  then have u: "unat (of_nat n :: u32) = n" by (simp add: unat_of_nat)
  have "update_mask m (of_nat n) =
      (((m AND NOT (if \<not> is_printable (of_nat n) then B_ASN1_PRINTABLESTRING else 0)) AND
        NOT (if n > 127 then B_ASN1_IA5STRING else 0)) AND
        NOT (if n > 0xff then B_ASN1_T61STRING else 0)) AND NOT (if n > 0xffff then B_ASN1_BMPSTRING else 0)"
    by (simp add: update_mask_def Let_def clear_mask_eq word_less_nat_alt u)
  then show ?thesis
    unfolding ruled_out_def by (intro bit_word_eqI) (auto simp: bit_simps)
qed

lemma ruled_out_Cons: "ruled_out (n # ns) = ruled_out [n] OR ruled_out ns"
  unfolding ruled_out_def by (intro bit_word_eqI) (auto simp: bit_simps)

lemma mask_and_not_or: "(m :: u64) AND NOT (a OR b) = (m AND NOT a) AND NOT b"
  by (intro bit_word_eqI) (auto simp: bit_simps)

lemma format_ok_range: "format_ok form n \<Longrightarrow> n \<le> 0x10ffff"
  using text_encoding.ok_code_point [OF format_encoding] by (auto simp: code_point_def)

lemma choose_output_eq:
  assumes "\<forall>n\<in>set ns. format_ok form n"
  shows "choose_output (foldl update_mask m (map of_nat ns)) (length ns) (length (format_text MBSTRING_UTF8 ns)) =
    (chosen_type m ns, type_format (chosen_type m ns), length (format_text (type_format (chosen_type m ns)) ns))"
    "\<forall>n\<in>set ns. format_ok (type_format (chosen_type m ns)) n"
proof -
  have u: "unat (of_nat n :: u32) = n" if "n \<in> set ns" for n
    using assms that format_ok_range by (force simp: unat_of_nat)
  have le: "(\<forall>c\<in>set (map of_nat ns). c \<le> (of_nat k :: u32)) \<longleftrightarrow> (\<forall>n\<in>set ns. n \<le> k)" if "k < 2 ^ 32" for k
    using u that by (auto simp: word_le_nat_alt unat_of_nat)
  have bits: "foldl update_mask m (map of_nat ns) AND B_ASN1_PRINTABLESTRING \<noteq> 0 \<longleftrightarrow>
       m AND B_ASN1_PRINTABLESTRING \<noteq> 0 \<and> (\<forall>n\<in>set ns. is_printable (of_nat n))"
    "foldl update_mask m (map of_nat ns) AND B_ASN1_IA5STRING \<noteq> 0 \<longleftrightarrow> m AND B_ASN1_IA5STRING \<noteq> 0 \<and> (\<forall>n\<in>set ns. n \<le> 127)"
    "foldl update_mask m (map of_nat ns) AND B_ASN1_T61STRING \<noteq> 0 \<longleftrightarrow> m AND B_ASN1_T61STRING \<noteq> 0 \<and> (\<forall>n\<in>set ns. n \<le> 0xff)"
    "foldl update_mask m (map of_nat ns) AND B_ASN1_BMPSTRING \<noteq> 0 \<longleftrightarrow> m AND B_ASN1_BMPSTRING \<noteq> 0 \<and> (\<forall>n\<in>set ns. n \<le> 0xffff)"
    unfolding foldl_mask_bits using le [of 127] le [of 255] le [of 65535] by simp_all
  have sizes: "length (format_text MBSTRING_ASC ns) = length ns" "length (format_text MBSTRING_BMP ns) = 2 * length ns"
    "length (format_text MBSTRING_UNIV ns) = 4 * length ns"
    by (induction ns) (simp_all add: format_text_def format_enc_def mb_consts latin1_def)
  show "choose_output (foldl update_mask m (map of_nat ns)) (length ns) (length (format_text MBSTRING_UTF8 ns)) =
    (chosen_type m ns, type_format (chosen_type m ns), length (format_text (type_format (chosen_type m ns)) ns))"
    unfolding choose_output_def chosen_type_def bits foldl_mask_universal
    by (simp add: type_format_def sizes)
  have cp: "\<forall>n\<in>set ns. code_point n"
    using assms text_encoding.ok_code_point [OF format_encoding] by blast
  have printable: "n \<le> 127" if "is_printable (of_nat n)" "n \<in> set ns" for n
    using that u by (auto simp: is_printable_def word_less_nat_alt split: if_splits)
  show "\<forall>n\<in>set ns. format_ok (type_format (chosen_type m ns)) n"
    using cp printable unfolding chosen_type_def
    by (auto simp: type_format_def format_ok_def mb_consts latin1_ok_def ucs2_ok_def) force+
qed

text \<open>The first loop on a text.\<close>

lemma scan_text_complete:
  assumes "cbs_ok c" "\<forall>n\<in>set ns. format_ok form n" "cbs_bytes c = format_text form ns" "m \<noteq> 0"
  shows "scan_text form c m k u =
    (if k = 0 \<and> starts_with_bom form ns \<or> m AND NOT (ruled_out ns) = 0 then Inl Illegal_characters
     else Inr (foldl update_mask m (map of_nat ns), k + length ns, u + length (format_text MBSTRING_UTF8 ns)))"
  using assms
proof (induction ns arbitrary: c m k u)
  case Nil
  then have "cbs_len c = 0" using length_cbs_bytes [of c] by (simp add: format_text_def)
  then show ?case
    using Nil.prems(4) by (simp add: scan_text.simps [of form c] starts_with_bom_def ruled_out_def format_text_def)
next
  case (Cons n ns)
  have ok: "format_ok form n" using Cons.prems(2) by simp
  have bytes: "cbs_bytes c = concat (map (format_enc form) (n # ns))"
    using Cons.prems(3) by (simp add: format_text_def)
  let ?c' = "cbs_adv (length (format_enc form n)) c"
  have d: "decode_func form c = (Some (of_nat n), ?c')" and b': "cbs_bytes ?c' = concat (map (format_enc form) ns)"
    using text_encoding.get_head [OF format_encoding Cons.prems(1) bytes ok] .
  have nz: "cbs_len c \<noteq> 0" using decode_func_len [OF d] by simp
  have u: "unat (of_nat n :: u32) = n" using text_encoding.ok_unat [OF format_encoding ok] .
  have um: "update_mask m (of_nat n) = m AND NOT (ruled_out [n])" for m
    by (rule update_mask_eq [OF format_ok_range [OF ok]])
  have later: "m AND NOT (ruled_out (n # ns)) = 0" if "update_mask m (of_nat n) = 0"
    using that unfolding ruled_out_Cons [of n ns] mask_and_not_or um by simp
  have same: "update_mask m (of_nat n) AND NOT (ruled_out ns) = m AND NOT (ruled_out (n # ns))"
    unfolding ruled_out_Cons [of n ns] mask_and_not_or um ..
  have bom: "of_nat n = (0xfeff :: u32) \<longleftrightarrow> n = 0xfeff"
    using u by (auto simp: word_unat_eq_iff)
  have u8: "cbb_get_utf8_len (of_nat n) = length (format_enc MBSTRING_UTF8 n)"
    by (simp add: cbb_get_utf8_len_eq u format_enc_def mb_consts)
  have rec: "scan_text form ?c' (update_mask m (of_nat n)) (k + 1) (u + cbb_get_utf8_len (of_nat n)) =
      (if m AND NOT (ruled_out (n # ns)) = 0 then Inl Illegal_characters
       else Inr (foldl update_mask m (map of_nat (n # ns)), k + length (n # ns), u + length (format_text MBSTRING_UTF8 (n # ns))))"
    if "update_mask m (of_nat n) \<noteq> 0"
  proof -
    have "scan_text form ?c' (update_mask m (of_nat n)) (k + 1) (u + cbb_get_utf8_len (of_nat n)) =
      (if k + 1 = 0 \<and> starts_with_bom form ns \<or> update_mask m (of_nat n) AND NOT (ruled_out ns) = 0 then Inl Illegal_characters
       else Inr (foldl update_mask (update_mask m (of_nat n)) (map of_nat ns), k + 1 + length ns,
         u + cbb_get_utf8_len (of_nat n) + length (format_text MBSTRING_UTF8 ns)))"
      using Cons.prems(1,2) b' that by (intro Cons.IH) (simp_all add: format_text_def)
    then show ?thesis unfolding same u8 by (simp add: format_text_def)
  qed
  show ?case
    using nz later rec by (simp add: scan_text.simps [of form c] d Let_def starts_with_bom_def bom) blast
qed

section \<open>The stored string\<close>

definition slot_ok :: "string_slot \<Rightarrow> bool" where
  "slot_ok slot = (case slot of Live d \<Rightarrow> str_ok d | Null_slot \<Rightarrow> True | Freed \<Rightarrow> False)"

lemma open_dest_spec:
  assumes "slot_ok slot"
  shows "case open_dest h slot t of
      None \<Rightarrow> \<not> grants h 32
    | Some (free_out, d) \<Rightarrow> str_ok d \<and> str_type d = t \<and> (free_out \<longleftrightarrow> slot = Null_slot)"
proof (cases slot)
  case (Live d)
  then show ?thesis using assms by (auto simp: open_dest_def slot_ok_def str_ok_def str_bytes_def Let_def)
next
  case Null_slot
  show ?thesis
    using OPENSSL_malloc_Some_iff [of 24 h]
    by (cases "OPENSSL_malloc h 24")
      (simp_all add: Null_slot open_dest_def ASN1_STRING_type_new_def SIZEOF_ASN1_STRING_def str_ok_def str_bytes_def)
qed (use assms in \<open>simp add: slot_ok_def\<close>)

definition is_valid_store :: "int \<Rightarrow> nat list \<Rightarrow> string_slot \<Rightarrow> bool" where
  "is_valid_store t ns slot =
     (case slot of
        Live d \<Rightarrow> str_ok d \<and> str_type d = t \<and> str_contents d = format_text (type_format t) ns
      | _ \<Rightarrow> False)"

lemma unat_of_int_len: "\<lbrakk>0 \<le> len; len < 2 ^ 31\<rbrakk> \<Longrightarrow> unat (of_int len :: u64) = nat len"
proof -
  assume "0 \<le> len" "len < 2 ^ 31"
  then obtain n where "len = int n" "n < 2 ^ 31" by (cases len) auto
  then show ?thesis by (simp add: unat_of_nat)
qed

lemma store_text_spec:
  assumes h: "heap_ok h" and slot: "slot_ok slot"
    and len: "0 \<le> len" "len < 2 ^ 31 - 1" "nat len \<le> length inp"
    and enc: "take (nat len) inp = format_text form ns" "\<forall>n\<in>set ns. format_ok form n \<and> format_ok (type_format t) n"
    and size: "sz = length (format_text (type_format t) ns)" "sz < INT_MAX"
  shows "\<exists>r slot'. store_text h slot inp len form (t, type_format t, sz) = Some (r, slot') \<and>
    (case r of
       Inr t' \<Rightarrow> t' = t \<and> is_valid_store t ns slot'
     | Inl e \<Rightarrow> e = Malloc_failure \<and> (\<not> grants h 32 \<or> \<not> grants h 40 \<or> \<not> grants h (sz + 9)))"
proof (cases "open_dest h slot t")
  case None
  then show ?thesis using open_dest_spec [OF slot, of h t] by (simp add: store_text_def)
next
  case (Some p)
  obtain free_out d where p: "p = (free_out, d)" by (cases p)
  have d: "str_ok d" "str_type d = t" using open_dest_spec [OF slot, of h t] Some p by simp_all
  show ?thesis
  proof (cases "form = type_format t")
    case True
    obtain ok d' where set: "ASN1_STRING_set h d (Some inp) len = Some (ok, d')"
      and res: "if ok then str_ok d' \<and> str_length d' = len \<and> str_type d' = str_type d \<and> str_flags d' = str_flags d \<and>
         (\<forall>x. Some inp = Some x \<longrightarrow> str_contents d' = take (nat len) x \<and> str_bytes d' ! nat len = 0)
       else d' = d \<and> \<not> grants h (nat len + 9)"
      using ASN1_STRING_set_spec [OF d(1) len(1,2), of "Some inp" h] len(3) by auto
    have sz: "sz = nat len" using arg_cong [OF enc(1), of length] len(3) size(1) True by simp
    show ?thesis
      using Some p set res d True enc(1) sz
      by (cases ok) (simp_all add: store_text_def is_valid_store_def)
  next
    case False
    have u: "unat (of_int len :: u64) = nat len" by (rule unat_of_int_len) (use len(1,2) in simp_all)
    let ?conv = "convert_text h form (type_format t) sz (CBS_init inp (nat len))"
    have conv: "case ?conv of
        Inl e \<Rightarrow> e = Malloc_failure \<and> (\<not> grants h (sz + 9) \<or> \<not> grants h 40)
      | Inr (data, n) \<Rightarrow> \<exists>p. data = Some p \<and> n = sz + 1 \<and> n \<le> length p \<and> take n p = format_text (type_format t) ns @ [0]"
      using len(3) enc size by (intro convert_text_spec [OF h]) simp_all
    show ?thesis
    proof (cases ?conv)
      case (Inl e)
      then show ?thesis using conv Some p False u by (auto simp: store_text_def)
    next
      case (Inr x)
      then obtain q where x: "x = (Some q, sz + 1)" and q: "sz + 1 \<le> length q" "take (sz + 1) q = format_text (type_format t) ns @ [0]"
        using conv by (cases x) auto
      have "take sz q = format_text (type_format t) ns"
        using arg_cong [OF q(2), of "take sz"] size(1) by (simp add: min_def)
      then show ?thesis
        using Some p d False u Inr x q(1)
        by (simp add: store_text_def is_valid_store_def str_ok_def str_bytes_def str_contents_def)
    qed
  qed
qed

text \<open>The permitted types as the code reads its argument.\<close>

definition asked_types :: "u64 \<Rightarrow> u64" where
  "asked_types m = (if m = 0 then DIRSTRING_TYPE else m)"

lemma scan_text_errors: "scan_text form c m k u = Inl e \<Longrightarrow> e = decode_error form \<or> e = Illegal_characters"
proof (induction form c m k u rule: scan_text.induct)
  case (1 form c m k u)
  then show ?case
    by (subst (asm) scan_text.simps) (auto simp: Let_def split: if_splits prod.splits option.splits)
qed

section \<open>What the types can hold\<close>

text \<open>
  The alphabet of PrintableString (X.680): capital and small letters, digits, space and the marks
  apostrophe, parentheses, plus, comma, hyphen, full stop, solidus, colon, equals and question mark.
  The other types hold the characters up to a bound. A text is stored in the first permitted type, in the
  order of the comment at the head of the file, that can hold all its characters; UTF8String comes last.
\<close>

definition x680_printable :: "nat \<Rightarrow> bool" where
  "x680_printable n \<longleftrightarrow> 65 \<le> n \<and> n \<le> 90 \<or> 97 \<le> n \<and> n \<le> 122 \<or> 48 \<le> n \<and> n \<le> 57 \<or>
     n \<in> {32, 39, 40, 41, 43, 44, 45, 46, 47, 58, 61, 63}"

definition best_type :: "u64 \<Rightarrow> nat list \<Rightarrow> int" where
  "best_type m ns =
     (if m AND 0x2 \<noteq> 0 \<and> list_all x680_printable ns then 19
      else if m AND 0x10 \<noteq> 0 \<and> list_all (\<lambda>n. n \<le> 127) ns then 22
      else if m AND 0x4 \<noteq> 0 \<and> list_all (\<lambda>n. n \<le> 0xff) ns then 20
      else if m AND 0x800 \<noteq> 0 \<and> list_all (\<lambda>n. n \<le> 0xffff) ns then 30
      else if m AND 0x100 \<noteq> 0 then 28 else 12)"

definition unusable :: "nat list \<Rightarrow> u64" where
  "unusable ns =
     (if list_all x680_printable ns then 0 else 0x2) OR (if list_all (\<lambda>n. n \<le> 127) ns then 0 else 0x10) OR
     (if list_all (\<lambda>n. n \<le> 0xff) ns then 0 else 0x4) OR (if list_all (\<lambda>n. n \<le> 0xffff) ns then 0 else 0x800)"

lemma is_printable_eq:
  assumes "n \<noteq> 0" "n \<le> 0x10ffff"
  shows "is_printable (of_nat n) \<longleftrightarrow> x680_printable n"
proof -
  have u: "unat (of_nat n :: u32) = n" using assms(2) by (simp add: unat_of_nat)
  show ?thesis
    using assms(1) unfolding is_printable_def x680_printable_def Let_def u word_less_nat_alt by (auto simp: of_char_of)
qed

lemma all_printable:
  assumes "0 \<notin> set ns" "\<forall>n\<in>set ns. n \<le> 0x10ffff"
  shows "(\<forall>n\<in>set ns. is_printable (of_nat n)) \<longleftrightarrow> (\<forall>n\<in>set ns. x680_printable n)"
  using assms is_printable_eq by metis

lemmas mask_values = B_ASN1_PRINTABLESTRING_def B_ASN1_IA5STRING_def B_ASN1_T61STRING_def B_ASN1_BMPSTRING_def
  B_ASN1_UNIVERSALSTRING_def

lemma best_type_eq:
  assumes "0 \<notin> set ns" "\<forall>n\<in>set ns. n \<le> 0x10ffff"
  shows "chosen_type m ns = best_type m ns"
  unfolding chosen_type_def best_type_def all_printable [OF assms] list_all_iff mask_values ..

lemma unusable_eq:
  assumes "0 \<notin> set ns" "\<forall>n\<in>set ns. n \<le> 0x10ffff"
  shows "ruled_out ns = unusable ns"
  unfolding ruled_out_def unusable_def all_printable [OF assms] list_all_iff mask_values ..

section \<open>Properties\<close>

text \<open>
  C27: \<open>ASN1_mbstring_ncopy\<close> on a text without NUL characters in the declared format, shorter than
  \<open>INT_MAX\<close> as given and as stored. A leading byte-order mark and a text that rules out every permitted type
  are refused, then the limits on the number of characters apply; otherwise the code picks the first permitted
  type (PrintableString, IA5String, T61String, BMPString, UniversalString) that holds every character,
  UTF8String when none of these is left, and stores the same characters in that type's encoding. The only other
  failure is an allocation that the heap refuses; a refused text leaves the destination alone.
  (A NUL passes the code's test for PrintableString; see below.)
\<close>

theorem mbstring_ncopy_stores_text:
  assumes h: "heap_ok h" and slot: "slot_ok slot" and form: "known_format form"
    and len: "0 \<le> len" "len < 2 ^ 31 - 1" "nat len \<le> length inp"
    and enc: "take (nat len) inp = format_text form ns" "\<forall>n\<in>set ns. format_ok form n" "0 \<notin> set ns"
    and size: "length (format_text (type_format (best_type (asked_types m) ns)) ns) < INT_MAX"
  shows "\<exists>r slot'. ASN1_mbstring_ncopy h (Some slot) inp len form m minsize maxsize = Some (r, Some slot') \<and>
    (let t = best_type (asked_types m) ns; k = int (length ns)
     in if starts_with_bom form ns \<or> asked_types m AND NOT (unusable ns) = 0 then r = Inl Illegal_characters \<and> slot' = slot
        else if k < minsize then r = Inl Too_short \<and> slot' = slot
        else if 0 < maxsize \<and> maxsize < k then r = Inl Too_long \<and> slot' = slot
        else case r of
            Inr t' \<Rightarrow> t' = t \<and> is_valid_store t ns slot'
          | Inl e \<Rightarrow> e = Malloc_failure \<and>
              (\<not> grants h 32 \<or> \<not> grants h 40 \<or> \<not> grants h (length (format_text (type_format t) ns) + 9)))"
proof -
  let ?m = "asked_types m"
  let ?t = "best_type ?m ns"
  have small: "\<forall>n\<in>set ns. n \<le> 0x10ffff" using enc(2) format_ok_range by blast
  have u: "unat (of_int len :: u64) = nat len"
    by (rule unat_of_int_len) (use len in simp_all)
  have m: "?m \<noteq> 0"
    by (simp add: asked_types_def DIRSTRING_TYPE_def B_ASN1_PRINTABLESTRING_def B_ASN1_T61STRING_def B_ASN1_BMPSTRING_def B_ASN1_UTF8STRING_def)
  have scan: "scan_text form (CBS_init inp (unat (of_int len :: u64))) ?m 0 0 =
    (if starts_with_bom form ns \<or> ?m AND NOT (unusable ns) = 0 then Inl Illegal_characters
     else Inr (foldl update_mask ?m (map of_nat ns), length ns, length (format_text MBSTRING_UTF8 ns)))"
    using scan_text_complete [of "CBS_init inp (nat len)" ns form ?m 0 0] len(3) enc(1,2) m u
    unfolding unusable_eq [OF enc(3) small] by simp
  note choice = choose_output_eq [OF enc(2), of ?m, unfolded best_type_eq [OF enc(3) small]]
  have store: "\<exists>r slot'. store_text h slot inp len form (?t, type_format ?t, length (format_text (type_format ?t) ns)) = Some (r, slot') \<and>
    (case r of
       Inr t' \<Rightarrow> t' = ?t \<and> is_valid_store ?t ns slot'
     | Inl e \<Rightarrow> e = Malloc_failure \<and> (\<not> grants h 32 \<or> \<not> grants h 40 \<or> \<not> grants h (length (format_text (type_format ?t) ns) + 9)))"
    using len enc(1,2) choice(2) size by (intro store_text_spec [OF h slot]) simp_all
  have short: "minsize > 0 \<and> length ns < nat minsize \<longleftrightarrow> int (length ns) < minsize"
    "maxsize > 0 \<and> length ns > nat maxsize \<longleftrightarrow> 0 < maxsize \<and> maxsize < int (length ns)" by auto
  have run: "ASN1_mbstring_ncopy h (Some slot) inp len form m minsize maxsize =
    (if starts_with_bom form ns \<or> ?m AND NOT (unusable ns) = 0 then Some (Inl Illegal_characters, Some slot)
     else if int (length ns) < minsize then Some (Inl Too_short, Some slot)
     else if 0 < maxsize \<and> maxsize < int (length ns) then Some (Inl Too_long, Some slot)
     else map_option (apsnd Some) (store_text h slot inp len form (?t, type_format ?t, length (format_text (type_format ?t) ns))))"
    using len(1) form
    by (simp add: ASN1_mbstring_ncopy_def asked_types_def [symmetric] scan choice(1) short [simplified] del: of_int_eq_iff)
  show ?thesis
    using store unfolding run Let_def by (auto split: if_splits)
qed

theorem mbstring_ncopy_stores_text_witness:
  "case ASN1_mbstring_ncopy all_grants (Some Null_slot) [0x41, 0xc3, 0xa9] 3 MBSTRING_UTF8 0 1 8 of
     Some (Inr t, Some (Live d)) \<Rightarrow> t = 20 \<and> str_type d = 20 \<and> str_contents d = [0x41, 0xe9]
   | _ \<Rightarrow> False"
proof -
  have f: "format_text MBSTRING_UTF8 [0x41, 0xe9] = [0x41, 0xc3, 0xa9]" "best_type (asked_types 0) [0x41, 0xe9] = 20"
    "format_text (type_format 20) [0x41, 0xe9] = [0x41, 0xe9]" "\<not> starts_with_bom MBSTRING_UTF8 [0x41, 0xe9]"
    "asked_types 0 AND NOT (unusable [0x41, 0xe9]) \<noteq> 0" "known_format MBSTRING_UTF8"
    "\<forall>n\<in>set [0x41, 0xe9]. format_ok MBSTRING_UTF8 n" "slot_ok Null_slot"
    by code_simp+
  have h: "heap_ok all_grants" "grants all_grants 32" "grants all_grants 40" "grants all_grants 11"
    by (simp_all add: heap_ok_def all_grants_def)
  let ?run = "ASN1_mbstring_ncopy all_grants (Some Null_slot) [0x41, 0xc3, 0xa9] 3 MBSTRING_UTF8 0 1 8"
  obtain r slot' where run: "?run = Some (r, Some slot')"
    and res: "case r of Inr t' \<Rightarrow> t' = 20 \<and> is_valid_store 20 [0x41, 0xe9] slot' | Inl _ \<Rightarrow> False"
    using mbstring_ncopy_stores_text [OF h(1) f(8) f(6), of 3 "[0x41, 0xc3, 0xa9]" "[0x41, 0xe9]" 0 1 8] f h
    by (auto simp: cong: sum.case_cong)
  have "r = Inr 20" "is_valid_store 20 [0x41, 0xe9] slot'" using res by (cases r; simp)+
  then show ?thesis
    using f(3) run by (cases slot') (simp_all add: is_valid_store_def)
qed

text \<open>
  C28: An input that is not a text in the declared format is refused with the error of that format (or
  as an illegal character, when one comes first), whatever the destination, the permitted types and the limits; the
  destination is not touched.
\<close>

theorem mbstring_ncopy_rejects_non_text:
  assumes "known_format form" "0 \<le> len" "len < 2 ^ 31" "nat len \<le> length inp"
    and "\<nexists>ns. (\<forall>n\<in>set ns. format_ok form n) \<and> take (nat len) inp = format_text form ns"
  shows "\<exists>e. ASN1_mbstring_ncopy h out inp len form m minsize maxsize = Some (Inl e, out) \<and>
    (e = decode_error form \<or> e = Illegal_characters)"
proof -
  have u: "unat (of_int len :: u64) = nat len" by (rule unat_of_int_len [OF assms(2,3)])
  obtain e where "scan_text form (CBS_init inp (nat len)) (asked_types m) 0 0 = Inl e"
    using scan_text_rejects [of "CBS_init inp (nat len)" form "asked_types m" 0 0] assms(4,5) by auto
  then show ?thesis
    using scan_text_errors [of form "CBS_init inp (nat len)" "asked_types m" 0 0 e] assms(1,2) u
    by (simp add: ASN1_mbstring_ncopy_def asked_types_def [symmetric])
qed

theorem mbstring_ncopy_rejects_non_text_witness:
  "\<exists>e. ASN1_mbstring_ncopy all_grants (Some Null_slot) [0xd8, 0x00] 2 MBSTRING_BMP 0 0 0 = Some (Inl e, Some Null_slot) \<and>
     (e = decode_error MBSTRING_BMP \<or> e = Illegal_characters)"
proof (rule mbstring_ncopy_rejects_non_text)
  show "\<nexists>ns. (\<forall>n\<in>set ns. format_ok MBSTRING_BMP n) \<and> take (nat 2) [0xd8, 0x00] = format_text MBSTRING_BMP ns"
  proof (rule notI, elim exE conjE)
    fix ns
    assume ns: "\<forall>n\<in>set ns. format_ok MBSTRING_BMP n" "take (nat 2) [0xd8, 0x00] = format_text MBSTRING_BMP ns"
    have "scan_text MBSTRING_BMP (CBS_init [0xd8, 0x00] 2) 1 0 0 \<noteq> Inl (decode_error MBSTRING_BMP)"
      using scan_text_complete [of "CBS_init [0xd8, 0x00] 2" ns MBSTRING_BMP 1 0 0] ns by (simp add: decode_error_def mb_consts)
    moreover have "scan_text MBSTRING_BMP (CBS_init [0xd8, 0x00] 2) 1 0 0 = Inl (decode_error MBSTRING_BMP)"
      by code_simp
    ultimately show False by simp
  qed
  show "known_format MBSTRING_BMP" by (simp add: known_format_def)
qed simp_all

text \<open>
  Three observations on the code. The NUL character counts as printable, since \<open>strchr\<close> finds the terminator, so
  a text with a NUL can be given the type PrintableString. A mask with only types the code does not know gives UTF8String. When
  the conversion fails after \<open>*out\<close> was set to a fresh string, that string is freed and \<open>*out\<close> still points to it.
\<close>

lemma nul_is_printable: "is_printable 0"
  by code_simp

lemma unknown_mask_gives_utf8:
  "ASN1_mbstring_ncopy all_grants None [0x41] 1 MBSTRING_UTF8 0x40 0 0 = Some (Inr 12, None)"
  by code_simp

lemma mbstring_failure_leaves_dangling_pointer:
  "ASN1_mbstring_ncopy \<lparr>grants = (\<lambda>n. n = 32), junk = (\<lambda>_. 0)\<rparr> (Some Null_slot) [0x41] 1 MBSTRING_UTF8 0 0 0 =
     Some (Inl Malloc_failure, Some Freed)"
  by code_simp

end
