(* ===== verification/Ber.thy ===== *)
theory Ber
  imports CBB_Refine
begin

unbundle bit_operations_syntax

text \<open>
  \<open>crypto/bytestring/ber.c\<close>: conversion of BER (indefinite lengths, constructed strings) to DER, and
  strings with an implicit tag. The recursion of both walks ends because the cursor moves forward.
\<close>

section \<open>Definitions\<close>

abbreviation CBS_ASN1_BITSTRING :: u32 where "CBS_ASN1_BITSTRING \<equiv> 0x3"
abbreviation CBS_ASN1_UTF8STRING :: u32 where "CBS_ASN1_UTF8STRING \<equiv> 0xc"
abbreviation CBS_ASN1_NUMERICSTRING :: u32 where "CBS_ASN1_NUMERICSTRING \<equiv> 0x12"
abbreviation CBS_ASN1_PRINTABLESTRING :: u32 where "CBS_ASN1_PRINTABLESTRING \<equiv> 0x13"
abbreviation CBS_ASN1_T61STRING :: u32 where "CBS_ASN1_T61STRING \<equiv> 0x14"
abbreviation CBS_ASN1_VIDEOTEXSTRING :: u32 where "CBS_ASN1_VIDEOTEXSTRING \<equiv> 0x15"
abbreviation CBS_ASN1_IA5STRING :: u32 where "CBS_ASN1_IA5STRING \<equiv> 0x16"
abbreviation CBS_ASN1_GRAPHICSTRING :: u32 where "CBS_ASN1_GRAPHICSTRING \<equiv> 0x19"
abbreviation CBS_ASN1_VISIBLESTRING :: u32 where "CBS_ASN1_VISIBLESTRING \<equiv> 0x1a"
abbreviation CBS_ASN1_GENERALSTRING :: u32 where "CBS_ASN1_GENERALSTRING \<equiv> 0x1b"
abbreviation CBS_ASN1_UNIVERSALSTRING :: u32 where "CBS_ASN1_UNIVERSALSTRING \<equiv> 0x1c"
abbreviation CBS_ASN1_BMPSTRING :: u32 where "CBS_ASN1_BMPSTRING \<equiv> 0x1e"

definition kMaxDepth :: nat where "kMaxDepth = 2048"

definition is_string_type :: "u32 \<Rightarrow> bool" where
  "is_string_type tag \<longleftrightarrow>
     (tag AND NOT CBS_ASN1_CONSTRUCTED) \<in>
       {CBS_ASN1_BITSTRING, CBS_ASN1_OCTETSTRING, CBS_ASN1_UTF8STRING, CBS_ASN1_NUMERICSTRING,
        CBS_ASN1_PRINTABLESTRING, CBS_ASN1_T61STRING, CBS_ASN1_VIDEOTEXSTRING, CBS_ASN1_IA5STRING,
        CBS_ASN1_GRAPHICSTRING, CBS_ASN1_VISIBLESTRING, CBS_ASN1_GENERALSTRING,
        CBS_ASN1_UNIVERSALSTRING, CBS_ASN1_BMPSTRING}"

text \<open>The test for an indefinite length, written out twice in the code.\<close>

definition is_indefinite :: "nat \<Rightarrow> CBS \<Rightarrow> bool" where
  "is_indefinite header_len contents \<longleftrightarrow>
     CBS_len contents = header_len \<and> header_len > 0 \<and> CBS_data contents ! (header_len - 1) = 0x80"

definition is_eoc :: "nat \<Rightarrow> CBS \<Rightarrow> bool" where
  "is_eoc header_len contents \<longleftrightarrow>
     header_len = 2 \<and> CBS_len contents = 2 \<and> OPENSSL_memcmp (CBS_data contents) [0, 0] 2 = 0"

lemma parse_base128_loop_len: "parse_base128_loop c v = (Some w, c') \<Longrightarrow> cbs_len c' \<le> cbs_len c"
proof (induction c v rule: parse_base128_loop.induct)
  case (1 c v)
  show ?case
    using "1.prems" "1.IH"
    by (subst (asm) parse_base128_loop.simps)
      (fastforce simp: Let_def dest: cbs_get_u8_len less_imp_le_nat split: prod.splits option.splits if_splits)
qed

lemma parse_asn1_tag_len: "parse_asn1_tag c = (Some t, c') \<Longrightarrow> cbs_len c' < cbs_len c"
  unfolding parse_asn1_tag_def parse_base128_integer_def
  by (auto simp: on_success_Some_iff Let_def dest!: cbs_get_u8_len parse_base128_loop_len split: if_splits)

lemma any_element_len:
  assumes "cbs_get_any_asn1_element c ber = (Some (contents, tag, hl), c')"
  shows "cbs_len c' < cbs_len c \<and> 0 < hl \<and> cbs_len contents \<le> cbs_len c"
proof -
  obtain c1 where t: "parse_asn1_tag c = (Some tag, c1)"
    using assms by (auto simp: cbs_get_any_asn1_element_def Let_def on_success_Some_iff
      split: prod.splits option.splits if_splits)
  obtain b c2 where b: "CBS_get_u8 c1 = (Some b, c2)"
    using assms t by (auto simp: cbs_get_any_asn1_element_def split: prod.splits option.splits)
  have l: "cbs_len c2 < cbs_len c1" "cbs_len c1 < cbs_len c"
    using cbs_get_u8_len [OF b] parse_asn1_tag_len [OF t] by simp_all
  show ?thesis
    using assms l
    unfolding cbs_get_any_asn1_element_def t b prod.case option.case Let_def
    by (auto simp: on_success_Some_iff CBS_get_bytes_eq CBS_len_def word_less_nat_alt split: if_splits prod.splits option.splits)
qed

lemmas ber_element_len = any_element_len [where ber = True, folded CBS_get_any_ber_asn1_element_def]

lemma CBS_get_asn1_len: "CBS_get_asn1 c t = (Some out, c') \<Longrightarrow> cbs_len c' < cbs_len c"
  unfolding CBS_get_asn1_def cbs_get_asn1_def CBS_get_any_asn1_element_def
  by (auto simp: on_success_Some_iff CBS_skip_eq dest: any_element_len split: if_splits)

text \<open>The walk that looks for BER; the result is the flag, \<open>None\<close> for a parse error.\<close>

function find_ber_loop :: "CBS \<Rightarrow> bool \<Rightarrow> nat \<Rightarrow> bool option" where
  "find_ber_loop c ber_found depth =
     (if depth > kMaxDepth then None
      else if CBS_len c > 0 then
        (case CBS_get_any_ber_asn1_element c of
           (None, _) \<Rightarrow> None
         | (Some (contents, tag, header_len), c') \<Rightarrow>
             (if is_indefinite header_len contents then Some True
              else if tag AND CBS_ASN1_CONSTRUCTED \<noteq> 0 then
                (if is_string_type tag then Some True
                 else case CBS_skip contents header_len of
                   (None, _) \<Rightarrow> None
                 | (Some _, contents') \<Rightarrow>
                     (case find_ber_loop contents' False (depth + 1) of
                        None \<Rightarrow> None
                      | Some ber_found' \<Rightarrow> find_ber_loop c' ber_found' depth))
              else find_ber_loop c' ber_found depth))
      else Some ber_found)"
  by pat_completeness auto
termination
  by (relation "measure (\<lambda>(c, f, d). cbs_len c)") (auto simp: CBS_skip_eq dest: sym [THEN ber_element_len] split: if_splits)

declare find_ber_loop.simps [simp del]

definition cbs_find_ber :: "CBS \<Rightarrow> nat \<Rightarrow> bool option" where
  "cbs_find_ber orig_in depth = find_ber_loop orig_in False depth"

text \<open>
  The converter. The result is the cursor after what was consumed; where the cursor stands after a failure is not
  specified, so a failure is \<open>None\<close>. \<open>open_contents\<close> chooses \<open>out_contents\<close>: the same builder
  for a fragment of a string, a new child otherwise; it returns the depth of the builder and the string tag of the children.
\<close>

definition open_contents :: "heap \<Rightarrow> CBB \<Rightarrow> nat \<Rightarrow> u32 \<Rightarrow> u32 \<Rightarrow> (nat \<times> u32) option \<times> CBB" where
  "open_contents h out d string_tag tag =
     (if string_tag \<noteq> 0 then
        (if tag AND NOT CBS_ASN1_CONSTRUCTED \<noteq> string_tag then (None, out) else (Some (d, string_tag), out))
      else
        (let (out_tag, child_string_tag) =
               (if tag AND CBS_ASN1_CONSTRUCTED \<noteq> 0 \<and> is_string_type tag
                then (tag AND NOT CBS_ASN1_CONSTRUCTED, tag AND NOT CBS_ASN1_CONSTRUCTED)
                else (tag, string_tag))
         in on_success (CBB_add_asn1 h out d out_tag) (\<lambda>_ out'. (Some (Suc d, child_string_tag), out'))))"

function cbs_convert_ber ::
  "heap \<Rightarrow> CBS \<Rightarrow> CBB \<Rightarrow> nat \<Rightarrow> u32 \<Rightarrow> bool \<Rightarrow> nat \<Rightarrow> CBS option \<times> CBB" where
  "cbs_convert_ber h c out d string_tag looking_for_eoc depth =
     (if depth > kMaxDepth then (None, out)
      else if CBS_len c > 0 then
        (case CBS_get_any_ber_asn1_element c of
           (None, _) \<Rightarrow> (None, out)
         | (Some (contents, tag, header_len), c') \<Rightarrow>
             (if is_eoc header_len contents then (if looking_for_eoc then Some c' else None, out)
              else on_success (open_contents h out d string_tag tag) (\<lambda>(d', child_string_tag) out1.
                on_success
                  (if is_indefinite header_len contents then
                     cbs_convert_ber h c' out1 d' child_string_tag True (depth + 1)
                   else case CBS_skip contents header_len of
                     (None, _) \<Rightarrow> (None, out1)
                   | (Some _, contents') \<Rightarrow>
                       if tag AND CBS_ASN1_CONSTRUCTED \<noteq> 0 then
                         on_success (cbs_convert_ber h contents' out1 d' child_string_tag False (depth + 1))
                           (\<lambda>_ out2. (Some c', out2))
                       else
                         on_success (CBB_add_bytes h out1 d' (CBS_data contents') (CBS_len contents'))
                           (\<lambda>_ out2. (Some c', out2)))
                  (\<lambda>c'' out2.
                     on_success (CBB_flush h out2 d) (\<lambda>_ out3.
                       cbs_convert_ber h c'' out3 d string_tag looking_for_eoc depth)))))
      else (if looking_for_eoc then None else Some c, out))"
  by pat_completeness auto

termination
proof -
  txt \<open>The cursor never moves back, so the recursion ends.\<close>
  have len: "cbs_len c' \<le> cbs_len c"
    if "cbs_convert_ber_dom (h, c, out, d, st, eoc, depth)" "cbs_convert_ber h c out d st eoc depth = (Some c', out')"
    for h c out d st eoc depth c' out'
    using that
  proof (induction h c out d st eoc depth arbitrary: c' out' rule: cbs_convert_ber.pinduct)
    case (1 h c out d st eoc depth)
    note run = "1.prems" [unfolded cbs_convert_ber.psimps [OF "1.hyps"]]
    have deep: "\<not> depth > kMaxDepth" using run by (simp split: if_splits)
    show ?case
    proof (cases "CBS_len c > 0")
      case False
      then show ?thesis using run deep by (simp split: if_splits)
    next
      case True
      obtain contents tag hl c1 where el: "CBS_get_any_ber_asn1_element c = (Some (contents, tag, hl), c1)"
        using run deep True by (auto split: prod.splits option.splits)
      note len = ber_element_len [OF el]
      show ?thesis
      proof (cases "is_eoc hl contents")
        case True
        then show ?thesis using run deep \<open>CBS_len c > 0\<close> el len by (simp split: if_splits)
      next
        case neoc: False
        obtain d' child out1 where o: "open_contents h out d st tag = (Some (d', child), out1)"
          using run deep True el neoc by (auto simp: on_success_Some_iff)
        let ?mid = "if is_indefinite hl contents then cbs_convert_ber h c1 out1 d' child True (depth + 1)
          else case CBS_skip contents hl of
            (None, _) \<Rightarrow> (None, out1)
          | (Some _, contents') \<Rightarrow>
              if tag AND CBS_ASN1_CONSTRUCTED \<noteq> 0 then
                on_success (cbs_convert_ber h contents' out1 d' child False (depth + 1)) (\<lambda>_ out2. (Some c1, out2))
              else
                on_success (CBB_add_bytes h out1 d' (CBS_data contents') (CBS_len contents')) (\<lambda>_ out2. (Some c1, out2))"
        obtain c2 out2 u out3 where mid: "?mid = (Some c2, out2)" and fl: "CBB_flush h out2 d = (Some u, out3)"
          and rest: "cbs_convert_ber h c2 out3 d st eoc depth = (Some c', out')"
          using run deep True el neoc o by (auto simp: on_success_Some_iff)
        have "cbs_len c2 \<le> cbs_len c1"
        proof (cases "is_indefinite hl contents")
          case indef: True
          show ?thesis
            using "1.IH"(1) [OF deep True el [symmetric] refl refl refl neoc o refl indef] mid indef by simp
        next
          case False
          then have "c2 = c1"
            using mid by (auto simp: on_success_Some_iff split: prod.splits option.splits if_splits)
          then show ?thesis by simp
        qed
        moreover have "cbs_len c' \<le> cbs_len c2"
          by (rule "1.IH"(3) [OF deep True el [symmetric] refl refl refl neoc o refl mid fl rest])
        ultimately show ?thesis using len by simp
      qed
    qed
  qed
  show ?thesis
  proof (relation "measure (\<lambda>(h, c, out, d, st, eoc, depth). cbs_len c)", goal_cases)
    case 1
    then show ?case by simp
  next
    case 2
    then show ?case by (auto dest: sym [THEN ber_element_len])
  next
    case 3
    then show ?case by (auto simp: CBS_skip_eq dest: sym [THEN ber_element_len] split: if_splits)
  next
    case (4 h c out d st eoc depth r c1 p contents q tag hl dc s d' child out1 c2 out2 u out3)
    show ?case
    proof (cases "is_indefinite hl contents")
      case True
      then have "cbs_len c2 \<le> cbs_len c1" using 4 by (auto intro: len)
      then show ?thesis using 4 by (auto dest: sym [THEN ber_element_len])
    next
      case False
      then have "c2 = c1"
        using 4 by (auto simp: on_success_Some_iff split: prod.splits option.splits if_splits)
      then show ?thesis using 4 by (auto dest: sym [THEN ber_element_len])
    qed
  qed
qed

declare cbs_convert_ber.simps [simp del]

text \<open>
  The entry point: the converted contents, the buffer behind them (\<open>out_storage\<close>) and the cursor after the input.
\<close>

definition CBS_asn1_ber_to_der :: "heap \<Rightarrow> CBS \<Rightarrow> (CBS \<times> u8 list option \<times> CBS) option" where
  "CBS_asn1_ber_to_der h c =
     (case cbs_find_ber c 0 of
        None \<Rightarrow> None
      | Some conversion_needed \<Rightarrow>
          (if \<not> conversion_needed then
             (case CBS_get_any_asn1_element c of
                (None, _) \<Rightarrow> None
              | (Some (out, _, _), c') \<Rightarrow> Some (out, None, c'))
           else
             (case CBB_init h (CBS_len c) of
                (None, _) \<Rightarrow> None
              | (Some _, cbb) \<Rightarrow>
                  (case cbs_convert_ber h c cbb 0 0 False 0 of
                     (None, _) \<Rightarrow> None
                   | (Some c', cbb1) \<Rightarrow>
                       (case CBB_finish h cbb1 0 True True of
                          (None, _) \<Rightarrow> None
                        | (Some (data, len), _) \<Rightarrow>
                            Some (CBS_init (case data of None \<Rightarrow> [] | Some p \<Rightarrow> p) len, data, c'))))))"

text \<open>The fragments of a constructed string with an implicit tag.\<close>

function concat_chunks :: "heap \<Rightarrow> u32 \<Rightarrow> CBS \<Rightarrow> CBB \<Rightarrow> unit option \<times> CBB" where
  "concat_chunks h inner_tag child result =
     (if CBS_len child > 0 then
        (case CBS_get_asn1 child inner_tag of
           (None, _) \<Rightarrow> (None, result)
         | (Some chunk, child') \<Rightarrow>
             on_success (CBB_add_bytes h result 0 (CBS_data chunk) (CBS_len chunk)) (\<lambda>_ result'.
               concat_chunks h inner_tag child' result'))
      else (Some (), result))"
  by pat_completeness auto
termination
  by (relation "measure (\<lambda>(h, t, c, b). cbs_len c)") (auto dest: sym [THEN CBS_get_asn1_len])

declare concat_chunks.simps [simp del]

definition CBS_get_asn1_implicit_string ::
  "heap \<Rightarrow> CBS \<Rightarrow> u32 \<Rightarrow> u32 \<Rightarrow> (CBS \<times> u8 list option) option \<times> CBS" where
  "CBS_get_asn1_implicit_string h c outer_tag inner_tag =
     (if CBS_peek_asn1_tag c outer_tag then
        on_success (CBS_get_asn1 c outer_tag) (\<lambda>out c'. (Some (out, None), c'))
      else
        (case CBB_init h (CBS_len c) of
           (None, _) \<Rightarrow> (None, c)
         | (Some _, result) \<Rightarrow>
             on_success (CBS_get_asn1 c (outer_tag OR CBS_ASN1_CONSTRUCTED)) (\<lambda>child c'.
               (case concat_chunks h inner_tag child result of
                  (None, _) \<Rightarrow> (None, c')
                | (Some _, result1) \<Rightarrow>
                    (case CBB_finish h result1 0 True True of
                       (None, _) \<Rightarrow> (None, c')
                     | (Some (data, len), _) \<Rightarrow>
                         (Some (CBS_init (case data of None \<Rightarrow> [] | Some p \<Rightarrow> p) len, data), c'))))))"

end
