(* ===== verification/Ber_Properties.thy ===== *)
theory Ber_Properties
  imports Ber
begin

unbundle bit_operations_syntax

text \<open>
  BER (X.690) as trees with their encoding and their DER form, stated over the class, the constructed
  bit and the number of a tag. The converter of \<open>ber.c\<close> accepts exactly the encodings of well-formed
  trees and writes their DER form; the walk that decides whether to convert is characterised by
  \<open>ber_flag\<close> and finds BER where no element hides it; fragmented strings are concatenated.
\<close>

section \<open>BER as trees\<close>

text \<open>
  A primitive element, or a constructed one with a definite or an indefinite (\<open>True\<close>) length.
  The encoding, the DER form, and the concatenation of the fragments of a string.
\<close>

datatype ber = Prim u32 "u8 list" | Cons_elem u32 bool "ber list"

fun ber_enc :: "ber \<Rightarrow> u8 list" where
  "ber_enc (Prim t body) = der_element t body"
| "ber_enc (Cons_elem t indefinite ts) =
     (if indefinite then der_tag t @ [0x80] @ concat (map ber_enc ts) @ [0, 0]
      else der_element t (concat (map ber_enc ts)))"

fun string_body :: "ber \<Rightarrow> u8 list" where
  "string_body (Prim t body) = body"
| "string_body (Cons_elem t indefinite ts) = concat (map string_body ts)"

text \<open>
  The fields of a tag word: two bits of class, the constructed bit, the number. The strings are the
  types of the universal class that X.690 lets a sender break up: BIT STRING (3), OCTET STRING (4),
  UTF8String (12), NumericString to IA5String (18 to 22), GraphicString to UniversalString (25 to 28)
  and BMPString (30). (UTCTime, GeneralizedTime and ObjectDescriptor, which the code never converts, are left out.)
\<close>

definition is_constructed :: "u32 \<Rightarrow> bool" where
  "is_constructed t \<longleftrightarrow> odd (unat t div 2 ^ 29)"

definition primitive_tag :: "u32 \<Rightarrow> u32" where
  "primitive_tag t = of_nat (unat t div 2 ^ 30 * 2 ^ 30 + unat t mod 2 ^ 29)"

definition string_tag :: "u32 \<Rightarrow> bool" where
  "string_tag t \<longleftrightarrow> unat t div 2 ^ 30 = 0 \<and> unat t mod 2 ^ 29 \<in> {3, 4, 12, 18, 19, 20, 21, 22, 25, 26, 27, 28, 30}"

fun der_form :: "ber \<Rightarrow> u8 list" where
  "der_form (Prim t body) = der_element t body"
| "der_form (Cons_elem t indefinite ts) =
     (if string_tag t then der_element (primitive_tag t) (concat (map string_body ts))
      else der_element t (concat (map der_form ts)))"

text \<open>
  Well-formed trees. Inside a constructed string (\<open>st\<close> is its tag without the constructed bit, 0 outside) every
  element has that tag, as the code demands; the end-of-contents octets are not an element; a definite
  body fits in four length octets.
\<close>

definition child_tag :: "u32 \<Rightarrow> u32 \<Rightarrow> u32" where
  "child_tag st t = (if st \<noteq> 0 then st else if string_tag t then primitive_tag t else 0)"

fun ber_wf :: "u32 \<Rightarrow> ber \<Rightarrow> bool" where
  "ber_wf st (Prim t body) \<longleftrightarrow>
     \<not> is_constructed t \<and> (st \<noteq> 0 \<longrightarrow> t = st) \<and> length body < 2 ^ 32 \<and> \<not> (t = 0 \<and> body = [])"
| "ber_wf st (Cons_elem t indefinite ts) \<longleftrightarrow>
     is_constructed t \<and> (st \<noteq> 0 \<longrightarrow> primitive_tag t = st) \<and>
     (\<not> indefinite \<longrightarrow> length (concat (map ber_enc ts)) < 2 ^ 32) \<and> list_all (ber_wf (child_tag st t)) ts"

text \<open>An indefinite length or a string in fragments somewhere in the tree; a bit string in fragments.\<close>

fun contains_ber :: "ber \<Rightarrow> bool" where
  "contains_ber (Prim t body) \<longleftrightarrow> False"
| "contains_ber (Cons_elem t indefinite ts) \<longleftrightarrow> indefinite \<or> string_tag t \<or> list_ex contains_ber ts"




text \<open>The nesting is at most \<open>n\<close>.\<close>

fun ber_fits :: "nat \<Rightarrow> ber \<Rightarrow> bool" where
  "ber_fits n (Prim t body) \<longleftrightarrow> True"
| "ber_fits n (Cons_elem t indefinite ts) \<longleftrightarrow> 0 < n \<and> list_all (ber_fits (n - 1)) ts"

section \<open>The code's masks\<close>

lemma CONSTRUCTED_bit: "bit CBS_ASN1_CONSTRUCTED n \<longleftrightarrow> n = 29"
proof -
  have c: "CBS_ASN1_CONSTRUCTED = push_bit 29 1" by code_simp
  show ?thesis
    unfolding c by (auto simp: bit_push_bit_iff bit_1_iff simp del: push_bit_of_1)
qed

lemma constructed_iff: "is_constructed t \<longleftrightarrow> t AND CBS_ASN1_CONSTRUCTED \<noteq> 0"
proof -
  have "is_constructed t \<longleftrightarrow> bit (unat t) 29" by (simp add: is_constructed_def bit_iff_odd)
  also have "\<dots> \<longleftrightarrow> bit t 29" by (simp add: bit_unsigned_iff)
  also have "\<dots> \<longleftrightarrow> t AND CBS_ASN1_CONSTRUCTED \<noteq> 0"
  proof
    assume "bit t 29"
    then have "bit (t AND CBS_ASN1_CONSTRUCTED) 29" by (simp add: bit_and_iff CONSTRUCTED_bit)
    then show "t AND CBS_ASN1_CONSTRUCTED \<noteq> 0" by auto
  next
    assume "t AND CBS_ASN1_CONSTRUCTED \<noteq> 0"
    then obtain n where "bit (t AND CBS_ASN1_CONSTRUCTED) n" by (metis bit_eqI bit_0_eq bot_apply bot_bool_def)
    then show "bit t 29" by (auto simp: bit_and_iff CONSTRUCTED_bit)
  qed
  finally show ?thesis .
qed

lemma unat_primitive: "unat (t AND NOT CBS_ASN1_CONSTRUCTED) = unat t div 2 ^ 30 * 2 ^ 30 + unat t mod 2 ^ 29"
proof -
  have "t AND NOT CBS_ASN1_CONSTRUCTED = push_bit 30 (drop_bit 30 t) OR take_bit 29 t"
    by (rule bit_word_eqI) (auto simp: bit_simps CONSTRUCTED_bit)
  moreover have "unat (push_bit 30 (drop_bit 30 t) OR take_bit 29 t) = unat (drop_bit 30 t) * 2 ^ 30 + unat (take_bit 29 t)"
  proof (rule unat_push_bit_or)
    have "unat (take_bit 29 t) < 2 ^ 29" unfolding unsigned_take_bit_eq by (simp add: take_bit_eq_mod)
    moreover have "unat (drop_bit 30 t) \<le> 3"
    proof -
      have "unat t div 2 ^ 30 < 4" by (rule less_mult_imp_div_less) (use unsigned_less [where ?'a = nat, of t] in simp)
      then show ?thesis by (simp add: unat_drop_bit)
    qed
    ultimately show "unat (take_bit 29 t) < 2 ^ 30"
      "unat (drop_bit 30 t) * 2 ^ 30 + unat (take_bit 29 t) < 2 ^ LENGTH(32)" by simp_all
  qed
  ultimately show ?thesis
    unfolding unsigned_take_bit_eq by (simp add: unat_drop_bit take_bit_eq_mod)
qed

lemma primitive_tag_eq: "primitive_tag t = t AND NOT CBS_ASN1_CONSTRUCTED"
  unfolding primitive_tag_def unat_primitive [symmetric] by simp

text \<open>The table of the code is that of X.690.\<close>

lemma string_tag_eq: "string_tag t \<longleftrightarrow> is_string_type t"
proof -
  let ?p = "t AND NOT CBS_ASN1_CONSTRUCTED"
  have m: "unat t mod 2 ^ 29 < 2 ^ 29" by simp
  have "string_tag t \<longleftrightarrow> unat ?p \<in> {3, 4, 12, 18, 19, 20, 21, 22, 25, 26, 27, 28, 30}"
    unfolding string_tag_def unat_primitive using m by (cases "unat t div 2 ^ 30") auto
  also have "\<dots> \<longleftrightarrow> is_string_type t"
    unfolding is_string_type_def by (simp add: word_unat_eq_iff)
  finally show ?thesis .
qed

text \<open>From here on the trees are used with the masks of the code.\<close>

lemma der_form_Cons [simp]:
  "der_form (Cons_elem t i ts) =
     (if is_string_type t then der_element (t AND NOT CBS_ASN1_CONSTRUCTED) (concat (map string_body ts))
      else der_element t (concat (map der_form ts)))"
  by (simp add: string_tag_eq primitive_tag_eq)

lemma child_tag_eq: "child_tag st t = (if st \<noteq> 0 then st else if is_string_type t then t AND NOT CBS_ASN1_CONSTRUCTED else 0)"
  by (simp add: child_tag_def string_tag_eq primitive_tag_eq)

lemma ber_wf_Prim [simp]:
  "ber_wf st (Prim t body) \<longleftrightarrow>
     t AND CBS_ASN1_CONSTRUCTED = 0 \<and> (st \<noteq> 0 \<longrightarrow> t = st) \<and> length body < 2 ^ 32 \<and> \<not> (t = 0 \<and> body = [])"
  by (simp add: constructed_iff)

lemma ber_wf_Cons [simp]:
  "ber_wf st (Cons_elem t i ts) \<longleftrightarrow>
     t AND CBS_ASN1_CONSTRUCTED \<noteq> 0 \<and> (st \<noteq> 0 \<longrightarrow> t AND NOT CBS_ASN1_CONSTRUCTED = st) \<and>
     (\<not> i \<longrightarrow> length (concat (map ber_enc ts)) < 2 ^ 32) \<and> list_all (ber_wf (child_tag st t)) ts"
  by (simp add: constructed_iff primitive_tag_eq)

lemma contains_ber_Cons [simp]: "contains_ber (Cons_elem t i ts) \<longleftrightarrow> i \<or> is_string_type t \<or> list_ex contains_ber ts"
  by (simp add: string_tag_eq)

declare der_form.simps(2) [simp del] ber_wf.simps [simp del] contains_ber.simps(2) [simp del]

section \<open>Reading one element\<close>

lemma is_eoc_iff:
  "is_eoc hl (CBS_init p n) \<longleftrightarrow> hl = 2 \<and> n = 2 \<and> OPENSSL_memcmp p [0, 0] 2 = 0"
  by (simp add: is_eoc_def CBS_len_def CBS_data_def)

lemma memcmp_two_zeros: "2 \<le> length p \<Longrightarrow> OPENSSL_memcmp p [0, 0] 2 = 0 \<longleftrightarrow> take 2 p = [0, 0]"
  by (cases p; cases "tl p") (auto simp: OPENSSL_memcmp_def numeral_2_eq_2 word_uint_eq_iff)

lemma der_tag_zero: "hd (der_tag t) = 0 \<longleftrightarrow> t = 0"
proof -
  have lt: "unat t div 2 ^ 29 < 8" by (rule unat_u32_tag)
  have t: "unat t = unat t div 2 ^ 29 * 2 ^ 29 + unat t mod 2 ^ 29" by simp
  have "unat (hd (der_tag t)) = unat t div 2 ^ 29 * 32 + min (unat t mod 2 ^ 29) 31"
  proof -
    have "hd (der_tag t) = of_nat (unat t div 2 ^ 29 * 32 + min (unat t mod 2 ^ 29) 31)"
      by (simp add: der_tag_def Let_def min_def)
    then show ?thesis
      by (simp only:) (rule unat_of_nat_u8_less, use lt in linarith)
  qed
  then have "hd (der_tag t) = 0 \<longleftrightarrow> unat t div 2 ^ 29 = 0 \<and> unat t mod 2 ^ 29 = 0"
    by (simp add: word_unat_eq_iff [of "hd (der_tag t)"]) (auto simp: min_def)
  also have "\<dots> \<longleftrightarrow> unat t = 0" using t by auto
  also have "\<dots> \<longleftrightarrow> t = 0" by (simp add: word_unat_eq_iff)
  finally show ?thesis .
qed

lemma der_tag_nonempty [simp]: "der_tag t \<noteq> []"
  by (simp add: der_tag_def Let_def)

lemma is_indefinite_iff:
  "is_indefinite hl (CBS_init p n) \<longleftrightarrow> n = hl \<and> 0 < hl \<and> p ! (hl - 1) = 0x80"
  by (simp add: is_indefinite_def CBS_len_def CBS_data_def)

lemma read_definite:
  assumes ok: "cbs_ok c" and bytes: "cbs_bytes c = der_element t body @ r" and small: "length body < 2 ^ 32"
  obtains contents hl contents' c' where
    "CBS_get_any_ber_asn1_element c = (Some (contents, t, hl), c')"
    "cbs_bytes c' = r" "cbs_ok c'" "CBS_skip contents hl = (Some (), contents')"
    "cbs_bytes contents' = body" "cbs_ok contents'" "\<not> is_indefinite hl contents"
    "is_eoc hl contents \<longleftrightarrow> t = 0 \<and> body = []"
proof -
  let ?e = "der_element t body" and ?h = "der_header t (length body)"
  let ?hl = "length ?h"
  let ?contents = "CBS_init (cbs_data c) (length ?e)"
  have len: "length ?e \<le> cbs_len c" using bytes ok length_cbs_bytes [of c] by simp
  have e: "?e = ?h @ body" by (simp add: der_element_def)
  have data: "take (length ?e) (cbs_data c) = ?e"
    using take_cbs_data [OF len] bytes by simp
  have okc: "cbs_ok ?contents" using len ok by (simp add: cbs_ok_def)
  have cb: "cbs_bytes ?contents = ?e" using data by simp
  have d: "length (cbs_data c) \<ge> length ?e" using len ok by (simp add: cbs_ok_def)
  have hlast: "cbs_data c ! (?hl - 1) = last ?h" and hne: "?h \<noteq> []"
  proof -
    show ne: "?h \<noteq> []" by (simp add: der_header_def)
    have "take ?hl (cbs_data c) = ?h" using arg_cong [OF data, of "take ?hl"] by (simp add: e)
    moreover have "cbs_data c ! (?hl - 1) = take ?hl (cbs_data c) ! (?hl - 1)"
      using ne by (intro nth_take [symmetric]) simp
    ultimately show "cbs_data c ! (?hl - 1) = last ?h" using ne by (simp add: last_conv_nth)
  qed
  have indef: "\<not> is_indefinite ?hl ?contents"
  proof
    assume "is_indefinite ?hl ?contents"
    then have "body = []" "last ?h = 0x80" using hlast by (auto simp: is_indefinite_iff e)
    then show False by (simp add: der_header_def der_length_def)
  qed
  have eoc: "is_eoc ?hl ?contents \<longleftrightarrow> t = 0 \<and> body = []"
  proof
    assume "is_eoc ?hl ?contents"
    then have l: "length ?e = 2" "?hl = 2" and z: "take 2 (cbs_data c) = [0, 0]"
      using memcmp_two_zeros [of "cbs_data c"] d by (auto simp: is_eoc_iff)
    then have "?e = [0, 0]" using data by simp
    then have "hd (der_tag t) = 0" by (metis der_element_def der_header_def der_tag_nonempty hd_append2 append_is_Nil_conv list.sel(1))
    then have "t = 0" by (simp add: der_tag_zero)
    moreover have "length body = 0" using arg_cong [OF e, of length] l by simp
    ultimately show "t = 0 \<and> body = []" by simp
  next
    assume "t = 0 \<and> body = []"
    then have "?e = [0, 0]" "?hl = 2" by (simp_all add: der_element_def der_header_def der_tag_def der_length_def)
    then show "is_eoc ?hl ?contents"
      using data d memcmp_two_zeros [of "cbs_data c"] by (simp add: is_eoc_iff numeral_2_eq_2)
  qed
  show ?thesis
  proof (rule that)
    show "CBS_get_any_ber_asn1_element c = (Some (?contents, t, ?hl), cbs_adv (length ?e) c)"
      unfolding CBS_get_any_ber_asn1_element_def by (rule cbs_get_any_asn1_element_complete [OF ok bytes small])
    show "CBS_skip ?contents ?hl = (Some (), cbs_adv ?hl ?contents)" by (simp add: CBS_skip_eq e)
    show "cbs_bytes (cbs_adv (length ?e) c) = r" by (simp add: bytes)
    show "cbs_bytes (cbs_adv ?hl ?contents) = body" using cb by (simp add: e)
  qed (use ok okc indef eoc in simp_all)
qed

lemma read_indefinite:
  assumes ok: "cbs_ok c" and bytes: "cbs_bytes c = der_tag t @ [0x80] @ r" and cons: "t AND CBS_ASN1_CONSTRUCTED \<noteq> 0"
  obtains contents hl c' where
    "CBS_get_any_ber_asn1_element c = (Some (contents, t, hl), c')"
    "cbs_bytes c' = r" "cbs_ok c'" "is_indefinite hl contents" "\<not> is_eoc hl contents"
proof -
  let ?L = "length (der_tag t)"
  let ?hl = "?L + 1"
  let ?h = "der_tag t @ [0x80]"
  have tag: "parse_asn1_tag c = (Some t, cbs_adv ?L c)"
    using bytes by (intro parse_asn1_tag_complete [OF ok]) simp
  have b1: "cbs_bytes (cbs_adv ?L c) = 0x80 # r" by (simp add: bytes)
  have get: "CBS_get_u8 (cbs_adv ?L c) = (Some 0x80, cbs_adv 1 (cbs_adv ?L c))"
    using cbs_get_u8_bytes [OF _ b1] ok by simp
  have len: "?hl \<le> cbs_len c" using bytes ok length_cbs_bytes [of c] by simp
  have hl: "CBS_len c - CBS_len (cbs_adv 1 (cbs_adv ?L c)) = ?hl" using len by (simp add: CBS_len_def)
  have el: "CBS_get_any_ber_asn1_element c = (Some (CBS_init (cbs_data c) ?hl, t, ?hl), cbs_adv ?hl c)"
    using cons len
    unfolding CBS_get_any_ber_asn1_element_def cbs_get_any_asn1_element_def tag prod.case option.case get Let_def hl
    by (simp add: CBS_get_bytes_eq)
  have data: "take ?hl (cbs_data c) = ?h" using take_cbs_data [OF len] bytes by simp
  have "cbs_data c ! ?L = take ?hl (cbs_data c) ! ?L" by simp
  then have last: "cbs_data c ! ?L = 0x80" unfolding data by simp
  have neoc: "\<not> is_eoc ?hl (CBS_init (cbs_data c) ?hl)"
  proof
    assume "is_eoc ?hl (CBS_init (cbs_data c) ?hl)"
    moreover have "?hl \<le> length (cbs_data c)" using len ok by (simp add: cbs_ok_def)
    ultimately have "take ?hl (cbs_data c) = [0, 0]"
      using memcmp_two_zeros [of "cbs_data c"] by (simp add: is_eoc_iff numeral_2_eq_2)
    then show False unfolding data by simp
  qed
  show ?thesis
    by (rule that [OF el]) (use bytes ok last neoc in \<open>simp_all add: is_indefinite_iff\<close>)
qed


section \<open>The converter accepts every tree\<close>

text \<open>The two parts of the loop body, and a call that refines an operation and returns a value with a property.\<close>

definition convert_contents ::
  "heap \<Rightarrow> CBS \<Rightarrow> u32 \<Rightarrow> nat \<Rightarrow> CBS \<Rightarrow> CBB \<Rightarrow> nat \<Rightarrow> u32 \<Rightarrow> nat \<Rightarrow> CBS option \<times> CBB" where
  "convert_contents h contents tag hl c' out1 d' ct depth =
     (if is_indefinite hl contents then cbs_convert_ber h c' out1 d' ct True (depth + 1)
      else case CBS_skip contents hl of
        (None, _) \<Rightarrow> (None, out1)
      | (Some _, contents') \<Rightarrow>
          if tag AND CBS_ASN1_CONSTRUCTED \<noteq> 0 then
            on_success (cbs_convert_ber h contents' out1 d' ct False (depth + 1)) (\<lambda>_ out2. (Some c', out2))
          else
            on_success (CBB_add_bytes h out1 d' (CBS_data contents') (CBS_len contents')) (\<lambda>_ out2. (Some c', out2)))"

definition convert_element ::
  "heap \<Rightarrow> CBS \<Rightarrow> u32 \<Rightarrow> nat \<Rightarrow> CBS \<Rightarrow> CBB \<Rightarrow> nat \<Rightarrow> u32 \<Rightarrow> nat \<Rightarrow> CBS option \<times> CBB" where
  "convert_element h contents tag hl c' out d st depth =
     on_success (open_contents h out d st tag) (\<lambda>(d', ct) out1.
       on_success (convert_contents h contents tag hl c' out1 d' ct depth) (\<lambda>c'' out2.
         on_success (CBB_flush h out2 d) (\<lambda>_ out3. (Some c'', out3))))"

lemma cbs_convert_ber_eq:
  "cbs_convert_ber h c out d st eoc depth =
     (if depth > kMaxDepth then (None, out)
      else if CBS_len c > 0 then
        (case CBS_get_any_ber_asn1_element c of
           (None, _) \<Rightarrow> (None, out)
         | (Some (contents, tag, hl), c') \<Rightarrow>
             (if is_eoc hl contents then (if eoc then Some c' else None, out)
              else on_success (convert_element h contents tag hl c' out d st depth) (\<lambda>c'' out3.
                cbs_convert_ber h c'' out3 d st eoc depth)))
      else (if eoc then None else Some c, out))"
  by (subst cbs_convert_ber.simps)
    (simp add: convert_element_def convert_contents_def on_success_assoc case_prod_unfold
      cong: if_cong option.case_cong)

definition converts :: "CBB \<Rightarrow> 'a option \<times> CBB \<Rightarrow> frame list option \<Rightarrow> ('a \<Rightarrow> bool) \<Rightarrow> bool" where
  "converts b r spec P \<longleftrightarrow> refines b r spec \<and> (\<forall>v b'. r = (Some v, b') \<longrightarrow> P v)"

lemma converts_value:
  assumes "refines b r spec" "P v"
  shows "converts b (on_success r (\<lambda>_ s. (Some v, s))) spec P"
  using assms by (cases r; cases "fst r") (auto simp: converts_def refines_def)

lemma converts_seq:
  assumes "converts b res (abs_write d x fs) P" "d < length fs"
    and "\<And>v c1 fs1. P v \<Longrightarrow> cbb_rel c1 fs1 \<Longrightarrow> length fs1 = Suc d \<Longrightarrow> converts c1 (g v c1) (abs_write d y fs1) Q"
  shows "converts b (on_success res g) (abs_write d (x @ y) fs) Q"
  unfolding converts_def
proof (intro conjI allI impI)
  show "refines b (on_success res g) (abs_write d (x @ y) fs)"
    using assms by (intro refines_write_seq) (auto simp: converts_def)
next
  fix v b' assume r: "on_success res g = (Some v, b')"
  then obtain u c1 where u: "res = (Some u, c1)" "g u c1 = (Some v, b')"
    by (auto simp: on_success_Some_iff)
  then obtain fs1 where fs1: "abs_write d x fs = Some fs1" "cbb_rel c1 fs1"
    using assms(1) by (auto simp: converts_def refines_def)
  have "P u" using assms(1) u by (auto simp: converts_def)
  then show "Q v" using assms(3) [OF _ fs1(2) abs_write_length [OF fs1(1) assms(2)]] u(2) by (auto simp: converts_def)
qed

lemma refines_forget: "refines b (apfst (map_option (\<lambda>_. ())) r) spec \<longleftrightarrow> refines b r spec"
  by (cases r; cases "fst r") (auto simp: refines_def)

lemma convert_fragment:
  assumes h: "heap_ok h" and st: "st \<noteq> 0" "tag AND NOT CBS_ASN1_CONSTRUCTED = st" and d: "length fs = Suc d"
    and contents: "converts b (convert_contents h contents tag hl c' b d st depth) (abs_write d body fs) P"
  shows "converts b (convert_element h contents tag hl c' b d st depth) (abs_write d body fs) P"
proof -
  have "converts b (on_success (convert_contents h contents tag hl c' b d st depth)
      (\<lambda>c'' out2. on_success (CBB_flush h out2 d) (\<lambda>_ out3. (Some c'', out3)))) (abs_write d (body @ []) fs) P"
    using contents by (rule converts_seq) (use d CBB_flush_refines_write [OF h] in \<open>auto intro!: converts_value\<close>)
  then show ?thesis by (simp add: convert_element_def open_contents_def st)
qed

lemma convert_whole:
  fixes tag :: u32
  assumes h: "heap_ok h" and rel: "cbb_rel b fs" and d: "length fs = Suc d"
    and contents: "\<And>b1 fs1. cbb_rel b1 fs1 \<Longrightarrow> length fs1 = Suc (Suc d) \<Longrightarrow>
      converts b1 (convert_contents h contents tag hl c' b1 (Suc d)
        (if tag AND CBS_ASN1_CONSTRUCTED \<noteq> 0 then child_tag 0 tag else 0) depth) (abs_write (Suc d) body fs1) P"
    and body: "length body \<le> 0xfffffffe"
  defines "out_tag \<equiv> if tag AND CBS_ASN1_CONSTRUCTED \<noteq> 0 \<and> is_string_type tag then tag AND NOT CBS_ASN1_CONSTRUCTED else tag"
  shows "converts b (convert_element h contents tag hl c' b d 0 depth) (abs_write d (der_element out_tag body) fs) P"
proof -
  let ?ct = "if tag AND CBS_ASN1_CONSTRUCTED \<noteq> 0 then child_tag 0 tag else 0"
  let ?mid = "\<lambda>b1. convert_contents h contents tag hl c' b1 (Suc d) ?ct depth"
  let ?run = "convert_element h contents tag hl c' b d 0 depth"
  have opened: "open_contents h b d 0 tag = on_success (CBB_add_asn1 h b d out_tag) (\<lambda>_ s. (Some (Suc d, ?ct), s))"
    by (simp add: open_contents_def out_tag_def child_tag_eq)
  have run: "?run = on_success (CBB_add_asn1 h b d out_tag) (\<lambda>_ b1. on_success (?mid b1) (\<lambda>c'' out2.
      on_success (CBB_flush h out2 d) (\<lambda>_ out3. (Some c'', out3))))"
    by (simp only: convert_element_def opened on_success_assoc on_success_simps prod.case)
  have "apfst (map_option (\<lambda>_. ())) ?run =
      on_success (CBB_add_asn1 h b d out_tag) (\<lambda>_ b1. on_success (?mid b1) (\<lambda>_ out2. CBB_flush h out2 d))"
    unfolding run by (auto simp: on_success_def split: prod.splits option.splits)
  moreover have "refines b (on_success (CBB_add_asn1 h b d out_tag) (\<lambda>_ b1. on_success (?mid b1) (\<lambda>_ out2. CBB_flush h out2 d)))
      (abs_element d out_tag body fs)"
    using d contents by (intro element_refines [OF h rel]) (auto simp: converts_def)
  ultimately have "refines b ?run (abs_write d (der_element out_tag body) fs)"
    using body refines_forget [of b ?run] by (simp add: abs_element_def)
  moreover have "P v" if ran: "?run = (Some v, b')" for v b'
  proof -
    obtain b1 u v1 b2 where b1: "CBB_add_asn1 h b d out_tag = (Some u, b1)" "?mid b1 = (Some v1, b2)" "v1 = v"
      using ran unfolding run by (auto simp: on_success_Some_iff)
    obtain fs1 where fs1: "abs_open_asn1 d out_tag fs = Some fs1" "cbb_rel b1 fs1"
      using CBB_add_asn1_refines [OF h rel, of d out_tag] b1(1) d by (auto simp: refines_def)
    have "length fs1 = Suc (Suc d)"
      using fs1(1) d by (auto simp: abs_open_asn1_def dest: abs_write_length)
    then show "P v" using contents [OF fs1(2)] b1(2,3) by (auto simp: converts_def)
  qed
  ultimately show ?thesis by (simp add: converts_def)
qed

definition out_form :: "u32 \<Rightarrow> ber \<Rightarrow> u8 list" where
  "out_form st x = (if st = 0 then der_form x else string_body x)"

text \<open>The tag, the contents octets and the encoding of the converted contents of a tree.\<close>

fun ber_tag :: "ber \<Rightarrow> u32" where
  "ber_tag (Prim t body) = t"
| "ber_tag (Cons_elem t indefinite ts) = t"

fun out_body :: "u32 \<Rightarrow> ber \<Rightarrow> u8 list" where
  "out_body st (Prim t body) = body"
| "out_body st (Cons_elem t indefinite ts) = concat (map (out_form (child_tag st t)) ts)"

lemma child_tag_not_zero: "st \<noteq> 0 \<Longrightarrow> child_tag st t = st"
  by (simp add: child_tag_eq)

lemma string_type_tag: "is_string_type t \<Longrightarrow> t AND NOT CBS_ASN1_CONSTRUCTED \<noteq> 0"
  by (auto simp: is_string_type_def)

lemma out_form_string: "st \<noteq> 0 \<Longrightarrow> out_form st x = out_body st x"
proof -
  assume "st \<noteq> 0"
  then have "out_form st = string_body" by (simp add: fun_eq_iff out_form_def)
  with \<open>st \<noteq> 0\<close> show ?thesis by (cases x) (simp_all add: child_tag_not_zero)
qed

lemma out_form_element:
  "ber_wf 0 x \<Longrightarrow> out_form 0 x =
     der_element (if ber_tag x AND CBS_ASN1_CONSTRUCTED \<noteq> 0 \<and> is_string_type (ber_tag x)
       then ber_tag x AND NOT CBS_ASN1_CONSTRUCTED else ber_tag x) (out_body 0 x)"
proof (cases x)
  case (Cons_elem t i ts)
  have "is_string_type t \<Longrightarrow> out_form (child_tag 0 t) = string_body"
    by (simp add: fun_eq_iff out_form_def child_tag_eq string_type_tag)
  moreover have "\<not> is_string_type t \<Longrightarrow> out_form (child_tag 0 t) = der_form"
    by (simp add: fun_eq_iff out_form_def child_tag_eq)
  moreover assume "ber_wf 0 x"
  ultimately show ?thesis by (simp add: Cons_elem out_form_def)
qed (simp add: out_form_def)

text \<open>The loop on a list of trees.\<close>

definition input_after :: "u8 list \<Rightarrow> CBS \<Rightarrow> bool" where
  "input_after r c \<longleftrightarrow> cbs_ok c \<and> cbs_bytes c = r"

lemma converts_end: "\<lbrakk>cbb_rel b fs; length fs = Suc d; P v\<rbrakk> \<Longrightarrow> converts b (Some v, b) (abs_write d [] fs) P"
  by (simp add: converts_def abs_flush_eq_write [symmetric] abs_flush_top refines_top)

lemma and_not_constructed: "t AND CBS_ASN1_CONSTRUCTED = 0 \<Longrightarrow> t AND NOT CBS_ASN1_CONSTRUCTED = t"
proof -
  assume z: "t AND CBS_ASN1_CONSTRUCTED = 0"
  have "bit t n \<Longrightarrow> \<not> bit CBS_ASN1_CONSTRUCTED n" for n
    using arg_cong [OF z, of "\<lambda>w. bit w n"] by (simp add: bit_simps)
  then show ?thesis by (intro bit_word_eqI) (auto simp: bit_simps)
qed

lemma contents_complete:
  assumes h: "heap_ok h" and depth: "depth + n \<le> kMaxDepth" and wf: "ber_wf st x" and fits: "ber_fits n x"
    and ok: "cbs_ok c" and bytes: "cbs_bytes c = ber_enc x @ r'"
    and size: "length (out_body st x) \<le> 0xfffffffe"
    and IH: "\<And>m ts c b fs d st eoc depth r. \<lbrakk>m < n; depth + m \<le> kMaxDepth; cbs_ok c;
      cbs_bytes c = concat (map ber_enc ts) @ (if eoc then [0, 0] @ r else []); \<not> eoc \<longrightarrow> r = [];
      list_all (ber_wf st) ts; list_all (ber_fits m) ts; length (concat (map (out_form st) ts)) \<le> 0xfffffffe;
      cbb_rel b fs; length fs = Suc d\<rbrakk> \<Longrightarrow>
      converts b (cbs_convert_ber h c b d st eoc depth) (abs_write d (concat (map (out_form st) ts)) fs) (input_after r)"
  obtains contents hl c' where
    "CBS_get_any_ber_asn1_element c = (Some (contents, ber_tag x, hl), c')" "\<not> is_eoc hl contents"
    "\<And>b1 fs1 d' ct. \<lbrakk>cbb_rel b1 fs1; length fs1 = Suc d'; ber_tag x AND CBS_ASN1_CONSTRUCTED \<noteq> 0 \<longrightarrow> ct = child_tag st (ber_tag x)\<rbrakk> \<Longrightarrow>
      converts b1 (convert_contents h contents (ber_tag x) hl c' b1 d' ct depth) (abs_write d' (out_body st x) fs1) (input_after r')"
proof (cases x)
  case (Prim t body)
  have wf': "t AND CBS_ASN1_CONSTRUCTED = 0" "length body < 2 ^ 32" "\<not> (t = 0 \<and> body = [])"
    using wf by (simp_all add: Prim)
  have "cbs_bytes c = der_element t body @ r'" using bytes by (simp add: Prim)
  then obtain contents hl contents' c' where el:
    "CBS_get_any_ber_asn1_element c = (Some (contents, t, hl), c')"
    "cbs_bytes c' = r'" "cbs_ok c'" "CBS_skip contents hl = (Some (), contents')"
    "cbs_bytes contents' = body" "cbs_ok contents'" "\<not> is_indefinite hl contents"
    "is_eoc hl contents \<longleftrightarrow> t = 0 \<and> body = []"
    by (rule read_definite [OF ok _ wf'(2)])
  have len: "cbs_len contents' = length body" using length_cbs_bytes [OF el(6)] el(5) by simp
  show ?thesis
  proof (rule that)
    show "CBS_get_any_ber_asn1_element c = (Some (contents, ber_tag x, hl), c')" using el(1) by (simp add: Prim)
    show "\<not> is_eoc hl contents" using el(8) wf'(3) by blast
    fix b1 fs1 d' ct assume b1: "cbb_rel b1 fs1" "length fs1 = Suc d'"
    have "refines b1 (CBB_add_bytes h b1 d' (cbs_data contents') (cbs_len contents')) (abs_write d' (take (cbs_len contents') (cbs_data contents')) fs1)"
      using b1 len wf'(2) el(6) by (intro CBB_add_bytes_refines [OF h]) (simp_all add: cbs_ok_def)
    moreover have "take (cbs_len contents') (cbs_data contents') = body"
      using el(5) by (simp add: cbs_bytes_def)
    ultimately show "converts b1 (convert_contents h contents (ber_tag x) hl c' b1 d' ct depth) (abs_write d' (out_body st x) fs1) (input_after r')"
      using el wf'(1) by (simp add: Prim convert_contents_def CBS_data_def CBS_len_def converts_value input_after_def)
  qed
next
  case (Cons_elem t i ks)
  obtain m where m: "n = Suc m" using fits by (cases n) (simp_all add: Cons_elem)
  have wf': "t AND CBS_ASN1_CONSTRUCTED \<noteq> 0" "list_all (ber_wf (child_tag st t)) ks" "list_all (ber_fits m) ks"
    using wf fits m by (simp_all add: Cons_elem)
  have size': "length (concat (map (out_form (child_tag st t)) ks)) \<le> 0xfffffffe" using size by (simp add: Cons_elem)
  have rec: "converts b1 (cbs_convert_ber h c1 b1 d' (child_tag st t) eoc (depth + 1))
      (abs_write d' (concat (map (out_form (child_tag st t)) ks)) fs1) (input_after r)"
    if "cbb_rel b1 fs1" "length fs1 = Suc d'" "cbs_ok c1" "\<not> eoc \<longrightarrow> r = []"
      "cbs_bytes c1 = concat (map ber_enc ks) @ (if eoc then [0, 0] @ r else [])" for b1 fs1 d' c1 eoc r
    using m depth that wf'(2,3) size' by (intro IH [of m]) simp_all
  show ?thesis
  proof (cases i)
    case True
    have "cbs_bytes c = der_tag t @ [0x80] @ (concat (map ber_enc ks) @ [0, 0] @ r')"
      using bytes True by (simp add: Cons_elem)
    then obtain contents hl c' where el: "CBS_get_any_ber_asn1_element c = (Some (contents, t, hl), c')"
      "cbs_bytes c' = concat (map ber_enc ks) @ [0, 0] @ r'" "cbs_ok c'" "is_indefinite hl contents" "\<not> is_eoc hl contents"
      by (rule read_indefinite [OF ok _ wf'(1)])
    show ?thesis
    proof (rule that)
      fix b1 fs1 d' ct
      assume "cbb_rel b1 fs1" "length fs1 = Suc d'" "ber_tag x AND CBS_ASN1_CONSTRUCTED \<noteq> 0 \<longrightarrow> ct = child_tag st (ber_tag x)"
      then show "converts b1 (convert_contents h contents (ber_tag x) hl c' b1 d' ct depth) (abs_write d' (out_body st x) fs1) (input_after r')"
        using rec [of b1 fs1 d' c' True r'] el wf'(1) by (simp add: Cons_elem convert_contents_def)
    qed (use el in \<open>simp_all add: Cons_elem\<close>)
  next
    case False
    let ?body = "concat (map ber_enc ks)"
    have small: "length ?body < 2 ^ 32" using wf False by (simp add: Cons_elem)
    have "cbs_bytes c = der_element t ?body @ r'" using bytes False by (simp add: Cons_elem)
    then obtain contents hl contents' c' where el:
      "CBS_get_any_ber_asn1_element c = (Some (contents, t, hl), c')"
      "cbs_bytes c' = r'" "cbs_ok c'" "CBS_skip contents hl = (Some (), contents')"
      "cbs_bytes contents' = ?body" "cbs_ok contents'" "\<not> is_indefinite hl contents"
      "is_eoc hl contents \<longleftrightarrow> t = 0 \<and> ?body = []"
      by (rule read_definite [OF ok _ small])
    show ?thesis
    proof (rule that)
      show "\<not> is_eoc hl contents" using el(8) wf'(1) by auto
      fix b1 fs1 d' ct
      assume a: "cbb_rel b1 fs1" "length fs1 = Suc d'" "ber_tag x AND CBS_ASN1_CONSTRUCTED \<noteq> 0 \<longrightarrow> ct = child_tag st (ber_tag x)"
      then have "refines b1 (cbs_convert_ber h contents' b1 d' ct False (depth + 1)) (abs_write d' (out_body st x) fs1)"
        using rec [of b1 fs1 d' contents' False "[]"] el wf'(1) by (simp add: Cons_elem converts_def)
      then show "converts b1 (convert_contents h contents (ber_tag x) hl c' b1 d' ct depth) (abs_write d' (out_body st x) fs1) (input_after r')"
        using el wf'(1) by (simp add: Cons_elem convert_contents_def converts_value input_after_def)
    qed (use el in \<open>simp add: Cons_elem\<close>)
  qed
qed

lemma length_der_element: "length body \<le> length (der_element t body)"
  by (simp add: der_element_def)

lemma cbs_convert_ber_complete:
  assumes "heap_ok h" "depth + n \<le> kMaxDepth"
    and "cbs_ok c" "cbs_bytes c = concat (map ber_enc ts) @ (if eoc then [0, 0] @ r else [])" "\<not> eoc \<longrightarrow> r = []"
    and "list_all (ber_wf st) ts" "list_all (ber_fits n) ts" "length (concat (map (out_form st) ts)) \<le> 0xfffffffe"
    and "cbb_rel b fs" "length fs = Suc d"
  shows "converts b (cbs_convert_ber h c b d st eoc depth) (abs_write d (concat (map (out_form st) ts)) fs) (input_after r)"
  using assms
proof (induction n arbitrary: ts c b fs d st eoc depth r rule: less_induct)
  case (less n)
  note outer = less.IH
  from less.prems(3-) show ?case
  proof (induction ts arbitrary: c b fs)
    case Nil
    show ?case
    proof (cases eoc)
      case True
      have "cbs_bytes c = der_element 0 [] @ r"
        using Nil.prems(2) True by (simp add: der_element_def der_header_def der_tag_def der_length_def)
      then obtain contents hl contents' c' where el:
        "CBS_get_any_ber_asn1_element c = (Some (contents, 0, hl), c')"
        "cbs_bytes c' = r" "cbs_ok c'" "CBS_skip contents hl = (Some (), contents')"
        "cbs_bytes contents' = []" "cbs_ok contents'" "\<not> is_indefinite hl contents"
        "is_eoc hl contents \<longleftrightarrow> (0 :: u32) = 0 \<and> ([] :: u8 list) = []"
        by (rule read_definite [OF Nil.prems(1)]) simp_all
      have "input_after r c'" "is_eoc hl contents" using el by (simp_all add: input_after_def)
      note this el(1)
      moreover have "CBS_len c > 0" using Nil.prems(1,2) True length_cbs_bytes [of c] by (simp add: CBS_len_def)
      ultimately show ?thesis
        using True less.prems(2) Nil.prems by (simp add: cbs_convert_ber_eq [of h c] converts_end)
    next
      case False
      then have "CBS_len c = 0" using Nil.prems(1,2) length_cbs_bytes [of c] by (simp add: CBS_len_def)
      then show ?thesis
        using False less.prems(2) Nil.prems by (simp add: cbs_convert_ber_eq [of h c] converts_end input_after_def)
    qed
  next
    case (Cons x ts)
    let ?r = "concat (map ber_enc ts) @ (if eoc then [0, 0] @ r else [])"
    have bytes: "cbs_bytes c = ber_enc x @ ?r" using Cons.prems(2) by simp
    have wf: "ber_wf st x" "list_all (ber_wf st) ts" and fit: "ber_fits n x" "list_all (ber_fits n) ts"
      and size: "length (out_form st x) \<le> 0xfffffffe" "length (concat (map (out_form st) ts)) \<le> 0xfffffffe"
      using Cons.prems(4-6) by simp_all
    have body: "length (out_body st x) \<le> 0xfffffffe"
      using size(1) out_form_string [of st x] out_form_element [of x] wf(1) length_der_element
      by (cases "st = 0") (auto intro: order_trans)
    obtain contents hl c' where el: "CBS_get_any_ber_asn1_element c = (Some (contents, ber_tag x, hl), c')" "\<not> is_eoc hl contents"
      and contents: "\<And>b1 fs1 d' ct. \<lbrakk>cbb_rel b1 fs1; length fs1 = Suc d'; ber_tag x AND CBS_ASN1_CONSTRUCTED \<noteq> 0 \<longrightarrow> ct = child_tag st (ber_tag x)\<rbrakk> \<Longrightarrow>
        converts b1 (convert_contents h contents (ber_tag x) hl c' b1 d' ct depth) (abs_write d' (out_body st x) fs1) (input_after ?r)"
      by (rule contents_complete [OF less.prems(1,2) wf(1) fit(1) Cons.prems(1) bytes body outer [OF _ less.prems(1)]])
        (assumption+, rule that, assumption+)
    have element: "converts b (convert_element h contents (ber_tag x) hl c' b d st depth) (abs_write d (out_form st x) fs) (input_after ?r)"
    proof (cases "st = 0")
      case True
      show ?thesis
        unfolding True out_form_element [OF wf(1) [unfolded True]]
        by (rule convert_whole [OF less.prems(1) Cons.prems(7,8)])
          (use contents body True in simp_all)
    next
      case False
      have "ber_tag x AND NOT CBS_ASN1_CONSTRUCTED = st" using wf(1) False by (cases x) (auto simp: and_not_constructed)
      then show ?thesis
        unfolding out_form_string [OF False]
        by (rule convert_fragment [OF less.prems(1) False _ Cons.prems(8)])
          (use contents [OF Cons.prems(7,8)] False child_tag_not_zero in simp)
    qed
    have rest: "converts c1 (cbs_convert_ber h v c1 d st eoc depth) (abs_write d (concat (map (out_form st) ts)) fs1) (input_after r)"
      if "input_after ?r v" "cbb_rel c1 fs1" "length fs1 = Suc d" for v c1 fs1
      using that Cons.prems(3) wf fit size by (intro Cons.IH) (simp_all add: input_after_def)
    have "converts b (on_success (convert_element h contents (ber_tag x) hl c' b d st depth)
        (\<lambda>c'' out3. cbs_convert_ber h c'' out3 d st eoc depth)) (abs_write d (out_form st x @ concat (map (out_form st) ts)) fs) (input_after r)"
      using element by (rule converts_seq) (use rest Cons.prems(8) in simp_all)
    moreover have "CBS_len c > 0" using ber_element_len [OF el(1)] by (simp add: CBS_len_def)
    ultimately show ?case
      using el less.prems(2) by (simp add: cbs_convert_ber_eq [of h c])
  qed
qed

section \<open>The converter accepts only trees\<close>





section \<open>The size of the result\<close>

lemma length_concat_le:
  "(\<And>x. x \<in> set ts \<Longrightarrow> length (f x) \<le> k * length (g x)) \<Longrightarrow> length (concat (map f ts)) \<le> k * length (concat (map g ts))"
  by (induction ts) (auto simp: add_mult_distrib2 intro: add_mono)

lemma length_concat_mem: "x \<in> set ts \<Longrightarrow> length (g x) \<le> length (concat (map g ts))"
  by (induction ts) auto

lemma length_der_length: "1 \<le> length (der_length n)" "n < 2 ^ 32 \<Longrightarrow> length (der_length n) \<le> 5"
  using byte_len_le_iff [of n 4] by (auto simp: der_length_def)

lemma length_ber_enc_ge: "length (der_tag t) + 1 + length (concat (map ber_enc ts)) \<le> length (ber_enc (Cons_elem t i ts))"
  using length_der_length(1) by (simp add: der_element_def der_header_def)

lemma length_string_body: "length (string_body x) \<le> length (ber_enc x)"
proof (induction x)
  case (Cons_elem t i ts)
  have "length (concat (map string_body ts)) \<le> 1 * length (concat (map ber_enc ts))"
    using Cons_elem by (intro length_concat_le) simp
  then show ?case using length_ber_enc_ge [of t ts i] by simp
qed (simp add: der_element_def)

lemma string_tag_length: "is_string_type t \<Longrightarrow> length (der_tag (t AND NOT CBS_ASN1_CONSTRUCTED)) = 1"
  by (auto simp: is_string_type_def der_tag_def Let_def)

lemma length_der_form: "length (ber_enc x) < 2 ^ 30 \<Longrightarrow> length (der_form x) \<le> 3 * length (ber_enc x)"
proof (induction x)
  case (Cons_elem t i ts)
  let ?n = "length (concat (map ber_enc ts))"
  have n: "length (der_tag t) + 1 + ?n \<le> length (ber_enc (Cons_elem t i ts))" by (rule length_ber_enc_ge)
  have tag: "1 \<le> length (der_tag t)" using der_tag_nonempty [of t] by (cases "der_tag t") simp_all
  have small: "?n < 2 ^ 30" using n Cons_elem.prems by linarith
  show ?case
  proof (cases "is_string_type t")
    case True
    have b: "length (concat (map string_body ts)) \<le> 1 * ?n"
      by (rule length_concat_le) (simp add: length_string_body)
    then have "length (der_length (length (concat (map string_body ts)))) \<le> 5"
      using small by (intro length_der_length(2)) simp
    then have "length (der_form (Cons_elem t i ts)) \<le> 6 + ?n"
      using b string_tag_length [OF True] by (simp add: True der_element_def der_header_def)
    then show ?thesis using n tag by linarith
  next
    case False
    have b: "length (concat (map der_form ts)) \<le> 3 * ?n"
      using Cons_elem.IH small length_concat_mem [of _ ts ber_enc] by (intro length_concat_le) fastforce
    then have "length (der_length (length (concat (map der_form ts)))) \<le> 5"
      using small by (intro length_der_length(2)) simp
    then have "length (der_form (Cons_elem t i ts)) \<le> length (der_tag t) + 5 + 3 * ?n"
      using b by (simp add: False der_element_def der_header_def)
    then show ?thesis using n tag by linarith
  qed
qed simp

section \<open>The walk that looks for BER\<close>

text \<open>
  The flag the walk ends with: a constructed element that holds no BER resets what an earlier one has set.
\<close>

fun ber_flag :: "bool \<Rightarrow> ber list \<Rightarrow> bool" where
  "ber_flag f [] = f"
| "ber_flag f (Prim t body # ts) = ber_flag f ts"
| "ber_flag f (Cons_elem t indefinite ks # ts) =
     (if indefinite \<or> is_string_type t then True else ber_flag (ber_flag False ks) ts)"

lemma find_ber_loop_trees:
  assumes "cbs_ok c" "cbs_bytes c = concat (map ber_enc ts)" "depth + n \<le> kMaxDepth"
    "list_all (ber_wf 0) ts" "list_all (ber_fits n) ts"
  shows "find_ber_loop c f depth = Some (ber_flag f ts)"
  using assms
proof (induction f ts arbitrary: c depth n rule: ber_flag.induct)
  case (1 f)
  then have "CBS_len c = 0" using length_cbs_bytes [of c] by (simp add: CBS_len_def)
  then show ?case using 1 by (simp add: find_ber_loop.simps [of c])
next
  case (2 f t body ts)
  have b: "cbs_bytes c = der_element t body @ concat (map ber_enc ts)" and small: "length body < 2 ^ 32"
    and t: "t AND CBS_ASN1_CONSTRUCTED = 0"
    using "2.prems" by simp_all
  obtain contents hl contents' c' where el:
    "CBS_get_any_ber_asn1_element c = (Some (contents, t, hl), c')"
    "cbs_bytes c' = concat (map ber_enc ts)" "cbs_ok c'" "CBS_skip contents hl = (Some (), contents')"
    "cbs_bytes contents' = body" "cbs_ok contents'" "\<not> is_indefinite hl contents"
    "is_eoc hl contents \<longleftrightarrow> t = 0 \<and> body = []"
    by (rule read_definite [OF "2.prems"(1) b small])
  have "find_ber_loop c' f depth = Some (ber_flag f ts)"
    using el "2.prems" by (intro "2.IH") simp_all
  moreover have "CBS_len c > 0" using ber_element_len [OF el(1)] by (simp add: CBS_len_def)
  ultimately show ?case using el t "2.prems"(3) by (simp add: find_ber_loop.simps [of c])
next
  case (3 f t i ks ts)
  have t: "t AND CBS_ASN1_CONSTRUCTED \<noteq> 0" using "3.prems" by simp
  show ?case
  proof (cases i)
    case True
    have b: "cbs_bytes c = der_tag t @ [0x80] @ (concat (map ber_enc ks) @ [0, 0] @ concat (map ber_enc ts))"
      using "3.prems" True by simp
    obtain contents hl c' where el: "CBS_get_any_ber_asn1_element c = (Some (contents, t, hl), c')"
      "cbs_bytes c' = concat (map ber_enc ks) @ [0, 0] @ concat (map ber_enc ts)" "cbs_ok c'" "is_indefinite hl contents" "\<not> is_eoc hl contents"
      by (rule read_indefinite [OF "3.prems"(1) b t])
    moreover have "CBS_len c > 0" using ber_element_len [OF el(1)] by (simp add: CBS_len_def)
    ultimately show ?thesis using True "3.prems"(3) by (simp add: find_ber_loop.simps [of c])
  next
    case False
    let ?body = "concat (map ber_enc ks)"
    have b: "cbs_bytes c = der_element t ?body @ concat (map ber_enc ts)" and small: "length ?body < 2 ^ 32"
      using "3.prems" False by simp_all
    obtain contents hl contents' c' where el:
      "CBS_get_any_ber_asn1_element c = (Some (contents, t, hl), c')"
      "cbs_bytes c' = concat (map ber_enc ts)" "cbs_ok c'" "CBS_skip contents hl = (Some (), contents')"
      "cbs_bytes contents' = ?body" "cbs_ok contents'" "\<not> is_indefinite hl contents"
      "is_eoc hl contents \<longleftrightarrow> t = 0 \<and> ?body = []"
      by (rule read_definite [OF "3.prems"(1) b small])
    have pos: "CBS_len c > 0" using ber_element_len [OF el(1)] by (simp add: CBS_len_def)
    show ?thesis
    proof (cases "is_string_type t")
      case True
      then show ?thesis using el pos t "3.prems"(3) by (simp add: find_ber_loop.simps [of c])
    next
      case str: False
      obtain m where m: "n = Suc m" "list_all (ber_fits m) ks" using "3.prems" by (cases n) simp_all
      have "list_all (ber_wf 0) ks" using "3.prems" str by (simp add: child_tag_eq)
      then have "find_ber_loop contents' False (depth + 1) = Some (ber_flag False ks)"
        using el m "3.prems" False str by (intro "3.IH"(1) [of _ _ m]) simp_all
      moreover have "find_ber_loop c' (ber_flag False ks) depth = Some (ber_flag (ber_flag False ks) ts)"
        using el "3.prems" False str by (intro "3.IH"(2) [of _ _ n]) simp_all
      ultimately show ?thesis using el pos t str False "3.prems"(3) by (simp add: find_ber_loop.simps [of c])
    qed
  qed
qed

section \<open>Properties\<close>

lemma convert_trees:
  assumes h: "heap_ok h" and c: "cbs_ok c" "cbs_len c < 2 ^ 30" "cbs_bytes c = concat (map ber_enc ts)"
    and wf: "list_all (ber_wf 0) ts" "list_all (ber_fits kMaxDepth) ts"
    and init: "CBB_init h (CBS_len c) = (Some u, b)"
  shows "case cbs_convert_ber h c b 0 0 False 0 of
      (None, _) \<Rightarrow> cbs_len c < length (concat (map der_form ts))
    | (Some c', b') \<Rightarrow> cbs_bytes c' = [] \<and> cbb_rel b' [(Prefixed 0, concat (map der_form ts))] \<and> cbs_len c \<le> cbb_cap b'"
proof -
  have b: "cbb_rel b [(Prefixed 0, [])]" "cbb_cap b = cbs_len c"
    using CBB_init_rel [OF h, of "CBS_len c"] init c(2) by (simp_all add: CBS_len_def)
  have len: "length (concat (map ber_enc ts)) = cbs_len c" using length_cbs_bytes [OF c(1)] c(3) by simp
  have "length (concat (map der_form ts)) \<le> 3 * length (concat (map ber_enc ts))"
    using length_der_form length_concat_mem [of _ ts ber_enc] len c(2) by (intro length_concat_le) fastforce
  then have "length (concat (map (out_form 0) ts)) \<le> 0xfffffffe"
    using len c(2) by (simp add: out_form_def [abs_def])
  then have "converts b (cbs_convert_ber h c b 0 0 False 0) (abs_write 0 (concat (map (out_form 0) ts)) [(Prefixed 0, [])]) (input_after [])"
    using c wf b(1) by (intro cbs_convert_ber_complete [OF h, of 0 kMaxDepth]) simp_all
  then have run: "refines b (cbs_convert_ber h c b 0 0 False 0) (abs_write 0 (concat (map der_form ts)) [(Prefixed 0, [])])"
    and after: "\<And>c' b'. cbs_convert_ber h c b 0 0 False 0 = (Some c', b') \<Longrightarrow> cbs_bytes c' = []"
    by (auto simp: converts_def input_after_def out_form_def [abs_def])
  show ?thesis
    using refines_fresh [OF run] after b(2) by (auto split: prod.splits option.splits)
qed

lemma ber_to_der_trees:
  assumes h: "heap_ok h" and c: "cbs_ok c" "cbs_len c < 2 ^ 30" "cbs_bytes c = concat (map ber_enc ts)" "ts \<noteq> []"
    and wf: "list_all (ber_wf 0) ts" "list_all (ber_fits kMaxDepth) ts"
  shows "case CBS_asn1_ber_to_der h c of
      Some (out, storage, c') \<Rightarrow>
        cbs_ok out \<and>
        (if ber_flag False ts then cbs_bytes out = concat (map der_form ts) \<and> cbs_bytes c' = []
         else cbs_bytes out = ber_enc (hd ts) \<and> storage = None \<and> cbs_bytes c' = concat (map ber_enc (tl ts)))
    | None \<Rightarrow> ber_flag False ts \<and>
        (\<not> grants h (cbs_len c + 8) \<or> \<not> grants h 40 \<or> cbs_len c < length (concat (map der_form ts)))"
proof -
  have find: "cbs_find_ber c 0 = Some (ber_flag False ts)"
    unfolding cbs_find_ber_def by (rule find_ber_loop_trees [OF c(1,3) _ wf]) simp
  obtain x xs where ts: "ts = x # xs" using c(4) by (cases ts) auto
  show ?thesis
  proof (cases "ber_flag False ts")
    case False
    have "\<exists>t body. ber_enc x = der_element t body \<and> length body < 2 ^ 32"
      using False wf(1) by (cases x) (auto simp: ts split: if_splits)
    then obtain t body where x: "ber_enc x = der_element t body" "length body < 2 ^ 32" by blast
    have bytes: "cbs_bytes c = der_element t body @ concat (map ber_enc xs)" using c(3) by (simp add: ts x)
    have "length (der_element t body) \<le> cbs_len c" using bytes length_cbs_bytes [OF c(1)] by simp
    moreover from this have "take (length (der_element t body)) (cbs_data c) = der_element t body"
      using take_cbs_data [of _ c] bytes by simp
    moreover have "cbs_len c \<le> length (cbs_data c)" using c(1) by (simp add: cbs_ok_def)
    ultimately show ?thesis
      using find False cbs_get_any_asn1_element_complete [OF c(1) bytes x(2), of False] bytes
      by (simp add: CBS_asn1_ber_to_der_def CBS_get_any_asn1_element_def ts x)
  next
    case True
    obtain i b where init: "CBB_init h (CBS_len c) = (i, b)" by fastforce
    show ?thesis
    proof (cases i)
      case None
      then show ?thesis
        using CBB_init_fails [of h "CBS_len c" b] init find True c(2) by (auto simp: CBS_asn1_ber_to_der_def CBS_len_def)
    next
      case (Some u)
      obtain r b1 where run: "cbs_convert_ber h c b 0 0 False 0 = (r, b1)" by fastforce
      note conv = convert_trees [OF h c(1-3) wf init [unfolded Some], unfolded run]
      show ?thesis
      proof (cases r)
        case None
        then show ?thesis using conv init Some run find True by (simp add: CBS_asn1_ber_to_der_def)
      next
        case r: (Some c')
        then have b1: "cbb_rel b1 [(Prefixed 0, concat (map der_form ts))]" "cbs_len c \<le> cbb_cap b1" "cbs_bytes c' = []"
          using conv by simp_all
        show ?thesis
          using CBB_finish_root [OF h b1(1)] b1(2,3) init Some run r find True
          by (auto simp: CBS_asn1_ber_to_der_def split: prod.splits option.splits)
      qed
    qed
  qed
qed













text \<open>
  Four observations on the code. A constructed element without BER resets the flag that an earlier sibling has
  set, so BER can be returned as if it were DER; what follows the element in the input is converted and consumed
  with it; BER lengths that are not minimal are refused; and the fragments of a bit string are joined with their
  unused-bits octets.
\<close>

lemma ber_to_der_misses_BER:
  assumes "heap_ok h"
  defines "t \<equiv> Cons_elem 0x20000010 False
    [Cons_elem 0x20000010 False [Cons_elem 0x20000010 True []], Cons_elem 0x20000010 False []]"
  shows "\<exists>out c'. CBS_asn1_ber_to_der h (CBS_init (ber_enc t) 10) = Some (out, None, c') \<and> cbs_bytes out = ber_enc t"
proof -
  have tag: "der_tag 0x20000010 = [0x30]" by code_simp
  then have short: "der_element 0x20000010 body = 0x30 # of_nat (length body) # body" if "length body < 128" for body
    using that by (simp add: der_element_def der_header_def der_length_def)
  have e: "ber_enc (Cons_elem 0x20000010 True []) = [0x30, 0x80, 0x00, 0x00]"
    "ber_enc (Cons_elem 0x20000010 False [Cons_elem 0x20000010 True []]) = [0x30, 0x04, 0x30, 0x80, 0x00, 0x00]"
    "ber_enc (Cons_elem 0x20000010 False []) = [0x30, 0x00]"
    by (simp_all add: tag short)
  have t: "length (ber_enc t) = 10" "ber_flag False [t] = False"
    by (simp_all add: t_def tag short is_string_type_def CBS_ASN1_CONSTRUCTED_def CBS_ASN1_TAG_SHIFT_def)
  have wf: "list_all (ber_wf 0) [t]" "list_all (ber_fits kMaxDepth) [t]"
    by (simp_all add: t_def e child_tag_eq is_string_type_def CBS_ASN1_CONSTRUCTED_def CBS_ASN1_TAG_SHIFT_def
      kMaxDepth_def del: ber_enc.simps)
  show ?thesis
    using ber_to_der_trees [OF assms(1), of "CBS_init (ber_enc t) 10" "[t]"] t wf by (auto split: option.splits)
qed

lemma ber_to_der_converts_trailing_data:
  "\<exists>out storage c'. CBS_asn1_ber_to_der all_grants (CBS_init [0x24, 0x80, 0x04, 0x01, 0xaa, 0x00, 0x00, 0x02, 0x01, 0x05] 10) = Some (out, storage, c') \<and>
     cbs_bytes out = [0x04, 0x01, 0xaa, 0x02, 0x01, 0x05] \<and> cbs_bytes c' = []"
proof -
  let ?in = "[0x24, 0x80, 0x04, 0x01, 0xaa, 0x00, 0x00, 0x02, 0x01, 0x05] :: u8 list"
  let ?ts = "[Cons_elem 0x20000004 True [Prim 4 [0xaa]], Prim 2 [5]]"
  have h: "heap_ok all_grants" "grants all_grants 18" "grants all_grants 40" by (simp_all add: heap_ok_def all_grants_def)
  have t: "take 10 ?in = concat (map ber_enc ?ts)" "ber_flag False ?ts" "concat (map der_form ?ts) = [0x04, 0x01, 0xaa, 0x02, 0x01, 0x05]"
    by code_simp+
  have wf: "list_all (ber_wf 0) ?ts" "list_all (ber_fits kMaxDepth) ?ts"
    by (simp_all add: child_tag_eq is_string_type_def CBS_ASN1_CONSTRUCTED_def CBS_ASN1_TAG_SHIFT_def kMaxDepth_def)
  show ?thesis
    using ber_to_der_trees [OF h(1), of "CBS_init ?in 10" ?ts] t wf h by (auto split: option.splits)
qed

lemma ber_to_der_refuses_long_length: "CBS_asn1_ber_to_der h (CBS_init [0x04, 0x81, 0x01, 0xaa] 4) = None"
proof -
  let ?c = "CBS_init [0x04, 0x81, 0x01, 0xaa] 4"
  have "fst (CBS_get_any_ber_asn1_element ?c) = None" by code_simp
  then obtain c' where "CBS_get_any_ber_asn1_element ?c = (None, c')"
    by (cases "CBS_get_any_ber_asn1_element ?c") simp
  then have "find_ber_loop ?c False 0 = None"
    by (subst find_ber_loop.simps) (simp only: prod.case option.case CBS_len_def cbs_init_sel, simp)
  then show ?thesis by (simp only: CBS_asn1_ber_to_der_def cbs_find_ber_def option.case)
qed

lemma ber_to_der_joins_unused_bits_octets:
  "\<exists>out storage c'. CBS_asn1_ber_to_der all_grants (CBS_init [0x23, 0x80, 0x03, 0x02, 0x00, 0xaa, 0x03, 0x02, 0x00, 0xbb, 0x00, 0x00] 12) =
       Some (out, storage, c') \<and> cbs_bytes out = [0x03, 0x04, 0x00, 0xaa, 0x00, 0xbb]"
proof -
  let ?in = "[0x23, 0x80, 0x03, 0x02, 0x00, 0xaa, 0x03, 0x02, 0x00, 0xbb, 0x00, 0x00] :: u8 list"
  let ?ts = "[Cons_elem 0x20000003 True [Prim 3 [0x00, 0xaa], Prim 3 [0x00, 0xbb]]]"
  have h: "heap_ok all_grants" "grants all_grants 20" "grants all_grants 40" by (simp_all add: heap_ok_def all_grants_def)
  have t: "take 12 ?in = concat (map ber_enc ?ts)" "ber_flag False ?ts" "concat (map der_form ?ts) = [0x03, 0x04, 0x00, 0xaa, 0x00, 0xbb]"
    by code_simp+
  have wf: "list_all (ber_wf 0) ?ts" "list_all (ber_fits kMaxDepth) ?ts"
    by (simp_all add: child_tag_eq is_string_type_def CBS_ASN1_CONSTRUCTED_def CBS_ASN1_TAG_SHIFT_def kMaxDepth_def)
  show ?thesis
    using ber_to_der_trees [OF h(1), of "CBS_init ?in 12" ?ts] t wf h by (auto split: option.splits)
qed

section \<open>Strings with an implicit tag\<close>

lemma peek_element: "\<lbrakk>cbs_ok c; cbs_bytes c = der_element t body @ r\<rbrakk> \<Longrightarrow> CBS_peek_asn1_tag c t' \<longleftrightarrow> t' = t"
proof -
  assume ok: "cbs_ok c" and b: "cbs_bytes c = der_element t body @ r"
  have "parse_asn1_tag c = (Some t, cbs_adv (length (der_tag t)) c)"
    using b by (intro parse_asn1_tag_complete [OF ok]) (simp add: der_element_def der_header_def)
  moreover have "0 < cbs_len c"
    using b length_cbs_bytes [OF ok] by (cases "cbs_len c") (simp_all add: der_element_def der_header_def)
  ultimately show ?thesis by (simp add: CBS_peek_asn1_tag_def CBS_len_def)
qed

lemma concat_chunks_refines:
  assumes "heap_ok h" "cbs_ok child" "cbs_bytes child = concat (map (der_element t) chunks)" "cbs_len child < 2 ^ 30"
    and "cbb_rel b fs" "length fs = 1"
  shows "refines b (concat_chunks h t child b) (abs_write 0 (concat chunks) fs)"
  using assms(2-)
proof (induction chunks arbitrary: child b fs)
  case Nil
  then have "CBS_len child = 0" using length_cbs_bytes [of child] by (simp add: CBS_len_def)
  then show ?case
    using Nil by (simp add: concat_chunks.simps [of h t child] abs_flush_eq_write [symmetric] abs_flush_top refines_top)
next
  case (Cons x chunks)
  have len: "length (der_element t x) \<le> cbs_len child"
    using length_cbs_bytes [OF Cons.prems(1)] Cons.prems(2) by simp
  then have small: "length x < 2 ^ 30" using length_der_element [of x t] Cons.prems(3) by linarith
  have bytes: "cbs_bytes child = der_element t x @ concat (map (der_element t) chunks)" using Cons.prems(2) by simp
  obtain out where get: "CBS_get_asn1 child t = (Some out, cbs_adv (length (der_element t x)) child)"
    and out: "cbs_ok out" "cbs_bytes out = x"
    using CBS_get_asn1_complete [OF Cons.prems(1) bytes] small by auto
  have n: "cbs_len out = length x" using length_cbs_bytes [OF out(1)] out(2) by simp
  have "refines b (CBB_add_bytes h b 0 (cbs_data out) (cbs_len out)) (abs_write 0 (take (cbs_len out) (cbs_data out)) fs)"
    using Cons.prems(4,5) small n out(1) by (intro CBB_add_bytes_refines [OF assms(1)]) (simp_all add: cbs_ok_def)
  moreover have "take (cbs_len out) (cbs_data out) = x" using out(2) by (simp add: cbs_bytes_def)
  ultimately have add: "refines b (CBB_add_bytes h b 0 (CBS_data out) (CBS_len out)) (abs_write 0 x fs)"
    by (simp add: CBS_data_def CBS_len_def)
  have "CBS_len child > 0" using CBS_get_asn1_len [OF get] by (simp add: CBS_len_def)
  moreover have "refines b (on_success (CBB_add_bytes h b 0 (CBS_data out) (CBS_len out))
      (\<lambda>_ b'. concat_chunks h t (cbs_adv (length (der_element t x)) child) b')) (abs_write 0 (x @ concat chunks) fs)"
    using add by (rule refines_write_seq) (use Cons.prems bytes in \<open>auto intro!: Cons.IH\<close>)
  ultimately show ?case by (simp add: concat_chunks.simps [of h t child] get)
qed

text \<open>
  C9: A string with an implicit tag comes back whole, whether it is one primitive element or a constructed one made of
  primitive fragments: the result is the contents, or the fragments one after the other in a buffer of their own. Only
  an allocation can fail, and only for fragments.
\<close>

theorem implicit_string_concatenates:
  assumes h: "heap_ok h" and c: "cbs_ok c" "cbs_len c < 2 ^ 30" and outer: "outer AND CBS_ASN1_CONSTRUCTED = 0"
    and bytes: "cbs_bytes c = (if in_fragments then der_element (outer OR CBS_ASN1_CONSTRUCTED) (concat (map (der_element inner) chunks))
      else der_element outer (concat chunks)) @ r"
  shows "case CBS_get_asn1_implicit_string h c outer inner of
      (Some (out, storage), c') \<Rightarrow> cbs_bytes out = concat chunks \<and> cbs_bytes c' = r \<and> (\<not> in_fragments \<longrightarrow> storage = None)
    | (None, _) \<Rightarrow> in_fragments \<and> (\<not> grants h (cbs_len c + 8) \<or> \<not> grants h 40)"
proof (cases in_fragments)
  case False
  have b: "cbs_bytes c = der_element outer (concat chunks) @ r" using bytes False by simp
  have "length (concat chunks) < 2 ^ 30"
    using length_der_element [of "concat chunks" outer] length_cbs_bytes [OF c(1)] c(2) b by simp
  then obtain out where "CBS_get_asn1 c outer = (Some out, cbs_adv (length (der_element outer (concat chunks))) c)"
    "cbs_bytes out = concat chunks"
    using CBS_get_asn1_complete [OF c(1) b] by auto
  then show ?thesis
    using False peek_element [OF c(1) b, of outer] b by (simp add: CBS_get_asn1_implicit_string_def)
next
  case True
  let ?t = "outer OR CBS_ASN1_CONSTRUCTED" and ?body = "concat (map (der_element inner) chunks)"
  have b: "cbs_bytes c = der_element ?t ?body @ r" using bytes True by simp
  have len: "length ?body < 2 ^ 30" "length (der_element ?t ?body) \<le> cbs_len c"
    using length_der_element [of ?body ?t] length_cbs_bytes [OF c(1)] c(2) b by simp_all
  have ne: "outer AND CBS_ASN1_CONSTRUCTED \<noteq> ?t AND CBS_ASN1_CONSTRUCTED"
  proof -
    have "?t AND CBS_ASN1_CONSTRUCTED = CBS_ASN1_CONSTRUCTED" by (intro bit_word_eqI) (auto simp: bit_simps)
    then show ?thesis using outer by (simp add: CBS_ASN1_CONSTRUCTED_def CBS_ASN1_TAG_SHIFT_def)
  qed
  have "outer \<noteq> ?t" by (rule notI, rule notE [OF ne], rule arg_cong)
  then have peek: "\<not> CBS_peek_asn1_tag c outer" unfolding peek_element [OF c(1) b, of outer] .
  obtain out where get: "CBS_get_asn1 c ?t = (Some out, cbs_adv (length (der_element ?t ?body)) c)"
    and out: "cbs_ok out" "cbs_bytes out = ?body"
    using CBS_get_asn1_complete [OF c(1) b] len(1) by auto
  have outlen: "cbs_len out = length ?body" using length_cbs_bytes [OF out(1)] out(2) by simp
  obtain i b0 where init: "CBB_init h (CBS_len c) = (i, b0)" by fastforce
  show ?thesis
  proof (cases i)
    case None
    then show ?thesis
      using CBB_init_fails [of h "CBS_len c" b0] init peek True c(2)
      by (auto simp: CBS_get_asn1_implicit_string_def CBS_len_def)
  next
    case (Some u)
    have b0: "cbb_rel b0 [(Prefixed 0, [])]" "cbb_cap b0 = cbs_len c"
      using CBB_init_rel [OF h, of "CBS_len c"] init Some c(2) by (simp_all add: CBS_len_def)
    obtain q b1 where chunks: "concat_chunks h inner out b0 = (q, b1)" by fastforce
    have "refines b0 (q, b1) (abs_write 0 (concat chunks) [(Prefixed 0, [])])"
      unfolding chunks [symmetric] using out len(1) outlen b0(1) by (intro concat_chunks_refines [OF h]) simp_all
    note fresh = refines_fresh [OF this]
    have fits: "length (concat chunks) \<le> cbs_len c"
    proof -
      have "length (concat (map (\<lambda>x. x) chunks)) \<le> 1 * length ?body"
        by (rule length_concat_le) (simp add: length_der_element)
      then show ?thesis using length_der_element [of ?body ?t] len(2) by simp
    qed
    then have "q \<noteq> None" using fresh b0(2) by (cases q) auto
    then have b1: "cbb_rel b1 [(Prefixed 0, concat chunks)]" "cbs_len c \<le> cbb_cap b1" and q: "q = Some ()"
      using fresh b0(2) by (cases q; simp)+
    show ?thesis
      using CBB_finish_root [OF h b1(1)] fits b1(2) get b True peek init Some chunks q
      by (auto simp: CBS_get_asn1_implicit_string_def split: prod.splits option.splits)
  qed
qed

theorem implicit_string_concatenates_witness:
  "case CBS_get_asn1_implicit_string all_grants (CBS_init [0xa0, 0x06, 0x04, 0x01, 0xaa, 0x04, 0x01, 0xbb] 8) 0x80000000 CBS_ASN1_OCTETSTRING of
     (Some (out, _), c') \<Rightarrow> cbs_bytes out = [0xaa, 0xbb] \<and> cbs_bytes c' = []
   | (None, _) \<Rightarrow> False"
proof -
  let ?c = "CBS_init [0xa0, 0x06, 0x04, 0x01, 0xaa, 0x04, 0x01, 0xbb] 8"
  have h: "heap_ok all_grants" "grants all_grants 16" "grants all_grants 40" by (simp_all add: heap_ok_def all_grants_def)
  have b: "cbs_bytes ?c = (if True then der_element (0x80000000 OR CBS_ASN1_CONSTRUCTED) (concat (map (der_element 4) [[0xaa], [0xbb]]))
      else der_element 0x80000000 (concat [[0xaa], [0xbb]])) @ []"
    by code_simp
  have o: "0x80000000 AND CBS_ASN1_CONSTRUCTED = 0" by code_simp
  show ?thesis
    using implicit_string_concatenates [OF h(1) _ _ o b] h
    by (simp split: prod.splits option.splits)
qed

end
