(* ===== verification/CBB_Contents.thy ===== *)
theory CBB_Contents
  imports CBB_Refine Stack Asn1_String "HOL-Library.List_Lexorder"
begin

text \<open>
  The two functions of \<open>crypto/bytestring/cbb.c\<close> that write the contents of a type: an object
  identifier from its dotted text, and the elements of a \<open>SET OF\<close> in the order that DER asks for.
\<close>

section \<open>Object identifiers\<close>

text \<open>
  \<open>parse_dotted_loop\<close> is the loop of \<open>parse_dotted_decimal\<close>: a component ends with the text or with a
  dot that is not the last character.
\<close>

function parse_dotted_loop :: "CBS \<Rightarrow> u64 \<Rightarrow> bool \<Rightarrow> u64 option \<times> CBS" where
  "parse_dotted_loop c out seen_digit =
     (case CBS_get_u8 c of
        (None, c') \<Rightarrow> (if seen_digit then Some out else None, c')
      | (Some u, c') \<Rightarrow>
          (if u = 0x2e \<and> CBS_len c' > 0 then (if seen_digit then Some out else None, c')
           else if u < 0x30 \<or> u > 0x39 \<or> seen_digit \<and> out = 0 \<or> out > (- 1) div 10 \<or> out * 10 > - 1 - ucast (u - 0x30)
           then (None, c')
           else parse_dotted_loop c' (out * 10 + ucast (u - 0x30)) True))"
  by pat_completeness auto
termination
  by (relation "measure (\<lambda>(c, out, seen_digit). cbs_len c)") (auto dest: sym [THEN cbs_get_u8_len])

declare parse_dotted_loop.simps [simp del]

definition parse_dotted_decimal :: "CBS \<Rightarrow> u64 option \<times> CBS" where
  "parse_dotted_decimal c = parse_dotted_loop c 0 False"

lemma parse_dotted_loop_consumes:
  "parse_dotted_loop c out seen_digit = (r, c') \<Longrightarrow>
    cbs_len c' \<le> cbs_len c \<and> (r \<noteq> None \<and> \<not> seen_digit \<longrightarrow> cbs_len c' < cbs_len c)"
proof (induction c out seen_digit arbitrary: c' rule: parse_dotted_loop.induct)
  case (1 c out seen_digit)
  obtain u c1 where g: "CBS_get_u8 c = (u, c1)" by fastforce
  show ?case
  proof (cases u)
    case None
    then show ?thesis
      using 1(2) g by (auto simp: parse_dotted_loop.simps [of c] CBS_get_u8_eq split: if_splits)
  next
    case (Some b)
    then have "cbs_len c1 < cbs_len c" using g cbs_get_u8_len by simp
    then show ?thesis
      using 1(1) [OF g [symmetric] Some] 1(2)
      by (fastforce simp: parse_dotted_loop.simps [of c] g Some split: if_splits)
  qed
qed

function oid_rest_loop :: "heap \<Rightarrow> nat \<Rightarrow> CBS \<Rightarrow> CBB \<Rightarrow> unit option \<times> CBB" where
  "oid_rest_loop h d cbs c =
     (if CBS_len cbs > 0 then
        (case parse_dotted_decimal cbs of
           (None, _) \<Rightarrow> (None, c)
         | (Some a, cbs') \<Rightarrow> on_success (add_base128_integer h c d a) (\<lambda>_ c'. oid_rest_loop h d cbs' c'))
      else (Some (), c))"
  by pat_completeness auto
termination
  by (relation "measure (\<lambda>(h, d, cbs, c). cbs_len cbs)")
    (auto simp: parse_dotted_decimal_def dest: sym [THEN parse_dotted_loop_consumes])

declare oid_rest_loop.simps [simp del]

definition CBB_add_asn1_oid_from_text :: "heap \<Rightarrow> CBB \<Rightarrow> nat \<Rightarrow> u8 list \<Rightarrow> nat \<Rightarrow> unit option \<times> CBB" where
  "CBB_add_asn1_oid_from_text h c d literal len =
     on_success (CBB_flush h c d) (\<lambda>_ c1.
       case parse_dotted_decimal (CBS_init literal len) of
         (None, _) \<Rightarrow> (None, c1)
       | (Some a, cbs1) \<Rightarrow>
           (case parse_dotted_decimal cbs1 of
              (None, _) \<Rightarrow> (None, c1)
            | (Some b, cbs2) \<Rightarrow>
                (if a > 2 \<or> a < 2 \<and> b > 39 \<or> b > - 1 - 80 then (None, c1)
                 else on_success (add_base128_integer h c1 d (40 * a + b)) (\<lambda>_ c2. oid_rest_loop h d cbs2 c2))))"

text \<open>The reference: decimal numbers without leading zeros, joined by dots.\<close>

fun decimal :: "nat \<Rightarrow> u8 list" where
  "decimal n = (if n < 10 then [of_nat (48 + n)] else decimal (n div 10) @ [of_nat (48 + n mod 10)])"

declare decimal.simps [simp del]

fun dotted :: "nat list \<Rightarrow> u8 list" where
  "dotted [] = []"
| "dotted [n] = decimal n"
| "dotted (n # ns) = decimal n @ 0x2e # dotted ns"

definition oid_ok :: "nat list \<Rightarrow> bool" where
  "oid_ok ns \<longleftrightarrow>
     (case ns of a # b # r \<Rightarrow> a \<le> 2 \<and> (a < 2 \<longrightarrow> b \<le> 39) \<and> b < 2 ^ 64 - 80 \<and> (\<forall>n \<in> set r. n < 2 ^ 64) | _ \<Rightarrow> False)"

definition oid_contents :: "nat list \<Rightarrow> u8 list" where
  "oid_contents ns = (case ns of a # b # r \<Rightarrow> b128 (40 * a + b) @ concat (map b128 r) | _ \<Rightarrow> [])"

text \<open>One component as numbers.\<close>

fun scan_digits :: "nat \<Rightarrow> bool \<Rightarrow> u8 list \<Rightarrow> nat option" where
  "scan_digits n seen [] = (if seen then Some n else None)"
| "scan_digits n seen (u # s) =
     (if u < 0x30 \<or> u > 0x39 \<or> seen \<and> n = 0 \<or> 2 ^ 64 \<le> n * 10 + unat (u - 0x30) then None
      else scan_digits (n * 10 + unat (u - 0x30)) True s)"

lemma digit_octet: "\<not> u < 0x30 \<Longrightarrow> \<not> u > 0x39 \<Longrightarrow> unat (u - 0x30 :: u8) < 10 \<and> of_nat (48 + unat (u - 0x30)) = u"
proof -
  assume "\<not> u < 0x30" "\<not> u > 0x39"
  then have u: "48 \<le> unat u" "unat u \<le> 57" by (simp_all add: word_less_nat_alt not_less)
  then have "unat (u - 0x30) = unat u - 48" by (simp add: unat_sub word_le_nat_alt)
  then show ?thesis using u by (simp add: word_unat_eq_iff unat_of_nat)
qed

lemma octet_digit:
  assumes "k < 10"
  shows "\<not> of_nat (48 + k) < (0x30 :: u8)" "\<not> of_nat (48 + k) > (0x39 :: u8)" "unat (of_nat (48 + k) - 0x30 :: u8) = k"
proof -
  have u: "unat (of_nat (48 + k) :: u8) = 48 + k" using assms by (simp add: unat_of_nat del: of_nat_add)
  then show "\<not> of_nat (48 + k) < (0x30 :: u8)" "\<not> of_nat (48 + k) > (0x39 :: u8)"
    using assms by (simp_all add: word_less_nat_alt del: of_nat_add)
  show "unat (of_nat (48 + k) - 0x30 :: u8) = k"
    using u by (simp add: unat_sub word_le_nat_alt del: of_nat_add)
qed

lemma decimal_snoc: "\<lbrakk>0 < n; k < 10\<rbrakk> \<Longrightarrow> decimal (n * 10 + k) = decimal n @ [of_nat (48 + k)]"
  by (subst decimal.simps) simp

lemma scan_digits_decimal:
  "scan_digits n True s = Some m \<Longrightarrow> n < 2 ^ 64 \<Longrightarrow> m < 2 ^ 64 \<and> decimal m = decimal n @ s"
proof (induction s arbitrary: n)
  case (Cons u s)
  let ?k = "unat (u - 0x30)"
  have c: "\<not> u < 0x30" "\<not> u > 0x39" "0 < n" "n * 10 + ?k < 2 ^ 64" "scan_digits (n * 10 + ?k) True s = Some m"
    using Cons.prems(1) by (auto split: if_splits)
  note k = digit_octet [OF c(1,2)]
  show ?case
    using Cons.IH [OF c(5,4)] decimal_snoc [OF c(3) conjunct1 [OF k]] k by (simp del: of_nat_add)
qed simp

lemma scan_digits_snoc:
  "seen \<or> s \<noteq> [] \<Longrightarrow> scan_digits n seen (s @ t) = Option.bind (scan_digits n seen s) (\<lambda>m. scan_digits m True t)"
  by (induction n seen s rule: scan_digits.induct) auto

lemma scan_digits_of_decimal: "n < 2 ^ 64 \<Longrightarrow> scan_digits 0 False (decimal n) = Some n"
proof (induction n rule: decimal.induct)
  case (1 n)
  show ?case
  proof (cases "n < 10")
    case True
    then show ?thesis using octet_digit [OF True] by (simp add: decimal.simps [of n] del: of_nat_add)
  next
    case False
    have ne: "decimal (n div 10) \<noteq> []" by (subst decimal.simps) simp
    have "n mod 10 < 10" "n div 10 \<noteq> 0" using False by simp_all
    then show ?thesis
      using 1 False octet_digit [of "n mod 10"] ne
      by (simp add: decimal.simps [of n] scan_digits_snoc div_mult_mod_eq del: of_nat_add)
  qed
qed

lemma scan_digits_iff: "scan_digits 0 False s = Some n \<longleftrightarrow> n < 2 ^ 64 \<and> s = decimal n"
proof
  assume s: "scan_digits 0 False s = Some n"
  then obtain u r where u: "s = u # r" by (cases s) auto
  then have c: "\<not> u < 0x30" "\<not> u > 0x39" "scan_digits (unat (u - 0x30)) True r = Some n"
    using s by (auto split: if_splits)
  note k = digit_octet [OF c(1,2)]
  have "decimal (unat (u - 0x30)) = [u]" using k by (subst decimal.simps) (simp del: of_nat_add)
  then show "n < 2 ^ 64 \<and> s = decimal n"
    using scan_digits_decimal [OF c(3)] k u by simp
qed (use scan_digits_of_decimal in blast)

text \<open>The cursor of the code: a component, and the dot behind it.\<close>

lemma cbs_next:
  assumes "cbs_ok c" "cbs_bytes c = u # s"
  shows "CBS_get_u8 c = (Some u, cbs_adv 1 c)" "cbs_ok (cbs_adv 1 c)" "cbs_bytes (cbs_adv 1 c) = s" "CBS_len (cbs_adv 1 c) = length s"
proof -
  have l: "cbs_len c \<noteq> 0" using length_cbs_bytes [OF assms(1)] assms(2) by auto
  then have "cbs_data c ! 0 = u" using nth_cbs_data [of 0 c] assms(2) by simp
  then show "CBS_get_u8 c = (Some u, cbs_adv 1 c)" using l by (simp add: CBS_get_u8_eq)
  show ok: "cbs_ok (cbs_adv 1 c)" "cbs_bytes (cbs_adv 1 c) = s" using assms by simp_all
  show "CBS_len (cbs_adv 1 c) = length s" using length_cbs_bytes [OF ok(1)] unfolding ok(2) by (simp only: CBS_len_def)
qed

lemma max64: "unat (- 1 :: u64) = 2 ^ 64 - 1"
  by (simp add: unsigned_minus_1_eq_mask mask_eq_exp_minus_1)

lemma digit_overflow:
  assumes "n < 2 ^ 64" "k < 10" "unat (w :: u64) = k"
  shows "(of_nat n > (- 1) div (10 :: u64) \<or> of_nat n * 10 > - 1 - w) \<longleftrightarrow> 2 ^ 64 \<le> n * 10 + k"
proof -
  have n: "unat (of_nat n :: u64) = n" using assms(1) by (simp add: unat_of_nat)
  have m: "unat ((- 1) div 10 :: u64) = (2 ^ 64 - 1) div 10" by (simp only: unat_div max64) simp
  have s: "unat (- 1 - w) = 2 ^ 64 - 1 - k"
    using assms(2,3) by (simp add: unat_sub word_le_nat_alt max64)
  show ?thesis
  proof (cases "(2 ^ 64 - 1) div 10 < n")
    case True
    then show ?thesis using m n by (simp add: word_less_nat_alt)
  next
    case False
    then have "unat (of_nat n * 10 :: u64) = n * 10" using n by (simp add: unat_mult_lem [THEN iffD1])
    then show ?thesis using False m n s assms(2) by (auto simp: word_less_nat_alt)
  qed
qed

lemma parse_dotted_loop_eq:
  assumes "cbs_ok c" "cbs_bytes c = s @ t" "0x2e \<notin> set s" "t = [] \<or> (\<exists>t'. t = 0x2e # t' \<and> t' \<noteq> [])" "n < 2 ^ 64"
  shows "\<exists>c'. parse_dotted_loop c (of_nat n) seen = (map_option of_nat (scan_digits n seen s), c') \<and>
    (scan_digits n seen s \<noteq> None \<longrightarrow> c' = cbs_adv (length s + (if t = [] then 0 else 1)) c)"
  using assms
proof (induction s arbitrary: c n seen)
  case Nil
  then consider "cbs_bytes c = []" "t = []" | t' where "cbs_bytes c = 0x2e # t'" "t = 0x2e # t'" "t' \<noteq> []" by auto
  then show ?case
  proof cases
    case 1
    then have "CBS_get_u8 c = (None, c)" using length_cbs_bytes [OF Nil(1)] by (simp add: CBS_get_u8_eq)
    then show ?thesis using 1 by (simp add: parse_dotted_loop.simps [of c])
  next
    case 2
    note g = cbs_next [OF Nil(1) 2(1)]
    show ?thesis using g(1,4) 2(2,3) by (simp add: parse_dotted_loop.simps [of c])
  qed
next
  case (Cons u s)
  then have b: "cbs_bytes c = u # (s @ t)" and u: "u \<noteq> 0x2e" "0x2e \<notin> set s" by simp_all
  note g = cbs_next [OF Cons.prems(1) b]
  let ?k = "unat (u - 0x30)"
  have un: "(of_nat n = (0 :: u64)) = (n = 0)" using Cons.prems(5) by (simp add: word_unat_eq_iff unat_of_nat)
  show ?case
  proof (cases "u < 0x30 \<or> u > 0x39 \<or> seen \<and> n = 0 \<or> 2 ^ 64 \<le> n * 10 + ?k")
    case True
    have "u < 0x30 \<or> u > 0x39 \<or> seen \<and> of_nat n = (0 :: u64) \<or>
        of_nat n > (- 1) div (10 :: u64) \<or> of_nat n * 10 > - 1 - (ucast (u - 0x30) :: u64)"
    proof (cases "u < 0x30 \<or> u > 0x39")
      case False
      then have "?k < 10" using digit_octet [of u] by simp
      then show ?thesis
        using True un digit_overflow [OF Cons.prems(5), of ?k "ucast (u - 0x30)"] by (auto simp: unsigned_ucast_eq take_bit_nat_eq_self)
    qed blast
    then have "parse_dotted_loop c (of_nat n) seen = (None, cbs_adv 1 c)"
      using g(1) u(1) by (simp add: parse_dotted_loop.simps [of c])
    then show ?thesis using True by simp
  next
    case False
    then have scan: "scan_digits n seen (u # s) = scan_digits (n * 10 + ?k) True s" by auto
    have k: "?k < 10" using digit_octet [of u] False by simp
    have w: "unat (ucast (u - 0x30) :: u64) = ?k" using k by (simp add: unsigned_ucast_eq take_bit_nat_eq_self)
    have "(of_nat (n * 10 + ?k) :: u64) = of_nat n * 10 + ucast (u - 0x30)" by simp
    then have "parse_dotted_loop c (of_nat n) seen = parse_dotted_loop (cbs_adv 1 c) (of_nat (n * 10 + ?k)) True"
      using g(1) u(1) False un digit_overflow [OF Cons.prems(5) k w]
      by (subst parse_dotted_loop.simps) auto
    then show ?thesis
      using Cons.IH [OF g(2,3) u(2) Cons.prems(4), of "n * 10 + ?k" True] False
      unfolding scan by simp
  qed
qed

lemma parse_dotted_loop_last_dot:
  "\<lbrakk>cbs_ok c; cbs_bytes c = s @ [0x2e]; 0x2e \<notin> set s\<rbrakk> \<Longrightarrow> fst (parse_dotted_loop c out seen) = None"
proof (induction s arbitrary: c out seen)
  case Nil
  then have b: "cbs_bytes c = [0x2e]" by simp
  note g = cbs_next [OF Nil(1) b]
  show ?case using g(1,4) by (simp add: parse_dotted_loop.simps [of c])
next
  case (Cons u s)
  then have b: "cbs_bytes c = u # (s @ [0x2e])" and u: "u \<noteq> 0x2e" "0x2e \<notin> set s" by simp_all
  note g = cbs_next [OF Cons.prems(1) b]
  show ?case using g(1) u(1) Cons.IH [OF g(2,3) u(2)] by (simp add: parse_dotted_loop.simps [of c])
qed

text \<open>The first component of a text and the text behind the dot.\<close>

definition split_dot :: "u8 list \<Rightarrow> (nat \<times> u8 list) option" where
  "split_dot bs =
     (let s = takeWhile (\<lambda>u. u \<noteq> 0x2e) bs; t = dropWhile (\<lambda>u. u \<noteq> 0x2e) bs
      in if t = [0x2e] then None else map_option (\<lambda>n. (n, tl t)) (scan_digits 0 False s))"

lemma split_dot_Nil: "split_dot [] = None"
  by (simp add: split_dot_def)

lemma parse_dotted_decimal_eq:
  assumes "cbs_ok c"
  shows "case split_dot (cbs_bytes c) of
      None \<Rightarrow> fst (parse_dotted_decimal c) = None
    | Some (n, r) \<Rightarrow> \<exists>c'. parse_dotted_decimal c = (Some (of_nat n), c') \<and> cbs_ok c' \<and> cbs_bytes c' = r \<and> n < 2 ^ 64"
proof -
  let ?p = "\<lambda>u. u \<noteq> (0x2e :: u8)"
  define s t where "s = takeWhile ?p (cbs_bytes c)" and "t = dropWhile ?p (cbs_bytes c)"
  have st: "cbs_bytes c = s @ t" "0x2e \<notin> set s" by (auto simp: s_def t_def dest: set_takeWhileD)
  have split: "split_dot (cbs_bytes c) = (if t = [0x2e] then None else map_option (\<lambda>n. (n, tl t)) (scan_digits 0 False s))"
    by (simp only: split_dot_def Let_def s_def t_def)
  have hd: "t = [] \<or> t = [0x2e] \<or> (\<exists>t'. t = 0x2e # t' \<and> t' \<noteq> [])"
    using hd_dropWhile [of ?p "cbs_bytes c"] unfolding t_def [symmetric] by (cases t; cases "tl t") auto
  show ?thesis
  proof (cases "t = [0x2e]")
    case True
    then show ?thesis
      using parse_dotted_loop_last_dot [OF assms _ st(2)] st(1)
      unfolding split parse_dotted_decimal_def by simp
  next
    case False
    then have t: "t = [] \<or> (\<exists>t'. t = 0x2e # t' \<and> t' \<noteq> [])" using hd by blast
    obtain c' where c': "parse_dotted_loop c 0 False = (map_option of_nat (scan_digits 0 False s), c')"
      "scan_digits 0 False s \<noteq> None \<longrightarrow> c' = cbs_adv (length s + (if t = [] then 0 else 1)) c"
      using parse_dotted_loop_eq [OF assms st t, of 0 False] by auto
    show ?thesis
    proof (cases "scan_digits 0 False s")
      case (Some n)
      have "drop (length s + (if t = [] then 0 else 1)) (cbs_bytes c) = tl t" by (cases t) (simp_all add: st(1))
      then show ?thesis
        using c' Some False assms scan_digits_iff [of s n]
        unfolding split parse_dotted_decimal_def by auto
    qed (use c' False in \<open>simp add: split parse_dotted_decimal_def\<close>)
  qed
qed

text \<open>A list of components, from the text and back.\<close>

function split_dots :: "u8 list \<Rightarrow> nat list option" where
  "split_dots bs =
     (if bs = [] then Some []
      else case split_dot bs of
        None \<Rightarrow> None
      | Some (n, r) \<Rightarrow> map_option (\<lambda>ns. n # ns) (split_dots r))"
  by pat_completeness auto
termination
proof (relation "measure length")
  fix bs :: "u8 list" and p :: "nat \<times> u8 list" and n r
  assume a: "bs \<noteq> []" "split_dot bs = Some p" "(n, r) = p"
  let ?t = "dropWhile (\<lambda>u. u \<noteq> 0x2e) bs"
  have "r = tl ?t" using a(2,3) by (auto simp: split_dot_def Let_def split: if_splits)
  then show "(r, bs) \<in> measure length"
    using a(1) length_dropWhile_le [of "\<lambda>u. u \<noteq> 0x2e" bs] by (cases ?t) (simp_all del: dropWhile_eq_Nil_conv)
qed simp

declare split_dots.simps [simp del]

lemma decimal_no_dot: "0x2e \<notin> set (decimal n)" and decimal_not_Nil: "decimal n \<noteq> []"
proof (induction n rule: decimal.induct)
  case (1 n)
  have k: "(0x2e :: u8) \<noteq> of_nat (48 + k)" if "k < 10" for k
    using that by (simp add: word_unat_eq_iff unat_of_nat del: of_nat_add)
  show "0x2e \<notin> set (decimal n)"
    using 1(1) k [of n] k [of "n mod 10"] by (cases "n < 10") (simp_all add: decimal.simps [of n] del: of_nat_add)
  show "decimal n \<noteq> []" by (subst decimal.simps) simp
qed

lemma split_dot_decimal:
  assumes "n < 2 ^ 64" "t = [] \<or> (\<exists>t'. t = 0x2e # t' \<and> t' \<noteq> [])"
  shows "split_dot (decimal n @ t) = Some (n, tl t)"
proof -
  have "takeWhile (\<lambda>u. u \<noteq> 0x2e) (decimal n @ t) = decimal n" "dropWhile (\<lambda>u. u \<noteq> 0x2e) (decimal n @ t) = t"
    using assms(2) decimal_no_dot [of n] by (auto simp: takeWhile_append dropWhile_append)
  then show ?thesis using scan_digits_of_decimal [OF assms(1)] assms(2) by (auto simp: split_dot_def)
qed

lemma dotted_not_Nil: "ns \<noteq> [] \<Longrightarrow> dotted ns \<noteq> []"
  by (cases ns rule: dotted.cases) (simp_all add: decimal_not_Nil)

lemma dotted_Cons: "dotted (n # ns) = decimal n @ (if ns = [] then [] else 0x2e # dotted ns)"
  by (cases ns) simp_all

lemma split_dots_dotted: "\<forall>n \<in> set ns. n < 2 ^ 64 \<Longrightarrow> split_dots (dotted ns) = Some ns"
proof (induction ns)
  case Nil
  show ?case by (simp add: split_dots.simps)
next
  case (Cons n ns)
  have "split_dot (dotted (n # ns)) = Some (n, dotted ns)"
    unfolding dotted_Cons using split_dot_decimal [of n "[]"] split_dot_decimal [of n "0x2e # dotted ns"] Cons.prems dotted_not_Nil [of ns] by (cases "ns = []") simp_all
  moreover have "dotted (n # ns) \<noteq> []" by (rule dotted_not_Nil) simp
  ultimately show ?case using Cons by (subst split_dots.simps) simp
qed

lemma split_dots_Some: "split_dots bs = Some ns \<Longrightarrow> bs = dotted ns"
proof (induction bs arbitrary: ns rule: split_dots.induct)
  case (1 bs)
  show ?case
  proof (cases "bs = []")
    case False
    then obtain n r ns' where s: "split_dot bs = Some (n, r)" "split_dots r = Some ns'" "ns = n # ns'"
      using 1(2) by (auto simp: split_dots.simps [of bs] split: option.splits)
    let ?s = "takeWhile (\<lambda>u. u \<noteq> 0x2e) bs" and ?t = "dropWhile (\<lambda>u. u \<noteq> 0x2e) bs"
    have d: "?t \<noteq> [0x2e]" "scan_digits 0 False ?s = Some n" "r = tl ?t"
      using s(1) by (auto simp: split_dot_def Let_def split: if_splits)
    have "?s = decimal n" using d(2) scan_digits_iff by blast
    moreover have "?t = (if ns' = [] then [] else 0x2e # dotted ns')"
    proof -
      have r: "r = dotted ns'" using 1(1) [OF False s(1) refl s(2)] .
      show ?thesis
      proof (cases ?t)
        case Nil
        have "dotted ns' = []" unfolding r [symmetric] d(3) Nil by simp
        then show ?thesis using dotted_not_Nil [of ns'] Nil by (cases "ns' = []") simp_all
      next
        case (Cons u t)
        then have "u = 0x2e" "t = dotted ns'" using hd_dropWhile [of "\<lambda>u. u \<noteq> 0x2e" bs] d(3) r by simp_all
        then show ?thesis using d(1) Cons by (cases "ns' = []") simp_all
      qed
    qed
    moreover have "bs = ?s @ ?t" by simp
    ultimately have "bs = decimal n @ (if ns' = [] then [] else 0x2e # dotted ns')" by (simp only:)
    then show ?thesis unfolding s(3) dotted_Cons .
  qed (use 1(2) in \<open>simp add: split_dots.simps\<close>)
qed

text \<open>Writing the components.\<close>

lemma oid_rest_loop_refines:
  assumes "heap_ok h" "cbs_ok cbs" "cbb_rel c fs" "length fs = Suc d"
  shows "case split_dots (cbs_bytes cbs) of
      None \<Rightarrow> fst (oid_rest_loop h d cbs c) = None
    | Some ns \<Rightarrow> refines c (oid_rest_loop h d cbs c) (abs_write d (concat (map b128 ns)) fs)"
  using assms(2-4)
proof (induction "cbs_bytes cbs" arbitrary: cbs c fs rule: split_dots.induct)
  case 1
  show ?case
  proof (cases "cbs_bytes cbs = []")
    case True
    then have "\<not> 0 < CBS_len cbs" using length_cbs_bytes [OF 1(2)] by (simp add: CBS_len_def)
    moreover have "fs \<noteq> []" using 1(4) by auto
    ultimately show ?thesis
      using True refines_top [OF 1(3)] 1(4) by (simp add: split_dots.simps oid_rest_loop.simps [of h d cbs] abs_write_top)
  next
    case False
    then have len: "0 < CBS_len cbs"
      using length_cbs_bytes [OF 1(2)] length_greater_0_conv [of "cbs_bytes cbs"] by (simp add: CBS_len_def)
    note comp = parse_dotted_decimal_eq [OF 1(2)]
    show ?thesis
    proof (cases "split_dot (cbs_bytes cbs)")
      case None
      then have "fst (parse_dotted_decimal cbs) = None" using comp by simp
      then show ?thesis
        using len None False by (cases "parse_dotted_decimal cbs") (simp add: split_dots.simps oid_rest_loop.simps [of h d cbs])
    next
      case (Some p)
      obtain n r where p: "p = (n, r)" by (cases p)
      then obtain cbs' where c': "parse_dotted_decimal cbs = (Some (of_nat n), cbs')" "cbs_ok cbs'" "cbs_bytes cbs' = r" "n < 2 ^ 64"
        using comp Some by auto
      have u: "unat (of_nat n :: u64) = n" using c'(4) by (simp add: unat_of_nat)
      have d: "d < length fs" using 1(4) by simp
      have add: "refines c (add_base128_integer h c d (of_nat n)) (abs_write d (b128 n) fs)"
        using add_base128_integer_refines [OF assms(1) 1(3) d, of "of_nat n"] unfolding u .
      have eq: "oid_rest_loop h d cbs c = on_success (add_base128_integer h c d (of_nat n)) (\<lambda>_ c'. oid_rest_loop h d cbs' c')"
        using len c'(1) by (simp add: oid_rest_loop.simps [of h d cbs])
      have p': "(n, cbs_bytes cbs') = p" using p c'(3) by simp
      note ih = 1(1) [OF False Some p' c'(2), unfolded c'(3)]
      show ?thesis
      proof (cases "split_dots r")
        case None
        have "fst (oid_rest_loop h d cbs c) = None"
        proof (cases "add_base128_integer h c d (of_nat n)")
          case (Pair v c1)
          show ?thesis
          proof (cases v)
            case (Some w)
            then obtain fs1 where "abs_write d (b128 n) fs = Some fs1" "cbb_rel c1 fs1"
              using add Pair by (auto simp: refines_def)
            then show ?thesis using ih [of c1 fs1] None abs_write_length d Pair Some by (simp add: eq)
          qed (simp add: eq Pair)
        qed
        then show ?thesis using None False \<open>split_dot _ = _\<close> p by (simp add: split_dots.simps [of "cbs_bytes cbs"])
      next
        case (Some ns)
        have "refines c (oid_rest_loop h d cbs c) (abs_write d (b128 n @ concat (map b128 ns)) fs)"
          unfolding eq by (rule refines_write_seq [OF add d]) (use ih Some in simp)
        then show ?thesis
          using Some False \<open>split_dot _ = _\<close> p by (simp add: split_dots.simps [of "cbs_bytes cbs"])
      qed
    qed
  qed
qed

text \<open>The test on the first two components.\<close>

definition oid_start_ok :: "u64 \<Rightarrow> u64 \<Rightarrow> bool" where
  "oid_start_ok a b \<longleftrightarrow> \<not> (a > 2 \<or> a < 2 \<and> b > 39 \<or> b > - 1 - 80)"

lemma CBB_add_asn1_oid_from_text_eq:
  "CBB_add_asn1_oid_from_text h c d literal len =
     on_success (CBB_flush h c d) (\<lambda>_ c1.
       case parse_dotted_decimal (CBS_init literal len) of
         (None, _) \<Rightarrow> (None, c1)
       | (Some a, cbs1) \<Rightarrow>
           (case parse_dotted_decimal cbs1 of
              (None, _) \<Rightarrow> (None, c1)
            | (Some b, cbs2) \<Rightarrow>
                (if \<not> oid_start_ok a b then (None, c1)
                 else on_success (add_base128_integer h c1 d (40 * a + b)) (\<lambda>_ c2. oid_rest_loop h d cbs2 c2))))"
  unfolding CBB_add_asn1_oid_from_text_def oid_start_ok_def not_not by (rule refl)

lemma oid_start_ok_iff:
  assumes "a < 2 ^ 64" "b < 2 ^ 64"
  shows "oid_start_ok (of_nat a) (of_nat b) \<longleftrightarrow> a \<le> 2 \<and> (a < 2 \<longrightarrow> b \<le> 39) \<and> b < 2 ^ 64 - 80"
proof -
  have u: "unat (of_nat a :: u64) = a" "unat (of_nat b :: u64) = b" using assms by (simp_all add: unat_of_nat)
  have "unat (- 1 - 80 :: u64) = unat (- 1 :: u64) - unat (80 :: u64)"
    by (rule unat_sub) (simp only: word_le_nat_alt max64, simp)
  then have m: "unat (- 1 - 80 :: u64) = 2 ^ 64 - 81" unfolding max64 by simp
  show ?thesis unfolding oid_start_ok_def word_less_nat_alt u m by auto
qed

lemma split_dots_less: "split_dots bs = Some ns \<Longrightarrow> \<forall>n \<in> set ns. n < 2 ^ 64"
proof (induction bs arbitrary: ns rule: split_dots.induct)
  case (1 bs)
  show ?case
  proof (cases "bs = []")
    case False
    then obtain n r ns' where s: "split_dot bs = Some (n, r)" "split_dots r = Some ns'" "ns = n # ns'"
      using 1(2) by (auto simp: split_dots.simps [of bs] split: option.splits)
    have "n < 2 ^ 64" using s(1) scan_digits_iff by (auto simp: split_dot_def Let_def split: if_splits)
    then show ?thesis using 1(1) [OF False s(1) refl s(2)] s(3) by simp
  qed (use 1(2) in \<open>simp add: split_dots.simps\<close>)
qed

text \<open>
  The text of an object identifier with components that fit \<open>uint64_t\<close> is written as its contents
  octets; every other text is refused.
\<close>

lemma CBB_add_asn1_oid_from_text_refines:
  assumes h: "heap_ok h" and rel: "cbb_rel c fs" and d: "d < length fs" and ns: "oid_ok ns" "take len literal = dotted ns"
    and len: "len \<le> length literal"
  shows "refines c (CBB_add_asn1_oid_from_text h c d literal len) (abs_write d (oid_contents ns) fs)"
proof -
  obtain a b r where abr: "ns = a # b # r" and ok: "a \<le> 2" "a < 2 \<longrightarrow> b \<le> 39" "b < 2 ^ 64 - 80" "\<forall>n \<in> set r. n < 2 ^ 64"
    using ns(1) by (auto simp: oid_ok_def split: list.splits)
  have split: "split_dots (take len literal) = Some (a # b # r)"
    unfolding ns(2) abr by (rule split_dots_dotted) (use ok in auto)
  let ?c0 = "CBS_init literal len"
  have c0: "cbs_ok ?c0" "cbs_bytes ?c0 = take len literal" using len by simp_all
  obtain r1 where s1: "split_dot (take len literal) = Some (a, r1)" "split_dots r1 = Some (b # r)"
    using split by (auto simp: split_dots.simps [of "take len literal"] split: if_splits option.splits)
  obtain r2 where s2: "split_dot r1 = Some (b, r2)" "split_dots r2 = Some r"
    using s1(2) by (auto simp: split_dots.simps [of r1] split: if_splits option.splits)
  obtain c1 where c1: "parse_dotted_decimal ?c0 = (Some (of_nat a), c1)" "cbs_ok c1" "cbs_bytes c1 = r1"
    using parse_dotted_decimal_eq [OF c0(1), unfolded c0(2) s1(1)] by auto
  obtain c2 where c2: "parse_dotted_decimal c1 = (Some (of_nat b), c2)" "cbs_ok c2" "cbs_bytes c2 = r2"
    using parse_dotted_decimal_eq [OF c1(2), unfolded c1(3) s2(1)] by auto
  have less: "a < 2 ^ 64" "b < 2 ^ 64" "40 * a + b < 2 ^ 64" using ok(1,3) by simp_all
  have "oid_start_ok (of_nat a) (of_nat b)" using oid_start_ok_iff [OF less(1,2)] ok(1-3) by simp
  then have eq: "CBB_add_asn1_oid_from_text h c d literal len = on_success (CBB_flush h c d) (\<lambda>_ c0.
      on_success (add_base128_integer h c0 d (40 * of_nat a + of_nat b)) (\<lambda>_ c'. oid_rest_loop h d c2 c'))"
    by (simp add: CBB_add_asn1_oid_from_text_eq c1(1) c2(1))
  have "unat (of_nat (40 * a + b) :: u64) = 40 * a + b"
    using less(3) by (simp add: unat_of_nat del: of_nat_add of_nat_mult)
  then have ab: "unat (40 * of_nat a + of_nat b :: u64) = 40 * a + b" by simp
  have "refines c (CBB_add_asn1_oid_from_text h c d literal len) (abs_write d ([] @ (b128 (40 * a + b) @ concat (map b128 r))) fs)"
    unfolding eq
  proof (rule refines_write_seq [OF CBB_flush_refines_write [OF h rel d] d])
    fix v c3 fs3
    assume c3: "cbb_rel c3 fs3" "length fs3 = Suc d"
    have d3: "d < length fs3" using c3(2) by simp
    show "refines c3 (on_success (add_base128_integer h c3 d (40 * of_nat a + of_nat b)) (\<lambda>_ c'. oid_rest_loop h d c2 c'))
        (abs_write d (b128 (40 * a + b) @ concat (map b128 r)) fs3)"
    proof (rule refines_write_seq [OF add_base128_integer_refines [OF h c3(1) d3, of "40 * of_nat a + of_nat b", unfolded ab] d3])
      fix v c4 fs4
      assume "cbb_rel c4 fs4" "length fs4 = Suc d"
      then show "refines c4 (oid_rest_loop h d c2 c4) (abs_write d (concat (map b128 r)) fs4)"
        using oid_rest_loop_refines [OF h c2(2), of c4 fs4 d] s2(2) c2(3) by simp
    qed
  qed
  then show ?thesis by (simp add: abr oid_contents_def)
qed

lemma CBB_add_asn1_oid_from_text_refuses:
  assumes h: "heap_ok h" and rel: "cbb_rel c fs" and d: "d < length fs" and len: "len \<le> length literal"
    and res: "CBB_add_asn1_oid_from_text h c d literal len = (Some u, c')"
  shows "\<exists>ns. oid_ok ns \<and> take len literal = dotted ns"
proof -
  let ?c0 = "CBS_init literal len"
  have c0: "cbs_ok ?c0" "cbs_bytes ?c0 = take len literal" using len by simp_all
  obtain cf a' c1 b' c2 cg where run: "CBB_flush h c d = (Some (), cf)" "parse_dotted_decimal ?c0 = (Some a', c1)"
    "parse_dotted_decimal c1 = (Some b', c2)" "oid_start_ok a' b'"
    "add_base128_integer h cf d (40 * a' + b') = (Some (), cg)" "oid_rest_loop h d c2 cg = (Some u, c')"
  proof -
    obtain cf where f: "CBB_flush h c d = (Some (), cf)" using res by (auto simp: CBB_add_asn1_oid_from_text_eq on_success_Some_iff)
    obtain pa c1 pb c2 where p: "parse_dotted_decimal ?c0 = (pa, c1)" "parse_dotted_decimal c1 = (pb, c2)"
      by (metis surj_pair)
    show thesis
      using res f p that by (cases pa; cases pb) (auto simp: CBB_add_asn1_oid_from_text_eq on_success_Some_iff split: if_splits)
  qed
  obtain a r1 where a: "split_dot (take len literal) = Some (a, r1)" "a' = of_nat a" "cbs_ok c1" "cbs_bytes c1 = r1" "a < 2 ^ 64"
    using parse_dotted_decimal_eq [OF c0(1)] run(2) c0(2) by (auto split: option.splits)
  obtain b r2 where b: "split_dot r1 = Some (b, r2)" "b' = of_nat b" "cbs_ok c2" "cbs_bytes c2 = r2" "b < 2 ^ 64"
    using parse_dotted_decimal_eq [OF a(3)] run(3) a(4) by (auto split: option.splits)
  obtain fsf where fsf: "abs_flush d fs = Some fsf" "cbb_rel cf fsf"
    using CBB_flush_refines [OF h rel d] run(1) by (auto simp: refines_def)
  have "d < length fsf" using abs_flush_length [OF fsf(1) d] by simp
  note w = add_base128_integer_refines [OF h fsf(2) this, of "40 * a' + b'", unfolded run(5)]
  then obtain fsg where g: "abs_write d (b128 (unat (40 * a' + b'))) fsf = Some fsg" "cbb_rel cg fsg"
    by (auto simp: refines_def)
  have "length fsg = Suc d" using abs_write_length [OF g(1) \<open>d < length fsf\<close>] .
  note rest = oid_rest_loop_refines [OF h b(3) g(2) this]
  obtain r where r: "split_dots r2 = Some r"
    using rest run(6) b(4) by (cases "split_dots r2") simp_all
  have ne: "r1 \<noteq> []" "take len literal \<noteq> []" using b(1) a(1) split_dot_Nil by (metis option.distinct(1))+
  have "split_dots r1 = Some (b # r)" using r b(1) ne(1) by (simp add: split_dots.simps [of r1])
  then have "split_dots (take len literal) = Some (a # b # r)"
    using a(1) ne(2) by (simp add: split_dots.simps [of "take len literal"])
  then have "take len literal = dotted (a # b # r)" by (rule split_dots_Some)
  moreover have "oid_ok (a # b # r)"
    using oid_start_ok_iff [OF a(5) b(5)] run(4) a(2) b(2) split_dots_less [OF r] by (simp add: oid_ok_def)
  ultimately show ?thesis by blast
qed

section \<open>The order of a \<open>SET OF\<close>\<close>

text \<open>A child of type \<open>CBS\<close> is the bytes it holds; \<open>qsort\<close> of the C library is a parameter.\<close>

definition compare_set_of_element :: "u8 list \<Rightarrow> u8 list \<Rightarrow> int" where
  "compare_set_of_element a b =
     (let a_len = length a; b_len = length b;
          min_len = (if a_len < b_len then a_len else b_len);
          ret = OPENSSL_memcmp a b min_len
      in if ret \<noteq> 0 then ret else if a_len = b_len then 0 else if a_len < b_len then - 1 else 1)"

lemma parse_base128_shorter: "parse_base128_loop c v = (r, c') \<Longrightarrow> cbs_len c' \<le> cbs_len c"
proof (induction c v arbitrary: c' rule: parse_base128_loop.induct)
  case (1 c v)
  obtain u c1 where g: "CBS_get_u8 c = (u, c1)" by fastforce
  show ?case
  proof (cases u)
    case None
    then show ?thesis using 1(2) g by (auto simp: parse_base128_loop.simps [of c] CBS_get_u8_eq split: if_splits)
  next
    case (Some b)
    then have "cbs_len c1 < cbs_len c" using g cbs_get_u8_len by simp
    then show ?thesis
      using 1(1) [OF g [symmetric] Some] 1(2)
      by (fastforce simp: parse_base128_loop.simps [of c] g Some Let_def split: if_splits)
  qed
qed

lemma cbs_get_any_shorter:
  assumes "cbs_get_any_asn1_element c False = (Some x, c')"
  shows "cbs_len c' < cbs_len c"
proof -
  obtain tag h1 where t: "parse_asn1_tag c = (Some tag, h1)"
    using assms by (auto simp: cbs_get_any_asn1_element_def split: prod.splits option.splits)
  obtain l h2 where l: "CBS_get_u8 h1 = (Some l, h2)"
    using assms t by (auto simp: cbs_get_any_asn1_element_def split: prod.splits option.splits)
  have "cbs_len h1 \<le> cbs_len c"
    using t by (auto simp: parse_asn1_tag_def parse_base128_integer_def on_success_Some_iff Let_def
        dest!: cbs_get_u8_len parse_base128_shorter split: if_splits)
  then have pos: "0 < CBS_len c - CBS_len h2" using cbs_get_u8_len [OF l] by (simp add: CBS_len_def)
  have bytes: "cbs_len c' < cbs_len c" if "0 < n" "on_success (CBS_get_bytes c n) (\<lambda>out s. (Some (f out), s)) = (Some x, c')" for n f
    using that by (auto simp: CBS_get_bytes_eq split: if_splits)
  show ?thesis
  proof (cases "l AND 0x80 = 0")
    case True
    then show ?thesis
      using assms pos bytes [of "unat l + (CBS_len c - CBS_len h2)"]
      by (auto simp: cbs_get_any_asn1_element_def t l Let_def)
  next
    case False
    obtain w h3 where w: "cbs_get_u h2 (unat (l AND 0x7f)) = (w, h3)" by fastforce
    show ?thesis
    proof (cases w)
      case (Some len64)
      have "len64 \<noteq> 0" "\<not> size_wrap (unat len64 + (CBS_len c - CBS_len h2) + unat (l AND 0x7f)) < unat len64"
        using assms False by (auto simp: cbs_get_any_asn1_element_def t l w Some Let_def split: if_splits)
      then have "0 < size_wrap (unat len64 + (CBS_len c - CBS_len h2) + unat (l AND 0x7f))"
        by (metis not_gr_zero unat_eq_zero)
      from bytes [OF this] show ?thesis
        using assms False by (auto simp: cbs_get_any_asn1_element_def t l w Some Let_def split: if_splits)
    qed (use assms False in \<open>auto simp: cbs_get_any_asn1_element_def t l w Let_def split: if_splits\<close>)
  qed
qed

function count_elements :: "CBS \<Rightarrow> nat \<Rightarrow> nat option" where
  "count_elements cbs num_children =
     (if CBS_len cbs \<noteq> 0 then
        (case CBS_get_any_asn1_element cbs of
           (None, _) \<Rightarrow> None
         | (Some _, cbs') \<Rightarrow> count_elements cbs' (num_children + 1))
      else Some num_children)"
  by pat_completeness auto
termination
  by (relation "measure (\<lambda>(cbs, n). cbs_len cbs)")
    (auto simp: CBS_get_any_asn1_element_def dest: sym [THEN cbs_get_any_shorter])

declare count_elements.simps [simp del]

fun get_children :: "CBS \<Rightarrow> nat \<Rightarrow> u8 list list option" where
  "get_children cbs 0 = Some []"
| "get_children cbs (Suc n) =
     (case CBS_get_any_asn1_element cbs of
        (None, _) \<Rightarrow> None
      | (Some (child, _, _), cbs') \<Rightarrow>
          map_option ((#) (take (CBS_len child) (CBS_data child))) (get_children cbs' n))"

fun write_children :: "heap \<Rightarrow> nat \<Rightarrow> u8 list list \<Rightarrow> CBB \<Rightarrow> unit option \<times> CBB" where
  "write_children h d [] c = (Some (), c)"
| "write_children h d (x # xs) c = on_success (CBB_add_bytes h c d x (length x)) (\<lambda>_ c'. write_children h d xs c')"

text \<open>What follows the flush: both passes, the sort, and the contents written anew.\<close>

definition reorder_children ::
  "heap \<Rightarrow> ((u8 list \<Rightarrow> u8 list \<Rightarrow> int) \<Rightarrow> u8 list list \<Rightarrow> u8 list list) \<Rightarrow> CBB \<Rightarrow> nat \<Rightarrow> unit option \<times> CBB" where
  "reorder_children h qsort c d =
     (case count_elements (CBS_init (CBB_data c d) (CBB_len c d)) 0 of
        None \<Rightarrow> (None, c)
      | Some num_children \<Rightarrow>
          (if num_children < 2 then (Some (), c)
           else if num_children > (SIZE_MOD - 1) div 16 then (None, c)
           else
             (case (OPENSSL_memdup h (CBB_data c d) (CBB_len c d), OPENSSL_malloc h (num_children * 16)) of
                (Some buf, Some _) \<Rightarrow>
                  (case get_children (CBS_init buf (CBB_len c d)) num_children of
                     None \<Rightarrow> (None, c)
                   | Some children \<Rightarrow>
                       write_children h d (qsort compare_set_of_element children)
                         (c\<lparr>cbb_base := map_option (\<lambda>b. b\<lparr>bb_len := node_start c d\<rparr>) (cbb_base c)\<rparr>))
              | _ \<Rightarrow> (None, c))))"

definition CBB_flush_asn1_set_of ::
  "heap \<Rightarrow> ((u8 list \<Rightarrow> u8 list \<Rightarrow> int) \<Rightarrow> u8 list list \<Rightarrow> u8 list list) \<Rightarrow> CBB \<Rightarrow> nat \<Rightarrow> unit option \<times> CBB" where
  "CBB_flush_asn1_set_of h qsort c d = on_success (CBB_flush h c d) (\<lambda>_ c1. reorder_children h qsort c1 d)"

text \<open>The comparison is the lexicographic order of strings of octets.\<close>

lemma compare_set_of_element_Cons:
  "compare_set_of_element (x # a) (y # b) = (if x = y then compare_set_of_element a b else uint x - uint y)"
  by (simp add: compare_set_of_element_def OPENSSL_memcmp_def Let_def word_uint_eq_iff)

lemma compare_set_of_element_sign:
  "(compare_set_of_element a b < 0 \<longleftrightarrow> a < b) \<and> (compare_set_of_element a b = 0 \<longleftrightarrow> a = b)"
proof (induction a arbitrary: b)
  case Nil
  then show ?case by (cases b) (simp_all add: compare_set_of_element_def OPENSSL_memcmp_def)
next
  case (Cons x a)
  show ?case
  proof (cases b)
    case Nil
    then show ?thesis by (simp add: compare_set_of_element_def OPENSSL_memcmp_def)
  next
    case (Cons y b')
    show ?thesis
      using Cons.IH [of b']
      by (cases "x = y") (auto simp: Cons compare_set_of_element_Cons word_less_def word_uint_eq_iff)
  qed
qed

lemma compare_set_of_element_le: "compare_set_of_element a b \<le> 0 \<longleftrightarrow> a \<le> b"
  using compare_set_of_element_sign [of a b] by (auto simp: le_less)

lemma compare_set_of_element_ok: "cmp_ok compare_set_of_element"
  unfolding cmp_ok_def
proof (intro conjI allI impI)
  fix a b :: "u8 list"
  show "compare_set_of_element a b < 0 \<longleftrightarrow> 0 < compare_set_of_element b a"
    using compare_set_of_element_sign [of a b] compare_set_of_element_le [of b a] by auto
next
  fix x y z :: "u8 list"
  assume "compare_set_of_element x y \<le> 0" "compare_set_of_element y z \<le> 0"
  then show "compare_set_of_element x z \<le> 0" unfolding compare_set_of_element_le by (rule order_trans)
qed

lemma qsort_elements:
  assumes "qsort_ok qsort"
  shows "qsort compare_set_of_element xs = sort xs"
proof -
  have "mset (qsort compare_set_of_element xs) = mset xs" "sorted_by compare_set_of_element (qsort compare_set_of_element xs)"
    using assms compare_set_of_element_ok unfolding qsort_ok_def by blast+
  then show ?thesis by (intro properties_for_sort [symmetric]) (simp_all add: sorted_by_def compare_set_of_element_le)
qed

text \<open>Elements one after the other, as the two passes read them.\<close>

definition is_element :: "u8 list \<Rightarrow> bool" where
  "is_element x \<longleftrightarrow> (\<exists>t body. length body < 2 ^ 32 \<and> x = der_element t body)"

lemma element_read:
  assumes "cbs_ok c" "is_element x" "cbs_bytes c = x @ r"
  shows "\<exists>t hl. CBS_get_any_asn1_element c = (Some (CBS_init (cbs_data c) (length x), t, hl), cbs_adv (length x) c)"
    "take (length x) (cbs_data c) = x" "cbs_ok (cbs_adv (length x) c)" "cbs_bytes (cbs_adv (length x) c) = r"
    "x \<noteq> []" "cbs_len c \<noteq> 0"
proof -
  obtain t body where e: "length body < 2 ^ 32" "x = der_element t body" using assms(2) by (auto simp: is_element_def)
  show "\<exists>t hl. CBS_get_any_asn1_element c = (Some (CBS_init (cbs_data c) (length x), t, hl), cbs_adv (length x) c)"
    using cbs_get_any_asn1_element_complete [OF assms(1) assms(3) [unfolded e(2)] e(1)]
    unfolding CBS_get_any_asn1_element_def e(2) by blast
  have l: "length x + length r = cbs_len c" using length_cbs_bytes [OF assms(1)] by (simp add: assms(3))
  show "take (length x) (cbs_data c) = x" using take_cbs_data [of "length x" c] l assms(3) by simp
  show "cbs_ok (cbs_adv (length x) c)" "cbs_bytes (cbs_adv (length x) c) = r" using assms(1,3) by simp_all
  show "x \<noteq> []" using e(2) by (simp add: der_element_def der_header_def der_length_def)
  then show "cbs_len c \<noteq> 0" using l by (cases x) simp_all
qed

lemma count_elements_concat:
  "\<lbrakk>\<forall>x \<in> set xs. is_element x; cbs_ok c; cbs_bytes c = concat xs\<rbrakk> \<Longrightarrow> count_elements c n = Some (n + length xs)"
proof (induction xs arbitrary: c n)
  case Nil
  then have "cbs_len c = 0" using length_cbs_bytes [of c] by simp
  then show ?case by (simp add: count_elements.simps [of c] CBS_len_def)
next
  case (Cons x xs)
  then have x: "is_element x" "cbs_bytes c = x @ concat xs" by simp_all
  note r = element_read [OF Cons.prems(2) x]
  show ?case
    using r(1,6) Cons.IH [OF _ r(3,4), of "n + 1"] Cons.prems(1)
    by (subst count_elements.simps) (auto simp: CBS_len_def)
qed

lemma get_children_concat:
  "\<lbrakk>\<forall>x \<in> set xs. is_element x; cbs_ok c; cbs_bytes c = concat xs\<rbrakk> \<Longrightarrow> get_children c (length xs) = Some xs"
proof (induction xs arbitrary: c)
  case (Cons x xs)
  then have x: "is_element x" "cbs_bytes c = x @ concat xs" by simp_all
  note r = element_read [OF Cons.prems(2) x]
  show ?case
    using r(1,2) Cons.IH [OF _ r(3,4)] Cons.prems(1) by (auto simp: CBS_len_def CBS_data_def)
qed simp

lemma count_elements_sound:
  "\<lbrakk>cbs_ok c; count_elements c n = Some m\<rbrakk> \<Longrightarrow> \<exists>xs. (\<forall>x \<in> set xs. is_element x) \<and> cbs_bytes c = concat xs"
proof (induction c n rule: count_elements.induct)
  case (1 c n)
  show ?case
  proof (cases "CBS_len c = 0")
    case True
    then show ?thesis using length_cbs_bytes [OF 1(2)] by (intro exI [of _ "[]"]) (simp add: CBS_len_def)
  next
    case False
    then obtain e t hl c' where e: "cbs_get_any_asn1_element c False = (Some (e, t, hl), c')" "count_elements c' (n + 1) = Some m"
    proof -
      obtain q c' where g: "cbs_get_any_asn1_element c False = (q, c')" by fastforce
      then have "q \<noteq> None" "count_elements c' (n + 1) = Some m"
        using 1(3) False unfolding count_elements.simps [of c n] CBS_get_any_asn1_element_def by (auto split: option.splits)
      then show thesis using that g by (cases q) auto
    qed
    obtain body where b: "length body < 2 ^ 32" "cbs_bytes c = der_element t body @ cbs_bytes c'"
      "c' = cbs_adv (length (der_element t body)) c"
      using cbs_get_any_asn1_element_sound [OF e(1) 1(2)] by blast
    have ok': "cbs_ok c'" unfolding b(3) by (rule cbs_ok_adv [OF 1(2)])
    obtain xs where "\<forall>x \<in> set xs. is_element x" "cbs_bytes c' = concat xs"
      using 1(1) [OF False e(1) [folded CBS_get_any_asn1_element_def, symmetric] refl ok' e(2)] by blast
    then show ?thesis using b(1,2) by (intro exI [of _ "der_element t body # xs"]) (auto simp: is_element_def)
  qed
qed

text \<open>Writing the children at the top of the frames.\<close>

lemma write_children_refines:
  "\<lbrakk>heap_ok h; cbb_rel c fs; length fs = Suc d; \<forall>x \<in> set xs. length x < 2 ^ 63\<rbrakk> \<Longrightarrow>
    refines c (write_children h d xs c) (abs_write d (concat xs) fs)"
proof (induction xs arbitrary: c fs)
  case Nil
  then have "fs \<noteq> []" by auto
  then show ?case using refines_top [OF Nil(2)] Nil(3) by (simp add: abs_write_top)
next
  case (Cons x xs)
  have d: "d < length fs" using Cons.prems(3) by simp
  have x: "length x < 2 ^ 63" using Cons.prems(4) by simp
  have add: "refines c (CBB_add_bytes h c d x (length x)) (abs_write d x fs)"
    using CBB_add_bytes_refines [OF Cons.prems(1,2) d x order_refl] by simp
  show ?case
    unfolding write_children.simps concat.simps
    by (rule refines_write_seq [OF add d]) (use Cons in simp)
qed

text \<open>The contents of the topmost frame, and the builder rewound to its start.\<close>

lemma node_start_top:
  assumes "nodes_rel (length root) (cbb_nodes c) fs'" "pre @ [(k, x)] = (Prefixed 0, root) # fs'"
  shows "node_start c (length pre) = length (frames_bytes (pre @ [(k, [])]))"
proof (cases pre)
  case Nil
  then show ?thesis using assms(2) by (simp add: node_start_def frame_bytes_def)
next
  case (Cons f p)
  have f: "f = (Prefixed 0, root)" "fs' = p @ [(k, x)]" using assms(2) unfolding Cons by simp_all
  have "nodes_rel (length root + length (frames_bytes p)) (drop (length p) (cbb_nodes c)) [(k, x)]"
    using nodes_rel_drop [OF assms(1), of "length p"] unfolding f(2) by simp
  then obtain n where n: "drop (length p) (cbb_nodes c) = [n]"
    "offset n = length root + length (frames_bytes p)" "pending_len_len n = prefix_len k"
    by (cases "drop (length p) (cbb_nodes c)") (auto simp: nodes_rel_Nil)
  have "cbb_nodes c ! length p = n" by (rule nth_via_drop [OF n(1)])
  then show ?thesis unfolding node_start_def Cons f(1) using n(2,3) by (simp add: frame_bytes_def)
qed

lemma top_contents:
  assumes rel: "cbb_rel c (pre @ [(k, x)])"
  defines "d \<equiv> length pre"
  shows "CBB_len c d = length x" "length x \<le> length (CBB_data c d)" "take (length x) (CBB_data c d) = x"
    "cbb_rel (c\<lparr>cbb_base := map_option (\<lambda>b. b\<lparr>bb_len := node_start c d\<rparr>) (cbb_base c)\<rparr>) (pre @ [(k, [])])"
    "length x < 2 ^ 63"
proof -
  let ?fs = "pre @ [(k, x)]"
  obtain b root fs' where b: "cbb_base c = Some b" "bb_ok b" "?fs = (Prefixed 0, root) # fs'"
    "bb_data b = frames_bytes ?fs" "nodes_rel (length root) (cbb_nodes c) fs'"
    using rel unfolding cbb_rel_def by blast
  let ?start = "length (frames_bytes (pre @ [(k, [])]))"
  have data: "bb_data b = frames_bytes (pre @ [(k, [])]) @ x" by (simp add: b(4) frame_bytes_def)
  have start: "node_start c d = ?start" unfolding d_def by (rule node_start_top [OF b(5,3)])
  have len: "bb_len b = ?start + length x" using length_bb_data [OF b(2)] data by simp
  have d': "drop ?start (bb_data b) = x" by (simp add: data)
  show "CBB_len c d = length x" by (simp add: CBB_len_def base_len_def b(1) len start)
  have le: "bb_len b \<le> length (bb_bytes b)" "bb_len b < 2 ^ 63" using b(2) by (simp_all add: bb_ok_def)
  show "length x < 2 ^ 63" using le(2) len by simp
  show "length x \<le> length (CBB_data c d)" using le(1) len by (simp add: CBB_data_def b(1) start)
  show "take (length x) (CBB_data c d) = x"
    using d' len by (simp add: CBB_data_def b(1) start bb_data_def drop_take)
  show "cbb_rel (c\<lparr>cbb_base := map_option (\<lambda>b. b\<lparr>bb_len := node_start c d\<rparr>) (cbb_base c)\<rparr>) (pre @ [(k, [])])"
  proof -
    let ?b = "b\<lparr>bb_len := ?start\<rparr>"
    have "bb_ok ?b" using b(2) len by (simp add: bb_ok_def)
    moreover have "bb_data ?b = frames_bytes (pre @ [(k, [])])"
      using arg_cong [OF data, of "take ?start"] len by (simp add: bb_data_def min_absorb1)
    moreover have "\<exists>root' fs''. pre @ [(k, [])] = (Prefixed 0, root') # fs'' \<and> nodes_rel (length root') (cbb_nodes c) fs''"
    proof (cases pre)
      case Nil
      then show ?thesis using b(3,5) by (auto simp: nodes_rel_Nil)
    next
      case (Cons f pre')
      have app: "fs' = append_top x (pre' @ [(k, [])])" using b(3) Cons by (simp add: append_top_snoc)
      have "nodes_rel (length root) (cbb_nodes c) (pre' @ [(k, [])])"
        by (rule nodes_rel_append_topD [of _ _ x]) (use b(5) app in simp_all)
      then show ?thesis using b(3) Cons by simp
    qed
    ultimately show ?thesis by (auto simp: cbb_rel_def b(1) start)
  qed
qed

lemma length_concat_sort: "length (concat (sort xs)) = length (concat (xs :: u8 list list))"
  by (simp add: length_concat sum_mset_sum_list [symmetric])

lemma refines_same: "\<lbrakk>refines c' r s; cbb_cap c' = cbb_cap c; cbb_resizes c' = cbb_resizes c\<rbrakk> \<Longrightarrow> refines c r s"
  by (auto simp: refines_def split: prod.splits option.splits)

text \<open>
  After the flush, elements are put into the order of DER: sorted as strings of octets. Contents
  that are not a sequence of elements are refused.
\<close>

lemma reorder_children_refines:
  assumes h: "heap_ok h" "qsort_ok qsort" and rel: "cbb_rel c (pre @ [(k, concat xs)])"
    and xs: "\<forall>x \<in> set xs. is_element x"
    and room: "grants h (length (concat xs) + 8)" "grants h (length xs * 16 + 8)"
  defines "d \<equiv> length pre"
  shows "refines c (reorder_children h qsort c d) (Some (pre @ [(k, concat (sort xs))]))"
proof (cases "length xs < 2")
  note top = top_contents [OF rel, folded d_def]
  let ?n = "length (concat xs)" and ?rd = "CBS_init (CBB_data c d) (CBB_len c d)"
  have rd: "cbs_ok ?rd" "cbs_bytes ?rd = concat xs" using top(1-3) by simp_all
  have count: "count_elements ?rd 0 = Some (length xs)"
    using count_elements_concat [OF xs rd, of 0] by simp
  have small: "length xs * 16 + 8 < 2 ^ 63" "?n + 8 < 2 ^ 63" using h(1) room by (simp_all add: heap_ok_def)
  {
    case True
    then have "sort xs = xs" by (cases xs; cases "tl xs") simp_all
    then show ?thesis using True rel count by (simp add: refines_top reorder_children_def)
  next
    case False
    then obtain x where x: "x \<in> set xs" by (cases xs) auto
    have "x \<noteq> []" using x xs by (auto simp: is_element_def der_element_def der_header_def der_length_def)
    then have pos: "0 < ?n" using x by (cases "concat xs") auto
    have dup: "OPENSSL_memdup h (CBB_data c d) (CBB_len c d) = Some (concat xs)"
      unfolding top(1) using OPENSSL_memdup_eq [OF pos, of h "CBB_data c d"] room(1) small(2) top(3) by simp
    obtain blk where blk: "OPENSSL_malloc h (length xs * 16) = Some blk"
      using OPENSSL_malloc_Some_iff [of "length xs * 16" h] room(2) small(1) by auto
    have get: "get_children (CBS_init (concat xs) (CBB_len c d)) (length xs) = Some xs"
      by (rule get_children_concat [OF xs]) (simp_all add: top(1))
    let ?c2 = "c\<lparr>cbb_base := map_option (\<lambda>b. b\<lparr>bb_len := node_start c d\<rparr>) (cbb_base c)\<rparr>"
    have "length y < 2 ^ 63" if "y \<in> set (sort xs)" for y
      using that small(2) by (auto dest!: split_list)
    then have w: "refines ?c2 (write_children h d (sort xs) ?c2) (abs_write d (concat (sort xs)) (pre @ [(k, [])]))"
      by (intro write_children_refines [OF h(1) top(4)]) (simp_all add: d_def)
    have "abs_write d (concat (sort xs)) (pre @ [(k, [])]) = Some (pre @ [(k, concat (sort xs))])"
      by (simp add: abs_write_top d_def append_top_snoc)
    note w = w [unfolded this]
    have "cbb_cap ?c2 = cbb_cap c" "cbb_resizes ?c2 = cbb_resizes c"
      by (cases "cbb_base c"; simp add: cbb_cap_def cbb_resizes_def)+
    note written = refines_same [OF w this]
    have "\<not> (SIZE_MOD - 1) div 16 < length xs" using small(1) by simp
    then show ?thesis
      using False written by (simp add: reorder_children_def count dup blk get qsort_elements [OF h(2)])
  }
qed

lemma CBB_flush_asn1_set_of_refines:
  assumes h: "heap_ok h" "qsort_ok qsort" and rel: "cbb_rel c fs" and d: "d < length fs"
    and fl: "abs_flush d fs = Some (pre @ [(k, concat xs)])" and xs: "\<forall>x \<in> set xs. is_element x"
    and room: "grants h (length (concat xs) + 8)" "grants h (length xs * 16 + 8)"
  shows "refines c (CBB_flush_asn1_set_of h qsort c d) (Some (pre @ [(k, concat (sort xs))]))"
  unfolding CBB_flush_asn1_set_of_def
proof (rule refines_bind [OF CBB_flush_refines [OF h(1) rel d], where ?a2.0 = "\<lambda>_. Some (pre @ [(k, concat (sort xs))])"])
  fix u c1 fs1
  assume a: "abs_flush d fs = Some fs1" "cbb_rel c1 fs1"
  have "cbb_rel c1 (pre @ [(k, concat xs)])" using a fl by simp
  moreover have "d = length pre" using abs_flush_length [OF fl d] by simp
  ultimately show "refines c1 (reorder_children h qsort c1 d) (Some (pre @ [(k, concat (sort xs))]))"
    using reorder_children_refines [OF h _ xs room] by simp
next
  fix fs' fs''
  assume "abs_flush d fs = Some fs'" "Some (pre @ [(k, concat (sort xs))]) = Some fs''"
  then show "length (frames_bytes fs') \<le> length (frames_bytes fs'')"
    using fl by (auto simp only: frames_bytes_simps length_append length_frame_bytes length_concat_sort option.inject)
qed (use fl in simp_all)

lemma CBB_flush_asn1_set_of_refuses:
  assumes h: "heap_ok h" and rel: "cbb_rel c fs" and d: "d < length fs"
    and res: "CBB_flush_asn1_set_of h qsort c d = (Some u, c')"
  shows "\<exists>pre k xs. abs_flush d fs = Some (pre @ [(k, concat xs)]) \<and> (\<forall>x \<in> set xs. is_element x)"
proof -
  obtain c1 m where c1: "CBB_flush h c d = (Some (), c1)"
    "count_elements (CBS_init (CBB_data c1 d) (CBB_len c1 d)) 0 = Some m"
    using res by (auto simp: CBB_flush_asn1_set_of_def reorder_children_def on_success_Some_iff split: option.splits)
  obtain fs1 where fs1: "abs_flush d fs = Some fs1" "cbb_rel c1 fs1"
    using CBB_flush_refines [OF h rel d] c1(1) by (auto simp: refines_def)
  have l: "length fs1 = Suc d" using abs_flush_length [OF fs1(1) d] .
  then obtain pre k x where p: "fs1 = pre @ [(k, x)]" "d = length pre" by (cases fs1 rule: rev_cases) auto
  note top = top_contents [OF fs1(2) [unfolded p(1)], folded p(2)]
  have ok: "cbs_ok (CBS_init (CBB_data c1 d) (CBB_len c1 d))" using top(1,2) by simp
  obtain xs where "\<forall>x \<in> set xs. is_element x" "x = concat xs"
    using count_elements_sound [OF ok c1(2)] top(1,3) by auto
  then show ?thesis using fs1(1) p(1) by blast
qed

end
