(* ===== verification/Date.thy ===== *)
theory Date
  imports Prelude "HOL-Library.Signed_Division"
begin

unbundle bit_operations_syntax

text \<open>
  Dates and times of \<open>crypto/asn1/time_support.c\<close>: Julian day numbers, adding an offset to a broken-down
  time and the difference of two. Integer division in C truncates (\<open>sdiv\<close>); a \<open>long\<close> stored in an \<open>int\<close> and the
  product of two \<open>int\<close>s are reduced to 32 bits (\<open>as_int\<close>). The reference is the Gregorian calendar.
\<close>

section \<open>Definitions\<close>

definition as_int :: "int \<Rightarrow> int" where
  "as_int x = sint (of_int x :: 32 word)"

text \<open>The members of \<open>struct tm\<close> that the code uses.\<close>

record tm =
  tm_sec :: int
  tm_min :: int
  tm_hour :: int
  tm_mday :: int
  tm_mon :: int
  tm_year :: int

definition SECS_PER_DAY :: int where "SECS_PER_DAY = 24 * 60 * 60"

text \<open>Every sum and product below is one of 32-bit \<open>int\<close>s. An overflow is undefined in C; here it wraps.\<close>

definition date_to_julian :: "int \<Rightarrow> int \<Rightarrow> int \<Rightarrow> int" where
  "date_to_julian y m d =
     (let c = as_int (m - 14) sdiv 12;
          years = as_int (1461 * as_int (as_int (y + 4800) + c)) sdiv 4;
          months = as_int (367 * as_int (as_int (m - 2) - as_int (12 * c))) sdiv 12;
          centuries = as_int (3 * (as_int (as_int (y + 4900) + c) sdiv 100)) sdiv 4
      in as_int (as_int (as_int (as_int (years + months) - centuries) + d) - 32075))"

definition julian_to_date :: "int \<Rightarrow> int \<times> int \<times> int" where
  "julian_to_date jd =
     (let L0 = jd + 68569;
          n = (4 * L0) sdiv 146097;
          L1 = L0 - (146097 * n + 3) sdiv 4;
          i = (4000 * (L1 + 1)) sdiv 1461001;
          L2 = L1 - (1461 * i) sdiv 4 + 31;
          j = (80 * L2) sdiv 2447;
          d = as_int (L2 - (2447 * j) sdiv 80);
          L3 = j sdiv 11;
          m = as_int (j + 2 - 12 * L3);
          y = as_int (100 * (n - 49) + i + L3)
      in (y, m, d))"

text \<open>The day and the seconds of the day of a time and an offset; \<open>None\<close> is the failure.\<close>

definition julian_adj :: "tm \<Rightarrow> int \<Rightarrow> int \<Rightarrow> (int \<times> int) option" where
  "julian_adj tm off_day offset_sec =
     (let offset_day0 = as_int (offset_sec sdiv SECS_PER_DAY);
          offset_hms0 = as_int (offset_sec - as_int (offset_day0 * SECS_PER_DAY));
          offset_day1 = as_int (offset_day0 + off_day);
          offset_hms1 = as_int (offset_hms0 + as_int (as_int (as_int (tm_hour tm * 3600) + as_int (tm_min tm * 60)) + tm_sec tm));
          (offset_day, offset_hms) =
            (if offset_hms1 \<ge> SECS_PER_DAY then (as_int (offset_day1 + 1), as_int (offset_hms1 - SECS_PER_DAY))
             else if offset_hms1 < 0 then (as_int (offset_day1 - 1), as_int (offset_hms1 + SECS_PER_DAY))
             else (offset_day1, offset_hms1));
          time_jd = date_to_julian (as_int (tm_year tm + 1900)) (as_int (tm_mon tm + 1)) (tm_mday tm) + offset_day
      in if time_jd < 0 then None else Some (time_jd, offset_hms))"

definition OPENSSL_gmtime_adj :: "tm \<Rightarrow> int \<Rightarrow> int \<Rightarrow> tm option" where
  "OPENSSL_gmtime_adj tm off_day offset_sec =
     (case julian_adj tm off_day offset_sec of
        None \<Rightarrow> None
      | Some (time_jd, time_sec) \<Rightarrow>
          (case julian_to_date time_jd of
             (time_year, time_month, time_day) \<Rightarrow>
               if time_year < 1900 \<or> time_year > 9999 then None
               else Some (tm\<lparr>tm_year := time_year - 1900, tm_mon := time_month - 1, tm_mday := time_day,
                 tm_hour := time_sec sdiv 3600, tm_min := (time_sec sdiv 60) smod 60, tm_sec := time_sec smod 60\<rparr>)))"

definition OPENSSL_gmtime_diff :: "tm \<Rightarrow> tm \<Rightarrow> (int \<times> int) option" where
  "OPENSSL_gmtime_diff from_tm to_tm =
     (case julian_adj from_tm 0 0 of
        None \<Rightarrow> None
      | Some (from_jd, from_sec) \<Rightarrow>
          (case julian_adj to_tm 0 0 of
             None \<Rightarrow> None
           | Some (to_jd, to_sec) \<Rightarrow>
               (let diff_day0 = to_jd - from_jd; diff_sec0 = to_sec - from_sec;
                    (diff_day1, diff_sec1) =
                      (if diff_day0 > 0 \<and> diff_sec0 < 0 then (diff_day0 - 1, diff_sec0 + SECS_PER_DAY)
                       else (diff_day0, diff_sec0));
                    (diff_day, diff_sec) =
                      (if diff_day1 < 0 \<and> diff_sec1 > 0 then (diff_day1 + 1, diff_sec1 - SECS_PER_DAY)
                       else (diff_day1, diff_sec1))
                in Some (as_int diff_day, diff_sec))))"

section \<open>The Gregorian calendar\<close>

definition leap :: "int \<Rightarrow> bool" where
  "leap y \<longleftrightarrow> 4 dvd y \<and> (\<not> 100 dvd y \<or> 400 dvd y)"

definition month_len :: "int \<Rightarrow> int \<Rightarrow> int" where
  "month_len y m = (if m \<in> {4, 6, 9, 11} then 30 else if m = 2 then (if leap y then 29 else 28) else 31)"

definition valid_date :: "int \<Rightarrow> int \<Rightarrow> int \<Rightarrow> bool" where
  "valid_date y m d \<longleftrightarrow> 1 \<le> m \<and> m \<le> 12 \<and> 1 \<le> d \<and> d \<le> month_len y m"

text \<open>Days before 1 January of a year and before the first of a month; 1 January of the year 1 is day 1.\<close>

definition days_before_year :: "int \<Rightarrow> int" where
  "days_before_year y = 365 * (y - 1) + (y - 1) div 4 - (y - 1) div 100 + (y - 1) div 400"

definition days_before_month :: "int \<Rightarrow> int \<Rightarrow> int" where
  "days_before_month y m = sum_list (map (month_len y) (filter (\<lambda>k. k < m) [1, 2, 3, 4, 5, 6, 7, 8, 9, 10, 11]))"

definition day_number :: "int \<Rightarrow> int \<Rightarrow> int \<Rightarrow> int" where
  "day_number y m d = days_before_year y + days_before_month y m + d"

text \<open>The values of an \<open>int\<close>.\<close>

definition in_int :: "int \<Rightarrow> bool" where "in_int x \<longleftrightarrow> - (2 ^ 31) \<le> x \<and> x < 2 ^ 31"

text \<open>The formula over the integers, and the inputs for which no operation of the code overflows.\<close>

definition julian_formula :: "int \<Rightarrow> int \<Rightarrow> int \<Rightarrow> int" where
  "julian_formula y m d =
     (1461 * (y + 4800 + (m - 14) sdiv 12)) sdiv 4 +
     (367 * (m - 2 - 12 * ((m - 14) sdiv 12))) sdiv 12 -
     (3 * ((y + 4900 + (m - 14) sdiv 12) sdiv 100)) sdiv 4 + d - 32075"

definition date_to_julian_defined :: "int \<Rightarrow> int \<Rightarrow> int \<Rightarrow> bool" where
  "date_to_julian_defined y m d \<longleftrightarrow>
     (let c = (m - 14) sdiv 12; L = y + 4800 + c; M = m - 2 - 12 * c; C = (y + 4900 + c) sdiv 100;
          s = (1461 * L) sdiv 4 + (367 * M) sdiv 12; t = s - (3 * C) sdiv 4
      in list_all in_int [m - 14, y + 4800, L, 1461 * L, m - 2, 12 * c, M, 367 * M, y + 4900, y + 4900 + c, 3 * C,
           s, t, t + d, t + d - 32075])"

lemma as_int_small [simp]: "\<lbrakk>- (2 ^ 31) \<le> x; x < 2 ^ 31\<rbrakk> \<Longrightarrow> as_int x = x"
  unfolding as_int_def by (simp add: sint_sbintrunc' signed_take_bit_int_eq_self)

lemma as_int_in_int: "in_int x \<Longrightarrow> as_int x = x"
  unfolding in_int_def by (elim conjE) (rule as_int_small)

lemma date_to_julian_no_overflow: "date_to_julian_defined y m d \<Longrightarrow> date_to_julian y m d = julian_formula y m d"
  by (simp add: date_to_julian_defined_def date_to_julian_def julian_formula_def Let_def as_int_in_int)

lemma sdiv_nonneg: "\<lbrakk>0 \<le> (a :: int); 0 < b\<rbrakk> \<Longrightarrow> a sdiv b = a div b"
  by (simp add: signed_divide_int_def sgn_if)

lemma smod_nonneg: "\<lbrakk>0 \<le> (a :: int); 0 < b\<rbrakk> \<Longrightarrow> a smod b = a mod b"
  using sdiv_mult_smod_eq [of a b] by (simp add: sdiv_nonneg minus_div_mult_eq_mod [symmetric])

lemma month_cases:
  assumes "1 \<le> (m :: int)" "m \<le> 12"
  obtains "m = 1" | "m = 2" | "m = 3" | "m = 4" | "m = 5" | "m = 6" | "m = 7" | "m = 8" | "m = 9" | "m = 10" | "m = 11" | "m = 12"
proof -
  have "m \<in> {1..12}" using assms by simp
  also have "{1..12} = set [1..12 :: int]" by simp
  also have "[1..12 :: int] = [1, 2, 3, 4, 5, 6, 7, 8, 9, 10, 11, 12]" by code_simp
  finally show ?thesis using that by auto
qed

lemma div_step: "0 < (k :: int) \<Longrightarrow> y div k = (y - 1) div k + of_bool (k dvd y)"
proof -
  assume k: "0 < k"
  define q r where "q = y div k" and "r = y mod k"
  have y: "y = k * q + r" "0 \<le> r" "r < k" using k by (simp_all add: q_def r_def)
  show ?thesis
  proof (cases "r = 0")
    case True
    then have "y - 1 = k * (q - 1) + (k - 1)" using y by (simp add: algebra_simps)
    moreover have "(k * (q - 1) + (k - 1)) div k = q - 1" using k by (simp add: div_pos_pos_trivial)
    ultimately have "(y - 1) div k = q - 1" by (simp only:)
    then show ?thesis using True by (simp add: q_def [symmetric] r_def dvd_eq_mod_eq_0)
  next
    case False
    then have "y - 1 = k * q + (r - 1)" using y by simp
    moreover have "(k * q + (r - 1)) div k = q" using y(2,3) False k by (simp add: div_pos_pos_trivial)
    ultimately have "(y - 1) div k = q" by (simp only:)
    then show ?thesis using False by (simp add: q_def [symmetric] r_def dvd_eq_mod_eq_0)
  qed
qed

lemma month_len_values:
  "month_len y 1 = 31" "month_len y 2 = 28 + of_bool (leap y)" "month_len y 3 = 31" "month_len y 4 = 30"
  "month_len y 5 = 31" "month_len y 6 = 30" "month_len y 7 = 31" "month_len y 8 = 31" "month_len y 9 = 30"
  "month_len y 10 = 31" "month_len y 11 = 30" "month_len y 12 = 31"
  by (simp_all add: month_len_def)

lemma days_before_month_values:
  "days_before_month y 1 = 0" "days_before_month y 2 = 31" "days_before_month y 3 = 59 + of_bool (leap y)"
  "days_before_month y 4 = 90 + of_bool (leap y)" "days_before_month y 5 = 120 + of_bool (leap y)"
  "days_before_month y 6 = 151 + of_bool (leap y)" "days_before_month y 7 = 181 + of_bool (leap y)"
  "days_before_month y 8 = 212 + of_bool (leap y)" "days_before_month y 9 = 243 + of_bool (leap y)"
  "days_before_month y 10 = 273 + of_bool (leap y)" "days_before_month y 11 = 304 + of_bool (leap y)"
  "days_before_month y 12 = 334 + of_bool (leap y)"
  unfolding days_before_month_def by (simp_all add: month_len_values)

lemma of_bool_leap: "\<lbrakk>c \<Longrightarrow> b; b \<Longrightarrow> a\<rbrakk> \<Longrightarrow> of_bool (a \<and> (\<not> b \<or> c)) = (of_bool a - of_bool b + of_bool c :: int)"
  by (cases a; cases b; cases c) simp_all

lemma days_before_year_next: "days_before_year (y + 1) = 365 * y + y div 4 - y div 100 + y div 400"
  by (simp only: days_before_year_def add_diff_cancel_right')

lemma sum_of_steps:
  "\<lbrakk>a' = a + x; b' = b + y; c' = c + z; l = x - y + z\<rbrakk> \<Longrightarrow>
    365 * k + a' - b' + c' = 365 * (k - 1) + a - b + c + 365 + (l :: int)"
  by simp

lemma days_before_year_step: "days_before_year (y + 1) = days_before_year y + 365 + of_bool (leap y)"
proof -
  have "of_bool (leap y) = (of_bool (4 dvd y) - of_bool (100 dvd y) + of_bool (400 dvd y) :: int)"
    unfolding leap_def
  proof (rule of_bool_leap)
    show "400 dvd y \<Longrightarrow> 100 dvd y" by (rule dvd_trans [of 100 400, rotated]) (assumption, simp)
    show "100 dvd y \<Longrightarrow> 4 dvd y" by (rule dvd_trans [of 4 100, rotated]) (assumption, simp)
  qed
  then show ?thesis
    unfolding days_before_year_next unfolding days_before_year_def
    by (intro sum_of_steps [OF div_step div_step div_step]) simp_all
qed

lemma three_quarters: "(3 * (c + 49)) div 4 = c + 36 - (c :: int) div 4"
proof -
  define q r where "q = c div 4" and "r = c mod 4"
  have c: "c = 4 * q + r" "0 \<le> r" "r < 4" by (simp_all add: q_def r_def)
  then have "3 * (c + 49) = 4 * (3 * q + 36) + (3 * r + 3)" by simp
  moreover have "(3 * r + 3) div 4 = r" using c(2,3) by presburger
  ultimately have "(3 * (c + 49)) div 4 = 3 * q + 36 + r" by simp
  then show ?thesis using c(1) by (simp add: q_def [symmetric])
qed

text \<open>The code's formula with the year starting in March: \<open>M\<close> is 1 for March and 12 for February.\<close>

definition march_year :: "int \<Rightarrow> int \<Rightarrow> int" where "march_year y m = (if m \<le> 2 then y - 1 else y)"

definition march_month :: "int \<Rightarrow> int" where "march_month m = (if m \<le> 2 then m + 10 else m - 2)"

lemma julian_formula_eq:
  assumes "- 4799 \<le> y" "1 \<le> m" "m \<le> 12"
  shows "julian_formula y m d =
    365 * march_year y m + march_year y m div 4 - march_year y m div 100 + march_year y m div 400 +
      (367 * march_month m) div 12 + d + 1721089"
proof -
  let ?y = "march_year y m" and ?c = "march_year y m div 100"
  have adj: "(m - 14) sdiv 12 = (if m \<le> 2 then - 1 else 0)"
    using assms(2,3) by (cases rule: month_cases) (simp_all add: signed_divide_int_def sgn_if)
  have y: "y + 4800 + (m - 14) sdiv 12 = ?y + 4800" "y + 4900 + (m - 14) sdiv 12 = ?y + 4900"
    and m: "m - 2 - 12 * ((m - 14) sdiv 12) = march_month m"
    by (simp_all add: adj march_year_def march_month_def)
  have nn: "0 \<le> ?y + 4800" "0 \<le> march_month m" using assms by (auto simp: march_year_def march_month_def)
  have c: "(?y + 4900) div 100 = ?c + 49" by simp
  have d1: "(1461 * (?y + 4800)) div 4 = 365 * ?y + ?y div 4 + 1753200"
  proof -
    have "1461 * (?y + 4800) = ?y + (365 * ?y + 1753200) * 4" by simp
    then show ?thesis by (simp only: div_mult_self1)
  qed
  have d2: "(3 * (?c + 49)) div 4 = ?c + 36 - (?c div 4)"
    by (rule three_quarters)
  have d3: "?c div 4 = ?y div 400" by (simp add: zdiv_zmult2_eq [symmetric])
  have c_nonneg: "0 \<le> ?c + 49"
    unfolding c [symmetric] by (rule pos_imp_zdiv_nonneg_iff [THEN iffD2]) (use nn(1) in simp_all)
  have e1: "(1461 * (?y + 4800)) sdiv 4 = (1461 * (?y + 4800)) div 4" "(367 * march_month m) sdiv 12 = (367 * march_month m) div 12"
    by (intro sdiv_nonneg mult_nonneg_nonneg; use nn in simp)+
  have e2: "(?y + 4900) sdiv 100 = ?c + 49"
    unfolding c [symmetric] by (rule sdiv_nonneg) (use nn in simp_all)
  have e3: "(3 * (?c + 49)) sdiv 4 = (3 * (?c + 49)) div 4"
    by (intro sdiv_nonneg mult_nonneg_nonneg) (use c_nonneg in simp_all)
  show ?thesis
    unfolding julian_formula_def y m e2 e1 e3 d1 d2 d3 by simp
qed

lemma julian_formula_day_number:
  assumes "- 4799 \<le> y" "1 \<le> m" "m \<le> 12"
  shows "julian_formula y m d = day_number y m d + 1721425"
proof -
  have next_year: "365 * y + y div 4 - y div 100 + y div 400 = days_before_year y + 365 + of_bool (leap y)"
    by (rule days_before_year_step [unfolded days_before_year_next])
  have prev: "365 * (y - 1) + (y - 1) div 4 - (y - 1) div 100 + (y - 1) div 400 = days_before_year y"
    by (rule days_before_year_def [symmetric])
  have base: "julian_formula y m d =
      days_before_year y + (if m \<le> 2 then 0 else 365 + of_bool (leap y)) + (367 * march_month m) div 12 + d + 1721089"
    unfolding julian_formula_eq [OF assms] march_year_def using next_year prev by (cases "m \<le> 2") simp_all
  from assms(2,3) show ?thesis
    by (cases rule: month_cases) (use base in \<open>simp_all add: day_number_def march_month_def days_before_month_values\<close>)
qed

text \<open>
  Nothing overflows in \<open>date_to_julian\<close> up to the year 1465072; in the next, \<open>1461 * (y + 4800)\<close> does.
\<close>

lemma div_bounds: "\<lbrakk>0 \<le> (x :: int); 0 < k\<rbrakk> \<Longrightarrow> 0 \<le> x div k \<and> k * (x div k) \<le> x"
  using mult_div_mod_eq [of k x] pos_mod_sign [of k x] pos_imp_zdiv_nonneg_iff [of k x] by linarith

lemma date_to_julian_defined_range:
  assumes y: "- 4799 \<le> y" "y \<le> 1465072" and m: "1 \<le> m" "m \<le> 12" and d: "1 \<le> d" "d \<le> 31"
  shows "date_to_julian_defined y m d"
proof -
  define c where "c = (m - 14) sdiv 12"
  define L where "L = y + 4800 + c"
  define M where "M = m - 2 - 12 * c"
  define C where "C = (y + 4900 + c) sdiv 100"
  have c: "c = (if m \<le> 2 then - 1 else 0)"
    unfolding c_def using m by (cases rule: month_cases) (simp_all add: signed_divide_int_def sgn_if)
  have L: "0 \<le> L" "L \<le> 1469872" and M: "1 \<le> M" "M \<le> 12" and K: "0 \<le> y + 4900 + c" "y + 4900 + c \<le> 1469972"
    using y m by (auto simp: L_def M_def c)
  have "C = (y + 4900 + c) div 100" unfolding C_def using K by (simp add: sdiv_nonneg)
  then have C: "0 \<le> C" "C \<le> 14699" using div_bounds [OF K(1), of 100] K(2) by linarith+
  define a b e where "a = (1461 * L) sdiv 4" and "b = (367 * M) sdiv 12" and "e = (3 * C) sdiv 4"
  have "a = (1461 * L) div 4" "b = (367 * M) div 12" "e = (3 * C) div 4"
    unfolding a_def b_def e_def using L M C by (simp_all add: sdiv_nonneg)
  then have "0 \<le> a" "4 * a \<le> 1461 * L" "0 \<le> b" "12 * b \<le> 367 * M" "0 \<le> e" "4 * e \<le> 3 * C"
    using div_bounds [of "1461 * L" 4] div_bounds [of "367 * M" 12] div_bounds [of "3 * C" 4] L(1) M(1) C(1) by simp_all
  then have "list_all in_int [m - 14, y + 4800, L, 1461 * L, m - 2, 12 * c, M, 367 * M, y + 4900, y + 4900 + c, 3 * C,
      a + b, a + b - e, a + b - e + d, a + b - e + d - 32075]"
    using y m d L M K C by (simp add: in_int_def c)
  then show ?thesis
    unfolding date_to_julian_defined_def Let_def c_def [symmetric] L_def [symmetric] M_def [symmetric] C_def [symmetric]
      a_def [symmetric] b_def [symmetric] e_def [symmetric] .
qed

lemma date_to_julian_overflows: "\<not> date_to_julian_defined 1465073 3 1"
  by (simp add: date_to_julian_defined_def in_int_def sdiv_nonneg)

lemma date_to_julian_day_number:
  assumes "- 4799 \<le> y" "y \<le> 1465072" "1 \<le> m" "m \<le> 12" "1 \<le> d" "d \<le> 31"
  shows "date_to_julian y m d = day_number y m d + 1721425"
  using date_to_julian_no_overflow [OF date_to_julian_defined_range [OF assms]] julian_formula_day_number [OF assms(1,3,4)]
  by simp

lemma div_eqI: "\<lbrakk>0 < n; q * n \<le> x; x < (q + 1) * n\<rbrakk> \<Longrightarrow> (x :: int) div n = q"
proof -
  assume "0 < n" "q * n \<le> x" "x < (q + 1) * n"
  then show ?thesis by (intro int_div_pos_eq [of x n q "x - q * n"]) (simp_all add: algebra_simps)
qed

lemma sdiv_eqI: "\<lbrakk>0 < n; 0 \<le> q; q * n \<le> x; x < (q + 1) * n\<rbrakk> \<Longrightarrow> (x :: int) sdiv n = q"
proof -
  assume a: "0 < n" "0 \<le> q" "q * n \<le> x" "x < (q + 1) * n"
  then have "0 \<le> x" using mult_nonneg_nonneg [of q n] by linarith
  then show ?thesis using a div_eqI [of n q x] by (simp add: sdiv_nonneg)
qed

text \<open>The last steps of the inverse: the month and the day from the day of the year that starts in March.\<close>

lemma julian_month:
  assumes "1 \<le> m" "m \<le> 12" "1 \<le> d" "d \<le> month_len y m"
  defines "L2 \<equiv> (367 * march_month m) div 12 + d"
  shows "(80 * L2) sdiv 2447 = march_month m" "L2 - (2447 * march_month m) sdiv 80 = d"
    "march_month m + 2 - 12 * (march_month m sdiv 11) = m" "march_month m sdiv 11 = (if m \<le> 2 then 1 else 0)"
proof -
  have len: "d \<le> (if m \<in> {4, 6, 9, 11} then 30 else if m = 2 then 29 else 31)"
    using assms(4) by (auto simp: month_len_def split: if_splits)
  show "(80 * L2) sdiv 2447 = march_month m" "L2 - (2447 * march_month m) sdiv 80 = d"
    "march_month m + 2 - 12 * (march_month m sdiv 11) = m" "march_month m sdiv 11 = (if m \<le> 2 then 1 else 0)"
    using assms(1,2)
    by (cases rule: month_cases;
      use len assms(3) in \<open>auto simp: L2_def march_month_def sdiv_nonneg intro!: sdiv_eqI\<close>)+
qed

text \<open>The day of the March year reaches 365 only on a leap day.\<close>

lemma march_day_bounds:
  assumes "valid_date y m d"
  defines "D \<equiv> (367 * march_month m) div 12 + d - 31"
  shows "0 \<le> D" "D \<le> 365" "D = 365 \<Longrightarrow> m = 2 \<and> leap y"
proof -
  have v: "1 \<le> m" "m \<le> 12" "1 \<le> d" "d \<le> month_len y m" using assms(1) by (simp_all add: valid_date_def)
  from v(1,2) show "0 \<le> D"
    by (cases rule: month_cases) (use v(3) in \<open>simp_all add: D_def march_month_def\<close>)
  from v(1,2) show "D \<le> 365"
    by (cases rule: month_cases) (use v(4) in \<open>auto simp: D_def march_month_def month_len_def split: if_splits\<close>)
  from v(1,2) show "m = 2 \<and> leap y" if "D = 365"
    by (cases rule: month_cases) (use v(4) that in \<open>auto simp: D_def march_month_def month_len_def split: if_splits\<close>)
qed

lemma month_len_le: "month_len y m \<le> 31"
  by (simp add: month_len_def)

lemma julian_inverse:
  assumes v: "valid_date y m d" and y: "- 4799 \<le> y" "y \<le> 10000000"
  shows "julian_to_date (julian_formula y m d) = (y, m, d)"
proof -
  have md: "1 \<le> m" "m \<le> 12" "1 \<le> d" "d \<le> month_len y m" using v by (simp_all add: valid_date_def)
  define Y where "Y = march_year y m"
  define M where "M = march_month m"
  define D where "D = (367 * M) div 12 + d - 31"
  define c where "c = (Y + 4900) div 100"
  define r where "r = (Y + 4900) mod 100"
  define k where "k = (c + 3) div 4"
  define E where "E = 365 * r + r div 4 + D"
  have Y: "Y = 100 * c + r - 4900" "0 \<le> r" "r < 100" by (simp_all add: c_def r_def)
  have c0: "0 \<le> c" unfolding c_def using y(1) by (intro pos_imp_zdiv_nonneg_iff [THEN iffD2]) (simp_all add: Y_def march_year_def)
  note D = march_day_bounds [OF v, folded M_def, folded D_def]
  have leap_day: "r mod 4 = 3 \<and> (r = 99 \<longrightarrow> 4 dvd c)" if "D = 365"
  proof -
    have "leap (Y + 1)" using D(3) [OF that] by (simp add: Y_def march_year_def)
    then have l: "4 dvd (100 * c + r - 4899)" "\<not> 100 dvd (100 * c + r - 4899) \<or> 400 dvd (100 * c + r - 4899)"
      by (simp_all add: leap_def Y(1))
    have "100 * c + r - 4899 = (r + 1) + 4 * (25 * c - 1225)" by simp
    then have "4 dvd (r + 1) + 4 * (25 * c - 1225)" using l(1) by (simp only:)
    moreover have "(4 :: int) dvd 4 * (25 * c - 1225)" by simp
    ultimately have "4 dvd r + 1" by (rule dvd_add_left_iff [THEN iffD1, rotated])
    then have "r mod 4 = 3" by presburger
    moreover have "4 dvd c" if "r = 99"
    proof -
      have e: "100 * c + r - 4899 = 100 * (c - 48)" using that by simp
      have "400 dvd 100 * (c - 48)" using l(2) unfolding e by auto
      then obtain t where "100 * (c - 48) = 400 * t" by (elim dvdE)
      then have "100 * (c - 48) = 100 * (4 * t)" by simp
      then have "c - 48 = 4 * t" by (simp only: mult_cancel_left) simp
      then have "c = 4 * (t + 12)" by simp
      then show ?thesis by (simp only: dvd_triv_left)
    qed
    ultimately show ?thesis by blast
  qed
  have L0: "julian_formula y m d + 68569 = 36524 * c + k + E"
  proof -
    have "100 * c + r - 4900 = r + (25 * c - 1225) * 4" by simp
    then have "Y div 4 = 25 * c - 1225 + r div 4" unfolding Y(1) by (simp only: div_mult_self1)
    moreover have "Y div 100 = c - 49" unfolding Y(1) using Y(2,3) by (intro div_eqI) simp_all
    moreover have "Y div 400 = k - 13"
    proof -
      have "c + 3 = (c - 49) + 13 * 4" by simp
      then have k13: "k = (c - 49) div 4 + 13" unfolding k_def by (simp only: div_mult_self1)
      have "Y div 400 = Y div 100 div 4" using zdiv_zmult2_eq [of 4 Y 100] by simp
      then show ?thesis unfolding \<open>Y div 100 = c - 49\<close> k13 by simp
    qed
    ultimately show ?thesis
      unfolding julian_formula_eq [OF y(1) md(1,2)] Y_def [symmetric] M_def [symmetric] E_def D_def
      using Y(1) by simp
  qed
  have k: "c \<le> 4 * k" "4 * k \<le> c + 3" "4 dvd c \<Longrightarrow> 4 * k = c"
    using mult_div_mod_eq [of 4 "c + 3"] pos_mod_bound [of 4 "c + 3"] pos_mod_sign [of 4 "c + 3"]
    by (simp_all add: k_def) (elim dvdE; simp)
  have r4: "4 * (r div 4) \<le> r" "r \<le> 4 * (r div 4) + 3" "r mod 4 = 3 \<Longrightarrow> r = 4 * (r div 4) + 3"
    using mult_div_mod_eq [of 4 r] pos_mod_bound [of 4 r] pos_mod_sign [of 4 r] by linarith+
  have E: "0 \<le> E" "E \<le> 36524" "E = 36524 \<Longrightarrow> 4 * k = c"
  proof -
    show "0 \<le> E" using Y(2) D(1) r4 by (simp add: E_def)
    show "E \<le> 36524" using Y(3) D(2) r4 by (simp add: E_def)
    show "4 * k = c" if "E = 36524"
    proof -
      have "r = 99" "D = 365" using that Y(3) D(2) r4 by (simp_all add: E_def)
      then show ?thesis using leap_day k(3) by blast
    qed
  qed
  have n: "(4 * (36524 * c + k + E)) sdiv 146097 = c"
    using E k c0 by (intro sdiv_eqI) (cases "E = 36524"; simp)+
  have L1: "36524 * c + k + E - (146097 * c + 3) sdiv 4 = E"
  proof -
    have "(146097 * c + 3) sdiv 4 = 36524 * c + k"
      using k c0 by (intro sdiv_eqI) simp_all
    then show ?thesis by simp
  qed
  have q0: "0 \<le> r div 4" using Y(2) by (simp add: pos_imp_zdiv_nonneg_iff)
  have i: "(4000 * (E + 1)) sdiv 1461001 = r"
  proof (rule sdiv_eqI)
    show "r * 1461001 \<le> 4000 * (E + 1)" using Y(2,3) D(1) r4(2) by (simp add: E_def)
    show "4000 * (E + 1) < (r + 1) * 1461001"
      using Y(2,3) D(2) r4 leap_day by (cases "D = 365") (simp_all add: E_def)
  qed (use Y in simp_all)
  have L2: "E - (1461 * r) sdiv 4 + 31 = (367 * M) div 12 + d"
  proof -
    have "(1461 * r) sdiv 4 = 365 * r + r div 4"
      using Y(2) r4 q0 by (intro sdiv_eqI) simp_all
    then show ?thesis by (simp add: E_def D_def)
  qed
  note month = julian_month [OF md, folded M_def]
  have "100 * (c - 49) + r + M sdiv 11 = y"
    using Y(1) month(4) by (simp add: Y_def march_year_def split: if_splits)
  then show ?thesis
    using md y month_len_le [of y m]
    unfolding julian_to_date_def Let_def L0 n L1 i L2 month(1-3) by simp
qed

end
