(* ===== verification/Date_Properties.thy ===== *)
theory Date_Properties
  imports Date
begin

text \<open>Going on by a day: every day number is that of some date.\<close>

definition next_day :: "int \<times> int \<times> int \<Rightarrow> int \<times> int \<times> int" where
  "next_day = (\<lambda>(y, m, d). if d < month_len y m then (y, m, d + 1) else if m < 12 then (y, m + 1, 1) else (y + 1, 1, 1))"

lemma days_before_month_step: "\<lbrakk>1 \<le> m; m < 12\<rbrakk> \<Longrightarrow> days_before_month y (m + 1) = days_before_month y m + month_len y m"
proof -
  assume m: "1 \<le> m" "m < 12"
  then have "1 \<le> m" "m \<le> 12" by simp_all
  then show ?thesis
    by (cases rule: month_cases) (use m in \<open>simp_all add: days_before_month_values month_len_values\<close>)
qed

lemma month_len_ge: "28 \<le> month_len y m"
  by (simp add: month_len_def)

lemma next_day_valid:
  assumes "valid_date y m d" "next_day (y, m, d) = (y', m', d')"
  shows "valid_date y' m' d'" "day_number y' m' d' = day_number y m d + 1" "y \<le> y'"
proof -
  have v: "1 \<le> m" "m \<le> 12" "1 \<le> d" "d \<le> month_len y m" using assms(1) by (simp_all add: valid_date_def)
  consider "d < month_len y m" | "d = month_len y m" "m < 12" | "d = month_len y m" "m = 12"
    using v by linarith
  then have "valid_date y' m' d' \<and> day_number y' m' d' = day_number y m d + 1 \<and> y \<le> y'"
  proof cases
    case 1
    then have "y' = y" "m' = m" "d' = d + 1" using assms(2) by (simp_all add: next_day_def)
    then show ?thesis using v 1 by (simp add: valid_date_def day_number_def)
  next
    case 2
    then have "y' = y" "m' = m + 1" "d' = 1" using assms(2) by (simp_all add: next_day_def)
    then show ?thesis
      using v 2 month_len_ge [of y "m + 1"] days_before_month_step [of m y] by (simp add: valid_date_def day_number_def)
  next
    case 3
    have n: "days_before_month y 12 = 334 + of_bool (leap y)" "month_len y 12 = 31" "days_before_month (y + 1) 1 = 0"
      by (rule days_before_month_values month_len_values)+
    have "y' = y + 1" "m' = 1" "d' = 1" using assms(2) 3 by (simp_all add: next_day_def)
    then show ?thesis
      using 3 n month_len_ge [of "y + 1" 1] by (simp add: valid_date_def day_number_def days_before_year_step)
  qed
  then show "valid_date y' m' d'" "day_number y' m' d' = day_number y m d + 1" "y \<le> y'" by blast+
qed

lemma valid_new_year: "valid_date y 1 1"
  using month_len_ge [of y 1] by (simp add: valid_date_def)

lemma day_number_onto:
  "\<exists>y m d. valid_date y m d \<and> - 4799 \<le> y \<and> day_number y m d = day_number (- 4799) 1 1 + int n"
proof (induction n)
  case 0
  show ?case
    by (rule exI [of _ "- 4799"], rule exI [of _ 1], rule exI [of _ 1]) (simp add: valid_new_year)
next
  case (Suc n)
  then obtain y m d where o: "valid_date y m d" "- 4799 \<le> y" "day_number y m d = day_number (- 4799) 1 1 + int n" by blast
  obtain y' m' d' where n: "next_day (y, m, d) = (y', m', d')" by (cases "next_day (y, m, d)") auto
  show ?case
    using next_day_valid [OF o(1) n] o(2,3)
    by (intro exI [of _ y'] exI [of _ m'] exI [of _ d']) simp
qed

lemma days_before_month_bounds: "\<lbrakk>1 \<le> m; m \<le> 12\<rbrakk> \<Longrightarrow> 0 \<le> days_before_month y m \<and> days_before_month y m \<le> 335"
  by (erule (1) month_cases) (simp_all add: days_before_month_values)

lemma days_before_year_bounds: "1 \<le> y \<Longrightarrow> 365 * (y - 1) \<le> days_before_year y \<and> days_before_year y \<le> 366 * (y - 1)"
proof -
  assume y: "1 \<le> y"
  define z where "z = y - 1"
  have z: "0 \<le> z" using y by (simp add: z_def)
  have "z div 100 \<le> z div 4" using z by (intro zdiv_mono2) simp_all
  moreover have "0 \<le> z div 400" using z by (simp add: pos_imp_zdiv_nonneg_iff)
  moreover have "z div 4 - z div 100 + z div 400 \<le> z"
  proof -
    have "z div 400 \<le> z div 100" using z by (intro zdiv_mono2) simp_all
    moreover have "z div 4 \<le> z div 1" using z by (intro zdiv_mono2) simp_all
    ultimately show ?thesis by simp
  qed
  ultimately show ?thesis by (simp add: days_before_year_def z_def)
qed

lemma julian_onto:
  assumes "0 \<le> jd" "jd < 3000000000"
  shows "\<exists>y m d. julian_to_date jd = (y, m, d) \<and> valid_date y m d \<and> - 4799 \<le> y \<and> y \<le> 10000000 \<and> julian_formula y m d = jd"
proof -
  have d0: "day_number (- 4799) 1 1 = - 1753163"
    by (simp add: day_number_def days_before_year_def days_before_month_values)
  obtain y m d where o: "valid_date y m d" "- 4799 \<le> y" "day_number y m d = day_number (- 4799) 1 1 + int (nat (jd + 31738))"
    using day_number_onto [of "nat (jd + 31738)"] by blast
  have md: "1 \<le> m" "m \<le> 12" "1 \<le> d" using o(1) by (simp_all add: valid_date_def)
  have n: "day_number y m d = jd - 1721425" using o(3) assms(1) by (simp add: d0)
  then have jd: "julian_formula y m d = jd" using julian_formula_day_number [OF o(2) md(1,2), of d] by simp
  have "y \<le> 10000000"
  proof (rule ccontr)
    assume "\<not> y \<le> 10000000"
    then have y: "10000001 \<le> y" by simp
    then have "365 * (y - 1) \<le> days_before_year y" using days_before_year_bounds [of y] by simp
    then show False
      using y n md(3) days_before_month_bounds [OF md(1,2), of y] assms(2) by (simp add: day_number_def)
  qed
  then show ?thesis
    using julian_inverse [OF o(1,2)] o(1,2) jd by auto
qed

section \<open>Times as numbers of seconds\<close>

definition tm_clock :: "tm \<Rightarrow> int" where
  "tm_clock tm = tm_hour tm * 3600 + tm_min tm * 60 + tm_sec tm"

definition tm_day :: "tm \<Rightarrow> int" where
  "tm_day tm = day_number (tm_year tm + 1900) (tm_mon tm + 1) (tm_mday tm)"

definition tm_seconds :: "tm \<Rightarrow> int" where
  "tm_seconds tm = 86400 * tm_day tm + tm_clock tm"

definition clock_ok :: "tm \<Rightarrow> bool" where
  "clock_ok tm \<longleftrightarrow> 0 \<le> tm_hour tm \<and> tm_hour tm \<le> 23 \<and> 0 \<le> tm_min tm \<and> tm_min tm \<le> 59 \<and> 0 \<le> tm_sec tm \<and> tm_sec tm \<le> 59"

text \<open>What the parsers guarantee: the day is at most 31 in every month.\<close>

definition fields_ok :: "tm \<Rightarrow> bool" where
  "fields_ok tm \<longleftrightarrow> clock_ok tm \<and> 0 \<le> tm_mon tm \<and> tm_mon tm \<le> 11 \<and> 1 \<le> tm_mday tm \<and> tm_mday tm \<le> 31 \<and>
     - 1900 \<le> tm_year tm \<and> tm_year tm \<le> 8099"

definition valid_tm :: "tm \<Rightarrow> bool" where
  "valid_tm tm \<longleftrightarrow> clock_ok tm \<and> valid_date (tm_year tm + 1900) (tm_mon tm + 1) (tm_mday tm)"

lemma tm_clock_bounds: "clock_ok tm \<Longrightarrow> 0 \<le> tm_clock tm \<and> tm_clock tm < 86400"
  by (simp add: clock_ok_def tm_clock_def)

lemma tm_clock_int:
  "clock_ok tm \<Longrightarrow> as_int (as_int (as_int (tm_hour tm * 3600) + as_int (tm_min tm * 60)) + tm_sec tm) = tm_clock tm"
  by (simp add: clock_ok_def tm_clock_def)

lemma tm_seconds_split:
  assumes "clock_ok tm"
  shows "tm_seconds tm div 86400 = tm_day tm" "tm_seconds tm mod 86400 = tm_clock tm"
  using tm_clock_bounds [OF assms] by (simp_all add: tm_seconds_def)

lemma clock_digits:
  assumes "0 \<le> (s :: int)" "s < 86400"
  shows "s sdiv 3600 * 3600 + (s sdiv 60) smod 60 * 60 + s smod 60 = s"
    "0 \<le> s sdiv 3600" "s sdiv 3600 \<le> 23" "0 \<le> (s sdiv 60) smod 60" "(s sdiv 60) smod 60 \<le> 59" "0 \<le> s smod 60" "s smod 60 \<le> 59"
proof -
  define D R where "D = s div 60" and "R = s mod 60"
  define h m where "h = D div 60" and "m = D mod 60"
  have e: "s sdiv 3600 = h" "(s sdiv 60) smod 60 = m" "s smod 60 = R"
    using assms zdiv_zmult2_eq [of 60 s 60] by (simp_all add: sdiv_nonneg smod_nonneg pos_imp_zdiv_nonneg_iff h_def m_def D_def R_def)
  have s: "s = 60 * D + R" "0 \<le> R" "R < 60" by (simp_all add: D_def R_def)
  have d: "D = 60 * h + m" "0 \<le> m" "m < 60" by (simp_all add: h_def m_def)
  show "s sdiv 3600 * 3600 + (s sdiv 60) smod 60 * 60 + s smod 60 = s"
    "0 \<le> s sdiv 3600" "s sdiv 3600 \<le> 23" "0 \<le> (s sdiv 60) smod 60" "(s sdiv 60) smod 60 \<le> 59"
    "0 \<le> s smod 60" "s smod 60 \<le> 59"
    unfolding e using s d assms by linarith+
qed

lemma clock_digits_unique:
  assumes "clock_ok tm"
  shows "tm_clock tm sdiv 3600 = tm_hour tm" "(tm_clock tm sdiv 60) smod 60 = tm_min tm" "tm_clock tm smod 60 = tm_sec tm"
proof -
  note b = tm_clock_bounds [OF assms]
  have h: "tm_clock tm div 60 = tm_hour tm * 60 + tm_min tm"
    using assms by (intro div_eqI) (simp_all add: clock_ok_def tm_clock_def)
  show "tm_clock tm sdiv 3600 = tm_hour tm"
    using assms by (intro sdiv_eqI) (simp_all add: clock_ok_def tm_clock_def)
  show "(tm_clock tm sdiv 60) smod 60 = tm_min tm"
    using b h assms by (simp add: sdiv_nonneg smod_nonneg clock_ok_def)
  have "tm_clock tm = tm_sec tm + (tm_hour tm * 60 + tm_min tm) * 60" by (simp add: tm_clock_def)
  then have "tm_clock tm mod 60 = tm_sec tm" using assms by (simp only: mod_mult_self1) (simp add: clock_ok_def)
  then show "tm_clock tm smod 60 = tm_sec tm" using b by (simp add: smod_nonneg)
qed

section \<open>The day and the seconds after an offset\<close>

lemma as_int_diff: "as_int (a - as_int b) = as_int (a - b)"
  by (simp add: as_int_def)

lemma sdiv_split:
  assumes "0 < (k :: int)"
  shows "a = k * (a sdiv k) + a smod k" "\<bar>a smod k\<bar> < k" "\<bar>a sdiv k\<bar> * k \<le> \<bar>a\<bar>"
proof -
  show "a = k * (a sdiv k) + a smod k" by (simp add: mult_sdiv_smod_eq)
  show "\<bar>a smod k\<bar> < k" using assms by (cases "a = 0") (simp_all add: signed_modulo_int_def abs_mult)
  have "\<bar>a sdiv k\<bar> = \<bar>a\<bar> div k"
    using assms pos_imp_zdiv_nonneg_iff [of k "\<bar>a\<bar>"]
    by (cases "a = 0") (simp_all add: signed_divide_int_def abs_mult)
  then show "\<bar>a sdiv k\<bar> * k \<le> \<bar>a\<bar>"
    using mult_div_mod_eq [of k "\<bar>a\<bar>"] pos_mod_sign [OF assms, of "\<bar>a\<bar>"] by (simp only: mult.commute)
qed

definition offsets_ok :: "int \<Rightarrow> int \<Rightarrow> bool" where
  "offsets_ok off_day offset_sec \<longleftrightarrow> \<bar>off_day\<bar> \<le> 1000000000 \<and> \<bar>offset_sec\<bar> \<le> 86400 * 1000000000"

lemma days_before_year_lower: "0 \<le> y \<Longrightarrow> - 366 \<le> days_before_year y"
  using days_before_year_bounds [of y] by (cases "y = 0") (simp_all add: days_before_year_def)

lemma tm_day_bounds: "fields_ok tm \<Longrightarrow> - 366 \<le> tm_day tm \<and> tm_day tm \<le> 5000000"
proof -
  assume f: "fields_ok tm"
  let ?y = "tm_year tm + 1900"
  have "0 \<le> ?y" "1 \<le> tm_mon tm + 1" "tm_mon tm + 1 \<le> 12" using f by (simp_all add: fields_ok_def)
  note b = days_before_year_lower [OF this(1)] days_before_month_bounds [OF this(2,3), of ?y]
  moreover have "days_before_year ?y \<le> 366 * 9999"
    using f days_before_year_bounds [of ?y]
    by (cases "?y = 0") (simp add: days_before_year_def, simp add: fields_ok_def)
  ultimately show ?thesis using f by (simp add: tm_day_def day_number_def fields_ok_def)
qed

lemma julian_adj_spec:
  assumes f: "fields_ok tm" and o: "offsets_ok off_day offset_sec"
  defines "t \<equiv> tm_seconds tm + 86400 * off_day + offset_sec"
  shows "julian_adj tm off_day offset_sec =
      (if t div 86400 + 1721425 < 0 then None else Some (t div 86400 + 1721425, t mod 86400))"
    "t div 86400 \<le> 2100000000"
proof -
  define q where "q = offset_sec sdiv 86400"
  define r where "r = offset_sec smod 86400"
  have qr: "offset_sec = 86400 * q + r" "\<bar>r\<bar> < 86400" "\<bar>q\<bar> * 86400 \<le> \<bar>offset_sec\<bar>"
    using sdiv_split [of 86400 offset_sec] by (simp_all add: q_def r_def)
  have q: "\<bar>q\<bar> \<le> 1000000000" using qr(3) o by (simp add: offsets_ok_def)
  have od: "\<bar>off_day\<bar> \<le> 1000000000" using o by (simp add: offsets_ok_def)
  have c: "0 \<le> tm_clock tm" "tm_clock tm < 86400" using f tm_clock_bounds by (simp_all add: fields_ok_def)
  define w where "w = r + tm_clock tm"
  define day where "day = q + off_day + (if 86400 \<le> w then 1 else if w < 0 then - 1 else 0)"
  define sec where "sec = w - (if 86400 \<le> w then 86400 else if w < 0 then - 86400 else 0)"
  have "- 86400 < w" "w < 172800" using qr(2) c unfolding w_def by linarith+
  then have sec: "0 \<le> sec" "sec < 86400" unfolding sec_def by simp_all
  have "tm_seconds tm = 86400 * tm_day tm + tm_clock tm" by (simp add: tm_seconds_def)
  then have t: "t = sec + (tm_day tm + day) * 86400"
    using qr(1) by (simp add: t_def sec_def day_def w_def)
  have "t div 86400 = sec div 86400 + (tm_day tm + day)" "t mod 86400 = sec mod 86400"
    unfolding t by (simp_all only: div_mult_self1 mod_mult_self1)
  then have tdm: "t div 86400 = tm_day tm + day" "t mod 86400 = sec" using sec by simp_all
  have "- (2 ^ 31) \<le> q" "q < 2 ^ 31" using q by simp_all
  then have hms0: "as_int (offset_sec - as_int (as_int q * SECS_PER_DAY)) = r"
    using qr(1,2) unfolding as_int_diff by (simp add: SECS_PER_DAY_def)
  have fields: "as_int (tm_year tm + 1900) = tm_year tm + 1900" "as_int (tm_mon tm + 1) = tm_mon tm + 1"
    using f by (simp_all add: fields_ok_def)
  have jd: "date_to_julian (tm_year tm + 1900) (tm_mon tm + 1) (tm_mday tm) = tm_day tm + 1721425"
    using f date_to_julian_day_number [of "tm_year tm + 1900" "tm_mon tm + 1" "tm_mday tm"]
    by (simp add: tm_day_def fields_ok_def)
  have s86: "SECS_PER_DAY = 86400" by (simp add: SECS_PER_DAY_def)
  have clock: "as_int (as_int (as_int (tm_hour tm * 3600) + as_int (tm_min tm * 60)) + tm_sec tm) = tm_clock tm"
    by (rule tm_clock_int) (use f in \<open>simp add: fields_ok_def\<close>)
  have w: "as_int (r + tm_clock tm) = w"
    using qr(2) c by (simp add: w_def)
  have wb: "- 86400 < w" "w < 172800" using qr(2) c unfolding w_def by linarith+
  have days: "as_int q = q" "as_int (q + off_day) = q + off_day"
    "as_int (q + off_day + 1) = q + off_day + 1" "as_int (q + off_day - 1) = q + off_day - 1"
    using q od by simp_all
  have secs: "as_int (w - 86400) = w - 86400" "as_int (w + 86400) = w + 86400" using wb by simp_all
  have pair: "(if 86400 \<le> w then (as_int (as_int (as_int q + off_day) + 1), as_int (w - 86400))
      else if w < 0 then (as_int (as_int (as_int q + off_day) - 1), as_int (w + 86400))
      else (as_int (as_int q + off_day), w)) = (day, sec)"
    by (simp only: days secs day_def sec_def split: if_splits) simp
  have "julian_adj tm off_day offset_sec =
      (if tm_day tm + 1721425 + day < 0 then None else Some (tm_day tm + 1721425 + day, sec))"
    unfolding julian_adj_def Let_def s86 q_def [symmetric] hms0 [unfolded s86] clock w fields jd pair by simp
  then show "julian_adj tm off_day offset_sec =
      (if t div 86400 + 1721425 < 0 then None else Some (t div 86400 + 1721425, t mod 86400))"
    unfolding tdm by (simp add: algebra_simps)
  have "day \<le> q + off_day + 1" by (simp add: day_def)
  then show "t div 86400 \<le> 2100000000"
    unfolding tdm using tm_day_bounds [OF f] q od by linarith
qed

text \<open>The inputs for which no operation of \<open>julian_adj\<close> overflows and no \<open>long\<close> is cut.\<close>

definition julian_adj_defined :: "tm \<Rightarrow> int \<Rightarrow> int \<Rightarrow> bool" where
  "julian_adj_defined tm off_day offset_sec \<longleftrightarrow>
     (let q = offset_sec sdiv 86400; r = offset_sec - q * 86400; w = r + tm_clock tm;
          carry = (if 86400 \<le> w then 1 else if w < 0 then - 1 else 0)
      in list_all in_int [q, q * 86400, r, q + off_day, tm_hour tm * 3600, tm_min tm * 60, tm_hour tm * 3600 + tm_min tm * 60,
           tm_clock tm, w, q + off_day + carry, w - 86400 * carry, tm_year tm + 1900, tm_mon tm + 1] \<and>
         date_to_julian_defined (tm_year tm + 1900) (tm_mon tm + 1) (tm_mday tm))"

lemma julian_adj_defined_range:
  assumes f: "fields_ok tm" and o: "offsets_ok off_day offset_sec" and s: "\<bar>offset_sec\<bar> < 86400 * 24856"
  shows "julian_adj_defined tm off_day offset_sec"
proof -
  define q where "q = offset_sec sdiv 86400"
  define r where "r = offset_sec - q * 86400"
  define w where "w = r + tm_clock tm"
  define carry :: int where "carry = (if 86400 \<le> w then 1 else if w < 0 then - 1 else 0)"
  have "offset_sec = 86400 * q + offset_sec smod 86400" "\<bar>offset_sec smod 86400\<bar> < 86400" "\<bar>q\<bar> * 86400 \<le> \<bar>offset_sec\<bar>"
    using sdiv_split [of 86400 offset_sec] by (simp_all add: q_def)
  then have qr: "\<bar>q\<bar> \<le> 24855" "\<bar>r\<bar> < 86400" using s by (simp_all add: r_def)
  have od: "\<bar>off_day\<bar> \<le> 1000000000" using o by (simp add: offsets_ok_def)
  have k: "clock_ok tm" using f by (simp add: fields_ok_def)
  note c = tm_clock_bounds [OF k]
  have w: "- 86400 < w" "w < 172800" using qr(2) c unfolding w_def by linarith+
  have carry: "\<bar>carry\<bar> \<le> 1" by (simp add: carry_def)
  have "in_int q" "in_int (q * 86400)" "in_int r" "in_int (q + off_day)" "in_int (q + off_day + carry)"
    using qr od carry by (simp_all add: in_int_def abs_le_iff abs_less_iff)
  moreover have "in_int (tm_clock tm)" "in_int w" "in_int (w - 86400 * carry)"
    using c w carry by (simp_all add: in_int_def abs_le_iff)
  moreover have "in_int (tm_hour tm * 3600)" "in_int (tm_min tm * 60)" "in_int (tm_hour tm * 3600 + tm_min tm * 60)"
    using k by (simp_all add: in_int_def clock_ok_def)
  moreover have "in_int (tm_year tm + 1900)" "in_int (tm_mon tm + 1)"
    "date_to_julian_defined (tm_year tm + 1900) (tm_mon tm + 1) (tm_mday tm)"
    using f by (simp_all add: in_int_def fields_ok_def date_to_julian_defined_range)
  ultimately show ?thesis
    unfolding julian_adj_defined_def Let_def q_def [symmetric] r_def [symmetric] w_def [symmetric] carry_def [symmetric] by simp
qed

section \<open>The properties\<close>

lemma valid_tm_fields: "\<lbrakk>valid_tm tm; - 1900 \<le> tm_year tm; tm_year tm \<le> 8099\<rbrakk> \<Longrightarrow> fields_ok tm"
  using month_len_le [of "tm_year tm + 1900" "tm_mon tm + 1"] by (simp add: valid_tm_def fields_ok_def valid_date_def)

lemma julian_of_tm:
  assumes "valid_tm tm" "- 1900 \<le> tm_year tm" "tm_year tm \<le> 9000000"
  shows "julian_to_date (tm_day tm + 1721425) = (tm_year tm + 1900, tm_mon tm + 1, tm_mday tm)"
proof -
  have v: "valid_date (tm_year tm + 1900) (tm_mon tm + 1) (tm_mday tm)" using assms(1) by (simp add: valid_tm_def)
  then have "julian_formula (tm_year tm + 1900) (tm_mon tm + 1) (tm_mday tm) = tm_day tm + 1721425"
    using assms(2) julian_formula_day_number [of "tm_year tm + 1900" "tm_mon tm + 1" "tm_mday tm"]
    by (simp add: tm_day_def valid_date_def)
  then show ?thesis using julian_inverse [OF v] assms(2,3) by simp
qed

text \<open>The time with a given number of seconds, as the code builds it.\<close>

lemma gmtime_adj_eq:
  assumes f: "fields_ok tm" and o: "offsets_ok off_day offset_sec"
  defines "t \<equiv> tm_seconds tm + 86400 * off_day + offset_sec"
  shows "OPENSSL_gmtime_adj tm off_day offset_sec = Some tm' \<longleftrightarrow>
    valid_tm tm' \<and> 0 \<le> tm_year tm' \<and> tm_year tm' \<le> 8099 \<and> tm_seconds tm' = t"
proof
  note adj = julian_adj_spec [OF f o, folded t_def]
  let ?jd = "t div 86400 + 1721425" and ?s = "t mod 86400"
  show "valid_tm tm' \<and> 0 \<le> tm_year tm' \<and> tm_year tm' \<le> 8099 \<and> tm_seconds tm' = t"
    if r: "OPENSSL_gmtime_adj tm off_day offset_sec = Some tm'"
  proof -
    have jd: "0 \<le> ?jd" using r adj(1) by (simp add: OPENSSL_gmtime_adj_def split: if_splits)
    then obtain y m d where j: "julian_to_date ?jd = (y, m, d)" "valid_date y m d" "- 4799 \<le> y" "julian_formula y m d = ?jd"
      using julian_onto [OF jd] adj(2) by auto
    then have n: "day_number y m d = t div 86400"
      using julian_formula_day_number [of y m d] by (simp add: valid_date_def)
    have tm': "1900 \<le> y" "y \<le> 9999" "tm' = tm\<lparr>tm_year := y - 1900, tm_mon := m - 1, tm_mday := d,
        tm_hour := ?s sdiv 3600, tm_min := (?s sdiv 60) smod 60, tm_sec := ?s smod 60\<rparr>"
      using r adj(1) jd j(1) by (simp_all add: OPENSSL_gmtime_adj_def split: if_splits)
    have s: "0 \<le> ?s" "?s < 86400" by simp_all
    have "tm_day tm' = t div 86400" using tm'(3) n by (simp add: tm_day_def)
    moreover have "tm_clock tm' = ?s" using tm'(3) clock_digits(1) [OF s] by (simp add: tm_clock_def)
    moreover have "clock_ok tm'" using tm'(3) clock_digits(2-7) [OF s] by (simp add: clock_ok_def)
    moreover have "86400 * (t div 86400) + ?s = t" by (rule mult_div_mod_eq)
    ultimately show ?thesis using tm' j(2) by (simp add: valid_tm_def tm_seconds_def)
  qed
  show "OPENSSL_gmtime_adj tm off_day offset_sec = Some tm'"
    if v: "valid_tm tm' \<and> 0 \<le> tm_year tm' \<and> tm_year tm' \<le> 8099 \<and> tm_seconds tm' = t"
  proof -
    have c: "clock_ok tm'" using v by (simp add: valid_tm_def)
    have ds: "t div 86400 = tm_day tm'" "?s = tm_clock tm'" using tm_seconds_split [OF c] v by simp_all
    have "fields_ok tm'" using v valid_tm_fields [of tm'] by simp
    then have "0 \<le> ?jd" using tm_day_bounds [of tm'] ds by simp
    moreover have "julian_to_date (tm_day tm' + 1721425) = (tm_year tm' + 1900, tm_mon tm' + 1, tm_mday tm')"
      using julian_of_tm [of tm'] v by simp
    ultimately have "OPENSSL_gmtime_adj tm off_day offset_sec = Some (tm\<lparr>tm_year := tm_year tm', tm_mon := tm_mon tm',
        tm_mday := tm_mday tm', tm_hour := tm_hour tm', tm_min := tm_min tm', tm_sec := tm_sec tm'\<rparr>)"
      using adj(1) v unfolding OPENSSL_gmtime_adj_def ds clock_digits_unique [OF c, folded ds(2)]
      by (simp add: clock_digits_unique [OF c])
    then show ?thesis by simp
  qed
qed

lemma julian_adj_0:
  assumes "fields_ok tm"
  shows "julian_adj tm 0 0 = Some (tm_day tm + 1721425, tm_clock tm)"
proof -
  have "clock_ok tm" using assms by (simp add: fields_ok_def)
  moreover have "offsets_ok 0 0" by (simp add: offsets_ok_def)
  ultimately show ?thesis
    using julian_adj_spec(1) [OF assms \<open>offsets_ok 0 0\<close>] tm_day_bounds [OF assms] by (simp add: tm_seconds_split)
qed

lemma gmtime_diff_eq:
  assumes "fields_ok a" "fields_ok b"
  shows "\<exists>d s. OPENSSL_gmtime_diff a b = Some (d, s) \<and> 86400 * d + s = tm_seconds b - tm_seconds a \<and>
    \<bar>s\<bar> < 86400 \<and> \<not> (0 < d \<and> s < 0) \<and> \<not> (d < 0 \<and> 0 < s)"
proof -
  have ca: "0 \<le> tm_clock a" "tm_clock a < 86400" and cb: "0 \<le> tm_clock b" "tm_clock b < 86400"
    using assms tm_clock_bounds by (simp_all add: fields_ok_def)
  note day = tm_day_bounds [OF assms(1)] tm_day_bounds [OF assms(2)]
  define d where "d = tm_day b - tm_day a"
  define s where "s = tm_clock b - tm_clock a"
  have b: "\<bar>s\<bar> < 86400" "\<bar>d\<bar> < 6000000" using ca cb day unfolding d_def s_def by linarith+
  have t: "tm_seconds b - tm_seconds a = 86400 * d + s" by (simp add: tm_seconds_def d_def s_def)
  have dd: "tm_day b + 1721425 - (tm_day a + 1721425) = d" by (simp add: d_def)
  have eq: "OPENSSL_gmtime_diff a b =
      Some (if 0 < d \<and> s < 0 then (d - 1, s + 86400) else if d < 0 \<and> 0 < s then (d + 1, s - 86400) else (d, s))"
    using b unfolding OPENSSL_gmtime_diff_def julian_adj_0 [OF assms(1)] julian_adj_0 [OF assms(2)]
      option.case prod.case Let_def dd s_def [symmetric] SECS_PER_DAY_def by auto
  consider "0 < d \<and> s < 0" | "d < 0 \<and> 0 < s" | "\<not> (0 < d \<and> s < 0)" "\<not> (d < 0 \<and> 0 < s)" by blast
  then show ?thesis
  proof cases
    case 1
    then show ?thesis unfolding eq t using b by (intro exI [of _ "d - 1"] exI [of _ "s + 86400"]) simp
  next
    case 2
    then show ?thesis unfolding eq t using b by (intro exI [of _ "d + 1"] exI [of _ "s - 86400"]) simp
  next
    case 3
    then show ?thesis unfolding eq t using b by (intro exI [of _ d] exI [of _ s]) simp
  qed
qed

section \<open>The C library's conversion of a \<open>time_t\<close>\<close>

text \<open>\<open>gmtime_r\<close>: years are counted from 1970; a year that does not fit an \<open>int\<close> is an error.\<close>

definition year_len :: "int \<Rightarrow> int" where "year_len y = 365 + of_bool (leap y)"

lemma year_len_pos: "0 < year_len y"
  by (simp add: year_len_def)

function year_up :: "int \<Rightarrow> int \<Rightarrow> int \<times> int" where
  "year_up y d = (if d < year_len y then (y, d) else year_up (y + 1) (d - year_len y))"
  by pat_completeness auto
termination
proof (relation "measure (\<lambda>(y, d). nat d)")
  fix y d :: int
  assume "\<not> d < year_len y"
  then show "((y + 1, d - year_len y), y, d) \<in> measure (\<lambda>(y, d). nat d)" using year_len_pos [of y] by simp
qed simp

function year_down :: "int \<Rightarrow> int \<Rightarrow> int \<times> int" where
  "year_down y d = (if 0 \<le> d then (y, d) else year_down (y - 1) (d + year_len (y - 1)))"
  by pat_completeness auto
termination
proof (relation "measure (\<lambda>(y, d). nat (- d))")
  fix y d :: int
  assume "\<not> 0 \<le> d"
  then show "((y - 1, d + year_len (y - 1)), y, d) \<in> measure (\<lambda>(y, d). nat (- d))" using year_len_pos [of "y - 1"] by simp
qed simp

function month_up :: "int \<Rightarrow> int \<Rightarrow> int \<Rightarrow> int \<times> int" where
  "month_up y m d = (if 12 \<le> m \<or> d < month_len y m then (m, d + 1) else month_up y (m + 1) (d - month_len y m))"
  by pat_completeness auto
termination by (relation "measure (\<lambda>(y, m, d). nat (12 - m))") simp_all

declare year_up.simps [simp del] year_down.simps [simp del] month_up.simps [simp del]

definition gmtime_r :: "int \<Rightarrow> tm option" where
  "gmtime_r t =
     (case year_down 1970 (t div 86400) of
        (y0, d0) \<Rightarrow>
          (case year_up y0 d0 of
             (y, d) \<Rightarrow>
               (case month_up y 1 d of
                  (m, md) \<Rightarrow>
                    if y - 1900 < - (2 ^ 31) \<or> 2 ^ 31 \<le> y - 1900 then None
                    else Some \<lparr>tm_sec = t mod 86400 mod 60, tm_min = t mod 86400 div 60 mod 60, tm_hour = t mod 86400 div 3600,
                      tm_mday = md, tm_mon = m - 1, tm_year = y - 1900\<rparr>)))"

definition OPENSSL_gmtime :: "int \<Rightarrow> tm option" where
  "OPENSSL_gmtime t = gmtime_r t"

text \<open>The day number of 1 January 1970.\<close>

definition EPOCH_SECONDS :: int where "EPOCH_SECONDS = 86400 * 719163"

lemma year_up_spec:
  "\<lbrakk>0 \<le> d; year_up y d = (y', d')\<rbrakk> \<Longrightarrow> 0 \<le> d' \<and> d' < year_len y' \<and> days_before_year y' + d' = days_before_year y + d"
proof (induction y d rule: year_up.induct)
  case (1 y d)
  show ?case
  proof (cases "d < year_len y")
    case True
    then show ?thesis using 1(2,3) by (simp add: year_up.simps [of y d])
  next
    case False
    then have "year_up (y + 1) (d - year_len y) = (y', d')" "0 \<le> d - year_len y"
      using 1(3) by (simp_all add: year_up.simps [of y d])
    from 1(1) [OF False this(2,1)] show ?thesis
      using days_before_year_step [of y] by (simp add: year_len_def)
  qed
qed

lemma year_down_spec:
  "year_down y d = (y', d') \<Longrightarrow> 0 \<le> d' \<and> days_before_year y' + d' = days_before_year y + d"
proof (induction y d rule: year_down.induct)
  case (1 y d)
  show ?case
  proof (cases "0 \<le> d")
    case True
    then show ?thesis using 1(2) by (simp add: year_down.simps [of y d])
  next
    case False
    then have "year_down (y - 1) (d + year_len (y - 1)) = (y', d')"
      using 1(2) by (simp add: year_down.simps [of y d])
    from 1(1) [OF False this] show ?thesis
      using days_before_year_step [of "y - 1"] by (simp add: year_len_def)
  qed
qed

lemma month_up_spec:
  "\<lbrakk>0 \<le> d; 1 \<le> m; m \<le> 12; days_before_month y m + d < year_len y; month_up y m d = (m', d')\<rbrakk> \<Longrightarrow>
    valid_date y m' d' \<and> days_before_month y m' + d' = days_before_month y m + d + 1"
proof (induction y m d rule: month_up.induct)
  case (1 y m d)
  show ?case
  proof (cases "12 \<le> m \<or> d < month_len y m")
    case True
    then have md: "m' = m" "d' = d + 1" using 1(6) by (simp_all add: month_up.simps [of y m d])
    have "d < month_len y m"
    proof (cases "m = 12")
      case True
      then show ?thesis using 1(5) by (simp add: days_before_month_values month_len_values year_len_def)
    next
      case False
      then show ?thesis using True 1(4) by simp
    qed
    then show ?thesis using 1(2-4) md by (simp add: valid_date_def)
  next
    case False
    then have "month_up y (m + 1) (d - month_len y m) = (m', d')"
      using 1(6) by (simp add: month_up.simps [of y m d])
    from 1(1) [OF False _ _ _ _ this] show ?thesis
      using 1(2-5) False days_before_month_step [of m y] by simp
  qed
qed

lemma gmtime_r_spec:
  assumes "gmtime_r t = Some tm"
  shows "valid_tm tm" "tm_seconds tm = t + EPOCH_SECONDS" "- (2 ^ 31) \<le> tm_year tm" "tm_year tm < 2 ^ 31"
proof -
  obtain y0 d0 where d: "year_down 1970 (t div 86400) = (y0, d0)" by (cases "year_down 1970 (t div 86400)") auto
  obtain y dy where u: "year_up y0 d0 = (y, dy)" by (cases "year_up y0 d0") auto
  obtain m md where mo: "month_up y 1 dy = (m, md)" by (cases "month_up y 1 dy") auto
  note ds = year_down_spec [OF d]
  note us = year_up_spec [OF conjunct1 [OF ds] u]
  have ms: "valid_date y m md \<and> days_before_month y m + md = days_before_month y 1 + dy + 1"
    by (rule month_up_spec [OF _ _ _ _ mo]) (use us in \<open>simp_all add: days_before_month_values\<close>)
  define s where "s = t mod 86400"
  have s: "0 \<le> s" "s < 86400" by (simp_all add: s_def)
  have sd: "s sdiv 3600 = s div 3600" "(s sdiv 60) smod 60 = s div 60 mod 60" "s smod 60 = s mod 60"
    using s by (simp_all add: sdiv_nonneg smod_nonneg pos_imp_zdiv_nonneg_iff)
  define hh mm ss where "hh = s div 3600" and "mm = s div 60 mod 60" and "ss = s mod 60"
  note clock = clock_digits [OF s, unfolded sd, folded hh_def mm_def ss_def]
  have guarded: "x = v \<and> \<not> a \<and> \<not> b" if "(if a \<or> b then None else Some v) = Some x" for a b and v x :: tm
    using that by (simp split: if_splits)
  note g = guarded [OF assms [unfolded gmtime_r_def d u mo s_def [symmetric] hh_def [symmetric] mm_def [symmetric] ss_def [symmetric] prod.case]]
  have yb: "- (2 ^ 31) \<le> y - 1900" "y - 1900 < 2 ^ 31"
    using conjunct2 [OF g] by (simp_all only: not_less not_le)
  note tm = conjunct1 [OF g]
  show "valid_tm tm" using ms clock unfolding tm by (simp add: valid_tm_def clock_ok_def)
  have "tm_clock tm = s" using clock(1) unfolding tm by (simp add: tm_clock_def)
  moreover have "tm_day tm = t div 86400 + 719163"
    using ds us ms unfolding tm by (simp add: tm_day_def day_number_def days_before_month_values days_before_year_def [of 1970])
  moreover have "t = 86400 * (t div 86400) + s" by (simp add: s_def)
  ultimately show "tm_seconds tm = t + EPOCH_SECONDS" by (simp add: tm_seconds_def EPOCH_SECONDS_def)
  show "- (2 ^ 31) \<le> tm_year tm" "tm_year tm < 2 ^ 31" using yb unfolding tm by simp_all
qed

text \<open>A day belongs to one year, so the time of a number of seconds is unique.\<close>

lemma days_before_year_mono: "y \<le> y' \<Longrightarrow> days_before_year y \<le> days_before_year y'"
proof (induction y' rule: int_ge_induct)
  case (step i)
  then show ?case using days_before_year_step [of i] by simp
qed simp

lemma day_of_year:
  assumes "valid_date y m d"
  shows "days_before_year y < day_number y m d" "day_number y m d \<le> days_before_year (y + 1)"
proof -
  have v: "1 \<le> m" "m \<le> 12" "1 \<le> d" "d \<le> month_len y m" using assms by (simp_all add: valid_date_def)
  show "days_before_year y < day_number y m d"
    using v(3) days_before_month_bounds [OF v(1,2), of y] by (simp add: day_number_def)
  have "days_before_month y m + d \<le> 365 + of_bool (leap y)"
    using v(1,2) by (cases rule: month_cases) (use v(4) in \<open>simp_all add: days_before_month_values month_len_values\<close>)
  then show "day_number y m d \<le> days_before_year (y + 1)"
    using days_before_year_step [of y] by (simp add: day_number_def)
qed

lemma same_day_year:
  assumes "valid_date y m d" "valid_date y' m' d'" "day_number y m d = day_number y' m' d'"
  shows "y \<le> y'"
proof (rule ccontr)
  assume "\<not> y \<le> y'"
  then have "days_before_year (y' + 1) \<le> days_before_year y" by (intro days_before_year_mono) simp
  then show False using day_of_year(1) [OF assms(1)] day_of_year(2) [OF assms(2)] assms(3) by simp
qed

lemma same_seconds:
  assumes v: "valid_tm a" "valid_tm b" and y: "- 1900 \<le> tm_year b" "tm_year b \<le> 9000000"
    and eq: "tm_seconds a = tm_seconds b"
  shows "a = b"
proof -
  have c: "clock_ok a" "clock_ok b" using v by (simp_all add: valid_tm_def)
  have day: "tm_day a = tm_day b" and clock: "tm_clock a = tm_clock b"
    using tm_seconds_split [OF c(1)] tm_seconds_split [OF c(2)] eq by simp_all
  have d: "valid_date (tm_year a + 1900) (tm_mon a + 1) (tm_mday a)" "valid_date (tm_year b + 1900) (tm_mon b + 1) (tm_mday b)"
    using v by (simp_all add: valid_tm_def)
  have "tm_year a = tm_year b"
    using same_day_year [OF d] same_day_year [OF d(2,1)] day unfolding tm_day_def by linarith
  then have "tm_year a = tm_year b \<and> tm_mon a = tm_mon b \<and> tm_mday a = tm_mday b"
    using julian_of_tm [OF v(1)] julian_of_tm [OF v(2)] y day by simp
  then show ?thesis
    using clock_digits_unique [OF c(1)] clock_digits_unique [OF c(2)] clock by (intro tm.equality) simp_all
qed

lemma gmtime_r_eq:
  assumes "valid_tm tm" "- 1900 \<le> tm_year tm" "tm_year tm \<le> 9000000" "tm_seconds tm = t + EPOCH_SECONDS"
  shows "gmtime_r t = Some tm"
proof -
  obtain y0 d0 where d: "year_down 1970 (t div 86400) = (y0, d0)" by (cases "year_down 1970 (t div 86400)") auto
  obtain y dy where u: "year_up y0 d0 = (y, dy)" by (cases "year_up y0 d0") auto
  note ds = year_down_spec [OF d]
  note us = year_up_spec [OF conjunct1 [OF ds] u]
  have c: "clock_ok tm" and vd: "valid_date (tm_year tm + 1900) (tm_mon tm + 1) (tm_mday tm)"
    using assms(1) by (simp_all add: valid_tm_def)
  have "t + EPOCH_SECONDS = t + 719163 * 86400" by (simp add: EPOCH_SECONDS_def)
  then have day: "tm_day tm = t div 86400 + 719163"
    using tm_seconds_split(1) [OF c] assms(4) by (simp only: div_mult_self1)
  have pos: "days_before_year y \<le> t div 86400 + 719162" "t div 86400 + 719162 < days_before_year (y + 1)"
    using ds us days_before_year_step [of y] by (simp_all add: days_before_year_def [of 1970] year_len_def)
  have dy: "days_before_year (tm_year tm + 1900) < tm_day tm" "tm_day tm \<le> days_before_year (tm_year tm + 1900 + 1)"
    using day_of_year [OF vd] by (simp_all only: tm_day_def)
  have "y \<le> tm_year tm + 1900"
  proof (rule ccontr)
    assume "\<not> y \<le> tm_year tm + 1900"
    then have "days_before_year (tm_year tm + 1900 + 1) \<le> days_before_year y" by (intro days_before_year_mono) simp
    then show False using dy(2) pos(1) day by linarith
  qed
  moreover have "tm_year tm + 1900 \<le> y"
  proof (rule ccontr)
    assume "\<not> tm_year tm + 1900 \<le> y"
    then have "days_before_year (y + 1) \<le> days_before_year (tm_year tm + 1900)" by (intro days_before_year_mono) simp
    then show False using dy(1) pos(2) day by linarith
  qed
  ultimately have "y - 1900 = tm_year tm" by simp
  then have "\<not> (y - 1900 < - (2 ^ 31) \<or> 2 ^ 31 \<le> y - 1900)" using assms(2,3) by simp
  moreover obtain m md where "month_up y 1 dy = (m, md)" by (cases "month_up y 1 dy") auto
  ultimately have "\<exists>tm'. gmtime_r t = Some tm'"
    unfolding gmtime_r_def d u prod.case by (simp only: prod.case if_False) blast
  then obtain tm' where r: "gmtime_r t = Some tm'" by blast
  have "tm' = tm"
    using gmtime_r_spec(1,2) [OF r] assms by (intro same_seconds) simp_all
  then show ?thesis using r by simp
qed

section \<open>The main results\<close>

text \<open>
  C29: The Julian day that \<open>date_to_julian\<close> computes in 32-bit \<open>int\<close>s with truncating divisions is the day
  number of the Gregorian calendar plus a constant, and \<open>julian_to_date\<close> is its inverse, for every valid
  date of the years from -4799 to 1465072, in which no operation overflows. In the next year one does.
\<close>

theorem julian_dates_are_gregorian:
  assumes "valid_date y m d" "- 4799 \<le> y" "y \<le> 1465072"
  shows "date_to_julian_defined y m d \<and> date_to_julian y m d = day_number y m d + 1721425 \<and>
    julian_to_date (date_to_julian y m d) = (y, m, d)"
proof -
  have v: "1 \<le> m" "m \<le> 12" "1 \<le> d" "d \<le> 31" using assms(1) month_len_le [of y m] by (simp_all add: valid_date_def)
  note n = date_to_julian_day_number [OF assms(2,3) v] julian_formula_day_number [OF assms(2) v(1,2), of d]
  have "julian_to_date (julian_formula y m d) = (y, m, d)" using julian_inverse [OF assms(1,2)] assms(3) by simp
  then show ?thesis using date_to_julian_defined_range [OF assms(2,3) v] n by simp
qed

lemma leap_examples: "leap 2000" "leap 2024" "\<not> leap 1900"
  by (simp_all add: leap_def)

theorem julian_dates_are_gregorian_witness:
  "date_to_julian_defined 2024 2 29 \<and> date_to_julian 2024 2 29 = day_number 2024 2 29 + 1721425 \<and>
    julian_to_date (date_to_julian 2024 2 29) = (2024, 2, 29)"
proof -
  have "valid_date 2024 2 29" using leap_examples(2) by (simp add: valid_date_def month_len_def)
  then show ?thesis by (rule julian_dates_are_gregorian) simp_all
qed

text \<open>
  C30: Adding an offset of days and seconds is exact: \<open>OPENSSL_gmtime_adj\<close> gives the one valid time of the
  years 1900 to 9999 that is that many seconds away, and fails if there is none. The time to start
  from may be any that the parsers produce (years 0 to 9999), 30 February included. The offset is at most
  1000000000 days either way and less than 24856 days (68 years) of seconds either way: then no operation
  on \<open>int\<close>s overflows and no \<open>long\<close> is cut when it is stored in one. From 24856 days of seconds on the
  product of \<open>julian_adj\<close> overflows.
\<close>

theorem OPENSSL_gmtime_adj_exact:
  assumes "fields_ok tm" "offsets_ok off_day offset_sec" "\<bar>offset_sec\<bar> < 86400 * 24856"
  shows "julian_adj_defined tm off_day offset_sec \<and>
    (OPENSSL_gmtime_adj tm off_day offset_sec = Some tm' \<longleftrightarrow>
      valid_tm tm' \<and> 0 \<le> tm_year tm' \<and> tm_year tm' \<le> 8099 \<and>
      tm_seconds tm' = tm_seconds tm + 86400 * off_day + offset_sec)"
  using gmtime_adj_eq [OF assms(1,2)] julian_adj_defined_range [OF assms] by blast

text \<open>One second after the last of 1999.\<close>

theorem OPENSSL_gmtime_adj_exact_witness:
  "julian_adj_defined \<lparr>tm_sec = 59, tm_min = 59, tm_hour = 23, tm_mday = 31, tm_mon = 11, tm_year = 99\<rparr> 0 1 \<and>
   OPENSSL_gmtime_adj \<lparr>tm_sec = 59, tm_min = 59, tm_hour = 23, tm_mday = 31, tm_mon = 11, tm_year = 99\<rparr> 0 1 =
    Some \<lparr>tm_sec = 0, tm_min = 0, tm_hour = 0, tm_mday = 1, tm_mon = 0, tm_year = 100\<rparr>"
proof -
  let ?a = "\<lparr>tm_sec = 59, tm_min = 59, tm_hour = 23, tm_mday = 31, tm_mon = 11, tm_year = 99\<rparr>"
  let ?b = "\<lparr>tm_sec = 0, tm_min = 0, tm_hour = 0, tm_mday = 1, tm_mon = 0, tm_year = 100\<rparr>"
  have "\<not> leap 1999" by (simp add: leap_def)
  then have s: "tm_seconds ?b = tm_seconds ?a + 86400 * 0 + 1"
    by (simp add: tm_seconds_def tm_day_def tm_clock_def day_number_def days_before_year_def days_before_month_values)
  have v: "valid_tm ?b" by (simp add: valid_tm_def clock_ok_def valid_new_year)
  have "fields_ok ?a" "offsets_ok 0 1" "\<bar>1\<bar> < 86400 * (24856 :: int)"
    by (simp_all add: fields_ok_def clock_ok_def offsets_ok_def)
  from OPENSSL_gmtime_adj_exact [OF this, of ?b] show ?thesis
    using s v by simp
qed

text \<open>
  At 24856 days of seconds the product of the days of the offset and \<open>SECS_PER_DAY\<close> does not fit an \<open>int\<close>.
  The model wraps, and then the later subtraction gives the right seconds again. Much larger offsets are
  cut when the days are stored in an \<open>int\<close>: one of \<open>2 ^ 32\<close> days of seconds moves no time at all.
\<close>

lemma julian_adj_product_overflows:
  "as_int (as_int (2147558400 sdiv SECS_PER_DAY) * SECS_PER_DAY) \<noteq> as_int (2147558400 sdiv SECS_PER_DAY) * SECS_PER_DAY"
  by (simp add: as_int_def SECS_PER_DAY_def sdiv_nonneg)

lemma julian_adj_cuts_offset: "julian_adj tm off_day (86400 * 2 ^ 32) = julian_adj tm off_day 0"
proof -
  have "(86400 * 2 ^ 32 :: int) sdiv SECS_PER_DAY = 2 ^ 32" by (simp add: SECS_PER_DAY_def sdiv_nonneg)
  moreover have "as_int (2 ^ 32) = 0" "as_int (86400 * 2 ^ 32) = 0" by (simp_all add: as_int_def)
  ultimately show ?thesis by (simp add: julian_adj_def)
qed

end
