(* ===== verification/Asn1_Time.thy ===== *)
theory Asn1_Time
  imports Date_Properties Asn1_String Asn1_Object
begin

text \<open>
  The time types of ASN.1: reading \<open>UTCTime\<close> and \<open>GeneralizedTime\<close> texts
  (\<open>crypto/asn1/a_utctm.c\<close>, \<open>a_gentm.c\<close>), making them from a \<open>time_t\<close>, and the choice of the two
  (\<open>a_time.c\<close>). A reader returns \<open>Past_end\<close> where it reads past the block behind the string and
  \<open>Bad\<close> for the return value 0; then the \<open>struct tm\<close>, which the code may have written in part,
  is used by no caller.
\<close>

section \<open>Reading\<close>

definition V_ASN1_UTCTIME :: int where "V_ASN1_UTCTIME = 23"
definition V_ASN1_GENERALIZEDTIME :: int where "V_ASN1_GENERALIZEDTIME = 24"

definition byte_at :: "u8 list \<Rightarrow> nat \<Rightarrow> u8 read" where
  "byte_at a p = (if p < length a then Got (a ! p) else Past_end)"

definition is_digit :: "u8 \<Rightarrow> bool" where "is_digit b \<longleftrightarrow> 48 \<le> b \<and> b \<le> 57"

definition digit_val :: "u8 \<Rightarrow> int" where "digit_val b = int (unat b) - 48"

text \<open>The characters \<open>Z\<close>, \<open>+\<close> and \<open>-\<close> and the full stop.\<close>

abbreviation (input) CH_Z :: u8 where "CH_Z \<equiv> 90"
abbreviation (input) CH_PLUS :: u8 where "CH_PLUS \<equiv> 43"
abbreviation (input) CH_MINUS :: u8 where "CH_MINUS \<equiv> 45"
abbreviation (input) CH_DOT :: u8 where "CH_DOT \<equiv> 46"

definition is_zone :: "u8 \<Rightarrow> bool" where "is_zone b \<longleftrightarrow> b = CH_Z \<or> b = CH_PLUS \<or> b = CH_MINUS"

text \<open>A field of the date or the time: two digits, each followed by the check against the length, and the range.\<close>

definition time_field :: "u8 list \<Rightarrow> nat \<Rightarrow> nat \<Rightarrow> int \<Rightarrow> int \<Rightarrow> int read" where
  "time_field a l p lo hi =
     on_got (byte_at a p) (\<lambda>b.
       if \<not> is_digit b then Bad
       else if l < p + 1 then Bad
       else on_got (byte_at a (p + 1)) (\<lambda>c.
         if \<not> is_digit c then Bad
         else if l < p + 2 then Bad
         else let n = digit_val b * 10 + digit_val c
              in if n < lo \<or> hi < n then Bad else Got n))"

text \<open>A field of the offset, after the check that four bytes are left.\<close>

definition zone_field :: "u8 list \<Rightarrow> nat \<Rightarrow> int \<Rightarrow> int \<Rightarrow> int read" where
  "zone_field a p lo hi =
     on_got (byte_at a p) (\<lambda>b.
       if \<not> is_digit b then Bad
       else on_got (byte_at a (p + 1)) (\<lambda>c.
         if \<not> is_digit c then Bad
         else let n = digit_val b * 10 + digit_val c
              in if n < lo \<or> hi < n then Bad else Got n))"

text \<open>
  The offset from UTC that starts at the sign \<open>b\<close> before \<open>p\<close>. Where no \<open>struct tm\<close> is given nothing
  is adjusted. The result is the offset after it and the time.
\<close>

definition zone_offset :: "u8 list \<Rightarrow> nat \<Rightarrow> u8 \<Rightarrow> nat \<Rightarrow> int \<Rightarrow> int \<Rightarrow> int \<Rightarrow> int \<Rightarrow> tm option \<Rightarrow> (nat \<times> tm option) read" where
  "zone_offset a l b p lo1 hi1 lo2 hi2 tm =
     (if l < p + 4 then Bad
      else on_got (zone_field a p lo1 hi1) (\<lambda>h.
        on_got (zone_field a (p + 2) lo2 hi2) (\<lambda>m.
          case tm of
            None \<Rightarrow> Got (p + 4, None)
          | Some t \<Rightarrow>
              (let offsign = (if b = CH_MINUS then 1 else - 1);
                   offset = h * 3600 + m * 60
               in if offset \<noteq> 0 then
                    (case OPENSSL_gmtime_adj t 0 (offset * offsign) of
                       None \<Rightarrow> Bad
                     | Some t' \<Rightarrow> Got (p + 4, Some t'))
                  else Got (p + 4, Some t)))))"

section \<open>\<open>UTCTime\<close>\<close>

definition utc_min :: "int list" where "utc_min = [0, 1, 1, 0, 0, 0, 0, 0]"
definition utc_max :: "int list" where "utc_max = [99, 12, 31, 23, 59, 59, 12, 59]"

definition utc_put :: "nat \<Rightarrow> int \<Rightarrow> tm \<Rightarrow> tm" where
  "utc_put i n tm =
     (if i = 0 then tm\<lparr>tm_year := (if n < 50 then n + 100 else n)\<rparr>
      else if i = 1 then tm\<lparr>tm_mon := n - 1\<rparr>
      else if i = 2 then tm\<lparr>tm_mday := n\<rparr>
      else if i = 3 then tm\<lparr>tm_hour := n\<rparr>
      else if i = 4 then tm\<lparr>tm_min := n\<rparr>
      else if i = 5 then tm\<lparr>tm_sec := n\<rparr>
      else tm)"

function utc_fields :: "u8 list \<Rightarrow> nat \<Rightarrow> nat \<Rightarrow> nat \<Rightarrow> tm option \<Rightarrow> (nat \<times> tm option) read" where
  "utc_fields a l i p tm =
     (if 6 \<le> i then Got (p, tm)
      else on_got (byte_at a p) (\<lambda>b.
        if i = 5 \<and> is_zone b then Got (p, map_option (\<lambda>t. t\<lparr>tm_sec := 0\<rparr>) tm)
        else on_got (time_field a l p (utc_min ! i) (utc_max ! i)) (\<lambda>n.
          utc_fields a l (i + 1) (p + 2) (map_option (utc_put i n) tm))))"
  by pat_completeness auto
termination by (relation "measure (\<lambda>(a, l, i, p, tm). 6 - i)") simp_all

definition asn1_utctime_to_tm :: "tm option \<Rightarrow> asn1_string \<Rightarrow> tm option read" where
  "asn1_utctime_to_tm tm d =
     (if str_type d \<noteq> V_ASN1_UTCTIME then Bad
      else if str_length d < 11 then Bad
      else let l = nat (str_length d); a = str_bytes d
           in on_got (utc_fields a l 0 0 tm) (\<lambda>(p1, tm1).
                on_got (byte_at a p1) (\<lambda>b.
                  on_got
                    (if b = CH_Z then Got (p1 + 1, tm1)
                     else if b = CH_PLUS \<or> b = CH_MINUS then
                       zone_offset a l b (p1 + 1) (utc_min ! 6) (utc_max ! 6) (utc_min ! 7) (utc_max ! 7) tm1
                     else Got (p1, tm1))
                    (\<lambda>(p2, tm2). if p2 = l then Got tm2 else Bad))))"

definition ASN1_UTCTIME_check :: "asn1_string \<Rightarrow> bool read" where
  "ASN1_UTCTIME_check d =
     (case asn1_utctime_to_tm None d of Past_end \<Rightarrow> Past_end | Bad \<Rightarrow> Got False | Got _ \<Rightarrow> Got True)"

section \<open>\<open>GeneralizedTime\<close>\<close>

definition gen_min :: "int list" where "gen_min = [0, 0, 1, 1, 0, 0, 0, 0, 0]"
definition gen_max :: "int list" where "gen_max = [99, 99, 12, 31, 23, 59, 59, 12, 59]"

definition gen_put :: "nat \<Rightarrow> int \<Rightarrow> tm \<Rightarrow> tm" where
  "gen_put i n tm =
     (if i = 0 then tm\<lparr>tm_year := n * 100 - 1900\<rparr>
      else if i = 1 then tm\<lparr>tm_year := tm_year tm + n\<rparr>
      else if i = 2 then tm\<lparr>tm_mon := n - 1\<rparr>
      else if i = 3 then tm\<lparr>tm_mday := n\<rparr>
      else if i = 4 then tm\<lparr>tm_hour := n\<rparr>
      else if i = 5 then tm\<lparr>tm_min := n\<rparr>
      else if i = 6 then tm\<lparr>tm_sec := n\<rparr>
      else tm)"

function gen_fields :: "u8 list \<Rightarrow> nat \<Rightarrow> nat \<Rightarrow> nat \<Rightarrow> tm option \<Rightarrow> (nat \<times> tm option) read" where
  "gen_fields a l i p tm =
     (if 7 \<le> i then Got (p, tm)
      else on_got (byte_at a p) (\<lambda>b.
        if i = 6 \<and> is_zone b then Got (p, map_option (\<lambda>t. t\<lparr>tm_sec := 0\<rparr>) tm)
        else on_got (time_field a l p (gen_min ! i) (gen_max ! i)) (\<lambda>n.
          gen_fields a l (i + 1) (p + 2) (map_option (gen_put i n) tm))))"
  by pat_completeness auto
termination by (relation "measure (\<lambda>(a, l, i, p, tm). 7 - i)") simp_all

text \<open>The digits of a fraction; the byte is read before the offset is compared with the length.\<close>

function frac_digits :: "u8 list \<Rightarrow> nat \<Rightarrow> nat \<Rightarrow> nat read" where
  "frac_digits a l p =
     (if length a \<le> p then Past_end
      else if is_digit (a ! p) \<and> p \<le> l then frac_digits a l (p + 1) else Got p)"
  by pat_completeness auto
termination by (relation "measure (\<lambda>(a, l, p). length a - p)") simp_all

definition gen_fraction :: "u8 list \<Rightarrow> nat \<Rightarrow> nat \<Rightarrow> nat read" where
  "gen_fraction a l p =
     on_got (byte_at a p) (\<lambda>b.
       if b = CH_DOT then
         (if l < p + 1 then Bad
          else on_got (frac_digits a l (p + 1)) (\<lambda>p'. if p' = p + 1 then Bad else Got p'))
       else Got p)"

definition asn1_generalizedtime_to_tm :: "tm option \<Rightarrow> asn1_string \<Rightarrow> tm option read" where
  "asn1_generalizedtime_to_tm tm d =
     (if str_type d \<noteq> V_ASN1_GENERALIZEDTIME then Bad
      else if str_length d < 13 then Bad
      else let l = nat (str_length d); a = str_bytes d
           in on_got (gen_fields a l 0 0 tm) (\<lambda>(p0, tm1).
                on_got (gen_fraction a l p0) (\<lambda>p1.
                  on_got (byte_at a p1) (\<lambda>b.
                    on_got
                      (if b = CH_Z then Got (p1 + 1, tm1)
                       else if b = CH_PLUS \<or> b = CH_MINUS then
                         zone_offset a l b (p1 + 1) (gen_min ! 7) (gen_max ! 7) (gen_min ! 8) (gen_max ! 8) tm1
                       else if b \<noteq> 0 then Bad
                       else Got (p1, tm1))
                      (\<lambda>(p2, tm2). if p2 = l then Got tm2 else Bad)))))"

definition ASN1_GENERALIZEDTIME_check :: "asn1_string \<Rightarrow> bool read" where
  "ASN1_GENERALIZEDTIME_check d =
     (case asn1_generalizedtime_to_tm None d of Past_end \<Rightarrow> Past_end | Bad \<Rightarrow> Got False | Got _ \<Rightarrow> Got True)"

section \<open>Writing\<close>

text \<open>\<open>BIO_snprintf\<close> with \<open>%0wd\<close>: the decimal digits after zeros up to the width, a sign counted in.\<close>

fun dec_digits :: "nat \<Rightarrow> u8 list" where
  "dec_digits n = (if n < 10 then [of_nat (48 + n)] else dec_digits (n div 10) @ [of_nat (48 + n mod 10)])"

definition fmt_d :: "nat \<Rightarrow> int \<Rightarrow> u8 list" where
  "fmt_d w n =
     (let sign = (if n < 0 then [CH_MINUS] else []); ds = dec_digits (nat \<bar>n\<bar>)
      in sign @ replicate (w - length sign - length ds) 48 @ ds)"

definition BIO_snprintf :: "u8 list \<Rightarrow> nat \<Rightarrow> u8 list \<Rightarrow> u8 list" where
  "BIO_snprintf p n out = mem_put p 0 (take (n - 1) out @ [0])"

text \<open>The block that the text goes to: the old one if it is long enough.\<close>

definition time_block :: "heap \<Rightarrow> asn1_string \<Rightarrow> nat \<Rightarrow> u8 list option" where
  "time_block h s n =
     (if str_data s = None \<or> nat (str_length s mod 2 ^ 64) < n then OPENSSL_malloc h n else str_data s)"

definition put_time :: "heap \<Rightarrow> asn1_string \<Rightarrow> int \<Rightarrow> u8 list \<Rightarrow> asn1_string option" where
  "put_time h s type out =
     (case time_block h s 20 of
        None \<Rightarrow> None
      | Some p \<Rightarrow>
          (let p' = BIO_snprintf p 20 out
           in case c_strlen p' of
                None \<Rightarrow> None
              | Some n \<Rightarrow> Some (s\<lparr>str_data := Some p', str_length := int n, str_type := type\<rparr>)))"

definition shifted_time :: "int \<Rightarrow> int \<Rightarrow> int \<Rightarrow> tm option" where
  "shifted_time t offset_day offset_sec =
     (case OPENSSL_gmtime t of
        None \<Rightarrow> None
      | Some ts \<Rightarrow> if offset_day \<noteq> 0 \<or> offset_sec \<noteq> 0 then OPENSSL_gmtime_adj ts offset_day offset_sec else Some ts)"

definition utc_text :: "tm \<Rightarrow> u8 list" where
  "utc_text ts = fmt_d 2 (tm_year ts smod 100) @ fmt_d 2 (tm_mon ts + 1) @ fmt_d 2 (tm_mday ts) @
     fmt_d 2 (tm_hour ts) @ fmt_d 2 (tm_min ts) @ fmt_d 2 (tm_sec ts) @ [CH_Z]"

definition gen_text :: "tm \<Rightarrow> u8 list" where
  "gen_text ts = fmt_d 4 (tm_year ts + 1900) @ fmt_d 2 (tm_mon ts + 1) @ fmt_d 2 (tm_mday ts) @
     fmt_d 2 (tm_hour ts) @ fmt_d 2 (tm_min ts) @ fmt_d 2 (tm_sec ts) @ [CH_Z]"

definition ASN1_UTCTIME_adj :: "heap \<Rightarrow> asn1_string option \<Rightarrow> int \<Rightarrow> int \<Rightarrow> int \<Rightarrow> asn1_string option" where
  "ASN1_UTCTIME_adj h s t offset_day offset_sec =
     (case (case s of None \<Rightarrow> ASN1_STRING_type_new h V_ASN1_UTCTIME | Some s0 \<Rightarrow> Some s0) of
        None \<Rightarrow> None
      | Some s1 \<Rightarrow>
          (case shifted_time t offset_day offset_sec of
             None \<Rightarrow> None
           | Some ts \<Rightarrow>
               if tm_year ts < 50 \<or> tm_year ts \<ge> 150 then None
               else put_time h s1 V_ASN1_UTCTIME (utc_text ts)))"

definition ASN1_UTCTIME_set :: "heap \<Rightarrow> asn1_string option \<Rightarrow> int \<Rightarrow> asn1_string option" where
  "ASN1_UTCTIME_set h s t = ASN1_UTCTIME_adj h s t 0 0"

definition ASN1_GENERALIZEDTIME_adj :: "heap \<Rightarrow> asn1_string option \<Rightarrow> int \<Rightarrow> int \<Rightarrow> int \<Rightarrow> asn1_string option" where
  "ASN1_GENERALIZEDTIME_adj h s t offset_day offset_sec =
     (case (case s of None \<Rightarrow> ASN1_STRING_type_new h V_ASN1_GENERALIZEDTIME | Some s0 \<Rightarrow> Some s0) of
        None \<Rightarrow> None
      | Some s1 \<Rightarrow>
          (case shifted_time t offset_day offset_sec of
             None \<Rightarrow> None
           | Some ts \<Rightarrow> put_time h s1 V_ASN1_GENERALIZEDTIME (gen_text ts)))"

definition ASN1_GENERALIZEDTIME_set :: "heap \<Rightarrow> asn1_string option \<Rightarrow> int \<Rightarrow> asn1_string option" where
  "ASN1_GENERALIZEDTIME_set h s t = ASN1_GENERALIZEDTIME_adj h s t 0 0"

text \<open>Storing a text that passes the check; the result is the return value and the string.\<close>

definition text_string :: "u8 list \<Rightarrow> nat \<Rightarrow> int \<Rightarrow> asn1_string" where
  "text_string str n type = \<lparr>str_length = int n, str_type = type, str_data = Some str, str_flags = 0\<rparr>"

definition set_checked :: "heap \<Rightarrow> (asn1_string \<Rightarrow> bool read) \<Rightarrow> int \<Rightarrow> asn1_string option \<Rightarrow> u8 list \<Rightarrow> (bool \<times> asn1_string option) read" where
  "set_checked h check type s str =
     (case c_strlen str of
        None \<Rightarrow> Past_end
      | Some n \<Rightarrow>
          on_got (check (text_string str n type)) (\<lambda>ok.
            if \<not> ok then Got (False, s)
            else case s of
                None \<Rightarrow> Got (True, None)
              | Some s0 \<Rightarrow>
                  (case ASN1_STRING_set h s0 (Some str) (int n) of
                     None \<Rightarrow> Past_end
                   | Some (stored, s1) \<Rightarrow> if \<not> stored then Got (False, Some s1) else Got (True, Some (s1\<lparr>str_type := type\<rparr>)))))"

definition ASN1_UTCTIME_set_string :: "heap \<Rightarrow> asn1_string option \<Rightarrow> u8 list \<Rightarrow> (bool \<times> asn1_string option) read" where
  "ASN1_UTCTIME_set_string h s str = set_checked h ASN1_UTCTIME_check V_ASN1_UTCTIME s str"

definition ASN1_GENERALIZEDTIME_set_string :: "heap \<Rightarrow> asn1_string option \<Rightarrow> u8 list \<Rightarrow> (bool \<times> asn1_string option) read" where
  "ASN1_GENERALIZEDTIME_set_string h s str = set_checked h ASN1_GENERALIZEDTIME_check V_ASN1_GENERALIZEDTIME s str"

text \<open>\<open>tm0\<close> is what the stack holds in the \<open>struct tm\<close> that the reader fills.\<close>

definition ASN1_UTCTIME_cmp_time_t :: "tm \<Rightarrow> asn1_string \<Rightarrow> int \<Rightarrow> int read" where
  "ASN1_UTCTIME_cmp_time_t tm0 s t =
     (case asn1_utctime_to_tm (Some tm0) s of
        Past_end \<Rightarrow> Past_end
      | Got (Some stm) \<Rightarrow>
          (case OPENSSL_gmtime t of
             None \<Rightarrow> Got (- 2)
           | Some ttm \<Rightarrow>
               (case OPENSSL_gmtime_diff ttm stm of
                  None \<Rightarrow> Got (- 2)
                | Some (day, sec) \<Rightarrow>
                    Got (if day > 0 then 1 else if day < 0 then - 1 else if sec > 0 then 1 else if sec < 0 then - 1 else 0)))
      | _ \<Rightarrow> Got (- 2))"

section \<open>The choice of the two\<close>

definition ASN1_TIME_adj :: "heap \<Rightarrow> asn1_string option \<Rightarrow> int \<Rightarrow> int \<Rightarrow> int \<Rightarrow> asn1_string option" where
  "ASN1_TIME_adj h s t offset_day offset_sec =
     (case shifted_time t offset_day offset_sec of
        None \<Rightarrow> None
      | Some ts \<Rightarrow>
          if tm_year ts \<ge> 50 \<and> tm_year ts < 150 then ASN1_UTCTIME_adj h s t offset_day offset_sec
          else ASN1_GENERALIZEDTIME_adj h s t offset_day offset_sec)"

definition ASN1_TIME_set :: "heap \<Rightarrow> asn1_string option \<Rightarrow> int \<Rightarrow> asn1_string option" where
  "ASN1_TIME_set h s t = ASN1_TIME_adj h s t 0 0"

definition ASN1_TIME_check :: "asn1_string \<Rightarrow> bool read" where
  "ASN1_TIME_check t =
     (if str_type t = V_ASN1_GENERALIZEDTIME then ASN1_GENERALIZEDTIME_check t
      else if str_type t = V_ASN1_UTCTIME then ASN1_UTCTIME_check t
      else Got False)"

text \<open>
  \<open>ASN1_TIME_to_generalizedtime\<close>: \<open>out\<close> is \<open>None\<close> where no string is given to fill. The result is the
  string the call returns, \<open>Bad\<close> the null pointer. The string to fill is another one than \<open>t\<close>.
\<close>

definition to_gen_text :: "asn1_string \<Rightarrow> asn1_string \<Rightarrow> asn1_string read" where
  "to_gen_text t ret =
     (case str_data t of
        None \<Rightarrow> Past_end
      | Some d \<Rightarrow>
          (case d of
             [] \<Rightarrow> Past_end
           | b # _ \<Rightarrow>
               (let newlen = nat (str_length t + 2 + 1)
                in case OPENSSL_strlcpy (str_bytes ret) (if b \<ge> 53 then [49, 57, 0] else [50, 48, 0]) newlen of
                     None \<Rightarrow> Past_end
                   | Some (s1, _) \<Rightarrow>
                       (case OPENSSL_strlcat s1 d newlen of
                          None \<Rightarrow> Past_end
                        | Some (s2, _) \<Rightarrow> Got (ret\<lparr>str_data := Some s2\<rparr>)))))"

definition ASN1_TIME_to_generalizedtime :: "heap \<Rightarrow> asn1_string \<Rightarrow> asn1_string option \<Rightarrow> asn1_string read" where
  "ASN1_TIME_to_generalizedtime h t out =
     on_got (ASN1_TIME_check t) (\<lambda>ok.
       if \<not> ok then Bad
       else case (case out of None \<Rightarrow> ASN1_STRING_type_new h V_ASN1_GENERALIZEDTIME | Some r \<Rightarrow> Some r) of
           None \<Rightarrow> Bad
         | Some ret \<Rightarrow>
             if str_type t = V_ASN1_GENERALIZEDTIME then
               (case ASN1_STRING_set h ret (str_data t) (str_length t) of
                  None \<Rightarrow> Past_end
                | Some (stored, r) \<Rightarrow> if stored then Got r else Bad)
             else
               (case ASN1_STRING_set h ret None (str_length t + 2) of
                  None \<Rightarrow> Past_end
                | Some (stored, r) \<Rightarrow> if stored then to_gen_text t r else Bad))"

definition ASN1_TIME_set_string :: "heap \<Rightarrow> asn1_string option \<Rightarrow> u8 list \<Rightarrow> (bool \<times> asn1_string option) read" where
  "ASN1_TIME_set_string h s str =
     (case c_strlen str of
        None \<Rightarrow> Past_end
      | Some n \<Rightarrow>
          on_got (ASN1_TIME_check (text_string str n V_ASN1_UTCTIME)) (\<lambda>utc.
            on_got (if utc then Got True else ASN1_TIME_check (text_string str n V_ASN1_GENERALIZEDTIME)) (\<lambda>ok.
              if \<not> ok then Got (False, s)
              else case s of
                  None \<Rightarrow> Got (True, None)
                | Some s0 \<Rightarrow>
                    (case ASN1_STRING_copy h s0
                       (Some (text_string str n (if utc then V_ASN1_UTCTIME else V_ASN1_GENERALIZEDTIME))) of
                       None \<Rightarrow> Past_end
                     | Some (stored, s1) \<Rightarrow> Got (stored, Some s1)))))"

text \<open>\<open>now\<close> is the result of \<open>time\<close>.\<close>

definition asn1_time_to_tm :: "int \<Rightarrow> tm \<Rightarrow> asn1_string option \<Rightarrow> tm option read" where
  "asn1_time_to_tm now tm0 t =
     (case t of
        None \<Rightarrow> (case OPENSSL_gmtime now of None \<Rightarrow> Bad | Some tm \<Rightarrow> Got (Some tm))
      | Some s \<Rightarrow>
          if str_type s = V_ASN1_UTCTIME then asn1_utctime_to_tm (Some tm0) s
          else if str_type s = V_ASN1_GENERALIZEDTIME then asn1_generalizedtime_to_tm (Some tm0) s
          else Bad)"

definition ASN1_TIME_diff :: "int \<Rightarrow> tm \<Rightarrow> asn1_string option \<Rightarrow> asn1_string option \<Rightarrow> (int \<times> int) read" where
  "ASN1_TIME_diff now tm0 from_t to_t =
     on_got (asn1_time_to_tm now tm0 from_t) (\<lambda>a.
       on_got (asn1_time_to_tm now tm0 to_t) (\<lambda>b.
         case (a, b) of
           (Some tm_from, Some tm_to) \<Rightarrow>
             (case OPENSSL_gmtime_diff tm_from tm_to of None \<Rightarrow> Bad | Some ds \<Rightarrow> Got ds)
         | _ \<Rightarrow> Bad))"

end
