(* ===== verification/Asn1_Time_Properties.thy ===== *)
theory Asn1_Time_Properties
  imports Asn1_Time
begin

text \<open>
  The properties of the ASN.1 time types: a time that is written is read back as the same instant,
  the difference of two times is exact, the conversion to \<open>GeneralizedTime\<close> keeps the time, and the
  readers stay inside a block that ends with a zero.
\<close>

declare utc_fields.simps [simp del] gen_fields.simps [simp del] frac_digits.simps [simp del] dec_digits.simps [simp del]

lemmas time_reader_defs = time_field_def zone_field_def zone_offset_def byte_at_def Let_def

section \<open>Reading inside the block\<close>

text \<open>A terminated string: the byte after the contents is a zero, as \<open>ASN1_STRING_set\<close> leaves it.\<close>

definition terminated :: "asn1_string \<Rightarrow> bool" where
  "terminated d \<longleftrightarrow> 0 \<le> str_length d \<and> nat (str_length d) < length (str_bytes d) \<and> str_bytes d ! nat (str_length d) = 0"

lemma on_got_in_bounds: "\<lbrakk>r \<noteq> Past_end; \<And>x. r = Got x \<Longrightarrow> f x \<noteq> Past_end\<rbrakk> \<Longrightarrow> on_got r f \<noteq> Past_end"
  by (cases r) simp_all

lemma guard_in_bounds: "x \<noteq> Past_end \<Longrightarrow> (if c then Bad else x) \<noteq> Past_end"
  by simp

lemma byte_at_in_bounds: "byte_at a p \<noteq> Past_end \<longleftrightarrow> p < length a"
  by (simp add: byte_at_def)

lemma time_field_in_bounds: "\<lbrakk>l < length a; p \<le> l\<rbrakk> \<Longrightarrow> time_field a l p lo hi \<noteq> Past_end"
  by (simp add: time_reader_defs)

lemma time_field_Got:
  "time_field a l p lo hi = Got n \<Longrightarrow> p + 2 \<le> l \<and> lo \<le> n \<and> n \<le> hi"
  by (simp add: time_reader_defs on_got_Got_iff split: if_splits)

lemma zone_offset_in_bounds: "\<lbrakk>l < length a\<rbrakk> \<Longrightarrow> zone_offset a l b p lo1 hi1 lo2 hi2 tm \<noteq> Past_end"
  by (auto simp: zone_offset_def zone_field_def byte_at_def Let_def intro!: on_got_in_bounds split: option.splits if_splits)

lemma utc_fields_in_bounds:
  "\<lbrakk>l < length a; p \<le> l\<rbrakk> \<Longrightarrow> utc_fields a l i p tm \<noteq> Past_end \<and> (\<forall>q tm'. utc_fields a l i p tm = Got (q, tm') \<longrightarrow> q \<le> l)"
proof (induction a l i p tm rule: utc_fields.induct)
  case (1 a l i p tm)
  note eq = utc_fields.simps [of a l i p tm]
  show ?case
  proof (cases "6 \<le> i")
    case True
    then show ?thesis using 1(3) by (simp add: eq)
  next
    case False
    have b: "byte_at a p = Got (a ! p)" using 1(2,3) by (simp add: byte_at_def)
    show ?thesis
    proof (cases "i = 5 \<and> is_zone (a ! p)")
      case True
      then show ?thesis using 1(3) b unfolding eq by simp
    next
      case zone: False
      show ?thesis
      proof (cases "time_field a l p (utc_min ! i) (utc_max ! i)")
        case (Got n)
        then show ?thesis
          using 1(1) [OF False zone 1(2), of n] time_field_Got [OF Got] Got b zone False unfolding eq by simp
      qed (use 1(3) time_field_in_bounds [OF 1(2,3)] False b zone in \<open>simp_all add: eq\<close>)
    qed
  qed
qed

lemma gen_fields_in_bounds:
  "\<lbrakk>l < length a; p \<le> l\<rbrakk> \<Longrightarrow> gen_fields a l i p tm \<noteq> Past_end \<and> (\<forall>q tm'. gen_fields a l i p tm = Got (q, tm') \<longrightarrow> q \<le> l)"
proof (induction a l i p tm rule: gen_fields.induct)
  case (1 a l i p tm)
  note eq = gen_fields.simps [of a l i p tm]
  show ?case
  proof (cases "7 \<le> i")
    case True
    then show ?thesis using 1(3) by (simp add: eq)
  next
    case False
    have b: "byte_at a p = Got (a ! p)" using 1(2,3) by (simp add: byte_at_def)
    show ?thesis
    proof (cases "i = 6 \<and> is_zone (a ! p)")
      case True
      then show ?thesis using 1(3) b unfolding eq by simp
    next
      case zone: False
      show ?thesis
      proof (cases "time_field a l p (gen_min ! i) (gen_max ! i)")
        case (Got n)
        then show ?thesis
          using 1(1) [OF False zone 1(2), of n] time_field_Got [OF Got] Got b zone False unfolding eq by simp
      qed (use 1(3) time_field_in_bounds [OF 1(2,3)] False b zone in \<open>simp_all add: eq\<close>)
    qed
  qed
qed

lemma frac_digits_in_bounds:
  "\<lbrakk>l < length a; a ! l = 0; p \<le> l\<rbrakk> \<Longrightarrow> \<exists>q. frac_digits a l p = Got q \<and> q \<le> l"
proof (induction a l p rule: frac_digits.induct)
  case (1 a l p)
  show ?case
  proof (cases "is_digit (a ! p) \<and> p \<le> l")
    case True
    then have "p \<noteq> l" using 1(3) by (auto simp: is_digit_def)
    then have "p + 1 \<le> l" using 1(4) by simp
    from 1(1) [OF _ True 1(2,3) this] show ?thesis using 1(2,4) True by (simp add: frac_digits.simps [of a l p])
  next
    case False
    then show ?thesis using 1(2,4) by (simp add: frac_digits.simps [of a l p])
  qed
qed

lemma gen_fraction_in_bounds:
  assumes "l < length a" "a ! l = 0" "p \<le> l"
  shows "gen_fraction a l p \<noteq> Past_end \<and> (\<forall>q. gen_fraction a l p = Got q \<longrightarrow> q \<le> l)"
proof (cases "a ! p = CH_DOT \<and> \<not> l < p + 1")
  case True
  then obtain q where "frac_digits a l (p + 1) = Got q" "q \<le> l"
    using frac_digits_in_bounds [OF assms(1,2), of "p + 1"] by auto
  then show ?thesis using True assms by (simp add: gen_fraction_def byte_at_def)
next
  case False
  then show ?thesis using assms by (auto simp: gen_fraction_def byte_at_def)
qed

lemma zone_in_bounds:
  assumes "l < length a" "q \<le> l"
  shows "on_got (byte_at a q) (\<lambda>b. on_got
     (if b = CH_Z then Got (q + 1, tm)
      else if b = CH_PLUS \<or> b = CH_MINUS then zone_offset a l b (q + 1) lo1 hi1 lo2 hi2 tm
      else Got (q, tm))
     (\<lambda>(p2, tm2). if p2 = l then Got tm2 else Bad)) \<noteq> Past_end" (is "on_got _ ?f \<noteq> _")
    "on_got (byte_at a q) (\<lambda>b. on_got
     (if b = CH_Z then Got (q + 1, tm)
      else if b = CH_PLUS \<or> b = CH_MINUS then zone_offset a l b (q + 1) lo1 hi1 lo2 hi2 tm
      else if b \<noteq> 0 then Bad
      else Got (q, tm))
     (\<lambda>(p2, tm2). if p2 = l then Got tm2 else Bad)) \<noteq> Past_end"
  using assms by (intro on_got_in_bounds; auto simp: byte_at_def zone_offset_in_bounds split: prod.splits if_splits)+

lemma asn1_utctime_in_bounds:
  assumes "terminated d"
  shows "asn1_utctime_to_tm tm d \<noteq> Past_end"
proof -
  let ?l = "nat (str_length d)" and ?a = "str_bytes d"
  have l: "?l < length ?a" using assms by (simp add: terminated_def)
  note f = utc_fields_in_bounds [OF l, of 0 0 tm]
  have f: "on_got (utc_fields ?a ?l 0 0 tm) g \<noteq> Past_end" if "\<And>q tm1. q \<le> ?l \<Longrightarrow> g (q, tm1) \<noteq> Past_end" for g :: "_ \<Rightarrow> tm option read"
    using f that by (cases "utc_fields ?a ?l 0 0 tm") auto
  show ?thesis
    unfolding asn1_utctime_to_tm_def Let_def
    by (rule guard_in_bounds, rule guard_in_bounds, rule f, unfold prod.case, rule zone_in_bounds(1) [OF l])
qed

lemma asn1_generalizedtime_in_bounds:
  assumes "terminated d"
  shows "asn1_generalizedtime_to_tm tm d \<noteq> Past_end"
proof -
  let ?l = "nat (str_length d)" and ?a = "str_bytes d"
  have l: "?l < length ?a" "?a ! ?l = 0" using assms by (simp_all add: terminated_def)
  note f = gen_fields_in_bounds [OF l(1), of 0 0 tm]
  have f: "on_got (gen_fields ?a ?l 0 0 tm) g \<noteq> Past_end" if "\<And>q tm1. q \<le> ?l \<Longrightarrow> g (q, tm1) \<noteq> Past_end" for g :: "_ \<Rightarrow> tm option read"
    using f that by (cases "gen_fields ?a ?l 0 0 tm") auto
  have r: "on_got (gen_fraction ?a ?l p) g \<noteq> Past_end" if "p \<le> ?l" "\<And>q. q \<le> ?l \<Longrightarrow> g q \<noteq> Past_end" for p and g :: "_ \<Rightarrow> tm option read"
    using gen_fraction_in_bounds [OF l that(1)] that(2) by (cases "gen_fraction ?a ?l p") auto
  show ?thesis
    unfolding asn1_generalizedtime_to_tm_def Let_def
    by (rule guard_in_bounds, rule guard_in_bounds, rule f, unfold prod.case, rule r, assumption,
      rule zone_in_bounds(2) [OF l(1)])
qed

section \<open>Reading what was written\<close>

lemma dec_digits_1: "n < 10 \<Longrightarrow> dec_digits n = [of_nat (48 + n)]"
  by (simp add: dec_digits.simps [of n])

lemma dec_digits_2: "\<lbrakk>10 \<le> n; n < 100\<rbrakk> \<Longrightarrow> dec_digits n = [of_nat (48 + n div 10), of_nat (48 + n mod 10)]"
  by (simp add: dec_digits.simps [of n] dec_digits_1)

lemma fmt_d_2: "\<lbrakk>0 \<le> n; n \<le> 99\<rbrakk> \<Longrightarrow> fmt_d 2 n = [of_nat (48 + nat n div 10), of_nat (48 + nat n mod 10)]"
  by (cases "n < 10") (simp_all add: fmt_d_def Let_def dec_digits_1 dec_digits_2)

lemma dec_digits_div: "10 \<le> n \<Longrightarrow> dec_digits n = dec_digits (n div 10) @ [of_nat (48 + n mod 10)]"
  by (simp add: dec_digits.simps [of n])

lemma fmt_d_4: 
  assumes "0 \<le> n" "n \<le> 9999"
  shows "fmt_d 4 n = fmt_d 2 (n div 100) @ fmt_d 2 (n mod 100)"
proof -
  define k where "k = nat n"
  have k: "n = int k" "k \<le> 9999" using assms by (simp_all add: k_def)
  have q: "k div 10 div 10 = k div 100" "k mod 100 = k div 10 mod 10 * 10 + k mod 10"
    using div_mult2_eq [of k 10 10] mod_mult2_eq [of k 10 10] by simp_all
  have b: "k div 100 \<le> 99" "k mod 100 \<le> 99" using k(2) by simp_all
  have r: "k mod 100 div 10 = k div 10 mod 10" "k mod 100 mod 10 = k mod 10"
    using q(2) by (simp_all add: mod_mod_cancel)
  have e: "fmt_d 2 (n div 100) @ fmt_d 2 (n mod 100) =
      [of_nat (48 + k div 100 div 10), of_nat (48 + k div 100 mod 10), of_nat (48 + k div 10 mod 10), of_nat (48 + k mod 10)]"
    using b by (simp add: fmt_d_2 k(1) nat_div_distrib nat_mod_distrib r)
  have f: "fmt_d 4 n = replicate (4 - length (dec_digits k)) 48 @ dec_digits k"
    by (simp add: fmt_d_def Let_def k(1))
  have zeros: "replicate 3 (48 :: u8) = [48, 48, 48]" "replicate 2 (48 :: u8) = [48, 48]"
    by (simp_all add: eval_nat_numeral)
  consider "k < 10" | "10 \<le> k" "k < 100" | "100 \<le> k" "k < 1000" | "1000 \<le> k" by linarith
  then show ?thesis
  proof cases
    case 1
    then have "k div 100 = 0" "k div 10 = 0" "k mod 10 = k" by simp_all
    then show ?thesis unfolding e f using 1 by (simp add: dec_digits_1 zeros)
  next
    case 2
    then have "k div 100 = 0" "k div 10 mod 10 = k div 10" by simp_all
    then show ?thesis unfolding e f using 2 by (simp add: dec_digits_2 zeros)
  next
    case 3
    then have h: "k div 10 < 100" "10 \<le> k div 10" "k div 100 < 10" "10 \<le> k" by simp_all
    have "dec_digits k = [of_nat (48 + k div 100), of_nat (48 + k div 10 mod 10), of_nat (48 + k mod 10)]"
      using dec_digits_div [OF h(4)] dec_digits_2 [OF h(2,1)] by (simp only: q(1) append.simps)
    then show ?thesis unfolding e f using h(3) by simp
  next
    case 4
    then have h: "10 \<le> k" "10 \<le> k div 10" "10 \<le> k div 100" "k div 100 < 100" using k(2) by simp_all
    have "dec_digits k = [of_nat (48 + k div 100 div 10), of_nat (48 + k div 100 mod 10), of_nat (48 + k div 10 mod 10), of_nat (48 + k mod 10)]"
      using dec_digits_div [OF h(1)] dec_digits_div [OF h(2)] dec_digits_2 [OF h(3,4)] by (simp only: q(1) append.simps)
    then show ?thesis unfolding e f by simp
  qed
qed

lemma digit_of_nat:
  assumes "n < 10"
  shows "is_digit (of_nat (48 + n))" "digit_val (of_nat (48 + n)) = int n"
proof -
  have "n \<in> set [0..<10]" using assms by simp
  also have "[0..<10] = [0, 1, 2, 3, 4, 5, 6, 7, 8, 9]" by code_simp
  finally show "is_digit (of_nat (48 + n))" "digit_val (of_nat (48 + n)) = int n"
    by (auto simp: is_digit_def digit_val_def)
qed

lemma digit_not_zone: "is_digit b \<Longrightarrow> \<not> is_zone b"
  by (auto simp: is_digit_def is_zone_def)

text \<open>\<open>ds\<close> is what is left of the block from an offset on.\<close>

lemma drop_nth:
  assumes "drop p a = x # xs"
  shows "p < length a" "a ! p = x" "drop (p + 1) a = xs"
proof -
  show p: "p < length a" using assms by (metis drop_all leI list.distinct(1))
  show "a ! p = x" using p assms by (metis Cons_nth_drop_Suc list.inject)
  show "drop (p + 1) a = xs" using assms by (metis drop_drop drop_Suc_Cons drop0 One_nat_def add.commute)
qed

lemma time_field_text:
  assumes d: "drop p a = fmt_d 2 n @ ds" and l: "p + 2 \<le> l" and n: "0 \<le> n" "n \<le> 99" "lo \<le> n" "n \<le> hi"
  shows "time_field a l p lo hi = Got n" "drop (p + 2) a = ds" "p < length a" "is_digit (a ! p)"
proof -
  have d2: "drop p a = of_nat (48 + nat n div 10) # of_nat (48 + nat n mod 10) # ds"
    using d n(1,2) by (simp add: fmt_d_2)
  note a = drop_nth [OF d2] and b = drop_nth [OF drop_nth(3) [OF d2]]
  have n2: "nat n div 10 < 10" "nat n mod 10 < 10" using n(2) by simp_all
  show "p < length a" by (rule a(1))
  show "is_digit (a ! p)" unfolding a(2) by (rule digit_of_nat(1) [OF n2(1)])
  show "drop (p + 2) a = ds" using b(3) by simp
  have v: "int (nat n div 10) * 10 + int (nat n mod 10) = n"
    using n(1) by (simp add: zdiv_int zmod_int)
  show "time_field a l p lo hi = Got n"
    using a(1) b(1) l n(3,4) v unfolding time_field_def byte_at_def Let_def a(2) b(2)
    by (simp only: digit_of_nat [OF n2(1)] digit_of_nat [OF n2(2)] if_True if_False on_got_simps not_True_eq_False) auto
qed

lemma utc_fields_text:
  assumes "drop p a = fmt_d 2 n @ ds" "p + 2 \<le> l" "i < 6" "0 \<le> n" "n \<le> 99" "utc_min ! i \<le> n" "n \<le> utc_max ! i"
  shows "utc_fields a l i p tm = utc_fields a l (i + 1) (p + 2) (map_option (utc_put i n) tm)" "drop (p + 2) a = ds"
proof -
  note f = time_field_text [OF assms(1,2,4-7)]
  show "drop (p + 2) a = ds" by (rule f(2))
  show "utc_fields a l i p tm = utc_fields a l (i + 1) (p + 2) (map_option (utc_put i n) tm)"
    using f assms(3) digit_not_zone [OF f(4)] by (subst utc_fields.simps) (simp add: byte_at_def)
qed

lemma gen_fields_text:
  assumes "drop p a = fmt_d 2 n @ ds" "p + 2 \<le> l" "i < 7" "0 \<le> n" "n \<le> 99" "gen_min ! i \<le> n" "n \<le> gen_max ! i"
  shows "gen_fields a l i p tm = gen_fields a l (i + 1) (p + 2) (map_option (gen_put i n) tm)" "drop (p + 2) a = ds"
proof -
  note f = time_field_text [OF assms(1,2,4-7)]
  show "drop (p + 2) a = ds" by (rule f(2))
  show "gen_fields a l i p tm = gen_fields a l (i + 1) (p + 2) (map_option (gen_put i n) tm)"
    using f assms(3) digit_not_zone [OF f(4)] by (subst gen_fields.simps) (simp add: byte_at_def)
qed

lemma fields_digits:
  assumes "fields_ok ts"
  shows "0 \<le> tm_mon ts" "tm_mon ts \<le> 11" "1 \<le> tm_mday ts" "tm_mday ts \<le> 31" "0 \<le> tm_hour ts" "tm_hour ts \<le> 23"
    "0 \<le> tm_min ts" "tm_min ts \<le> 59" "0 \<le> tm_sec ts" "tm_sec ts \<le> 59" "- 1900 \<le> tm_year ts" "tm_year ts \<le> 8099"
  using assms by (simp_all add: fields_ok_def clock_ok_def)

lemma utc_table [simp]:
  "utc_min ! 0 = 0" "utc_max ! 0 = 99" "utc_min ! 1 = 1" "utc_max ! 1 = 12" "utc_min ! 2 = 1" "utc_max ! 2 = 31"
  "utc_min ! 3 = 0" "utc_max ! 3 = 23" "utc_min ! 4 = 0" "utc_max ! 4 = 59" "utc_min ! 5 = 0" "utc_max ! 5 = 59"
  "utc_min ! 6 = 0" "utc_max ! 6 = 12" "utc_min ! 7 = 0" "utc_max ! 7 = 59"
  by (simp_all add: utc_min_def utc_max_def eval_nat_numeral)

lemma gen_table [simp]:
  "gen_min ! 0 = 0" "gen_max ! 0 = 99" "gen_min ! 1 = 0" "gen_max ! 1 = 99" "gen_min ! 2 = 1" "gen_max ! 2 = 12"
  "gen_min ! 3 = 1" "gen_max ! 3 = 31" "gen_min ! 4 = 0" "gen_max ! 4 = 23" "gen_min ! 5 = 0" "gen_max ! 5 = 59"
  "gen_min ! 6 = 0" "gen_max ! 6 = 59" "gen_min ! 7 = 0" "gen_max ! 7 = 12" "gen_min ! 8 = 0" "gen_max ! 8 = 59"
  by (simp_all add: gen_min_def gen_max_def eval_nat_numeral)

text \<open>Reading the rest of the fields from field \<open>i\<close> on.\<close>

fun utc_puts :: "nat \<Rightarrow> int list \<Rightarrow> tm \<Rightarrow> tm" where
  "utc_puts i [] tm = tm"
| "utc_puts i (n # ns) tm = utc_puts (i + 1) ns (utc_put i n tm)"

fun gen_puts :: "nat \<Rightarrow> int list \<Rightarrow> tm \<Rightarrow> tm" where
  "gen_puts i [] tm = tm"
| "gen_puts i (n # ns) tm = gen_puts (i + 1) ns (gen_put i n tm)"

fun in_table :: "int list \<Rightarrow> int list \<Rightarrow> nat \<Rightarrow> int list \<Rightarrow> bool" where
  "in_table lo hi i [] \<longleftrightarrow> True"
| "in_table lo hi i (n # ns) \<longleftrightarrow> 0 \<le> n \<and> n \<le> 99 \<and> lo ! i \<le> n \<and> n \<le> hi ! i \<and> in_table lo hi (i + 1) ns"

abbreviation (input) digit_text :: "int list \<Rightarrow> u8 list" where
  "digit_text ns \<equiv> concat (map (fmt_d 2) ns)"

lemma utc_fields_texts:
  "\<lbrakk>drop p a = digit_text ns @ ds; p + 2 * length ns \<le> l; i + length ns \<le> 6; in_table utc_min utc_max i ns\<rbrakk> \<Longrightarrow>
    utc_fields a l i p (Some tm) = utc_fields a l (i + length ns) (p + 2 * length ns) (Some (utc_puts i ns tm)) \<and>
    drop (p + 2 * length ns) a = ds"
proof (induction ns arbitrary: i p tm)
  case (Cons n ns)
  have d: "drop p a = fmt_d 2 n @ digit_text ns @ ds" using Cons.prems(1) by simp
  have r: "p + 2 \<le> l" "i < 6" "0 \<le> n" "n \<le> 99" "utc_min ! i \<le> n" "n \<le> utc_max ! i"
    using Cons.prems by simp_all
  note f = utc_fields_text(1) [OF d r, of "Some tm"] utc_fields_text(2) [OF d r]
  have "p + 2 + 2 * length ns \<le> l" "i + 1 + length ns \<le> 6" "in_table utc_min utc_max (i + 1) ns"
    using Cons.prems by simp_all
  from Cons.IH [OF f(2) this, of "utc_put i n tm"] show ?case
    unfolding f(1) by (simp add: algebra_simps)
qed simp

lemma gen_fields_texts:
  "\<lbrakk>drop p a = digit_text ns @ ds; p + 2 * length ns \<le> l; i + length ns \<le> 7; in_table gen_min gen_max i ns\<rbrakk> \<Longrightarrow>
    gen_fields a l i p (Some tm) = gen_fields a l (i + length ns) (p + 2 * length ns) (Some (gen_puts i ns tm)) \<and>
    drop (p + 2 * length ns) a = ds"
proof (induction ns arbitrary: i p tm)
  case (Cons n ns)
  have d: "drop p a = fmt_d 2 n @ digit_text ns @ ds" using Cons.prems(1) by simp
  have r: "p + 2 \<le> l" "i < 7" "0 \<le> n" "n \<le> 99" "gen_min ! i \<le> n" "n \<le> gen_max ! i"
    using Cons.prems by simp_all
  note f = gen_fields_text(1) [OF d r, of "Some tm"] gen_fields_text(2) [OF d r]
  have "p + 2 + 2 * length ns \<le> l" "i + 1 + length ns \<le> 7" "in_table gen_min gen_max (i + 1) ns"
    using Cons.prems by simp_all
  from Cons.IH [OF f(2) this, of "gen_put i n tm"] show ?case
    unfolding f(1) by (simp add: algebra_simps)
qed simp

text \<open>The numbers that a text consists of.\<close>

definition utc_numbers :: "tm \<Rightarrow> int list" where
  "utc_numbers ts = [tm_year ts smod 100, tm_mon ts + 1, tm_mday ts, tm_hour ts, tm_min ts, tm_sec ts]"

definition gen_numbers :: "tm \<Rightarrow> int list" where
  "gen_numbers ts = [(tm_year ts + 1900) div 100, (tm_year ts + 1900) mod 100, tm_mon ts + 1, tm_mday ts, tm_hour ts, tm_min ts, tm_sec ts]"

lemma utc_text_numbers: "utc_text ts = digit_text (utc_numbers ts) @ [CH_Z]"
  by (simp add: utc_text_def utc_numbers_def)

lemma gen_text_numbers: "fields_ok ts \<Longrightarrow> gen_text ts = digit_text (gen_numbers ts) @ [CH_Z]"
  using fmt_d_4 [of "tm_year ts + 1900"] fields_digits [of ts] by (simp add: gen_text_def gen_numbers_def)

lemma utc_digits_read:
  assumes f: "fields_ok ts" and y: "50 \<le> tm_year ts" "tm_year ts < 150" and l: "12 \<le> l" and a: "a = digit_text (utc_numbers ts) @ ds"
  shows "utc_fields a l 0 0 (Some tm0) = Got (12, Some ts)" "drop 12 a = ds"
proof -
  note v = fields_digits [OF f]
  define yy where "yy = tm_year ts smod 100"
  have e: "yy = tm_year ts mod 100" unfolding yy_def using y(1) by (intro smod_nonneg) simp_all
  have yb: "0 \<le> yy" "yy \<le> 99" unfolding e by (simp_all add: zle_diff1_eq [of _ 100, symmetric])
  have yy: "(if yy < 50 then yy + 100 else yy) = tm_year ts"
  proof (cases "tm_year ts < 100")
    case True
    then show ?thesis using y(1) by (simp add: e)
  next
    case False
    then have "tm_year ts mod 100 = (tm_year ts - 100) mod 100" by simp
    then have "tm_year ts mod 100 = tm_year ts - 100" using False y(2) by (simp only: mod_pos_pos_trivial)
    then show ?thesis using y(2) by (simp add: e)
  qed
  have d: "drop 0 a = digit_text (utc_numbers ts) @ ds" using a by simp
  have t: "in_table utc_min utc_max 0 (utc_numbers ts)"
    unfolding utc_numbers_def yy_def [symmetric] using v yb by (simp add: utc_min_def utc_max_def)
  have len: "0 + length (utc_numbers ts) = 6" "0 + 2 * length (utc_numbers ts) = 12" by (simp_all add: utc_numbers_def)
  have u: "utc_fields a l 0 0 (Some tm0) = utc_fields a l 6 12 (Some (utc_puts 0 (utc_numbers ts) tm0)) \<and> drop 12 a = ds"
    using utc_fields_texts [OF d, of l 0 tm0, unfolded len] t l by simp
  then show "drop 12 a = ds" by simp
  have "utc_puts 0 (utc_numbers ts) tm0 = ts"
    unfolding utc_numbers_def yy_def [symmetric] using yy by (intro tm.equality) (simp_all add: utc_put_def)
  then show "utc_fields a l 0 0 (Some tm0) = Got (12, Some ts)" using u by (simp add: utc_fields.simps [of _ _ 6])
qed

lemma gen_digits_read:
  assumes f: "fields_ok ts" and l: "14 \<le> l" and a: "a = digit_text (gen_numbers ts) @ ds"
  shows "gen_fields a l 0 0 (Some tm0) = Got (14, Some ts)" "drop 14 a = ds"
proof -
  note v = fields_digits [OF f]
  define c yy where "c = (tm_year ts + 1900) div 100" and "yy = (tm_year ts + 1900) mod 100"
  have cy: "0 \<le> c" "c \<le> 99" "0 \<le> yy" "yy \<le> 99" "c * 100 - 1900 + yy = tm_year ts"
  proof -
    have s: "tm_year ts + 1900 = 100 * c + yy" by (simp add: c_def yy_def)
    show y: "0 \<le> yy" "yy \<le> 99" unfolding yy_def by (simp_all add: zle_diff1_eq [of _ 100, symmetric])
    show "0 \<le> c" unfolding c_def using v(11) by (simp add: pos_imp_zdiv_nonneg_iff)
    show "c \<le> 99" "c * 100 - 1900 + yy = tm_year ts" using s y v(12) by linarith+
  qed
  have d: "drop 0 a = digit_text (gen_numbers ts) @ ds" using a by simp
  have t: "in_table gen_min gen_max 0 (gen_numbers ts)"
    unfolding gen_numbers_def c_def [symmetric] yy_def [symmetric] using v cy(1-4) by (simp add: gen_min_def gen_max_def)
  have len: "0 + length (gen_numbers ts) = 7" "0 + 2 * length (gen_numbers ts) = 14" by (simp_all add: gen_numbers_def)
  have u: "gen_fields a l 0 0 (Some tm0) = gen_fields a l 7 14 (Some (gen_puts 0 (gen_numbers ts) tm0)) \<and> drop 14 a = ds"
    using gen_fields_texts [OF d, of l 0 tm0, unfolded len] t l by simp
  then show "drop 14 a = ds" by simp
  have "gen_puts 0 (gen_numbers ts) tm0 = ts"
    unfolding gen_numbers_def c_def [symmetric] yy_def [symmetric] using cy(5) by (intro tm.equality) (simp_all add: gen_put_def)
  then show "gen_fields a l 0 0 (Some tm0) = Got (14, Some ts)" using u by (simp add: gen_fields.simps [of _ _ 7])
qed

lemma utc_text_read:
  assumes "fields_ok ts" "50 \<le> tm_year ts" "tm_year ts < 150" "str_type d = V_ASN1_UTCTIME" "str_length d = 13"
    "str_bytes d = utc_text ts @ rest"
  shows "asn1_utctime_to_tm (Some tm0) d = Got (Some ts)"
proof -
  have a: "str_bytes d = digit_text (utc_numbers ts) @ CH_Z # rest" using assms(6) by (simp add: utc_text_numbers)
  note u = utc_digits_read [OF assms(1-3) _ a, of 13]
  show ?thesis
    using u(1) drop_nth [OF u(2)] by (simp add: asn1_utctime_to_tm_def assms(4,5) byte_at_def)
qed

lemma gen_text_read:
  assumes "fields_ok ts" "str_type d = V_ASN1_GENERALIZEDTIME" "str_length d = 15" "str_bytes d = gen_text ts @ rest"
  shows "asn1_generalizedtime_to_tm (Some tm0) d = Got (Some ts)"
proof -
  have a: "str_bytes d = digit_text (gen_numbers ts) @ CH_Z # rest" using assms(1,4) by (simp add: gen_text_numbers)
  note u = gen_digits_read [OF assms(1) _ a, of 15]
  show ?thesis
    using u(1) drop_nth [OF u(2)] by (simp add: asn1_generalizedtime_to_tm_def gen_fraction_def assms(2,3) byte_at_def)
qed

section \<open>Setting a time\<close>

lemma gmtime_r_total:
  assumes "- 62167219200 \<le> t" "t < 253402300800"
  shows "\<exists>tm. gmtime_r t = Some tm \<and> - 1900 \<le> tm_year tm \<and> tm_year tm \<le> 8099 \<and> (- 2208988800 \<le> t \<longrightarrow> 0 \<le> tm_year tm)"
proof -
  obtain y0 d0 where d: "year_down 1970 (t div 86400) = (y0, d0)" by (cases "year_down 1970 (t div 86400)") auto
  obtain y dy where u: "year_up y0 d0 = (y, dy)" by (cases "year_up y0 d0") auto
  obtain m md where mo: "month_up y 1 dy = (m, md)" by (cases "month_up y 1 dy") auto
  note ds = year_down_spec [OF d]
  note us = year_up_spec [OF conjunct1 [OF ds] u]
  define n where "n = t div 86400"
  have pos: "days_before_year y \<le> n + 719162" "n + 719162 < days_before_year (y + 1)"
    using ds us days_before_year_step [of y] by (simp_all add: days_before_year_def [of 1970] year_len_def n_def)
  have n: "- 719528 \<le> n" "n \<le> 2932896"
    unfolding n_def using assms zdiv_mono1 [of "- 62167219200" t 86400] zdiv_mono1 [of t 253402300799 86400] by simp_all
  have "0 \<le> y"
  proof (rule ccontr)
    assume "\<not> 0 \<le> y"
    then have "days_before_year (y + 1) \<le> days_before_year 0" by (intro days_before_year_mono) simp
    then show False using pos(2) n(1) by (simp add: days_before_year_def [of 0])
  qed
  moreover have "y \<le> 9999"
  proof (rule ccontr)
    assume "\<not> y \<le> 9999"
    then have "days_before_year 10000 \<le> days_before_year y" by (intro days_before_year_mono) simp
    then show False using pos(1) n(2) by (simp add: days_before_year_def [of 10000])
  qed
  moreover have "1900 \<le> y" if "- 2208988800 \<le> t"
  proof (rule ccontr)
    assume "\<not> 1900 \<le> y"
    then have "days_before_year (y + 1) \<le> days_before_year 1900" by (intro days_before_year_mono) simp
    moreover have "- 25567 \<le> n" unfolding n_def using that zdiv_mono1 [of "- 2208988800" t 86400] by simp
    ultimately show False using pos(2) by (simp add: days_before_year_def [of 1900])
  qed
  moreover have "\<exists>tm. gmtime_r t = Some tm \<and> tm_year tm = y - 1900" if "0 \<le> y" "y \<le> 9999"
  proof -
    have "\<not> (y - 1900 < - (2 ^ 31) \<or> 2 ^ 31 \<le> y - 1900)" using that by simp
    then show ?thesis unfolding gmtime_r_def d u mo prod.case by (simp only: if_False option.inject) auto
  qed
  ultimately show ?thesis by fastforce
qed

definition target_ok :: "asn1_string option \<Rightarrow> bool" where
  "target_ok s = (case s of None \<Rightarrow> True | Some s0 \<Rightarrow> str_ok s0)"

lemma shifted_time_total:
  assumes t: "- 62167219200 \<le> t" "t < 253402300800" and o: "offsets_ok a b"
    and u: "- 2208988800 \<le> t + 86400 * a + b" "t + 86400 * a + b < 253402300800"
  shows "\<exists>ts. shifted_time t a b = Some ts \<and> valid_tm ts \<and> 0 \<le> tm_year ts \<and> tm_year ts \<le> 8099 \<and>
    tm_seconds ts = t + 86400 * a + b + EPOCH_SECONDS"
proof -
  from gmtime_r_total [OF t] obtain t0 where t0: "gmtime_r t = Some t0" "- 1900 \<le> tm_year t0" "tm_year t0 \<le> 8099"
    "- 2208988800 \<le> t \<longrightarrow> 0 \<le> tm_year t0" by blast
  note s0 = gmtime_r_spec [OF t0(1)]
  have f: "fields_ok t0" by (rule valid_tm_fields [OF s0(1) t0(2,3)])
  show ?thesis
  proof (cases "a \<noteq> 0 \<or> b \<noteq> 0")
    case True
    have "- 62167219200 \<le> t + 86400 * a + b" using u(1) by linarith
    from gmtime_r_total [OF this u(2)] u(1) obtain t1 where t1: "gmtime_r (t + 86400 * a + b) = Some t1"
      "0 \<le> tm_year t1" "tm_year t1 \<le> 8099" by blast
    have "OPENSSL_gmtime_adj t0 a b = Some t1"
      using gmtime_r_spec(1,2) [OF t1(1)] t1(2,3) s0(2) by (simp add: gmtime_adj_eq [OF f o])
    then show ?thesis
      using True t0(1) t1 gmtime_r_spec(1,2) [OF t1(1)] by (simp add: shifted_time_def OPENSSL_gmtime_def)
  next
    case False
    then show ?thesis using t0 s0 u(1) by (simp add: shifted_time_def OPENSSL_gmtime_def)
  qed
qed

lemma fmt_d_2_digits: "\<lbrakk>0 \<le> n; n \<le> 99\<rbrakk> \<Longrightarrow> length (fmt_d 2 n) = 2 \<and> 0 \<notin> set (fmt_d 2 n)"
proof -
  assume n: "0 \<le> n" "n \<le> 99"
  have k: "nat n div 10 < 10" "nat n mod 10 < 10" using n(2) by simp_all
  have z: "\<not> is_digit 0" by (simp add: is_digit_def)
  show ?thesis using digit_of_nat(1) [OF k(1)] digit_of_nat(1) [OF k(2)] z unfolding fmt_d_2 [OF n] by auto
qed

lemma utc_text_shape: "\<lbrakk>fields_ok ts; 0 \<le> tm_year ts\<rbrakk> \<Longrightarrow> length (utc_text ts) = 13 \<and> 0 \<notin> set (utc_text ts)"
proof -
  assume v: "fields_ok ts" and y: "0 \<le> tm_year ts"
  have "tm_year ts smod 100 = tm_year ts mod 100" using y by (intro smod_nonneg) simp_all
  then have "0 \<le> tm_year ts smod 100" "tm_year ts smod 100 \<le> 99" by (simp_all add: zle_diff1_eq [of _ 100, symmetric])
  then show ?thesis using fields_digits [OF v] by (simp add: utc_text_def fmt_d_2_digits)
qed

lemma gen_text_shape: "fields_ok ts \<Longrightarrow> length (gen_text ts) = 15 \<and> 0 \<notin> set (gen_text ts)"
proof -
  assume v: "fields_ok ts"
  let ?y = "tm_year ts + 1900"
  have "0 \<le> ?y div 100" "?y div 100 \<le> 99" "0 \<le> ?y mod 100" "?y mod 100 \<le> 99"
    using fields_digits [OF v] zdiv_mono1 [of ?y 9999 100] by (simp_all add: pos_imp_zdiv_nonneg_iff zle_diff1_eq [of _ 100, symmetric])
  then show ?thesis using fields_digits [OF v] gen_text_numbers [OF v] by (simp add: gen_numbers_def fmt_d_2_digits)
qed

lemma put_time_spec:
  assumes "str_ok s" "grants h 28" "length out \<le> 19" "0 \<notin> set out"
  shows "\<exists>s' rest. put_time h s type out = Some s' \<and> str_bytes s' = out @ 0 # rest \<and> str_length s' = int (length out) \<and> str_type s' = type"
proof -
  have "\<exists>p. time_block h s 20 = Some p \<and> 20 \<le> length p"
  proof (cases "str_data s = None \<or> nat (str_length s mod 2 ^ 64) < 20")
    case True
    obtain b where "OPENSSL_malloc h 20 = Some b" using OPENSSL_malloc_Some_iff [of 20 h] assms(2) by auto
    then show ?thesis using OPENSSL_malloc_length [of 20 h b] True by (simp add: time_block_def)
  next
    case False
    then obtain d where d: "str_data s = Some d" by auto
    have "str_length s mod 2 ^ 64 \<le> str_length s" using assms(1) by (simp add: str_ok_def zmod_le_nonneg_dividend)
    moreover have "20 \<le> str_length s mod 2 ^ 64" using False by linarith
    moreover have "str_length s \<le> int (length d)" using d assms(1) by (simp add: str_ok_def str_bytes_def)
    ultimately have "20 \<le> length d" by linarith
    then show ?thesis using False d by (simp add: time_block_def)
  qed
  then obtain p where p: "time_block h s 20 = Some p" "20 \<le> length p" by blast
  have "BIO_snprintf p 20 out = out @ 0 # drop (length out + 1) p"
    using assms(3) p(2) by (simp add: BIO_snprintf_def mem_put_def)
  then show ?thesis
    using p(1) assms(4) c_strlen_append_zero [of out] by (simp add: put_time_def str_bytes_def)
qed

lemma new_or_given:
  assumes "target_ok s" "grants h 32"
  shows "\<exists>s1. (case s of None \<Rightarrow> ASN1_STRING_type_new h type | Some s0 \<Rightarrow> Some s0) = Some s1 \<and> str_ok s1"
proof (cases s)
  case None
  obtain b where "OPENSSL_malloc h 24 = Some b" using OPENSSL_malloc_Some_iff [of 24 h] assms(2) by auto
  then show ?thesis using None by (simp add: ASN1_STRING_type_new_def SIZEOF_ASN1_STRING_def str_ok_def)
qed (use assms(1) in \<open>simp add: target_ok_def\<close>)

lemma ASN1_TIME_adj_spec:
  assumes t: "- 62167219200 \<le> t" "t < 253402300800" and o: "offsets_ok a b"
    and u: "- 2208988800 \<le> t + 86400 * a + b" "t + 86400 * a + b < 253402300800"
    and s: "target_ok s" and g: "grants h 28" "grants h 32"
  shows "\<exists>s' tm. ASN1_TIME_adj h s t a b = Some s' \<and> asn1_time_to_tm now tm0 (Some s') = Got (Some tm) \<and>
    valid_tm tm \<and> tm_seconds tm = t + 86400 * a + b + EPOCH_SECONDS"
proof -
  from shifted_time_total [OF t o u] obtain ts where ts: "shifted_time t a b = Some ts" "valid_tm ts"
    "0 \<le> tm_year ts" "tm_year ts \<le> 8099" "tm_seconds ts = t + 86400 * a + b + EPOCH_SECONDS" by blast
  have f: "fields_ok ts" using valid_tm_fields [OF ts(2)] ts(3,4) by simp
  show ?thesis
  proof (cases "50 \<le> tm_year ts \<and> tm_year ts < 150")
    case True
    obtain s1 where s1: "(case s of None \<Rightarrow> ASN1_STRING_type_new h V_ASN1_UTCTIME | Some s0 \<Rightarrow> Some s0) = Some s1" "str_ok s1"
      using new_or_given [OF s g(2)] by blast
    note shape = utc_text_shape [OF f ts(3)]
    obtain s' rest where s': "put_time h s1 V_ASN1_UTCTIME (utc_text ts) = Some s'" "str_bytes s' = utc_text ts @ 0 # rest"
      "str_length s' = 13" "str_type s' = V_ASN1_UTCTIME"
      using put_time_spec [OF s1(2) g(1), of "utc_text ts" V_ASN1_UTCTIME] shape by auto
    have "asn1_utctime_to_tm (Some tm0) s' = Got (Some ts)"
      using utc_text_read [OF f _ _ s'(4,3,2)] True by simp
    then show ?thesis
      using ts True s1(1) s'(1,4) by (intro exI [of _ s'] exI [of _ ts]) (simp add: ASN1_TIME_adj_def ASN1_UTCTIME_adj_def asn1_time_to_tm_def)
  next
    case False
    obtain s1 where s1: "(case s of None \<Rightarrow> ASN1_STRING_type_new h V_ASN1_GENERALIZEDTIME | Some s0 \<Rightarrow> Some s0) = Some s1" "str_ok s1"
      using new_or_given [OF s g(2)] by blast
    note shape = gen_text_shape [OF f]
    obtain s' rest where s': "put_time h s1 V_ASN1_GENERALIZEDTIME (gen_text ts) = Some s'" "str_bytes s' = gen_text ts @ 0 # rest"
      "str_length s' = 15" "str_type s' = V_ASN1_GENERALIZEDTIME"
      using put_time_spec [OF s1(2) g(1), of "gen_text ts" V_ASN1_GENERALIZEDTIME] shape by auto
    have "asn1_generalizedtime_to_tm (Some tm0) s' = Got (Some ts)"
      by (rule gen_text_read [OF f s'(4,3,2)])
    moreover have "V_ASN1_GENERALIZEDTIME \<noteq> V_ASN1_UTCTIME" by (simp add: V_ASN1_GENERALIZEDTIME_def V_ASN1_UTCTIME_def)
    ultimately show ?thesis
      using ts False s1(1) s'(1,4) by (intro exI [of _ s'] exI [of _ ts]) (auto simp: ASN1_TIME_adj_def ASN1_GENERALIZEDTIME_adj_def asn1_time_to_tm_def)
  qed
qed

section \<open>What an accepted text gives\<close>

lemma time_field_digits: "time_field a l p lo hi = Got n \<Longrightarrow> is_digit (a ! p) \<and> is_digit (a ! (p + 1)) \<and> p + 1 < length a"
  by (simp add: time_reader_defs on_got_Got_iff split: if_splits)

lemma utc_fields_cases:
  assumes "utc_fields a l i p tm = Got (q, tm')"
  obtains "6 \<le> i" "q = p" "tm' = tm"
  | "i = 5" "p < length a" "is_zone (a ! p)" "q = p" "tm' = map_option (\<lambda>t. t\<lparr>tm_sec := 0\<rparr>) tm"
  | n where "i < 6" "p < length a" "\<not> (i = 5 \<and> is_zone (a ! p))" "time_field a l p (utc_min ! i) (utc_max ! i) = Got n"
      "utc_fields a l (i + 1) (p + 2) (map_option (utc_put i n) tm) = Got (q, tm')"
  using assms by (subst (asm) utc_fields.simps) (auto simp: on_got_Got_iff byte_at_def split: if_splits)

lemma gen_fields_cases:
  assumes "gen_fields a l i p tm = Got (q, tm')"
  obtains "7 \<le> i" "q = p" "tm' = tm"
  | "i = 6" "p < length a" "is_zone (a ! p)" "q = p" "tm' = map_option (\<lambda>t. t\<lparr>tm_sec := 0\<rparr>) tm"
  | n where "i < 7" "p < length a" "\<not> (i = 6 \<and> is_zone (a ! p))" "time_field a l p (gen_min ! i) (gen_max ! i) = Got n"
      "gen_fields a l (i + 1) (p + 2) (map_option (gen_put i n) tm) = Got (q, tm')"
  using assms by (subst (asm) gen_fields.simps) (auto simp: on_got_Got_iff byte_at_def split: if_splits)

lemma below_7: "(i :: nat) < 7 \<Longrightarrow> i = 0 \<or> i = 1 \<or> i = 2 \<or> i = 3 \<or> i = 4 \<or> i = 5 \<or> i = 6"
  by arith

text \<open>The members of \<open>struct tm\<close> written by the fields below \<open>i\<close>.\<close>

definition utc_below :: "nat \<Rightarrow> tm \<Rightarrow> bool" where
  "utc_below i tm \<longleftrightarrow> (0 < i \<longrightarrow> 50 \<le> tm_year tm \<and> tm_year tm \<le> 149) \<and> (1 < i \<longrightarrow> 0 \<le> tm_mon tm \<and> tm_mon tm \<le> 11) \<and>
     (2 < i \<longrightarrow> 1 \<le> tm_mday tm \<and> tm_mday tm \<le> 31) \<and> (3 < i \<longrightarrow> 0 \<le> tm_hour tm \<and> tm_hour tm \<le> 23) \<and>
     (4 < i \<longrightarrow> 0 \<le> tm_min tm \<and> tm_min tm \<le> 59) \<and> (5 < i \<longrightarrow> 0 \<le> tm_sec tm \<and> tm_sec tm \<le> 59)"

definition gen_below :: "nat \<Rightarrow> tm \<Rightarrow> bool" where
  "gen_below i tm \<longleftrightarrow> (0 < i \<longrightarrow> - 1900 \<le> tm_year tm \<and> tm_year tm \<le> 8099) \<and> (i = 1 \<longrightarrow> tm_year tm \<le> 8000) \<and>
     (2 < i \<longrightarrow> 0 \<le> tm_mon tm \<and> tm_mon tm \<le> 11) \<and>
     (3 < i \<longrightarrow> 1 \<le> tm_mday tm \<and> tm_mday tm \<le> 31) \<and> (4 < i \<longrightarrow> 0 \<le> tm_hour tm \<and> tm_hour tm \<le> 23) \<and>
     (5 < i \<longrightarrow> 0 \<le> tm_min tm \<and> tm_min tm \<le> 59) \<and> (6 < i \<longrightarrow> 0 \<le> tm_sec tm \<and> tm_sec tm \<le> 59)"

lemma utc_below_step: "\<lbrakk>i < 6; utc_below i tm; utc_min ! i \<le> n; n \<le> utc_max ! i\<rbrakk> \<Longrightarrow> utc_below (i + 1) (utc_put i n tm)"
proof -
  assume a: "i < 6" "utc_below i tm" "utc_min ! i \<le> n" "n \<le> utc_max ! i"
  then have "i < 7" by simp
  from below_7 [OF this] show ?thesis
    using a by (elim disjE) (simp_all add: utc_below_def utc_put_def utc_min_def utc_max_def)
qed

lemma gen_below_step: "\<lbrakk>i < 7; gen_below i tm; gen_min ! i \<le> n; n \<le> gen_max ! i\<rbrakk> \<Longrightarrow> gen_below (i + 1) (gen_put i n tm)"
proof -
  assume a: "i < 7" "gen_below i tm" "gen_min ! i \<le> n" "n \<le> gen_max ! i"
  then have "i < 7" by simp
  from below_7 [OF this] show ?thesis
    using a by (elim disjE) (simp_all add: gen_below_def gen_put_def gen_min_def gen_max_def)
qed

lemma below_fields: "utc_below 6 tm \<Longrightarrow> fields_ok tm" "gen_below 7 tm \<Longrightarrow> fields_ok tm"
  "utc_below 5 tm \<Longrightarrow> fields_ok (tm\<lparr>tm_sec := 0\<rparr>)" "gen_below 6 tm \<Longrightarrow> fields_ok (tm\<lparr>tm_sec := 0\<rparr>)"
  by (simp_all add: utc_below_def gen_below_def fields_ok_def clock_ok_def)

lemma utc_fields_ok:
  "\<lbrakk>utc_fields a l i p (Some tm) = Got (q, tm'); i \<le> 6; utc_below i tm\<rbrakk> \<Longrightarrow> \<exists>tm1. tm' = Some tm1 \<and> fields_ok tm1"
proof (induction "6 - i" arbitrary: i p tm)
  case 0
  then have "utc_fields a l 6 p (Some tm) = Got (q, tm')" "utc_below 6 tm" by simp_all
  then show ?case by (auto simp: utc_fields.simps [of a l 6] below_fields(1))
next
  case (Suc k)
  from Suc.prems(1) show ?case
  proof (cases rule: utc_fields_cases)
    case 1
    then show ?thesis using Suc.hyps(2) by simp
  next
    case 2
    then show ?thesis using Suc.prems(3) below_fields(3) by simp
  next
    case (3 n)
    have "k = 6 - (i + 1)" "i + 1 \<le> 6" using Suc.hyps(2) by simp_all
    then show ?thesis
      using Suc.hyps(1) [of "i + 1" "p + 2" "utc_put i n tm"] 3 utc_below_step [OF 3(1) Suc.prems(3)] time_field_Got [OF 3(4)] by simp
  qed
qed

lemma gen_fields_ok:
  "\<lbrakk>gen_fields a l i p (Some tm) = Got (q, tm'); i \<le> 7; gen_below i tm\<rbrakk> \<Longrightarrow> \<exists>tm1. tm' = Some tm1 \<and> fields_ok tm1"
proof (induction "7 - i" arbitrary: i p tm)
  case 0
  then have "gen_fields a l 7 p (Some tm) = Got (q, tm')" "gen_below 7 tm" by simp_all
  then show ?case by (auto simp: gen_fields.simps [of a l 7] below_fields(2))
next
  case (Suc k)
  from Suc.prems(1) show ?case
  proof (cases rule: gen_fields_cases)
    case 1
    then show ?thesis using Suc.hyps(2) by simp
  next
    case 2
    then show ?thesis using Suc.prems(3) below_fields(4) by simp
  next
    case (3 n)
    have "k = 7 - (i + 1)" "i + 1 \<le> 7" using Suc.hyps(2) by simp_all
    then show ?thesis
      using Suc.hyps(1) [of "i + 1" "p + 2" "gen_put i n tm"] 3 gen_below_step [OF 3(1) Suc.prems(3)] time_field_Got [OF 3(4)] by simp
  qed
qed

lemma zone_field_Got:
  "zone_field a p lo hi = Got n \<Longrightarrow> p + 1 < length a \<and> is_digit (a ! p) \<and> is_digit (a ! (p + 1)) \<and> lo \<le> n \<and> n \<le> hi"
  by (simp add: time_reader_defs on_got_Got_iff split: if_splits)

lemma zone_offset_ok:
  assumes "zone_offset a l b p 0 12 0 59 (Some tm) = Got (q, tm')" "fields_ok tm"
  shows "\<exists>tm1. tm' = Some tm1 \<and> fields_ok tm1"
proof -
  obtain h m where h: "zone_field a p 0 12 = Got h" and m: "zone_field a (p + 2) 0 59 = Got m" and
    r: "(let offsign = (if b = CH_MINUS then 1 else - 1); offset = h * 3600 + m * 60
         in if offset \<noteq> 0 then (case OPENSSL_gmtime_adj tm 0 (offset * offsign) of None \<Rightarrow> Bad | Some t' \<Rightarrow> Got (p + 4, Some t'))
            else Got (p + 4, Some tm)) = Got (q, tm')"
    using assms(1) by (auto simp: zone_offset_def on_got_Got_iff split: if_splits)
  define off where "off = (h * 3600 + m * 60) * (if b = CH_MINUS then 1 else - 1)"
  have "0 \<le> h * 3600 + m * 60" "h * 3600 + m * 60 \<le> 50000"
    using zone_field_Got [OF h] zone_field_Got [OF m] by simp_all
  then have o: "offsets_ok 0 off" by (simp add: offsets_ok_def off_def)
  consider t' where "OPENSSL_gmtime_adj tm 0 off = Some t'" "tm' = Some t'" | "tm' = Some tm"
    using r by (auto simp: Let_def off_def [symmetric] split: if_splits option.splits)
  then show ?thesis
  proof cases
    case 1
    then have "valid_tm t'" "0 \<le> tm_year t'" "tm_year t' \<le> 8099" using gmtime_adj_eq [OF assms(2) o, of t'] by simp_all
    then show ?thesis using 1(2) valid_tm_fields [of t'] by simp
  qed (use assms(2) in simp)
qed

text \<open>The ways in which a text can end: with \<open>Z\<close>, with an offset, or without a time zone.\<close>

definition text_end :: "u8 list \<Rightarrow> nat \<Rightarrow> nat \<Rightarrow> tm option \<Rightarrow> tm option \<Rightarrow> bool" where
  "text_end a l q tm1 r \<longleftrightarrow> q < length a \<and>
     (if a ! q = CH_Z then q + 1 = l \<and> r = tm1
      else if a ! q = CH_PLUS \<or> a ! q = CH_MINUS then zone_offset a l (a ! q) (q + 1) 0 12 0 59 tm1 = Got (l, r)
      else q = l \<and> r = tm1)"

lemma utc_reader_iff:
  "asn1_utctime_to_tm tm d = Got r \<longleftrightarrow>
    str_type d = V_ASN1_UTCTIME \<and> 11 \<le> str_length d \<and>
    (\<exists>q tm1. utc_fields (str_bytes d) (nat (str_length d)) 0 0 tm = Got (q, tm1) \<and>
      text_end (str_bytes d) (nat (str_length d)) q tm1 r)"
proof -
  let ?a = "str_bytes d" and ?l = "nat (str_length d)"
  have t: "utc_min ! 6 = 0" "utc_max ! 6 = 12" "utc_min ! 7 = 0" "utc_max ! 7 = 59" by (rule utc_table)+
  show ?thesis
  proof (cases "utc_fields ?a ?l 0 0 tm")
    case (Got x)
    obtain q tm1 where x: "x = (q, tm1)" by (cases x)
    show ?thesis
      unfolding asn1_utctime_to_tm_def Let_def Got x t text_end_def
      by (cases "zone_offset ?a ?l (?a ! q) (q + 1) 0 12 0 59 tm1") (auto simp: byte_at_def split: if_splits)
  qed (simp_all add: asn1_utctime_to_tm_def)
qed

lemma gen_reader_iff:
  "asn1_generalizedtime_to_tm tm d = Got r \<longleftrightarrow>
    str_type d = V_ASN1_GENERALIZEDTIME \<and> 13 \<le> str_length d \<and>
    (\<exists>p q tm1. gen_fields (str_bytes d) (nat (str_length d)) 0 0 tm = Got (p, tm1) \<and>
      gen_fraction (str_bytes d) (nat (str_length d)) p = Got q \<and>
      text_end (str_bytes d) (nat (str_length d)) q tm1 r \<and> (is_zone (str_bytes d ! q) \<or> str_bytes d ! q = 0))"
proof -
  let ?a = "str_bytes d" and ?l = "nat (str_length d)"
  have t: "gen_min ! 7 = 0" "gen_max ! 7 = 12" "gen_min ! 8 = 0" "gen_max ! 8 = 59" by (rule gen_table)+
  show ?thesis
  proof (cases "gen_fields ?a ?l 0 0 tm")
    case (Got x)
    obtain p tm1 where x: "x = (p, tm1)" by (cases x)
    show ?thesis
    proof (cases "gen_fraction ?a ?l p")
      case f: (Got q)
      show ?thesis
        unfolding asn1_generalizedtime_to_tm_def Let_def Got x t text_end_def on_got_simps prod.case f
        by (cases "zone_offset ?a ?l (?a ! q) (q + 1) 0 12 0 59 tm1") (auto simp: byte_at_def is_zone_def f split: if_splits)
    qed (simp_all add: asn1_generalizedtime_to_tm_def Got x)
  qed (simp_all add: asn1_generalizedtime_to_tm_def)
qed

lemma text_end_fields: "\<lbrakk>text_end a l q (Some tm) r; fields_ok tm\<rbrakk> \<Longrightarrow> \<exists>tm1. r = Some tm1 \<and> fields_ok tm1"
  using zone_offset_ok [of a l "a ! q" "q + 1" tm l r] by (auto simp: text_end_def split: if_splits)

lemma asn1_utctime_fields:
  "asn1_utctime_to_tm (Some tm0) d = Got tm \<Longrightarrow> \<exists>tm1. tm = Some tm1 \<and> fields_ok tm1"
  using utc_fields_ok [of _ _ 0 0 tm0] text_end_fields unfolding utc_reader_iff utc_below_def by fastforce

lemma asn1_generalizedtime_fields:
  "asn1_generalizedtime_to_tm (Some tm0) d = Got tm \<Longrightarrow> \<exists>tm1. tm = Some tm1 \<and> fields_ok tm1"
  using gen_fields_ok [of _ _ 0 0 tm0] text_end_fields unfolding gen_reader_iff gen_below_def by fastforce

lemma asn1_time_fields:
  assumes "asn1_time_to_tm now tm0 t = Got tm" "- 62167219200 \<le> now" "now < 253402300800"
  shows "\<exists>tm1. tm = Some tm1 \<and> fields_ok tm1"
proof (cases t)
  case None
  from gmtime_r_total [OF assms(2,3)] obtain n where n: "gmtime_r now = Some n" "- 1900 \<le> tm_year n" "tm_year n \<le> 8099" by blast
  have "fields_ok n" by (rule valid_tm_fields [OF gmtime_r_spec(1) [OF n(1)] n(2,3)])
  then show ?thesis using None n assms(1) by (intro exI [of _ n]) (simp add: asn1_time_to_tm_def OPENSSL_gmtime_def)
next
  case (Some s)
  then show ?thesis
    using assms(1) asn1_utctime_fields [of tm0 s tm] asn1_generalizedtime_fields [of tm0 s tm]
    by (auto simp: asn1_time_to_tm_def split: if_splits)
qed

lemma ASN1_TIME_diff_spec:
  assumes "asn1_time_to_tm now tm0 x = Got (Some a)" "asn1_time_to_tm now tm0 y = Got (Some b)"
    "- 62167219200 \<le> now" "now < 253402300800"
  shows "\<exists>d s. ASN1_TIME_diff now tm0 x y = Got (d, s) \<and> 86400 * d + s = tm_seconds b - tm_seconds a \<and>
    \<bar>s\<bar> < 86400 \<and> \<not> (0 < d \<and> s < 0) \<and> \<not> (d < 0 \<and> 0 < s)"
  using gmtime_diff_eq [of a b] asn1_time_fields [OF assms(1,3,4)] asn1_time_fields [OF assms(2,3,4)]
  by (auto simp: ASN1_TIME_diff_def assms(1,2))

section \<open>The conversion to \<open>GeneralizedTime\<close>\<close>

text \<open>An accepted text is at most 17 bytes, none of them a zero, and passes the check.\<close>

lemma digit_nonzero: "is_digit b \<Longrightarrow> b \<noteq> 0"
  by (auto simp: is_digit_def)

lemma utc_fields_shape:
  "\<lbrakk>utc_fields a l i p tm = Got (q, tm'); i \<le> 6\<rbrakk> \<Longrightarrow>
    p \<le> q \<and> q + 2 * i \<le> p + 12 \<and> (\<forall>k. p \<le> k \<and> k < q \<longrightarrow> a ! k \<noteq> 0) \<and> (p \<le> l \<longrightarrow> q \<le> l) \<and>
    utc_fields a l i p None = Got (q, None)"
proof (induction "6 - i" arbitrary: i p tm)
  case 0
  then have "utc_fields a l 6 p tm = Got (q, tm')" "i = 6" by simp_all
  then show ?case by (auto simp: utc_fields.simps [of a l 6])
next
  case (Suc k)
  from Suc.prems(1) show ?case
  proof (cases rule: utc_fields_cases)
    case 1
    then show ?thesis using Suc.hyps(2) by simp
  next
    case 2
    then have "utc_fields a l i p None = Got (q, None)" by (subst utc_fields.simps) (simp add: byte_at_def)
    then show ?thesis using 2 by auto
  next
    case (3 n)
    have k: "k = 6 - (i + 1)" "i + 1 \<le> 6" using Suc.hyps(2) by simp_all
    note ih = Suc.hyps(1) [OF k(1) 3(5) k(2)]
    have d: "a ! p \<noteq> 0" "a ! (p + 1) \<noteq> 0" using time_field_digits [OF 3(4)] digit_nonzero by simp_all
    have "a ! j \<noteq> 0" if "p \<le> j" "j < q" for j
    proof -
      have "j = p \<or> j = p + 1 \<or> p + 2 \<le> j" using that(1) by linarith
      then consider "j = p" | "j = p + 1" | "p + 2 \<le> j" by blast
      then show ?thesis by cases (use d ih that(2) in auto)
    qed
    moreover have "utc_fields a l i p None = Got (q, None)"
      using ih 3 by (subst utc_fields.simps) (simp add: byte_at_def)
    ultimately show ?thesis using ih time_field_Got [OF 3(4)] by auto
  qed
qed

lemma zone_offset_shape:
  assumes "zone_offset a l b p 0 12 0 59 tm = Got (q, r)"
  shows "q = p + 4" "q \<le> l" "\<forall>k. p \<le> k \<and> k < q \<longrightarrow> a ! k \<noteq> 0" "zone_offset a l b p 0 12 0 59 None = Got (q, None)"
proof -
  obtain h m where h: "zone_field a p 0 12 = Got h" and m: "zone_field a (p + 2) 0 59 = Got m" and l: "\<not> l < p + 4"
    using assms by (auto simp: zone_offset_def on_got_Got_iff split: if_splits)
  show q: "q = p + 4"
    using assms h m l by (auto simp: zone_offset_def Let_def split: option.splits if_splits)
  then show "q \<le> l" using l by simp
  show "zone_offset a l b p 0 12 0 59 None = Got (q, None)" using q h m l by (simp add: zone_offset_def)
  have d: "a ! p \<noteq> 0" "a ! (p + 1) \<noteq> 0" "a ! (p + 2) \<noteq> 0" "a ! (p + 3) \<noteq> 0"
    using zone_field_Got [OF h] zone_field_Got [OF m] digit_nonzero by (simp_all add: eval_nat_numeral)
  show "\<forall>k. p \<le> k \<and> k < q \<longrightarrow> a ! k \<noteq> 0"
  proof (intro allI impI)
    fix k
    assume k: "p \<le> k \<and> k < q"
    then have "k = p \<or> k = p + 1 \<or> k = p + 2 \<or> k = p + 3" using q by linarith
    then consider "k = p" | "k = p + 1" | "k = p + 2" | "k = p + 3" by blast
    then show "a ! k \<noteq> 0" using d by cases simp_all
  qed
qed

lemma utc_accepted:
  assumes "asn1_utctime_to_tm tm d = Got r"
  shows "str_length d \<le> 17" "\<forall>k < nat (str_length d). str_bytes d ! k \<noteq> 0" "ASN1_UTCTIME_check d = Got True"
proof -
  let ?a = "str_bytes d" and ?l = "nat (str_length d)"
  obtain q tm1 where u: "utc_fields ?a ?l 0 0 tm = Got (q, tm1)" and e: "text_end ?a ?l q tm1 r"
    and h: "str_type d = V_ASN1_UTCTIME" "11 \<le> str_length d"
    using assms unfolding utc_reader_iff by blast
  note s = utc_fields_shape [OF u]
  have e2: "?l \<le> 17 \<and> (\<forall>k < ?l. ?a ! k \<noteq> 0) \<and> text_end ?a ?l q None None"
  proof (cases "?a ! q = CH_PLUS \<or> ?a ! q = CH_MINUS")
    case True
    then have z: "zone_offset ?a ?l (?a ! q) (q + 1) 0 12 0 59 tm1 = Got (?l, r)" and q: "q < length ?a"
      using e by (auto simp: text_end_def)
    note zs = zone_offset_shape [OF z]
    have "?a ! k \<noteq> 0" if "k < ?l" for k
    proof -
      have "k < q \<or> k = q \<or> q + 1 \<le> k" by linarith
      then consider "k < q" | "k = q" | "q + 1 \<le> k" by blast
      then show ?thesis by cases (use s zs(3) True that in auto)
    qed
    then show ?thesis using zs(1,4) s True q by (auto simp: text_end_def)
  next
    case False
    then have "?l \<le> 17" "text_end ?a ?l q None None" and l: "(?a ! q = CH_Z \<and> ?l = q + 1) \<or> ?l = q"
      using e s by (auto simp: text_end_def split: if_splits)
    moreover have "?a ! k \<noteq> 0" if "k < ?l" for k
    proof -
      have "k < q \<or> k = q \<and> ?a ! q = CH_Z" using l that by auto
      then consider "k < q" | "k = q" "?a ! q = CH_Z" by blast
      then show ?thesis by cases (use s in auto)
    qed
    ultimately show ?thesis by blast
  qed
  then show "str_length d \<le> 17" "\<forall>k < ?l. ?a ! k \<noteq> 0" using h(2) by (simp_all add: nat_le_iff)
  have "asn1_utctime_to_tm None d = Got None"
    unfolding utc_reader_iff using e2 s h by auto
  then show "ASN1_UTCTIME_check d = Got True" by (simp add: ASN1_UTCTIME_check_def)
qed

text \<open>Two bytes in front of the text: the block \<open>a'\<close> holds at \<open>k + 2\<close> what \<open>a\<close> holds at \<open>k\<close>.\<close>

definition shifted_block :: "nat \<Rightarrow> u8 list \<Rightarrow> u8 list \<Rightarrow> bool" where
  "shifted_block l a a' \<longleftrightarrow> l < length a \<and> l + 2 < length a' \<and> (\<forall>k \<le> l. a' ! (k + 2) = a ! k)"

lemma shifted_byte: "\<lbrakk>shifted_block l a a'; k \<le> l\<rbrakk> \<Longrightarrow> byte_at a' (k + 2) = byte_at a k"
  by (simp add: shifted_block_def byte_at_def)

lemma shifted_field:
  assumes "shifted_block l a a'" "p \<le> l"
  shows "time_field a' (l + 2) (p + 2) lo hi = time_field a l p lo hi"
proof (cases "l < p + 1")
  case True
  then show ?thesis using shifted_byte [OF assms] by (cases "byte_at a p") (simp_all add: time_field_def)
next
  case False
  then have e: "byte_at a' (p + 2 + 1) = byte_at a (p + 1)"
    using shifted_byte [OF assms(1), of "p + 1"] by simp
  have c: "l + 2 < p + 2 + 1 \<longleftrightarrow> l < p + 1" "l + 2 < p + 2 + 2 \<longleftrightarrow> l < p + 2" by simp_all
  show ?thesis unfolding time_field_def e c shifted_byte [OF assms] ..
qed

lemma shifted_zone:
  assumes b: "shifted_block l a a'" and z: "zone_offset a l c p 0 12 0 59 tm = Got (q, r)"
  shows "zone_offset a' (l + 2) c (p + 2) 0 12 0 59 tm = Got (q + 2, r)"
proof -
  have l: "\<not> l < p + 4" using zone_offset_shape(1,2) [OF z] by simp
  have f: "zone_field a' (k + 2) lo hi = zone_field a k lo hi" if "k + 1 \<le> l" for k lo hi
  proof -
    have "byte_at a' (k + 2 + 1) = byte_at a (k + 1)" "byte_at a' (k + 2) = byte_at a k"
      using shifted_byte [OF b, of k] shifted_byte [OF b, of "k + 1"] that by simp_all
    then show ?thesis unfolding zone_field_def by (simp only:)
  qed
  have f1: "zone_field a' (p + 2) 0 12 = zone_field a p 0 12" "zone_field a' (p + 2 + 2) 0 59 = zone_field a (p + 2) 0 59"
    using f [of p] f [of "p + 2"] l by simp_all
  obtain h m where h: "zone_field a p 0 12 = Got h" and m: "zone_field a (p + 2) 0 59 = Got m"
    using z by (auto simp: zone_offset_def on_got_Got_iff split: if_splits)
  have e: "p + 2 + 4 = p + 4 + 2" "\<not> l + 2 < p + 4 + 2" using l by simp_all
  show ?thesis
  proof (cases tm)
    case None
    then show ?thesis using z l h m e unfolding zone_offset_def f1 e by simp
  next
    case (Some t)
    let ?off = "(h * 3600 + m * 60) * (if c = CH_MINUS then 1 else - 1)"
    show ?thesis
      using z l h m e(2) unfolding zone_offset_def f1 e(1) Some
      by (cases "OPENSSL_gmtime_adj t 0 ?off"; cases "h * 3600 + m * 60 = 0") (auto simp: Let_def split: option.splits)
  qed
qed

lemma gen_put_Suc: "\<lbrakk>1 \<le> i; i < 6\<rbrakk> \<Longrightarrow> gen_put (i + 1) = utc_put i"
  using below_7 [of i] by (auto simp: gen_put_def utc_put_def fun_eq_iff)

lemma table_Suc: "i < 6 \<Longrightarrow> gen_min ! (i + 1) = utc_min ! i" "i < 6 \<Longrightarrow> gen_max ! (i + 1) = utc_max ! i"
  using below_7 [of i] by (auto simp: gen_min_def utc_min_def gen_max_def utc_max_def)

lemma shifted_fields:
  "\<lbrakk>shifted_block l a a'; utc_fields a l i p tm = Got (q, tm'); 1 \<le> i; i \<le> 6; p \<le> l\<rbrakk> \<Longrightarrow>
    gen_fields a' (l + 2) (i + 1) (p + 2) tm = Got (q + 2, tm')"
proof (induction "6 - i" arbitrary: i p tm)
  case 0
  then have "utc_fields a l 6 p tm = Got (q, tm')" "i = 6" by simp_all
  then show ?case by (simp add: utc_fields.simps [of a l 6] gen_fields.simps [of _ _ 7])
next
  case (Suc k)
  have i: "i < 6" using Suc.hyps(2) by simp
  note b = shifted_byte [OF Suc.prems(1,5)]
  from Suc.prems(2) show ?case
  proof (cases rule: utc_fields_cases)
    case 1
    then show ?thesis using i by simp
  next
    case 2
    then show ?thesis using b by (subst gen_fields.simps) (simp add: byte_at_def [of a])
  next
    case (3 n)
    have k: "k = 6 - (i + 1)" "1 \<le> i + 1" "i + 1 \<le> 6" using Suc.hyps(2) by simp_all
    have "p + 2 \<le> l" using time_field_Got [OF 3(4)] by simp
    note ih = Suc.hyps(1) [OF k(1) Suc.prems(1) 3(5) k(2,3) this]
    show ?thesis
      unfolding gen_fields.simps [of a' "l + 2" "i + 1"] b shifted_field [OF Suc.prems(1,5)] table_Suc [OF i] gen_put_Suc [OF Suc.prems(3) i]
      using ih 3 i by (auto simp: byte_at_def [of a])
  qed
qed

text \<open>The text of the converted time and what its reader makes of it.\<close>

lemma digit_value: "is_digit b \<Longrightarrow> 53 \<le> b \<longleftrightarrow> 5 \<le> digit_val b"
  by (simp add: is_digit_def digit_val_def word_le_def)

lemma digit_val_bounds: "is_digit b \<Longrightarrow> 0 \<le> digit_val b \<and> digit_val b \<le> 9"
  by (simp add: is_digit_def digit_val_def word_le_def)

lemma converted_read:
  assumes r: "asn1_utctime_to_tm (Some tm0) t = Got (Some tm)" and tm_end: "terminated t"
    and d: "str_type d = V_ASN1_GENERALIZEDTIME" "str_length d = str_length t + 2"
      "str_bytes d = (if 53 \<le> hd (str_bytes t) then [49, 57] else [50, 48]) @ take (nat (str_length t)) (str_bytes t) @ 0 # rest"
  shows "asn1_generalizedtime_to_tm (Some tm0) d = Got (Some tm)"
proof -
  let ?a = "str_bytes t" and ?l = "nat (str_length t)" and ?a' = "str_bytes d"
  obtain q tm1 where u: "utc_fields ?a ?l 0 0 (Some tm0) = Got (q, tm1)" and e: "text_end ?a ?l q tm1 (Some tm)"
    and h: "11 \<le> str_length t"
    using r unfolding utc_reader_iff by blast
  have l: "?l < length ?a" "?a ! ?l = 0" "nat (str_length d) = ?l + 2" using tm_end h d(2) by (simp_all add: terminated_def nat_add_distrib)
  have b: "shifted_block ?l ?a ?a'"
    unfolding shifted_block_def d(3) using l(1,2) by (auto simp: nth_append le_less)
  from u obtain n where n: "time_field ?a ?l 0 0 99 = Got n"
    and u1: "utc_fields ?a ?l 1 2 (Some (utc_put 0 n tm0)) = Got (q, tm1)"
    by (cases rule: utc_fields_cases) (simp_all add: utc_min_def utc_max_def numeral_2_eq_2)
  obtain x y where xy: "is_digit x" "is_digit y" "n = digit_val x * 10 + digit_val y" "hd ?a = x"
  proof -
    have "?a \<noteq> []" using l(1) by auto
    then have "hd ?a = ?a ! 0" by (rule hd_conv_nth)
    then show ?thesis
      using n that by (auto simp: time_field_def byte_at_def on_got_Got_iff Let_def split: if_splits)
  qed
  define c where "c = (if 53 \<le> x then 19 else (20 :: int))"
  have lead: "time_field ?a' (?l + 2) 0 0 99 = Got c"
    unfolding time_field_def byte_at_def d(3) xy(4) c_def Let_def by (simp add: is_digit_def digit_val_def)
  have year: "n < 50 \<longleftrightarrow> \<not> 53 \<le> x"
    using digit_value [OF xy(1)] digit_val_bounds [OF xy(1)] digit_val_bounds [OF xy(2)] xy(3) by auto
  have put: "gen_put 1 n (gen_put 0 c tm0) = utc_put 0 n tm0"
    using year by (simp add: gen_put_def utc_put_def c_def)
  have f1: "gen_fields ?a' (?l + 2) 2 4 (Some (utc_put 0 n tm0)) = Got (q + 2, tm1)"
    using shifted_fields [OF b u1] time_field_Got [OF n] by (simp add: eval_nat_numeral)
  have "11 \<le> ?l" using h by linarith
  moreover have "?l + 2 < length ?a'" using b by (simp add: shifted_block_def)
  ultimately have len: "4 \<le> length ?a'" by linarith
  have n': "time_field ?a' (?l + 2) 2 0 99 = Got n" using shifted_field [OF b, of 0] n by (simp add: numeral_2_eq_2)
  have "gen_fields ?a' (?l + 2) 1 2 (Some (gen_put 0 c tm0)) = Got (q + 2, tm1)"
    using f1 n' put len by (subst gen_fields.simps) (simp add: byte_at_def gen_min_def gen_max_def eval_nat_numeral)
  then have f: "gen_fields ?a' (?l + 2) 0 0 (Some tm0) = Got (q + 2, tm1)"
    using lead len by (subst gen_fields.simps) (auto simp: byte_at_def gen_min_def gen_max_def eval_nat_numeral)
  have q: "q \<le> ?l" using utc_fields_shape [OF u] by simp
  have bq: "?a' ! (q + 2) = ?a ! q" using b q by (simp add: shifted_block_def)
  have end_case: "is_zone (?a ! q) \<or> ?a ! q = 0" using e l(2) by (auto simp: text_end_def is_zone_def split: if_splits)
  then have frac: "gen_fraction ?a' (?l + 2) (q + 2) = Got (q + 2)"
    using b q bq by (auto simp: gen_fraction_def byte_at_def shifted_block_def is_zone_def)
  have len': "q + 2 < length ?a'" using b q by (simp add: shifted_block_def)
  have "text_end ?a' (?l + 2) (q + 2) tm1 (Some tm)"
  proof (cases "?a ! q = CH_PLUS \<or> ?a ! q = CH_MINUS")
    case True
    then have "zone_offset ?a ?l (?a ! q) (q + 1) 0 12 0 59 tm1 = Got (?l, Some tm)" using e by (auto simp: text_end_def)
    from shifted_zone [OF b this] have "zone_offset ?a' (?l + 2) (?a ! q) (q + 2 + 1) 0 12 0 59 tm1 = Got (?l + 2, Some tm)"
      by (simp add: numeral_2_eq_2)
    then show ?thesis using True len' unfolding text_end_def bq by auto
  next
    case False
    then show ?thesis using e len' unfolding text_end_def bq by (auto split: if_splits)
  qed
  then show ?thesis
    unfolding gen_reader_iff l(3) using d(1,2) h f frac end_case bq by (auto simp del: add_2_eq_Suc')
qed

definition gen_target_ok :: "asn1_string option \<Rightarrow> bool" where
  "gen_target_ok out = (case out of None \<Rightarrow> True | Some r \<Rightarrow> str_ok r \<and> str_type r = V_ASN1_GENERALIZEDTIME)"

lemma strlcat_two:
  assumes "x \<noteq> 0" "y \<noteq> 0" "0 \<notin> set s" "length s + 3 \<le> length b"
  shows "\<exists>rest n. (case OPENSSL_strlcpy b [x, y, 0] (length s + 3) of
      None \<Rightarrow> None | Some (s1, _) \<Rightarrow> OPENSSL_strlcat s1 (s @ 0 # z) (length s + 3)) = Some (x # y # s @ 0 # rest, n)"
proof -
  have c: "OPENSSL_strlcpy b [x, y, 0] (length s + 3) = Some (x # y # 0 # drop 3 b, 2)"
    using OPENSSL_strlcpy_eq [of "[x, y]" "length s + 3" b "[]"] assms by (simp add: eval_nat_numeral)
  have "OPENSSL_strlcpy (0 # drop 3 b) (s @ 0 # z) (length s + 1) = Some (s @ 0 # drop (Suc (length s)) (0 # drop 3 b), length s)"
    using OPENSSL_strlcpy_eq [OF assms(3), of "length s + 1" "0 # drop 3 b" z] assms(4) by (simp add: Let_def)
  then show ?thesis
    unfolding c using assms(1,2) by (simp add: numeral_3_eq_3)
qed

lemma to_generalizedtime_spec:
  assumes r: "asn1_utctime_to_tm (Some tm0) t = Got (Some tm)" and e: "terminated t"
    and out: "gen_target_ok out" and g: "grants h 32" "grants h (nat (str_length t) + 11)"
  shows "\<exists>d. ASN1_TIME_to_generalizedtime h t out = Got d \<and> str_type d = V_ASN1_GENERALIZEDTIME \<and>
    asn1_generalizedtime_to_tm (Some tm0) d = Got (Some tm)"
proof -
  let ?l = "nat (str_length t)" and ?a = "str_bytes t"
  note acc = utc_accepted [OF r]
  have ty: "str_type t = V_ASN1_UTCTIME" "V_ASN1_UTCTIME \<noteq> V_ASN1_GENERALIZEDTIME" "11 \<le> str_length t"
    using r unfolding utc_reader_iff by (auto simp: V_ASN1_UTCTIME_def V_ASN1_GENERALIZEDTIME_def)
  have chk: "ASN1_TIME_check t = Got True" using ty acc(3) by (simp add: ASN1_TIME_check_def)
  obtain ret where ret: "(case out of None \<Rightarrow> ASN1_STRING_type_new h V_ASN1_GENERALIZEDTIME | Some r \<Rightarrow> Some r) = Some ret"
    "str_ok ret" "str_type ret = V_ASN1_GENERALIZEDTIME"
  proof (cases out)
    case None
    obtain b where "OPENSSL_malloc h 24 = Some b" using OPENSSL_malloc_Some_iff [of 24 h] g(1) by auto
    then show ?thesis
      using None that by (simp add: ASN1_STRING_type_new_def SIZEOF_ASN1_STRING_def str_ok_def)
  qed (use out that in \<open>simp add: gen_target_ok_def\<close>)
  have sz: "0 \<le> str_length t + 2" "str_length t + 2 < 2 ^ 31 - 1" "nat (str_length t + 2) + 9 = ?l + 11"
    using ty(3) acc(1) by simp_all
  obtain b where b: "ensure_block h ret (str_length t + 2) = Some b" "nat (str_length t + 2) < length b"
    using ensure_block_spec [OF ret(2) sz(1,2), of h] g(2) unfolding sz(3) by (cases "ensure_block h ret (str_length t + 2)") auto
  define ret' where "ret' = ret\<lparr>str_data := Some b, str_length := str_length t + 2\<rparr>"
  have set: "ASN1_STRING_set h ret None (str_length t + 2) = Some (True, ret')"
    using b(1) sz(1) by (simp add: ASN1_STRING_set_def set_length_def ret'_def)
  have a: "?a = take ?l ?a @ 0 # drop (?l + 1) ?a" "?l < length ?a"
    using e id_take_nth_drop [of ?l ?a] by (simp_all add: terminated_def)
  then obtain x xs where x: "str_data t = Some (x # xs)" "x = hd ?a"
    using ty(3) by (cases "str_data t"; cases ?a) (auto simp: str_bytes_def)
  have xa: "x # xs = take ?l ?a @ 0 # drop (?l + 1) ?a" using a(1) x(1) by (simp add: str_bytes_def)
  have nz: "0 \<notin> set (take ?l ?a)" using acc(2) a(2) by (auto simp: in_set_conv_nth)
  have n: "nat (str_length t + 2 + 1) = length (take ?l ?a) + 3" "length (take ?l ?a) + 3 \<le> length b"
    using a(2) b(2) ty(3) by simp_all
  define c where "c = (if 53 \<le> x then [49, 57, 0] else [50, 48, 0 :: u8])"
  obtain c1 c2 where c: "c = [c1, c2, 0]" "c1 \<noteq> 0" "c2 \<noteq> 0" "[c1, c2] = (if 53 \<le> x then [49, 57] else [50, 48])"
    by (cases "53 \<le> x") (auto simp: c_def)
  obtain s1 k rest m where cp: "OPENSSL_strlcpy b c (nat (str_length t + 2 + 1)) = Some (s1, k)"
    and cat: "OPENSSL_strlcat s1 (x # xs) (nat (str_length t + 2 + 1)) = Some (c1 # c2 # take ?l ?a @ 0 # rest, m)"
    using strlcat_two [OF c(2,3) nz n(2), of "drop (?l + 1) ?a"] unfolding n(1) xa c(1) by (auto split: option.splits)
  let ?d = "ret'\<lparr>str_data := Some (c1 # c2 # take ?l ?a @ 0 # rest)\<rparr>"
  have "to_gen_text t ret' = Got ?d"
    using cp cat unfolding to_gen_text_def x(1) by (simp add: Let_def c_def [symmetric] ret'_def str_bytes_def)
  then have res: "ASN1_TIME_to_generalizedtime h t out = Got ?d"
    using chk ret(1) ty(1,2) set by (simp add: ASN1_TIME_to_generalizedtime_def)
  have ty': "str_type ?d = V_ASN1_GENERALIZEDTIME" using ret(3) by (simp add: ret'_def)
  have "asn1_generalizedtime_to_tm (Some tm0) ?d = Got (Some tm)"
    by (rule converted_read [OF r e ty']) (use c(4) x(2) in \<open>auto simp: ret'_def str_bytes_def\<close>)
  then show ?thesis using res ty' by blast
qed

section \<open>The main results\<close>

text \<open>
  C31: Setting a time and reading it back gives the same instant, to the second: \<open>ASN1_TIME_adj\<close> succeeds
  whenever the instant asked for lies in the years 1900 to 9999 and the two allocations are granted,
  whether the text becomes a \<open>UTCTime\<close> or a \<open>GeneralizedTime\<close>, and the reader returns the valid time
  that is the given \<open>time_t\<close> plus the offset. The \<open>time_t\<close> itself lies in the years 0 to 9999, and the offset
  is at most 1000000000 days and 1000000000 days of seconds either way (\<open>offsets_ok\<close>). From 24856 days of
  seconds on a product in \<open>julian_adj\<close> overflows its \<open>int\<close> (see \<open>OPENSSL_gmtime_adj\<close>): undefined in C,
  while the model wraps, so there the claim is about machines that wrap.
\<close>

theorem ASN1_TIME_adj_reads_back:
  assumes "- 62167219200 \<le> t" "t < 253402300800" "offsets_ok offset_day offset_sec"
    and "- 2208988800 \<le> t + 86400 * offset_day + offset_sec" "t + 86400 * offset_day + offset_sec < 253402300800"
    and "target_ok s" "grants h 28" "grants h 32"
  shows "\<exists>s' tm. ASN1_TIME_adj h s t offset_day offset_sec = Some s' \<and> asn1_time_to_tm now tm0 (Some s') = Got (Some tm) \<and>
    valid_tm tm \<and> tm_seconds tm = t + 86400 * offset_day + offset_sec + EPOCH_SECONDS"
  by (rule ASN1_TIME_adj_spec [OF assms])

definition any_tm :: tm where
  "any_tm = \<lparr>tm_sec = 7, tm_min = 7, tm_hour = 7, tm_mday = 7, tm_mon = 7, tm_year = 7\<rparr>"

theorem ASN1_TIME_adj_reads_back_witness:
  "\<exists>s' tm. ASN1_TIME_adj all_grants None 1700000000 30000 86399 = Some s' \<and>
    asn1_time_to_tm 0 any_tm (Some s') = Got (Some tm) \<and> valid_tm tm \<and> tm_seconds tm = 4292086399 + EPOCH_SECONDS"
proof -
  have "offsets_ok 30000 86399" "target_ok None" "grants all_grants 28" "grants all_grants 32"
    by (simp_all add: offsets_ok_def target_ok_def all_grants_def)
  then show ?thesis
    using ASN1_TIME_adj_reads_back [of 1700000000 30000 86399 None all_grants 0 any_tm] by simp
qed

text \<open>
  C32: The difference of two times is exact: \<open>ASN1_TIME_diff\<close> never fails on two times that the readers
  accept (a null pointer is the current time), the days and seconds it returns add up to the
  difference in seconds, the seconds are less than a day and the two have the same sign.
\<close>

theorem ASN1_TIME_diff_exact:
  assumes "asn1_time_to_tm now tm0 from_t = Got (Some a)" "asn1_time_to_tm now tm0 to_t = Got (Some b)"
    and "- 62167219200 \<le> now" "now < 253402300800"
  shows "\<exists>days secs. ASN1_TIME_diff now tm0 from_t to_t = Got (days, secs) \<and>
    86400 * days + secs = tm_seconds b - tm_seconds a \<and> \<bar>secs\<bar> < 86400 \<and>
    \<not> (0 < days \<and> secs < 0) \<and> \<not> (days < 0 \<and> 0 < secs)"
  by (rule ASN1_TIME_diff_spec [OF assms])

definition tm_1970 :: tm where
  "tm_1970 = \<lparr>tm_sec = 0, tm_min = 0, tm_hour = 0, tm_mday = 1, tm_mon = 0, tm_year = 70\<rparr>"

definition tm_1999 :: tm where
  "tm_1999 = \<lparr>tm_sec = 59, tm_min = 59, tm_hour = 23, tm_mday = 31, tm_mon = 11, tm_year = 99\<rparr>"

lemma example_fields: "fields_ok tm_1970" "fields_ok tm_1999"
  by (simp_all add: tm_1970_def tm_1999_def fields_ok_def clock_ok_def)

lemma text_string_read:
  "\<lbrakk>fields_ok ts; 50 \<le> tm_year ts; tm_year ts < 150\<rbrakk> \<Longrightarrow>
    asn1_utctime_to_tm (Some tm0) (text_string (utc_text ts @ [0]) 13 V_ASN1_UTCTIME) = Got (Some ts)"
  by (rule utc_text_read) (simp_all add: text_string_def str_bytes_def)

theorem ASN1_TIME_diff_exact_witness:
  "\<exists>days secs. ASN1_TIME_diff 0 any_tm (Some (text_string (utc_text tm_1999 @ [0]) 13 V_ASN1_UTCTIME))
      (Some (text_string (utc_text tm_1970 @ [0]) 13 V_ASN1_UTCTIME)) = Got (days, secs) \<and>
    86400 * days + secs = tm_seconds tm_1970 - tm_seconds tm_1999 \<and> \<bar>secs\<bar> < 86400 \<and>
    \<not> (0 < days \<and> secs < 0) \<and> \<not> (days < 0 \<and> 0 < secs)"
proof (rule ASN1_TIME_diff_exact)
  show "asn1_time_to_tm 0 any_tm (Some (text_string (utc_text tm_1999 @ [0]) 13 V_ASN1_UTCTIME)) = Got (Some tm_1999)"
    using text_string_read [OF example_fields(2), of any_tm] by (simp add: asn1_time_to_tm_def text_string_def tm_1999_def)
  show "asn1_time_to_tm 0 any_tm (Some (text_string (utc_text tm_1970 @ [0]) 13 V_ASN1_UTCTIME)) = Got (Some tm_1970)"
    using text_string_read [OF example_fields(1), of any_tm] by (simp add: asn1_time_to_tm_def text_string_def tm_1970_def)
qed simp_all

text \<open>
  C33: Converting a \<open>UTCTime\<close> to a \<open>GeneralizedTime\<close> keeps the time: for every text the reader accepts,
  with seconds or without and with any time zone, \<open>ASN1_TIME_to_generalizedtime\<close> succeeds when its
  allocations do and the reader of \<open>GeneralizedTime\<close> makes the same \<open>struct tm\<close> of the result.
\<close>

theorem to_generalizedtime_keeps_time:
  assumes "asn1_utctime_to_tm (Some tm0) t = Got (Some tm)" "terminated t"
    and "gen_target_ok out" "grants h 32" "grants h (nat (str_length t) + 11)"
  shows "\<exists>d. ASN1_TIME_to_generalizedtime h t out = Got d \<and> str_type d = V_ASN1_GENERALIZEDTIME \<and>
    asn1_generalizedtime_to_tm (Some tm0) d = Got (Some tm)"
  by (rule to_generalizedtime_spec [OF assms])

lemma example_terminated: "terminated (text_string (utc_text tm_1999 @ [0]) 13 V_ASN1_UTCTIME)"
proof -
  have "0 \<le> tm_year tm_1999" by (simp add: tm_1999_def)
  from utc_text_shape [OF example_fields(2) this] show ?thesis
    unfolding terminated_def text_string_def str_bytes_def by (simp add: nth_append)
qed

theorem to_generalizedtime_keeps_time_witness:
  "\<exists>d. ASN1_TIME_to_generalizedtime all_grants (text_string (utc_text tm_1999 @ [0]) 13 V_ASN1_UTCTIME) None = Got d \<and>
    str_type d = V_ASN1_GENERALIZEDTIME \<and> asn1_generalizedtime_to_tm (Some any_tm) d = Got (Some tm_1999)"
proof (rule to_generalizedtime_keeps_time)
  show "asn1_utctime_to_tm (Some any_tm) (text_string (utc_text tm_1999 @ [0]) 13 V_ASN1_UTCTIME) = Got (Some tm_1999)"
    by (rule text_string_read [OF example_fields(2)]) (simp_all add: tm_1999_def)
  show "terminated (text_string (utc_text tm_1999 @ [0]) 13 V_ASN1_UTCTIME)" by (rule example_terminated)
qed (simp_all add: gen_target_ok_def all_grants_def text_string_def)

text \<open>
  C40: The time readers stay inside the block behind the string, for any contents, when a zero byte
  follows the contents (as \<open>ASN1_STRING_set\<close> leaves it): neither reader reads past the end, nor does
  \<open>ASN1_TIME_check\<close>, whether a \<open>struct tm\<close> is to be filled or not.
\<close>

theorem time_readers_stay_in_block:
  assumes "terminated d"
  shows "asn1_utctime_to_tm tm d \<noteq> Past_end \<and> asn1_generalizedtime_to_tm tm d \<noteq> Past_end \<and> ASN1_TIME_check d \<noteq> Past_end"
proof -
  have "ASN1_TIME_check d \<noteq> Past_end"
    using asn1_utctime_in_bounds [OF assms, of None] asn1_generalizedtime_in_bounds [OF assms, of None]
    by (auto simp: ASN1_TIME_check_def ASN1_UTCTIME_check_def ASN1_GENERALIZEDTIME_check_def split: read.splits)
  then show ?thesis
    using asn1_utctime_in_bounds [OF assms] asn1_generalizedtime_in_bounds [OF assms] by blast
qed

text \<open>A text that ends after a full stop, where the loop over the fraction starts at the terminator.\<close>

theorem time_readers_stay_in_block_witness:
  "asn1_utctime_to_tm None (text_string (replicate 14 48 @ [46, 0]) 15 V_ASN1_GENERALIZEDTIME) \<noteq> Past_end \<and>
    asn1_generalizedtime_to_tm None (text_string (replicate 14 48 @ [46, 0]) 15 V_ASN1_GENERALIZEDTIME) \<noteq> Past_end \<and>
    ASN1_TIME_check (text_string (replicate 14 48 @ [46, 0]) 15 V_ASN1_GENERALIZEDTIME) \<noteq> Past_end"
  by (rule time_readers_stay_in_block) (simp add: terminated_def text_string_def str_bytes_def nth_append)

section \<open>Where the code does less than it says\<close>

text \<open>Without the terminator the readers look at the byte after the contents.\<close>

lemma unterminated_text_is_overread:
  assumes "fields_ok ts" "50 \<le> tm_year ts" "tm_year ts < 150"
  shows "asn1_utctime_to_tm (Some tm0) \<lparr>str_length = 12, str_type = V_ASN1_UTCTIME,
    str_data = Some (digit_text (utc_numbers ts)), str_flags = 0\<rparr> = Past_end"
proof -
  let ?a = "digit_text (utc_numbers ts)"
  have a: "?a = digit_text (utc_numbers ts) @ []" by simp
  note u = utc_digits_read(1) [OF assms _ a, of 12 tm0] utc_digits_read(2) [OF assms _ a, of 12]
  have "byte_at ?a 12 = Past_end" using u(2) by (simp add: byte_at_def)
  then show ?thesis using u(1) by (simp add: asn1_utctime_to_tm_def str_bytes_def)
qed

text \<open>A \<open>GeneralizedTime\<close> that ends after the seconds, without a time zone, is accepted.\<close>

lemma missing_time_zone_accepted:
  assumes "fields_ok ts"
  shows "asn1_generalizedtime_to_tm (Some tm0) (text_string (digit_text (gen_numbers ts) @ [0]) 14 V_ASN1_GENERALIZEDTIME) = Got (Some ts)"
proof -
  let ?a = "digit_text (gen_numbers ts) @ [0 :: u8]"
  note u = gen_digits_read(1) [OF assms _ refl, of 14 "[0]" tm0] gen_digits_read(2) [OF assms _ refl, of 14 "[0]"]
  show ?thesis
    using u(1) drop_nth [OF u(2)] by (simp add: asn1_generalizedtime_to_tm_def gen_fraction_def text_string_def str_bytes_def byte_at_def)
qed

text \<open>The day is compared with 31 in every month.\<close>

lemma thirtieth_of_february_accepted:
  "\<not> valid_tm (tm_1970\<lparr>tm_mon := 1, tm_mday := 30\<rparr>)"
  "asn1_utctime_to_tm (Some tm0) (text_string (utc_text (tm_1970\<lparr>tm_mon := 1, tm_mday := 30\<rparr>) @ [0]) 13 V_ASN1_UTCTIME) =
    Got (Some (tm_1970\<lparr>tm_mon := 1, tm_mday := 30\<rparr>))"
proof -
  show "\<not> valid_tm (tm_1970\<lparr>tm_mon := 1, tm_mday := 30\<rparr>)"
    by (simp add: valid_tm_def valid_date_def month_len_def tm_1970_def)
  show "asn1_utctime_to_tm (Some tm0) (text_string (utc_text (tm_1970\<lparr>tm_mon := 1, tm_mday := 30\<rparr>) @ [0]) 13 V_ASN1_UTCTIME) =
    Got (Some (tm_1970\<lparr>tm_mon := 1, tm_mday := 30\<rparr>))"
    by (rule text_string_read) (simp_all add: fields_ok_def clock_ok_def tm_1970_def)
qed

text \<open>
  Without an offset the year is not checked: 1 January 10000 is written with a year of five digits,
  a text that the reader refuses.
\<close>

definition tm_10000 :: tm where
  "tm_10000 = \<lparr>tm_sec = 0, tm_min = 0, tm_hour = 0, tm_mday = 1, tm_mon = 0, tm_year = 8100\<rparr>"

lemma year_10000_set:
  "shifted_time 253402300800 0 0 = Some tm_10000"
  "gen_text tm_10000 = [49, 48, 48, 48, 48, 48, 49, 48, 49, 48, 48, 48, 48, 48, 48, 90]"
  "asn1_generalizedtime_to_tm (Some tm0) (text_string (gen_text tm_10000 @ [0]) 16 V_ASN1_GENERALIZEDTIME) = Bad"
proof -
  have "valid_tm tm_10000" by (simp add: valid_tm_def clock_ok_def tm_10000_def valid_new_year)
  moreover have "tm_seconds tm_10000 = 253402300800 + EPOCH_SECONDS"
    by (simp add: tm_10000_def tm_seconds_def tm_day_def tm_clock_def day_number_def days_before_year_def
        days_before_month_values EPOCH_SECONDS_def)
  ultimately have "gmtime_r 253402300800 = Some tm_10000"
    by (intro gmtime_r_eq) (simp_all add: tm_10000_def)
  then show "shifted_time 253402300800 0 0 = Some tm_10000" by (simp add: shifted_time_def OPENSSL_gmtime_def)
  show g: "gen_text tm_10000 = [49, 48, 48, 48, 48, 48, 49, 48, 49, 48, 48, 48, 48, 48, 48, 90]"
    by code_simp
  have "digit_text [10, 0] = [49, 48, 48, 48]" by code_simp
  then have d: "drop 0 (gen_text tm_10000 @ [0]) = digit_text [10, 0] @ [48, 48, 49, 48, 49, 48, 48, 48, 48, 48, 48, 90, 0]"
    unfolding g by simp
  have len: "0 + length [10, 0 :: int] = 2" "0 + 2 * length [10, 0 :: int] = 4" by simp_all
  have "in_table gen_min gen_max 0 [10, 0]" by (simp add: gen_min_def gen_max_def)
  then have f: "gen_fields (gen_text tm_10000 @ [0]) 16 0 0 (Some tm0) =
      gen_fields (gen_text tm_10000 @ [0]) 16 2 4 (Some (gen_puts 0 [10, 0] tm0))"
    by (intro conjunct1 [OF gen_fields_texts [OF d, of 16 0 tm0, unfolded len]]) simp_all
  have "time_field (gen_text tm_10000 @ [0]) 16 4 1 12 = Bad" unfolding g by code_simp
  moreover have "byte_at (gen_text tm_10000 @ [0]) 4 = Got 48" unfolding g by code_simp
  ultimately have "gen_fields (gen_text tm_10000 @ [0]) 16 2 4 (Some (gen_puts 0 [10, 0] tm0)) = Bad"
    by (subst gen_fields.simps) (simp add: gen_min_def gen_max_def)
  then show "asn1_generalizedtime_to_tm (Some tm0) (text_string (gen_text tm_10000 @ [0]) 16 V_ASN1_GENERALIZEDTIME) = Bad"
    using f by (simp add: asn1_generalizedtime_to_tm_def text_string_def str_bytes_def)
qed

end
