(* ===== verification/Modes.thy ===== *)
theory Modes
  imports Crypto_Mem
begin

text \<open>
  Modes of operation of a block cipher: counter mode, output and cipher feedback and cipher block
  chaining (\<open>crypto/fipsmodule/modes/ctr.c\<close>, \<open>ofb.c\<close>, \<open>cfb.c\<close>, \<open>cbc.c\<close>). The block cipher is the function
  pointer that the code is given. The input and the output are addresses in one memory, so they may
  be the same or overlap; the arrays that keep a mode's state between calls are lists, except for the
  chaining value of CBC, to which the code also keeps a pointer.
\<close>

unbundle bit_operations_syntax

section \<open>Memory and words\<close>

type_synonym mem = "nat \<Rightarrow> u8"
type_synonym 'k block128_f = "'k \<Rightarrow> u8 list \<Rightarrow> u8 list"

definition get_bytes :: "mem \<Rightarrow> nat \<Rightarrow> nat \<Rightarrow> u8 list" where
  "get_bytes m p n = map (\<lambda>i. m (p + i)) [0..<n]"

definition put_bytes :: "mem \<Rightarrow> nat \<Rightarrow> u8 list \<Rightarrow> mem" where
  "put_bytes m p bs = (\<lambda>a. if p \<le> a \<and> a < p + length bs then bs ! (a - p) else m a)"

definition load_word_le :: "u8 list \<Rightarrow> u64" where
  "load_word_le bs = of_nat (le_val bs)"

definition store_word_le :: "u64 \<Rightarrow> u8 list" where
  "store_word_le v = le_bytes 8 (unat v)"

definition GETU32 :: "u8 list \<Rightarrow> u32" where
  "GETU32 bs = CRYPTO_bswap4 (of_nat (le_val bs))"

definition PUTU32 :: "u32 \<Rightarrow> u8 list" where
  "PUTU32 v = le_bytes 4 (unat (CRYPTO_bswap4 v))"

text \<open>The eight bytes of an array from \<open>n\<close> on, and storing them.\<close>

definition arr_word :: "u8 list \<Rightarrow> nat \<Rightarrow> u64" where
  "arr_word arr n = load_word_le (take 8 (drop n arr))"

definition arr_put :: "u8 list \<Rightarrow> nat \<Rightarrow> u8 list \<Rightarrow> u8 list" where
  "arr_put arr n bs = take n arr @ bs @ drop (n + length bs) arr"

section \<open>Counter mode\<close>

fun inc_loop :: "u8 list \<Rightarrow> nat \<Rightarrow> u32 \<Rightarrow> u8 list" where
  "inc_loop counter 0 c = counter"
| "inc_loop counter (Suc n) c =
     (let c1 = c + ucast (counter ! n) in inc_loop (counter[n := ucast c1]) n (drop_bit 8 c1))"

definition ctr128_inc :: "u8 list \<Rightarrow> u8 list" where "ctr128_inc counter = inc_loop counter 16 1"
definition ctr96_inc :: "u8 list \<Rightarrow> u8 list" where "ctr96_inc counter = inc_loop counter 12 1"

text \<open>The loop that uses up a block begun by an earlier call.\<close>

function xor_head :: "mem \<Rightarrow> nat \<Rightarrow> nat \<Rightarrow> nat \<Rightarrow> u8 list \<Rightarrow> nat \<Rightarrow> mem \<times> nat \<times> nat \<times> nat \<times> nat" where
  "xor_head m inp outp len arr n =
     (if n \<noteq> 0 \<and> len \<noteq> 0 then
        xor_head (put_bytes m outp [m inp XOR arr ! n]) (inp + 1) (outp + 1) (len - 1) arr ((n + 1) mod 16)
      else (m, inp, outp, len, n))"
  by pat_completeness auto
termination by (relation "measure (\<lambda>(m, inp, outp, len, arr, n). len)") auto

text \<open>A whole block by words, and what is left at the end by bytes.\<close>

function xor_words :: "mem \<Rightarrow> nat \<Rightarrow> nat \<Rightarrow> u8 list \<Rightarrow> nat \<Rightarrow> mem" where
  "xor_words m inp outp arr n =
     (if 16 \<le> n then m
      else xor_words (put_bytes m (outp + n) (store_word_le (load_word_le (get_bytes m (inp + n) 8) XOR arr_word arr n)))
             inp outp arr (n + 8))"
  by pat_completeness auto
termination by (relation "measure (\<lambda>(m, inp, outp, arr, n). 16 - n)") auto

fun xor_tail :: "mem \<Rightarrow> nat \<Rightarrow> nat \<Rightarrow> nat \<Rightarrow> u8 list \<Rightarrow> nat \<Rightarrow> mem \<times> nat" where
  "xor_tail m inp outp 0 arr n = (m, n)"
| "xor_tail m inp outp (Suc len) arr n =
     xor_tail (put_bytes m (outp + n) [m (inp + n) XOR arr ! n]) inp outp len arr (n + 1)"

function ctr128_blocks :: "'k block128_f \<Rightarrow> 'k \<Rightarrow> mem \<Rightarrow> nat \<Rightarrow> nat \<Rightarrow> nat \<Rightarrow> u8 list \<Rightarrow> u8 list \<Rightarrow> nat \<Rightarrow>
    mem \<times> nat \<times> nat \<times> nat \<times> u8 list \<times> u8 list \<times> nat" where
  "ctr128_blocks block key m inp outp len ivec ecount_buf n =
     (if 16 \<le> len then
        (let ecount_buf = block key ivec; ivec = ctr128_inc ivec; m = xor_words m inp outp ecount_buf 0
         in ctr128_blocks block key m (inp + 16) (outp + 16) (len - 16) ivec ecount_buf 0)
      else (m, inp, outp, len, ivec, ecount_buf, n))"
  by pat_completeness auto
termination by (relation "measure (\<lambda>(block, key, m, inp, outp, len, ivec, ecount_buf, n). len)") auto

text \<open>The result is the memory, the counter, the encrypted counter and how much of it is used.\<close>

definition CRYPTO_ctr128_encrypt :: "mem \<Rightarrow> nat \<Rightarrow> nat \<Rightarrow> nat \<Rightarrow> 'k \<Rightarrow> u8 list \<Rightarrow> u8 list \<Rightarrow> nat \<Rightarrow> 'k block128_f \<Rightarrow>
    mem \<times> u8 list \<times> u8 list \<times> nat" where
  "CRYPTO_ctr128_encrypt m inp outp len key ivec ecount_buf num block =
     (let (m, inp, outp, len, n) = xor_head m inp outp len ecount_buf num;
          (m, inp, outp, len, ivec, ecount_buf, n) = ctr128_blocks block key m inp outp len ivec ecount_buf n
      in if len \<noteq> 0 then
           (let ecount_buf = block key ivec; ivec = ctr128_inc ivec; (m, n) = xor_tail m inp outp len ecount_buf n
            in (m, ivec, ecount_buf, n))
         else (m, ivec, ecount_buf, n))"

text \<open>
  The variant that is given a function for many blocks with a counter of 32 bits. \<open>func\<close> takes the
  input of that many blocks and the counter block.
\<close>

type_synonym 'k ctr128_f = "u8 list \<Rightarrow> nat \<Rightarrow> 'k \<Rightarrow> u8 list \<Rightarrow> u8 list"

definition put_ctr32 :: "u8 list \<Rightarrow> u32 \<Rightarrow> u8 list" where
  "put_ctr32 ivec ctr32 =
     (let ivec = arr_put ivec 12 (PUTU32 ctr32) in if ctr32 = 0 then ctr96_inc ivec else ivec)"

definition ctr32_step :: "nat \<Rightarrow> u32 \<Rightarrow> nat \<times> u32" where
  "ctr32_step len ctr32 =
     (let blocks = len div 16;
          blocks = (if 2 ^ 28 < blocks then 2 ^ 28 else blocks);
          ctr32 = ctr32 + of_nat blocks
      in if unat ctr32 < blocks then (blocks - unat ctr32, 0) else (blocks, ctr32))"

lemma ctr32_step_pos: "16 \<le> len \<Longrightarrow> 0 < fst (ctr32_step len c)"
  using div_greater_zero_iff [of len 16] by (simp add: ctr32_step_def Let_def)

function ctr32_blocks :: "'k ctr128_f \<Rightarrow> 'k \<Rightarrow> mem \<Rightarrow> nat \<Rightarrow> nat \<Rightarrow> nat \<Rightarrow> u8 list \<Rightarrow> u32 \<Rightarrow>
    mem \<times> nat \<times> nat \<times> nat \<times> u8 list \<times> u32" where
  "ctr32_blocks func key m inp outp len ivec ctr32 =
     (if 16 \<le> len then
        ctr32_blocks func key (put_bytes m outp (func (get_bytes m inp (fst (ctr32_step len ctr32) * 16)) (fst (ctr32_step len ctr32)) key ivec))
          (inp + fst (ctr32_step len ctr32) * 16) (outp + fst (ctr32_step len ctr32) * 16) (len - fst (ctr32_step len ctr32) * 16)
          (put_ctr32 ivec (snd (ctr32_step len ctr32))) (snd (ctr32_step len ctr32))
      else (m, inp, outp, len, ivec, ctr32))"
  by pat_completeness auto
termination
proof (relation "measure (\<lambda>(func, key, m, inp, outp, len, ivec, ctr32). len)", goal_cases)
  case (2 func key m inp outp len ivec ctr32)
  then have "len - fst (ctr32_step len ctr32) * 16 < len" using ctr32_step_pos [of len ctr32] by simp
  then show ?case by simp
qed simp

definition CRYPTO_ctr128_encrypt_ctr32 :: "mem \<Rightarrow> nat \<Rightarrow> nat \<Rightarrow> nat \<Rightarrow> 'k \<Rightarrow> u8 list \<Rightarrow> u8 list \<Rightarrow> nat \<Rightarrow> 'k ctr128_f \<Rightarrow>
    mem \<times> u8 list \<times> u8 list \<times> nat" where
  "CRYPTO_ctr128_encrypt_ctr32 m inp outp len key ivec ecount_buf num func =
     (let (m, inp, outp, len, n) = xor_head m inp outp len ecount_buf num;
          ctr32 = GETU32 (take 4 (drop 12 ivec));
          (m, inp, outp, len, ivec, ctr32) = ctr32_blocks func key m inp outp len ivec ctr32
      in if len \<noteq> 0 then
           (let ecount_buf = func (replicate 16 0) 1 key ivec;
                ivec = put_ctr32 ivec (ctr32 + 1);
                (m, n) = xor_tail m inp outp len ecount_buf n
            in (m, ivec, ecount_buf, n))
         else (m, ivec, ecount_buf, n))"

section \<open>Output feedback\<close>

function ofb128_blocks :: "'k block128_f \<Rightarrow> 'k \<Rightarrow> mem \<Rightarrow> nat \<Rightarrow> nat \<Rightarrow> nat \<Rightarrow> u8 list \<Rightarrow> nat \<Rightarrow>
    mem \<times> nat \<times> nat \<times> nat \<times> u8 list \<times> nat" where
  "ofb128_blocks block key m inp outp len ivec n =
     (if 16 \<le> len then
        (let ivec = block key ivec; m = xor_words m inp outp ivec n
         in ofb128_blocks block key m (inp + 16) (outp + 16) (len - 16) ivec 0)
      else (m, inp, outp, len, ivec, n))"
  by pat_completeness auto
termination by (relation "measure (\<lambda>(block, key, m, inp, outp, len, ivec, n). len)") auto

definition CRYPTO_ofb128_encrypt :: "mem \<Rightarrow> nat \<Rightarrow> nat \<Rightarrow> nat \<Rightarrow> 'k \<Rightarrow> u8 list \<Rightarrow> nat \<Rightarrow> 'k block128_f \<Rightarrow> mem \<times> u8 list \<times> nat" where
  "CRYPTO_ofb128_encrypt m inp outp len key ivec num block =
     (let (m, inp, outp, len, n) = xor_head m inp outp len ivec num;
          (m, inp, outp, len, ivec, n) = ofb128_blocks block key m inp outp len ivec n
      in if len \<noteq> 0 then
           (let ivec = block key ivec; (m, n) = xor_tail m inp outp len ivec n in (m, ivec, n))
         else (m, ivec, n))"

section \<open>Cipher feedback\<close>

text \<open>\<open>enc\<close> says which of the two bytes goes into the feedback.\<close>

function cfb_head :: "bool \<Rightarrow> mem \<Rightarrow> nat \<Rightarrow> nat \<Rightarrow> nat \<Rightarrow> u8 list \<Rightarrow> nat \<Rightarrow> mem \<times> nat \<times> nat \<times> nat \<times> u8 list \<times> nat" where
  "cfb_head enc m inp outp len ivec n =
     (if n \<noteq> 0 \<and> len \<noteq> 0 then
        (let c = m inp; r = ivec ! n XOR c
         in cfb_head enc (put_bytes m outp [r]) (inp + 1) (outp + 1) (len - 1) (ivec[n := (if enc then r else c)]) ((n + 1) mod 16))
      else (m, inp, outp, len, ivec, n))"
  by pat_completeness auto
termination by (relation "measure (\<lambda>(enc, m, inp, outp, len, ivec, n). len)") auto

function cfb_words :: "bool \<Rightarrow> mem \<Rightarrow> nat \<Rightarrow> nat \<Rightarrow> u8 list \<Rightarrow> nat \<Rightarrow> mem \<times> u8 list" where
  "cfb_words enc m inp outp ivec n =
     (if 16 \<le> n then (m, ivec)
      else (let t = load_word_le (get_bytes m (inp + n) 8); r = arr_word ivec n XOR t
            in cfb_words enc (put_bytes m (outp + n) (store_word_le r)) inp outp
                 (arr_put ivec n (store_word_le (if enc then r else t))) (n + 8)))"
  by pat_completeness auto
termination by (relation "measure (\<lambda>(enc, m, inp, outp, ivec, n). 16 - n)") auto

function cfb128_blocks :: "'k block128_f \<Rightarrow> 'k \<Rightarrow> bool \<Rightarrow> mem \<Rightarrow> nat \<Rightarrow> nat \<Rightarrow> nat \<Rightarrow> u8 list \<Rightarrow> nat \<Rightarrow>
    mem \<times> nat \<times> nat \<times> nat \<times> u8 list \<times> nat" where
  "cfb128_blocks block key enc m inp outp len ivec n =
     (if 16 \<le> len then
        (case cfb_words enc m inp outp (block key ivec) n of
           (m, ivec) \<Rightarrow> cfb128_blocks block key enc m (inp + 16) (outp + 16) (len - 16) ivec 0)
      else (m, inp, outp, len, ivec, n))"
  by pat_completeness auto
termination by (relation "measure (\<lambda>(block, key, enc, m, inp, outp, len, ivec, n). len)") auto

fun cfb_tail :: "bool \<Rightarrow> mem \<Rightarrow> nat \<Rightarrow> nat \<Rightarrow> nat \<Rightarrow> u8 list \<Rightarrow> nat \<Rightarrow> mem \<times> u8 list \<times> nat" where
  "cfb_tail enc m inp outp 0 ivec n = (m, ivec, n)"
| "cfb_tail enc m inp outp (Suc len) ivec n =
     (let c = m (inp + n); r = ivec ! n XOR c
      in cfb_tail enc (put_bytes m (outp + n) [r]) inp outp len (ivec[n := (if enc then r else c)]) (n + 1))"

definition CRYPTO_cfb128_encrypt :: "mem \<Rightarrow> nat \<Rightarrow> nat \<Rightarrow> nat \<Rightarrow> 'k \<Rightarrow> u8 list \<Rightarrow> nat \<Rightarrow> bool \<Rightarrow> 'k block128_f \<Rightarrow> mem \<times> u8 list \<times> nat" where
  "CRYPTO_cfb128_encrypt m inp outp len key ivec num enc block =
     (let (m, inp, outp, len, ivec, n) = cfb_head enc m inp outp len ivec num;
          (m, inp, outp, len, ivec, n) = cfb128_blocks block key enc m inp outp len ivec n
      in if len \<noteq> 0 then cfb_tail enc m inp outp len (block key ivec) n
         else (m, ivec, n))"

text \<open>
  One block of \<open>nbits\<close> bits. \<open>ovec\<close> is the old feedback followed by the new bytes; \<open>fill\<close> is what its
  unset last bytes hold. The result is the output bytes and the feedback.
\<close>

definition cfbr_encrypt_block :: "u8 \<Rightarrow> u8 list \<Rightarrow> nat \<Rightarrow> 'k \<Rightarrow> u8 list \<Rightarrow> bool \<Rightarrow> 'k block128_f \<Rightarrow> u8 list \<times> u8 list" where
  "cfbr_encrypt_block fill input nbits key ivec enc block =
     (if nbits = 0 \<or> 128 < nbits then ([], ivec)
      else let e = block key ivec;
               n1 = (nbits + 7) div 8;
               r = map (\<lambda>n. input ! n XOR e ! n) [0..<n1];
               ovec = ivec @ (if enc then r else take n1 input) @ replicate (17 - n1) fill;
               rem = nbits mod 8;
               n2 = nbits div 8
           in (r, if rem = 0 then take 16 (drop n2 ovec)
                  else map (\<lambda>n. push_bit rem (ovec ! (n + n2)) OR drop_bit (8 - rem) (ovec ! (n + n2 + 1))) [0..<16]))"

fun cfb8_loop :: "u8 \<Rightarrow> mem \<Rightarrow> nat \<Rightarrow> nat \<Rightarrow> nat \<Rightarrow> 'k \<Rightarrow> u8 list \<Rightarrow> bool \<Rightarrow> 'k block128_f \<Rightarrow> mem \<times> u8 list" where
  "cfb8_loop fill m inp outp 0 key ivec enc block = (m, ivec)"
| "cfb8_loop fill m inp outp (Suc len) key ivec enc block =
     (case cfbr_encrypt_block fill [m inp] 8 key ivec enc block of
        (r, ivec') \<Rightarrow> cfb8_loop fill (put_bytes m outp r) (inp + 1) (outp + 1) len key ivec' enc block)"

definition CRYPTO_cfb128_8_encrypt :: "u8 \<Rightarrow> mem \<Rightarrow> nat \<Rightarrow> nat \<Rightarrow> nat \<Rightarrow> 'k \<Rightarrow> u8 list \<Rightarrow> bool \<Rightarrow> 'k block128_f \<Rightarrow> mem \<times> u8 list" where
  "CRYPTO_cfb128_8_encrypt fill m inp outp len key ivec enc block = cfb8_loop fill m inp outp len key ivec enc block"

text \<open>Bit \<open>n\<close> of the packed input and output; the code counts them from the top of each byte.\<close>

fun cfb1_loop :: "u8 \<Rightarrow> mem \<Rightarrow> nat \<Rightarrow> nat \<Rightarrow> nat \<Rightarrow> nat \<Rightarrow> 'k \<Rightarrow> u8 list \<Rightarrow> bool \<Rightarrow> 'k block128_f \<Rightarrow> mem \<times> u8 list" where
  "cfb1_loop fill m inp outp n 0 key ivec enc block = (m, ivec)"
| "cfb1_loop fill m inp outp n (Suc bits) key ivec enc block =
     (let c = (if m (inp + n div 8) AND push_bit (7 - n mod 8) 1 \<noteq> 0 then 0x80 else 0)
      in case cfbr_encrypt_block fill [c] 1 key ivec enc block of
           (d, ivec') \<Rightarrow>
             (let b = (m (outp + n div 8) AND NOT (push_bit (7 - n mod 8) 1)) OR drop_bit (n mod 8) (d ! 0 AND 0x80)
              in cfb1_loop fill (put_bytes m (outp + n div 8) [b]) inp outp (n + 1) bits key ivec' enc block))"

definition CRYPTO_cfb128_1_encrypt :: "u8 \<Rightarrow> mem \<Rightarrow> nat \<Rightarrow> nat \<Rightarrow> nat \<Rightarrow> 'k \<Rightarrow> u8 list \<Rightarrow> bool \<Rightarrow> 'k block128_f \<Rightarrow> mem \<times> u8 list" where
  "CRYPTO_cfb128_1_encrypt fill m inp outp bits key ivec enc block = cfb1_loop fill m inp outp 0 bits key ivec enc block"

section \<open>Cipher block chaining\<close>

text \<open>
  \<open>ivec\<close> is an address as well, and \<open>iv\<close> the pointer to the last block: the array or a block of the
  output or of the input. \<open>xor_words_at\<close> is the loop over the words of a block.
\<close>

function xor_words_at :: "mem \<Rightarrow> nat \<Rightarrow> nat \<Rightarrow> nat \<Rightarrow> nat \<Rightarrow> mem" where
  "xor_words_at m src iv outp n =
     (if 16 \<le> n then m
      else xor_words_at (put_bytes m (outp + n) (store_word_le (load_word_le (get_bytes m (src + n) 8) XOR load_word_le (get_bytes m (iv + n) 8))))
             src iv outp (n + 8))"
  by pat_completeness auto
termination by (relation "measure (\<lambda>(m, src, iv, outp, n). 16 - n)") auto

text \<open>\<open>(*block)(from, to, key)\<close>.\<close>

definition call_block :: "'k block128_f \<Rightarrow> 'k \<Rightarrow> mem \<Rightarrow> nat \<Rightarrow> nat \<Rightarrow> mem" where
  "call_block block key m from to = put_bytes m to (block key (get_bytes m from 16))"

function cbc_enc_blocks :: "'k block128_f \<Rightarrow> 'k \<Rightarrow> mem \<Rightarrow> nat \<Rightarrow> nat \<Rightarrow> nat \<Rightarrow> nat \<Rightarrow> mem \<times> nat \<times> nat \<times> nat \<times> nat" where
  "cbc_enc_blocks block key m inp outp len iv =
     (if 16 \<le> len then
        cbc_enc_blocks block key (call_block block key (xor_words_at m inp iv outp 0) outp outp) (inp + 16) (outp + 16) (len - 16) outp
      else (m, inp, outp, len, iv))"
  by pat_completeness auto
termination by (relation "measure (\<lambda>(block, key, m, inp, outp, len, iv). len)") auto

text \<open>The loop over what is left runs once: \<open>len\<close> is below 16. It writes a whole block.\<close>

fun put_each :: "mem \<Rightarrow> nat \<Rightarrow> nat \<Rightarrow> (mem \<Rightarrow> nat \<Rightarrow> u8) \<Rightarrow> nat \<Rightarrow> mem" where
  "put_each m outp n f 0 = m"
| "put_each m outp n f (Suc k) = put_each (put_bytes m (outp + n) [f m n]) outp (n + 1) f k"

function cbc_enc_rest :: "'k block128_f \<Rightarrow> 'k \<Rightarrow> mem \<Rightarrow> nat \<Rightarrow> nat \<Rightarrow> nat \<Rightarrow> nat \<Rightarrow> mem \<times> nat" where
  "cbc_enc_rest block key m inp outp len iv =
     (if len = 0 then (m, iv)
      else let k = min 16 len;
               m = put_each m outp 0 (\<lambda>m n. m (inp + n) XOR m (iv + n)) k;
               m = put_each m outp k (\<lambda>m n. m (iv + n)) (16 - k);
               m = call_block block key m outp outp
           in if len \<le> 16 then (m, outp)
              else cbc_enc_rest block key m (inp + 16) (outp + 16) (len - 16) outp)"
  by pat_completeness auto
termination by (relation "measure (\<lambda>(block, key, m, inp, outp, len, iv). len)") auto

definition CRYPTO_cbc128_encrypt :: "mem \<Rightarrow> nat \<Rightarrow> nat \<Rightarrow> nat \<Rightarrow> 'k \<Rightarrow> nat \<Rightarrow> 'k block128_f \<Rightarrow> mem" where
  "CRYPTO_cbc128_encrypt m inp outp len key ivec block =
     (let (m, inp, outp, len, iv) = cbc_enc_blocks block key m inp outp len ivec;
          (m, iv) = cbc_enc_rest block key m inp outp len iv
      in put_bytes m ivec (get_bytes m iv 16))"

text \<open>Decryption straight to the output, when that is far enough from the input.\<close>

function cbc_dec_far :: "'k block128_f \<Rightarrow> 'k \<Rightarrow> mem \<Rightarrow> nat \<Rightarrow> nat \<Rightarrow> nat \<Rightarrow> nat \<Rightarrow> mem \<times> nat \<times> nat \<times> nat \<times> nat" where
  "cbc_dec_far block key m inp outp len iv =
     (if 16 \<le> len then
        cbc_dec_far block key (xor_words_at (call_block block key m inp outp) outp iv outp 0) (inp + 16) (outp + 16) (len - 16) inp
      else (m, inp, outp, len, iv))"
  by pat_completeness auto
termination by (relation "measure (\<lambda>(block, key, m, inp, outp, len, iv). len)") auto

text \<open>Decryption through a temporary block.\<close>

function cbc_tmp_words :: "mem \<Rightarrow> u8 list \<Rightarrow> nat \<Rightarrow> nat \<Rightarrow> nat \<Rightarrow> nat \<Rightarrow> mem" where
  "cbc_tmp_words m tmp inp outp ivec n =
     (if 16 \<le> n then m
      else (let c = load_word_le (get_bytes m (inp + n) 8);
                m1 = put_bytes m (outp + n) (store_word_le (arr_word tmp n XOR load_word_le (get_bytes m (ivec + n) 8)))
            in cbc_tmp_words (put_bytes m1 (ivec + n) (store_word_le c)) tmp inp outp ivec (n + 8)))"
  by pat_completeness auto
termination by (relation "measure (\<lambda>(m, tmp, inp, outp, ivec, n). 16 - n)") auto

function cbc_dec_near :: "'k block128_f \<Rightarrow> 'k \<Rightarrow> mem \<Rightarrow> nat \<Rightarrow> nat \<Rightarrow> nat \<Rightarrow> nat \<Rightarrow> mem \<times> nat \<times> nat \<times> nat" where
  "cbc_dec_near block key m inp outp len ivec =
     (if 16 \<le> len then
        cbc_dec_near block key (cbc_tmp_words m (block key (get_bytes m inp 16)) inp outp ivec 0) (inp + 16) (outp + 16) (len - 16) ivec
      else (m, inp, outp, len))"
  by pat_completeness auto
termination by (relation "measure (\<lambda>(block, key, m, inp, outp, len, ivec). len)") auto

fun cbc_rest_bytes :: "mem \<Rightarrow> u8 list \<Rightarrow> nat \<Rightarrow> nat \<Rightarrow> nat \<Rightarrow> nat \<Rightarrow> nat \<Rightarrow> mem" where
  "cbc_rest_bytes m tmp inp outp ivec n 0 = m"
| "cbc_rest_bytes m tmp inp outp ivec n (Suc k) =
     (let c = m (inp + n); m1 = put_bytes m (outp + n) [tmp ! n XOR m (ivec + n)]
      in cbc_rest_bytes (put_bytes m1 (ivec + n) [c]) tmp inp outp ivec (n + 1) k)"

function cbc_dec_rest :: "'k block128_f \<Rightarrow> 'k \<Rightarrow> mem \<Rightarrow> nat \<Rightarrow> nat \<Rightarrow> nat \<Rightarrow> nat \<Rightarrow> mem" where
  "cbc_dec_rest block key m inp outp len ivec =
     (if len = 0 then m
      else let tmp = block key (get_bytes m inp 16);
               k = min 16 len;
               m = cbc_rest_bytes m tmp inp outp ivec 0 k
           in if len \<le> 16 then put_each m ivec k (\<lambda>m n. m (inp + n)) (16 - k)
              else cbc_dec_rest block key m (inp + 16) (outp + 16) (len - 16) ivec)"
  by pat_completeness auto
termination by (relation "measure (\<lambda>(block, key, m, inp, outp, len, ivec). len)") auto

definition CRYPTO_cbc128_decrypt :: "mem \<Rightarrow> nat \<Rightarrow> nat \<Rightarrow> nat \<Rightarrow> 'k \<Rightarrow> nat \<Rightarrow> 'k block128_f \<Rightarrow> mem" where
  "CRYPTO_cbc128_decrypt m inp outp len key ivec block =
     (if (32 \<le> inp \<and> outp \<le> inp - 32) \<or> inp < outp then
        (let (m, inp, outp, len, iv) = cbc_dec_far block key m inp outp len ivec;
             m = put_bytes m ivec (get_bytes m iv 16)
         in cbc_dec_rest block key m inp outp len ivec)
      else
        (let (m, inp, outp, len) = cbc_dec_near block key m inp outp len ivec
         in cbc_dec_rest block key m inp outp len ivec))"

end
