(* ===== verification/Modes_Stream.thy ===== *)
theory Modes_Stream
  imports Modes
begin

text \<open>
  What the proofs about the modes of operation share: reading and writing the memory, words as bytes,
  and a mode as a step from a state and a byte to a byte and the next state. The locales state what a
  mode promises (\<open>stream_mode\<close>: a byte can be undone; \<open>pad_mode\<close>: a pad is added to the text;
  \<open>bytewise\<close>: a call of the code is the steps over its bytes) and what follows for whole calls.
\<close>

declare xor_head.simps [simp del] xor_words.simps [simp del] ctr128_blocks.simps [simp del] ctr32_blocks.simps [simp del]
  ofb128_blocks.simps [simp del] cfb_head.simps [simp del] cfb_words.simps [simp del] cfb128_blocks.simps [simp del]
  xor_words_at.simps [simp del] cbc_enc_blocks.simps [simp del] cbc_enc_rest.simps [simp del] cbc_dec_far.simps [simp del]
  cbc_tmp_words.simps [simp del] cbc_dec_near.simps [simp del] cbc_dec_rest.simps [simp del]

section \<open>Memory\<close>

lemma length_get_bytes [simp]: "length (get_bytes m p n) = n"
  by (simp add: get_bytes_def)

lemma get_bytes_0 [simp]: "get_bytes m p 0 = []"
  by (simp add: get_bytes_def)

lemma get_bytes_1 [simp]: "get_bytes m p (Suc 0) = [m p]"
  by (simp add: get_bytes_def)

lemma nth_get_bytes [simp]: "i < n \<Longrightarrow> get_bytes m p n ! i = m (p + i)"
  by (simp add: get_bytes_def)

lemma get_bytes_add: "get_bytes m p (a + b) = get_bytes m p a @ get_bytes m (p + a) b"
  by (rule nth_equalityI) (auto simp: nth_append)

lemma get_bytes_Suc: "get_bytes m p (Suc n) = m p # get_bytes m (p + 1) n"
  using get_bytes_add [of m p 1 n] by simp

lemma put_bytes_Nil [simp]: "put_bytes m p [] = m"
  by (auto simp: put_bytes_def fun_eq_iff)

lemma put_bytes_append: "put_bytes (put_bytes m p xs) (p + length xs) ys = put_bytes m p (xs @ ys)"
  by (auto simp: put_bytes_def fun_eq_iff nth_append)

lemma get_put_same: "get_bytes (put_bytes m p bs) p (length bs) = bs"
  by (rule nth_equalityI) (simp_all add: put_bytes_def)

lemma get_put_other: "q + n \<le> p \<or> p + length bs \<le> q \<Longrightarrow> get_bytes (put_bytes m p bs) q n = get_bytes m q n"
  by (rule nth_equalityI) (auto simp: put_bytes_def)

text \<open>The input is ahead of the output, or the two are disjoint: what is not read yet is not overwritten.\<close>

definition input_ahead :: "nat \<Rightarrow> nat \<Rightarrow> nat \<Rightarrow> bool" where
  "input_ahead inp outp len \<longleftrightarrow> outp \<le> inp \<or> inp + len \<le> outp"

lemma input_ahead_add: "\<lbrakk>input_ahead inp outp len; k \<le> len\<rbrakk> \<Longrightarrow> input_ahead (inp + k) (outp + k) (len - k)"
  by (auto simp: input_ahead_def)

lemma input_ahead_take: "\<lbrakk>input_ahead inp outp len; k \<le> len\<rbrakk> \<Longrightarrow> input_ahead inp outp k"
  by (auto simp: input_ahead_def)

lemma get_ahead:
  "\<lbrakk>input_ahead inp outp len; length ys + k \<le> len\<rbrakk> \<Longrightarrow>
    get_bytes (put_bytes m outp ys) (inp + length ys) k = get_bytes m (inp + length ys) k"
  by (rule get_put_other) (auto simp: input_ahead_def)

section \<open>Words are bytes\<close>

lemma le_bytes_xor: "le_bytes n (u XOR v) = map2 (\<lambda>x y. x XOR y) (le_bytes n u) (le_bytes n v)"
proof (induction n arbitrary: u v)
  case 0
  show ?case by (simp add: le_bytes_def)
next
  case (Suc n)
  have "(of_nat (u XOR v) :: u8) = of_nat u XOR of_nat v"
    by (rule bit_word_eqI) (simp add: bit_simps bit_of_nat_iff)
  moreover have "(u XOR v) div 256 = (u div 256) XOR (v div 256)"
    using drop_bit_xor [of 8 u v] by (simp add: drop_bit_eq_div)
  ultimately show ?case using Suc by (simp add: le_bytes_Suc)
qed

lemma unat_load_word: "length bs = 8 \<Longrightarrow> unat (load_word_le bs) = le_val bs"
  using le_val_less [of bs] by (simp add: load_word_le_def unat_of_nat take_bit_nat_eq_self)

lemma store_load_word: "length bs = 8 \<Longrightarrow> store_word_le (load_word_le bs) = bs"
  using le_bytes_le_val [of bs] by (simp add: store_word_le_def unat_load_word)

lemma store_xor_words:
  "\<lbrakk>length a = 8; length b = 8\<rbrakk> \<Longrightarrow> store_word_le (load_word_le a XOR load_word_le b) = map2 (\<lambda>x y. x XOR y) a b"
  using le_bytes_le_val [of a] le_bytes_le_val [of b] by (simp add: store_word_le_def unsigned_xor_eq unat_load_word le_bytes_xor)

abbreviation (input) xor_bytes :: "u8 list \<Rightarrow> u8 list \<Rightarrow> u8 list" where
  "xor_bytes xs ys \<equiv> map2 (\<lambda>x y. x XOR y) xs ys"

lemma xor_words_spec:
  assumes "length arr = 16" "input_ahead inp outp 16"
  shows "xor_words m inp outp arr 0 = put_bytes m outp (xor_bytes (get_bytes m inp 16) arr)"
proof -
  let ?m1 = "put_bytes m outp (xor_bytes (get_bytes m inp 8) (take 8 arr))"
  have w: "store_word_le (load_word_le (get_bytes m' (p + n) 8) XOR arr_word arr n) = xor_bytes (get_bytes m' (p + n) 8) (take 8 (drop n arr))"
    if "n \<le> 8" for m' p n
    unfolding arr_word_def by (rule store_xor_words) (use assms(1) that in simp_all)
  have "xor_words m inp outp arr 0 = xor_words ?m1 inp outp arr 8"
    by (subst xor_words.simps) (use w [of 0 m inp] in simp)
  also have "\<dots> = put_bytes ?m1 (outp + 8) (xor_bytes (get_bytes ?m1 (inp + 8) 8) (drop 8 arr))"
    using w [of 8 ?m1 inp] assms(1) by (subst xor_words.simps, subst xor_words.simps) simp
  also have "get_bytes ?m1 (inp + 8) 8 = get_bytes m (inp + 8) 8"
    using get_ahead [OF assms(2), of "xor_bytes (get_bytes m inp 8) (take 8 arr)" 8 m] assms(1) by simp
  also have "put_bytes ?m1 (outp + 8) (xor_bytes (get_bytes m (inp + 8) 8) (drop 8 arr)) =
      put_bytes m outp (xor_bytes (get_bytes m inp 8) (take 8 arr) @ xor_bytes (get_bytes m (inp + 8) 8) (drop 8 arr))"
    using put_bytes_append [of m outp "xor_bytes (get_bytes m inp 8) (take 8 arr)"] assms(1) by simp
  also have "xor_bytes (get_bytes m inp 8) (take 8 arr) @ xor_bytes (get_bytes m (inp + 8) 8) (drop 8 arr) = xor_bytes (get_bytes m inp 16) arr"
    using get_bytes_add [of m inp 8 8] assms(1) zip_append [of "get_bytes m inp 8" "take 8 arr" "get_bytes m (inp + 8) 8" "drop 8 arr"] by simp
  finally show ?thesis .
qed

lemma xor_tail_spec:
  "\<lbrakk>input_ahead (inp + n) (outp + n) len; n + len \<le> length arr\<rbrakk> \<Longrightarrow>
    xor_tail m inp outp len arr n = (put_bytes m (outp + n) (xor_bytes (get_bytes m (inp + n) len) (drop n arr)), n + len)"
proof (induction len arbitrary: m n)
  case (Suc len)
  let ?b = "m (inp + n) XOR arr ! n"
  have a: "input_ahead (inp + (n + 1)) (outp + (n + 1)) len" using input_ahead_add [OF Suc.prems(1), of 1] by simp
  have g: "get_bytes (put_bytes m (outp + n) [?b]) (inp + (n + 1)) len = get_bytes m (inp + (n + 1)) len"
    using get_ahead [OF Suc.prems(1), of "[?b]" len m] by simp
  have d: "drop n arr = arr ! n # drop (n + 1) arr" using Suc.prems(2) by (simp add: Cons_nth_drop_Suc)
  have "xor_tail m inp outp (Suc len) arr n = xor_tail (put_bytes m (outp + n) [?b]) inp outp len arr (n + 1)" by simp
  also have "\<dots> = (put_bytes (put_bytes m (outp + n) [?b]) (outp + (n + 1)) (xor_bytes (get_bytes m (inp + (n + 1)) len) (drop (n + 1) arr)), n + 1 + len)"
    using Suc.IH [OF a, of "put_bytes m (outp + n) [?b]"] Suc.prems(2) unfolding g by simp
  also have "put_bytes (put_bytes m (outp + n) [?b]) (outp + (n + 1)) (xor_bytes (get_bytes m (inp + (n + 1)) len) (drop (n + 1) arr)) =
      put_bytes m (outp + n) (?b # xor_bytes (get_bytes m (inp + (n + 1)) len) (drop (n + 1) arr))"
    using put_bytes_append [of m "outp + n" "[?b]"] by simp
  finally show ?case unfolding d get_bytes_Suc by simp
qed simp

text \<open>The block cipher maps blocks to blocks.\<close>

definition block_ok :: "'k block128_f \<Rightarrow> 'k \<Rightarrow> bool" where
  "block_ok block key \<longleftrightarrow> (\<forall>b. length b = 16 \<longrightarrow> length (block key b) = 16)"

section \<open>One byte at a time\<close>

fun run :: "('s \<Rightarrow> u8 \<Rightarrow> u8 \<times> 's) \<Rightarrow> 's \<Rightarrow> u8 list \<Rightarrow> u8 list \<times> 's" where
  "run step s [] = ([], s)"
| "run step s (x # xs) = (case step s x of (y, s1) \<Rightarrow> case run step s1 xs of (ys, s2) \<Rightarrow> (y # ys, s2))"

lemma run_append: "run step s (xs @ ys) = (case run step s xs of (as, s1) \<Rightarrow> case run step s1 ys of (bs, s2) \<Rightarrow> (as @ bs, s2))"
  by (induction xs arbitrary: s) (simp_all split: prod.split)

lemma run_length: "run step s xs = (ys, s') \<Longrightarrow> length ys = length xs"
  by (induction xs arbitrary: s ys) (auto split: prod.splits)

text \<open>A loop of a mode has done the first \<open>k\<close> bytes: what it wrote, and how far the pointers are.\<close>

definition phase :: "('s \<Rightarrow> u8 \<Rightarrow> u8 \<times> 's) \<Rightarrow> mem \<times> nat \<times> nat \<times> nat \<times> 's \<Rightarrow> mem \<times> nat \<times> nat \<times> nat \<times> 's \<Rightarrow> bool" where
  "phase step = (\<lambda>(m, inp, outp, len, s) (m', inp', outp', len', s').
     \<exists>k ys. k \<le> len \<and> run step s (get_bytes m inp k) = (ys, s') \<and> m' = put_bytes m outp ys \<and>
       inp' = inp + k \<and> outp' = outp + k \<and> len' = len - k)"

lemma phase_refl: "phase step (m, inp, outp, len, s) (m, inp, outp, len, s)"
  by (auto simp: phase_def)

lemma phaseI:
  "\<lbrakk>k \<le> len; run step s (get_bytes m inp k) = (ys, s')\<rbrakk> \<Longrightarrow>
    phase step (m, inp, outp, len, s) (put_bytes m outp ys, inp + k, outp + k, len - k, s')"
  by (auto simp: phase_def)

lemma phase_ahead: "\<lbrakk>phase step (m, inp, outp, len, s) (m', inp', outp', len', s'); input_ahead inp outp len\<rbrakk> \<Longrightarrow> input_ahead inp' outp' len'"
  by (auto simp: phase_def input_ahead_add)

lemma phase_trans:
  assumes "phase step (m, inp, outp, len, s) (m1, inp1, outp1, len1, s1)" "phase step (m1, inp1, outp1, len1, s1) x"
    and a: "input_ahead inp outp len"
  shows "phase step (m, inp, outp, len, s) x"
proof -
  obtain m2 inp2 outp2 len2 s2 where x: "x = (m2, inp2, outp2, len2, s2)" by (cases x)
  obtain k ys where k: "k \<le> len" "run step s (get_bytes m inp k) = (ys, s1)" "m1 = put_bytes m outp ys"
    "inp1 = inp + k" "outp1 = outp + k" "len1 = len - k"
    using assms(1) by (auto simp: phase_def)
  obtain j zs where j: "j \<le> len1" "run step s1 (get_bytes m1 inp1 j) = (zs, s2)" "m2 = put_bytes m1 outp1 zs"
    "inp2 = inp1 + j" "outp2 = outp1 + j" "len2 = len1 - j"
    using assms(2) unfolding x by (auto simp: phase_def)
  have l: "length ys = k" using run_length [OF k(2)] by simp
  have "get_bytes m1 inp1 j = get_bytes m (inp + k) j"
    unfolding k(3,4) using get_ahead [OF a, of ys j m] k(1,6) j(1) l by simp
  then have "run step s (get_bytes m inp (k + j)) = (ys @ zs, s2)"
    using k(2) j(2) by (simp add: get_bytes_add run_append)
  moreover have "m2 = put_bytes m outp (ys @ zs)"
    unfolding j(3) k(3,5) using put_bytes_append [of m outp ys zs] l by simp
  ultimately show ?thesis
    unfolding x phase_def using j k by (auto intro!: exI [of _ "k + j"])
qed

lemma phase_end:
  assumes "phase step (m, inp, outp, len, s) (m', inp', outp', 0, s')"
  shows "\<exists>ys. run step s (get_bytes m inp len) = (ys, s') \<and> m' = put_bytes m outp ys"
  using assms by (auto simp: phase_def)

text \<open>The interface of a mode and its inverse, and what follows for whole texts.\<close>

locale stream_mode =
  fixes enc :: "'s \<Rightarrow> u8 \<Rightarrow> u8 \<times> 's" and dec :: "'s \<Rightarrow> u8 \<Rightarrow> u8 \<times> 's"
  assumes undo: "enc s x = (y, s') \<Longrightarrow> dec s y = (x, s')"
begin

lemma run_undo: "run enc s xs = (ys, s') \<Longrightarrow> run dec s ys = (xs, s')"
proof (induction xs arbitrary: s ys)
  case (Cons x xs)
  then obtain y s1 zs where "enc s x = (y, s1)" "run enc s1 xs = (zs, s')" "ys = y # zs"
    by (auto split: prod.splits)
  then show ?case using Cons.IH undo by simp
qed simp

lemma same_final_state: "run enc s xs = (ys, s') \<Longrightarrow> snd (run dec s ys) = s'"
  using run_undo by fastforce

end

text \<open>
  The interface of a mode that adds a pad to the text: a state has a pad and the number of its bytes
  that are used; when it is used up, \<open>refresh\<close> makes a new one.
\<close>

locale pad_mode =
  fixes step :: "'s \<Rightarrow> u8 \<Rightarrow> u8 \<times> 's" and refresh :: "'s \<Rightarrow> 's" and pad :: "'s \<Rightarrow> u8 list"
    and used :: "'s \<Rightarrow> nat" and set_used :: "nat \<Rightarrow> 's \<Rightarrow> 's"
  assumes step: "step s x = (let s1 = (if used s = 0 then refresh s else s) in (x XOR pad s1 ! used s, set_used ((used s + 1) mod 16) s1))"
    and used_set [simp]: "used (set_used n s) = n"
    and pad_set [simp]: "pad (set_used n s) = pad s"
    and set_set [simp]: "set_used n (set_used k s) = set_used n s"
    and set_same [simp]: "set_used (used s) s = s"
begin

lemma run_begun:
  "\<lbrakk>used s = n; 0 < n; n < 16; n + length xs \<le> 16; length (pad s) = 16\<rbrakk> \<Longrightarrow>
    run step s xs = (xor_bytes xs (drop n (pad s)), set_used ((n + length xs) mod 16) s)"
proof (induction xs arbitrary: s n)
  case Nil
  then show ?case by auto
next
  case (Cons x xs)
  have s: "step s x = (x XOR pad s ! n, set_used ((n + 1) mod 16) s)" using Cons.prems by (simp add: step Let_def)
  have d: "drop n (pad s) = pad s ! n # drop (n + 1) (pad s)" using Cons.prems by (simp add: Cons_nth_drop_Suc)
  show ?case
  proof (cases "xs = []")
    case True
    then show ?thesis using s d by simp
  next
    case False
    then have n: "n + 1 < 16" using Cons.prems(4) by (cases xs) auto
    have "run step (set_used (n + 1) s) xs = (xor_bytes xs (drop (n + 1) (pad s)), set_used ((n + 1 + length xs) mod 16) s)"
      using Cons.IH [of "set_used (n + 1) s" "n + 1"] Cons.prems n by simp
    then show ?thesis using s d n by simp
  qed
qed

lemma run_fresh:
  assumes "used s = 0" "xs \<noteq> []" "length xs \<le> 16" "length (pad (refresh s)) = 16"
  shows "run step s xs = (xor_bytes xs (pad (refresh s)), set_used (length xs mod 16) (refresh s))"
proof -
  obtain x ys where xs: "xs = x # ys" using assms(2) by (cases xs) auto
  obtain p ps where p: "pad (refresh s) = p # ps" using assms(4) by (cases "pad (refresh s)") auto
  have s: "step s x = (x XOR p, set_used 1 (refresh s))" using assms(1) p by (simp add: step Let_def)
  have "run step (set_used 1 (refresh s)) ys = (xor_bytes ys ps, set_used ((1 + length ys) mod 16) (refresh s))"
    using run_begun [of "set_used 1 (refresh s)" 1 ys] assms(3,4) xs p by simp
  then show ?thesis using s xs p by simp
qed

text \<open>The loop over a block that was begun, a whole block and the rest.\<close>

lemma head_phase:
  "\<lbrakk>used s < 16; length (pad s) = 16; input_ahead inp outp len\<rbrakk> \<Longrightarrow>
    \<exists>m' inp' outp' len' n'. xor_head m inp outp len (pad s) (used s) = (m', inp', outp', len', n') \<and>
      phase step (m, inp, outp, len, s) (m', inp', outp', len', set_used n' s) \<and> n' < 16 \<and> (n' = 0 \<or> len' = 0)"
proof (induction len arbitrary: m inp outp s)
  case 0
  then show ?case by (simp add: xor_head.simps [of m inp outp 0] phase_refl)
next
  case (Suc len)
  show ?case
  proof (cases "used s = 0")
    case True
    then show ?thesis using set_same [of s] by (simp add: xor_head.simps [of m inp outp "Suc len"] phase_refl)
  next
    case False
    let ?b = "m inp XOR pad s ! used s" and ?n = "(used s + 1) mod 16"
    have s: "step s (m inp) = (?b, set_used ?n s)" using False by (simp add: step Let_def)
    then have p: "phase step (m, inp, outp, Suc len, s) (put_bytes m outp [?b], inp + 1, outp + 1, len, set_used ?n s)"
      using phaseI [of 1 "Suc len" step s m inp "[?b]"] by simp
    have a: "input_ahead (inp + 1) (outp + 1) len" using input_ahead_add [OF Suc.prems(3), of 1] by simp
    from Suc.IH [of "set_used ?n s", OF _ _ a, of "put_bytes m outp [?b]"] obtain m' inp' outp' len' n' where
      r: "xor_head (put_bytes m outp [?b]) (inp + 1) (outp + 1) len (pad s) ?n = (m', inp', outp', len', n')"
      and q: "phase step (put_bytes m outp [?b], inp + 1, outp + 1, len, set_used ?n s) (m', inp', outp', len', set_used n' s)"
      and n: "n' < 16" "n' = 0 \<or> len' = 0"
      using Suc.prems(2) by auto
    have "xor_head m inp outp (Suc len) (pad s) (used s) = (m', inp', outp', len', n')"
      using r False by (simp add: xor_head.simps [of m inp outp "Suc len"])
    then show ?thesis using phase_trans [OF p q Suc.prems(3)] n by blast
  qed
qed

lemma block_phase:
  assumes "used s = 0" "length (pad (refresh s)) = 16" "input_ahead inp outp len" "16 \<le> len"
  shows "phase step (m, inp, outp, len, s) (xor_words m inp outp (pad (refresh s)) 0, inp + 16, outp + 16, len - 16, set_used 0 (refresh s))"
proof -
  have "get_bytes m inp 16 \<noteq> []" by (metis length_get_bytes list.size(3) zero_neq_numeral)
  then have "run step s (get_bytes m inp 16) = (xor_bytes (get_bytes m inp 16) (pad (refresh s)), set_used 0 (refresh s))"
    using run_fresh [OF assms(1), of "get_bytes m inp 16"] assms(2) by simp
  from phaseI [OF assms(4) this] show ?thesis
    using xor_words_spec [OF assms(2) input_ahead_take [OF assms(3,4)]] by simp
qed

lemma tail_phase:
  assumes "used s = 0" "length (pad (refresh s)) = 16" "input_ahead inp outp len" "0 < len" "len < 16"
  shows "\<exists>m'. xor_tail m inp outp len (pad (refresh s)) 0 = (m', len) \<and>
    phase step (m, inp, outp, len, s) (m', inp + len, outp + len, 0, set_used len (refresh s))"
proof -
  have "get_bytes m inp len \<noteq> []" using assms(4) by (metis length_get_bytes list.size(3) less_irrefl)
  then have "run step s (get_bytes m inp len) = (xor_bytes (get_bytes m inp len) (pad (refresh s)), set_used len (refresh s))"
    using run_fresh [OF assms(1), of "get_bytes m inp len"] assms(2,5) by simp
  from phaseI [OF order_refl this] show ?thesis
    using xor_tail_spec [of inp 0 outp len "pad (refresh s)" m] assms by simp
qed

end

text \<open>A call of a mode is its steps over the bytes, and two calls one after the other are one.\<close>

locale bytewise =
  fixes call :: "mem \<Rightarrow> nat \<Rightarrow> nat \<Rightarrow> nat \<Rightarrow> 's \<Rightarrow> mem \<times> 's" and step :: "'s \<Rightarrow> u8 \<Rightarrow> u8 \<times> 's" and ok :: "'s \<Rightarrow> bool"
  assumes call: "\<lbrakk>ok s; input_ahead inp outp len\<rbrakk> \<Longrightarrow>
      call m inp outp len s = (case run step s (get_bytes m inp len) of (ys, s') \<Rightarrow> (put_bytes m outp ys, s'))"
    and ok: "ok s \<Longrightarrow> ok (snd (step s x))"
begin

lemma run_ok: "\<lbrakk>ok s; run step s xs = (ys, s')\<rbrakk> \<Longrightarrow> ok s'"
proof (induction xs arbitrary: s ys)
  case (Cons x xs)
  then obtain y s1 zs where "step s x = (y, s1)" "run step s1 xs = (zs, s')" by (auto split: prod.splits)
  then show ?case using Cons.IH ok [OF Cons.prems(1), of x] by simp
qed simp

lemma cut:
  assumes s: "ok s" and i: "input_ahead inp outp (a + b)"
  shows "call m inp outp (a + b) s = (case call m inp outp a s of (m1, s1) \<Rightarrow> call m1 (inp + a) (outp + a) b s1)"
proof -
  obtain ys s1 where r: "run step s (get_bytes m inp a) = (ys, s1)" by (cases "run step s (get_bytes m inp a)")
  obtain zs s2 where q: "run step s1 (get_bytes m (inp + a) b) = (zs, s2)" by (cases "run step s1 (get_bytes m (inp + a) b)")
  have l: "length ys = a" using run_length [OF r] by simp
  have "call m inp outp (a + b) s = (put_bytes m outp (ys @ zs), s2)"
    using r q by (simp add: call [OF s i] get_bytes_add run_append)
  moreover have "call m inp outp a s = (put_bytes m outp ys, s1)"
    using r by (simp add: call [OF s input_ahead_take [OF i]])
  moreover have "call (put_bytes m outp ys) (inp + a) (outp + a) b s1 = (put_bytes (put_bytes m outp ys) (outp + a) zs, s2)"
    using q input_ahead_add [OF i, of a] get_ahead [OF i, of ys b m] l by (simp add: call [OF run_ok [OF s r]])
  ultimately show ?thesis using put_bytes_append [of m outp ys zs] l by simp
qed

lemma outside:
  assumes "ok s" "input_ahead inp outp len" "x < outp \<or> outp + len \<le> x"
  shows "fst (call m inp outp len s) x = m x"
proof -
  obtain ys s1 where r: "run step s (get_bytes m inp len) = (ys, s1)" by (cases "run step s (get_bytes m inp len)")
  then have "length ys = len" using run_length [OF r] by simp
  then show ?thesis using r assms by (auto simp: call put_bytes_def)
qed

end

text \<open>A mode and the mode that undoes it.\<close>

locale inverse_calls = stream_mode enc dec + e: bytewise call_enc enc ok + d: bytewise call_dec dec ok
  for enc :: "'s \<Rightarrow> u8 \<Rightarrow> u8 \<times> 's" and dec :: "'s \<Rightarrow> u8 \<Rightarrow> u8 \<times> 's"
    and call_enc :: "mem \<Rightarrow> nat \<Rightarrow> nat \<Rightarrow> nat \<Rightarrow> 's \<Rightarrow> mem \<times> 's" and call_dec :: "mem \<Rightarrow> nat \<Rightarrow> nat \<Rightarrow> nat \<Rightarrow> 's \<Rightarrow> mem \<times> 's"
    and ok :: "'s \<Rightarrow> bool"
begin

lemma undo_call:
  assumes s: "ok s" and i: "input_ahead inp outp len" "input_ahead outp dst len"
  shows "case call_enc m inp outp len s of (m1, s1) \<Rightarrow> case call_dec m1 outp dst len s of (m2, s2) \<Rightarrow>
    get_bytes m2 dst len = get_bytes m inp len \<and> s2 = s1"
proof -
  obtain ys s' where r: "run enc s (get_bytes m inp len) = (ys, s')" by (cases "run enc s (get_bytes m inp len)")
  have l: "length ys = len" using run_length [OF r] by simp
  have e: "call_enc m inp outp len s = (put_bytes m outp ys, s')" using r by (simp add: e.call [OF s i(1)])
  have g: "get_bytes (put_bytes m outp ys) outp len = ys" using get_put_same [of m outp ys] l by simp
  have "call_dec (put_bytes m outp ys) outp dst len s = (put_bytes (put_bytes m outp ys) dst (get_bytes m inp len), s')"
    using run_undo [OF r] by (simp add: d.call [OF s i(2)] g)
  then show ?thesis using e get_put_same [of "put_bytes m outp ys" dst "get_bytes m inp len"] by simp
qed

end

end
