(* ===== verification/Modes_Bytewise.thy ===== *)
theory Modes_Bytewise
  imports Modes_Stream
begin

text \<open>
  Counter mode, output feedback and the two cipher feedback modes do what their steps over single
  bytes say, whatever block a call begins or ends in (\<open>ctr128_bytewise\<close>, \<open>ofb128_bytewise\<close>,
  \<open>cfb128_bytewise\<close>, \<open>cfb8_bytewise\<close>); the locales of Modes_Stream are interpreted on them.
\<close>

section \<open>Counter mode and output feedback, one byte at a time\<close>

type_synonym ctr_state = "u8 list \<times> u8 list \<times> nat"

definition ctr_refresh :: "'k block128_f \<Rightarrow> 'k \<Rightarrow> ctr_state \<Rightarrow> ctr_state" where
  "ctr_refresh block key = (\<lambda>(ivec, ec, n). (ctr128_inc ivec, block key ivec, n))"

definition ctr_pad :: "ctr_state \<Rightarrow> u8 list" where "ctr_pad = (\<lambda>(ivec, ec, n). ec)"
definition ctr_used :: "ctr_state \<Rightarrow> nat" where "ctr_used = (\<lambda>(ivec, ec, n). n)"
definition ctr_set_used :: "nat \<Rightarrow> ctr_state \<Rightarrow> ctr_state" where "ctr_set_used k = (\<lambda>(ivec, ec, n). (ivec, ec, k))"

definition ctr_step :: "'k block128_f \<Rightarrow> 'k \<Rightarrow> ctr_state \<Rightarrow> u8 \<Rightarrow> u8 \<times> ctr_state" where
  "ctr_step block key s x =
     (let s1 = (if ctr_used s = 0 then ctr_refresh block key s else s)
      in (x XOR ctr_pad s1 ! ctr_used s, ctr_set_used ((ctr_used s + 1) mod 16) s1))"

type_synonym ofb_state = "u8 list \<times> nat"

definition ofb_refresh :: "'k block128_f \<Rightarrow> 'k \<Rightarrow> ofb_state \<Rightarrow> ofb_state" where
  "ofb_refresh block key = (\<lambda>(ivec, n). (block key ivec, n))"

definition ofb_set_used :: "nat \<Rightarrow> ofb_state \<Rightarrow> ofb_state" where "ofb_set_used k = (\<lambda>(ivec, n). (ivec, k))"

definition ofb_step :: "'k block128_f \<Rightarrow> 'k \<Rightarrow> ofb_state \<Rightarrow> u8 \<Rightarrow> u8 \<times> ofb_state" where
  "ofb_step block key s x =
     (let s1 = (if snd s = 0 then ofb_refresh block key s else s)
      in (x XOR fst s1 ! snd s, ofb_set_used ((snd s + 1) mod 16) s1))"

interpretation ctr: pad_mode "ctr_step block key" "ctr_refresh block key" ctr_pad ctr_used ctr_set_used for block key
  by unfold_locales (auto simp: ctr_step_def ctr_refresh_def ctr_pad_def ctr_used_def ctr_set_used_def split: prod.splits)

interpretation ofb: pad_mode "ofb_step block key" "ofb_refresh block key" fst snd ofb_set_used for block key
  by unfold_locales (auto simp: ofb_step_def ofb_refresh_def ofb_set_used_def split: prod.splits)

interpretation ctr_stream: stream_mode "ctr_step block key" "ctr_step block key" for block key
  by unfold_locales (auto simp: ctr_step_def Let_def xor.assoc)

interpretation ofb_stream: stream_mode "ofb_step block key" "ofb_step block key" for block key
  by unfold_locales (auto simp: ofb_step_def Let_def xor.assoc)

text \<open>The counter as a number.\<close>

lemma add_u8_value: "unat c < 256 \<Longrightarrow> unat (c + ucast (x :: u8) :: u32) = unat c + unat x"
proof -
  assume c: "unat c < 256"
  have x: "unat x < 256" by (rule unat_u8_less)
  have "unat c + unat x < 4294967296" using c x by linarith
  then show ?thesis by (simp add: unat_word_ariths(1))
qed

lemma inc_loop_value:
  "\<lbrakk>n \<le> length xs; unat c < 256\<rbrakk> \<Longrightarrow> inc_loop xs n c = be_bytes n (be_val (take n xs) + unat c) @ drop n xs"
proof (induction n arbitrary: xs c)
  case (Suc n)
  let ?x = "xs ! n" and ?s = "c + ucast (xs ! n) :: u32"
  have u: "unat (ucast ?x :: u32) = unat ?x" by simp
  then have s: "unat ?s = unat c + unat ?x" using add_u8_value [of c ?x] Suc.prems(2) by simp
  then have d: "unat (drop_bit 8 ?s) = (unat c + unat ?x) div 256" by (simp add: unat_drop_bit)
  have "unat (drop_bit 8 ?s) < 256" unfolding d using Suc.prems(2) unat_u8_less [of ?x] by linarith
  then have "inc_loop (xs[n := ucast ?s]) n (drop_bit 8 ?s) =
      be_bytes n (be_val (take n xs) + (unat c + unat ?x) div 256) @ drop n (xs[n := ucast ?s])"
    using Suc.IH [of "xs[n := ucast ?s]" "drop_bit 8 ?s"] Suc.prems(1) unfolding d by simp
  moreover have "drop n (xs[n := ucast ?s]) = ucast ?s # drop (Suc n) xs"
    using Suc.prems(1) by (simp add: Cons_nth_drop_Suc [symmetric] drop_update_swap)
  moreover have "(ucast ?s :: u8) = of_nat (be_val (take n xs) * 256 + unat ?x + unat c)"
  proof -
    have "of_nat (be_val (take n xs) * 256) = (0 :: u8)" by (subst word_of_nat_eq_0_iff) simp
    then have "(of_nat (be_val (take n xs) * 256 + unat ?x + unat c) :: u8) = of_nat (unat c + unat ?x)"
      by (simp only: of_nat_add) simp
    then show ?thesis unfolding s [symmetric] by simp
  qed
  moreover have "be_val (take (Suc n) xs) = be_val (take n xs) * 256 + unat ?x"
    using Suc.prems(1) by (simp add: take_Suc_conv_app_nth)
  moreover have "(be_val (take n xs) * 256 + unat ?x + unat c) div 256 = be_val (take n xs) + (unat c + unat ?x) div 256"
  proof -
    have "be_val (take n xs) * 256 + unat ?x + unat c = (unat c + unat ?x) + be_val (take n xs) * 256" by simp
    then show ?thesis by (simp only: div_mult_self1)
  qed
  ultimately show ?case by (simp add: Let_def)
qed simp

lemma ctr128_inc_value: "length ivec = 16 \<Longrightarrow> ctr128_inc ivec = be_bytes 16 (be_val ivec + 1)"
  using inc_loop_value [of 16 ivec 1] by (simp add: ctr128_inc_def)

lemma ctr96_inc_value: "length ivec = 16 \<Longrightarrow> ctr96_inc ivec = be_bytes 12 (be_val (take 12 ivec) + 1) @ drop 12 ivec"
  using inc_loop_value [of 12 ivec 1] by (simp add: ctr96_inc_def)

definition ctr_state_ok :: "ctr_state \<Rightarrow> bool" where
  "ctr_state_ok = (\<lambda>(ivec, ec, n). length ivec = 16 \<and> length ec = 16 \<and> n < 16)"

lemma ctr128_blocks_phase:
  "\<lbrakk>block_ok block key; ctr_state_ok (ivec, ec, n); n = 0 \<or> len = 0; input_ahead inp outp len\<rbrakk> \<Longrightarrow>
    \<exists>m' inp' outp' len' ivec' ec' n'. ctr128_blocks block key m inp outp len ivec ec n = (m', inp', outp', len', ivec', ec', n') \<and>
      phase (ctr_step block key) (m, inp, outp, len, (ivec, ec, n)) (m', inp', outp', len', (ivec', ec', n')) \<and>
      ctr_state_ok (ivec', ec', n') \<and> (n' = 0 \<or> len' = 0) \<and> len' < 16"
proof (induction len arbitrary: m inp outp ivec ec n rule: less_induct)
  case (less len)
  show ?case
  proof (cases "16 \<le> len")
    case True
    then have n: "n = 0" using less.prems(3) by simp
    let ?iv = "ctr128_inc ivec" and ?ec = "block key ivec" and ?m = "xor_words m inp outp (block key ivec) 0"
    have l: "length ?ec = 16" "length ?iv = 16"
      using less.prems(1,2) by (simp_all add: block_ok_def ctr_state_ok_def ctr128_inc_value)
    have r: "ctr_refresh block key (ivec, ec, n) = (?iv, ?ec, 0)" by (simp add: ctr_refresh_def n)
    have p: "phase (ctr_step block key) (m, inp, outp, len, (ivec, ec, n)) (?m, inp + 16, outp + 16, len - 16, (?iv, ?ec, 0))"
      using ctr.block_phase [of "(ivec, ec, n)" block key inp outp len m] l less.prems(4) True
      unfolding r by (simp add: ctr_used_def ctr_pad_def ctr_set_used_def n)
    have a: "input_ahead (inp + 16) (outp + 16) (len - 16)" by (rule input_ahead_add [OF less.prems(4) True])
    have "ctr_state_ok (?iv, ?ec, 0)" using l by (simp add: ctr_state_ok_def)
    from less.IH [OF _ less.prems(1) this _ a, of ?m] True obtain m' inp' outp' len' ivec' ec' n' where
      e: "ctr128_blocks block key ?m (inp + 16) (outp + 16) (len - 16) ?iv ?ec 0 = (m', inp', outp', len', ivec', ec', n')"
      and q: "phase (ctr_step block key) (?m, inp + 16, outp + 16, len - 16, (?iv, ?ec, 0)) (m', inp', outp', len', (ivec', ec', n'))"
      and f: "ctr_state_ok (ivec', ec', n')" "n' = 0 \<or> len' = 0" "len' < 16" by auto
    have "ctr128_blocks block key m inp outp len ivec ec n = (m', inp', outp', len', ivec', ec', n')"
      using e True by (simp add: ctr128_blocks.simps [of block key m inp outp len] Let_def)
    then show ?thesis using phase_trans [OF p q less.prems(4)] f by blast
  next
    case False
    then show ?thesis using less.prems(2,3) by (simp add: ctr128_blocks.simps [of block key m inp outp len] phase_refl)
  qed
qed

lemma ctr128_bytewise:
  assumes b: "block_ok block key" and s: "ctr_state_ok (ivec, ec, num)" and a: "input_ahead inp outp len"
  shows "CRYPTO_ctr128_encrypt m inp outp len key ivec ec num block =
    (case run (ctr_step block key) (ivec, ec, num) (get_bytes m inp len) of (ys, s') \<Rightarrow> (put_bytes m outp ys, s'))"
proof -
  let ?step = "ctr_step block key"
  obtain m1 inp1 outp1 len1 n1 where h: "xor_head m inp outp len ec num = (m1, inp1, outp1, len1, n1)"
    and p1: "phase ?step (m, inp, outp, len, (ivec, ec, num)) (m1, inp1, outp1, len1, (ivec, ec, n1))"
    and n1: "n1 < 16" "n1 = 0 \<or> len1 = 0"
    using ctr.head_phase [of "(ivec, ec, num)" inp outp len m block key] s a
    by (auto simp: ctr_used_def ctr_pad_def ctr_set_used_def ctr_state_ok_def)
  note a1 = phase_ahead [OF p1 a]
  have s1: "ctr_state_ok (ivec, ec, n1)" using s n1 by (simp add: ctr_state_ok_def)
  from ctr128_blocks_phase [OF b s1 n1(2) a1, of m1] obtain m2 inp2 outp2 len2 iv2 ec2 n2 where
    e2: "ctr128_blocks block key m1 inp1 outp1 len1 ivec ec n1 = (m2, inp2, outp2, len2, iv2, ec2, n2)"
    and p2: "phase ?step (m1, inp1, outp1, len1, (ivec, ec, n1)) (m2, inp2, outp2, len2, (iv2, ec2, n2))"
    and s2: "ctr_state_ok (iv2, ec2, n2)" "n2 = 0 \<or> len2 = 0" "len2 < 16" by blast
  note p = phase_trans [OF p1 p2 a]
  note a2 = phase_ahead [OF p2 a1]
  show ?thesis
  proof (cases "len2 = 0")
    case True
    then obtain ys where "run ?step (ivec, ec, num) (get_bytes m inp len) = (ys, (iv2, ec2, n2))" "m2 = put_bytes m outp ys"
      using phase_end [OF p [unfolded True]] by blast
    then show ?thesis using h e2 True by (simp add: CRYPTO_ctr128_encrypt_def)
  next
    case False
    then have n2: "n2 = 0" using s2(2) by simp
    have r: "ctr_refresh block key (iv2, ec2, n2) = (ctr128_inc iv2, block key iv2, 0)" by (simp add: ctr_refresh_def n2)
    have l: "length (block key iv2) = 16" using b s2(1) by (simp add: block_ok_def ctr_state_ok_def)
    obtain m3 where t: "xor_tail m2 inp2 outp2 len2 (block key iv2) 0 = (m3, len2)"
      and p3: "phase ?step (m2, inp2, outp2, len2, (iv2, ec2, n2)) (m3, inp2 + len2, outp2 + len2, 0, (ctr128_inc iv2, block key iv2, len2))"
      using ctr.tail_phase [of "(iv2, ec2, n2)" block key inp2 outp2 len2 m2] l a2 s2(3) False n2
      unfolding r by (auto simp: ctr_used_def ctr_pad_def ctr_set_used_def)
    obtain ys where "run ?step (ivec, ec, num) (get_bytes m inp len) = (ys, (ctr128_inc iv2, block key iv2, len2))" "m3 = put_bytes m outp ys"
      using phase_end [OF phase_trans [OF p p3 a]] by blast
    then show ?thesis using h e2 t n2 False by (simp add: CRYPTO_ctr128_encrypt_def Let_def)
  qed
qed

lemma ctr_step_ok:
  assumes "block_ok block key" "ctr_state_ok s"
  shows "ctr_state_ok (snd (ctr_step block key s x))"
proof -
  obtain ivec ec n where s: "s = (ivec, ec, n)" by (cases s)
  have "length (ctr128_inc ivec) = 16" "length (block key ivec) = 16"
    using assms by (simp_all add: s block_ok_def ctr_state_ok_def ctr128_inc_value)
  then show ?thesis
    using assms(2) by (simp add: s ctr_state_ok_def ctr_step_def ctr_refresh_def ctr_used_def ctr_set_used_def Let_def)
qed

definition ofb_state_ok :: "ofb_state \<Rightarrow> bool" where
  "ofb_state_ok = (\<lambda>(ivec, n). length ivec = 16 \<and> n < 16)"

lemma ofb128_blocks_phase:
  "\<lbrakk>block_ok block key; ofb_state_ok (ivec, n); n = 0 \<or> len = 0; input_ahead inp outp len\<rbrakk> \<Longrightarrow>
    \<exists>m' inp' outp' len' ivec' n'. ofb128_blocks block key m inp outp len ivec n = (m', inp', outp', len', ivec', n') \<and>
      phase (ofb_step block key) (m, inp, outp, len, (ivec, n)) (m', inp', outp', len', (ivec', n')) \<and>
      ofb_state_ok (ivec', n') \<and> (n' = 0 \<or> len' = 0) \<and> len' < 16"
proof (induction len arbitrary: m inp outp ivec n rule: less_induct)
  case (less len)
  show ?case
  proof (cases "16 \<le> len")
    case True
    then have n: "n = 0" using less.prems(3) by simp
    let ?iv = "block key ivec" and ?m = "xor_words m inp outp (block key ivec) 0"
    have l: "length ?iv = 16" using less.prems(1,2) by (simp add: block_ok_def ofb_state_ok_def)
    have r: "ofb_refresh block key (ivec, n) = (?iv, 0)" by (simp add: ofb_refresh_def n)
    have p: "phase (ofb_step block key) (m, inp, outp, len, (ivec, n)) (?m, inp + 16, outp + 16, len - 16, (?iv, 0))"
      using ofb.block_phase [of "(ivec, n)" block key inp outp len m] l less.prems(4) True
      unfolding r by (simp add: ofb_set_used_def n)
    have a: "input_ahead (inp + 16) (outp + 16) (len - 16)" by (rule input_ahead_add [OF less.prems(4) True])
    have "ofb_state_ok (?iv, 0)" using l by (simp add: ofb_state_ok_def)
    from less.IH [OF _ less.prems(1) this _ a, of ?m] True obtain m' inp' outp' len' ivec' n' where
      e: "ofb128_blocks block key ?m (inp + 16) (outp + 16) (len - 16) ?iv 0 = (m', inp', outp', len', ivec', n')"
      and q: "phase (ofb_step block key) (?m, inp + 16, outp + 16, len - 16, (?iv, 0)) (m', inp', outp', len', (ivec', n'))"
      and f: "ofb_state_ok (ivec', n')" "n' = 0 \<or> len' = 0" "len' < 16" by auto
    have "ofb128_blocks block key m inp outp len ivec n = (m', inp', outp', len', ivec', n')"
      using e True n by (simp add: ofb128_blocks.simps [of block key m inp outp len] Let_def)
    then show ?thesis using phase_trans [OF p q less.prems(4)] f by blast
  next
    case False
    then show ?thesis using less.prems(2,3) by (simp add: ofb128_blocks.simps [of block key m inp outp len] phase_refl)
  qed
qed

lemma ofb128_bytewise:
  assumes b: "block_ok block key" and s: "ofb_state_ok (ivec, num)" and a: "input_ahead inp outp len"
  shows "CRYPTO_ofb128_encrypt m inp outp len key ivec num block =
    (case run (ofb_step block key) (ivec, num) (get_bytes m inp len) of (ys, s') \<Rightarrow> (put_bytes m outp ys, s'))"
proof -
  let ?step = "ofb_step block key"
  obtain m1 inp1 outp1 len1 n1 where h: "xor_head m inp outp len ivec num = (m1, inp1, outp1, len1, n1)"
    and p1: "phase ?step (m, inp, outp, len, (ivec, num)) (m1, inp1, outp1, len1, (ivec, n1))"
    and n1: "n1 < 16" "n1 = 0 \<or> len1 = 0"
    using ofb.head_phase [of "(ivec, num)" inp outp len m block key] s a by (auto simp: ofb_set_used_def ofb_state_ok_def)
  note a1 = phase_ahead [OF p1 a]
  have s1: "ofb_state_ok (ivec, n1)" using s n1 by (simp add: ofb_state_ok_def)
  from ofb128_blocks_phase [OF b s1 n1(2) a1, of m1] obtain m2 inp2 outp2 len2 iv2 n2 where
    e2: "ofb128_blocks block key m1 inp1 outp1 len1 ivec n1 = (m2, inp2, outp2, len2, iv2, n2)"
    and p2: "phase ?step (m1, inp1, outp1, len1, (ivec, n1)) (m2, inp2, outp2, len2, (iv2, n2))"
    and s2: "ofb_state_ok (iv2, n2)" "n2 = 0 \<or> len2 = 0" "len2 < 16" by blast
  note p = phase_trans [OF p1 p2 a]
  note a2 = phase_ahead [OF p2 a1]
  show ?thesis
  proof (cases "len2 = 0")
    case True
    then obtain ys where "run ?step (ivec, num) (get_bytes m inp len) = (ys, (iv2, n2))" "m2 = put_bytes m outp ys"
      using phase_end [OF p [unfolded True]] by blast
    then show ?thesis using h e2 True by (simp add: CRYPTO_ofb128_encrypt_def)
  next
    case False
    then have n2: "n2 = 0" using s2(2) by simp
    have r: "ofb_refresh block key (iv2, n2) = (block key iv2, 0)" by (simp add: ofb_refresh_def n2)
    have l: "length (block key iv2) = 16" using b s2(1) by (simp add: block_ok_def ofb_state_ok_def)
    obtain m3 where t: "xor_tail m2 inp2 outp2 len2 (block key iv2) 0 = (m3, len2)"
      and p3: "phase ?step (m2, inp2, outp2, len2, (iv2, n2)) (m3, inp2 + len2, outp2 + len2, 0, (block key iv2, len2))"
      using ofb.tail_phase [of "(iv2, n2)" block key inp2 outp2 len2 m2] l a2 s2(3) False n2
      unfolding r by (auto simp: ofb_set_used_def)
    obtain ys where "run ?step (ivec, num) (get_bytes m inp len) = (ys, (block key iv2, len2))" "m3 = put_bytes m outp ys"
      using phase_end [OF phase_trans [OF p p3 a]] by blast
    then show ?thesis using h e2 t n2 False by (simp add: CRYPTO_ofb128_encrypt_def Let_def)
  qed
qed

section \<open>Cipher feedback, one byte at a time\<close>

definition cfb_step :: "'k block128_f \<Rightarrow> 'k \<Rightarrow> bool \<Rightarrow> ofb_state \<Rightarrow> u8 \<Rightarrow> u8 \<times> ofb_state" where
  "cfb_step block key enc = (\<lambda>(ivec, n) x.
     let iv = (if n = 0 then block key ivec else ivec); y = iv ! n XOR x
     in (y, (iv[n := (if enc then y else x)], (n + 1) mod 16)))"

text \<open>The state before a byte at \<open>n\<close>, with the feedback register as the loop has it.\<close>

definition cfb_at :: "'k block128_f \<Rightarrow> 'k \<Rightarrow> u8 list \<Rightarrow> nat \<Rightarrow> ofb_state \<Rightarrow> bool" where
  "cfb_at block key iv n s \<longleftrightarrow> (if n = 0 then snd s = 0 \<and> iv = block key (fst s) else s = (iv, n))"

lemma cfb_step_at:
  "cfb_at block key iv n s \<Longrightarrow> cfb_step block key enc s x = (iv ! n XOR x, (iv[n := (if enc then iv ! n XOR x else x)], (n + 1) mod 16))"
  by (auto simp: cfb_at_def cfb_step_def Let_def split: if_splits prod.splits)

lemma cfb_run:
  "\<lbrakk>cfb_at block key iv n s; xs \<noteq> []; n + length xs \<le> 16; length iv = 16\<rbrakk> \<Longrightarrow>
    run (cfb_step block key enc) s xs =
      (xor_bytes (drop n iv) xs,
       (take n iv @ (if enc then xor_bytes (drop n iv) xs else xs) @ drop (n + length xs) iv, (n + length xs) mod 16))"
proof (induction xs arbitrary: iv n s)
  case (Cons x xs)
  let ?f = "if enc then iv ! n XOR x else x"
  let ?iv = "iv[n := ?f]"
  have d: "drop n iv = iv ! n # drop (Suc n) iv" using Cons.prems(3,4) by (simp add: Cons_nth_drop_Suc)
  have u: "take n iv @ ?f # drop (Suc n) iv = ?iv" "n < length iv" using Cons.prems(3,4) by (simp_all add: upd_conv_take_nth_drop)
  have s: "cfb_step block key enc s x = (iv ! n XOR x, (?iv, (n + 1) mod 16))" by (rule cfb_step_at [OF Cons.prems(1)])
  show ?case
  proof (cases "xs = []")
    case True
    then show ?thesis using s d u by auto
  next
    case False
    then have n: "n + 1 < 16" using Cons.prems(3) by (cases xs) auto
    have "cfb_at block key ?iv (n + 1) (?iv, n + 1)" by (simp add: cfb_at_def)
    from Cons.IH [OF this False] n Cons.prems(3,4)
    have "run (cfb_step block key enc) (?iv, n + 1) xs =
        (xor_bytes (drop (n + 1) ?iv) xs, (take (n + 1) ?iv @ (if enc then xor_bytes (drop (n + 1) ?iv) xs else xs) @ drop (n + 1 + length xs) ?iv,
          (n + 1 + length xs) mod 16))" by simp
    moreover have "drop (n + 1) ?iv = drop (Suc n) iv" "take (n + 1) ?iv = take n iv @ [?f]" "drop (n + 1 + length xs) ?iv = drop (n + 1 + length xs) iv"
      using u(2) by (simp_all add: take_Suc_conv_app_nth)
    ultimately show ?thesis using s d n by simp
  qed
qed simp

interpretation cfb: stream_mode "cfb_step block key True" "cfb_step block key False" for block key
  by unfold_locales (auto simp: cfb_step_def Let_def xor.assoc [symmetric] split: prod.splits)

lemma cfb_head_phase:
  "\<lbrakk>ofb_state_ok (iv, n); input_ahead inp outp len\<rbrakk> \<Longrightarrow>
    \<exists>m' inp' outp' len' iv' n'. cfb_head enc m inp outp len iv n = (m', inp', outp', len', iv', n') \<and>
      phase (cfb_step block key enc) (m, inp, outp, len, (iv, n)) (m', inp', outp', len', (iv', n')) \<and>
      ofb_state_ok (iv', n') \<and> (n' = 0 \<or> len' = 0)"
proof (induction len arbitrary: m inp outp iv n)
  case 0
  then show ?case by (simp add: cfb_head.simps [of enc m inp outp 0] phase_refl)
next
  case (Suc len)
  show ?case
  proof (cases "n = 0")
    case True
    then show ?thesis using Suc.prems by (simp add: cfb_head.simps [of enc m inp outp "Suc len"] phase_refl)
  next
    case False
    let ?r = "iv ! n XOR m inp" and ?n = "(n + 1) mod 16"
    let ?iv = "iv[n := (if enc then ?r else m inp)]"
    have s: "cfb_step block key enc (iv, n) (m inp) = (?r, (?iv, ?n))" using False by (simp add: cfb_step_def Let_def)
    then have p: "phase (cfb_step block key enc) (m, inp, outp, Suc len, (iv, n)) (put_bytes m outp [?r], inp + 1, outp + 1, len, (?iv, ?n))"
      using phaseI [of 1 "Suc len" "cfb_step block key enc" "(iv, n)" m inp "[?r]"] by simp
    have a: "input_ahead (inp + 1) (outp + 1) len" using input_ahead_add [OF Suc.prems(2), of 1] by simp
    have o: "ofb_state_ok (?iv, ?n)" using Suc.prems(1) by (simp add: ofb_state_ok_def)
    from Suc.IH [OF o a, of "put_bytes m outp [?r]"] obtain m' inp' outp' len' iv' n' where
      r: "cfb_head enc (put_bytes m outp [?r]) (inp + 1) (outp + 1) len ?iv ?n = (m', inp', outp', len', iv', n')"
      and q: "phase (cfb_step block key enc) (put_bytes m outp [?r], inp + 1, outp + 1, len, (?iv, ?n)) (m', inp', outp', len', (iv', n'))"
      and n: "ofb_state_ok (iv', n')" "n' = 0 \<or> len' = 0" by blast
    have "cfb_head enc m inp outp (Suc len) iv n = (m', inp', outp', len', iv', n')"
      using r False by (simp add: cfb_head.simps [of enc m inp outp "Suc len"] Let_def)
    then show ?thesis using phase_trans [OF p q Suc.prems(2)] n by blast
  qed
qed

lemma cfb_words_spec:
  assumes l: "length iv = 16" and a: "input_ahead inp outp 16"
  shows "cfb_words enc m inp outp iv 0 =
    (put_bytes m outp (xor_bytes iv (get_bytes m inp 16)), if enc then xor_bytes iv (get_bytes m inp 16) else get_bytes m inp 16)"
proof -
  let ?t1 = "get_bytes m inp 8" and ?t2 = "get_bytes m (inp + 8) 8"
  let ?r1 = "xor_bytes (take 8 iv) ?t1" and ?r2 = "xor_bytes (drop 8 iv) ?t2"
  let ?f1 = "if enc then ?r1 else ?t1" and ?f2 = "if enc then ?r2 else ?t2"
  have w1: "store_word_le (arr_word iv 0 XOR load_word_le ?t1) = ?r1"
    unfolding arr_word_def using store_xor_words [of "take 8 iv" ?t1] l by simp
  have w2: "store_word_le (arr_word (?f1 @ drop 8 iv) 8 XOR load_word_le ?t2) = ?r2"
    unfolding arr_word_def using store_xor_words [of "drop 8 iv" ?t2] l by simp
  have f1: "store_word_le (if enc then arr_word iv 0 XOR load_word_le ?t1 else load_word_le ?t1) = ?f1"
    using w1 by (simp add: store_load_word)
  have f2: "store_word_le (if enc then arr_word (?f1 @ drop 8 iv) 8 XOR load_word_le ?t2 else load_word_le ?t2) = ?f2"
    using w2 by (cases enc) (simp_all add: store_load_word)
  have g: "get_bytes (put_bytes m outp ?r1) (inp + 8) 8 = ?t2"
    using get_ahead [OF a, of ?r1 8 m] l by simp
  have "cfb_words enc m inp outp iv 0 = cfb_words enc (put_bytes m outp ?r1) inp outp (?f1 @ drop 8 iv) 8"
    by (subst cfb_words.simps) (simp only: Let_def w1 f1 add_0_right, use l in \<open>simp add: arr_put_def\<close>)
  also have "\<dots> = (put_bytes (put_bytes m outp ?r1) (outp + 8) ?r2, ?f1 @ ?f2)"
    by (subst cfb_words.simps, subst cfb_words.simps) (simp only: Let_def g w2 f2, use l in \<open>simp add: arr_put_def\<close>)
  also have "put_bytes (put_bytes m outp ?r1) (outp + 8) ?r2 = put_bytes m outp (?r1 @ ?r2)"
    using put_bytes_append [of m outp ?r1 ?r2] l by simp
  also have "?r1 @ ?r2 = xor_bytes iv (get_bytes m inp 16)"
    using get_bytes_add [of m inp 8 8] l zip_append [of "take 8 iv" ?t1 "drop 8 iv" ?t2] by simp
  finally have "cfb_words enc m inp outp iv 0 = (put_bytes m outp (xor_bytes iv (get_bytes m inp 16)), ?f1 @ ?f2)" .
  moreover have "?f1 @ ?f2 = (if enc then xor_bytes iv (get_bytes m inp 16) else get_bytes m inp 16)"
    using \<open>?r1 @ ?r2 = xor_bytes iv (get_bytes m inp 16)\<close> get_bytes_add [of m inp 8 8] by simp
  ultimately show ?thesis by simp
qed

lemma cfb_tail_spec:
  "\<lbrakk>input_ahead (inp + n) (outp + n) len; n + len \<le> length iv\<rbrakk> \<Longrightarrow>
    cfb_tail enc m inp outp len iv n =
      (let xs = get_bytes m (inp + n) len; ys = xor_bytes (drop n iv) xs
       in (put_bytes m (outp + n) ys, take n iv @ (if enc then ys else xs) @ drop (n + len) iv, n + len))"
proof (induction len arbitrary: m iv n)
  case (Suc len)
  let ?r = "iv ! n XOR m (inp + n)"
  let ?f = "if enc then ?r else m (inp + n)"
  let ?iv = "iv[n := ?f]" and ?m = "put_bytes m (outp + n) [?r]" and ?xs = "get_bytes m (inp + (n + 1)) len"
  have a: "input_ahead (inp + (n + 1)) (outp + (n + 1)) len" using input_ahead_add [OF Suc.prems(1), of 1] by simp
  have g: "get_bytes ?m (inp + (n + 1)) len = ?xs"
    using get_ahead [OF Suc.prems(1), of "[?r]" len m] by simp
  have n: "n < length iv" using Suc.prems(2) by simp
  then have d: "drop n iv = iv ! n # drop (n + 1) iv" by (simp add: Cons_nth_drop_Suc)
  have u: "drop (n + 1) ?iv = drop (n + 1) iv" "take (n + 1) ?iv = take n iv @ [?f]" "drop (n + 1 + len) ?iv = drop (n + 1 + len) iv"
    using n by (simp_all add: take_Suc_conv_app_nth)
  have "cfb_tail enc m inp outp (Suc len) iv n = cfb_tail enc ?m inp outp len ?iv (n + 1)" by (simp add: Let_def)
  also have "\<dots> = (put_bytes ?m (outp + (n + 1)) (xor_bytes (drop (n + 1) iv) ?xs),
      (take n iv @ [?f]) @ (if enc then xor_bytes (drop (n + 1) iv) ?xs else ?xs) @ drop (n + 1 + len) iv, n + 1 + len)"
    using Suc.IH [OF a, of ?iv ?m] Suc.prems(2) unfolding g u Let_def by simp
  also have "put_bytes ?m (outp + (n + 1)) (xor_bytes (drop (n + 1) iv) ?xs) = put_bytes m (outp + n) (?r # xor_bytes (drop (n + 1) iv) ?xs)"
    using put_bytes_append [of m "outp + n" "[?r]"] by simp
  finally show ?case unfolding d get_bytes_Suc by (simp add: Let_def)
qed simp

lemma cfb128_blocks_phase:
  "\<lbrakk>block_ok block key; ofb_state_ok (iv, n); n = 0 \<or> len = 0; input_ahead inp outp len\<rbrakk> \<Longrightarrow>
    \<exists>m' inp' outp' len' iv' n'. cfb128_blocks block key enc m inp outp len iv n = (m', inp', outp', len', iv', n') \<and>
      phase (cfb_step block key enc) (m, inp, outp, len, (iv, n)) (m', inp', outp', len', (iv', n')) \<and>
      ofb_state_ok (iv', n') \<and> (n' = 0 \<or> len' = 0) \<and> len' < 16"
proof (induction len arbitrary: m inp outp iv n rule: less_induct)
  case (less len)
  show ?case
  proof (cases "16 \<le> len")
    case True
    then have n: "n = 0" using less.prems(3) by simp
    let ?xs = "get_bytes m inp 16"
    let ?ys = "xor_bytes (block key iv) ?xs"
    let ?iv = "if enc then ?ys else ?xs"
    have l: "length (block key iv) = 16" using less.prems(1,2) by (simp add: block_ok_def ofb_state_ok_def)
    have "?xs \<noteq> []" by (metis length_get_bytes list.size(3) zero_neq_numeral)
    then have "run (cfb_step block key enc) (iv, 0) ?xs = (?ys, (?iv, 0))"
      using cfb_run [of block key "block key iv" 0 "(iv, 0)" ?xs enc] l by (simp add: cfb_at_def)
    from phaseI [OF True this]
    have p: "phase (cfb_step block key enc) (m, inp, outp, len, (iv, n)) (put_bytes m outp ?ys, inp + 16, outp + 16, len - 16, (?iv, 0))"
      unfolding n .
    have a: "input_ahead (inp + 16) (outp + 16) (len - 16)" by (rule input_ahead_add [OF less.prems(4) True])
    have "ofb_state_ok (?iv, 0)" using l by (simp add: ofb_state_ok_def)
    from less.IH [OF _ less.prems(1) this _ a, of "put_bytes m outp ?ys"] True obtain m' inp' outp' len' iv' n' where
      e: "cfb128_blocks block key enc (put_bytes m outp ?ys) (inp + 16) (outp + 16) (len - 16) ?iv 0 = (m', inp', outp', len', iv', n')"
      and q: "phase (cfb_step block key enc) (put_bytes m outp ?ys, inp + 16, outp + 16, len - 16, (?iv, 0)) (m', inp', outp', len', (iv', n'))"
      and f: "ofb_state_ok (iv', n')" "n' = 0 \<or> len' = 0" "len' < 16" by auto
    have "cfb128_blocks block key enc m inp outp len iv n = (m', inp', outp', len', iv', n')"
      using e True n cfb_words_spec [OF l input_ahead_take [OF less.prems(4) True], of enc m]
      by (simp add: cfb128_blocks.simps [of block key enc m inp outp len])
    then show ?thesis using phase_trans [OF p q less.prems(4)] f by blast
  next
    case False
    then show ?thesis using less.prems(2,3) by (simp add: cfb128_blocks.simps [of block key enc m inp outp len] phase_refl)
  qed
qed

lemma cfb128_bytewise:
  assumes b: "block_ok block key" and s: "ofb_state_ok (ivec, num)" and a: "input_ahead inp outp len"
  shows "CRYPTO_cfb128_encrypt m inp outp len key ivec num enc block =
    (case run (cfb_step block key enc) (ivec, num) (get_bytes m inp len) of (ys, s') \<Rightarrow> (put_bytes m outp ys, s'))"
proof -
  let ?step = "cfb_step block key enc"
  from cfb_head_phase [OF s a, of enc m block key] obtain m1 inp1 outp1 len1 iv1 n1 where
    h: "cfb_head enc m inp outp len ivec num = (m1, inp1, outp1, len1, iv1, n1)"
    and p1: "phase ?step (m, inp, outp, len, (ivec, num)) (m1, inp1, outp1, len1, (iv1, n1))"
    and s1: "ofb_state_ok (iv1, n1)" "n1 = 0 \<or> len1 = 0" by blast
  note a1 = phase_ahead [OF p1 a]
  from cfb128_blocks_phase [OF b s1 a1, of enc m1] obtain m2 inp2 outp2 len2 iv2 n2 where
    e2: "cfb128_blocks block key enc m1 inp1 outp1 len1 iv1 n1 = (m2, inp2, outp2, len2, iv2, n2)"
    and p2: "phase ?step (m1, inp1, outp1, len1, (iv1, n1)) (m2, inp2, outp2, len2, (iv2, n2))"
    and s2: "ofb_state_ok (iv2, n2)" "n2 = 0 \<or> len2 = 0" "len2 < 16" by blast
  note p = phase_trans [OF p1 p2 a]
  note a2 = phase_ahead [OF p2 a1]
  show ?thesis
  proof (cases "len2 = 0")
    case True
    then obtain ys where "run ?step (ivec, num) (get_bytes m inp len) = (ys, (iv2, n2))" "m2 = put_bytes m outp ys"
      using phase_end [OF p [unfolded True]] by blast
    then show ?thesis using h e2 True by (simp add: CRYPTO_cfb128_encrypt_def)
  next
    case False
    then have n2: "n2 = 0" using s2(2) by simp
    let ?xs = "get_bytes m2 inp2 len2"
    let ?ys = "xor_bytes (block key iv2) ?xs"
    let ?iv = "(if enc then ?ys else ?xs) @ drop len2 (block key iv2)"
    have l: "length (block key iv2) = 16" using b s2(1) by (simp add: block_ok_def ofb_state_ok_def)
    have t: "cfb_tail enc m2 inp2 outp2 len2 (block key iv2) 0 = (put_bytes m2 outp2 ?ys, ?iv, len2)"
      using cfb_tail_spec [of inp2 0 outp2 len2 "block key iv2" enc m2] a2 l s2(3) by (simp add: Let_def)
    have "?xs \<noteq> []" using False by (metis length_get_bytes list.size(3))
    then have "run ?step (iv2, n2) ?xs = (?ys, (?iv, len2))"
      using cfb_run [of block key "block key iv2" 0 "(iv2, n2)" ?xs enc] l s2(3) n2 by (simp add: cfb_at_def)
    from phase_end [OF phase_trans [OF p phaseI [OF order_refl this, unfolded diff_self_eq_0] a]]
    have "\<exists>ys. run ?step (ivec, num) (get_bytes m inp len) = (ys, (?iv, len2)) \<and> put_bytes m2 outp2 ?ys = put_bytes m outp ys" .
    then show ?thesis using h e2 t n2 False by (auto simp: CRYPTO_cfb128_encrypt_def)
  qed
qed

section \<open>Cipher feedback of eight bits\<close>

definition cfb8_step :: "'k block128_f \<Rightarrow> 'k \<Rightarrow> bool \<Rightarrow> u8 list \<Rightarrow> u8 \<Rightarrow> u8 \<times> u8 list" where
  "cfb8_step block key enc iv x = (let y = x XOR block key iv ! 0 in (y, tl iv @ [if enc then y else x]))"

lemma cfbr_8:
  "length iv = 16 \<Longrightarrow> cfbr_encrypt_block fill [x] 8 key iv enc block =
    (case cfb8_step block key enc iv x of (y, iv') \<Rightarrow> ([y], iv'))"
  by (cases iv) (auto simp: cfbr_encrypt_block_def cfb8_step_def Let_def)

lemma cfb8_step_length: "length iv = 16 \<Longrightarrow> cfb8_step block key enc iv x = (y, iv') \<Longrightarrow> length iv' = 16"
  by (auto simp: cfb8_step_def Let_def)

lemma cfb8_bytewise:
  "\<lbrakk>length iv = 16; input_ahead inp outp len\<rbrakk> \<Longrightarrow>
    CRYPTO_cfb128_8_encrypt fill m inp outp len key iv enc block =
      (case run (cfb8_step block key enc) iv (get_bytes m inp len) of (ys, iv') \<Rightarrow> (put_bytes m outp ys, iv'))"
  unfolding CRYPTO_cfb128_8_encrypt_def
proof (induction len arbitrary: m inp outp iv)
  case (Suc len)
  obtain y iv1 where s: "cfb8_step block key enc iv (m inp) = (y, iv1)" by (cases "cfb8_step block key enc iv (m inp)")
  obtain ys iv2 where r: "run (cfb8_step block key enc) iv1 (get_bytes m (inp + 1) len) = (ys, iv2)"
    by (cases "run (cfb8_step block key enc) iv1 (get_bytes m (inp + 1) len)")
  have a: "input_ahead (inp + 1) (outp + 1) len" using input_ahead_add [OF Suc.prems(2), of 1] by simp
  have g: "get_bytes (put_bytes m outp [y]) (inp + 1) len = get_bytes m (inp + 1) len"
    using get_ahead [OF Suc.prems(2), of "[y]" len m] by simp
  have "cfb8_loop fill m inp outp (Suc len) key iv enc block =
      (put_bytes (put_bytes m outp [y]) (outp + 1) ys, iv2)"
    using Suc.IH [OF cfb8_step_length [OF Suc.prems(1) s] a, of "put_bytes m outp [y]"] s r
    by (simp add: cfbr_8 [OF Suc.prems(1)] g [simplified])
  then show ?case using put_bytes_append [of m outp "[y]" ys] s r by (simp add: get_bytes_Suc)
qed simp

interpretation cfb8: stream_mode "cfb8_step block key True" "cfb8_step block key False" for block key
  by unfold_locales (auto simp: cfb8_step_def Let_def xor.assoc)

section \<open>The calls of the code\<close>

lemma ofb_step_ok:
  assumes "block_ok block key" "ofb_state_ok s"
  shows "ofb_state_ok (snd (ofb_step block key s x))"
  using assms by (cases s) (simp add: ofb_state_ok_def ofb_step_def ofb_refresh_def ofb_set_used_def block_ok_def Let_def)

lemma cfb_step_ok:
  assumes "block_ok block key" "ofb_state_ok s"
  shows "ofb_state_ok (snd (cfb_step block key enc s x))"
  using assms by (cases s) (simp add: ofb_state_ok_def cfb_step_def block_ok_def Let_def)

abbreviation (input) ctr_call :: "'k block128_f \<Rightarrow> 'k \<Rightarrow> mem \<Rightarrow> nat \<Rightarrow> nat \<Rightarrow> nat \<Rightarrow> ctr_state \<Rightarrow> mem \<times> ctr_state" where
  "ctr_call block key \<equiv> (\<lambda>m inp outp len (ivec, ec, num). CRYPTO_ctr128_encrypt m inp outp len key ivec ec num block)"

abbreviation (input) ofb_call :: "'k block128_f \<Rightarrow> 'k \<Rightarrow> mem \<Rightarrow> nat \<Rightarrow> nat \<Rightarrow> nat \<Rightarrow> ofb_state \<Rightarrow> mem \<times> ofb_state" where
  "ofb_call block key \<equiv> (\<lambda>m inp outp len (ivec, num). CRYPTO_ofb128_encrypt m inp outp len key ivec num block)"

abbreviation (input) cfb_call :: "'k block128_f \<Rightarrow> 'k \<Rightarrow> bool \<Rightarrow> mem \<Rightarrow> nat \<Rightarrow> nat \<Rightarrow> nat \<Rightarrow> ofb_state \<Rightarrow> mem \<times> ofb_state" where
  "cfb_call block key enc \<equiv> (\<lambda>m inp outp len (ivec, num). CRYPTO_cfb128_encrypt m inp outp len key ivec num enc block)"

abbreviation (input) cfb8_call :: "u8 \<Rightarrow> 'k block128_f \<Rightarrow> 'k \<Rightarrow> bool \<Rightarrow> mem \<Rightarrow> nat \<Rightarrow> nat \<Rightarrow> nat \<Rightarrow> u8 list \<Rightarrow> mem \<times> u8 list" where
  "cfb8_call fill block key enc \<equiv> (\<lambda>m inp outp len ivec. CRYPTO_cfb128_8_encrypt fill m inp outp len key ivec enc block)"

interpretation ctr_calls: inverse_calls "ctr_step block key" "ctr_step block key" "ctr_call block key" "ctr_call block key"
    "\<lambda>s. block_ok block key \<and> ctr_state_ok s" for block key
  by unfold_locales (auto simp: ctr128_bytewise ctr_step_ok)

interpretation ofb_calls: inverse_calls "ofb_step block key" "ofb_step block key" "ofb_call block key" "ofb_call block key"
    "\<lambda>s. block_ok block key \<and> ofb_state_ok s" for block key
  by unfold_locales (auto simp: ofb128_bytewise ofb_step_ok)

interpretation cfb_calls: inverse_calls "cfb_step block key True" "cfb_step block key False" "cfb_call block key True" "cfb_call block key False"
    "\<lambda>s. block_ok block key \<and> ofb_state_ok s" for block key
  by unfold_locales (auto simp: cfb128_bytewise cfb_step_ok)

interpretation cfb8_calls: inverse_calls "cfb8_step block key True" "cfb8_step block key False" "cfb8_call fill block key True" "cfb8_call fill block key False"
    "\<lambda>s. length s = 16" for block key fill
  by unfold_locales (auto simp: cfb8_bytewise cfb8_step_def Let_def)

end
