(* ===== verification/Modes_Counter.thy ===== *)
theory Modes_Counter
  imports Modes_Bytewise
begin

text \<open>
  The variant of counter mode for a cipher routine with a 32-bit counter: it does what counter mode
  does (\<open>ctr32_bytewise\<close>), the carry into the upper 96 bits included.
\<close>

section \<open>The counter of 32 bits\<close>

lemma PUTU32_value: "PUTU32 v = be_bytes 4 (unat v)"
proof -
  have "rev (be_bytes 4 (le_val (be_bytes 4 (unat v)))) = be_bytes 4 (unat v)" by (simp add: be_bytes_le_val del: be_bytes.simps)
  then show ?thesis by (simp add: PUTU32_def unat_bswap le_bytes_def)
qed

lemma GETU32_value: "length bs = 4 \<Longrightarrow> unat (GETU32 bs) = be_val bs"
proof -
  assume l: "length bs = 4"
  have "le_val bs < 4294967296" using le_val_less [of bs] by (simp add: l)
  then have "unat (of_nat (le_val bs) :: u32) = le_val bs" by (simp add: unat_of_nat)
  moreover have "be_bytes 4 (le_val bs) = rev bs" using be_bytes_be_val [of "rev bs"] by (simp add: l le_val_def)
  ultimately show ?thesis by (simp add: GETU32_def unat_bswap le_val_rev)
qed

lemma be_bytes_split: "be_bytes (a + b) v = be_bytes a (v div 256 ^ b) @ be_bytes b v"
proof (induction b arbitrary: v)
  case (Suc b)
  have "v div 256 div 256 ^ b = v div 256 ^ Suc b" by (simp add: div_mult2_eq)
  then show ?case using Suc [of "v div 256"] by simp
qed simp

lemma be_bytes_cong: "u mod 256 ^ n = v mod 256 ^ n \<Longrightarrow> be_bytes n u = be_bytes n v"
  by (metis be_bytes_mod)

lemma ctr128_inc_be: "ctr128_inc (be_bytes 16 v) = be_bytes 16 (v + 1)"
  unfolding ctr128_inc_value [OF length_be_bytes] be_val_be_bytes by (rule be_bytes_cong) (simp add: mod_Suc_eq)

lemma be_bytes_12_4:
  assumes "lo < 4294967296"
  shows "be_bytes 16 (hi * 4294967296 + lo) = be_bytes 12 hi @ be_bytes 4 lo"
proof -
  have "(hi * 4294967296 + lo) div 4294967296 = hi" using assms by simp
  moreover have "be_bytes 4 (hi * 4294967296 + lo) = be_bytes 4 lo" by (rule be_bytes_cong) simp
  ultimately show ?thesis using be_bytes_split [of 12 4 "hi * 4294967296 + lo"] by simp
qed

lemma ivec_parts:
  assumes "length ivec = 16"
  shows "take 12 ivec = be_bytes 12 (be_val (take 12 ivec))" "drop 12 ivec = be_bytes 4 (be_val (drop 12 ivec))"
    "be_val ivec = be_val (take 12 ivec) * 4294967296 + be_val (drop 12 ivec)"
    "be_val (drop 12 ivec) < 4294967296" "be_bytes 16 (be_val ivec) = ivec"
  using be_bytes_be_val [of "take 12 ivec"] be_bytes_be_val [of "drop 12 ivec"] be_val_append [of "take 12 ivec" "drop 12 ivec"]
    be_val_less [of "drop 12 ivec"] be_bytes_be_val [of ivec] assms by simp_all

text \<open>
  What \<open>func\<close> promises: the blocks with the counter in the last four bytes counted up, and no
  carry beyond them.
\<close>

definition ctr32_ok :: "'k ctr128_f \<Rightarrow> 'k block128_f \<Rightarrow> 'k \<Rightarrow> bool" where
  "ctr32_ok func block key \<longleftrightarrow>
     (\<forall>xs n ivec. length xs = 16 * n \<longrightarrow> length ivec = 16 \<longrightarrow>
       func xs n key ivec = xor_bytes xs (concat (map (\<lambda>i. block key (take 12 ivec @ be_bytes 4 (be_val (drop 12 ivec) + i))) [0..<n])))"

lemma put_ctr32_value:
  assumes l: "length ivec = 16" and b: "be_val (drop 12 ivec) + b \<le> 4294967296"
    and c: "unat c = (be_val (drop 12 ivec) + b) mod 4294967296" "0 < b"
  shows "put_ctr32 ivec c = be_bytes 16 (be_val ivec + b)"
proof -
  let ?hi = "be_val (take 12 ivec)" and ?lo = "be_val (drop 12 ivec)"
  have p: "arr_put ivec 12 (PUTU32 c) = take 12 ivec @ be_bytes 4 (unat c)" by (simp add: arr_put_def PUTU32_value l)
  have v: "be_val ivec + b = ?hi * 4294967296 + (?lo + b)" using ivec_parts(3) [OF l] by simp
  show ?thesis
  proof (cases "?lo + b = 4294967296")
    case True
    then have "c = 0" using c(1) by (simp add: word_unat_eq_iff)
    then have "put_ctr32 ivec c = ctr96_inc (take 12 ivec @ be_bytes 4 0)" using p by (simp add: put_ctr32_def Let_def)
    also have "\<dots> = be_bytes 12 (?hi + 1) @ be_bytes 4 0" using l by (simp add: ctr96_inc_value)
    also have "\<dots> = be_bytes 16 ((?hi + 1) * 4294967296 + 0)" by (rule be_bytes_12_4 [symmetric]) simp
    finally show ?thesis unfolding v True by (simp add: algebra_simps)
  next
    case False
    then have lt: "?lo + b < 4294967296" using b by simp
    then have u: "unat c = ?lo + b" using c(1) by simp
    then have "c \<noteq> 0" using c(2) by auto
    then have "put_ctr32 ivec c = be_bytes 12 ?hi @ be_bytes 4 (?lo + b)"
      using p ivec_parts(1) [OF l] by (simp add: put_ctr32_def Let_def u)
    then show ?thesis unfolding v by (simp only: be_bytes_12_4 [OF lt])
  qed
qed

lemma ctr32_step_value:
  assumes "unat c = lo" "16 \<le> len"
  shows "0 < fst (ctr32_step len c)" "16 * fst (ctr32_step len c) \<le> len" "lo + fst (ctr32_step len c) \<le> 4294967296"
    "unat (snd (ctr32_step len c)) = (lo + fst (ctr32_step len c)) mod 4294967296"
proof -
  define b where "b = (if 2 ^ 28 < len div 16 then 2 ^ 28 else len div 16)"
  have b: "b \<le> len div 16" "b \<le> 268435456" by (auto simp: b_def)
  have "0 < len div 16" using assms(2) by (simp add: div_greater_zero_iff)
  then have b0: "0 < b" by (simp add: b_def)
  have lo: "lo < 4294967296" using unsigned_less [where 'a = nat, of c] assms(1) by simp
  have b16: "16 * b \<le> len" using b(1) by linarith
  have u: "unat (c + of_nat b :: u32) = (lo + b) mod 4294967296"
    using b(2) assms(1) by (simp add: unat_word_ariths(1) unat_of_nat)
  have s: "ctr32_step len c = (if unat (c + of_nat b) < b then (b - unat (c + of_nat b), 0) else (b, c + of_nat b))"
    by (simp add: ctr32_step_def b_def Let_def)
  have "0 < fst (ctr32_step len c) \<and> fst (ctr32_step len c) \<le> b \<and> lo + fst (ctr32_step len c) \<le> 4294967296 \<and>
    unat (snd (ctr32_step len c)) = (lo + fst (ctr32_step len c)) mod 4294967296"
  proof (cases "lo + b < 4294967296")
    case True
    then show ?thesis using u b0 unfolding s by simp
  next
    case False
    then have "(lo + b) mod 4294967296 = lo + b - 4294967296" using lo b(2) by (simp add: le_mod_geq)
    moreover have "lo + b - 4294967296 < b" using lo b0 by simp
    moreover have "lo + (b - (lo + b - 4294967296)) = 4294967296" using False lo by simp
    ultimately show ?thesis unfolding s u using False lo b0 by simp
  qed
  then show "0 < fst (ctr32_step len c)" "16 * fst (ctr32_step len c) \<le> len" "lo + fst (ctr32_step len c) \<le> 4294967296"
    "unat (snd (ctr32_step len c)) = (lo + fst (ctr32_step len c)) mod 4294967296"
    using b16 by auto
qed

lemma ctr_run_blocks:
  "\<lbrakk>block_ok block key; length xs = 16 * n\<rbrakk> \<Longrightarrow>
    \<exists>ec'. run (ctr_step block key) (be_bytes 16 v, ec, 0) xs =
      (xor_bytes xs (concat (map (\<lambda>i. block key (be_bytes 16 (v + i))) [0..<n])), (be_bytes 16 (v + n), ec', 0))"
proof (induction n arbitrary: v ec xs)
  case (Suc n)
  let ?s = "(be_bytes 16 v, ec, 0)" and ?p = "block key (be_bytes 16 v)"
  let ?rest = "concat (map (\<lambda>i. block key (be_bytes 16 (v + 1 + i))) [0..<n])"
  have l: "length ?p = 16" using Suc.prems(1) by (simp add: block_ok_def)
  have r: "ctr_refresh block key ?s = (be_bytes 16 (v + 1), ?p, 0)" by (simp add: ctr_refresh_def ctr128_inc_be)
  have x: "take 16 xs \<noteq> []" "length (take 16 xs) = 16" using Suc.prems(2) by auto
  have "run (ctr_step block key) ?s (take 16 xs) = (xor_bytes (take 16 xs) ?p, (be_bytes 16 (v + 1), ?p, 0))"
    using ctr.run_fresh [of ?s "take 16 xs" block key] x l unfolding r by (simp add: ctr_used_def ctr_pad_def ctr_set_used_def)
  moreover obtain ec' where "run (ctr_step block key) (be_bytes 16 (v + 1), ?p, 0) (drop 16 xs) =
      (xor_bytes (drop 16 xs) ?rest, (be_bytes 16 (v + 1 + n), ec', 0))"
    using Suc.IH [OF Suc.prems(1), of "drop 16 xs" "v + 1" ?p] Suc.prems(2) by auto
  ultimately have "run (ctr_step block key) ?s (take 16 xs @ drop 16 xs) =
      (xor_bytes (take 16 xs) ?p @ xor_bytes (drop 16 xs) ?rest, (be_bytes 16 (v + 1 + n), ec', 0))"
    by (simp only: run_append prod.case)
  moreover have "xor_bytes (take 16 xs) ?p @ xor_bytes (drop 16 xs) ?rest = xor_bytes (take 16 xs @ drop 16 xs) (?p @ ?rest)"
    using zip_append [of "take 16 xs" ?p "drop 16 xs" ?rest] x(2) l by simp
  moreover have "?p @ ?rest = concat (map (\<lambda>i. block key (be_bytes 16 (v + i))) [0..<Suc n])"
    by (simp add: upt_conv_Cons map_Suc_upt [symmetric] comp_def del: upt_Suc map_Suc_upt)
  ultimately have "run (ctr_step block key) ?s xs =
      (xor_bytes xs (concat (map (\<lambda>i. block key (be_bytes 16 (v + i))) [0..<Suc n])), (be_bytes 16 (v + Suc n), ec', 0))"
    by simp
  then show ?case by blast
qed simp

lemma ctr32_func_run:
  assumes f: "ctr32_ok func block key" and b: "block_ok block key" and l: "length ivec = 16" "length xs = 16 * n"
    and n: "be_val (drop 12 ivec) + n \<le> 4294967296"
  shows "\<exists>ec'. run (ctr_step block key) (ivec, ec, 0) xs = (func xs n key ivec, (be_bytes 16 (be_val ivec + n), ec', 0))"
proof -
  have "be_bytes 16 (be_val ivec + i) = take 12 ivec @ be_bytes 4 (be_val (drop 12 ivec) + i)" if "i < n" for i
  proof -
    have "be_val (drop 12 ivec) + i < 4294967296" using n that by simp
    from be_bytes_12_4 [OF this, of "be_val (take 12 ivec)"] show ?thesis
      using ivec_parts(1,3) [OF l(1)] by (simp add: add.assoc)
  qed
  then have "concat (map (\<lambda>i. block key (be_bytes 16 (be_val ivec + i))) [0..<n]) =
      concat (map (\<lambda>i. block key (take 12 ivec @ be_bytes 4 (be_val (drop 12 ivec) + i))) [0..<n])"
    by (intro arg_cong [of _ _ concat] map_cong) simp_all
  then have "func xs n key ivec = xor_bytes xs (concat (map (\<lambda>i. block key (be_bytes 16 (be_val ivec + i))) [0..<n]))"
    using f l by (simp add: ctr32_ok_def)
  then show ?thesis using ctr_run_blocks [OF b l(2), of "be_val ivec" ec] ivec_parts(5) [OF l(1)] by simp
qed

lemma ctr32_blocks_phase:
  "\<lbrakk>ctr32_ok func block key; block_ok block key; length ivec = 16; unat c = be_val (drop 12 ivec); input_ahead inp outp len\<rbrakk> \<Longrightarrow>
    \<exists>m' inp' outp' len' ivec' c' ec'. ctr32_blocks func key m inp outp len ivec c = (m', inp', outp', len', ivec', c') \<and>
      phase (ctr_step block key) (m, inp, outp, len, (ivec, ec, 0)) (m', inp', outp', len', (ivec', ec', 0)) \<and>
      length ivec' = 16 \<and> unat c' = be_val (drop 12 ivec') \<and> len' < 16 \<and> (len < 16 \<longrightarrow> ec' = ec)"
proof (induction len arbitrary: m inp outp ivec c ec rule: less_induct)
  case (less len)
  show ?case
  proof (cases "16 \<le> len")
    case True
    define b where "b = fst (ctr32_step len c)"
    define c1 where "c1 = snd (ctr32_step len c)"
    note v = ctr32_step_value [OF less.prems(4) True, folded b_def c1_def]
    let ?iv = "be_bytes 16 (be_val ivec + b)" and ?ys = "func (get_bytes m inp (b * 16)) b key ivec"
    have iv: "put_ctr32 ivec c1 = ?iv" by (rule put_ctr32_value [OF less.prems(3) v(3,4,1)])
    have c1: "unat c1 = be_val (drop 12 ?iv)"
    proof -
      have "be_bytes 16 (be_val ivec + b) = be_bytes 12 ((be_val ivec + b) div 256 ^ 4) @ be_bytes 4 (be_val ivec + b)"
        using be_bytes_split [of 12 4 "be_val ivec + b"] by simp
      then have "be_val (drop 12 ?iv) = (be_val ivec + b) mod 4294967296" by (simp add: be_val_be_bytes)
      also have "\<dots> = ((be_val (drop 12 ivec) + b) + be_val (take 12 ivec) * 4294967296) mod 4294967296"
        by (rule arg_cong [of _ _ "\<lambda>x. x mod 4294967296"]) (use ivec_parts(3) [OF less.prems(3)] in linarith)
      also have "\<dots> = (be_val (drop 12 ivec) + b) mod 4294967296" by (rule mod_mult_self1)
      finally show ?thesis using v(4) by (rule trans [OF _ sym, rotated])
    qed
    have le: "b * 16 \<le> len" using v(2) by simp
    obtain ec1 where "run (ctr_step block key) (ivec, ec, 0) (get_bytes m inp (b * 16)) = (?ys, (?iv, ec1, 0))"
      using ctr32_func_run [OF less.prems(1,2,3) _ v(3), of "get_bytes m inp (b * 16)" ec] by auto
    note p = phaseI [OF le this]
    have a: "input_ahead (inp + b * 16) (outp + b * 16) (len - b * 16)" by (rule input_ahead_add [OF less.prems(5) le])
    have lt: "len - b * 16 < len" using v(1) True by simp
    from less.IH [OF lt less.prems(1,2) length_be_bytes c1 a, of "put_bytes m outp ?ys" ec1] obtain m' inp' outp' len' ivec' c' ec' where
      e: "ctr32_blocks func key (put_bytes m outp ?ys) (inp + b * 16) (outp + b * 16) (len - b * 16) ?iv c1 = (m', inp', outp', len', ivec', c')"
      and q: "phase (ctr_step block key) (put_bytes m outp ?ys, inp + b * 16, outp + b * 16, len - b * 16, (?iv, ec1, 0))
        (m', inp', outp', len', (ivec', ec', 0))"
      and r: "length ivec' = 16" "unat c' = be_val (drop 12 ivec')" "len' < 16" by blast
    have "ctr32_blocks func key m inp outp len ivec c = (m', inp', outp', len', ivec', c')"
      using e True by (simp add: ctr32_blocks.simps [of func key m inp outp len] iv flip: b_def c1_def)
    then show ?thesis using phase_trans [OF p q less.prems(5)] r True by (intro exI conjI) auto
  next
    case False
    then show ?thesis using less.prems(3,4)
      by (intro exI [of _ m] exI [of _ inp] exI [of _ outp] exI [of _ len] exI [of _ ivec] exI [of _ c] exI [of _ ec])
        (simp add: ctr32_blocks.simps [of func key m inp outp len] phase_refl)
  qed
qed

text \<open>The 32-bit variant does not keep a pad that is used up.\<close>

definition ctr_same :: "ctr_state \<Rightarrow> ctr_state \<Rightarrow> bool" where
  "ctr_same = (\<lambda>(iv1, ec1, n1) (iv2, ec2, n2). iv1 = iv2 \<and> n1 = n2 \<and> (n1 \<noteq> 0 \<longrightarrow> ec1 = ec2))"

lemma ctr32_bytewise:
  assumes f: "ctr32_ok func block key" and b: "block_ok block key" and s: "ctr_state_ok (ivec, ec, num)" and a: "input_ahead inp outp len"
  shows "\<exists>ys s1 s2. CRYPTO_ctr128_encrypt_ctr32 m inp outp len key ivec ec num func = (put_bytes m outp ys, s1) \<and>
    run (ctr_step block key) (ivec, ec, num) (get_bytes m inp len) = (ys, s2) \<and> ctr_same s1 s2"
proof -
  let ?step = "ctr_step block key" and ?c = "GETU32 (take 4 (drop 12 ivec))"
  have l: "length ivec = 16" using s by (simp add: ctr_state_ok_def)
  have c: "unat ?c = be_val (drop 12 ivec)" using GETU32_value [of "drop 12 ivec"] l by simp
  obtain m1 inp1 outp1 len1 n1 where h: "xor_head m inp outp len ec num = (m1, inp1, outp1, len1, n1)"
    and p1: "phase ?step (m, inp, outp, len, (ivec, ec, num)) (m1, inp1, outp1, len1, (ivec, ec, n1))"
    and n1: "n1 < 16" "n1 = 0 \<or> len1 = 0"
    using ctr.head_phase [of "(ivec, ec, num)" inp outp len m block key] s a
    by (auto simp: ctr_used_def ctr_pad_def ctr_set_used_def ctr_state_ok_def)
  note a1 = phase_ahead [OF p1 a]
  show ?thesis
  proof (cases "n1 = 0")
    case False
    then have z: "len1 = 0" using n1(2) by simp
    from phase_end [OF p1 [unfolded z]] obtain ys where
      "run ?step (ivec, ec, num) (get_bytes m inp len) = (ys, (ivec, ec, n1))" "m1 = put_bytes m outp ys" by blast
    moreover have "ctr32_blocks func key m1 inp1 outp1 0 ivec ?c = (m1, inp1, outp1, 0, ivec, ?c)"
      by (subst ctr32_blocks.simps) simp
    ultimately have "CRYPTO_ctr128_encrypt_ctr32 m inp outp len key ivec ec num func = (put_bytes m outp ys, (ivec, ec, n1))"
      using h z by (simp add: CRYPTO_ctr128_encrypt_ctr32_def)
    then show ?thesis using \<open>run ?step (ivec, ec, num) (get_bytes m inp len) = (ys, (ivec, ec, n1))\<close> by (auto simp: ctr_same_def)
  next
    case n: True
    from ctr32_blocks_phase [OF f b l c a1, of m1 ec] obtain m2 inp2 outp2 len2 iv2 c2 ec2 where
      e2: "ctr32_blocks func key m1 inp1 outp1 len1 ivec ?c = (m2, inp2, outp2, len2, iv2, c2)"
      and p2: "phase ?step (m1, inp1, outp1, len1, (ivec, ec, 0)) (m2, inp2, outp2, len2, (iv2, ec2, 0))"
      and r: "length iv2 = 16" "unat c2 = be_val (drop 12 iv2)" "len2 < 16" by blast
    note p = phase_trans [OF p1 [unfolded n] p2 a]
    note a2 = phase_ahead [OF p2 a1]
    show ?thesis
    proof (cases "len2 = 0")
      case True
      from phase_end [OF p [unfolded True]] obtain ys where
        "run ?step (ivec, ec, num) (get_bytes m inp len) = (ys, (iv2, ec2, 0))" "m2 = put_bytes m outp ys" by blast
      then show ?thesis using h e2 by (auto simp: CRYPTO_ctr128_encrypt_ctr32_def True n ctr_same_def)
    next
      case False
      have lo: "be_val (drop 12 iv2) + 1 \<le> 4294967296" using ivec_parts(4) [OF r(1)] by simp
      have iv3: "put_ctr32 iv2 (c2 + 1) = ctr128_inc iv2"
        using put_ctr32_value [OF r(1) lo, of "c2 + 1"] r(2) by (simp add: ctr128_inc_value [OF r(1)] unat_word_ariths(1))
      have pad: "func (replicate 16 0) 1 key iv2 = block key iv2"
      proof -
        have lb: "length (block key iv2) = 16" using b r(1) by (simp add: block_ok_def)
        have "func (replicate 16 0) 1 key iv2 = xor_bytes (replicate 16 0) (block key (take 12 iv2 @ be_bytes 4 (be_val (drop 12 iv2))))"
          using f r(1) by (simp add: ctr32_ok_def)
        also have "take 12 iv2 @ be_bytes 4 (be_val (drop 12 iv2)) = iv2" using ivec_parts(2) [OF r(1)] by (metis append_take_drop_id)
        finally show ?thesis using lb by (simp add: list_eq_iff_nth_eq)
      qed
      have rf: "ctr_refresh block key (iv2, ec2, 0) = (ctr128_inc iv2, block key iv2, 0)" by (simp add: ctr_refresh_def)
      have lb: "length (block key iv2) = 16" using b r(1) by (simp add: block_ok_def)
      obtain m3 where t: "xor_tail m2 inp2 outp2 len2 (block key iv2) 0 = (m3, len2)"
        and p3: "phase ?step (m2, inp2, outp2, len2, (iv2, ec2, 0)) (m3, inp2 + len2, outp2 + len2, 0, (ctr128_inc iv2, block key iv2, len2))"
        using ctr.tail_phase [of "(iv2, ec2, 0)" block key inp2 outp2 len2 m2] lb a2 r(3) False
        unfolding rf by (auto simp: ctr_used_def ctr_pad_def ctr_set_used_def)
      from phase_end [OF phase_trans [OF p p3 a]] obtain ys where
        "run ?step (ivec, ec, num) (get_bytes m inp len) = (ys, (ctr128_inc iv2, block key iv2, len2))" "m3 = put_bytes m outp ys" by blast
      then show ?thesis
        using h e2 t False by (auto simp: CRYPTO_ctr128_encrypt_ctr32_def n pad [unfolded One_nat_def] iv3 ctr_same_def Let_def)
    qed
  qed
qed

end
