(* ===== verification/Modes_Cbc.thy ===== *)
theory Modes_Cbc
  imports Modes_Stream
begin

text \<open>
  Cipher block chaining in one memory: the loops of the code are the recursion over blocks
  (\<open>CRYPTO_cbc128_encrypt_spec\<close>, \<open>CRYPTO_cbc128_decrypt_spec\<close>) whenever the input is ahead of the output
  or apart from it, on either branch of the decryption, and for texts that do not fill a block.
\<close>

section \<open>Cipher block chaining\<close>

definition apart :: "nat \<Rightarrow> nat \<Rightarrow> nat \<Rightarrow> nat \<Rightarrow> bool" where
  "apart p n q k \<longleftrightarrow> p + n \<le> q \<or> q + k \<le> p"

text \<open>The references: one block after the other, and the last block of the ciphertext.\<close>

fun cbc_enc_ref :: "(u8 list \<Rightarrow> u8 list) \<Rightarrow> u8 list \<Rightarrow> nat \<Rightarrow> u8 list \<Rightarrow> u8 list \<times> u8 list" where
  "cbc_enc_ref E iv 0 xs = ([], iv)"
| "cbc_enc_ref E iv (Suc k) xs =
     (let c = E (xor_bytes (take 16 xs) iv); (cs, iv') = cbc_enc_ref E c k (drop 16 xs) in (c @ cs, iv'))"

fun cbc_dec_ref :: "(u8 list \<Rightarrow> u8 list) \<Rightarrow> u8 list \<Rightarrow> nat \<Rightarrow> u8 list \<Rightarrow> u8 list \<times> u8 list" where
  "cbc_dec_ref D iv 0 cs = ([], iv)"
| "cbc_dec_ref D iv (Suc k) cs =
     (let p = xor_bytes (D (take 16 cs)) iv; (ps, iv') = cbc_dec_ref D (take 16 cs) k (drop 16 cs) in (p @ ps, iv'))"

lemma put_commute: "apart p (length xs) q (length ys) \<Longrightarrow> put_bytes (put_bytes m p xs) q ys = put_bytes (put_bytes m q ys) p xs"
  by (auto simp: put_bytes_def fun_eq_iff apart_def)

lemma put_again: "length xs = length ys \<Longrightarrow> put_bytes (put_bytes m p xs) p ys = put_bytes m p ys"
  by (auto simp: put_bytes_def fun_eq_iff)

lemma put_get_id: "put_bytes m p (get_bytes m p n) = m"
  by (auto simp: put_bytes_def fun_eq_iff)

lemma get_put_apart: "apart p (length bs) q n \<Longrightarrow> get_bytes (put_bytes m p bs) q n = get_bytes m q n"
  by (rule get_put_other) (auto simp: apart_def)

lemma get_put_id: "length bs = n \<Longrightarrow> get_bytes (put_bytes m p bs) p n = bs"
  using get_put_same by blast

lemma xor_halves:
  "\<lbrakk>length xs = 16; length ys = 16\<rbrakk> \<Longrightarrow> xor_bytes (take 8 xs) (take 8 ys) @ xor_bytes (drop 8 xs) (drop 8 ys) = xor_bytes xs ys"
  using zip_append [of "take 8 xs" "take 8 ys" "drop 8 xs" "drop 8 ys"] by simp

lemma take_get: "k \<le> n \<Longrightarrow> take k (get_bytes m p n) = get_bytes m p k"
  by (rule nth_equalityI) simp_all

lemma drop_get: "drop k (get_bytes m p n) = get_bytes m (p + k) (n - k)"
  by (rule nth_equalityI) (simp_all add: add.assoc)

lemma xor_words_at_spec:
  assumes s: "input_ahead src outp 16" and i: "input_ahead iv outp 16"
  shows "xor_words_at m src iv outp 0 = put_bytes m outp (xor_bytes (get_bytes m src 16) (get_bytes m iv 16))"
proof -
  let ?r1 = "xor_bytes (get_bytes m src 8) (get_bytes m iv 8)"
  have w: "store_word_le (load_word_le (get_bytes m' p 8) XOR load_word_le (get_bytes m' q 8)) = xor_bytes (get_bytes m' p 8) (get_bytes m' q 8)"
    for m' p q by (rule store_xor_words) simp_all
  have "xor_words_at m src iv outp 0 = xor_words_at (put_bytes m outp ?r1) src iv outp 8"
    by (subst xor_words_at.simps) (simp add: w)
  also have "\<dots> = put_bytes (put_bytes m outp ?r1) (outp + 8)
      (xor_bytes (get_bytes (put_bytes m outp ?r1) (src + 8) 8) (get_bytes (put_bytes m outp ?r1) (iv + 8) 8))"
    by (subst xor_words_at.simps, subst xor_words_at.simps) (simp add: w)
  also have "get_bytes (put_bytes m outp ?r1) (src + 8) 8 = get_bytes m (src + 8) 8"
    using get_ahead [OF s, of ?r1 8 m] by simp
  also have "get_bytes (put_bytes m outp ?r1) (iv + 8) 8 = get_bytes m (iv + 8) 8"
    using get_ahead [OF i, of ?r1 8 m] by simp
  also have "put_bytes (put_bytes m outp ?r1) (outp + 8) (xor_bytes (get_bytes m (src + 8) 8) (get_bytes m (iv + 8) 8)) =
      put_bytes m outp (?r1 @ xor_bytes (get_bytes m (src + 8) 8) (get_bytes m (iv + 8) 8))"
    using put_bytes_append [of m outp ?r1] by simp
  also have "?r1 @ xor_bytes (get_bytes m (src + 8) 8) (get_bytes m (iv + 8) 8) = xor_bytes (get_bytes m src 16) (get_bytes m iv 16)"
    using xor_halves [of "get_bytes m src 16" "get_bytes m iv 16"] by (simp add: take_get drop_get)
  finally show ?thesis .
qed

lemma call_block_in_place:
  "length bs = 16 \<Longrightarrow> block_ok block key \<Longrightarrow> call_block block key (put_bytes m p bs) p p = put_bytes m p (block key bs)"
  by (simp add: call_block_def get_put_id put_again block_ok_def)

lemma cbc_enc_blocks_spec:
  "\<lbrakk>block_ok block key; input_ahead inp outp (16 * k); input_ahead iv outp 16; r < 16;
    cbc_enc_ref (block key) (get_bytes m iv 16) k (get_bytes m inp (16 * k)) = (ys, c)\<rbrakk> \<Longrightarrow>
    \<exists>iv'. cbc_enc_blocks block key m inp outp (16 * k + r) iv = (put_bytes m outp ys, inp + 16 * k, outp + 16 * k, r, iv') \<and>
      input_ahead iv' (outp + 16 * k) 16 \<and> get_bytes (put_bytes m outp ys) iv' 16 = c \<and> length ys = 16 * k"
proof (induction k arbitrary: m inp outp iv ys)
  case 0
  then show ?case by (simp add: cbc_enc_blocks.simps [of block key m inp outp r])
next
  case (Suc k)
  let ?b = "xor_bytes (get_bytes m inp 16) (get_bytes m iv 16)" and ?xs = "get_bytes m (inp + 16) (16 * k)"
  let ?c = "block key ?b"
  let ?m = "put_bytes m outp ?c"
  have l: "length ?c = 16" using Suc.prems(1) by (simp add: block_ok_def)
  obtain zs where z: "cbc_enc_ref (block key) ?c k ?xs = (zs, c)" "ys = ?c @ zs"
    using Suc.prems(5) by (auto simp: take_get drop_get Let_def split: prod.splits)
  have a: "input_ahead (inp + 16) (outp + 16) (16 * k)" using input_ahead_add [OF Suc.prems(2), of 16] by simp
  have g: "get_bytes ?m outp 16 = ?c" by (rule get_put_id [OF l])
  have x: "get_bytes ?m (inp + 16) (16 * k) = ?xs" using get_ahead [OF Suc.prems(2), of ?c "16 * k" m] l by simp
  have i: "input_ahead outp (outp + 16) 16" by (simp add: input_ahead_def)
  have s: "call_block block key (xor_words_at m inp iv outp 0) outp outp = ?m"
    using xor_words_at_spec [OF input_ahead_take [OF Suc.prems(2)] Suc.prems(3)] call_block_in_place [OF _ Suc.prems(1)] by simp
  have "cbc_enc_ref (block key) (get_bytes ?m outp 16) k (get_bytes ?m (inp + 16) (16 * k)) = (zs, c)"
    using z(1) by (simp only: g x)
  from Suc.IH [OF Suc.prems(1) a i Suc.prems(4) this] obtain iv' where
    e: "cbc_enc_blocks block key ?m (inp + 16) (outp + 16) (16 * k + r) outp = (put_bytes ?m (outp + 16) zs, inp + 16 + 16 * k, outp + 16 + 16 * k, r, iv')"
    and f: "input_ahead iv' (outp + 16 + 16 * k) 16" "get_bytes (put_bytes ?m (outp + 16) zs) iv' 16 = c" "length zs = 16 * k" by blast
  have p: "put_bytes ?m (outp + 16) zs = put_bytes m outp ys" using put_bytes_append [of m outp ?c zs] l z(2) by simp
  have "cbc_enc_blocks block key m inp outp (16 * Suc k + r) iv = (put_bytes m outp ys, inp + 16 * Suc k, outp + 16 * Suc k, r, iv')"
    using e by (subst cbc_enc_blocks.simps) (simp add: s p add.assoc)
  then show ?case using f l by (auto simp: p z(2) add.assoc)
qed

lemma put_each_spec:
  "(\<And>i bs. \<lbrakk>i < k; length bs \<le> i\<rbrakk> \<Longrightarrow> f (put_bytes m (outp + n) bs) (n + i) = f m (n + i)) \<Longrightarrow>
    put_each m outp n f k = put_bytes m (outp + n) (map (\<lambda>i. f m (n + i)) [0..<k])"
proof (induction k arbitrary: m n)
  case (Suc k)
  let ?m = "put_bytes m (outp + n) [f m n]"
  have a: "put_bytes ?m (outp + (n + 1)) bs = put_bytes m (outp + n) (f m n # bs)" for bs
    using put_bytes_append [of m "outp + n" "[f m n]" bs] by (simp add: add.assoc)
  have f: "f ?m (n + 1 + i) = f m (n + 1 + i)" if "i < k" for i
    using Suc.prems [of "i + 1" "[f m n]"] that by simp
  have "put_each ?m outp (n + 1) f k = put_bytes ?m (outp + (n + 1)) (map (\<lambda>i. f ?m (n + 1 + i)) [0..<k])"
  proof (rule Suc.IH)
    fix i and bs :: "u8 list"
    assume i: "i < k" "length bs \<le> i"
    then show "f (put_bytes ?m (outp + (n + 1)) bs) (n + 1 + i) = f ?m (n + 1 + i)"
      using Suc.prems [of "i + 1" "f m n # bs"] unfolding a f [OF i(1)] by simp
  qed
  also have "map (\<lambda>i. f ?m (n + 1 + i)) [0..<k] = map (\<lambda>i. f m (n + 1 + i)) [0..<k]" using f by simp
  also have "put_bytes ?m (outp + (n + 1)) \<dots> = put_bytes m (outp + n) (map (\<lambda>i. f m (n + i)) [0..<Suc k])"
    unfolding a by (simp add: upt_conv_Cons map_Suc_upt [symmetric] comp_def del: upt_Suc map_Suc_upt)
  finally show ?case by simp
qed simp

lemma cbc_enc_rest_spec:
  assumes b: "block_ok block key" and i: "input_ahead inp outp r" "input_ahead iv outp 16" and r: "0 < r" "r < 16"
  shows "cbc_enc_rest block key m inp outp r iv =
    (put_bytes m outp (block key (xor_bytes (get_bytes m inp r @ replicate (16 - r) 0) (get_bytes m iv 16))), outp)"
proof -
  let ?bs = "map (\<lambda>i. m (inp + i) XOR m (iv + i)) [0..<r]" and ?cs = "map (\<lambda>i. m (iv + (r + i))) [0..<16 - r]"
  have "put_each m outp 0 (\<lambda>m n. m (inp + n) XOR m (iv + n)) r = put_bytes m (outp + 0) (map (\<lambda>i. m (inp + (0 + i)) XOR m (iv + (0 + i))) [0..<r])"
    by (rule put_each_spec) (use i r in \<open>auto simp: put_bytes_def input_ahead_def\<close>)
  then have 1: "put_each m outp 0 (\<lambda>m n. m (inp + n) XOR m (iv + n)) r = put_bytes m outp ?bs" by simp
  have "put_each (put_bytes m outp ?bs) outp r (\<lambda>m n. m (iv + n)) (16 - r) =
      put_bytes (put_bytes m outp ?bs) (outp + r) (map (\<lambda>i. put_bytes m outp ?bs (iv + (r + i))) [0..<16 - r])"
    by (rule put_each_spec) (use i r in \<open>auto simp: put_bytes_def input_ahead_def\<close>)
  also have "map (\<lambda>i. put_bytes m outp ?bs (iv + (r + i))) [0..<16 - r] = ?cs"
    using i r by (auto simp: put_bytes_def input_ahead_def)
  also have "put_bytes (put_bytes m outp ?bs) (outp + r) ?cs = put_bytes m outp (?bs @ ?cs)"
    using put_bytes_append [of m outp ?bs ?cs] by simp
  also have "?bs @ ?cs = xor_bytes (get_bytes m inp r @ replicate (16 - r) 0) (get_bytes m iv 16)"
    using r by (auto simp: list_eq_iff_nth_eq nth_append)
  finally have 2: "put_each (put_bytes m outp ?bs) outp r (\<lambda>m n. m (iv + n)) (16 - r) =
    put_bytes m outp (xor_bytes (get_bytes m inp r @ replicate (16 - r) 0) (get_bytes m iv 16))" .
  have "min 16 r = r" using r by simp
  then show ?thesis using r 1 2 call_block_in_place [OF _ b]
    by (simp add: cbc_enc_rest.simps [of block key m inp outp r] Let_def)
qed

lemma cbc_enc_ref_add:
  "cbc_enc_ref E iv (j + k) xs =
    (case cbc_enc_ref E iv j (take (16 * j) xs) of (as, iv1) \<Rightarrow> case cbc_enc_ref E iv1 k (drop (16 * j) xs) of (bs, iv2) \<Rightarrow> (as @ bs, iv2))"
proof (induction j arbitrary: iv xs)
  case (Suc j)
  have "take 16 (take (16 * Suc j) xs) = take 16 xs" "drop 16 (take (16 * Suc j) xs) = take (16 * j) (drop 16 xs)"
    "drop (16 * j) (drop 16 xs) = drop (16 * Suc j) xs"
    by (simp_all add: drop_take add.commute min_def)
  then show ?case using Suc [of "E (xor_bytes (take 16 xs) iv)" "drop 16 xs"] by (simp add: Let_def split: prod.split)
qed simp

text \<open>The number of blocks of a text, and the zeros that fill up the last one.\<close>

definition cbc_blocks :: "nat \<Rightarrow> nat" where "cbc_blocks len = (len + 15) div 16"
definition cbc_pad :: "u8 list \<Rightarrow> u8 list" where "cbc_pad xs = xs @ replicate (16 * cbc_blocks (length xs) - length xs) 0"

lemma cbc_blocks_parts: "r < 16 \<Longrightarrow> cbc_blocks (16 * q + r) = (if r = 0 then q else q + 1)"
  unfolding cbc_blocks_def by (cases "r = 0") (auto intro!: div_nat_eqI)

lemma length_cbc_pad: "length (cbc_pad xs) = 16 * cbc_blocks (length xs)"
  using cbc_blocks_parts [of "length xs mod 16" "length xs div 16"] by (auto simp: cbc_pad_def split: if_splits)

lemma CRYPTO_cbc128_encrypt_spec:
  assumes b: "block_ok block key" and a: "input_ahead inp outp len" and i: "apart ivec 16 outp (16 * cbc_blocks len)"
  shows "CRYPTO_cbc128_encrypt m inp outp len key ivec block =
    (case cbc_enc_ref (block key) (get_bytes m ivec 16) (cbc_blocks len) (cbc_pad (get_bytes m inp len)) of
      (ys, c) \<Rightarrow> put_bytes (put_bytes m outp ys) ivec c)"
proof -
  define q where "q = len div 16"
  define r where "r = len mod 16"
  have len: "len = 16 * q + r" "r < 16" by (simp_all add: q_def r_def)
  obtain ys c where e: "cbc_enc_ref (block key) (get_bytes m ivec 16) q (get_bytes m inp (16 * q)) = (ys, c)"
    by (cases "cbc_enc_ref (block key) (get_bytes m ivec 16) q (get_bytes m inp (16 * q))")
  have ai: "input_ahead inp outp (16 * q)" by (rule input_ahead_take [OF a]) (simp add: len)
  have av: "input_ahead ivec outp 16" using i by (auto simp: apart_def input_ahead_def)
  from cbc_enc_blocks_spec [OF b ai av len(2) e] obtain iv where
    s: "cbc_enc_blocks block key m inp outp len ivec = (put_bytes m outp ys, inp + 16 * q, outp + 16 * q, r, iv)"
    and iv: "input_ahead iv (outp + 16 * q) 16" "get_bytes (put_bytes m outp ys) iv 16 = c" "length ys = 16 * q"
    unfolding len(1) by blast
  show ?thesis
  proof (cases "r = 0")
    case True
    then have "cbc_blocks len = q" "cbc_pad (get_bytes m inp len) = get_bytes m inp (16 * q)"
      using cbc_blocks_parts [OF len(2), of q] by (simp_all add: cbc_pad_def len(1))
    then show ?thesis using s iv(2) e True
      by (simp add: CRYPTO_cbc128_encrypt_def cbc_enc_rest.simps [of block key "put_bytes m outp ys" "inp + 16 * q" "outp + 16 * q" 0])
  next
    case False
    let ?x = "get_bytes m (inp + 16 * q) r @ replicate (16 - r) 0"
    let ?c = "block key (xor_bytes ?x c)"
    have bl: "cbc_blocks len = q + 1" using cbc_blocks_parts [OF len(2), of q] False by (simp add: len(1))
    then have pad: "cbc_pad (get_bytes m inp len) = get_bytes m inp (16 * q) @ ?x"
      using len by (simp add: cbc_pad_def get_bytes_add)
    have l: "length ?c = 16"
    proof -
      have "length c = 16" using iv(2) by auto
      then show ?thesis using b len(2) by (simp add: block_ok_def)
    qed
    have ref: "cbc_enc_ref (block key) (get_bytes m ivec 16) (cbc_blocks len) (cbc_pad (get_bytes m inp len)) = (ys @ ?c, ?c)"
      unfolding bl pad cbc_enc_ref_add using e len(2) by (simp add: Let_def)
    have ar: "input_ahead (inp + 16 * q) (outp + 16 * q) r" using input_ahead_add [OF a, of "16 * q"] by (simp add: len(1))
    have g: "get_bytes (put_bytes m outp ys) (inp + 16 * q) r = get_bytes m (inp + 16 * q) r"
      using get_ahead [OF a, of ys r m] iv(3) by (simp add: len(1))
    have "cbc_enc_rest block key (put_bytes m outp ys) (inp + 16 * q) (outp + 16 * q) r iv =
        (put_bytes (put_bytes m outp ys) (outp + 16 * q) ?c, outp + 16 * q)"
      using cbc_enc_rest_spec [OF b ar iv(1), of "put_bytes m outp ys"] False len(2) by (simp add: g iv(2))
    moreover have "put_bytes (put_bytes m outp ys) (outp + 16 * q) ?c = put_bytes m outp (ys @ ?c)"
      using put_bytes_append [of m outp ys ?c] iv(3) by simp
    moreover have "get_bytes (put_bytes m outp (ys @ ?c)) (outp + 16 * q) 16 = ?c"
      using get_put_id [OF l, of "put_bytes m outp ys" "outp + 16 * q"] put_bytes_append [of m outp ys ?c] iv(3) by simp
    ultimately show ?thesis using s unfolding ref by (simp add: CRYPTO_cbc128_encrypt_def)
  qed
qed

lemma cbc_enc_ref_length:
  "\<lbrakk>cbc_enc_ref E iv k xs = (ys, c); \<And>b. length b = 16 \<Longrightarrow> length (E b) = 16; length iv = 16; length xs = 16 * k\<rbrakk> \<Longrightarrow>
    length ys = 16 * k \<and> length c = 16"
proof (induction k arbitrary: iv xs ys)
  case (Suc k)
  obtain zs where z: "cbc_enc_ref E (E (xor_bytes (take 16 xs) iv)) k (drop 16 xs) = (zs, c)" "ys = E (xor_bytes (take 16 xs) iv) @ zs"
    using Suc.prems(1) by (auto simp: Let_def split: prod.splits)
  have "length (E (xor_bytes (take 16 xs) iv)) = 16" using Suc.prems(2) [of "xor_bytes (take 16 xs) iv"] Suc.prems(3,4) by simp
  then show ?case using Suc.IH [OF z(1) Suc.prems(2)] Suc.prems(4) z(2) by simp
qed simp

lemma xor_bytes_twice: "length xs = length ys \<Longrightarrow> xor_bytes (xor_bytes xs ys) ys = xs"
  by (simp add: list_eq_iff_nth_eq xor.assoc)

lemma cbc_ref_undo:
  assumes E: "\<And>b. length b = 16 \<Longrightarrow> length (E b) = 16" and D: "\<And>b. length b = 16 \<Longrightarrow> D (E b) = b"
  shows "\<lbrakk>cbc_enc_ref E iv k xs = (ys, c); length iv = 16; length xs = 16 * k\<rbrakk> \<Longrightarrow> cbc_dec_ref D iv k ys = (xs, c)"
proof (induction k arbitrary: iv xs ys)
  case (Suc k)
  let ?b = "xor_bytes (take 16 xs) iv"
  obtain zs where z: "cbc_enc_ref E (E ?b) k (drop 16 xs) = (zs, c)" "ys = E ?b @ zs"
    using Suc.prems(1) by (auto simp: Let_def split: prod.splits)
  have l: "length ?b = 16" using Suc.prems(2,3) by simp
  have "cbc_dec_ref D (E ?b) k zs = (drop 16 xs, c)" by (rule Suc.IH [OF z(1) E [OF l]]) (use Suc.prems(3) in simp)
  moreover have "xor_bytes (D (E ?b)) iv = take 16 xs" using D [OF l] xor_bytes_twice [of "take 16 xs" iv] Suc.prems(2,3) by simp
  ultimately show ?case using E [OF l] z(2) by (simp add: Let_def)
qed simp

text \<open>Decryption straight to the output.\<close>

lemma call_block_to: "call_block block key m p q = put_bytes m q (block key (get_bytes m p 16))"
  by (simp add: call_block_def)

lemma cbc_dec_far_spec:
  "\<lbrakk>block_ok block key; outp + 32 \<le> inp \<or> inp + 16 * k \<le> outp; apart iv 16 outp (if k = 0 then 0 else 16); r < 16;
    cbc_dec_ref (block key) (get_bytes m iv 16) k (get_bytes m inp (16 * k)) = (ys, c)\<rbrakk> \<Longrightarrow>
    \<exists>iv'. cbc_dec_far block key m inp outp (16 * k + r) iv = (put_bytes m outp ys, inp + 16 * k, outp + 16 * k, r, iv') \<and>
      get_bytes (put_bytes m outp ys) iv' 16 = c \<and> length ys = 16 * k"
proof (induction k arbitrary: m inp outp iv ys)
  case 0
  then show ?case by (simp add: cbc_dec_far.simps [of block key m inp outp r])
next
  case (Suc k)
  let ?x = "get_bytes m inp 16" and ?iv = "get_bytes m iv 16" and ?xs = "get_bytes m (inp + 16) (16 * k)"
  let ?d = "block key ?x"
  let ?p = "xor_bytes ?d ?iv"
  let ?m = "put_bytes m outp ?p"
  have l: "length ?d = 16" using Suc.prems(1) by (simp add: block_ok_def)
  obtain zs where z: "cbc_dec_ref (block key) ?x k ?xs = (zs, c)" "ys = ?p @ zs"
    using Suc.prems(5) by (auto simp: take_get drop_get Let_def split: prod.splits)
  have iv: "apart iv 16 outp 16" using Suc.prems(3) by simp
  have s: "xor_words_at (call_block block key m inp outp) outp iv outp 0 = ?m"
  proof -
    let ?n = "put_bytes m outp ?d"
    have "xor_words_at ?n outp iv outp 0 = put_bytes ?n outp (xor_bytes (get_bytes ?n outp 16) (get_bytes ?n iv 16))"
      by (rule xor_words_at_spec) (use iv in \<open>auto simp: input_ahead_def apart_def\<close>)
    also have "get_bytes ?n outp 16 = ?d" by (rule get_put_id [OF l])
    also have "get_bytes ?n iv 16 = ?iv" by (rule get_put_apart) (use iv l in \<open>auto simp: apart_def\<close>)
    finally show ?thesis using l by (simp add: call_block_to put_again)
  qed
  have g: "get_bytes ?m inp 16 = ?x" "get_bytes ?m (inp + 16) (16 * k) = ?xs"
    by (rule get_put_apart, use Suc.prems(2) l in \<open>auto simp: apart_def\<close>)+
  have "cbc_dec_ref (block key) (get_bytes ?m inp 16) k (get_bytes ?m (inp + 16) (16 * k)) = (zs, c)"
    using z(1) by (simp only: g)
  moreover have "outp + 16 + 32 \<le> inp + 16 \<or> inp + 16 + 16 * k \<le> outp + 16" "apart inp 16 (outp + 16) (if k = 0 then 0 else 16)"
    using Suc.prems(2) by (auto simp: apart_def)
  ultimately obtain iv' where
    e: "cbc_dec_far block key ?m (inp + 16) (outp + 16) (16 * k + r) inp = (put_bytes ?m (outp + 16) zs, inp + 16 + 16 * k, outp + 16 + 16 * k, r, iv')"
    and f: "get_bytes (put_bytes ?m (outp + 16) zs) iv' 16 = c" "length zs = 16 * k"
    using Suc.IH [of "outp + 16" "inp + 16" inp ?m zs] Suc.prems(1,4) by blast
  have p: "put_bytes ?m (outp + 16) zs = put_bytes m outp ys" using put_bytes_append [of m outp ?p zs] l z(2) by simp
  have "cbc_dec_far block key m inp outp (16 * Suc k + r) iv = (put_bytes m outp ys, inp + 16 * Suc k, outp + 16 * Suc k, r, iv')"
    using e by (subst cbc_dec_far.simps) (simp add: s p add.assoc)
  then show ?case using f l by (auto simp: p z(2) add.assoc)
qed

text \<open>Decryption through a temporary block.\<close>

lemma get_put_apart2:
  "\<lbrakk>apart p (length xs) q n; apart p' (length ys) q n\<rbrakk> \<Longrightarrow> get_bytes (put_bytes (put_bytes m p xs) p' ys) q n = get_bytes m q n"
  by (simp add: get_put_apart)

lemma put_apart_append:
  assumes "length xs = n" "length cs = n" "apart p (n + length ys) q (n + length ds)"
  shows "put_bytes (put_bytes (put_bytes (put_bytes m p xs) q cs) (p + n) ys) (q + n) ds = put_bytes (put_bytes m p (xs @ ys)) q (cs @ ds)"
proof -
  have "put_bytes (put_bytes (put_bytes m p xs) q cs) (p + n) ys = put_bytes (put_bytes (put_bytes m p xs) (p + n) ys) q cs"
    by (rule put_commute) (use assms in \<open>auto simp: apart_def\<close>)
  then show ?thesis using put_bytes_append [of m p xs ys] put_bytes_append [of _ q cs ds] assms by simp
qed

lemma cbc_tmp_words_spec:
  assumes l: "length tmp = 16" and a: "outp \<le> inp" "apart ivec 16 outp 16" "apart ivec 16 inp 16"
  shows "cbc_tmp_words m tmp inp outp ivec 0 =
    put_bytes (put_bytes m outp (xor_bytes tmp (get_bytes m ivec 16))) ivec (get_bytes m inp 16)"
proof -
  let ?p1 = "xor_bytes (take 8 tmp) (get_bytes m ivec 8)" and ?p2 = "xor_bytes (drop 8 tmp) (get_bytes m (ivec + 8) 8)"
  let ?c1 = "get_bytes m inp 8" and ?c2 = "get_bytes m (inp + 8) 8"
  let ?m = "put_bytes (put_bytes m outp ?p1) ivec ?c1"
  have w: "store_word_le (arr_word tmp n XOR load_word_le (get_bytes m' p 8)) = xor_bytes (take 8 (drop n tmp)) (get_bytes m' p 8)"
    if "n \<le> 8" for n m' p unfolding arr_word_def by (rule store_xor_words) (use l that in simp_all)
  have s: "store_word_le (load_word_le (get_bytes m' p 8)) = get_bytes m' p 8" for m' p by (rule store_load_word) simp
  have g: "get_bytes ?m (inp + 8) 8 = ?c2" "get_bytes ?m (ivec + 8) 8 = get_bytes m (ivec + 8) 8"
    by (rule get_put_apart2; use a l in \<open>auto simp: apart_def\<close>)+
  have "cbc_tmp_words m tmp inp outp ivec 0 = cbc_tmp_words ?m tmp inp outp ivec 8"
    by (subst cbc_tmp_words.simps) (simp add: Let_def w s)
  also have "\<dots> = put_bytes (put_bytes ?m (outp + 8) ?p2) (ivec + 8) ?c2"
    by (subst cbc_tmp_words.simps, subst cbc_tmp_words.simps) (simp add: Let_def w s g l)
  also have "\<dots> = put_bytes (put_bytes m outp (?p1 @ ?p2)) ivec (?c1 @ ?c2)"
    by (rule put_apart_append) (use a l in \<open>auto simp: apart_def\<close>)
  also have "?p1 @ ?p2 = xor_bytes tmp (get_bytes m ivec 16)"
    using xor_halves [of tmp "get_bytes m ivec 16"] l by (simp add: take_get drop_get)
  also have "?c1 @ ?c2 = get_bytes m inp 16" using get_bytes_add [of m inp 8 8] by simp
  finally show ?thesis .
qed

lemma cbc_dec_near_spec:
  "\<lbrakk>block_ok block key; outp \<le> inp; apart ivec 16 outp (16 * k); apart ivec 16 inp (16 * k); r < 16;
    cbc_dec_ref (block key) (get_bytes m ivec 16) k (get_bytes m inp (16 * k)) = (ys, c)\<rbrakk> \<Longrightarrow>
    cbc_dec_near block key m inp outp (16 * k + r) ivec =
      (put_bytes (put_bytes m outp ys) ivec c, inp + 16 * k, outp + 16 * k, r) \<and> length ys = 16 * k \<and> length c = 16"
proof (induction k arbitrary: m inp outp ys)
  case 0
  then show ?case using put_get_id [of m ivec 16] by (auto simp: cbc_dec_near.simps [of block key m inp outp r])
next
  case (Suc k)
  let ?x = "get_bytes m inp 16" and ?iv = "get_bytes m ivec 16" and ?xs = "get_bytes m (inp + 16) (16 * k)"
  let ?p = "xor_bytes (block key ?x) ?iv"
  let ?m = "put_bytes (put_bytes m outp ?p) ivec ?x"
  have l: "length (block key ?x) = 16" using Suc.prems(1) by (simp add: block_ok_def)
  obtain zs where z: "cbc_dec_ref (block key) ?x k ?xs = (zs, c)" "ys = ?p @ zs"
    using Suc.prems(6) by (auto simp: take_get drop_get Let_def split: prod.splits)
  have s: "cbc_tmp_words m (block key ?x) inp outp ivec 0 = ?m"
    by (rule cbc_tmp_words_spec [OF l Suc.prems(2)]) (use Suc.prems(3,4) in \<open>auto simp: apart_def\<close>)
  have g: "get_bytes ?m ivec 16 = ?x" by (rule get_put_id) simp
  have x: "get_bytes ?m (inp + 16) (16 * k) = ?xs"
    by (rule get_put_apart2) (use Suc.prems(2,4) l in \<open>auto simp: apart_def\<close>)
  have "cbc_dec_ref (block key) (get_bytes ?m ivec 16) k (get_bytes ?m (inp + 16) (16 * k)) = (zs, c)"
    using z(1) by (simp only: g x)
  moreover have "apart ivec 16 (outp + 16) (16 * k)" "apart ivec 16 (inp + 16) (16 * k)" "outp + 16 \<le> inp + 16"
    using Suc.prems(2,3,4) by (auto simp: apart_def)
  ultimately have e: "cbc_dec_near block key ?m (inp + 16) (outp + 16) (16 * k + r) ivec =
      (put_bytes (put_bytes ?m (outp + 16) zs) ivec c, inp + 16 + 16 * k, outp + 16 + 16 * k, r)"
    and f: "length zs = 16 * k" "length c = 16"
    using Suc.IH [of "outp + 16" "inp + 16" ?m zs] Suc.prems(1,5) by blast+
  have pa: "apart outp (16 + length zs) ivec 16" using Suc.prems(3) f(1) by (auto simp: apart_def)
  have "put_bytes ?m (outp + 16) zs = put_bytes (put_bytes m outp ys) ivec ?x"
    using put_apart_append [of ?p 16 ?x outp zs ivec "[]" m] pa l z(2) by simp
  then have p: "put_bytes (put_bytes ?m (outp + 16) zs) ivec c = put_bytes (put_bytes m outp ys) ivec c"
    using f(2) by (simp add: put_again)
  have "cbc_dec_near block key m inp outp (16 * Suc k + r) ivec = (put_bytes (put_bytes m outp ys) ivec c, inp + 16 * Suc k, outp + 16 * Suc k, r)"
    using e by (subst cbc_dec_near.simps) (simp add: s p add.assoc)
  then show ?case using f l by (auto simp: z(2))
qed

text \<open>The rest of a text that does not fill its last block.\<close>

lemma cbc_rest_bytes_spec:
  "\<lbrakk>n + k \<le> length tmp; input_ahead (inp + n) (outp + n) k; apart (ivec + n) k (outp + n) k; apart (ivec + n) k (inp + n) k\<rbrakk> \<Longrightarrow>
    cbc_rest_bytes m tmp inp outp ivec n k =
      put_bytes (put_bytes m (outp + n) (xor_bytes (take k (drop n tmp)) (get_bytes m (ivec + n) k))) (ivec + n) (get_bytes m (inp + n) k)"
proof (induction k arbitrary: m n)
  case (Suc k)
  let ?p = "tmp ! n XOR m (ivec + n)" and ?c = "m (inp + n)"
  let ?m = "put_bytes (put_bytes m (outp + n) [?p]) (ivec + n) [?c]"
  let ?ps = "xor_bytes (take k (drop (n + 1) tmp)) (get_bytes m (ivec + (n + 1)) k)" and ?cs = "get_bytes m (inp + (n + 1)) k"
  have g: "get_bytes ?m (ivec + (n + 1)) k = get_bytes m (ivec + (n + 1)) k" "get_bytes ?m (inp + (n + 1)) k = ?cs"
    by (rule get_put_apart2; use Suc.prems in \<open>auto simp: apart_def input_ahead_def\<close>)+
  have d: "take (Suc k) (drop n tmp) = tmp ! n # take k (drop (n + 1) tmp)" using Suc.prems(1) by (simp add: Cons_nth_drop_Suc [symmetric])
  have "cbc_rest_bytes m tmp inp outp ivec n (Suc k) = cbc_rest_bytes ?m tmp inp outp ivec (n + 1) k" by (simp add: Let_def)
  also have "\<dots> = put_bytes (put_bytes ?m (outp + (n + 1)) ?ps) (ivec + (n + 1)) ?cs"
    unfolding g [symmetric] by (rule Suc.IH) (use Suc.prems in \<open>auto simp: apart_def input_ahead_def\<close>)
  also have "\<dots> = put_bytes (put_bytes m (outp + n) ([?p] @ ?ps)) (ivec + n) ([?c] @ ?cs)"
    unfolding add.assoc [symmetric] by (rule put_apart_append) (use Suc.prems in \<open>auto simp: apart_def\<close>)
  finally show ?case by (simp add: d get_bytes_Suc)
qed simp

lemma cbc_dec_rest_spec:
  assumes b: "block_ok block key" and a: "input_ahead inp outp 16" and v: "apart ivec 16 outp 16" "apart ivec 16 inp 16"
    and r: "0 < r" "r < 16"
  shows "cbc_dec_rest block key m inp outp r ivec =
    put_bytes (put_bytes m outp (take r (xor_bytes (block key (get_bytes m inp 16)) (get_bytes m ivec 16)))) ivec (get_bytes m inp 16)"
proof -
  let ?d = "block key (get_bytes m inp 16)"
  let ?ps = "take r (xor_bytes ?d (get_bytes m ivec 16))"
  let ?m = "put_bytes (put_bytes m outp ?ps) ivec (get_bytes m inp r)"
  have l: "length ?d = 16" using b by (simp add: block_ok_def)
  have "xor_bytes (take r ?d) (get_bytes m ivec r) = ?ps" using r by (simp add: take_map take_zip take_get)
  then have 1: "cbc_rest_bytes m ?d inp outp ivec 0 r = ?m"
    using cbc_rest_bytes_spec [of 0 r ?d inp outp ivec m] a v r l by (auto simp: apart_def input_ahead_def)
  have "put_each ?m ivec r (\<lambda>m n. m (inp + n)) (16 - r) = put_bytes ?m (ivec + r) (map (\<lambda>i. ?m (inp + (r + i))) [0..<16 - r])"
    by (rule put_each_spec) (use v in \<open>auto simp: put_bytes_def apart_def\<close>)
  also have "map (\<lambda>i. ?m (inp + (r + i))) [0..<16 - r] = get_bytes ?m (inp + r) (16 - r)"
    by (simp add: get_bytes_def add.assoc)
  also have "\<dots> = get_bytes m (inp + r) (16 - r)"
    by (rule get_put_apart2) (use a v r l in \<open>auto simp: apart_def input_ahead_def\<close>)
  also have "put_bytes ?m (ivec + r) \<dots> = put_bytes (put_bytes m outp ?ps) ivec (get_bytes m inp r @ get_bytes m (inp + r) (16 - r))"
    using put_bytes_append [of "put_bytes m outp ?ps" ivec "get_bytes m inp r"] by simp
  also have "get_bytes m inp r @ get_bytes m (inp + r) (16 - r) = get_bytes m inp 16"
    using get_bytes_add [of m inp r "16 - r"] r by simp
  finally have 2: "put_each ?m ivec r (\<lambda>m n. m (inp + n)) (16 - r) = put_bytes (put_bytes m outp ?ps) ivec (get_bytes m inp 16)" .
  have "min 16 r = r" using r by simp
  then show ?thesis using r 1 2 by (simp add: cbc_dec_rest.simps [of block key m inp outp r] Let_def)
qed

lemma cbc_dec_ref_add:
  "cbc_dec_ref D iv (j + k) xs =
    (case cbc_dec_ref D iv j (take (16 * j) xs) of (as, iv1) \<Rightarrow> case cbc_dec_ref D iv1 k (drop (16 * j) xs) of (bs, iv2) \<Rightarrow> (as @ bs, iv2))"
proof (induction j arbitrary: iv xs)
  case (Suc j)
  have "take 16 (take (16 * Suc j) xs) = take 16 xs" "drop 16 (take (16 * Suc j) xs) = take (16 * j) (drop 16 xs)"
    "drop (16 * j) (drop 16 xs) = drop (16 * Suc j) xs"
    by (simp_all add: drop_take add.commute min_def)
  then show ?case using Suc [of "take 16 xs" "drop 16 xs"] by (simp add: Let_def split: prod.split)
qed simp

text \<open>The whole blocks, on either branch of the code.\<close>

lemma cbc_dec_whole:
  assumes b: "block_ok block key" and a: "input_ahead inp outp (16 * q)"
    and v: "apart ivec 16 outp (16 * q)" "apart ivec 16 inp (16 * q)" and r: "r < 16"
    and e: "cbc_dec_ref (block key) (get_bytes m ivec 16) q (get_bytes m inp (16 * q)) = (ys, c)"
    and far: "inp < outp \<Longrightarrow> inp + 16 * q \<le> outp"
  shows "CRYPTO_cbc128_decrypt m inp outp (16 * q + r) key ivec block =
      cbc_dec_rest block key (put_bytes (put_bytes m outp ys) ivec c) (inp + 16 * q) (outp + 16 * q) r ivec \<and>
    length ys = 16 * q \<and> length c = 16"
proof (cases "(32 \<le> inp \<and> outp \<le> inp - 32) \<or> inp < outp")
  case True
  then have f: "outp + 32 \<le> inp \<or> inp + 16 * q \<le> outp" using far by auto
  have "apart ivec 16 outp (if q = 0 then 0 else 16)" using v(1) by (auto simp: apart_def)
  from cbc_dec_far_spec [OF b f this r e] obtain iv where
    "cbc_dec_far block key m inp outp (16 * q + r) ivec = (put_bytes m outp ys, inp + 16 * q, outp + 16 * q, r, iv)"
    "get_bytes (put_bytes m outp ys) iv 16 = c" "length ys = 16 * q" by blast
  then show ?thesis using True by (auto simp: CRYPTO_cbc128_decrypt_def)
next
  case False
  then have "outp \<le> inp" by simp
  from cbc_dec_near_spec [OF b this v r e] show ?thesis unfolding CRYPTO_cbc128_decrypt_def if_not_P [OF False] by simp
qed

lemma CRYPTO_cbc128_decrypt_spec:
  assumes b: "block_ok block key" and a: "input_ahead inp outp (16 * cbc_blocks len)"
    and v: "apart ivec 16 outp (16 * cbc_blocks len)" "apart ivec 16 inp (16 * cbc_blocks len)"
  shows "CRYPTO_cbc128_decrypt m inp outp len key ivec block =
    (case cbc_dec_ref (block key) (get_bytes m ivec 16) (cbc_blocks len) (get_bytes m inp (16 * cbc_blocks len)) of
      (ys, c) \<Rightarrow> put_bytes (put_bytes m outp (take len ys)) ivec c)"
proof -
  define q where "q = len div 16"
  define r where "r = len mod 16"
  have len: "len = 16 * q + r" "r < 16" by (simp_all add: q_def r_def)
  have bl: "cbc_blocks len = (if r = 0 then q else q + 1)" using cbc_blocks_parts [OF len(2), of q] by (simp add: len(1))
  obtain ys c where e: "cbc_dec_ref (block key) (get_bytes m ivec 16) q (get_bytes m inp (16 * q)) = (ys, c)"
    by (cases "cbc_dec_ref (block key) (get_bytes m ivec 16) q (get_bytes m inp (16 * q))")
  have a': "input_ahead inp outp (16 * q)" and v': "apart ivec 16 outp (16 * q)" "apart ivec 16 inp (16 * q)"
    and far: "inp < outp \<Longrightarrow> inp + 16 * q \<le> outp"
    using a v bl by (auto simp: apart_def input_ahead_def split: if_splits)
  note w = cbc_dec_whole [OF b a' v' len(2) e far, folded len(1)]
  show ?thesis
  proof (cases "r = 0")
    case True
    then show ?thesis using w e bl len by (simp add: cbc_dec_rest.simps [of block key "put_bytes (put_bytes m outp ys) ivec c" "inp + 16 * q" "outp + 16 * q" 0])
  next
    case False
    let ?x = "get_bytes m (inp + 16 * q) 16" and ?m = "put_bytes (put_bytes m outp ys) ivec c"
    let ?p = "xor_bytes (block key ?x) c"
    have bl: "cbc_blocks len = q + 1" using bl False by simp
    have lc: "length ys = 16 * q" "length c = 16" and w: "CRYPTO_cbc128_decrypt m inp outp len key ivec block =
        cbc_dec_rest block key ?m (inp + 16 * q) (outp + 16 * q) r ivec" using w by simp_all
    have x: "get_bytes ?m (inp + 16 * q) 16 = ?x"
      by (rule get_put_apart2) (use a v lc in \<open>auto simp: apart_def input_ahead_def bl\<close>)
    have c: "get_bytes ?m ivec 16 = c" by (rule get_put_id [OF lc(2)])
    have pa: "apart ivec (length c) (outp + 16 * q) (length (take r ?p))" using v lc by (auto simp: apart_def bl)
    have "cbc_dec_rest block key ?m (inp + 16 * q) (outp + 16 * q) r ivec =
        put_bytes (put_bytes ?m (outp + 16 * q) (take r ?p)) ivec ?x"
      using cbc_dec_rest_spec [OF b, of "inp + 16 * q" "outp + 16 * q" ivec r ?m] a v False len(2)
      by (auto simp: x c apart_def input_ahead_def bl)
    also have "put_bytes ?m (outp + 16 * q) (take r ?p) = put_bytes (put_bytes m outp (ys @ take r ?p)) ivec c"
      using put_commute [of ivec c "outp + 16 * q" "take r ?p" "put_bytes m outp ys"] put_bytes_append [of m outp ys "take r ?p"]
        pa lc by simp
    also have "put_bytes \<dots> ivec ?x = put_bytes (put_bytes m outp (ys @ take r ?p)) ivec ?x" using lc(2) by (simp add: put_again)
    finally have d: "CRYPTO_cbc128_decrypt m inp outp len key ivec block = put_bytes (put_bytes m outp (ys @ take r ?p)) ivec ?x"
      using w by simp
    have "cbc_dec_ref (block key) (get_bytes m ivec 16) (cbc_blocks len) (get_bytes m inp (16 * cbc_blocks len)) = (ys @ ?p, ?x)"
      unfolding bl cbc_dec_ref_add using e by (simp add: take_get drop_get Let_def)
    then show ?thesis using d lc len(1) by simp
  qed
qed

end
