(* ===== verification/Modes_Properties.thy ===== *)
theory Modes_Properties
  imports Modes_Counter Modes_Cbc
begin

text \<open>
  The properties of the modes of operation, for every block cipher that maps blocks of 16 bytes to
  blocks of 16 bytes. The toy ciphers of the witnesses shift the bytes of a block by the key.
\<close>

definition toy_enc :: "u8 block128_f" where "toy_enc k b = map (\<lambda>x. x + k) b"
definition toy_dec :: "u8 block128_f" where "toy_dec k b = map (\<lambda>x. x - k) b"

lemma toy_ok: "block_ok toy_enc k" "block_ok toy_dec k"
  by (simp_all add: block_ok_def toy_enc_def toy_dec_def)

definition toy_ctr32 :: "u8 ctr128_f" where
  "toy_ctr32 xs n k ivec = xor_bytes xs (concat (map (\<lambda>i. toy_enc k (take 12 ivec @ be_bytes 4 (be_val (drop 12 ivec) + i))) [0..<n]))"

lemma toy_ctr32_ok: "ctr32_ok toy_ctr32 toy_enc k"
  by (simp add: ctr32_ok_def toy_ctr32_def)

text \<open>C36: A text can be cut into calls anywhere: in counter mode, output feedback and cipher feedback,
  one call on \<open>a + b\<close> bytes leaves the same memory and the same state as a call on the first \<open>a\<close> bytes
  and then one on the other \<open>b\<close>, whatever part of a block the state says is used up, in place or on
  separate buffers.\<close>
theorem modes_cut_anywhere:
  assumes "block_ok block key" "input_ahead inp outp (a + b)" "length ivec = 16" "length ec = 16" "num < 16"
  shows "CRYPTO_ctr128_encrypt m inp outp (a + b) key ivec ec num block =
      (case CRYPTO_ctr128_encrypt m inp outp a key ivec ec num block of
        (m1, ivec1, ec1, num1) \<Rightarrow> CRYPTO_ctr128_encrypt m1 (inp + a) (outp + a) b key ivec1 ec1 num1 block) \<and>
    CRYPTO_ofb128_encrypt m inp outp (a + b) key ivec num block =
      (case CRYPTO_ofb128_encrypt m inp outp a key ivec num block of
        (m1, ivec1, num1) \<Rightarrow> CRYPTO_ofb128_encrypt m1 (inp + a) (outp + a) b key ivec1 num1 block) \<and>
    CRYPTO_cfb128_encrypt m inp outp (a + b) key ivec num enc block =
      (case CRYPTO_cfb128_encrypt m inp outp a key ivec num enc block of
        (m1, ivec1, num1) \<Rightarrow> CRYPTO_cfb128_encrypt m1 (inp + a) (outp + a) b key ivec1 num1 enc block)"
proof -
  have s: "block_ok block key \<and> ctr_state_ok (ivec, ec, num)" "block_ok block key \<and> ofb_state_ok (ivec, num)"
    using assms by (simp_all add: ctr_state_ok_def ofb_state_ok_def)
  show ?thesis
    using ctr_calls.e.cut [OF s(1) assms(2), of m] ofb_calls.e.cut [OF s(2) assms(2), of m]
      cfb_calls.e.cut [OF s(2) assms(2), of m] cfb_calls.d.cut [OF s(2) assms(2), of m]
    by (cases enc) simp_all
qed

theorem modes_cut_anywhere_witness:
  "CRYPTO_ctr128_encrypt (\<lambda>a. of_nat a) 40 37 (5 + 30) 3 (replicate 16 255) (replicate 16 9) 14 toy_enc =
      (case CRYPTO_ctr128_encrypt (\<lambda>a. of_nat a) 40 37 5 3 (replicate 16 255) (replicate 16 9) 14 toy_enc of
        (m1, ivec1, ec1, num1) \<Rightarrow> CRYPTO_ctr128_encrypt m1 (40 + 5) (37 + 5) 30 3 ivec1 ec1 num1 toy_enc)"
  by (rule modes_cut_anywhere [THEN conjunct1]) (simp_all add: toy_ok input_ahead_def)

text \<open>C37: Decryption undoes encryption: after a call of counter mode, output feedback, cipher feedback
  or cipher feedback of eight bits and then the decrypting call of the same mode from the same state
  on what it wrote, the destination holds the text, and both calls end in the same state.\<close>
theorem modes_undo:
  assumes "block_ok block key" "input_ahead inp outp len" "input_ahead outp dst len"
    "length ivec = 16" "length ec = 16" "num < 16"
  shows "(case CRYPTO_ctr128_encrypt m inp outp len key ivec ec num block of (m1, s1) \<Rightarrow>
      case CRYPTO_ctr128_encrypt m1 outp dst len key ivec ec num block of (m2, s2) \<Rightarrow>
        get_bytes m2 dst len = get_bytes m inp len \<and> s2 = s1) \<and>
    (case CRYPTO_ofb128_encrypt m inp outp len key ivec num block of (m1, s1) \<Rightarrow>
      case CRYPTO_ofb128_encrypt m1 outp dst len key ivec num block of (m2, s2) \<Rightarrow>
        get_bytes m2 dst len = get_bytes m inp len \<and> s2 = s1) \<and>
    (case CRYPTO_cfb128_encrypt m inp outp len key ivec num True block of (m1, s1) \<Rightarrow>
      case CRYPTO_cfb128_encrypt m1 outp dst len key ivec num False block of (m2, s2) \<Rightarrow>
        get_bytes m2 dst len = get_bytes m inp len \<and> s2 = s1) \<and>
    (case CRYPTO_cfb128_8_encrypt fill m inp outp len key ivec True block of (m1, s1) \<Rightarrow>
      case CRYPTO_cfb128_8_encrypt fill m1 outp dst len key ivec False block of (m2, s2) \<Rightarrow>
        get_bytes m2 dst len = get_bytes m inp len \<and> s2 = s1)"
proof -
  have s: "block_ok block key \<and> ctr_state_ok (ivec, ec, num)" "block_ok block key \<and> ofb_state_ok (ivec, num)"
    using assms by (simp_all add: ctr_state_ok_def ofb_state_ok_def)
  show ?thesis
    using ctr_calls.undo_call [OF s(1) assms(2,3), of m] ofb_calls.undo_call [OF s(2) assms(2,3), of m]
      cfb_calls.undo_call [OF s(2) assms(2,3), of m] cfb8_calls.undo_call [OF assms(4,2,3), where m = m and fill = fill]
    by (intro conjI) simp_all
qed

theorem modes_undo_witness:
  "(case CRYPTO_cfb128_encrypt (\<lambda>a. of_nat a) 40 37 50 3 (replicate 16 255) 14 True toy_enc of (m1, s1) \<Rightarrow>
      case CRYPTO_cfb128_encrypt m1 37 37 50 3 (replicate 16 255) 14 False toy_enc of (m2, s2) \<Rightarrow>
        get_bytes m2 37 50 = get_bytes (\<lambda>a. of_nat a) 40 50 \<and> s2 = s1)"
  by (rule modes_undo [where ec = "replicate 16 0", THEN conjunct2, THEN conjunct2, THEN conjunct1]) (simp_all add: toy_ok input_ahead_def)

text \<open>C38: Counter mode with a routine that counts in 32 bits is counter mode: if the routine encrypts
  blocks with the last four bytes of the counter counted up and no carry beyond them, the memory, the
  counter and the number of bytes used are those of the plain loop, for every length and every
  counter, also where the 32 bits run over, and so is the pad as long as some of it is left.\<close>
theorem ctr32_equals_ctr128:
  assumes "ctr32_ok func block key" "block_ok block key" "input_ahead inp outp len"
    "length ivec = 16" "length ec = 16" "num < 16"
  shows "(case CRYPTO_ctr128_encrypt_ctr32 m inp outp len key ivec ec num func of (m1, ivec1, ec1, num1) \<Rightarrow>
      case CRYPTO_ctr128_encrypt m inp outp len key ivec ec num block of (m2, ivec2, ec2, num2) \<Rightarrow>
        m1 = m2 \<and> ivec1 = ivec2 \<and> num1 = num2 \<and> (num1 = 0 \<or> ec1 = ec2))"
proof -
  have s: "ctr_state_ok (ivec, ec, num)" using assms by (simp add: ctr_state_ok_def)
  from ctr32_bytewise [OF assms(1,2) s assms(3)] obtain ys s1 s2 where
    "CRYPTO_ctr128_encrypt_ctr32 m inp outp len key ivec ec num func = (put_bytes m outp ys, s1)"
    "run (ctr_step block key) (ivec, ec, num) (get_bytes m inp len) = (ys, s2)" "ctr_same s1 s2" by blast
  then show ?thesis
    using ctr128_bytewise [OF assms(2) s assms(3), of m] by (auto simp: ctr_same_def split: prod.splits)
qed

theorem ctr32_equals_ctr128_witness:
  "(case CRYPTO_ctr128_encrypt_ctr32 (\<lambda>a. of_nat a) 40 37 90 3 (replicate 16 255) (replicate 16 9) 14 toy_ctr32 of (m1, ivec1, ec1, num1) \<Rightarrow>
      case CRYPTO_ctr128_encrypt (\<lambda>a. of_nat a) 40 37 90 3 (replicate 16 255) (replicate 16 9) 14 toy_enc of (m2, ivec2, ec2, num2) \<Rightarrow>
        m1 = m2 \<and> ivec1 = ivec2 \<and> num1 = num2 \<and> (num1 = 0 \<or> ec1 = ec2))"
  by (rule ctr32_equals_ctr128 [OF toy_ctr32_ok toy_ok(1)]) (simp_all add: input_ahead_def)

text \<open>C39: Cipher block chaining round trip, in one memory: encrypting \<open>len\<close> bytes, putting the chaining
  value back and decrypting what was written, in place or to any destination behind it or apart from
  it, gives the text again and leaves the chaining value that encryption left, on both branches of the
  decryption and also when the text does not fill its last block.\<close>
theorem CRYPTO_cbc128_roundtrip:
  assumes "block_ok enc key" "block_ok dec key" "\<And>b. length b = 16 \<Longrightarrow> dec key (enc key b) = b"
    and "input_ahead inp outp len" "apart ivec 16 outp (16 * cbc_blocks len)"
    and "input_ahead outp dst (16 * cbc_blocks len)" "apart ivec 16 dst (16 * cbc_blocks len)"
  shows "(let m1 = CRYPTO_cbc128_encrypt m inp outp len key ivec enc;
              m2 = CRYPTO_cbc128_decrypt (put_bytes m1 ivec (get_bytes m ivec 16)) outp dst len key ivec dec
          in get_bytes m2 dst len = get_bytes m inp len \<and> get_bytes m2 ivec 16 = get_bytes m1 ivec 16)"
proof -
  let ?n = "cbc_blocks len" and ?iv = "get_bytes m ivec 16" and ?xs = "cbc_pad (get_bytes m inp len)"
  obtain ys c where e: "cbc_enc_ref (enc key) ?iv ?n ?xs = (ys, c)" by (cases "cbc_enc_ref (enc key) ?iv ?n ?xs")
  define m1 where "m1 = CRYPTO_cbc128_encrypt m inp outp len key ivec enc"
  define m0 where "m0 = put_bytes m1 ivec ?iv"
  have m1: "m1 = put_bytes (put_bytes m outp ys) ivec c"
    unfolding m1_def CRYPTO_cbc128_encrypt_spec [OF assms(1,4,5)] by (simp add: e)
  have l: "length ys = 16 * ?n" "length c = 16"
    using cbc_enc_ref_length [OF e] assms(1) length_cbc_pad [of "get_bytes m inp len"] by (auto simp: block_ok_def)
  then have m0: "m0 = put_bytes (put_bytes m outp ys) ivec ?iv" by (simp add: m0_def m1 put_again)
  have iv: "get_bytes m0 ivec 16 = ?iv" unfolding m0 by (rule get_put_id) simp
  have out: "get_bytes m0 outp (16 * ?n) = ys"
    unfolding m0 using get_put_apart [of ivec ?iv outp "16 * ?n"] assms(5) get_put_id [OF l(1)] by simp
  have d: "cbc_dec_ref (dec key) ?iv ?n ys = (?xs, c)"
    by (rule cbc_ref_undo [OF _ assms(3) e]) (use assms(1) length_cbc_pad [of "get_bytes m inp len"] in \<open>simp_all add: block_ok_def\<close>)
  have "take len ?xs = get_bytes m inp len" by (simp add: cbc_pad_def)
  then have m2: "CRYPTO_cbc128_decrypt m0 outp dst len key ivec dec = put_bytes (put_bytes m0 dst (get_bytes m inp len)) ivec c"
    unfolding CRYPTO_cbc128_decrypt_spec [OF assms(2,6,7,5)] iv out by (simp add: d)
  have "len \<le> 16 * ?n" unfolding cbc_blocks_def by linarith
  then have "apart ivec 16 dst len" using assms(7) by (auto simp: apart_def)
  then have "get_bytes (put_bytes (put_bytes m0 dst (get_bytes m inp len)) ivec c) dst len = get_bytes m inp len"
    using get_put_apart [of ivec c dst len] get_put_id [of "get_bytes m inp len" len] l(2) by simp
  then show ?thesis
    using m2 l(2) by (simp add: m0_def m1_def Let_def get_put_id) (simp add: m1 get_put_id flip: m1_def)
qed

theorem CRYPTO_cbc128_roundtrip_witness:
  "(let m1 = CRYPTO_cbc128_encrypt (\<lambda>a. of_nat a) 120 110 40 3 20 toy_enc;
        m2 = CRYPTO_cbc128_decrypt (put_bytes m1 20 (get_bytes (\<lambda>a. of_nat a) 20 16)) 110 100 40 3 20 toy_dec
    in get_bytes m2 100 40 = get_bytes (\<lambda>a. of_nat a) 120 40 \<and> get_bytes m2 20 16 = get_bytes m1 20 16)"
  by (rule CRYPTO_cbc128_roundtrip)
    (simp_all add: toy_ok input_ahead_def apart_def cbc_blocks_def toy_enc_def toy_dec_def comp_def)

text \<open>
  Decryption reads whole blocks, but its assertion on the buffers compares with \<open>len\<close>: with 17 bytes
  and the output 17 bytes behind the input, which it admits, the second block is decrypted after its
  end was overwritten, and the last byte of the text is not the one that separate buffers give.
\<close>

lemma cbc_assert_admits_overwritten_input:
  "input_ahead 0 17 17"
  "CRYPTO_cbc128_decrypt (\<lambda>a. of_nat a) 0 17 17 (0 :: nat) 100 (\<lambda>k. rev) 33 = 115"
  "CRYPTO_cbc128_decrypt (\<lambda>a. of_nat a) 0 64 17 (0 :: nat) 100 (\<lambda>k. rev) 80 = 31"
  by (simp add: input_ahead_def, code_simp, code_simp)

end
