(* ===== verification/Ldb_Coding.thy ===== *)
theory Ldb_Coding
  imports Varint
begin

text \<open>
  The encodings of the local database (\<open>util/coding.cc\<close>, \<open>util/coding.h\<close> of leveldb): numbers of fixed
  and of variable length and strings with their length, and the mask of stored checksums
  (\<open>util/crc32c.h\<close>). A \<open>Slice\<close> is the list of its bytes; a reader returns what it read and the rest.
\<close>

unbundle bit_operations_syntax

type_synonym slice = "u8 list"

section \<open>Fixed length\<close>

text \<open>The targets of the application are little endian; the other branch of the code is kept.\<close>

definition kLittleEndian :: bool where "kLittleEndian = True"

definition EncodeFixed32 :: "u32 \<Rightarrow> slice" where
  "EncodeFixed32 v =
     (if kLittleEndian then le_bytes 4 (unat v)
      else [ucast (v AND 0xff), ucast (drop_bit 8 v AND 0xff), ucast (drop_bit 16 v AND 0xff), ucast (drop_bit 24 v AND 0xff)])"

definition EncodeFixed64 :: "u64 \<Rightarrow> slice" where
  "EncodeFixed64 v =
     (if kLittleEndian then le_bytes 8 (unat v)
      else [ucast (v AND 0xff), ucast (drop_bit 8 v AND 0xff), ucast (drop_bit 16 v AND 0xff), ucast (drop_bit 24 v AND 0xff),
            ucast (drop_bit 32 v AND 0xff), ucast (drop_bit 40 v AND 0xff), ucast (drop_bit 48 v AND 0xff), ucast (drop_bit 56 v AND 0xff)])"

definition PutFixed32 :: "slice \<Rightarrow> u32 \<Rightarrow> slice" where "PutFixed32 dst v = dst @ EncodeFixed32 v"
definition PutFixed64 :: "slice \<Rightarrow> u64 \<Rightarrow> slice" where "PutFixed64 dst v = dst @ EncodeFixed64 v"

definition DecodeFixed32 :: "slice \<Rightarrow> u32" where
  "DecodeFixed32 p =
     (if kLittleEndian then of_nat (le_val (take 4 p))
      else ucast (p ! 0) OR push_bit 8 (ucast (p ! 1)) OR push_bit 16 (ucast (p ! 2)) OR push_bit 24 (ucast (p ! 3)))"

definition DecodeFixed64 :: "slice \<Rightarrow> u64" where
  "DecodeFixed64 p =
     (if kLittleEndian then of_nat (le_val (take 8 p))
      else push_bit 32 (ucast (DecodeFixed32 (drop 4 p))) OR ucast (DecodeFixed32 p))"

section \<open>Variable length\<close>

definition EncodeVarint32 :: "u32 \<Rightarrow> slice" where
  "EncodeVarint32 v =
     (if v < push_bit 7 1 then [ucast v]
      else if v < push_bit 14 1 then [ucast (v OR 128), ucast (drop_bit 7 v)]
      else if v < push_bit 21 1 then [ucast (v OR 128), ucast (drop_bit 7 v OR 128), ucast (drop_bit 14 v)]
      else if v < push_bit 28 1 then [ucast (v OR 128), ucast (drop_bit 7 v OR 128), ucast (drop_bit 14 v OR 128), ucast (drop_bit 21 v)]
      else [ucast (v OR 128), ucast (drop_bit 7 v OR 128), ucast (drop_bit 14 v OR 128), ucast (drop_bit 21 v OR 128), ucast (drop_bit 28 v)])"

definition PutVarint32 :: "slice \<Rightarrow> u32 \<Rightarrow> slice" where "PutVarint32 dst v = dst @ EncodeVarint32 v"

function EncodeVarint64 :: "u64 \<Rightarrow> slice" where
  "EncodeVarint64 v = (if 128 \<le> v then ucast (v OR 128) # EncodeVarint64 (drop_bit 7 v) else [ucast v])"
  by pat_completeness auto
termination by (relation "measure unat") (auto simp: unat_drop_bit word_le_nat_alt intro!: div_less_dividend)

declare EncodeVarint64.simps [simp del]

definition PutVarint64 :: "slice \<Rightarrow> u64 \<Rightarrow> slice" where "PutVarint64 dst v = dst @ EncodeVarint64 v"

function VarintLength :: "u64 \<Rightarrow> nat" where
  "VarintLength v = (if 128 \<le> v then Suc (VarintLength (drop_bit 7 v)) else 1)"
  by pat_completeness auto
termination by (relation "measure unat") (auto simp: unat_drop_bit word_le_nat_alt intro!: div_less_dividend)

declare VarintLength.simps [simp del]

definition PutLengthPrefixedSlice :: "slice \<Rightarrow> slice \<Rightarrow> slice" where
  "PutLengthPrefixedSlice dst v = PutVarint32 dst (of_nat (length v)) @ v"

text \<open>The loops of the readers; \<open>result\<close> is what the bytes before gave.\<close>

fun varint32_ptr_loop :: "nat \<Rightarrow> u32 \<Rightarrow> slice \<Rightarrow> (u32 \<times> slice) option" where
  "varint32_ptr_loop shift result [] = None"
| "varint32_ptr_loop shift result (b # bs) =
     (if shift \<le> 28 then
        (if b AND 128 \<noteq> 0 then varint32_ptr_loop (shift + 7) (result OR push_bit shift (ucast b AND 127)) bs
         else Some (result OR push_bit shift (ucast b), bs))
      else None)"

definition GetVarint32PtrFallback :: "slice \<Rightarrow> (u32 \<times> slice) option" where
  "GetVarint32PtrFallback p = varint32_ptr_loop 0 0 p"

definition GetVarint32Ptr :: "slice \<Rightarrow> (u32 \<times> slice) option" where
  "GetVarint32Ptr p =
     (if p \<noteq> [] \<and> (ucast (p ! 0) :: u32) AND 128 = 0 then Some (ucast (p ! 0), drop 1 p) else GetVarint32PtrFallback p)"

definition GetVarint32 :: "slice \<Rightarrow> u32 option \<times> slice" where
  "GetVarint32 input = (case GetVarint32Ptr input of None \<Rightarrow> (None, input) | Some (v, q) \<Rightarrow> (Some v, q))"

fun varint64_ptr_loop :: "nat \<Rightarrow> u64 \<Rightarrow> slice \<Rightarrow> (u64 \<times> slice) option" where
  "varint64_ptr_loop shift result [] = None"
| "varint64_ptr_loop shift result (b # bs) =
     (if shift \<le> 63 then
        (if b AND 128 \<noteq> 0 then varint64_ptr_loop (shift + 7) (result OR push_bit shift (ucast b AND 127)) bs
         else Some (result OR push_bit shift (ucast b), bs))
      else None)"

definition GetVarint64Ptr :: "slice \<Rightarrow> (u64 \<times> slice) option" where
  "GetVarint64Ptr p = varint64_ptr_loop 0 0 p"

definition GetVarint64 :: "slice \<Rightarrow> u64 option \<times> slice" where
  "GetVarint64 input = (case GetVarint64Ptr input of None \<Rightarrow> (None, input) | Some (v, q) \<Rightarrow> (Some v, q))"

text \<open>The version over pointers and the one over a \<open>Slice\<close>, which keeps the length when it fails after it.\<close>

definition GetLengthPrefixedSlicePtr :: "slice \<Rightarrow> (slice \<times> slice) option" where
  "GetLengthPrefixedSlicePtr p =
     (case GetVarint32Ptr p of
        None \<Rightarrow> None
      | Some (len, q) \<Rightarrow> (if length q < unat len then None else Some (take (unat len) q, drop (unat len) q)))"

definition GetLengthPrefixedSlice :: "slice \<Rightarrow> slice option \<times> slice" where
  "GetLengthPrefixedSlice input =
     on_success (GetVarint32 input) (\<lambda>len q.
       if unat len \<le> length q then (Some (take (unat len) q), drop (unat len) q) else (None, q))"

section \<open>Checksums\<close>

definition kMaskDelta :: u32 where "kMaskDelta = 0xa282ead8"

definition Mask :: "u32 \<Rightarrow> u32" where
  "Mask crc = (drop_bit 15 crc OR push_bit 17 crc) + kMaskDelta"

definition Unmask :: "u32 \<Rightarrow> u32" where
  "Unmask masked_crc = (let rot = masked_crc - kMaskDelta in drop_bit 17 rot OR push_bit 15 rot)"

section \<open>What they mean\<close>

lemma EncodeFixed32_eq: "EncodeFixed32 v = le_bytes 4 (unat v)"
  by (simp add: EncodeFixed32_def kLittleEndian_def)

lemma EncodeFixed64_eq: "EncodeFixed64 v = le_bytes 8 (unat v)"
  by (simp add: EncodeFixed64_def kLittleEndian_def)

lemma DecodeFixed32_eq: "DecodeFixed32 p = of_nat (le_val (take 4 p))"
  by (simp add: DecodeFixed32_def kLittleEndian_def)

lemma DecodeFixed64_eq: "DecodeFixed64 p = of_nat (le_val (take 8 p))"
  by (simp add: DecodeFixed64_def kLittleEndian_def)

text \<open>The portable branches write the same bytes.\<close>

lemma EncodeFixed_portable:
  "[ucast (v AND 0xff), ucast (drop_bit 8 v AND 0xff), ucast (drop_bit 16 v AND 0xff), ucast (drop_bit 24 v AND 0xff)] = EncodeFixed32 v"
  "[ucast (w AND 0xff), ucast (drop_bit 8 w AND 0xff), ucast (drop_bit 16 w AND 0xff), ucast (drop_bit 24 w AND 0xff),
    ucast (drop_bit 32 w AND 0xff), ucast (drop_bit 40 w AND 0xff), ucast (drop_bit 48 w AND 0xff), ucast (drop_bit 56 w AND 0xff)] = EncodeFixed64 w"
  unfolding EncodeFixed32_eq EncodeFixed64_eq le_bytes_4 le_bytes_8 byte_of_word byte_of_word_0 by (simp_all only: unat_drop_bit)

lemma DecodeFixed32_Encode: "DecodeFixed32 (EncodeFixed32 v @ rest) = v"
proof -
  have "unat v < 4294967296" using unsigned_less [where 'a = nat, of v] by simp
  then show ?thesis by (simp add: DecodeFixed32_eq EncodeFixed32_eq le_val_le_bytes)
qed

lemma DecodeFixed64_Encode: "DecodeFixed64 (EncodeFixed64 v @ rest) = v"
proof -
  have "unat v < 18446744073709551616" using unsigned_less [where 'a = nat, of v] by simp
  then show ?thesis by (simp add: DecodeFixed64_eq EncodeFixed64_eq le_val_le_bytes)
qed

lemma length_EncodeFixed [simp]: "length (EncodeFixed32 v) = 4" "length (EncodeFixed64 w) = 8"
  by (simp_all add: EncodeFixed32_eq EncodeFixed64_eq)

lemma Unmask_Mask: "Unmask (Mask crc) = crc"
proof -
  have "drop_bit 17 (drop_bit 15 crc OR push_bit 17 crc) OR push_bit 15 (drop_bit 15 crc OR push_bit 17 crc) = crc"
  proof (rule bit_word_eqI)
    fix n
    assume "n < LENGTH(32)"
    then show "bit (drop_bit 17 (drop_bit 15 crc OR push_bit 17 crc) OR push_bit 15 (drop_bit 15 crc OR push_bit 17 crc)) n = bit crc n"
      by (cases "n < 15") (auto simp: bit_simps)
  qed
  then show ?thesis by (simp add: Unmask_def Mask_def Let_def)
qed

lemma Mask_Unmask: "Mask (Unmask m) = m"
proof -
  define r where "r = m - kMaskDelta"
  have "drop_bit 15 (drop_bit 17 r OR push_bit 15 r) OR push_bit 17 (drop_bit 17 r OR push_bit 15 r) = r"
  proof (rule bit_word_eqI)
    fix n
    assume "n < LENGTH(32)"
    then show "bit (drop_bit 15 (drop_bit 17 r OR push_bit 15 r) OR push_bit 17 (drop_bit 17 r OR push_bit 15 r)) n = bit r n"
      by (cases "n < 17") (auto simp: bit_simps)
  qed
  then show ?thesis by (simp add: Unmask_def Mask_def Let_def flip: r_def) (simp add: r_def)
qed


text \<open>Writing numbers: the branches and the loop are the base-128 encoding.\<close>

lemma varint_head:
  fixes v :: "'a::len word"
  assumes "8 \<le> LENGTH('a)"
  shows "(ucast (v OR 128) :: u8) = of_nat (128 + unat v mod 128)"
proof -
  have "(ucast (v OR 128) :: u8) = push_bit 7 1 OR (ucast v AND 127)"
  proof (rule bit_word_eqI)
    fix n
    assume n: "n < LENGTH(8)"
    have l: "bit (ucast (v OR 128) :: u8) n \<longleftrightarrow> bit v n \<or> bit (128 :: 'a word) n" using n by (simp add: bit_ucast_iff bit_or_iff)
    have r: "bit (push_bit 7 1 OR (ucast v AND 127) :: u8) n \<longleftrightarrow> n = 7 \<or> bit v n \<and> bit (127 :: u8) n"
      using n by (auto simp: bit_ucast_iff bit_or_iff bit_and_iff bit_push_bit_iff bit_1_iff simp del: push_bit_of_1 push_bit_numeral)
    have m: "bit (127 :: u8) n \<longleftrightarrow> n < 7" using n bit_mask_iff [where 'a = u8, of 7 n] by (simp add: mask_eq_exp_minus_1)
    have k: "bit (128 :: 'a word) n \<longleftrightarrow> n = 7" using assms n bit_exp_iff [where 'a = "'a word", of 7 n] by auto
    show "bit (ucast (v OR 128) :: u8) n = bit (push_bit 7 1 OR (ucast v AND 127) :: u8) n"
      unfolding l r m k using n by auto
  qed
  moreover have u: "unat (ucast v AND 127 :: u8) = unat v mod 128"
    using unat_and_mask [of "ucast v :: u8" 7] by (simp add: mask_eq_exp_minus_1 unsigned_ucast_eq take_bit_eq_mod mod_mod_cancel)
  moreover have "push_bit 7 1 OR (ucast v AND 127) = push_bit 7 1 + (ucast v AND 127 :: u8)"
    by (rule push_bit_or_eq_add) (simp add: u)
  moreover have "push_bit 7 1 + (ucast v AND 127) = (of_nat (128 + unat (ucast v AND 127 :: u8)) :: u8)"
    by (simp add: of_nat_unat_word)
  ultimately show ?thesis by (simp only: u)
qed

lemma varint_step:
  fixes v :: "'a::len word"
  assumes "8 \<le> LENGTH('a)"
  shows "varint (unat v) = (if unat v < 128 then [ucast v] else ucast (v OR 128) # varint (unat (drop_bit 7 v)))"
proof -
  have "(of_nat (unat v) :: u8) = ucast v" by simp
  then show ?thesis by (subst varint.simps) (simp only: varint_head [OF assms] unat_drop_bit, simp)
qed

lemma EncodeVarint32_eq: "EncodeVarint32 v = varint (unat v)"
proof -
  have d: "unat (drop_bit k v) = unat v div 2 ^ k" for k by (simp add: unat_drop_bit)
  have s: "varint (unat (drop_bit k v)) =
      (if unat v div 2 ^ k < 128 then [ucast (drop_bit k v)] else ucast (drop_bit k v OR 128) # varint (unat (drop_bit (k + 7) v)))" for k
    using varint_step [of "drop_bit k v"] by (simp add: d add.commute)
  have "unat v div 2 ^ 28 < 128" using unsigned_less [where 'a = nat, of v] by (simp add: less_mult_imp_div_less)
  then show ?thesis
    using s [of 0] s [of 7] s [of 14] s [of 21] s [of 28]
    by (simp add: EncodeVarint32_def word_less_nat_alt div_less_iff_less_mult)
qed

lemma EncodeVarint64_eq: "EncodeVarint64 v = varint (unat v)"
proof (induction v rule: EncodeVarint64.induct)
  case (1 v)
  then show ?case
    by (cases "unat v < 128") (simp_all add: EncodeVarint64.simps [of v] varint_step [of v] word_le_nat_alt)
qed

lemma VarintLength_eq: "VarintLength v = length (varint (unat v))"
proof (induction v rule: VarintLength.induct)
  case (1 v)
  then show ?case
    by (cases "unat v < 128") (simp_all add: VarintLength.simps [of v] varint_step [of v] word_le_nat_alt)
qed


text \<open>Reading numbers: the loops read the base-128 encoding, of at most five and ten bytes.\<close>

lemma unvarint_length: "unvarint bs = Some (n, r) \<Longrightarrow> length r < length bs"
  by (induction bs arbitrary: n r) (auto split: if_splits option.splits prod.splits intro: less_SucI)

lemma varint_group:
  fixes r :: "'a::len word" and b :: u8
  assumes l: "8 \<le> LENGTH('a)" and b: "128 \<le> unat b"
  shows "(r OR push_bit s (ucast b AND 127)) OR push_bit (s + 7) (of_nat n) = r OR push_bit s (of_nat (n * 128 + (unat b - 128)))"
proof -
  have b2: "unat b < 256" by simp
  have "x - 128 < 128" if "x < 256" for x :: nat using that by arith
  then have less: "unat b - 128 < 128" using b2 by blast
  have "unat b mod 128 = (unat b - 128) mod 128" by (rule le_mod_geq [OF b])
  also have "\<dots> = unat b - 128" by (rule mod_less) (rule less)
  finally have m: "unat b mod 128 = unat b - 128" .
  have u: "unat (ucast b AND 127 :: 'a word) = unat b - 128"
    using unat_and_mask [of "ucast b :: 'a word" 7] l by (simp add: mask_eq_exp_minus_1 m)
  then have c: "(ucast b AND 127 :: 'a word) = of_nat (unat b - 128)" by (metis of_nat_unat_word)
  have "push_bit 7 (of_nat n) OR (ucast b AND 127 :: 'a word) = push_bit 7 (of_nat n) + (ucast b AND 127)"
    by (rule push_bit_or_eq_add) (simp add: u less)
  also have "\<dots> = of_nat (n * 128 + (unat b - 128))" by (simp add: c push_bit_eq_mult mult.commute)
  finally have "push_bit s (push_bit 7 (of_nat n) OR (ucast b AND 127)) = push_bit s (of_nat (n * 128 + (unat b - 128)) :: 'a word)" by simp
  then show ?thesis by (simp only: push_bit_or push_bit_push_bit or.assoc or.commute [of "push_bit (s + 7) (of_nat n)"])
qed

text \<open>The interface of the two loops.\<close>

locale varint_reader =
  fixes loop :: "nat \<Rightarrow> 'a::len word \<Rightarrow> slice \<Rightarrow> ('a word \<times> slice) option" and groups :: nat
  assumes width: "8 \<le> LENGTH('a)" "0 < groups"
    and loop_Nil: "loop shift r [] = None"
    and loop_Cons: "loop (7 * i) r (b # bs) =
      (if i < groups then (if b AND 128 \<noteq> 0 then loop (7 * i + 7) (r OR push_bit (7 * i) (ucast b AND 127)) bs
         else Some (r OR push_bit (7 * i) (ucast b), bs)) else None)"
begin

lemma loop_eq:
  "loop (7 * i) r bs =
    (case unvarint bs of
       None \<Rightarrow> None
     | Some (n, rest) \<Rightarrow> if length bs - length rest + i \<le> groups then Some (r OR push_bit (7 * i) (of_nat n), rest) else None)"
proof (induction bs arbitrary: i r)
  case (Cons b bs)
  show ?case
  proof (cases "128 \<le> unat b")
    case False
    have "(of_nat (unat b) :: 'a word) = ucast b" by simp
    then show ?thesis using False by (auto simp: loop_Cons u8_and_0x80)
  next
    case True
    let ?r = "r OR push_bit (7 * i) (ucast b AND 127)"
    have s: "7 * i + 7 = 7 * (i + 1)" by simp
    have l: "loop (7 * i) r (b # bs) = (if i < groups then loop (7 * (i + 1)) ?r bs else None)"
      unfolding loop_Cons s using True by (simp only: u8_and_0x80) simp
    have g: "?r OR push_bit (7 * (i + 1)) (of_nat n) = r OR push_bit (7 * i) (of_nat (n * 128 + (unat b - 128)))" for n
      unfolding s [symmetric] by (rule varint_group [OF width(1) True])
    show ?thesis
    proof (cases "unvarint bs")
      case None
      then show ?thesis using True by (simp add: l Cons.IH del: mult_Suc_right)
    next
      case (Some p)
      obtain n rest where p: "p = (n, rest)" by (cases p)
      have lr: "length rest < length bs" using unvarint_length Some p by blast
      then have e: "(length (b # bs) - length rest + i \<le> groups) = (i < groups \<and> length bs - length rest + (i + 1) \<le> groups)" using lr by auto
      have u: "unvarint (b # bs) = Some (n * 128 + (unat b - 128), rest)" using True Some p by simp
      show ?thesis unfolding l Cons.IH Some p u option.case prod.case g e using lr by auto
    qed
  qed
qed (simp add: loop_Nil)

lemma reads:
  "loop 0 0 bs =
    (case unvarint bs of
       None \<Rightarrow> None
     | Some (n, rest) \<Rightarrow> if length bs - length rest \<le> groups then Some (of_nat n, rest) else None)"
  using loop_eq [of 0 0 bs] by (cases "unvarint bs") (auto split: prod.splits)

lemma reads_varint: "n < 128 ^ groups \<Longrightarrow> loop 0 0 (varint n @ rest) = Some (of_nat n, rest)"
  using varint_length [OF width(2), of n] by (simp add: reads unvarint_varint)

end

interpretation v32: varint_reader varint32_ptr_loop 5
  by unfold_locales auto

interpretation v64: varint_reader varint64_ptr_loop 10
  by unfold_locales auto

lemma GetVarint32Ptr_eq: "GetVarint32Ptr p = varint32_ptr_loop 0 0 p"
proof (cases p)
  case (Cons b bs)
  have "(ucast b :: u32) AND 128 = 0 \<longleftrightarrow> b AND 128 = 0"
    using and_exp_eq_0_iff_not_bit [of "ucast b :: u32" 7] and_exp_eq_0_iff_not_bit [of b 7] by (simp add: bit_ucast_iff)
  then show ?thesis using Cons by (simp add: GetVarint32Ptr_def GetVarint32PtrFallback_def)
qed (simp add: GetVarint32Ptr_def GetVarint32PtrFallback_def)

interpretation ldb_varint32: prefix_codec EncodeVarint32 GetVarint32Ptr "\<lambda>_. True"
proof
  fix v :: u32 and rest
  have "unat v < 128 ^ 5" using unsigned_less [where 'a = nat, of v] by simp
  from v32.reads_varint [OF this, of rest] show "GetVarint32Ptr (EncodeVarint32 v @ rest) = Some (v, rest)"
    by (simp add: GetVarint32Ptr_eq EncodeVarint32_eq)
qed

interpretation ldb_varint64: prefix_codec EncodeVarint64 GetVarint64Ptr "\<lambda>_. True"
proof
  fix v :: u64 and rest
  have "unat v < 128 ^ 10" using unsigned_less [where 'a = nat, of v] by simp
  from v64.reads_varint [OF this, of rest] show "GetVarint64Ptr (EncodeVarint64 v @ rest) = Some (v, rest)"
    by (simp add: GetVarint64Ptr_def EncodeVarint64_eq)
qed

lemma GetVarint_reads:
  "GetVarint32 bs =
     (case unvarint bs of
        None \<Rightarrow> (None, bs)
      | Some (n, rest) \<Rightarrow> if length bs - length rest \<le> 5 then (Some (of_nat n), rest) else (None, bs))"
  "GetVarint64 bs =
     (case unvarint bs of
        None \<Rightarrow> (None, bs)
      | Some (n, rest) \<Rightarrow> if length bs - length rest \<le> 10 then (Some (of_nat n), rest) else (None, bs))"
  by (auto simp: GetVarint32_def GetVarint64_def GetVarint32Ptr_eq GetVarint64Ptr_def v32.reads v64.reads split: option.splits prod.splits)

lemma GetVarint_Encode:
  "GetVarint32 (EncodeVarint32 v @ rest) = (Some v, rest)" "GetVarint64 (EncodeVarint64 w @ rest) = (Some w, rest)"
  by (simp_all add: GetVarint32_def GetVarint64_def ldb_varint32.dec_enc ldb_varint64.dec_enc)

interpretation ldb_slice: prefix_codec "PutLengthPrefixedSlice []" GetLengthPrefixedSlicePtr "\<lambda>s. length s < 2 ^ 32"
proof
  fix x :: slice and rest
  assume "length x < 2 ^ 32"
  then have "unat (of_nat (length x) :: u32) = length x" by (simp add: unat_of_nat)
  then show "GetLengthPrefixedSlicePtr (PutLengthPrefixedSlice [] x @ rest) = Some (x, rest)"
    by (simp add: GetLengthPrefixedSlicePtr_def PutLengthPrefixedSlice_def PutVarint32_def ldb_varint32.dec_enc)
qed

lemma PutLengthPrefixedSlice_append: "PutLengthPrefixedSlice dst x = dst @ PutLengthPrefixedSlice [] x"
  by (simp add: PutLengthPrefixedSlice_def PutVarint32_def)

lemma GetLengthPrefixedSlice_Put:
  "length x < 2 ^ 32 \<Longrightarrow> GetLengthPrefixedSlice (PutLengthPrefixedSlice [] x @ rest) = (Some x, rest)"
  by (simp add: GetLengthPrefixedSlice_def on_success_def PutLengthPrefixedSlice_def PutVarint32_def GetVarint_Encode unat_of_nat)

end
