(* ===== verification/Ldb_Properties.thy ===== *)
theory Ldb_Properties
  imports Ldb_Crc32c
begin

text \<open>The properties of the encodings and of the checksum of the local database.\<close>

text \<open>C34: The checksum routine is CRC-32C: for every address, starting value and data, the loop over
  bytes up to an aligned address, the four interleaved strides of words with their tables, the
  combination of the strides and the loop over the last bytes give what dividing by the polynomial
  one bit at a time gives; so a checksum can be extended piece by piece, wherever the pieces lie, and
  the masked form that is stored determines it.\<close>
theorem crc32c_Extend_exact:
  "Extend addr crc data = crc32c crc data \<and>
   Extend addr crc (xs @ ys) = Extend addr1 (Extend addr2 crc xs) ys \<and>
   Unmask (Mask (Extend addr crc data)) = Extend addr crc data"
  by (simp add: Extend_eq crc32c_append Unmask_Mask)

text \<open>C35: The variable-length numbers of the database are base 128: both writers write that encoding
  and \<open>VarintLength\<close> is its length; both readers accept exactly the texts that begin with such an
  encoding of at most five or ten bytes, return the number modulo the width and what follows, and
  leave the input alone otherwise.\<close>
theorem ldb_varints_exact:
  "EncodeVarint32 v = varint (unat v) \<and> EncodeVarint64 w = varint (unat w) \<and> VarintLength w = length (EncodeVarint64 w) \<and>
   GetVarint32 bs =
     (case unvarint bs of
        None \<Rightarrow> (None, bs)
      | Some (n, rest) \<Rightarrow> if length bs - length rest \<le> 5 then (Some (of_nat n), rest) else (None, bs)) \<and>
   GetVarint64 bs =
     (case unvarint bs of
        None \<Rightarrow> (None, bs)
      | Some (n, rest) \<Rightarrow> if length bs - length rest \<le> 10 then (Some (of_nat n), rest) else (None, bs)) \<and>
   GetVarint32 (EncodeVarint32 v @ rest) = (Some v, rest) \<and> GetVarint64 (EncodeVarint64 w @ rest) = (Some w, rest)"
  by (intro conjI GetVarint_reads GetVarint_Encode EncodeVarint32_eq EncodeVarint64_eq) (simp add: VarintLength_eq EncodeVarint64_eq)

end
