(* ===== verification/Spec2Isabelle.thy ===== *)
theory Spec2Isabelle
  imports Bytestring_Properties Pb_Properties Stack_Properties Lhash_Properties Base64_Properties
    Asn1_Properties Mbstring Ber_Properties CBB_Contents Asn1_Time_Properties Modes_Properties Ldb_Properties
begin

text \<open>
  A verification development for the C code of this repository.

  The repository is an iOS ordering application in Swift with its dependencies under
  \<open>src/FirebaseDemo/Pods\<close>. Its C code is in those dependencies; the development models the parts of
  it that parse, build and store data: the crypto library \<open>BoringSSL-GRPC\<close> (directory
  \<open>src/crypto\<close> below it, written \<open>crypto/\<close> here) and \<open>nanopb\<close>, the protocol-buffer codec under the
  database client, and two files of its store \<open>leveldb-library\<close>. All code is modelled for the 64-bit targets of the application.

  \<^bold>\<open>Conventions.\<close> A C struct is a \<open>record\<close>, a pointer and a length a list of bytes (the block behind
  the pointer) and a number, a machine integer whose wrap-around matters a word; sizes are natural
  numbers with \<open>size_wrap\<close> where the code adds without a check. A function that returns one or zero
  and writes through its arguments returns \<open>'a option \<times> 's\<close>, chained by \<open>on_success\<close>. The C
  library's allocator is the argument \<open>heap\<close>: it says which requests it grants and what
  uninitialised memory holds, so every allocation failure is a branch of the model. Comparison
  functions, \<open>qsort\<close>, hash functions and the callbacks of streams are parameters, with what the code
  relies on as hypotheses (\<open>cmp_ok\<close>, \<open>qsort_ok\<close>).

  \<^bold>\<open>Theories.\<close>
  \<^item> \<open>Prelude\<close>: words, big-endian bytes, results, the allocator, and two interfaces as locales:
    \<open>prefix_codec\<close> (an encoder and a decoder that returns the rest) and \<open>keyed_table\<close> (a table
    implements a map).
  \<^item> \<open>Crypto_Mem\<close>: \<open>crypto/mem.c\<close> and the byte swaps of \<open>crypto/internal.h\<close>.
  \<^item> \<open>Const_Time\<close>: the constant-time masks of \<open>crypto/internal.h\<close>; they are exact.
  \<^item> \<open>CBS_Parser\<close>, \<open>DER_Spec\<close>: the cursor \<open>CBS\<close> of \<open>crypto/bytestring/cbs.c\<close> and the canonical
    encoding (DER) of X.690, with soundness and completeness of the element parser.
  \<^item> \<open>CBB_Builder\<close>, \<open>CBB_Refine\<close>: the builder \<open>CBB\<close> of \<open>crypto/bytestring/cbb.c\<close>. A builder and its open
    children are one value: the shared buffer and a list of nodes, and an operation takes the depth
    of the \<open>CBB\<close> it is called on. \<open>CBB_Refine\<close> relates it to a list of frames (\<open>cbb_rel\<close>) and shows
    that the flush, the writers, the opening of children and the typed elements \<open>refine\<close> the operation
    on frames; space and reservations, \<open>CBB_did_write\<close>, discarding, starting and finishing have lemmas
    of their own. \<open>CBB_did_write\<close> on a flushed \<open>CBB\<close>, a null dereference in C, is outside the claims.
    The content of an INTEGER is \<open>der_int\<close>, the minimal two's complement defined without the code.
  \<^item> \<open>CBB_Contents\<close>: object identifiers from dotted text, exactly the texts of valid identifiers, and
    the sorting of the elements of a \<open>SET OF\<close> (\<open>CBB_add_asn1_oid_from_text\<close>, \<open>CBB_flush_asn1_set_of\<close>).
  \<^item> \<open>Bytestring_Properties\<close>: what the library promises, and the round trip from builder to parser.
  \<^item> \<open>Ber\<close>, \<open>Ber_Properties\<close>: \<open>crypto/bytestring/ber.c\<close>. BER is a datatype of trees with their encoding
    and their DER form, defined with the tag numbers of X.690 and not with the code's tables. The
    converter turns one element into its DER form, where no element hides BER from the search
    (\<open>hides_ber\<close>) and no BIT STRING is split; the lemmas around it show what happens otherwise.
  \<^item> \<open>Unicode\<close>: \<open>crypto/bytestring/unicode.c\<close>, with the interface \<open>text_encoding\<close> interpreted for
    UTF-8, Latin-1, UCS-2 and UTF-32.
  \<^item> \<open>Asn1_Object\<close>, \<open>Asn1_String\<close>, \<open>Asn1_Properties\<close>: \<open>crypto/asn1/asn1_lib.c\<close>, the older header
    reader and writer and the string type; they agree with the byte-string library.
  \<^item> \<open>Mbstring\<close>: \<open>crypto/asn1/a_mbstr.c\<close>, which finds the smallest string type for a text and
    re-encodes it, over the interface \<open>text_encoding\<close>. The reference choice of the type is written from
    X.680 (\<open>x680_printable\<close>, \<open>best_type\<close>); texts with a NUL, where the code differs, have a lemma.
  \<^item> \<open>Date\<close>, \<open>Date_Properties\<close>: \<open>crypto/asn1/time_support.c\<close> against the Gregorian calendar: Julian
    days, offsets and differences are exact. \<open>int\<close>s are kept at 32 bits: \<open>date_to_julian_defined\<close> and
    \<open>julian_adj_defined\<close> say that no operation overflows, which holds for the years up to 1465072 and for
    offsets below 24856 days of seconds. \<open>gmtime_r\<close> of the C library is modelled there too.
  \<^item> \<open>Asn1_Time\<close>, \<open>Asn1_Time_Properties\<close>: \<open>crypto/asn1/a_utctm.c\<close>, \<open>a_gentm.c\<close> and \<open>a_time.c\<close>: a time
    that is set reads back as the same instant, differences are exact, the conversion keeps the
    time, and the readers stay inside a terminated block.
  \<^item> \<open>Stack\<close>, \<open>Stack_Properties\<close>: \<open>crypto/stack/stack.c\<close>, with an inductive reachability relation over
    the ordinary steps (\<open>sk_step\<close>) and those that may spoil the order (\<open>sk_overwrite\<close>: \<open>sk_set\<close> and deep
    copies by any function), with a flag that records whether one of the latter has happened.
  \<^item> \<open>Lhash\<close>, \<open>Lhash_Properties\<close>: \<open>crypto/lhash/lhash.c\<close>, an instance of \<open>keyed_table\<close>: a
    finite map, where every operation has a heap of its own and an insertion is refused exactly when
    that heap refuses the new item.
  \<^item> \<open>Base64\<close>, \<open>Base64_Properties\<close>: \<open>crypto/base64/base64.c\<close>, block and streaming codecs.
  \<^item> \<open>Modes\<close>, \<open>Modes_Stream\<close>, \<open>Modes_Bytewise\<close>, \<open>Modes_Counter\<close>, \<open>Modes_Cbc\<close>, \<open>Modes_Properties\<close>: the modes
    of operation of \<open>crypto/fipsmodule/modes\<close> (\<open>ctr.c\<close>, \<open>ofb.c\<close>, \<open>cfb.c\<close>, \<open>cbc.c\<close>), over the interfaces
    \<open>stream_mode\<close>, \<open>pad_mode\<close> and \<open>bytewise\<close>. Input and output are addresses in one memory, so the
    calls in place and with overlapping buffers are covered; the block cipher is a parameter. The
    calls are reduced to steps over single bytes or blocks; from these follow that a text can be
    cut into calls anywhere, that decryption undoes encryption, and that the counter of 32 bits
    is the counter of 128 bits.
  \<^item> \<open>Pb_Stream\<close>, \<open>Pb_Encode\<close>, \<open>Pb_Decode\<close>, \<open>Pb_Properties\<close>: the streams, primitive values and
    scalar fields of \<open>nanopb/pb_encode.c\<close> and \<open>nanopb/pb_decode.c\<close>.

  \<^item> \<open>Varint\<close>: base 128 and the bytes of a word, the reference that nanopb and the database share.
  \<^item> \<open>Ldb_Coding\<close>, \<open>Ldb_Crc32c\<close>, \<open>Ldb_Properties\<close>: of the local database \<open>leveldb-library\<close> the encodings
    of numbers and strings (\<open>util/coding.cc\<close>, \<open>util/coding.h\<close>), over the interfaces \<open>prefix_codec\<close> and
    \<open>varint_reader\<close>, and the checksum (\<open>util/crc32c.cc\<close>, \<open>util/crc32c.h\<close>): its five tables and its
    strided loops compute CRC-32C, which is stated one bit at a time.

  \<^bold>\<open>Loops.\<close> Every loop is total: structural recursion, or a measure on what is left to read, write
  or search. No definition uses fuel.

  \<^bold>\<open>Not modelled.\<close> The Swift application and the Objective-C and C++ dependencies (user interface,
  network, threads, files); generated code and tables; of nanopb the message level, which needs the
  generated descriptors; of the store its files, tables and caches; of the crypto library the algorithms on big numbers and curves, the block
  ciphers themselves and digests, certificates, TLS and everything that calls the operating system.
  Except in the modes of operation, pointer aliasing between the arguments of a call is outside the
  model: the arguments are disjoint blocks.
\<close>

end
